(* ===== verification/Prelude.thy ===== *)
theory Prelude
  imports Main "HOL-Library.Word" "HOL-Library.Monad_Syntax"
begin

text \<open>
  Shared vocabulary of the development: the machine integer types of the C code, byte
  buffers with checked reads, little-endian encodings (the code stores multi-byte fields
  through pointers on x86, a little-endian machine), and the collections of rewrite rules the
  component theories add to.

  A buffer is the list of the bytes that may be accessed from a pointer on. A read that would
  leave the buffer is \<open>None\<close>: C leaves such a read undefined, so every theorem that says
  a result is \<open>Some r\<close> also says that the code stays inside the buffer.
\<close>

unbundle bit_operations_syntax

type_synonym u8 = "8 word"
type_synonym u16 = "16 word"
type_synonym u32 = "32 word"
type_synonym u64 = "64 word"
type_synonym bytes = "8 word list"
type_synonym status = int

named_theorems enc_defs "definitions of the byte layouts"
named_theorems read_simps "reads from buffers"

section \<open>Checked reads\<close>

definition get8 :: "bytes \<Rightarrow> nat \<Rightarrow> u8 option" where
  "get8 p i = (if i < length p then Some (p ! i) else None)"

text \<open>Little-endian bytes of a word, and the word a list of bytes spells.\<close>

fun le_bytes :: "nat \<Rightarrow> 'a::len word \<Rightarrow> bytes" where
  "le_bytes 0 w = []"
| "le_bytes (Suc n) w = ucast w # le_bytes n (drop_bit 8 w)"

fun of_le :: "bytes \<Rightarrow> 'a::len word" where
  "of_le [] = 0"
| "of_le (b # bs) = ucast b OR push_bit 8 (of_le bs)"

definition get_le :: "nat \<Rightarrow> bytes \<Rightarrow> nat \<Rightarrow> 'a::len word option" where
  "get_le k p i = (if i + k \<le> length p then Some (of_le (take k (drop i p))) else None)"

definition get16 :: "bytes \<Rightarrow> nat \<Rightarrow> u16 option" where "get16 = get_le 2"
definition get32 :: "bytes \<Rightarrow> nat \<Rightarrow> u32 option" where "get32 = get_le 4"
definition get64 :: "bytes \<Rightarrow> nat \<Rightarrow> u64 option" where "get64 = get_le 8"

text \<open>A read through a pointer that may lie before the buffer (a computed footer address).\<close>

definition get32_at :: "bytes \<Rightarrow> int \<Rightarrow> u32 option" where
  "get32_at p i = (if i < 0 then None else get32 p (nat i))"

text \<open>
  A chain of byte comparisons joined by \<open>&&\<close>: C stops at the first mismatch, so later
  bytes are not read.
\<close>

fun match8 :: "bytes \<Rightarrow> (nat \<times> u8) list \<Rightarrow> bool option" where
  "match8 p [] = Some True"
| "match8 p ((i, v) # r) =
     (case get8 p i of None \<Rightarrow> None | Some b \<Rightarrow> if b = v then match8 p r else Some False)"

lemma length_le_bytes [simp]: "length (le_bytes n w) = n"
  by (induction n arbitrary: w) auto

lemma bit_of_le_Nil [simp]: "\<not> bit (of_le [] :: 'a::len word) n"
  by simp

lemma of_le_le_bytes: "of_le (le_bytes n w) = (take_bit (8 * n) w :: 'a::len word)"
proof (induction n arbitrary: w)
  case 0
  then show ?case by simp
next
  case (Suc n)
  have "bit (ucast (ucast w :: u8) OR push_bit 8 (take_bit (8 * n) (drop_bit 8 w))) i
      = bit (take_bit (8 * Suc n) w) i" if "i < LENGTH('a)" for i
    using that by (auto simp: bit_simps)
  then show ?case
    by (auto intro!: bit_word_eqI simp: Suc)
qed

lemma of_le_roundtrip: "LENGTH('a) \<le> 8 * n \<Longrightarrow> of_le (le_bytes n w) = (w :: 'a::len word)"
  by (simp add: of_le_le_bytes take_bit_word_eq_self)

lemma get8_append1 [read_simps]: "i < length xs \<Longrightarrow> get8 (xs @ ys) i = Some (xs ! i)"
  by (simp add: get8_def nth_append)

lemma get_le_drop: "get_le k (xs @ ys) (length xs + i) = get_le k ys i"
  by (simp add: get_le_def)

lemma get_le_app: "get_le k (xs @ le_bytes k w @ ys) (length xs)
    = Some (of_le (le_bytes k w))"
  by (simp add: get_le_def)

lemma get_le_at:
  "n = length xs \<Longrightarrow> LENGTH('a) \<le> 8 * k \<Longrightarrow>
   get_le k (xs @ le_bytes k w @ ys) n = Some (w :: 'a::len word)"
  by (simp add: get_le_app of_le_roundtrip)

lemma get16_at: "n = length xs \<Longrightarrow> get16 (xs @ le_bytes 2 w @ ys) n = Some w"
  by (simp add: get16_def get_le_at)

lemma get32_bytes: "n = length xs \<Longrightarrow> get32 (xs @ le_bytes 4 w @ ys) n = Some w"
  by (simp add: get32_def get_le_at)

lemma get64_at: "n = length xs \<Longrightarrow> get64 (xs @ le_bytes 8 w @ ys) n = Some w"
  by (simp add: get64_def get_le_at)

lemma le_bytes_of_le: "length bs = n \<Longrightarrow> 8 * n \<le> LENGTH('a) \<Longrightarrow>
   le_bytes n (of_le bs :: 'a::len word) = bs"
proof (induction n arbitrary: bs)
  case 0
  then show ?case by simp
next
  case (Suc n)
  then obtain b cs where bs: "bs = b # cs" and len: "length cs = n"
    by (cases bs) auto
  let ?w = "of_le cs :: 'a word"
  have lo: "(ucast (ucast b OR push_bit 8 ?w) :: u8) = b"
    by (rule bit_word_eqI) (use Suc.prems in \<open>auto simp: bit_simps\<close>)
  have IH: "le_bytes n ?w = cs"
    using Suc len by simp
  have tb: "take_bit (8 * n) ?w = ?w"
    using of_le_le_bytes [of n ?w] IH by simp
  have hi: "drop_bit 8 (ucast b OR push_bit 8 ?w) = ?w"
  proof (rule bit_word_eqI)
    fix i assume i: "i < LENGTH('a)"
    have "bit ?w i \<Longrightarrow> i < 8 * n"
      using arg_cong [OF tb, of "\<lambda>x. bit x i"] by (auto simp: bit_simps)
    then show "bit (drop_bit 8 (ucast b OR push_bit 8 ?w)) i = bit ?w i"
      using i Suc.prems by (auto simp: bit_simps dest: bit_imp_le_length)
  qed
  show ?case
    by (simp only: bs of_le.simps le_bytes.simps lo hi IH)
qed

lemma get8_le [simp]: "i < length p \<Longrightarrow> get8 p i = Some (p ! i)"
  by (simp add: get8_def)

lemma get8_None: "length p \<le> i \<Longrightarrow> get8 p i = None"
  by (simp add: get8_def)

lemma get_le_Some: "i + k \<le> length p \<Longrightarrow> get_le k p i = Some (of_le (take k (drop i p)))"
  by (simp add: get_le_def)

lemma match8_Some: "\<forall>(i, v) \<in> set r. i < length p \<Longrightarrow>
    match8 p r = Some (\<forall>(i, v) \<in> set r. p ! i = v)"
  by (induction r) auto

lemma get32_Some: "i + 4 \<le> length p \<Longrightarrow> \<exists>w. get32 p i = Some w"
  by (simp add: get32_def get_le_def)

lemma get32_at_Some: "0 \<le> i \<Longrightarrow> i + 4 \<le> int (length p) \<Longrightarrow> \<exists>w. get32_at p i = Some w"
  by (simp add: get32_at_def get32_Some)

lemma get32_at_int [simp]: "get32_at p (int k) = get32 p k"
  by (simp add: get32_at_def)

lemma get32_at_diff: "j \<le> i \<Longrightarrow> get32_at p (int i - int j) = get32 p (i - j)"
  using get32_at_int [of p "i - j"] by (simp add: of_nat_diff)

lemma find_append:
  "find P (xs @ ys) = (case find P xs of Some x \<Rightarrow> Some x | None \<Rightarrow> find P ys)"
  by (induction xs) auto

section \<open>Word arithmetic\<close>

lemma unat_add_no_wrap:
  "unat (a :: 'a::len word) + unat b < 2 ^ LENGTH('a) \<Longrightarrow> unat (a + b) = unat a + unat b"
  by (simp add: unat_word_ariths)

lemma unat_sub_le: "b \<le> a \<Longrightarrow> unat (a - b :: 'a::len word) = unat a - unat b"
  by (rule unat_sub)

lemma unat_ucast_up:
  "LENGTH('a) \<le> LENGTH('b) \<Longrightarrow> unat (ucast (w :: 'a::len word) :: 'b::len word) = unat w"
proof -
  assume "LENGTH('a) \<le> LENGTH('b)"
  then have "(2 :: nat) ^ LENGTH('a) \<le> 2 ^ LENGTH('b)" by simp
  then have "unat w < 2 ^ LENGTH('b)"
    using unsigned_less [of w, where ?'a = nat] by linarith
  then show ?thesis by (simp add: unsigned_ucast_eq take_bit_nat_eq_self)
qed

lemma unat_ucast_32_64 [simp]: "unat (ucast (w :: u32) :: u64) = unat w"
  by (rule unat_ucast_up) simp

text \<open>The test \<open>n & (n - 1)\<close> for a power of two.\<close>

lemma and_pred_nat: "0 < (n :: nat) \<Longrightarrow> (n AND (n - 1) = 0) \<longleftrightarrow> (\<exists>k. n = 2 ^ k)"
proof (induction n rule: less_induct)
  case (less n)
  note rec = and_rec [of n "n - 1"]
  show ?case
  proof (cases "even n")
    case True
    then obtain m where n: "n = 2 * m" by blast
    then have m: "0 < m" "m < n" using less.prems by auto
    have "(2 * m - 1) div 2 = m - 1" using m(1) by simp
    then have "n AND (n - 1) = 2 * (m AND (m - 1))" using rec n by simp
    moreover have "(\<exists>k. 2 * m = 2 ^ k) \<longleftrightarrow> (\<exists>k. m = 2 ^ k)"
    proof
      assume "\<exists>k. 2 * m = 2 ^ k"
      then obtain k where k: "2 * m = 2 ^ k" ..
      then have "k \<noteq> 0" using m(1) by (cases k) auto
      then show "\<exists>k. m = 2 ^ k" using k by (cases k) auto
    qed (metis power_Suc)
    ultimately show ?thesis using less.IH [OF m(2) m(1)] n by simp
  next
    case False
    then obtain m where n: "n = 2 * m + 1" by (rule oddE)
    then have "n AND (n - 1) = 2 * (m AND m)" using rec by simp
    moreover have "(\<exists>k. n = 2 ^ k) \<longleftrightarrow> m = 0"
    proof
      assume "\<exists>k. n = 2 ^ k"
      then obtain k where "n = 2 ^ k" ..
      then show "m = 0" using n False by (cases k) auto
    qed (use n in \<open>auto intro: exI [of _ 0]\<close>)
    ultimately show ?thesis by simp
  qed
qed

lemma and_pred_word:
  fixes w :: u32
  assumes "w \<noteq> 0"
  shows "(w AND (w - 1) = 0) \<longleftrightarrow> (\<exists>k. unat w = 2 ^ k)"
proof -
  have "0 < unat w" using assms by (simp add: unat_gt_0)
  moreover have "unat (w - 1) = unat w - 1"
    using assms by (rule unat_minus_one)
  ultimately show ?thesis
    using and_pred_nat [of "unat w"]
    by (simp add: unsigned_and_eq flip: unat_eq_zero)
qed

end
