(* ===== verification/SevenRead.thy ===== *)
theory SevenRead
  imports Prelude
begin

text \<open>
  Reading and writing the headers of 7z archives (\<^verbatim>\<open>src/utils/qzip_7z.c\<close>): the file as its bytes with a
  position, numbers of variable length, and what a reader and a writer of the same thing owe each other, as the locale \<open>codec\<close>.
\<close>

section \<open>The file as it is read\<close>

text \<open>What a reading function comes to: a value and the new position, a null pointer, the end of the process because the file is at
  its end, an access outside an array, or more rounds of a loop than it was given.\<close>

datatype 'a seen = Seen 'a nat | Refused | Eof | Overrun | Spin

type_synonym 'a rd = "bytes \<Rightarrow> nat \<Rightarrow> 'a seen"

definition rret :: "'a \<Rightarrow> 'a rd" where
  "rret x f p = Seen x p"

definition rfail :: "'a rd" where
  "rfail f p = Refused"

definition rover :: "'a rd" where
  "rover f p = Overrun"

definition rspin :: "'a rd" where
  "rspin f p = Spin"

definition rbind :: "'a rd \<Rightarrow> ('a \<Rightarrow> 'b rd) \<Rightarrow> 'b rd" where
  "rbind r k f p = (case r f p of Seen x q \<Rightarrow> k x f q | Refused \<Rightarrow> Refused | Eof \<Rightarrow> Eof | Overrun \<Rightarrow> Overrun | Spin \<Rightarrow> Spin)"

definition fread :: "nat \<Rightarrow> bytes rd" where
  "fread n f p = (if p + n \<le> length f then Seen (take n (drop p f)) (p + n) else Eof)"

definition readByte :: "u8 rd" where
  "readByte = rbind (fread 1) (\<lambda>b. rret (b ! 0))"

text \<open>Moving before the start of the file fails and is not noticed; the number is cut to an \<^verbatim>\<open>int\<close>.\<close>

definition skipNByte :: "u64 \<Rightarrow> unit rd" where
  "skipNByte n f p = (let q = int p + sint (ucast n :: u32) in Seen () (if q < 0 then p else nat q))"

definition readCRC :: "u32 rd" where
  "readCRC = rbind (fread 4) (\<lambda>b. rret (of_le b))"

primrec read_n :: "nat \<Rightarrow> 'a rd \<Rightarrow> 'a list rd" where
  "read_n 0 r = rret []"
| "read_n (Suc n) r = rbind r (\<lambda>x. rbind (read_n n r) (\<lambda>xs. rret (x # xs)))"

section \<open>Readers of what was written\<close>

definition reads :: "'a rd \<Rightarrow> bytes \<Rightarrow> 'a \<Rightarrow> bool" where
  "reads r bs x \<longleftrightarrow> (\<forall>pre post. r (pre @ bs @ post) (length pre) = Seen x (length pre + length bs))"

named_theorems read_rules "readers of what was written"

lemma reads_ret [read_rules]: "reads (rret x) [] x"
  by (simp add: reads_def rret_def)

lemma reads_bind: "reads r bs x \<Longrightarrow> reads (k x) cs y \<Longrightarrow> reads (rbind r k) (bs @ cs) y"
proof -
  assume r: "reads r bs x" and k: "reads (k x) cs y"
  show ?thesis unfolding reads_def
  proof (intro allI)
    fix pre post
    have "r (pre @ bs @ cs @ post) (length pre) = Seen x (length pre + length bs)" using r by (simp add: reads_def)
    moreover have "k x ((pre @ bs) @ cs @ post) (length (pre @ bs)) = Seen y (length (pre @ bs) + length cs)"
      using k unfolding reads_def by blast
    ultimately show "rbind r k (pre @ (bs @ cs) @ post) (length pre) = Seen y (length pre + length (bs @ cs))"
      by (simp add: rbind_def add.assoc)
  qed
qed

lemma reads_map: "reads r bs x \<Longrightarrow> y = g x \<Longrightarrow> reads (rbind r (\<lambda>x. rret (g x))) bs y"
  using reads_bind [of r bs x "\<lambda>x. rret (g x)" "[]" "g x"] reads_ret [of "g x"] by simp

lemma reads_fread [read_rules]: "n = length bs \<Longrightarrow> reads (fread n) bs bs"
  by (simp add: reads_def fread_def)

lemma reads_byte [read_rules]: "reads readByte [b] b"
  unfolding readByte_def by (rule reads_map [OF reads_fread]) simp_all

lemma reads_crc [read_rules]: "reads readCRC (le_bytes 4 w) w"
  unfolding readCRC_def by (rule reads_map [OF reads_fread]) (simp_all add: of_le_roundtrip)

lemma reads_skip: "n = of_nat (length bs) \<Longrightarrow> length bs < 2 ^ 31 \<Longrightarrow> reads (skipNByte n) bs ()"
proof -
  assume n: "n = of_nat (length bs)" and l: "length bs < 2 ^ 31"
  have "uint (ucast n :: u32) = int (length bs)"
    using l unfolding n by (simp add: unsigned_ucast_eq unsigned_of_nat take_bit_nat_eq_self take_bit_of_nat)
  then have "sint (ucast n :: u32) = int (length bs)"
    using l by (simp add: sint_uint signed_take_bit_int_eq_self)
  then show ?thesis by (simp add: reads_def skipNByte_def Let_def nat_int_add)
qed

text \<open>The contract of a writer and a reader: what \<open>enc\<close> writes, \<open>dec\<close> reads as \<open>view\<close> and stands behind it.\<close>

locale codec =
  fixes enc :: "'a \<Rightarrow> bytes" and dec :: "'b rd" and view :: "'a \<Rightarrow> 'b" and ok :: "'a \<Rightarrow> bool"
  assumes reads_enc: "ok x \<Longrightarrow> reads dec (enc x) (view x)"
begin

lemma reads_list: "list_all ok xs \<Longrightarrow> n = length xs \<Longrightarrow> reads (read_n n dec) (concat (map enc xs)) (map view xs)"
proof (induction xs arbitrary: n)
  case Nil
  then show ?case by (simp add: reads_ret)
next
  case (Cons x xs)
  have o: "ok x" and os: "list_all ok xs" using Cons.prems by simp_all
  have l: "reads (rbind (read_n (length xs) dec) (\<lambda>ys. rret (view x # ys))) (concat (map enc xs)) (view x # map view xs)"
    by (rule reads_map [OF Cons.IH [OF os refl] refl])
  have "reads (rbind dec (\<lambda>y. rbind (read_n (length xs) dec) (\<lambda>ys. rret (y # ys)))) (enc x @ concat (map enc xs)) (view x # map view xs)"
    by (rule reads_bind [where x = "view x"]) (rule reads_enc [OF o], rule l)
  then show ?case using Cons.prems by simp
qed

end

section \<open>Numbers\<close>

definition first_byte_table :: "u8 list" where
  "first_byte_table = [0, 0x80, 0xc0, 0xe0, 0xf0, 0xf8, 0xfc, 0xfe, 0xff]"

definition extra_byte_boundary :: "u64 list" where
  "extra_byte_boundary = [0x0, 0x7f, 0x3fff, 0x1fffff, 0xfffffff, 0x7ffffffff, 0x3ffffffffff, 0x1ffffffffffff, 0xffffffffffffff]"

definition getExtraByteNum2 :: "u8 \<Rightarrow> nat" where
  "getExtraByteNum2 first =
    (if first = 0xff then 8
     else length (takeWhile (\<lambda>i. \<not> (first_byte_table ! i \<le> first \<and> first < first_byte_table ! (i + 1))) [0..<8]))"

definition getExtraByteNum :: "u64 \<Rightarrow> nat" where
  "getExtraByteNum n =
    (if n = 0 then 0 else let i = length (takeWhile (\<lambda>b. b < n) extra_byte_boundary) in if i \<noteq> 0 then i - 1 else i)"

primrec low_bytes :: "nat \<Rightarrow> u64 \<Rightarrow> bytes" where
  "low_bytes 0 n = []"
| "low_bytes (Suc k) n = ucast (n mod 0x100) # low_bytes k (n div 0x100)"

definition getUint64Bytes :: "u64 \<Rightarrow> bytes" where
  "getUint64Bytes n =
    (let extra = getExtraByteNum n; number = ((\<lambda>x. x div 0x100) ^^ extra) n
     in ucast (number OR ucast (first_byte_table ! extra)) # low_bytes extra n)"

definition prefix_bits :: "nat \<Rightarrow> u8" where
  "prefix_bits extra = sum_list (map (\<lambda>i. push_bit (7 - i) 1) [0..<extra])"

definition getU64FromBytes :: "u64 rd" where
  "getU64FromBytes = rbind readByte (\<lambda>c. let extra = getExtraByteNum2 c in
     rbind (read_n extra readByte) (\<lambda>bs.
       let buf = (if extra \<noteq> 7 \<and> extra \<noteq> 8 then bs @ [c AND NOT (prefix_bits extra)] else bs)
       in rret (of_le (buf @ replicate (8 - length buf) 0))))"

lemma div_100: "(n :: u64) div 0x100 = drop_bit 8 n"
  by (simp add: drop_bit_eq_div)

lemma low_bytes_le: "low_bytes k n = le_bytes k n"
proof (induction k arbitrary: n)
  case (Suc k)
  have "(0x100 :: u64) = 2 ^ 8" by simp
  then have "n mod 0x100 = take_bit 8 n" by (simp add: take_bit_eq_mod)
  then have "(ucast (n mod 0x100) :: u8) = ucast n" by (auto intro!: bit_word_eqI simp: bit_simps)
  then show ?case by (simp add: Suc div_100)
qed simp

lemma div_steps: "((\<lambda>x. (x :: u64) div 0x100) ^^ k) n = drop_bit (8 * k) n"
  by (induction k) (simp_all add: div_100 drop_bit_drop_bit)

lemma le_bytes_append: "le_bytes (a + b) w = le_bytes a w @ le_bytes b (drop_bit (8 * a) w)"
  by (induction a arbitrary: w) (simp_all add: drop_bit_drop_bit add.commute)

lemma le_bytes_zero: "le_bytes k (0 :: 'a::len word) = replicate k 0"
  by (induction k) simp_all

lemma extra_cases: "getExtraByteNum n =
   (if n \<le> 0x7f then 0 else if n \<le> 0x3fff then 1 else if n \<le> 0x1fffff then 2 else if n \<le> 0xfffffff then 3
    else if n \<le> 0x7ffffffff then 4 else if n \<le> 0x3ffffffffff then 5 else if n \<le> 0x1ffffffffffff then 6
    else if n \<le> 0xffffffffffffff then 7 else 8)"
proof (cases "n = 0")
  case False
  then have "0 < n" by (simp add: word_neq_0_conv)
  then show ?thesis by (simp add: getExtraByteNum_def extra_byte_boundary_def Let_def not_le)
qed (simp add: getExtraByteNum_def)

lemma extra_bytes: "getExtraByteNum n \<le> 8" "getExtraByteNum n < 8 \<Longrightarrow> unat n < 2 ^ (7 * (getExtraByteNum n + 1))"
  unfolding extra_cases by (auto simp: word_le_nat_alt split: if_splits)

text \<open>The first byte has the count in its high bits and the rest of the number in its low ones.\<close>

definition first_byte_ok :: "nat \<Rightarrow> bool" where
  "first_byte_ok e = (\<forall>x \<in> set [0..<2 ^ (7 - e)]. getExtraByteNum2 (of_nat x OR first_byte_table ! e) = e \<and>
     (of_nat x OR first_byte_table ! e) AND NOT (prefix_bits e) = (of_nat x :: u8))"

lemma first_byte_ok_0: "first_byte_ok 0"
  by (simp add: first_byte_ok_def upt_rec getExtraByteNum2_def prefix_bits_def first_byte_table_def)

lemma first_byte_ok_1: "first_byte_ok 1"
  by (simp add: first_byte_ok_def upt_rec getExtraByteNum2_def prefix_bits_def first_byte_table_def)

lemma first_byte_ok_2: "first_byte_ok 2"
  by (simp add: first_byte_ok_def upt_rec getExtraByteNum2_def prefix_bits_def first_byte_table_def)

lemma first_byte_ok_3: "first_byte_ok 3"
  by (simp add: first_byte_ok_def upt_rec getExtraByteNum2_def prefix_bits_def first_byte_table_def)

lemma first_byte_ok_4: "first_byte_ok 4"
  by (simp add: first_byte_ok_def upt_rec getExtraByteNum2_def prefix_bits_def first_byte_table_def)

lemma first_byte_ok_5: "first_byte_ok 5"
  by (simp add: first_byte_ok_def upt_rec getExtraByteNum2_def prefix_bits_def first_byte_table_def)

lemma first_byte_ok_6: "first_byte_ok 6"
  by (simp add: first_byte_ok_def upt_rec getExtraByteNum2_def prefix_bits_def first_byte_table_def)

lemma first_byte_ok_7: "first_byte_ok 7"
  by (simp add: first_byte_ok_def upt_rec getExtraByteNum2_def prefix_bits_def first_byte_table_def)

lemma first_byte: "e < 8 \<Longrightarrow> unat h < 2 ^ (7 - e) \<Longrightarrow> getExtraByteNum2 (h OR first_byte_table ! e) = e \<and>
    (h OR first_byte_table ! e) AND NOT (prefix_bits e) = h"
proof -
  assume e: "e < 8" and h: "unat h < 2 ^ (7 - e)"
  have "e \<in> {0, 1, 2, 3, 4, 5, 6, 7}" using e by auto
  then have "first_byte_ok e" by (auto simp: first_byte_ok_0 first_byte_ok_1 first_byte_ok_2 first_byte_ok_3 first_byte_ok_4 first_byte_ok_5 first_byte_ok_6 first_byte_ok_7 simp del: One_nat_def)
  then show ?thesis unfolding first_byte_ok_def using h by (auto dest: bspec [where x = "unat h"])
qed

lemma number_spec: "getExtraByteNum n = e \<Longrightarrow> e < 8 \<Longrightarrow> unat (drop_bit (8 * e) n) < 2 ^ (7 - e)"
proof -
  assume e: "getExtraByteNum n = e" "e < 8"
  then have "unat n < 2 ^ (7 * (e + 1))" using extra_bytes(2) [of n] by simp
  also have "(7 * (e + 1)) = (7 - e) + 8 * e" using e(2) by simp
  finally have "unat n < 2 ^ (7 - e) * 2 ^ (8 * e)" by (simp add: power_add)
  then have "unat n div 2 ^ (8 * e) < 2 ^ (7 - e)" by (simp add: less_mult_imp_div_less)
  then have "drop_bit (8 * e) (unat n) < 2 ^ (7 - e)" by (simp only: drop_bit_eq_div)
  then show ?thesis by (simp only: unat_drop_bit_eq)
qed

lemma reads_bytes: "n = length bs \<Longrightarrow> reads (read_n n readByte) bs bs"
proof (induction bs arbitrary: n)
  case (Cons b bs)
  have "reads (rbind (read_n (length bs) readByte) (\<lambda>ys. rret (b # ys))) bs (b # bs)"
    by (rule reads_map [OF Cons.IH [OF refl] refl])
  then have "reads (rbind readByte (\<lambda>c. rbind (read_n (length bs) readByte) (\<lambda>ys. rret (c # ys)))) ([b] @ bs) (b # bs)"
    by (rule reads_bind [OF reads_byte, where k = "\<lambda>c. rbind (read_n (length bs) readByte) (\<lambda>ys. rret (c # ys))"])
  then show ?case using Cons.prems by simp
qed (simp add: reads_ret)

text \<open>The bytes after the first and what the first one adds are the number.\<close>

lemma number_bytes:
  assumes e: "getExtraByteNum n = e" and h: "e < 8 \<Longrightarrow> h = ucast (drop_bit (8 * e) n)"
  shows "(if e \<noteq> 7 \<and> e \<noteq> 8 then low_bytes e n @ [h] else low_bytes e n) @ replicate (8 - length (if e \<noteq> 7 \<and> e \<noteq> 8 then low_bytes e n @ [h] else low_bytes e n)) 0 = le_bytes 8 n"
proof (cases "e < 8")
  case True
  let ?w = "drop_bit (8 * e) n"
  have w: "unat ?w < 2 ^ (7 - e)" by (rule number_spec [OF e True])
  have "(2 :: nat) ^ (7 - e) \<le> 2 ^ 7" by (rule power_increasing) simp_all
  then have "drop_bit 8 ?w = 0" using w by (simp add: drop_bit_eq_div unat_eq_zero [symmetric] unat_div div_eq_0_iff del: unat_eq_zero)
  then have "le_bytes (Suc (7 - e)) ?w = h # replicate (7 - e) 0" using h [OF True] by (simp add: le_bytes_zero)
  moreover have "8 = e + Suc (7 - e)" using True by simp
  then have "le_bytes 8 n = le_bytes e n @ le_bytes (Suc (7 - e)) ?w" by (metis le_bytes_append)
  moreover have "h = 0" if "e = 7" using h [OF True] w that by (simp add: unat_eq_0)
  ultimately show ?thesis using True by (auto simp: low_bytes_le)
next
  case False
  then have "e = 8" using extra_bytes [of n] e by simp
  then show ?thesis by (simp add: low_bytes_le)
qed

lemma reads_number: "reads getU64FromBytes (getUint64Bytes n) n"
proof -
  define e where "e = getExtraByteNum n"
  define h where "h = (ucast (drop_bit (8 * e) n) :: u8)"
  define c where "c = (if e < 8 then h OR first_byte_table ! e else 0xff)"
  have le: "e \<le> 8" using extra_bytes [of n] by (simp add: e_def)
  have bytes: "getUint64Bytes n = [c] @ low_bytes e n"
  proof (cases "e < 8")
    case True
    have "(ucast (drop_bit (8 * e) n OR ucast (first_byte_table ! e)) :: u8) = h OR first_byte_table ! e"
      unfolding h_def by (rule bit_word_eqI) (auto simp: bit_simps)
    then show ?thesis using True by (simp add: getUint64Bytes_def Let_def e_def [symmetric] div_steps c_def)
  next
    case False
    then have e8: "e = 8" using le by simp
    have "drop_bit 64 n = 0" by (rule bit_word_eqI) (auto simp: bit_simps dest: bit_imp_le_length)
    then show ?thesis using e8 by (simp add: getUint64Bytes_def Let_def e_def [symmetric] div_steps c_def first_byte_table_def)
  qed
  have small: "unat h < 2 ^ (7 - e)" if "e < 8"
  proof -
    have w: "unat (drop_bit (8 * e) n) < 2 ^ (7 - e)" using number_spec [OF e_def [symmetric] that] .
    have "(2 :: nat) ^ (7 - e) \<le> 2 ^ 7" by (rule power_increasing) simp_all
    then have "unat h = unat (drop_bit (8 * e) n)" using w unfolding h_def by (simp add: unsigned_ucast_eq take_bit_nat_eq_self)
    then show ?thesis using w by simp
  qed
  have c: "getExtraByteNum2 c = e" "e < 8 \<Longrightarrow> c AND NOT (prefix_bits e) = h"
    using first_byte [of e h] small le by (auto simp: c_def getExtraByteNum2_def)
  let ?buf = "if e \<noteq> 7 \<and> e \<noteq> 8 then low_bytes e n @ [c AND NOT (prefix_bits e)] else low_bytes e n"
  have "of_le (?buf @ replicate (8 - length ?buf) 0) = n"
  proof -
    have "?buf = (if e \<noteq> 7 \<and> e \<noteq> 8 then low_bytes e n @ [h] else low_bytes e n)" using c(2) le by auto
    then have "?buf @ replicate (8 - length ?buf) 0 = le_bytes 8 n" using number_bytes [OF e_def [symmetric], of h] by (simp only: h_def)
    then show ?thesis by (simp add: of_le_roundtrip)
  qed
  then have "reads (rbind (read_n e readByte) (\<lambda>bs. let buf = (if e \<noteq> 7 \<and> e \<noteq> 8 then bs @ [c AND NOT (prefix_bits e)] else bs)
       in rret (of_le (buf @ replicate (8 - length buf) 0)))) (low_bytes e n) n"
    unfolding Let_def by (intro reads_map [OF reads_bytes]) (simp_all add: low_bytes_le)
  then show ?thesis unfolding bytes getU64FromBytes_def by (intro reads_bind [OF reads_byte]) (simp add: c(1) Let_def)
qed

end
