(* ===== verification/SevenList.thy ===== *)
theory SevenList
  imports Prelude
begin

text \<open>
  The list of files of a 7z archive (\<^verbatim>\<open>src/utils/qzip_7z.c\<close>, \<^verbatim>\<open>qzListCreate\<close> to
  \<^verbatim>\<open>qzListGet\<close>, and \<^verbatim>\<open>src/utils/qzip.h\<close>): a chain of nodes with an array each, as the sequence of what was added. The contract of
  such a list is the locale \<open>growing_list\<close>.
\<close>

section \<open>The chain of nodes\<close>

record 'a qz_node =
  n_num :: u32
  n_used :: u32
  n_items :: "'a option list"

record 'a qz_list =
  l_total :: u32
  l_num :: u32
  l_next :: "'a qz_node list"

definition QZ7Z_LIST_DEFAULT_NUM_PER_NODE :: u32 where
  "QZ7Z_LIST_DEFAULT_NUM_PER_NODE = 1000"

definition new_node :: "u32 \<Rightarrow> 'a qz_node" where
  "new_node num = \<lparr>n_num = num, n_used = 0, n_items = replicate (unat num) None\<rparr>"

definition put_item :: "'a \<Rightarrow> 'a qz_node \<Rightarrow> 'a qz_node" where
  "put_item x nd = nd\<lparr>n_items := (n_items nd)[unat (n_used nd) := Some x], n_used := n_used nd + 1\<rparr>"

definition qzListCreate :: "int \<Rightarrow> 'a qz_list" where
  "qzListCreate num_per_node =
    (let num = (if num_per_node \<le> 0 then QZ7Z_LIST_DEFAULT_NUM_PER_NODE else of_int num_per_node)
     in \<lparr>l_total = 0, l_num = num, l_next = [new_node num]\<rparr>)"

text \<open>The first node that is not full takes the element; after the last node a new one is put.\<close>

primrec add_node :: "u32 \<Rightarrow> 'a \<Rightarrow> 'a qz_node list \<Rightarrow> 'a qz_node list" where
  "add_node num x [] = [put_item x (new_node num)]"
| "add_node num x (nd # nds) = (if n_used nd = n_num nd then nd # add_node num x nds else put_item x nd # nds)"

definition qzListAdd :: "'a qz_list \<Rightarrow> 'a \<Rightarrow> 'a qz_list" where
  "qzListAdd head x = head\<lparr>l_next := add_node (l_num head) x (l_next head), l_total := l_total head + 1\<rparr>"

definition qzListGet :: "'a qz_list \<Rightarrow> u32 \<Rightarrow> 'a option" where
  "qzListGet head index =
    (if l_total head \<le> index then None
     else (case drop (unat (index div l_num head)) (l_next head) of
         [] \<Rightarrow> None
       | nd # _ \<Rightarrow> if unat (index mod l_num head) < length (n_items nd) then n_items nd ! unat (index mod l_num head) else None))"

section \<open>The contract of a list that grows\<close>

locale growing_list =
  fixes new :: 'l and add :: "'l \<Rightarrow> 'a \<Rightarrow> 'l" and get :: "'l \<Rightarrow> nat \<Rightarrow> 'a option" and elems :: "'l \<Rightarrow> 'a list"
    and valid :: "'l \<Rightarrow> bool" and limit :: nat
  assumes valid_new: "valid new" and elems_new: "elems new = []"
    and valid_add: "valid l \<Longrightarrow> length (elems l) < limit \<Longrightarrow> valid (add l x)"
    and elems_add: "valid l \<Longrightarrow> length (elems l) < limit \<Longrightarrow> elems (add l x) = elems l @ [x]"
    and get_elems: "valid l \<Longrightarrow> i < length (elems l) \<Longrightarrow> get l i = Some (elems l ! i)"
begin

lemma add_all: "valid l \<Longrightarrow> length (elems l) + length xs \<le> limit \<Longrightarrow>
    valid (foldl add l xs) \<and> elems (foldl add l xs) = elems l @ xs"
proof (induction xs arbitrary: l)
  case (Cons x xs)
  have l: "length (elems l) < limit" using Cons.prems(2) by simp
  show ?case
    using Cons.IH [OF valid_add [OF Cons.prems(1) l, of x]] Cons.prems(2) by (simp add: elems_add [OF Cons.prems(1) l])
qed simp

lemma built: "length xs \<le> limit \<Longrightarrow> valid (foldl add new xs) \<and> elems (foldl add new xs) = xs"
  using add_all [OF valid_new, of xs] by (simp add: elems_new)

lemma get_all: "valid l \<Longrightarrow> map (get l) [0..<length (elems l)] = map Some (elems l)"
  by (rule nth_equalityI) (simp_all add: get_elems)

end

section \<open>The chain is such a list\<close>

definition node_items :: "'a qz_node \<Rightarrow> 'a list" where
  "node_items nd = map the (take (unat (n_used nd)) (n_items nd))"

definition node_ok :: "u32 \<Rightarrow> 'a qz_node \<Rightarrow> bool" where
  "node_ok num nd \<longleftrightarrow> n_num nd = num \<and> length (n_items nd) = unat num \<and> n_used nd \<le> num \<and>
     (\<forall>i < unat (n_used nd). n_items nd ! i \<noteq> None)"

primrec nodes_ok :: "u32 \<Rightarrow> 'a qz_node list \<Rightarrow> bool" where
  "nodes_ok num [] \<longleftrightarrow> True"
| "nodes_ok num (nd # nds) \<longleftrightarrow> node_ok num nd \<and> (nds \<noteq> [] \<longrightarrow> n_used nd = num) \<and> nodes_ok num nds"

definition list_items :: "'a qz_list \<Rightarrow> 'a list" where
  "list_items h = concat (map node_items (l_next h))"

definition list_ok :: "'a qz_list \<Rightarrow> bool" where
  "list_ok h \<longleftrightarrow> l_num h \<noteq> 0 \<and> nodes_ok (l_num h) (l_next h) \<and> unat (l_total h) = length (list_items h)"

lemma length_node_items: "node_ok num nd \<Longrightarrow> length (node_items nd) = unat (n_used nd)"
  by (auto simp: node_ok_def node_items_def word_le_nat_alt)

lemma new_node_ok: "node_ok num (new_node num)" "node_items (new_node num) = []"
  by (simp_all add: node_ok_def new_node_def node_items_def)

lemma put_item_ok:
  assumes nd: "node_ok num nd" and u: "n_used nd \<noteq> num"
  shows "node_ok num (put_item x nd)" "node_items (put_item x nd) = node_items nd @ [x]"
proof -
  have lt: "unat (n_used nd) < unat num" using nd u by (simp add: node_ok_def word_le_nat_alt word_unat_eq_iff)
  have su: "unat (n_used nd + 1) = Suc (unat (n_used nd))"
    using lt unsigned_less [where w = num and 'a = nat] by (simp add: unat_word_ariths)
  show "node_ok num (put_item x nd)"
    using nd lt su by (auto simp: node_ok_def put_item_def word_le_nat_alt less_Suc_eq nth_list_update)
  show "node_items (put_item x nd) = node_items nd @ [x]"
    using nd lt su by (simp add: node_items_def put_item_def node_ok_def take_Suc_conv_app_nth)
qed

lemma add_node_ok: "num \<noteq> 0 \<Longrightarrow> nodes_ok num nds \<Longrightarrow>
    nodes_ok num (add_node num x nds) \<and> concat (map node_items (add_node num x nds)) = concat (map node_items nds) @ [x]"
proof (induction nds)
  case Nil
  then show ?case using put_item_ok [OF new_node_ok(1), of num x] by (simp add: new_node_ok(2)) (simp add: new_node_def)
next
  case (Cons nd nds)
  show ?case
  proof (cases "n_used nd = num")
    case True
    then show ?thesis using Cons by (simp add: node_ok_def)
  next
    case False
    then show ?thesis using Cons.prems put_item_ok [of num nd x] by (auto simp: node_ok_def)
  qed
qed

lemma chain_nth: "num \<noteq> 0 \<Longrightarrow> nodes_ok num nds \<Longrightarrow> i < length (concat (map node_items nds)) \<Longrightarrow>
    \<exists>nd rest. drop (i div unat num) nds = nd # rest \<and> i mod unat num < length (n_items nd) \<and>
      n_items nd ! (i mod unat num) = Some (concat (map node_items nds) ! i)"
proof (induction nds arbitrary: i)
  case (Cons nd nds)
  have nd: "node_ok num nd" and ok: "nodes_ok num nds" using Cons.prems by simp_all
  have pos: "0 < unat num" using Cons.prems(1) by (simp add: unat_gt_0)
  have len: "length (node_items nd) = unat (n_used nd)" by (rule length_node_items [OF nd])
  have le: "unat (n_used nd) \<le> unat num" using nd by (simp add: node_ok_def word_le_nat_alt)
  show ?case
  proof (cases "i < unat (n_used nd)")
    case True
    then have i: "i < unat num" using le by simp
    have "n_items nd ! i \<noteq> None" using nd True by (simp add: node_ok_def)
    then have "n_items nd ! i = Some (node_items nd ! i)" using True nd le by (simp add: node_items_def node_ok_def)
    then show ?thesis using True i nd by (simp add: nth_append len node_ok_def)
  next
    case False
    then have nz: "nds \<noteq> []" using Cons.prems(3) by (auto simp: len)
    then have full: "unat (n_used nd) = unat num" using Cons.prems(2) by simp
    have "i - unat num < length (concat (map node_items nds))" using Cons.prems(3) False by (simp add: len full)
    from Cons.IH [OF Cons.prems(1) ok this]
    obtain nd' rest where g: "drop ((i - unat num) div unat num) nds = nd' # rest"
        "(i - unat num) mod unat num < length (n_items nd')"
        "n_items nd' ! ((i - unat num) mod unat num) = Some (concat (map node_items nds) ! (i - unat num))" by blast
    have ge: "unat num \<le> i" using False full by simp
    have d: "i div unat num = Suc ((i - unat num) div unat num)" using pos ge by (simp add: le_div_geq)
    have m: "i mod unat num = (i - unat num) mod unat num" using ge by (simp add: le_mod_geq)
    show ?thesis using g False by (simp add: d m nth_append len full)
  qed
qed simp

definition get_at :: "'a qz_list \<Rightarrow> nat \<Rightarrow> 'a option" where
  "get_at h i = qzListGet h (of_nat i)"

lemma create_ok: "0 < n \<Longrightarrow> n < 2 ^ 32 \<Longrightarrow> list_ok (qzListCreate n)" "list_items (qzListCreate n) = []"
proof -
  assume n: "0 < n" "n < 2 ^ 32"
  have "\<not> 2 ^ 32 dvd n" using n zdvd_imp_le [of "2 ^ 32" n] by auto
  then have "(of_int n :: u32) \<noteq> 0" by (simp add: word_of_int_eq_0_iff)
  then show "list_ok (qzListCreate n)"
    using n by (simp add: list_ok_def qzListCreate_def Let_def list_items_def new_node_ok)
qed (simp add: qzListCreate_def Let_def list_items_def new_node_ok)

lemma add_ok:
  assumes h: "list_ok h" and l: "length (list_items h) < 2 ^ 32 - 1"
  shows "list_ok (qzListAdd h x)" "list_items (qzListAdd h x) = list_items h @ [x]"
proof -
  have ok: "l_num h \<noteq> 0" "nodes_ok (l_num h) (l_next h)" and t: "unat (l_total h) = length (list_items h)"
    using h by (simp_all add: list_ok_def)
  note a = add_node_ok [OF ok, of x]
  show e: "list_items (qzListAdd h x) = list_items h @ [x]" using a by (simp add: list_items_def qzListAdd_def)
  have "unat (l_total h + 1) = Suc (unat (l_total h))" using l t by (simp add: unat_word_ariths)
  then show "list_ok (qzListAdd h x)" using a ok t e by (simp add: list_ok_def) (simp add: qzListAdd_def)
qed

lemma get_ok:
  assumes h: "list_ok h" and i: "i < length (list_items h)"
  shows "get_at h i = Some (list_items h ! i)"
proof -
  have ok: "l_num h \<noteq> 0" "nodes_ok (l_num h) (l_next h)" and t: "unat (l_total h) = length (list_items h)"
    using h by (simp_all add: list_ok_def)
  have "i < 2 ^ 32" using i t unsigned_less [where w = "l_total h" and 'a = nat] by simp
  then have u: "unat (of_nat i :: u32) = i" by (simp add: unat_of_nat)
  obtain nd rest where "drop (i div unat (l_num h)) (l_next h) = nd # rest" "i mod unat (l_num h) < length (n_items nd)"
      "n_items nd ! (i mod unat (l_num h)) = Some (list_items h ! i)"
    using chain_nth [OF ok, of i] i unfolding list_items_def by blast
  then show ?thesis using i t by (simp add: get_at_def qzListGet_def unat_div unat_mod u word_le_nat_alt not_le)
qed

lemma chain_grows: "0 < k \<Longrightarrow> k < 2 ^ 31 \<Longrightarrow> growing_list (qzListCreate k) qzListAdd get_at list_items list_ok (2 ^ 32 - 1)"
  by unfold_locales (simp_all add: create_ok add_ok get_ok)

interpretation dir_list: growing_list "qzListCreate 100" qzListAdd get_at list_items list_ok "2 ^ 32 - 1"
  by (rule chain_grows) simp_all

interpretation file_list: growing_list "qzListCreate 1000" qzListAdd get_at list_items list_ok "2 ^ 32 - 1"
  by (rule chain_grows) simp_all

end
