(* ===== verification/SevenGen.thy ===== *)
theory SevenGen
  imports SevenRead SevenList
begin

text \<open>
  The headers of a 7z archive as the program keeps them (\<^verbatim>\<open>src/utils/qzip.h\<close>) and the functions that make them from the
  list of files (\<^verbatim>\<open>src/utils/qzip_7z.c\<close>, \<^verbatim>\<open>fileItemCreate\<close>, \<^verbatim>\<open>scanFilesIntoCatagory\<close>
  and the \<^verbatim>\<open>generate\<close> functions). \<open>None\<close> is a null pointer used or an element outside an array; memory is always
  granted. The checksum of zlib is the parameter \<open>C\<close>.
\<close>

section \<open>Files\<close>

record file_item =
  fileName :: bytes
  isDir :: bool
  isEmpty :: bool
  isSymLink :: bool
  baseNameLength :: u32
  nameLength :: u32
  fsize :: u64
  fcrc :: u32
  attribute :: u32
  atime :: u64
  atime_nano :: u32
  mtime :: u64
  mtime_nano :: u32

definition file_item0 :: file_item where
  "file_item0 = \<lparr>fileName = [], isDir = False, isEmpty = False, isSymLink = False, baseNameLength = 0, nameLength = 0, fsize = 0, fcrc = 0,
     attribute = 0, atime = 0, atime_nano = 0, mtime = 0, mtime_nano = 0\<rparr>"

text \<open>What the system says of a file.\<close>

record stat_buf =
  st_mode :: u32
  st_size :: u64
  st_atime :: u64
  st_atime_nsec :: u32
  st_mtime :: u64
  st_mtime_nsec :: u32

definition S_ISLNK :: "u32 \<Rightarrow> bool" where "S_ISLNK m \<longleftrightarrow> m AND 0xf000 = 0xa000"
definition S_ISDIR :: "u32 \<Rightarrow> bool" where "S_ISDIR m \<longleftrightarrow> m AND 0xf000 = 0x4000"

type_synonym crc_fun = "u32 \<Rightarrow> bytes \<Rightarrow> u32"

definition SRC_BUFF_LEN :: nat where "SRC_BUFF_LEN = 512 * 1024 * 1024"
definition QZ7Z_ERR_OPEN :: int where "QZ7Z_ERR_OPEN = -201"

text \<open>The checksum of a file, a buffer at a time; a short read ends the process (\<open>None\<close>).\<close>

function crc_parts :: "crc_fun \<Rightarrow> u32 \<Rightarrow> bytes \<Rightarrow> nat \<Rightarrow> u32 option" where
  "crc_parts C crc file remaining =
    (if remaining = 0 then Some crc
     else let len = (if SRC_BUFF_LEN < remaining then SRC_BUFF_LEN else remaining)
       in if length file < len then None else crc_parts C (C crc (take len file)) (drop len file) (remaining - len))"
  by auto
termination
  by (relation "measure (\<lambda>(C, crc, file, remaining). remaining)") (auto simp: SRC_BUFF_LEN_def)

declare crc_parts.simps [simp del]

definition calculateCRC :: "crc_fun \<Rightarrow> bytes option \<Rightarrow> u64 \<Rightarrow> int option" where
  "calculateCRC C file n = (case file of None \<Rightarrow> Some QZ7Z_ERR_OPEN | Some bs \<Rightarrow> map_option uint (crc_parts C 0 bs (unat n)))"

definition calculateSymCRC :: "crc_fun \<Rightarrow> bytes \<Rightarrow> u64 \<Rightarrow> u32" where
  "calculateSymCRC C target n =
    (if (of_nat (length target) :: u32) \<noteq> ucast n then 0 else C 0 (take (unat n) target))"

text \<open>A new item from the name, what \<open>lstat\<close> says, the contents of the file (\<open>None\<close> when it cannot be opened) and the target of
  the link. The outer option is the end of the process, the inner one a null pointer.\<close>

definition fileItemCreate ::
    "crc_fun \<Rightarrow> bytes \<Rightarrow> stat_buf option \<Rightarrow> bytes option \<Rightarrow> bytes \<Rightarrow> file_item option option" where
  "fileItemCreate C f st contents target =
    (case st of None \<Rightarrow> Some None
     | Some buf \<Rightarrow>
       let p = file_item0\<lparr>nameLength := of_nat (length f + 1), fileName := f @ [0]\<rparr>;
           p = (if S_ISLNK (st_mode buf) then
                  Some (p\<lparr>isSymLink := True, fcrc := calculateSymCRC C target (st_size buf), fsize := st_size buf\<rparr>)
                else if S_ISDIR (st_mode buf) then Some (p\<lparr>isDir := True\<rparr>)
                else (case calculateCRC C contents (st_size buf) of None \<Rightarrow> None
                  | Some crc \<Rightarrow> Some (p\<lparr>fsize := st_size buf, isEmpty := (st_size buf = 0), fcrc := of_int crc\<rparr>)))
       in map_option (\<lambda>p. Some (p\<lparr>mtime := st_mtime buf, mtime_nano := st_mtime_nsec buf, atime := st_atime buf,
            atime_nano := st_atime_nsec buf, attribute := push_bit 16 (st_mode buf) OR 0x8000\<rparr>)) p)"

section \<open>The headers\<close>

record signature_header =
  signature :: bytes
  majorVersion :: u8
  minorVersion :: u8
  startHeaderCRC :: u32
  nextHeaderOffset :: u64
  nextHeaderSize :: u64
  nextHeaderCRC :: u32

record archive_property =
  p_id :: u64
  p_size :: u64
  p_data :: bytes

record pack_info =
  PackPos :: u64
  NumPackStreams :: u64
  PackSize :: "u64 list"

record coder =
  coderFirstByte :: u8
  codecID :: bytes

record folder_info =
  numCoders :: u64
  coder_list :: coder

record coders_info =
  numFolders :: u64
  folders :: "folder_info list"
  dataStreamIndex :: "u64 option"
  unPackSize :: "u64 list"

text \<open>An element of the array of checksums that was never written is \<open>None\<close>.\<close>

record digest =
  allAreDefined :: u8
  numStreams :: u64
  numDefined :: u64
  crcs :: "u32 option list"

record substreams_info =
  ss_numFolders :: u64
  numUnPackStreams :: "u64 list option"
  ss_unPackSize :: "u64 list option"
  digests :: "digest option"

record streams_info =
  packInfo :: "pack_info option"
  codersInfo :: "coders_info option"
  substreamsInfo :: "substreams_info option"

record files_info =
  files_num :: u64
  head_dirs :: "file_item qz_list"
  head_files :: "file_item qz_list"

record end_header =
  propertyInfo :: "archive_property option"
  streamsInfo :: "streams_info option"
  filesInfo :: "files_info option"

section \<open>The list of the files to compress\<close>

record catagory =
  cat_id :: u8
  cat_files :: "file_item qz_list"

record item_list =
  items_dirs :: "file_item qz_list"
  items_files :: "file_item qz_list"
  catas :: "catagory list"

definition g_category_names :: "string list" where "g_category_names = [''default'']"

definition cat_num :: "item_list \<Rightarrow> nat" where "cat_num l = length (catas l)"

definition createCatagoryList :: "catagory list" where
  "createCatagoryList = map (\<lambda>i. \<lparr>cat_id = of_nat i, cat_files = qzListCreate 1000\<rparr>) [0..<length g_category_names]"

definition getCatagory :: "catagory list \<Rightarrow> file_item \<Rightarrow> nat" where
  "getCatagory tbl p = 0"

primrec scan_files :: "file_item qz_list \<Rightarrow> nat list \<Rightarrow> catagory list \<Rightarrow> catagory list option" where
  "scan_files files [] tbl = Some tbl"
| "scan_files files (i # is) tbl =
    (case get_at files i of None \<Rightarrow> None
     | Some p \<Rightarrow> let k = getCatagory tbl p in
         if length tbl \<le> k then None
         else scan_files files is (tbl[k := (tbl ! k)\<lparr>cat_files := qzListAdd (cat_files (tbl ! k)) p\<rparr>]))"

definition scanFilesIntoCatagory :: "item_list \<Rightarrow> item_list option" where
  "scanFilesIntoCatagory l =
    map_option (\<lambda>tbl. l\<lparr>catas := tbl\<rparr>) (scan_files (items_files l) [0..<unat (l_total (items_files l))] (catas l))"

text \<open>The elements of a list, one \<open>qzListGet\<close> after another.\<close>

definition gather :: "'a qz_list \<Rightarrow> nat \<Rightarrow> 'a list option" where
  "gather h n = those (map (get_at h) [0..<n])"

lemma those_Some: "those (map Some xs) = Some xs"
  by (induction xs) simp_all

lemma gather_all: "list_ok h \<Longrightarrow> gather h (unat (l_total h)) = Some (list_items h)"
  using file_list.get_all [of h] by (simp add: gather_def list_ok_def those_Some)

lemma gather_take: "list_ok h \<Longrightarrow> n \<le> length (list_items h) \<Longrightarrow> gather h n = Some (take n (list_items h))"
proof -
  assume h: "list_ok h" and n: "n \<le> length (list_items h)"
  have "map (get_at h) [0..<n] = map Some (take n (list_items h))"
    by (rule nth_equalityI) (use h n in \<open>simp_all add: get_ok\<close>)
  then show ?thesis by (simp add: gather_def those_Some)
qed

section \<open>Making the headers\<close>

definition g_header_signature :: bytes where
  "g_header_signature = [0x37, 0x7a, 0xbc, 0xaf, 0x27, 0x1c]"

text \<open>The fields after the version are what the memory holds.\<close>

definition generateSignatureHeader :: "signature_header \<Rightarrow> signature_header" where
  "generateSignatureHeader garbage = garbage\<lparr>signature := g_header_signature, majorVersion := 0, minorVersion := 4\<rparr>"

definition QZ7Z_PROPERTY_ID_INTEL7Z_1001 :: u64 where
  "QZ7Z_PROPERTY_ID_INTEL7Z_1001 = 0x3f514154377a0a01"

definition g_property_data :: bytes where "g_property_data = [0x51, 0x41, 0x54]"
definition g_deflate_codecId :: bytes where "g_deflate_codecId = [4, 1, 8]"

definition generatePropertyInfo :: archive_property where
  "generatePropertyInfo = \<lparr>p_id = QZ7Z_PROPERTY_ID_INTEL7Z_1001, p_size = of_nat (length g_property_data), p_data = g_property_data\<rparr>"

text \<open>Only the first element of the arrays over the categories is written here.\<close>

definition generatePackInfo :: "item_list \<Rightarrow> u64 \<Rightarrow> pack_info option" where
  "generatePackInfo l compressed_size =
    (if cat_num l = 1 then Some \<lparr>PackPos = 0, NumPackStreams = of_nat (cat_num l), PackSize = [compressed_size]\<rparr> else None)"

definition generateCoder :: coder where
  "generateCoder = \<lparr>coderFirstByte = 3, codecID = g_deflate_codecId\<rparr>"

definition generateFolderInfo :: "nat \<Rightarrow> folder_info list option" where
  "generateFolderInfo n_folders =
    (let n = (if n_folders = 0 then 1 else n_folders)
     in if n = 1 then Some [\<lparr>numCoders = 1, coder_list = generateCoder\<rparr>] else None)"

definition size_of_files :: "catagory \<Rightarrow> u64 option" where
  "size_of_files cat =
    map_option (\<lambda>ps. foldl (\<lambda>s p. s + fsize p) 0 ps) (gather (cat_files cat) (unat (l_total (cat_files cat))))"

definition generateCodersInfo :: "item_list \<Rightarrow> coders_info option" where
  "generateCodersInfo l =
    (case generateFolderInfo (cat_num l) of None \<Rightarrow> None
     | Some fs \<Rightarrow> (case those (map size_of_files (catas l)) of None \<Rightarrow> None
       | Some sizes \<Rightarrow> Some \<lparr>numFolders = of_nat (cat_num l), folders = fs, dataStreamIndex = None, unPackSize = sizes\<rparr>))"

definition generateDigestInfo :: "file_item qz_list \<Rightarrow> digest option" where
  "generateDigestInfo head =
    map_option (\<lambda>ps. \<lparr>allAreDefined = 1, numStreams = ucast (l_total head), numDefined = ucast (l_total head),
        crcs = map (\<lambda>p. Some (fcrc p)) ps\<rparr>)
      (gather head (unat (l_total head)))"

text \<open>The sizes a category adds: all but the last one. An empty category makes the loop run on past its end.\<close>

definition sizes_of :: "nat \<Rightarrow> catagory \<Rightarrow> u64 list option" where
  "sizes_of total_files cat =
    (let h = cat_files cat
     in if l_total h = 1 \<or> total_files = 1 then Some []
        else map_option (map fsize) (gather h (unat (l_total h - 1))))"

definition generateSubstreamsInfo :: "item_list \<Rightarrow> substreams_info option option" where
  "generateSubstreamsInfo l =
    (let total_files = unat (l_total (items_files l))
     in if total_files = 0 then Some None
        else (case those (map (sizes_of total_files) (catas l)) of None \<Rightarrow> None
          | Some sizes \<Rightarrow>
            if total_files - 1 < length (concat sizes) then None
            else (case generateDigestInfo (if catas l = [] then items_files l else cat_files (last (catas l))) of None \<Rightarrow> None
              | Some d \<Rightarrow> Some (Some \<lparr>ss_numFolders = of_nat (cat_num l),
                  numUnPackStreams = Some (map (\<lambda>c. ucast (l_total (cat_files c))) (catas l)),
                  ss_unPackSize = (if total_files \<noteq> 1 then Some (concat sizes) else None), digests = Some d\<rparr>))))"

definition generateFilesInfo :: "item_list \<Rightarrow> files_info" where
  "generateFilesInfo l =
    \<lparr>files_num = ucast (l_total (items_dirs l) + l_total (items_files l)), head_dirs = items_dirs l, head_files = items_files l\<rparr>"

text \<open>No files, no streams: a null pointer.\<close>

definition generateStreamsInfo :: "item_list \<Rightarrow> u64 \<Rightarrow> streams_info option option" where
  "generateStreamsInfo l compressed_size =
    (if l_total (items_files l) = 0 then Some None
     else (case generatePackInfo l compressed_size of None \<Rightarrow> None
       | Some p \<Rightarrow> (case generateCodersInfo l of None \<Rightarrow> None
         | Some c \<Rightarrow> (case generateSubstreamsInfo l of None \<Rightarrow> None
           | Some s \<Rightarrow> Some (Some \<lparr>packInfo = Some p, codersInfo = Some c, substreamsInfo = s\<rparr>)))))"

definition generateEndHeader :: "item_list \<Rightarrow> u64 \<Rightarrow> end_header option" where
  "generateEndHeader l compressed_size =
    map_option (\<lambda>s. \<lparr>propertyInfo = Some generatePropertyInfo, streamsInfo = s, filesInfo = Some (generateFilesInfo l)\<rparr>)
      (generateStreamsInfo l compressed_size)"

section \<open>What they make of a list\<close>

text \<open>The list as it stands after scanning the file system: the directories and empty files, the other files, and one empty category;
  then every file is in the category.\<close>

definition scanned :: "file_item list \<Rightarrow> file_item list \<Rightarrow> item_list" where
  "scanned ds fs = \<lparr>items_dirs = foldl qzListAdd (qzListCreate 100) ds, items_files = foldl qzListAdd (qzListCreate 1000) fs,
     catas = createCatagoryList\<rparr>"

definition item_list_ok :: "file_item list \<Rightarrow> file_item list \<Rightarrow> item_list \<Rightarrow> bool" where
  "item_list_ok ds fs l \<longleftrightarrow> list_ok (items_dirs l) \<and> list_items (items_dirs l) = ds \<and> list_ok (items_files l) \<and>
     list_items (items_files l) = fs \<and> (\<exists>c. catas l = [c] \<and> list_ok (cat_files c) \<and> list_items (cat_files c) = fs)"

lemma scan_all: "list_ok files \<Longrightarrow> is = [k..<length (list_items files)] \<Longrightarrow> length (list_items files) < 2 ^ 32 \<Longrightarrow>
    list_ok (cat_files c) \<Longrightarrow> list_items (cat_files c) = take k (list_items files) \<Longrightarrow>
    \<exists>c'. scan_files files is [c] = Some [c'] \<and> list_ok (cat_files c') \<and> list_items (cat_files c') = list_items files"
proof (induction "is" arbitrary: k c)
  case Nil
  then have "length (list_items files) \<le> k" by (metis upt_eq_Nil_conv le0 le_trans not_less)
  then show ?case using Nil by simp
next
  case (Cons i "is")
  have "[k..<length (list_items files)] = i # is" using Cons.prems(2) by (rule sym)
  then have e: "k < length (list_items files) \<and> k = i \<and> [k + 1..<length (list_items files)] = is" unfolding upt_eq_Cons_conv .
  then have i: "i = k" "k < length (list_items files)" and rest: "is = [Suc k..<length (list_items files)]" by auto
  have g: "get_at files i = Some (list_items files ! k)" using get_ok [OF Cons.prems(1) i(2)] i(1) by simp
  have l: "length (list_items (cat_files c)) < 2 ^ 32 - 1" using Cons.prems(3,5) i(2) by simp
  let ?c = "c\<lparr>cat_files := qzListAdd (cat_files c) (list_items files ! k)\<rparr>"
  have "list_items (cat_files ?c) = take (Suc k) (list_items files)"
    using add_ok(2) [OF Cons.prems(4) l] Cons.prems(5) i(2) by (simp add: take_Suc_conv_app_nth)
  from Cons.IH [OF Cons.prems(1) rest Cons.prems(3) _ this] add_ok(1) [OF Cons.prems(4) l]
  show ?case by (simp add: g getCatagory_def Let_def)
qed

lemma scanned_ok:
  assumes "length ds < 2 ^ 32" "length fs < 2 ^ 32"
  shows "\<exists>l. scanFilesIntoCatagory (scanned ds fs) = Some l \<and> item_list_ok ds fs l"
proof -
  have d: "list_ok (items_dirs (scanned ds fs)) \<and> list_items (items_dirs (scanned ds fs)) = ds"
    using dir_list.built [of ds] assms by (simp add: scanned_def)
  have f: "list_ok (items_files (scanned ds fs)) \<and> list_items (items_files (scanned ds fs)) = fs"
    using file_list.built [of fs] assms by (simp add: scanned_def)
  obtain c where c: "catas (scanned ds fs) = [c]" "list_ok (cat_files c)" "list_items (cat_files c) = []"
    by (simp add: scanned_def createCatagoryList_def g_category_names_def create_ok)
  have t: "unat (l_total (items_files (scanned ds fs))) = length fs" using f by (simp add: list_ok_def)
  obtain c' where "scan_files (items_files (scanned ds fs)) [0..<length fs] [c] = Some [c']" "list_ok (cat_files c')"
      "list_items (cat_files c') = fs"
    using scan_all [of "items_files (scanned ds fs)" _ 0 c] f c assms by auto
  then show ?thesis using d f c by (auto simp: scanFilesIntoCatagory_def t item_list_ok_def)
qed

text \<open>The headers made of such a list.\<close>

definition streams_of :: "file_item list \<Rightarrow> u64 \<Rightarrow> streams_info" where
  "streams_of fs compressed_size = \<lparr>
     packInfo = Some \<lparr>PackPos = 0, NumPackStreams = 1, PackSize = [compressed_size]\<rparr>,
     codersInfo = Some \<lparr>numFolders = 1, folders = [\<lparr>numCoders = 1, coder_list = generateCoder\<rparr>], dataStreamIndex = None,
       unPackSize = [foldl (\<lambda>s p. s + fsize p) 0 fs]\<rparr>,
     substreamsInfo = Some \<lparr>ss_numFolders = 1, numUnPackStreams = Some [of_nat (length fs)],
       ss_unPackSize = (if length fs \<noteq> 1 then Some (map fsize (butlast fs)) else None),
       digests = Some \<lparr>allAreDefined = 1, numStreams = of_nat (length fs), numDefined = of_nat (length fs),
         crcs = map (\<lambda>p. Some (fcrc p)) fs\<rparr>\<rparr>\<rparr>"

lemma total_of: "list_ok h \<Longrightarrow> unat (l_total h) = length (list_items h)"
  by (simp add: list_ok_def)

lemma total_word: "list_ok h \<Longrightarrow> (ucast (l_total h) :: u64) = of_nat (length (list_items h))"
  by (simp add: total_of [symmetric])

lemma end_header_of:
  assumes l: "item_list_ok ds fs l"
  shows "generateEndHeader l n = Some \<lparr>propertyInfo = Some generatePropertyInfo,
     streamsInfo = (if fs = [] then None else Some (streams_of fs n)), filesInfo = Some (generateFilesInfo l)\<rparr>"
proof (cases "fs = []")
  case True
  then have "unat (l_total (items_files l)) = 0" using l by (simp add: item_list_ok_def total_of)
  then have "l_total (items_files l) = 0" by (simp add: unat_eq_0)
  then show ?thesis using True by (simp add: generateEndHeader_def generateStreamsInfo_def)
next
  case False
  obtain c where c: "catas l = [c]" "list_ok (cat_files c)" "list_items (cat_files c) = fs" using l by (auto simp: item_list_ok_def)
  have t: "unat (l_total (items_files l)) = length fs" using l by (simp add: item_list_ok_def total_of)
  have u: "unat (l_total (cat_files c)) = length fs" using c by (simp add: total_of)
  have nz: "l_total (items_files l) \<noteq> 0" using t False by auto
  have p: "generatePackInfo l n = packInfo (streams_of fs n)" by (simp add: generatePackInfo_def cat_num_def c streams_of_def)
  have co: "generateCodersInfo l = codersInfo (streams_of fs n)"
    using gather_all [OF c(2)] by (simp add: generateCodersInfo_def generateFolderInfo_def cat_num_def c size_of_files_def streams_of_def Let_def)
  have d: "generateDigestInfo (cat_files c) = digests (the (substreamsInfo (streams_of fs n)))"
    using gather_all [OF c(2)] total_word [OF c(2)] by (simp add: generateDigestInfo_def c streams_of_def)
  have one: "l_total (cat_files c) = 1 \<longleftrightarrow> length fs = 1" using u by (metis unat_1 word_unat_eq_iff)
  have z: "l_total (cat_files c) \<noteq> 0" using u False by auto
  then have m: "unat (l_total (cat_files c) - 1) = length fs - 1" using u by (simp add: unat_minus_one)
  have s: "sizes_of (length fs) c = Some (if length fs = 1 then [] else map fsize (butlast fs))"
    using gather_take [OF c(2), of "length fs - 1"] c(3) by (simp add: sizes_of_def Let_def one m butlast_conv_take)
  have ss: "generateSubstreamsInfo l = Some (substreamsInfo (streams_of fs n))"
    using s d False total_word [OF c(2)] c(3)
    by (simp add: generateSubstreamsInfo_def Let_def t c(1) cat_num_def streams_of_def)
  show ?thesis
    using False nz p co ss by (simp add: generateEndHeader_def generateStreamsInfo_def streams_of_def)
qed

end
