(* ===== verification/SevenWrite.thy ===== *)
theory SevenWrite
  imports SevenGen
begin

text \<open>
  Writing the end header of a 7z archive (\<^verbatim>\<open>src/utils/qzip_7z.c\<close>, the \<^verbatim>\<open>write\<close> functions,
  \<^verbatim>\<open>calculateEmptyStreamProperty\<close>, \<^verbatim>\<open>calculateEmptyFileProperty\<close>, \<^verbatim>\<open>genNamesPart\<close>,
  \<^verbatim>\<open>genAttributes\<close>), and the bytes that come out. A writing function takes the file and the running checksum and gives the
  size it reports with both of them afterwards; \<open>None\<close> is an access outside an array or through a null pointer. Writing to the file
  does not fail. Counts of files are below \<open>2 ^ 28\<close>, where the \<^verbatim>\<open>int\<close> arithmetic on them does not overflow.
\<close>

section \<open>Writing\<close>

type_synonym wr = "bytes \<times> u32 \<Rightarrow> (u64 \<times> bytes \<times> u32) option"

definition put :: "crc_fun \<Rightarrow> bytes \<Rightarrow> wr" where
  "put C bs s = Some (of_nat (length bs), fst s @ bs, C (snd s) bs)"

definition wfail :: wr where "wfail s = None"

primrec wall :: "wr list \<Rightarrow> wr" where
  "wall [] s = Some (0, s)"
| "wall (w # ws) s = (case w s of None \<Rightarrow> None | Some (n, s') \<Rightarrow>
     (case wall ws s' of None \<Rightarrow> None | Some (m, s'') \<Rightarrow> Some (n + m, s'')))"

definition at_or :: "('a \<Rightarrow> wr) \<Rightarrow> 'a list \<Rightarrow> nat \<Rightarrow> wr" where
  "at_or w xs i = (if i < length xs then w (xs ! i) else wfail)"

definition put_some :: "crc_fun \<Rightarrow> nat \<Rightarrow> bytes \<Rightarrow> wr" where
  "put_some C n bs = (if n \<le> length bs then put C (take n bs) else wfail)"

definition writeTag :: "crc_fun \<Rightarrow> u8 \<Rightarrow> wr" where "writeTag C t = put C [t]"
definition writeTime :: "crc_fun \<Rightarrow> u32 \<Rightarrow> wr" where "writeTime C t = put C (le_bytes 4 t)"
definition writeNumber :: "crc_fun \<Rightarrow> u64 \<Rightarrow> wr" where "writeNumber C n = put C (getUint64Bytes n)"

definition writeArchiveProperties :: "crc_fun \<Rightarrow> archive_property \<Rightarrow> wr" where
  "writeArchiveProperties C p = wall [writeTag C 0x02, writeNumber C (p_id p), writeNumber C (p_size p),
     put_some C (unat (p_size p)) (p_data p), writeTag C 0x00]"

definition writePackInfo :: "crc_fun \<Rightarrow> pack_info \<Rightarrow> wr" where
  "writePackInfo C p = wall ([writeTag C 0x06, writeNumber C (PackPos p), writeNumber C (NumPackStreams p), writeTag C 0x09]
     @ map (at_or (writeNumber C) (PackSize p)) [0..<unat (NumPackStreams p)] @ [writeTag C 0x00])"

definition CodecIdSize :: "u8 \<Rightarrow> nat" where "CodecIdSize b = unat (b AND 0xf)"

text \<open>The same coder is written for each of the coders of a folder.\<close>

definition writeFolder :: "crc_fun \<Rightarrow> folder_info \<Rightarrow> wr" where
  "writeFolder C f = (let k = coder_list f in
     wall (writeNumber C (numCoders f) # concat (replicate (unat (numCoders f))
       [writeTag C (coderFirstByte k), put_some C (CodecIdSize (coderFirstByte k)) (codecID k)])))"

definition writeCodersInfo :: "crc_fun \<Rightarrow> coders_info \<Rightarrow> wr" where
  "writeCodersInfo C k = wall ([writeTag C 0x07, writeTag C 0x0b, writeNumber C (numFolders k), writeTag C 0]
     @ map (at_or (writeFolder C) (folders k)) [0..<unat (numFolders k)] @ [writeTag C 0x0c]
     @ map (at_or (writeNumber C) (unPackSize k)) [0..<unat (numFolders k)] @ [writeTag C 0x00])"

definition writeCRC :: "crc_fun \<Rightarrow> u32 option \<Rightarrow> wr" where
  "writeCRC C w = (case w of None \<Rightarrow> wfail | Some w \<Rightarrow> put C (le_bytes 4 w))"

definition writeDigestInfo :: "crc_fun \<Rightarrow> digest \<Rightarrow> wr" where
  "writeDigestInfo C d = wall (writeTag C (allAreDefined d) # map (at_or (writeCRC C) (crcs d)) [0..<unat (numStreams d)])"

definition writeSubstreamsInfo :: "crc_fun \<Rightarrow> substreams_info option \<Rightarrow> wr" where
  "writeSubstreamsInfo C s = (case s of None \<Rightarrow> wall []
     | Some s \<Rightarrow>
       let n = unat (ss_numFolders s);
           nums = (case numUnPackStreams s of None \<Rightarrow> [] | Some ns \<Rightarrow> ns);
           sizes = (case ss_unPackSize s of None \<Rightarrow> [] | Some ss \<Rightarrow> ss)
       in if length nums < n then wfail
          else wall ([writeTag C 0x08, writeTag C 0x0d] @ map (at_or (writeNumber C) nums) [0..<n] @ [writeTag C 0x09]
            @ map (at_or (writeNumber C) sizes) [0..<sum_list (map (\<lambda>k. unat (k - 1)) (take n nums))]
            @ [writeTag C 0x0a, case digests s of None \<Rightarrow> wfail | Some d \<Rightarrow> writeDigestInfo C d, writeTag C 0x00]))"

definition writeStreamsInfo :: "crc_fun \<Rightarrow> streams_info option \<Rightarrow> wr" where
  "writeStreamsInfo C s = (case s of None \<Rightarrow> wall []
     | Some s \<Rightarrow> wall [writeTag C 0x04,
         case packInfo s of None \<Rightarrow> wfail | Some p \<Rightarrow> writePackInfo C p,
         case codersInfo s of None \<Rightarrow> wfail | Some k \<Rightarrow> writeCodersInfo C k,
         writeSubstreamsInfo C (substreamsInfo s), writeTag C 0x00])"

section \<open>The files\<close>

definition unixtimeToFiletime :: "u64 \<Rightarrow> u32 \<Rightarrow> u32 \<times> u32" where
  "unixtimeToFiletime t nsec =
    (let secs = t * 10000000 + (134774 * (24 * 60 * 60)) * 10000000 + ucast (nsec div 100)
     in (ucast secs, ucast (drop_bit 32 secs)))"

definition filetimeToUnixtime :: "u32 \<times> u32 \<Rightarrow> u64" where
  "filetimeToUnixtime ft = (let ti = push_bit 32 (ucast (snd ft)) + ucast (fst ft) in ti div 10000000 - 134774 * (24 * 60 * 60))"

text \<open>The bytes with a bit for each of the \<open>m\<close> empty streams. After the full bytes one more is written in every case.\<close>

definition calculateEmptyStreamProperty :: "nat \<Rightarrow> nat \<Rightarrow> bytes option" where
  "calculateEmptyStreamProperty m n =
    (let size = (if (m + n) mod 8 = 0 then (m + n) div 8 else (m + n) div 8 + 1);
         res = foldl (\<lambda>r j. r[j := 0xff]) (replicate size 0) [0..<m div 8]
     in if m div 8 < size then Some (res[m div 8 := prefix_bits (m mod 8)]) else None)"

primrec empty_bits :: "(nat \<Rightarrow> file_item option) \<Rightarrow> nat \<Rightarrow> nat list \<Rightarrow> nat \<Rightarrow> u8 \<Rightarrow> (nat \<times> u8) option" where
  "empty_bits get m [] total_index b = Some (total_index, b)"
| "empty_bits get m (j # js) total_index b =
    (case get total_index of None \<Rightarrow> None
     | Some p \<Rightarrow>
       let b' = (if isEmpty p then b + push_bit j 1 else b)
       in if Suc total_index = m then Some (Suc total_index, b') else empty_bits get m js (Suc total_index) b')"

primrec empty_bytes :: "(nat \<Rightarrow> file_item option) \<Rightarrow> nat \<Rightarrow> nat \<Rightarrow> nat \<Rightarrow> bytes option" where
  "empty_bytes get m 0 total_index = Some []"
| "empty_bytes get m (Suc n) total_index =
    (case empty_bits get m [7, 6, 5, 4, 3, 2, 1, 0] total_index 0 of None \<Rightarrow> None
     | Some (t, b) \<Rightarrow> (case empty_bytes get m n t of None \<Rightarrow> None | Some bs \<Rightarrow> Some (b # bs)))"

definition calculateEmptyFileProperty :: "files_info \<Rightarrow> nat \<Rightarrow> bytes option" where
  "calculateEmptyFileProperty files m =
    (let size = (if m mod 8 = 0 then m div 8 else m div 8 + 1) in empty_bytes (get_at (head_dirs files)) m size 0)"

text \<open>A name from the base on, two bytes for a character; a name shorter than its length is read past its end.\<close>

definition name_part :: "file_item \<Rightarrow> bytes option" where
  "name_part p = (if unat (nameLength p) \<le> length (fileName p)
     then Some (concat (map (\<lambda>j. [fileName p ! j, 0]) [unat (baseNameLength p)..<unat (nameLength p)])) else None)"

definition genNamesPart :: "file_item qz_list \<Rightarrow> file_item qz_list \<Rightarrow> bytes option" where
  "genNamesPart head_dir head_file =
    (case (gather head_dir (unat (l_total head_dir)), gather head_file (unat (l_total head_file))) of
       (Some ds, Some fs) \<Rightarrow>
         let buf_len = sum_list (map (\<lambda>p. 2 * (nameLength p - baseNameLength p)) (ds @ fs))
         in (case those (map name_part (ds @ fs)) of None \<Rightarrow> None
             | Some parts \<Rightarrow> if int (length (concat parts)) \<le> sint buf_len then Some (0 # concat parts) else None)
     | _ \<Rightarrow> None)"

definition genAttributes :: "file_item qz_list \<Rightarrow> file_item qz_list \<Rightarrow> u32 list option" where
  "genAttributes head_dir head_file =
    (case (gather head_dir (unat (l_total head_dir)), gather head_file (unat (l_total head_file))) of
       (Some ds, Some fs) \<Rightarrow> Some (map attribute (ds @ fs)) | _ \<Rightarrow> None)"

definition checkZerobyteFiles :: "files_info \<Rightarrow> bool option" where
  "checkZerobyteFiles files = map_option (list_ex isEmpty) (gather (head_dirs files) (unat (l_total (head_dirs files))))"

definition put_sized :: "crc_fun \<Rightarrow> bytes option \<Rightarrow> wr" where
  "put_sized C p = (case p of None \<Rightarrow> wfail | Some bs \<Rightarrow> wall [writeNumber C (of_nat (length bs)), put C bs])"

definition write_times :: "crc_fun \<Rightarrow> file_item qz_list \<Rightarrow> wr" where
  "write_times C h = (case gather h (unat (l_total h)) of None \<Rightarrow> wfail
     | Some ps \<Rightarrow> wall (map (\<lambda>p. let ft = unixtimeToFiletime (mtime p) (mtime_nano p) in
         wall [writeTime C (fst ft), writeTime C (snd ft)]) ps))"

definition writeFilesInfo :: "crc_fun \<Rightarrow> files_info \<Rightarrow> wr" where
  "writeFilesInfo C files =
    (let m = unat (l_total (head_dirs files)); n = unat (l_total (head_files files))
     in wall ([writeTag C 0x05, writeNumber C (files_num files), writeTag C 0x0e, put_sized C (calculateEmptyStreamProperty m n)]
       @ (case checkZerobyteFiles files of None \<Rightarrow> [wfail]
          | Some zero \<Rightarrow> if m \<noteq> 0 \<and> zero then [writeTag C 0x0f, put_sized C (calculateEmptyFileProperty files m)] else [])
       @ [writeTag C 0x19, writeNumber C 2, writeTag C 0, writeTag C 0]
       @ [writeTag C 0x11, put_sized C (genNamesPart (head_dirs files) (head_files files))]
       @ [writeTag C 0x14, writeNumber C (of_nat ((m + n) * 8 + 2)), writeTag C 1, writeTag C 0,
          write_times C (head_dirs files), write_times C (head_files files)]
       @ [writeTag C 0x15, writeNumber C (of_nat (2 + 4 * (m + n))), writeTag C 1, writeTag C 0]
       @ (case genAttributes (head_dirs files) (head_files files) of None \<Rightarrow> [wfail]
          | Some as \<Rightarrow> map (at_or (writeTime C) as) [0..<m + n])
       @ [writeTag C 0x00]))"

definition writeEndHeader :: "crc_fun \<Rightarrow> end_header \<Rightarrow> wr" where
  "writeEndHeader C h = wall [writeTag C 0x01,
     case propertyInfo h of None \<Rightarrow> wfail | Some p \<Rightarrow> writeArchiveProperties C p,
     writeStreamsInfo C (streamsInfo h),
     case filesInfo h of None \<Rightarrow> wfail | Some f \<Rightarrow> writeFilesInfo C f,
     writeTag C 0x00]"

section \<open>What a writer writes\<close>

text \<open>The checksum over one piece after another is the one over all of them.\<close>

definition crc_law :: "crc_fun \<Rightarrow> bool" where
  "crc_law C \<longleftrightarrow> (\<forall>c. C c [] = c) \<and> (\<forall>c a b. C (C c a) b = C c (a @ b))"

definition writes :: "crc_fun \<Rightarrow> wr \<Rightarrow> bytes \<Rightarrow> bool" where
  "writes C w bs \<longleftrightarrow> (\<forall>f c. w (f, c) = Some (of_nat (length bs), f @ bs, C c bs))"

named_theorems write_rules "what the writers write"

lemma writes_put [write_rules]: "writes C (put C bs) bs"
  by (simp add: writes_def put_def)

lemma writes_wall: "crc_law C \<Longrightarrow> list_all2 (writes C) ws bss \<Longrightarrow> writes C (wall ws) (concat bss)"
proof (induction ws arbitrary: bss)
  case Nil
  then show ?case by (simp add: writes_def crc_law_def)
next
  case (Cons w ws)
  obtain bs bss' where bss: "bss = bs # bss'" "writes C w bs" "list_all2 (writes C) ws bss'"
    using Cons.prems(2) by (auto simp: list_all2_Cons1)
  show ?case using Cons.IH [OF Cons.prems(1) bss(3)] bss(2) Cons.prems(1) by (simp add: bss(1) writes_def crc_law_def)
qed

lemma writes_tag [write_rules]: "writes C (writeTag C t) [t]"
  by (simp add: writeTag_def writes_put)

lemma writes_time [write_rules]: "writes C (writeTime C t) (le_bytes 4 t)"
  by (simp add: writeTime_def writes_put)

lemma writes_number [write_rules]: "writes C (writeNumber C n) (getUint64Bytes n)"
  by (simp add: writeNumber_def writes_put)

lemma writes_put_some [write_rules]: "n = length bs \<Longrightarrow> writes C (put_some C n bs) bs"
  by (simp add: put_some_def writes_put)

lemma writes_crc [write_rules]: "writes C (writeCRC C (Some w)) (le_bytes 4 w)"
  by (simp add: writeCRC_def writes_put)

lemma at_or_all: "n = length xs \<Longrightarrow> map (at_or w xs) [0..<n] = map w xs"
  by (rule nth_equalityI) (simp_all add: at_or_def)

lemma writes_all: "(\<And>x. x \<in> set xs \<Longrightarrow> writes C (w x) (g x)) \<Longrightarrow> list_all2 (writes C) (map w xs) (map g xs)"
  by (induction xs) simp_all

lemma writes_sized: "crc_law C \<Longrightarrow> writes C (put_sized C (Some bs)) (getUint64Bytes (of_nat (length bs)) @ bs)"
  using writes_wall [of C "[writeNumber C (of_nat (length bs)), put C bs]" "[getUint64Bytes (of_nat (length bs)), bs]"]
  by (simp add: put_sized_def write_rules)

end
