(* ===== verification/SevenBytes.thy ===== *)
theory SevenBytes
  imports SevenWrite
begin

text \<open>
  The bytes of an end header of a 7z archive as a function of the files in it, and that the writers write them: the abstract
  specification of the format, against which the readers are proved as well.
\<close>

section \<open>Flags, a bit each\<close>

primrec byte_of :: "nat \<Rightarrow> bool list \<Rightarrow> u8" where
  "byte_of n [] = 0"
| "byte_of n (f # fs) = (if f then push_bit (n - 1) 1 else 0) + byte_of (n - 1) fs"

fun flag_bytes :: "bool list \<Rightarrow> bytes" where
  "flag_bytes [] = []"
| "flag_bytes (f # fs) = byte_of 8 (f # take 7 fs) # flag_bytes (drop 7 fs)"

definition flag_size :: "nat \<Rightarrow> nat" where
  "flag_size n = (if n mod 8 = 0 then n div 8 else n div 8 + 1)"

lemma flag_size_less: "0 < n \<Longrightarrow> flag_size n = Suc (flag_size (n - 8))"
proof -
  assume n: "0 < n"
  show ?thesis
  proof (cases "n < 8")
    case True
    then show ?thesis using n by (simp add: flag_size_def)
  next
    case False
    then have "n mod 8 = (n - 8) mod 8" "n div 8 = Suc ((n - 8) div 8)" by (simp_all add: le_mod_geq le_div_geq)
    then show ?thesis by (simp add: flag_size_def)
  qed
qed

lemma flag_size_0 [simp]: "flag_size 0 = 0"
  by (simp add: flag_size_def)

lemma flag_bytes_step: "fs \<noteq> [] \<Longrightarrow> flag_bytes fs = byte_of 8 (take 8 fs) # flag_bytes (drop 8 fs)"
  by (cases fs) simp_all

lemma length_flag_bytes: "length (flag_bytes fs) = flag_size (length fs)"
proof (induction "length fs" arbitrary: fs rule: less_induct)
  case less
  show ?case
  proof (cases "fs = []")
    case False
    then have "length (flag_bytes (drop 8 fs)) = flag_size (length (drop 8 fs))" using less by simp
    then show ?thesis using False by (simp add: flag_bytes_step flag_size_less)
  qed simp
qed

lemma byte_of_none: "byte_of n (replicate k False) = 0"
  by (induction k arbitrary: n) simp_all

lemma byte_of_prefix: "r < 8 \<Longrightarrow> byte_of 8 (replicate r True @ replicate k False) = prefix_bits r"
proof -
  assume r: "r < 8"
  have b: "byte_of n (replicate k False) = 0" for n by (rule byte_of_none)
  have "r \<in> {0, 1, 2, 3, 4, 5, 6, 7}" using r by auto
  then show ?thesis by (elim insertE emptyE) (simp_all add: b prefix_bits_def eval_nat_numeral)
qed

lemma byte_of_full: "byte_of 8 (replicate 8 True) = 0xff"
  by (simp add: eval_nat_numeral)

lemma flag_bytes_none: "flag_bytes (replicate k False) = replicate (flag_size k) 0"
proof (induction k rule: less_induct)
  case (less k)
  show ?case
  proof (cases "k = 0")
    case False
    have "flag_bytes (drop 8 (replicate k False)) = replicate (flag_size (k - 8)) 0" using less [of "k - 8"] False by simp
    then show ?thesis using False byte_of_none [of 8 "min 8 k"]
      by (simp add: flag_bytes_step flag_size_less)
  qed simp
qed

text \<open>The bits of the empty streams are the flags of the empty streams followed by those of the files, if there is a byte for the one
  that is always written.\<close>

lemma flag_bytes_prefix: "m div 8 < flag_size (m + n) \<Longrightarrow> flag_bytes (replicate m True @ replicate n False)
    = replicate (m div 8) 0xff @ prefix_bits (m mod 8) # replicate (flag_size (m + n) - m div 8 - 1) 0"
proof (induction m rule: less_induct)
  case (less m)
  have ne: "replicate m True @ replicate n False \<noteq> []" using less.prems by (cases "m = 0"; cases "n = 0") simp_all
  show ?case
  proof (cases "m < 8")
    case True
    have "take 8 (replicate m True @ replicate n False) = replicate m True @ replicate (min (8 - m) n) False" using True by simp
    then have h: "byte_of 8 (take 8 (replicate m True @ replicate n False)) = prefix_bits m" using byte_of_prefix [OF True] by simp
    have t: "flag_bytes (drop 8 (replicate m True @ replicate n False)) = replicate (flag_size (m + n - 8)) 0"
      using True flag_bytes_none [of "n - (8 - m)"] by (simp add: add.commute)
    have "0 < m + n" using ne by auto
    then show ?thesis using True h t by (simp add: flag_bytes_step [OF ne] flag_size_less)
  next
    case False
    have h: "byte_of 8 (take 8 (replicate m True @ replicate n False)) = 0xff" using False byte_of_full by simp
    have d: "m div 8 = Suc ((m - 8) div 8)" "m mod 8 = (m - 8) mod 8" using False by (simp_all add: le_mod_geq le_div_geq)
    have s: "flag_size (m + n) = Suc (flag_size (m - 8 + n))" using False flag_size_less [of "m + n"] by simp
    have "flag_bytes (replicate (m - 8) True @ replicate n False)
        = replicate ((m - 8) div 8) 0xff @ prefix_bits ((m - 8) mod 8) # replicate (flag_size (m - 8 + n) - (m - 8) div 8 - 1) 0"
      using less.IH [of "m - 8"] less.prems False d s by simp
    then show ?thesis using False h by (simp add: flag_bytes_step [OF ne] d s)
  qed
qed

lemma fill_ones: "k \<le> n \<Longrightarrow> foldl (\<lambda>r j. r[j := (0xff :: u8)]) (replicate n 0) [0..<k] = replicate k 0xff @ replicate (n - k) 0"
proof (induction k)
  case (Suc k)
  then have "replicate (n - k) (0 :: u8) = 0 # replicate (n - Suc k) 0" by (metis Suc_diff_Suc Suc_le_lessD replicate_Suc)
  then show ?case using Suc by (simp add: list_update_append replicate_app_Cons_same)
qed simp

lemma empty_streams: "calculateEmptyStreamProperty m n =
    (if m div 8 < flag_size (m + n) then Some (flag_bytes (replicate m True @ replicate n False)) else None)"
proof (cases "m div 8 < flag_size (m + n)")
  case True
  then have "replicate (flag_size (m + n) - m div 8) (0 :: u8) = 0 # replicate (flag_size (m + n) - m div 8 - 1) 0"
    by (metis Suc_diff_1 replicate_Suc zero_less_diff)
  then have "(foldl (\<lambda>r j. r[j := (0xff :: u8)]) (replicate (flag_size (m + n)) 0) [0..<m div 8])[m div 8 := prefix_bits (m mod 8)]
      = flag_bytes (replicate m True @ replicate n False)"
    using fill_ones [of "m div 8" "flag_size (m + n)"] True by (simp add: list_update_append flag_bytes_prefix)
  then show ?thesis using True by (simp add: calculateEmptyStreamProperty_def flag_size_def [symmetric] Let_def)
qed (simp add: calculateEmptyStreamProperty_def flag_size_def Let_def)

text \<open>The bits of the empty files are the flags of the directories and empty files.\<close>

lemma empty_bits_flags: "t < length ds \<Longrightarrow> (\<And>i. i < length ds \<Longrightarrow> get i = Some (ds ! i)) \<Longrightarrow> k \<le> 8 \<Longrightarrow>
    empty_bits get (length ds) (rev [0..<k]) t b = Some (min (t + k) (length ds), b + byte_of k (map isEmpty (take k (drop t ds))))"
proof (induction k arbitrary: t b)
  case (Suc k)
  have d: "drop t ds = ds ! t # drop (Suc t) ds" using Suc.prems(1) by (simp add: Cons_nth_drop_Suc)
  show ?case
  proof (cases "Suc t = length ds")
    case True
    then have "drop (Suc t) ds = []" by simp
    then show ?thesis using Suc.prems True by (simp add: d Let_def)
  next
    case False
    then have lt: "Suc t < length ds" using Suc.prems(1) by simp
    have IH: "empty_bits get (length ds) (rev [0..<k]) (Suc t) b' =
        Some (min (Suc t + k) (length ds), b' + byte_of k (map isEmpty (take k (drop (Suc t) ds))))" for b'
      by (rule Suc.IH [OF lt Suc.prems(2)]) (use Suc.prems(3) in simp_all)
    show ?thesis using Suc.prems False by (simp add: d IH Let_def add.assoc)
  qed
qed simp

lemma empty_bytes_flags: "t \<le> length ds \<Longrightarrow> (\<And>i. i < length ds \<Longrightarrow> get i = Some (ds ! i)) \<Longrightarrow> n = flag_size (length ds - t) \<Longrightarrow>
    empty_bytes get (length ds) n t = Some (flag_bytes (map isEmpty (drop t ds)))"
proof (induction n arbitrary: t)
  case 0
  then have "length ds - t = 0" using flag_size_less [of "length ds - t"] by (cases "0 < length ds - t") simp_all
  then show ?case using 0 by simp
next
  case (Suc n)
  have lt: "t < length ds" using Suc.prems(3) by (cases "t < length ds") simp_all
  have k: "[7, 6, 5, 4, 3, 2, 1, 0] = rev [0..<8]" by (simp add: eval_nat_numeral)
  have e: "empty_bits get (length ds) [7, 6, 5, 4, 3, 2, 1, 0] t 0 = Some (min (t + 8) (length ds), byte_of 8 (map isEmpty (take 8 (drop t ds))))"
    unfolding k using empty_bits_flags [OF lt Suc.prems(2), of 8 0] by simp
  have n: "n = flag_size (length ds - min (t + 8) (length ds))"
    using Suc.prems(3) flag_size_less [of "length ds - t"] lt by (simp add: min_def split: if_splits)
  have d: "drop (min (t + 8) (length ds)) ds = drop (t + 8) ds" by (simp add: min_def)
  have "empty_bytes get (length ds) n (min (t + 8) (length ds)) = Some (flag_bytes (map isEmpty (drop (t + 8) ds)))"
    using Suc.IH [OF _ Suc.prems(2) n] d by simp
  moreover have "flag_bytes (map isEmpty (drop t ds)) = byte_of 8 (map isEmpty (take 8 (drop t ds))) # flag_bytes (map isEmpty (drop (t + 8) ds))"
    using flag_bytes_step [of "map isEmpty (drop t ds)"] lt by (simp add: take_map drop_map add.commute)
  ultimately show ?case using e by simp
qed

lemma empty_files: "list_ok (head_dirs files) \<Longrightarrow> m = length (list_items (head_dirs files)) \<Longrightarrow>
    calculateEmptyFileProperty files m = Some (flag_bytes (map isEmpty (list_items (head_dirs files))))"
  using empty_bytes_flags [of 0 "list_items (head_dirs files)" "get_at (head_dirs files)"] get_ok [of "head_dirs files"]
  by (simp add: calculateEmptyFileProperty_def flag_size_def [symmetric] Let_def)

section \<open>The end header of the files\<close>

text \<open>The files an archive can be made of: names that end with their zero byte, whose part after the base fits a path, times the file
  time can hold, fewer files than the counters allow, and a byte for the flags that is written beyond the full ones.\<close>

definition item_wf :: "file_item \<Rightarrow> bool" where
  "item_wf p \<longleftrightarrow> length (fileName p) = unat (nameLength p) \<and> unat (baseNameLength p) < unat (nameLength p) \<and>
     last (fileName p) = 0 \<and> (\<forall>c \<in> set (butlast (fileName p)). c \<noteq> 0) \<and> unat (nameLength p) - unat (baseNameLength p) \<le> 4096 \<and>
     unat (mtime p) < 10 ^ 12 \<and> unat (mtime_nano p) < 10 ^ 9"

definition name_of :: "file_item \<Rightarrow> bytes" where
  "name_of p = drop (unat (baseNameLength p)) (fileName p)"

definition archive_ok :: "file_item list \<Rightarrow> file_item list \<Rightarrow> bool" where
  "archive_ok ds fs \<longleftrightarrow> list_all item_wf (ds @ fs) \<and> list_all (\<lambda>p. isDir p \<noteq> isEmpty p) ds \<and>
     list_all (\<lambda>p. \<not> isDir p \<and> \<not> isEmpty p) fs \<and> length ds + length fs < 2 ^ 28 \<and>
     sum_list (map (\<lambda>p. 2 * length (name_of p)) (ds @ fs)) < 2 ^ 31 \<and> length ds div 8 < flag_size (length ds + length fs)"

definition sized :: "bytes \<Rightarrow> bytes" where
  "sized bs = getUint64Bytes (of_nat (length bs)) @ bs"

definition property_bytes :: bytes where
  "property_bytes = [2] @ getUint64Bytes QZ7Z_PROPERTY_ID_INTEL7Z_1001 @ getUint64Bytes 3 @ g_property_data @ [0]"

definition pack_bytes :: "u64 \<Rightarrow> bytes" where
  "pack_bytes n = [6] @ getUint64Bytes 0 @ getUint64Bytes 1 @ [9] @ getUint64Bytes n @ [0]"

definition coders_bytes :: "u64 \<Rightarrow> bytes" where
  "coders_bytes unpacked = [7, 0x0b] @ getUint64Bytes 1 @ [0] @ (getUint64Bytes 1 @ [3] @ g_deflate_codecId) @ [0x0c] @ getUint64Bytes unpacked @ [0]"

definition substreams_bytes :: "file_item list \<Rightarrow> bytes" where
  "substreams_bytes fs = [8, 0x0d] @ getUint64Bytes (of_nat (length fs)) @ [9] @ concat (map (getUint64Bytes \<circ> fsize) (butlast fs))
     @ [0x0a] @ [1] @ concat (map (le_bytes 4 \<circ> fcrc) fs) @ [0]"

definition streams_bytes :: "file_item list \<Rightarrow> u64 \<Rightarrow> bytes" where
  "streams_bytes fs n = [4] @ pack_bytes n @ coders_bytes (foldl (\<lambda>s p. s + fsize p) 0 fs) @ substreams_bytes fs @ [0]"

definition wide :: "bytes \<Rightarrow> bytes" where
  "wide s = concat (map (\<lambda>c. [c, 0]) s)"

definition time_bytes :: "file_item \<Rightarrow> bytes" where
  "time_bytes p = (let ft = unixtimeToFiletime (mtime p) (mtime_nano p) in le_bytes 4 (fst ft) @ le_bytes 4 (snd ft))"

definition files_bytes :: "file_item list \<Rightarrow> file_item list \<Rightarrow> bytes" where
  "files_bytes ds fs =
    [5] @ getUint64Bytes (of_nat (length ds + length fs)) @ [0x0e] @ sized (flag_bytes (replicate (length ds) True @ replicate (length fs) False))
    @ (if list_ex isEmpty ds then [0x0f] @ sized (flag_bytes (map isEmpty ds)) else [])
    @ [0x19] @ getUint64Bytes 2 @ [0, 0]
    @ [0x11] @ sized (0 # concat (map (wide \<circ> name_of) (ds @ fs)))
    @ [0x14] @ getUint64Bytes (of_nat ((length ds + length fs) * 8 + 2)) @ [1, 0] @ concat (map time_bytes (ds @ fs))
    @ [0x15] @ getUint64Bytes (of_nat (2 + 4 * (length ds + length fs))) @ [1, 0] @ concat (map (le_bytes 4 \<circ> attribute) (ds @ fs))
    @ [0]"

definition end_header_bytes :: "file_item list \<Rightarrow> file_item list \<Rightarrow> u64 \<Rightarrow> bytes" where
  "end_header_bytes ds fs n = [1] @ property_bytes @ (if fs = [] then [] else streams_bytes fs n) @ files_bytes ds fs @ [0]"

section \<open>The writers write them\<close>

lemma writes_wall_as: "crc_law C \<Longrightarrow> list_all2 (writes C) ws bss \<Longrightarrow> concat bss = bs \<Longrightarrow> writes C (wall ws) bs"
  using writes_wall by blast

lemma writes_property: "crc_law C \<Longrightarrow> writes C (writeArchiveProperties C generatePropertyInfo) property_bytes"
  unfolding writeArchiveProperties_def
  by (rule writes_wall_as [where bss = "[[2], getUint64Bytes QZ7Z_PROPERTY_ID_INTEL7Z_1001, getUint64Bytes 3, g_property_data, [0]]"])
    (simp_all add: generatePropertyInfo_def property_bytes_def g_property_data_def write_rules)

lemma writes_pack: "crc_law C \<Longrightarrow> writes C (writePackInfo C (the (packInfo (streams_of fs n)))) (pack_bytes n)"
  unfolding writePackInfo_def
  by (rule writes_wall_as [where bss = "[[6], getUint64Bytes 0, getUint64Bytes 1, [9], getUint64Bytes n, [0]]"])
    (simp_all add: streams_of_def pack_bytes_def at_or_def write_rules)

lemma writes_folder: "crc_law C \<Longrightarrow> writes C (writeFolder C \<lparr>numCoders = 1, coder_list = generateCoder\<rparr>) (getUint64Bytes 1 @ [3] @ g_deflate_codecId)"
  unfolding writeFolder_def Let_def
  by (rule writes_wall_as [where bss = "[getUint64Bytes 1, [3], g_deflate_codecId]"])
    (simp_all add: generateCoder_def CodecIdSize_def g_deflate_codecId_def write_rules)

lemma writes_coders: "crc_law C \<Longrightarrow>
    writes C (writeCodersInfo C (the (codersInfo (streams_of fs n)))) (coders_bytes (foldl (\<lambda>s p. s + fsize p) 0 fs))"
  unfolding writeCodersInfo_def
  by (rule writes_wall_as [where bss = "[[7], [0x0b], getUint64Bytes 1, [0], getUint64Bytes 1 @ [3] @ g_deflate_codecId, [0x0c],
      getUint64Bytes (foldl (\<lambda>s p. s + fsize p) 0 fs), [0]]"])
    (simp_all add: streams_of_def coders_bytes_def at_or_def write_rules writes_folder [simplified])

lemma writes_all_concat: "crc_law C \<Longrightarrow> (\<And>x. x \<in> set xs \<Longrightarrow> writes C (w x) (g x)) \<Longrightarrow> writes C (wall (map w xs)) (concat (map g xs))"
  by (rule writes_wall) (auto intro: writes_all)

lemma writes_digest: "crc_law C \<Longrightarrow> length fs < 2 ^ 64 \<Longrightarrow>
    writes C (writeDigestInfo C (the (digests (the (substreamsInfo (streams_of fs n)))))) ([1] @ concat (map (le_bytes 4 \<circ> fcrc) fs))"
proof -
  assume C: "crc_law C" and l: "length fs < 2 ^ 64"
  have u: "unat (of_nat (length fs) :: u64) = length fs" using l by (simp add: unat_of_nat)
  have "list_all2 (writes C) (map (writeCRC C) (map (\<lambda>p. Some (fcrc p)) fs)) (map (le_bytes 4 \<circ> fcrc) fs)"
    by (simp add: list_all2_conv_all_nth writes_crc)
  then have "writes C (wall (writeTag C 1 # map (writeCRC C) (map (\<lambda>p. Some (fcrc p)) fs))) (concat ([1] # map (le_bytes 4 \<circ> fcrc) fs))"
    by (intro writes_wall [OF C]) (simp add: writes_tag)
  then show ?thesis by (simp add: writeDigestInfo_def streams_of_def u at_or_all del: map_map)
qed

lemma writes_substreams:
  assumes C: "crc_law C" and fs: "fs \<noteq> []" and l: "length fs < 2 ^ 64"
  shows "writes C (writeSubstreamsInfo C (substreamsInfo (streams_of fs n))) (substreams_bytes fs)"
proof -
  let ?s = "the (substreamsInfo (streams_of fs n))"
  let ?sizes = "case ss_unPackSize ?s of None \<Rightarrow> [] | Some ss \<Rightarrow> ss"
  have u: "unat (of_nat (length fs) :: u64) = length fs" using l by (simp add: unat_of_nat)
  have "(of_nat (length fs) :: u64) \<noteq> 0" using u fs by (metis length_0_conv unat_0)
  then have k: "unat (of_nat (length fs) - 1 :: u64) = length fs - 1" using u by (simp add: unat_minus_one)
  have z: "?sizes = map fsize (butlast fs)" using fs by (cases fs) (auto simp: streams_of_def)
  have d: "writes C (writeDigestInfo C (the (digests ?s))) ([1] @ concat (map (le_bytes 4 \<circ> fcrc) fs))"
    by (rule writes_digest [OF C l])
  have sizes: "list_all2 (writes C) (map (writeNumber C) (map fsize (butlast fs))) (map (getUint64Bytes \<circ> fsize) (butlast fs))"
    by (simp add: list_all2_conv_all_nth writes_number)
  have "writes C (wall ([writeTag C 0x08, writeTag C 0x0d] @ [writeNumber C (of_nat (length fs))] @ [writeTag C 0x09]
      @ map (writeNumber C) (map fsize (butlast fs)) @ [writeTag C 0x0a, writeDigestInfo C (the (digests ?s)), writeTag C 0x00]))
      (substreams_bytes fs)"
    by (rule writes_wall_as [OF C, where bss = "[[8], [0x0d]] @ [getUint64Bytes (of_nat (length fs))] @ [[9]]
        @ map (getUint64Bytes \<circ> fsize) (butlast fs) @ [[0x0a], [1] @ concat (map (le_bytes 4 \<circ> fcrc) fs), [0]]"])
      (use d sizes in \<open>auto intro!: list_all2_appendI simp: write_rules substreams_bytes_def simp del: map_map\<close>)
  moreover have "writeSubstreamsInfo C (substreamsInfo (streams_of fs n)) =
      wall ([writeTag C 0x08, writeTag C 0x0d] @ [writeNumber C (of_nat (length fs))] @ [writeTag C 0x09]
      @ map (writeNumber C) (map fsize (butlast fs)) @ [writeTag C 0x0a, writeDigestInfo C (the (digests ?s)), writeTag C 0x00])"
    using z at_or_all [of "length fs - 1" "map fsize (butlast fs)" "writeNumber C"]
    by (simp add: writeSubstreamsInfo_def streams_of_def at_or_def [of "writeNumber C" "[of_nat (length fs)]"] k Let_def del: map_map)
  ultimately show ?thesis by simp
qed

lemma writes_streams: "crc_law C \<Longrightarrow> fs \<noteq> [] \<Longrightarrow> length fs < 2 ^ 64 \<Longrightarrow>
    writes C (writeStreamsInfo C (Some (streams_of fs n))) (streams_bytes fs n)"
  unfolding writeStreamsInfo_def option.case
  by (rule writes_wall_as [where bss = "[[4], pack_bytes n, coders_bytes (foldl (\<lambda>s p. s + fsize p) 0 fs), substreams_bytes fs, [0]]"])
    (use writes_pack [of C fs n] writes_coders [of C fs n] writes_substreams [of C fs n] in
      \<open>simp_all add: write_rules streams_bytes_def streams_of_def\<close>)

text \<open>The parts about the files.\<close>

lemma those_map: "(\<And>x. x \<in> set xs \<Longrightarrow> f x = Some (g x)) \<Longrightarrow> those (map f xs) = Some (map g xs)"
  by (induction xs) simp_all

lemma name_part_wf: "item_wf p \<Longrightarrow> name_part p = Some (wide (name_of p))"
proof -
  assume p: "item_wf p"
  have "map (\<lambda>j. [fileName p ! j, 0]) [unat (baseNameLength p)..<unat (nameLength p)] = map (\<lambda>c. [c, 0]) (name_of p)"
    by (rule nth_equalityI) (use p in \<open>simp_all add: item_wf_def name_of_def\<close>)
  then show ?thesis using p by (simp add: name_part_def item_wf_def wide_def)
qed

lemma length_wide: "length (wide s) = 2 * length s"
  by (induction s) (simp_all add: wide_def)

lemma length_name: "item_wf p \<Longrightarrow> length (name_of p) = unat (nameLength p - baseNameLength p)"
  by (simp add: item_wf_def name_of_def unat_sub word_le_nat_alt)

lemma unat_sum: "sum_list (map (unat \<circ> g) xs) < 2 ^ 32 \<Longrightarrow> unat (sum_list (map g xs) :: u32) = sum_list (map (unat \<circ> g) xs)"
proof (induction xs)
  case (Cons x xs)
  then show ?case by (simp add: unat_word_ariths)
qed simp

lemma unat_double: "unat x < 2 ^ 30 \<Longrightarrow> unat (2 * x :: u32) = 2 * unat x"
  by (simp add: unat_word_ariths)

lemma names_part:
  assumes d: "list_ok da" and f: "list_ok fa" and wf: "list_all item_wf (list_items da @ list_items fa)"
    and l: "sum_list (map (\<lambda>p. 2 * length (name_of p)) (list_items da @ list_items fa)) < 2 ^ 31"
  shows "genNamesPart da fa = Some (0 # concat (map (wide \<circ> name_of) (list_items da @ list_items fa)))"
proof -
  let ?ps = "list_items da @ list_items fa"
  have parts: "those (map name_part ?ps) = Some (map (wide \<circ> name_of) ?ps)"
    by (rule those_map) (use wf in \<open>auto simp: list_all_iff name_part_wf\<close>)
  have len: "length (concat (map (wide \<circ> name_of) ?ps)) = sum_list (map (\<lambda>p. 2 * length (name_of p)) ?ps)"
    by (simp only: length_concat map_map) (simp add: comp_def length_wide)
  have one: "unat (2 * (nameLength p - baseNameLength p)) = 2 * length (name_of p)" if "p \<in> set ?ps" for p
  proof -
    have "2 * length (name_of p) \<in> set (map (\<lambda>p. 2 * length (name_of p)) ?ps)" using that by (simp only: set_map) blast
    from member_le_sum_list [OF this] have "2 * length (name_of p) < 2 ^ 31" using l by linarith
    moreover have n: "length (name_of p) = unat (nameLength p - baseNameLength p)" using length_name [of p] wf that by (auto simp: list_all_iff)
    ultimately have "unat (nameLength p - baseNameLength p) < 2 ^ 30" by simp
    from unat_double [OF this] show ?thesis by (simp only: n)
  qed
  have s: "sum_list (map (unat \<circ> (\<lambda>p. 2 * (nameLength p - baseNameLength p))) ?ps) = sum_list (map (\<lambda>p. 2 * length (name_of p)) ?ps)"
    by (rule arg_cong [where f = sum_list], rule map_cong) (use one in simp_all)
  have u: "unat (sum_list (map (\<lambda>p. 2 * (nameLength p - baseNameLength p)) ?ps)) = sum_list (map (\<lambda>p. 2 * length (name_of p)) ?ps)"
    using unat_sum [of "\<lambda>p. 2 * (nameLength p - baseNameLength p)" ?ps] s l by simp
  have "sint (sum_list (map (\<lambda>p. 2 * (nameLength p - baseNameLength p)) ?ps)) = int (sum_list (map (\<lambda>p. 2 * length (name_of p)) ?ps))"
    using u l by (simp only: sint_uint uint_nat) (simp add: signed_take_bit_int_eq_self)
  then show ?thesis
    using gather_all [OF d] gather_all [OF f] parts len by (simp add: genNamesPart_def Let_def del: map_append concat_append)
qed

lemma writes_times: "crc_law C \<Longrightarrow> list_ok h \<Longrightarrow> writes C (write_times C h) (concat (map time_bytes (list_items h)))"
proof -
  assume C: "crc_law C" and h: "list_ok h"
  have one: "writes C (wall [writeTime C (fst ft), writeTime C (snd ft)]) (le_bytes 4 (fst ft) @ le_bytes 4 (snd ft))" for ft
    by (rule writes_wall_as [OF C, where bss = "[le_bytes 4 (fst ft), le_bytes 4 (snd ft)]"]) (simp_all add: write_rules)
  have "writes C (wall (map (\<lambda>p. let ft = unixtimeToFiletime (mtime p) (mtime_nano p) in
         wall [writeTime C (fst ft), writeTime C (snd ft)]) (list_items h))) (concat (map time_bytes (list_items h)))"
    by (rule writes_all_concat [OF C]) (simp only: Let_def time_bytes_def one)
  then show ?thesis by (simp only: write_times_def gather_all [OF h] option.case)
qed

lemma zero_files: "list_ok (head_dirs files) \<Longrightarrow> checkZerobyteFiles files = Some (list_ex isEmpty (list_items (head_dirs files)))"
  by (simp add: checkZerobyteFiles_def gather_all)

lemma writes_sized_as: "crc_law C \<Longrightarrow> p = Some bs \<Longrightarrow> writes C (put_sized C p) (sized bs)"
  by (simp add: sized_def writes_sized)

lemma all2_cons: "writes C w b \<Longrightarrow> list_all2 (writes C) ws bs \<Longrightarrow> list_all2 (writes C) (w # ws) (b # bs)"
  by simp

lemma writes_files:
  assumes C: "crc_law C" and l: "item_list_ok ds fs l" and ok: "archive_ok ds fs"
  shows "writes C (writeFilesInfo C (generateFilesInfo l)) (files_bytes ds fs)"
proof -
  let ?F = "generateFilesInfo l"
  have d: "list_ok (head_dirs ?F)" "list_items (head_dirs ?F) = ds" and f: "list_ok (head_files ?F)" "list_items (head_files ?F) = fs"
    using l by (simp_all add: item_list_ok_def generateFilesInfo_def)
  have m: "unat (l_total (head_dirs ?F)) = length ds" and n: "unat (l_total (head_files ?F)) = length fs"
    using total_of [OF d(1)] total_of [OF f(1)] d(2) f(2) by simp_all
  have lt: "length ds + length fs < 2 ^ 28" using ok by (simp add: archive_ok_def)
  have num: "files_num ?F = of_nat (length ds + length fs)"
  proof -
    have "unat (l_total (items_dirs l) + l_total (items_files l)) = length ds + length fs"
      using m n lt by (simp add: generateFilesInfo_def unat_word_ariths)
    then show ?thesis by (simp add: generateFilesInfo_def) (metis of_nat_add of_nat_unat)
  qed
  have es: "calculateEmptyStreamProperty (length ds) (length fs) = Some (flag_bytes (replicate (length ds) True @ replicate (length fs) False))"
    using ok by (simp add: empty_streams archive_ok_def)
  have ef: "calculateEmptyFileProperty ?F (length ds) = Some (flag_bytes (map isEmpty ds))"
    using empty_files [OF d(1)] d(2) by simp
  have nm: "genNamesPart (head_dirs ?F) (head_files ?F) = Some (0 # concat (map (wide \<circ> name_of) (ds @ fs)))"
    using names_part [OF d(1) f(1)] ok unfolding archive_ok_def d(2) f(2) by simp
  have at: "genAttributes (head_dirs ?F) (head_files ?F) = Some (map attribute (ds @ fs))"
    using gather_all [OF d(1)] gather_all [OF f(1)] by (simp add: genAttributes_def d(2) f(2))
  have z: "checkZerobyteFiles ?F = Some (list_ex isEmpty ds)" using zero_files [OF d(1)] d(2) by simp
  have dz: "(length ds \<noteq> 0 \<and> list_ex isEmpty ds) = list_ex isEmpty ds" by (cases ds) simp_all
  let ?ws1 = "[writeTag C 0x05, writeNumber C (files_num ?F), writeTag C 0x0e, put_sized C (calculateEmptyStreamProperty (length ds) (length fs))]"
  let ?bs1 = "[[5], getUint64Bytes (of_nat (length ds + length fs)), [0x0e], sized (flag_bytes (replicate (length ds) True @ replicate (length fs) False))]"
  let ?ws2 = "if list_ex isEmpty ds then [writeTag C 0x0f, put_sized C (calculateEmptyFileProperty ?F (length ds))] else []"
  let ?bs2 = "if list_ex isEmpty ds then [[0x0f], sized (flag_bytes (map isEmpty ds))] else []"
  let ?ws3 = "[writeTag C 0x19, writeNumber C 2, writeTag C 0, writeTag C 0]"
  let ?bs3 = "[[0x19], getUint64Bytes 2, [0], [0]]"
  let ?ws4 = "[writeTag C 0x11, put_sized C (genNamesPart (head_dirs ?F) (head_files ?F))]"
  let ?bs4 = "[[0x11], sized (0 # concat (map (wide \<circ> name_of) (ds @ fs)))]"
  let ?ws5 = "[writeTag C 0x14, writeNumber C (of_nat ((length ds + length fs) * 8 + 2)), writeTag C 1, writeTag C 0,
     write_times C (head_dirs ?F), write_times C (head_files ?F)]"
  let ?bs5 = "[[0x14], getUint64Bytes (of_nat ((length ds + length fs) * 8 + 2)), [1], [0], concat (map time_bytes ds), concat (map time_bytes fs)]"
  let ?ws6 = "[writeTag C 0x15, writeNumber C (of_nat (2 + 4 * (length ds + length fs))), writeTag C 1, writeTag C 0]"
  let ?bs6 = "[[0x15], getUint64Bytes (of_nat (2 + 4 * (length ds + length fs))), [1], [0]]"
  let ?ws7 = "map (writeTime C) (map attribute (ds @ fs))"
  let ?bs7 = "map (le_bytes 4 \<circ> attribute) (ds @ fs)"
  have a1: "list_all2 (writes C) ?ws1 ?bs1" using writes_sized_as [OF C es] num by (simp add: write_rules)
  have a2: "list_all2 (writes C) ?ws2 ?bs2" using writes_sized_as [OF C ef] by (simp add: write_rules)
  have a3: "list_all2 (writes C) ?ws3 ?bs3" by (simp add: write_rules)
  have a4: "list_all2 (writes C) ?ws4 ?bs4" using writes_sized_as [OF C nm] by (simp add: write_rules)
  have a5: "list_all2 (writes C) ?ws5 ?bs5" using writes_times [OF C d(1)] writes_times [OF C f(1)] d(2) f(2) by (simp add: write_rules)
  have a6: "list_all2 (writes C) ?ws6 ?bs6" by (simp add: write_rules)
  have a7: "list_all2 (writes C) ?ws7 ?bs7" by (simp add: list_all2_conv_all_nth writes_time del: map_append)
  have a8: "list_all2 (writes C) [writeTag C 0x00] [[0]]" by (simp add: write_rules)
  note all = list_all2_appendI [OF a1 list_all2_appendI [OF a2 list_all2_appendI [OF a3 list_all2_appendI [OF a4
      list_all2_appendI [OF a5 list_all2_appendI [OF a6 list_all2_appendI [OF a7 a8]]]]]]]
  have at_all: "map (at_or (writeTime C) (map attribute (ds @ fs))) [0..<length ds + length fs] = ?ws7"
    by (rule at_or_all) simp
  have "writeFilesInfo C ?F = wall (?ws1 @ ?ws2 @ ?ws3 @ ?ws4 @ ?ws5 @ ?ws6 @ ?ws7 @ [writeTag C 0x00])"
    unfolding writeFilesInfo_def Let_def m n at z option.case dz at_all by simp
  moreover have "concat (?bs1 @ ?bs2 @ ?bs3 @ ?bs4 @ ?bs5 @ ?bs6 @ ?bs7 @ [[0]]) = files_bytes ds fs"
    by (simp add: files_bytes_def)
  ultimately show ?thesis using writes_wall_as [OF C all] by simp
qed

lemma writes_end_header:
  assumes C: "crc_law C" and l: "item_list_ok ds fs l" and ok: "archive_ok ds fs" and h: "generateEndHeader l n = Some h"
  shows "writes C (writeEndHeader C h) (end_header_bytes ds fs n)"
proof -
  have hd: "h = \<lparr>propertyInfo = Some generatePropertyInfo, streamsInfo = (if fs = [] then None else Some (streams_of fs n)),
      filesInfo = Some (generateFilesInfo l)\<rparr>" using h end_header_of [OF l, of n] by simp
  have lt: "length fs < 2 ^ 64" using ok by (simp add: archive_ok_def)
  have s: "writes C (writeStreamsInfo C (if fs = [] then None else Some (streams_of fs n))) (if fs = [] then [] else streams_bytes fs n)"
  proof (cases "fs = []")
    case True
    then show ?thesis using writes_wall_as [OF C, of "[]" "[]" "[]"] by (simp add: writeStreamsInfo_def)
  next
    case False
    then show ?thesis using writes_streams [OF C _ lt] by simp
  qed
  show ?thesis unfolding writeEndHeader_def
    by (rule writes_wall_as [OF C, where bss = "[[1], property_bytes, if fs = [] then [] else streams_bytes fs n, files_bytes ds fs, [0]]"])
      (use s writes_property [OF C] writes_files [OF C l ok] in \<open>simp_all add: hd write_rules end_header_bytes_def\<close>)
qed

end
