(* ===== verification/SevenParse.thy ===== *)
theory SevenParse
  imports SevenBytes
begin

text \<open>
  Reading the headers of a 7z archive (\<^verbatim>\<open>src/utils/qzip_7z.c\<close>, the \<^verbatim>\<open>resolve\<close> and
  \<^verbatim>\<open>read\<close> functions): the file is not trusted, so sizes wrap as they do in the code, arrays are as long as the memory asked for, and
  a use of an array outside it is \<open>Overrun\<close>. The parameter \<open>room\<close> says for which sizes memory is granted; memory of a fixed size always
  is. Loops that read tags until the last one have a bound on their rounds; \<open>SevenEnds\<close> shows that it is never met.
\<close>

section \<open>Arrays filled from the file\<close>

definition alloc :: "(u64 \<Rightarrow> bool) \<Rightarrow> u64 \<Rightarrow> unit rd" where
  "alloc room n = (if room n then rret () else rfail)"

definition elems_in :: "u64 \<Rightarrow> nat \<Rightarrow> nat" where
  "elems_in n k = unat n div k"

primrec fill :: "nat \<Rightarrow> nat \<Rightarrow> 'a rd \<Rightarrow> 'a list rd" where
  "fill cap 0 r = rret []"
| "fill cap (Suc n) r = rbind r (\<lambda>x. case cap of 0 \<Rightarrow> rover | Suc c \<Rightarrow> rbind (fill c n r) (\<lambda>xs. rret (x # xs)))"

definition expect :: "u8 \<Rightarrow> unit rd" where
  "expect b = rbind readByte (\<lambda>c. if c = b then rret () else rfail)"

definition rseq :: "unit rd \<Rightarrow> 'a rd \<Rightarrow> 'a rd" where
  "rseq r k = rbind r (\<lambda>_. k)"

text \<open>A field of each of the first \<open>n\<close> items, from item \<open>i\<close> on.\<close>

primrec each_item :: "nat \<Rightarrow> nat \<Rightarrow> 'b rd \<Rightarrow> ('b \<Rightarrow> 'a \<Rightarrow> 'a) \<Rightarrow> 'a list \<Rightarrow> 'a list rd" where
  "each_item 0 i r g ps = rret ps"
| "each_item (Suc n) i r g ps = rbind r (\<lambda>x. if i < length ps then each_item n (Suc i) r g (ps[i := g x (ps ! i)]) else rover)"

section \<open>The signature header\<close>

definition resolveSignatureHeader :: "signature_header rd" where
  "resolveSignatureHeader = rbind (fread 6) (\<lambda>s. rbind readByte (\<lambda>major. rbind readByte (\<lambda>minor. rbind readCRC (\<lambda>start.
     rbind (fread 8) (\<lambda>off. rbind (fread 8) (\<lambda>size. rbind readCRC (\<lambda>crc. rret
       \<lparr>signature = s, majorVersion = major, minorVersion = minor, startHeaderCRC = start, nextHeaderOffset = of_le off,
        nextHeaderSize = of_le size, nextHeaderCRC = crc\<rparr>)))))))"

section \<open>Properties and streams\<close>

definition QZ7Z_DEVELOP_ID :: u64 where "QZ7Z_DEVELOP_ID = 0x514154377a"
definition QZ7Z_DEVELOP_SUBID :: u64 where "QZ7Z_DEVELOP_SUBID = 0x0a01"

definition resolveArchiveProperties :: "u64 rd" where
  "resolveArchiveProperties = rbind getU64FromBytes (\<lambda>id.
     if drop_bit 56 id \<noteq> 0x3f \<or> drop_bit 16 id AND 0xffffffffff \<noteq> QZ7Z_DEVELOP_ID \<or> id AND 0xffff \<noteq> QZ7Z_DEVELOP_SUBID then rfail
     else rbind getU64FromBytes (\<lambda>size. rseq (skipNByte size) (rseq (expect 0x00) (rret id))))"

definition resolvePackInfo :: "(u64 \<Rightarrow> bool) \<Rightarrow> pack_info rd" where
  "resolvePackInfo room = rbind getU64FromBytes (\<lambda>pos. rbind getU64FromBytes (\<lambda>n.
     rseq (alloc room (n * 8)) (rseq (expect 0x09) (rbind (fill (elems_in (n * 8) 8) (unat n) getU64FromBytes) (\<lambda>sizes.
       rseq (expect 0x00) (rret \<lparr>PackPos = pos, NumPackStreams = n, PackSize = sizes\<rparr>))))))"

definition readCoder :: "(u64 \<Rightarrow> bool) \<Rightarrow> coder rd" where
  "readCoder room = rbind readByte (\<lambda>uc. rseq (alloc room (of_nat (CodecIdSize uc))) (rbind (fread (CodecIdSize uc)) (\<lambda>codec.
     rret \<lparr>coderFirstByte = uc, codecID = codec\<rparr>)))"

text \<open>One coder for each folder, whatever the number of coders is.\<close>

primrec readFolders :: "(u64 \<Rightarrow> bool) \<Rightarrow> nat \<Rightarrow> nat \<Rightarrow> folder_info list rd" where
  "readFolders room cap 0 = rret []"
| "readFolders room cap (Suc n) = rbind readByte (\<lambda>coders. case cap of 0 \<Rightarrow> rover
     | Suc c \<Rightarrow> rbind (readCoder room) (\<lambda>k. rbind (readFolders room c n) (\<lambda>fs. rret (\<lparr>numCoders = ucast coders, coder_list = k\<rparr> # fs))))"

definition resolveCodersInfo :: "(u64 \<Rightarrow> bool) \<Rightarrow> coders_info rd" where
  "resolveCodersInfo room = rseq (expect 0x0b) (rbind getU64FromBytes (\<lambda>n. rseq (alloc room (n * 64)) (rbind readByte (\<lambda>c.
     rbind (if c = 0 then rbind (readFolders room (elems_in (n * 64) 64) (unat n)) (\<lambda>fs. rret (fs, None))
            else if c = 1 then rbind getU64FromBytes (\<lambda>k. rret ([], Some k)) else rfail) (\<lambda>(fs, index).
     rseq (expect 0x0c) (rseq (alloc room (n * 8)) (rbind (fill (elems_in (n * 8) 8) (unat n) getU64FromBytes) (\<lambda>sizes.
     rseq (expect 0x00) (rret \<lparr>numFolders = n, folders = fs, dataStreamIndex = index, unPackSize = sizes\<rparr>)))))))))"

text \<open>The number in \<open>total_streams\<close> is an \<^verbatim>\<open>int\<close>, here the word of its bits.\<close>

record substreams_dec =
  total_streams :: u32
  d_numUnPackStreams :: "u64 list option"
  d_unPackSize :: "u64 list option"
  unpacksize_resolved :: bool
  d_crcs :: "u32 option list option"

definition read_nums :: "(u64 \<Rightarrow> bool) \<Rightarrow> int \<Rightarrow> substreams_dec \<Rightarrow> substreams_dec rd" where
  "read_nums room n_folder s =
    (if d_numUnPackStreams s \<noteq> None then rfail
     else rseq (alloc room (of_int n_folder * 8)) (rbind (fill (elems_in (of_int n_folder * 8) 8) (nat n_folder) getU64FromBytes) (\<lambda>ns.
       rret (s\<lparr>d_numUnPackStreams := Some ns, total_streams := foldl (\<lambda>t n. t + ucast n) 0 ns\<rparr>))))"

definition read_sizes :: "(u64 \<Rightarrow> bool) \<Rightarrow> int \<Rightarrow> substreams_dec \<Rightarrow> substreams_dec rd" where
  "read_sizes room n_folder s =
    (let d = sint (total_streams s - of_int n_folder)
     in if unpacksize_resolved s then rfail
        else if d = 0 then rret (s\<lparr>unpacksize_resolved := True\<rparr>)
        else rseq (alloc room (of_int d * 8)) (rbind (fill (elems_in (of_int d * 8) 8) (nat d) getU64FromBytes) (\<lambda>ss.
          rret (s\<lparr>d_unPackSize := Some ss, unpacksize_resolved := True\<rparr>))))"

text \<open>The checksums are read and not kept: the array for them is left as it is.\<close>

definition read_digests :: "(u64 \<Rightarrow> bool) \<Rightarrow> substreams_dec \<Rightarrow> substreams_dec rd" where
  "read_digests room s =
    (if d_crcs s \<noteq> None then rfail
     else rseq (expect 1) (rseq (alloc room (of_int (sint (total_streams s)) * 4)) (rbind (read_n (nat (sint (total_streams s))) readCRC) (\<lambda>_.
       rret (s\<lparr>d_crcs := Some (replicate (nat (sint (total_streams s))) None)\<rparr>)))))"

primrec substreams_loop :: "nat \<Rightarrow> (u64 \<Rightarrow> bool) \<Rightarrow> int \<Rightarrow> substreams_dec \<Rightarrow> substreams_dec rd" where
  "substreams_loop 0 room n s = rspin"
| "substreams_loop (Suc k) room n s = rbind readByte (\<lambda>c.
     if c = 0x0d then rbind (read_nums room n s) (substreams_loop k room n)
     else if c = 0x09 then rbind (read_sizes room n s) (substreams_loop k room n)
     else if c = 0x0a then rbind (read_digests room s) (substreams_loop k room n)
     else if c = 0x00 then rret s
     else rfail)"

definition substreams0 :: substreams_dec where
  "substreams0 = \<lparr>total_streams = 1, d_numUnPackStreams = None, d_unPackSize = None, unpacksize_resolved = False, d_crcs = None\<rparr>"

definition rounds :: "(nat \<Rightarrow> 'a rd) \<Rightarrow> 'a rd" where
  "rounds r f p = r (2 * length f + 3) f p"

definition resolveSubstreamsInfo :: "(u64 \<Rightarrow> bool) \<Rightarrow> u64 \<Rightarrow> substreams_dec rd" where
  "resolveSubstreamsInfo room n = rounds (\<lambda>k. substreams_loop k room (sint (ucast n :: u32)) substreams0)"

record streams_dec =
  d_packInfo :: "pack_info option"
  d_codersInfo :: "coders_info option"
  d_substreamsInfo :: "substreams_dec option"

primrec streams_loop :: "nat \<Rightarrow> (u64 \<Rightarrow> bool) \<Rightarrow> streams_dec \<Rightarrow> streams_dec rd" where
  "streams_loop 0 room s = rspin"
| "streams_loop (Suc k) room s = rbind readByte (\<lambda>c.
     if c = 0x06 then
       if d_packInfo s \<noteq> None then rfail
       else rbind (resolvePackInfo room) (\<lambda>p. streams_loop k room (s\<lparr>d_packInfo := Some p\<rparr>))
     else if c = 0x07 then
       if d_codersInfo s \<noteq> None then rfail
       else rbind (resolveCodersInfo room) (\<lambda>p. streams_loop k room (s\<lparr>d_codersInfo := Some p\<rparr>))
     else if c = 0x08 then
       if d_substreamsInfo s \<noteq> None then rfail
       else (case d_codersInfo s of None \<Rightarrow> rfail
         | Some i \<Rightarrow> rbind (resolveSubstreamsInfo room (numFolders i)) (\<lambda>p. streams_loop k room (s\<lparr>d_substreamsInfo := Some p\<rparr>)))
     else if c = 0x00 then rret s
     else rfail)"

definition resolveMainStreamsInfo :: "(u64 \<Rightarrow> bool) \<Rightarrow> streams_dec rd" where
  "resolveMainStreamsInfo room =
    rounds (\<lambda>k. streams_loop k room \<lparr>d_packInfo = None, d_codersInfo = None, d_substreamsInfo = None\<rparr>)"

section \<open>The files\<close>

definition PATH_MAX :: nat where "PATH_MAX = 4096"

text \<open>A name of two-byte characters up to the zero one, with the room left in \<^verbatim>\<open>path\<close>.\<close>

primrec read_path :: "nat \<Rightarrow> bytes rd" where
  "read_path 0 = rbind (fread 2) (\<lambda>wc. rover)"
| "read_path (Suc r) = rbind (fread 2) (\<lambda>wc. if wc ! 0 = 0 \<and> wc ! 1 = 0 then rret [] else rbind (read_path r) (\<lambda>s. rret (wc ! 0 # s)))"

definition set_name :: "bytes \<Rightarrow> file_item \<Rightarrow> file_item" where
  "set_name path p = (let s = takeWhile (\<lambda>c. c \<noteq> 0) path
     in p\<lparr>nameLength := of_nat (length path + 1), fileName := s @ replicate (length path + 1 - length s) 0\<rparr>)"

definition readNames :: "u64 \<Rightarrow> file_item list \<Rightarrow> file_item list rd" where
  "readNames num p = rbind getU64FromBytes (\<lambda>_. rseq (expect 0) (each_item (unat num) 0 (read_path PATH_MAX) set_name p))"

text \<open>A short read of a number is an error here and not the end of the process.\<close>

definition read_u32 :: "u32 rd" where
  "read_u32 f p = (case readCRC f p of Eof \<Rightarrow> Refused | r \<Rightarrow> r)"

definition read_time :: "(u32 \<times> u32) rd" where
  "read_time = rbind read_u32 (\<lambda>low. rbind read_u32 (\<lambda>high. rret (low, high)))"

definition set_time :: "u32 \<times> u32 \<Rightarrow> file_item \<Rightarrow> file_item" where
  "set_time ft p = p\<lparr>mtime := filetimeToUnixtime ft, atime := filetimeToUnixtime ft\<rparr>"

definition readTimes :: "u64 \<Rightarrow> file_item list \<Rightarrow> file_item list rd" where
  "readTimes num p = rbind getU64FromBytes (\<lambda>_. rseq (expect 1) (rseq (expect 0) (each_item (unat num) 0 read_time set_time p)))"

definition set_attribute :: "u32 \<Rightarrow> file_item \<Rightarrow> file_item" where
  "set_attribute attr p = p\<lparr>attribute := attr\<rparr>"

definition readAttributes :: "u64 \<Rightarrow> file_item list \<Rightarrow> file_item list rd" where
  "readAttributes num p = rbind getU64FromBytes (\<lambda>_. rseq (expect 1) (rseq (expect 0) (each_item (unat num) 0 read_u32 set_attribute p)))"

text \<open>The bits of a byte for the items from \<open>i\<close> on, with the number of bits set; the items end the byte, not the bytes.\<close>

primrec flag_bits :: "(bool \<Rightarrow> file_item \<Rightarrow> file_item) \<Rightarrow> nat \<Rightarrow> u8 \<Rightarrow> nat list \<Rightarrow> nat \<times> file_item list \<times> u64 \<Rightarrow>
    (nat \<times> file_item list \<times> u64) option" where
  "flag_bits g total_num c [] s = Some s"
| "flag_bits g total_num c (j # js) s = (case s of (i, ps, n) \<Rightarrow>
     if length ps \<le> i then None
     else let b = (c AND push_bit j 1 \<noteq> 0); s' = (Suc i, ps[i := g b (ps ! i)], if b then n + 1 else n)
       in if Suc i = total_num then Some s' else flag_bits g total_num c js s')"

primrec read_flags :: "(bool \<Rightarrow> file_item \<Rightarrow> file_item) \<Rightarrow> nat \<Rightarrow> nat \<Rightarrow> nat \<times> file_item list \<times> u64 \<Rightarrow> (nat \<times> file_item list \<times> u64) rd" where
  "read_flags g total_num 0 s = rret s"
| "read_flags g total_num (Suc n) s = rbind readByte (\<lambda>c.
     case flag_bits g total_num c [7, 6, 5, 4, 3, 2, 1, 0] s of None \<Rightarrow> rover | Some s' \<Rightarrow> read_flags g total_num n s')"

definition set_dir :: "bool \<Rightarrow> file_item \<Rightarrow> file_item" where
  "set_dir b p = p\<lparr>isDir := b\<rparr>"

definition set_empty :: "bool \<Rightarrow> file_item \<Rightarrow> file_item" where
  "set_empty b p = (if b then p\<lparr>isEmpty := True, isDir := False\<rparr> else p\<lparr>isEmpty := False\<rparr>)"

record files_dec =
  dir_num :: u64
  file_num :: u64
  items :: "file_item list"

definition read_dirs :: "u64 \<Rightarrow> files_dec \<Rightarrow> files_dec rd" where
  "read_dirs total_num s =
    (let n = sint (ucast (if total_num mod 8 \<noteq> 0 then total_num div 8 + 1 else total_num div 8) :: u32)
     in rbind getU64FromBytes (\<lambda>_. rbind (read_flags set_dir (unat total_num) (nat n) (0, items s, 0)) (\<lambda>(_, ps, d).
          rret (s\<lparr>items := ps, dir_num := d, file_num := total_num - d\<rparr>))))"

definition read_empties :: "u64 \<Rightarrow> files_dec \<Rightarrow> files_dec rd" where
  "read_empties total_num s = rbind getU64FromBytes (\<lambda>n.
     rbind (read_flags set_empty (unat total_num) (unat n) (0, items s, 0)) (\<lambda>(_, ps, _). rret (s\<lparr>items := ps\<rparr>)))"

definition set_items :: "(u64 \<Rightarrow> file_item list \<Rightarrow> file_item list rd) \<Rightarrow> u64 \<Rightarrow> files_dec \<Rightarrow> files_dec rd" where
  "set_items r total_num s = rbind (r total_num (items s)) (\<lambda>ps. rret (s\<lparr>items := ps\<rparr>))"

definition skip_dummy :: "files_dec \<Rightarrow> files_dec rd" where
  "skip_dummy s = rbind readByte (\<lambda>c. rseq (if c \<noteq> 0 then skipNByte (ucast c) else rret ()) (rret s))"

primrec files_loop :: "nat \<Rightarrow> u64 \<Rightarrow> files_dec \<Rightarrow> files_dec rd" where
  "files_loop 0 total_num s = rspin"
| "files_loop (Suc k) total_num s = rbind readByte (\<lambda>c.
     if c = 0x00 then rret s
     else if c = 0x0e then rbind (read_dirs total_num s) (files_loop k total_num)
     else if c = 0x0f then rbind (read_empties total_num s) (files_loop k total_num)
     else if c = 0x11 then rbind (set_items readNames total_num s) (files_loop k total_num)
     else if c = 0x12 \<or> c = 0x13 \<or> c = 0x14 then rbind (set_items readTimes total_num s) (files_loop k total_num)
     else if c = 0x15 then rbind (set_items readAttributes total_num s) (files_loop k total_num)
     else if c = 0x19 then rbind (skip_dummy s) (files_loop k total_num)
     else rfail)"

definition file_item_size :: nat where "file_item_size = 72"

definition resolveFilesInfo :: "(u64 \<Rightarrow> bool) \<Rightarrow> files_dec rd" where
  "resolveFilesInfo room = rbind getU64FromBytes (\<lambda>total_num. rseq (alloc room (total_num * of_nat file_item_size))
     (rounds (\<lambda>k. files_loop k total_num
        \<lparr>dir_num = 0, file_num = 0, items = replicate (elems_in (total_num * of_nat file_item_size) file_item_size) file_item0\<rparr>)))"

section \<open>The end header\<close>

record end_dec =
  d_property :: "u64 option"
  d_streams :: "streams_dec option"
  d_files :: "files_dec option"

definition RESOLVE_STATUS_IN_HEADER :: u32 where "RESOLVE_STATUS_IN_HEADER = 1"
definition RESOLVE_STATUS_IN_ARCHIVE_PROPERTIES :: u32 where "RESOLVE_STATUS_IN_ARCHIVE_PROPERTIES = 2"
definition RESOLVE_STATUS_IN_STREAMSINFO :: u32 where "RESOLVE_STATUS_IN_STREAMSINFO = 4"
definition RESOLVE_STATUS_IN_FILESINFO :: u32 where "RESOLVE_STATUS_IN_FILESINFO = 8"

primrec end_loop :: "nat \<Rightarrow> (u64 \<Rightarrow> bool) \<Rightarrow> u32 \<Rightarrow> end_dec \<Rightarrow> end_dec rd" where
  "end_loop 0 room status e = rspin"
| "end_loop (Suc k) room status e = rbind readByte (\<lambda>c.
     if c = 0x01 then end_loop k room RESOLVE_STATUS_IN_HEADER e
     else if c = 0x02 then
       if d_property e \<noteq> None then rfail
       else rbind resolveArchiveProperties (\<lambda>p. end_loop k room RESOLVE_STATUS_IN_ARCHIVE_PROPERTIES (e\<lparr>d_property := Some p\<rparr>))
     else if c = 0x04 then
       if d_streams e \<noteq> None then rfail
       else rbind (resolveMainStreamsInfo room) (\<lambda>s. end_loop k room RESOLVE_STATUS_IN_STREAMSINFO (e\<lparr>d_streams := Some s\<rparr>))
     else if c = 0x05 then
       if d_files e \<noteq> None then rfail
       else rbind (resolveFilesInfo room) (\<lambda>s. end_loop k room RESOLVE_STATUS_IN_FILESINFO (e\<lparr>d_files := Some s\<rparr>))
     else if c = 0x00 then (if status = RESOLVE_STATUS_IN_FILESINFO then rret e else end_loop k room status e)
     else rfail)"

text \<open>The position moves on from where the file stands; before the start of the file it stays.\<close>

definition fseek_cur :: "u64 \<Rightarrow> unit rd" where
  "fseek_cur n f p = (let q = int p + sint n in Seen () (if q < 0 then p else nat q))"

definition resolveEndHeader :: "(u64 \<Rightarrow> bool) \<Rightarrow> signature_header \<Rightarrow> end_dec rd" where
  "resolveEndHeader room sheader = rseq (fseek_cur (nextHeaderOffset sheader + 0x20))
     (rbind (rounds (\<lambda>k. end_loop k room 0 \<lparr>d_property = None, d_streams = None, d_files = None\<rparr>)) (\<lambda>e.
       if d_property e = None then rfail else rret e))"

text \<open>The checksums of the two headers; \<open>True\<close> when both are as they should be, with the position back at the start.\<close>

function crc_blocks :: "crc_fun \<Rightarrow> u32 \<Rightarrow> bytes \<Rightarrow> u32" where
  "crc_blocks C crc bs = (if bs = [] then crc else crc_blocks C (C crc (take 4096 bs)) (drop 4096 bs))"
  by auto
termination by (relation "measure (\<lambda>(C, crc, bs). length bs)") auto

declare crc_blocks.simps [simp del]

definition checkHeaderCRC :: "crc_fun \<Rightarrow> signature_header \<Rightarrow> bytes \<Rightarrow> bool" where
  "checkHeaderCRC C sh f =
    (let start = C (C (C 0 (le_bytes 8 (nextHeaderOffset sh))) (le_bytes 8 (nextHeaderSize sh))) (le_bytes 4 (nextHeaderCRC sh))
     in if start \<noteq> startHeaderCRC sh then False
        else let off = sint (nextHeaderOffset sh + 0x20); pos = (if off < 0 then 32 else nat off)
          in crc_blocks C 0 (drop pos f) = nextHeaderCRC sh)"

end
