(* ===== verification/SevenEnds.thy ===== *)
theory SevenEnds
  imports SevenParse
begin

text \<open>
  Reading the headers of a 7z archive comes to an end on every file: the loops over tags never use up the rounds they are given,
  since each round reads a byte and only the property of the archive, which is read once, can move the position back.
\<close>

section \<open>Readers that go forward\<close>

text \<open>A reader that has no round too few, and one that also never moves back.\<close>

definition ends :: "'a rd \<Rightarrow> bool" where
  "ends r \<longleftrightarrow> (\<forall>f p. r f p \<noteq> Spin)"

definition forward :: "'a rd \<Rightarrow> bool" where
  "forward r \<longleftrightarrow> (\<forall>f p. r f p \<noteq> Spin \<and> (\<forall>x q. r f p = Seen x q \<longrightarrow> p \<le> q))"

named_theorems ends_rules "readers that come to an end"

lemma forward_ends: "forward r \<Longrightarrow> ends r"
  by (simp add: forward_def ends_def)

lemma ends_bind [ends_rules]: "ends r \<Longrightarrow> (\<And>x. ends (k x)) \<Longrightarrow> ends (rbind r k)"
  by (simp add: ends_def rbind_def split: seen.split)

lemma forward_bind [ends_rules]: "forward r \<Longrightarrow> (\<And>x. forward (k x)) \<Longrightarrow> forward (rbind r k)"
  unfolding forward_def rbind_def by (fastforce split: seen.splits intro: le_trans)

lemma forward_ret [ends_rules]: "forward (rret x)" by (simp add: forward_def rret_def)
lemma forward_fail [ends_rules]: "forward rfail" by (simp add: forward_def rfail_def)
lemma forward_over [ends_rules]: "forward rover" by (simp add: forward_def rover_def)
lemma forward_fread [ends_rules]: "forward (fread n)" by (simp add: forward_def fread_def)

lemma forward_seq [ends_rules]: "forward r \<Longrightarrow> forward k \<Longrightarrow> forward (rseq r k)"
  unfolding rseq_def by (rule forward_bind)

lemma ends_seq [ends_rules]: "ends r \<Longrightarrow> ends k \<Longrightarrow> ends (rseq r k)"
  unfolding rseq_def by (rule ends_bind)

lemma forward_if [ends_rules]: "forward r \<Longrightarrow> forward s \<Longrightarrow> forward (if b then r else s)"
  by simp

lemma forward_byte [ends_rules]: "forward readByte" unfolding readByte_def by (intro ends_rules)
lemma forward_crc [ends_rules]: "forward readCRC" unfolding readCRC_def by (intro ends_rules)
lemma forward_expect [ends_rules]: "forward (expect b)" unfolding expect_def by (intro ends_rules)
lemma forward_alloc [ends_rules]: "forward (alloc room n)" unfolding alloc_def by (intro ends_rules)

lemma forward_read_n [ends_rules]: "forward r \<Longrightarrow> forward (read_n n r)"
  by (induction n) (auto intro: ends_rules)

lemma forward_fill [ends_rules]: "forward r \<Longrightarrow> forward (fill cap n r)"
  by (induction n arbitrary: cap) (auto intro!: ends_rules split: nat.split)

lemma forward_each [ends_rules]: "forward r \<Longrightarrow> forward (each_item n i r g ps)"
  by (induction n arbitrary: i ps) (auto intro!: ends_rules)

lemma forward_number [ends_rules]: "forward getU64FromBytes"
  unfolding getU64FromBytes_def Let_def by (intro ends_rules)

lemma ends_skip [ends_rules]: "ends (skipNByte n)"
  by (simp add: ends_def skipNByte_def Let_def)

lemma forward_skip_byte: "forward (skipNByte (ucast (c :: u8)))"
proof -
  have b: "uint c < 2 ^ 8" by (rule order_less_le_trans [OF uint_lt2p]) simp
  have "(ucast (ucast c :: u64) :: u32) = ucast c" by (rule bit_word_eqI) (simp add: bit_simps)
  moreover have "uint (ucast c :: u32) = uint c" by (rule uint_up_ucast) (simp add: is_up)
  moreover have "signed_take_bit 31 (uint c) = uint c" by (rule signed_take_bit_int_eq_self) (use b order_trans [OF _ uint_ge_0 [of c]] in auto)
  ultimately have "0 \<le> sint (ucast (ucast c :: u64) :: u32)" by (simp add: sint_uint)
  then show ?thesis by (simp add: forward_def skipNByte_def Let_def le_nat_iff)
qed

lemma forward_u32 [ends_rules]: "forward read_u32"
  using forward_crc by (simp add: forward_def read_u32_def split: seen.split)

lemma forward_path [ends_rules]: "forward (read_path n)"
  by (induction n) (auto intro!: ends_rules)

lemma forward_coder [ends_rules]: "forward (readCoder room)"
  unfolding readCoder_def by (intro ends_rules)

lemma forward_folders [ends_rules]: "forward (readFolders room cap n)"
  by (induction n arbitrary: cap) (auto intro!: ends_rules split: nat.split)

lemma forward_time [ends_rules]: "forward read_time"
  unfolding read_time_def by (intro ends_rules)

lemma forward_pack [ends_rules]: "forward (resolvePackInfo room)"
  unfolding resolvePackInfo_def by (intro ends_rules)

lemma forward_coders [ends_rules]: "forward (resolveCodersInfo room)"
  unfolding resolveCodersInfo_def by (auto intro!: ends_rules split: prod.split)

lemma forward_nums [ends_rules]: "forward (read_nums room n s)"
  unfolding read_nums_def by (intro ends_rules)

lemma forward_sizes [ends_rules]: "forward (read_sizes room n s)"
  unfolding read_sizes_def Let_def by (intro ends_rules)

lemma forward_digests [ends_rules]: "forward (read_digests room s)"
  unfolding read_digests_def by (intro ends_rules)

lemma forward_flags [ends_rules]: "forward (read_flags g t n s)"
  by (induction n arbitrary: s) (auto intro!: ends_rules split: option.split)

lemma forward_names [ends_rules]: "forward (readNames n p)" unfolding readNames_def by (intro ends_rules)
lemma forward_times [ends_rules]: "forward (readTimes n p)" unfolding readTimes_def by (intro ends_rules)
lemma forward_attributes [ends_rules]: "forward (readAttributes n p)" unfolding readAttributes_def by (intro ends_rules)

lemma forward_dirs [ends_rules]: "forward (read_dirs n s)"
  unfolding read_dirs_def Let_def by (auto intro!: ends_rules split: prod.split)

lemma forward_empties [ends_rules]: "forward (read_empties n s)"
  unfolding read_empties_def by (auto intro!: ends_rules split: prod.split)

lemma forward_items [ends_rules]: "(\<And>p. forward (r n p)) \<Longrightarrow> forward (set_items r n s)"
  unfolding set_items_def by (intro ends_rules)

lemma forward_dummy [ends_rules]: "forward (skip_dummy s)"
  unfolding skip_dummy_def by (intro ends_rules forward_skip_byte)

section \<open>Loops over tags\<close>

lemma byte_past: "length f \<le> p \<Longrightarrow> readByte f p = Eof"
  by (simp add: readByte_def rbind_def fread_def)

lemma byte_next: "readByte f p = Seen c q \<Longrightarrow> q = Suc p \<and> p < length f"
  by (simp add: readByte_def rbind_def fread_def rret_def split: if_splits)

text \<open>From a position a reader has no round too few and does not move back.\<close>

definition fine :: "'a rd \<Rightarrow> bytes \<Rightarrow> nat \<Rightarrow> bool" where
  "fine r f p \<longleftrightarrow> r f p \<noteq> Spin \<and> (\<forall>x q. r f p = Seen x q \<longrightarrow> p \<le> q)"

lemma forward_fine: "forward r \<longleftrightarrow> (\<forall>f p. fine r f p)"
  by (auto simp: forward_def fine_def)

lemma fine_bind: "forward r \<Longrightarrow> (\<And>x q. p \<le> q \<Longrightarrow> fine (k x) f q) \<Longrightarrow> fine (rbind r k) f p"
proof -
  assume r: "forward r" and k: "\<And>x q. p \<le> q \<Longrightarrow> fine (k x) f q"
  show ?thesis
  proof (cases "r f p")
    case (Seen x q)
    then have pq: "p \<le> q" using r by (simp add: forward_def)
    then show ?thesis using k [OF pq, of x] Seen by (auto simp: fine_def rbind_def)
  next
    case Spin
    then show ?thesis using r by (simp add: forward_def)
  qed (simp_all add: fine_def rbind_def)
qed

lemma fine_tag: "(\<And>c. p < length f \<Longrightarrow> fine (k c) f (Suc p)) \<Longrightarrow> fine (rbind readByte k) f p"
proof (cases "readByte f p")
  case (Seen c q)
  then have q: "q = Suc p" "p < length f" using byte_next by blast+
  assume "\<And>c. p < length f \<Longrightarrow> fine (k c) f (Suc p)"
  then have "fine (k c) f (Suc p)" using q(2) .
  then show ?thesis using Seen q(1) by (auto simp: rbind_def fine_def)
next
  case Spin
  then show ?thesis using forward_byte by (simp add: forward_def)
qed (simp_all add: rbind_def fine_def)

text \<open>Rounds enough for the bytes left.\<close>

definition enough :: "nat \<Rightarrow> bytes \<Rightarrow> nat \<Rightarrow> bool" where
  "enough k f p \<longleftrightarrow> 0 < k \<and> length f + 1 - p \<le> k"

lemma enough_next: "enough (Suc k) f p \<Longrightarrow> p < length f \<Longrightarrow> enough k f (Suc p)"
  by (auto simp: enough_def)

lemma enough_on: "enough k f p \<Longrightarrow> p \<le> q \<Longrightarrow> enough k f q"
  by (auto simp: enough_def)

lemma enough_rounds: "enough (2 * length f + 3) f p"
  by (simp add: enough_def)

lemma not_enough: "\<not> enough 0 f p"
  by (simp add: enough_def)

lemma forward_rounds: "(\<And>k f p. enough k f p \<Longrightarrow> fine (r k) f p) \<Longrightarrow> forward (rounds r)"
proof -
  assume r: "\<And>k f p. enough k f p \<Longrightarrow> fine (r k) f p"
  have "fine (rounds r) f p" for f p using r [OF enough_rounds, of f p] by (simp add: fine_def rounds_def)
  then show ?thesis by (simp add: forward_fine)
qed

lemma fine_plain: "forward r \<Longrightarrow> fine r f p"
  by (simp add: forward_fine)

lemma fine_if: "(b \<Longrightarrow> fine r f p) \<Longrightarrow> (\<not> b \<Longrightarrow> fine s f p) \<Longrightarrow> fine (if b then r else s) f p"
  by simp

lemmas fine_rules = fine_if fine_plain [OF forward_ret] fine_plain [OF forward_fail]

lemma goes_on: "(\<And>s f p. enough k f p \<Longrightarrow> fine (loop s) f p) \<Longrightarrow> forward r \<Longrightarrow> enough k f p \<Longrightarrow> fine (rbind r (\<lambda>x. loop (g x))) f p"
  by (blast intro: fine_bind enough_on)

lemma substreams_ends: "enough k f p \<Longrightarrow> fine (substreams_loop k room n s) f p"
proof (induction k arbitrary: s f p)
  case (Suc k)
  show ?case unfolding substreams_loop.simps
    by (intro fine_tag fine_rules fine_bind forward_nums forward_sizes forward_digests Suc.IH)
      (use enough_next [OF Suc.prems] enough_on in blast)+
qed (simp add: not_enough)

lemma forward_substreams [ends_rules]: "forward (resolveSubstreamsInfo room n)"
  unfolding resolveSubstreamsInfo_def by (rule forward_rounds) (rule substreams_ends)

lemma streams_ends: "enough k f p \<Longrightarrow> fine (streams_loop k room s) f p"
proof (induction k arbitrary: s f p)
  case (Suc k)
  have coders: "fine (case d_codersInfo s of None \<Rightarrow> rfail
      | Some i \<Rightarrow> rbind (resolveSubstreamsInfo room (numFolders i)) (\<lambda>q. streams_loop k room (s\<lparr>d_substreamsInfo := Some q\<rparr>))) f (Suc p)"
    if "p < length f"
  proof (cases "d_codersInfo s")
    case (Some i)
    show ?thesis unfolding Some option.case
      by (intro fine_bind forward_substreams Suc.IH) (use enough_next [OF Suc.prems that] enough_on in blast)
  qed (simp add: fine_rules)
  show ?case unfolding streams_loop.simps
    by (intro fine_tag fine_rules fine_bind forward_pack forward_coders Suc.IH coders)
      (use enough_next [OF Suc.prems] enough_on in blast)+
qed (simp add: not_enough)

lemma forward_streams [ends_rules]: "forward (resolveMainStreamsInfo room)"
  unfolding resolveMainStreamsInfo_def by (rule forward_rounds) (rule streams_ends)

lemma files_ends: "enough k f p \<Longrightarrow> fine (files_loop k t s) f p"
proof (induction k arbitrary: s f p)
  case (Suc k)
  show ?case unfolding files_loop.simps
    by (intro fine_tag fine_rules fine_bind forward_dirs forward_empties forward_items forward_names forward_times forward_attributes
        forward_dummy Suc.IH)
      (use enough_next [OF Suc.prems] enough_on in blast)+
qed (simp add: not_enough)

lemma forward_files [ends_rules]: "forward (resolveFilesInfo room)"
  unfolding resolveFilesInfo_def by (intro ends_rules forward_rounds files_ends)

section \<open>The end header\<close>

text \<open>The property of the archive can move the position back; it is read at most once, and the rounds are enough for the file twice.\<close>

lemma end_ends_after: "d_property e \<noteq> None \<Longrightarrow> enough k f p \<Longrightarrow> fine (end_loop k room st e) f p"
proof (induction k arbitrary: st e f p)
  case (Suc k)
  have e: "(d_property e \<noteq> None) = True" using Suc.prems(1) by simp
  show ?case unfolding end_loop.simps e if_True
    by (intro fine_tag fine_rules fine_bind forward_streams forward_files Suc.IH)
      (use enough_next [OF Suc.prems(2)] enough_on Suc.prems(1) in \<open>simp; blast\<close>)+
qed (simp add: not_enough)

lemma ends_if: "ends r \<Longrightarrow> ends s \<Longrightarrow> ends (if b then r else s)"
  by simp

lemma ends_property: "ends resolveArchiveProperties"
  unfolding resolveArchiveProperties_def
  by (intro ends_bind ends_seq ends_if ends_skip forward_ends [OF forward_number] forward_ends [OF forward_expect]
      forward_ends [OF forward_ret] forward_ends [OF forward_fail])

definition enough_twice :: "nat \<Rightarrow> bytes \<Rightarrow> nat \<Rightarrow> bool" where
  "enough_twice k f p \<longleftrightarrow> length f + 1 + (length f + 1 - p) \<le> k"

lemma twice_next: "enough_twice (Suc k) f p \<Longrightarrow> p < length f \<Longrightarrow> Suc p \<le> q \<Longrightarrow> enough_twice k f q"
  by (auto simp: enough_twice_def)

lemma twice_once: "enough_twice (Suc k) f p \<Longrightarrow> p < length f \<Longrightarrow> enough k f q"
  by (auto simp: enough_twice_def enough_def)

lemma spin_tag: "(\<And>c. p < length f \<Longrightarrow> k c f (Suc p) \<noteq> Spin) \<Longrightarrow> rbind readByte k f p \<noteq> Spin"
proof (cases "readByte f p")
  case (Seen c q)
  assume "\<And>c. p < length f \<Longrightarrow> k c f (Suc p) \<noteq> Spin"
  then show ?thesis using Seen byte_next [OF Seen] by (simp add: rbind_def)
next
  case Spin
  then show ?thesis using forward_byte by (simp add: forward_def)
qed (simp_all add: rbind_def)

lemma spin_bind: "ends r \<Longrightarrow> (\<And>x q. r f p = Seen x q \<Longrightarrow> k x f q \<noteq> Spin) \<Longrightarrow> rbind r k f p \<noteq> Spin"
  by (simp add: ends_def rbind_def split: seen.split)

lemma spin_bind_forward: "forward r \<Longrightarrow> (\<And>x q. p \<le> q \<Longrightarrow> k x f q \<noteq> Spin) \<Longrightarrow> rbind r k f p \<noteq> Spin"
  by (rule spin_bind) (auto simp: forward_def ends_def)

lemma end_loop_ends: "enough_twice k f p \<Longrightarrow> end_loop k room st e f p \<noteq> Spin"
proof (induction k arbitrary: st e f p)
  case (Suc k)
  show ?case unfolding end_loop.simps
  proof (rule spin_tag)
    fix c :: u8
    assume p: "p < length f"
    note later = Suc.IH [OF twice_next [OF Suc.prems p]]
    have property: "rbind resolveArchiveProperties (\<lambda>x. end_loop k room RESOLVE_STATUS_IN_ARCHIVE_PROPERTIES (e\<lparr>d_property := Some x\<rparr>)) f (Suc p) \<noteq> Spin"
    proof (rule spin_bind [OF ends_property])
      fix x q
      have "fine (end_loop k room RESOLVE_STATUS_IN_ARCHIVE_PROPERTIES (e\<lparr>d_property := Some x\<rparr>)) f q"
        by (rule end_ends_after) (simp, rule twice_once [OF Suc.prems p])
      then show "end_loop k room RESOLVE_STATUS_IN_ARCHIVE_PROPERTIES (e\<lparr>d_property := Some x\<rparr>) f q \<noteq> Spin" by (simp add: fine_def)
    qed
    have streams: "rbind (resolveMainStreamsInfo room) (\<lambda>x. end_loop k room RESOLVE_STATUS_IN_STREAMSINFO (e\<lparr>d_streams := Some x\<rparr>)) f (Suc p) \<noteq> Spin"
      by (rule spin_bind_forward [OF forward_streams]) (rule later)
    have files: "rbind (resolveFilesInfo room) (\<lambda>x. end_loop k room RESOLVE_STATUS_IN_FILESINFO (e\<lparr>d_files := Some x\<rparr>)) f (Suc p) \<noteq> Spin"
      by (rule spin_bind_forward [OF forward_files]) (rule later)
    show "(if c = 0x01 then end_loop k room RESOLVE_STATUS_IN_HEADER e
      else if c = 0x02 then
        if d_property e \<noteq> None then rfail
        else rbind resolveArchiveProperties (\<lambda>x. end_loop k room RESOLVE_STATUS_IN_ARCHIVE_PROPERTIES (e\<lparr>d_property := Some x\<rparr>))
      else if c = 0x04 then
        if d_streams e \<noteq> None then rfail
        else rbind (resolveMainStreamsInfo room) (\<lambda>x. end_loop k room RESOLVE_STATUS_IN_STREAMSINFO (e\<lparr>d_streams := Some x\<rparr>))
      else if c = 0x05 then
        if d_files e \<noteq> None then rfail
        else rbind (resolveFilesInfo room) (\<lambda>x. end_loop k room RESOLVE_STATUS_IN_FILESINFO (e\<lparr>d_files := Some x\<rparr>))
      else if c = 0x00 then (if st = RESOLVE_STATUS_IN_FILESINFO then rret e else end_loop k room st e)
      else rfail) f (Suc p) \<noteq> Spin"
      using property streams files later [OF order_refl] by (simp add: rfail_def rret_def)
  qed
qed (simp add: enough_twice_def)

lemma end_header_ends: "ends (resolveEndHeader room sheader)"
proof -
  have "ends (rounds (\<lambda>k. end_loop k room 0 e))" for e
    unfolding ends_def rounds_def by (intro allI end_loop_ends) (simp add: enough_twice_def)
  moreover have "ends (fseek_cur n)" for n by (simp add: ends_def fseek_cur_def Let_def)
  ultimately show ?thesis unfolding resolveEndHeader_def
    by (intro ends_bind ends_seq ends_if forward_ends [OF forward_ret] forward_ends [OF forward_fail])
qed

end
