(* ===== verification/SevenRound.thy ===== *)
theory SevenRound
  imports SevenEnds
begin

text \<open>
  What was written is read back: the readers of \<open>SevenParse\<close> on the bytes of \<open>SevenBytes\<close>, a section at a time, up to the end header.
  The fields of the files are instances of the locale \<open>codec\<close>.
\<close>

section \<open>Readers one after another\<close>

lemma reads_seq: "reads r bs () \<Longrightarrow> reads k cs y \<Longrightarrow> reads (rseq r k) (bs @ cs) y"
  unfolding rseq_def by (rule reads_bind)

lemma reads_expect [read_rules]: "reads (expect b) [b] ()"
  unfolding expect_def using reads_bind [OF reads_byte [of b], of "\<lambda>c. if c = b then rret () else rfail" "[]" "()"]
  by (simp add: reads_ret)

lemma reads_expect_then: "reads k cs y \<Longrightarrow> reads (rseq (expect b) k) (b # cs) y"
  using reads_seq [OF reads_expect, of k cs y b] by simp

lemma reads_alloc_then: "room n \<Longrightarrow> reads k cs y \<Longrightarrow> reads (rseq (alloc room n) k) cs y"
  using reads_seq [of "alloc room n" "[]" k cs y] by (simp add: alloc_def reads_ret)

lemma reads_tag: "reads (k t) bs x \<Longrightarrow> reads (rbind readByte k) (t # bs) x"
  using reads_bind [OF reads_byte, of k t bs x] by simp

lemma reads_number_then: "reads (k n) bs x \<Longrightarrow> reads (rbind getU64FromBytes k) (getUint64Bytes n @ bs) x"
  by (rule reads_bind [OF reads_number])

lemma reads_rounds: "(\<And>j. reads (r (j + k)) bs x) \<Longrightarrow> k \<le> 2 * length bs + 3 \<Longrightarrow> reads (rounds r) bs x"
proof -
  assume r: "\<And>j. reads (r (j + k)) bs x" and k: "k \<le> 2 * length bs + 3"
  show ?thesis unfolding reads_def
  proof (intro allI)
    fix pre post :: bytes
    let ?f = "pre @ bs @ post"
    have e: "(2 * length ?f + 3 - k) + k = 2 * length ?f + 3" using k by simp
    have "r ((2 * length ?f + 3 - k) + k) ?f (length pre) = Seen x (length pre + length bs)"
      using r [of "2 * length ?f + 3 - k"] unfolding reads_def by blast
    then show "rounds r ?f (length pre) = Seen x (length pre + length bs)" unfolding rounds_def e .
  qed
qed

lemma fill_enough: "n \<le> cap \<Longrightarrow> fill cap n r = read_n n r"
proof (induction n arbitrary: cap)
  case (Suc n)
  then obtain c where "cap = Suc c" "n \<le> c" by (cases cap) simp_all
  then show ?case using Suc.IH by simp
qed simp

interpretation numbers: codec getUint64Bytes getU64FromBytes "\<lambda>n. n" "\<lambda>_. True"
  by unfold_locales (rule reads_number)

interpretation checksums: codec "le_bytes 4" readCRC "\<lambda>w. w" "\<lambda>_. True"
  by unfold_locales (rule reads_crc)

lemma reads_numbers: "n = length xs \<Longrightarrow> reads (read_n n getU64FromBytes) (concat (map getUint64Bytes xs)) xs"
  using numbers.reads_list [of xs n] by (simp add: list_all_iff)

lemma reads_checksums: "n = length xs \<Longrightarrow> reads (read_n n readCRC) (concat (map (le_bytes 4) xs)) xs"
  using checksums.reads_list [of xs n] by (simp add: list_all_iff)

lemma reads_fill_then: "reads (k xs) cs y \<Longrightarrow> n = length xs \<Longrightarrow> n \<le> cap \<Longrightarrow>
    reads (rbind (fill cap n getU64FromBytes) k) (concat (map getUint64Bytes xs) @ cs) y"
  by (simp only: fill_enough) (rule reads_bind [OF reads_numbers [OF refl]])

lemma reads_fill_one: "reads (k [n]) cs y \<Longrightarrow> m = 1 \<Longrightarrow> 1 \<le> cap \<Longrightarrow>
    reads (rbind (fill cap m getU64FromBytes) k) (getUint64Bytes n @ cs) y"
  using reads_fill_then [of k "[n]" cs y m cap] by simp

lemma cap_one: "1 \<le> elems_in (1 * 8) 8" "elems_in (1 * 64) 64 = 1"
  by (simp_all add: elems_in_def)

section \<open>Properties and streams\<close>

lemma reads_property: "reads resolveArchiveProperties (tl property_bytes) QZ7Z_PROPERTY_ID_INTEL7Z_1001"
proof -
  have s: "reads (skipNByte 3) g_property_data ()" by (rule reads_skip) (simp_all add: g_property_data_def)
  have "reads (rbind getU64FromBytes (\<lambda>size. rseq (skipNByte size) (rseq (expect 0x00) (rret QZ7Z_PROPERTY_ID_INTEL7Z_1001))))
      (getUint64Bytes 3 @ g_property_data @ [0]) QZ7Z_PROPERTY_ID_INTEL7Z_1001"
    by (intro reads_number_then reads_seq [OF s] reads_expect_then reads_ret)
  then have "reads resolveArchiveProperties (getUint64Bytes QZ7Z_PROPERTY_ID_INTEL7Z_1001 @ getUint64Bytes 3 @ g_property_data @ [0])
      QZ7Z_PROPERTY_ID_INTEL7Z_1001"
    unfolding resolveArchiveProperties_def
    by (intro reads_number_then) (simp add: QZ7Z_PROPERTY_ID_INTEL7Z_1001_def QZ7Z_DEVELOP_ID_def QZ7Z_DEVELOP_SUBID_def)
  then show ?thesis by (simp add: property_bytes_def)
qed

lemma reads_pack: "(\<And>n. room n) \<Longrightarrow> reads (resolvePackInfo room) (tl (pack_bytes n)) \<lparr>PackPos = 0, NumPackStreams = 1, PackSize = [n]\<rparr>"
proof -
  assume room: "\<And>n. room n"
  have "reads (resolvePackInfo room) (getUint64Bytes 0 @ getUint64Bytes 1 @ 9 # getUint64Bytes n @ [0])
      \<lparr>PackPos = 0, NumPackStreams = 1, PackSize = [n]\<rparr>"
    unfolding resolvePackInfo_def
    by (intro reads_number_then reads_alloc_then room reads_expect_then reads_fill_one unat_1 cap_one reads_ret)
  then show ?thesis by (simp add: pack_bytes_def)
qed

definition dec_coders :: "u64 \<Rightarrow> coders_info" where
  "dec_coders unpacked = \<lparr>numFolders = 1, folders = [\<lparr>numCoders = 1, coder_list = generateCoder\<rparr>], dataStreamIndex = None, unPackSize = [unpacked]\<rparr>"

lemma one_bytes: "getUint64Bytes 1 = [1]"
  by (simp add: getUint64Bytes_def getExtraByteNum_def extra_byte_boundary_def first_byte_table_def Let_def)

lemma reads_coder: "(\<And>n. room n) \<Longrightarrow> reads (readCoder room) (3 # g_deflate_codecId) generateCoder"
  unfolding readCoder_def
  by (intro reads_tag reads_alloc_then reads_map [OF reads_fread])
    (simp_all add: CodecIdSize_def g_deflate_codecId_def generateCoder_def)

lemma reads_coders: "(\<And>n. room n) \<Longrightarrow> reads (resolveCodersInfo room) (tl (coders_bytes unpacked)) (dec_coders unpacked)"
proof -
  assume room: "\<And>n. room n"
  let ?fs = "[\<lparr>numCoders = 1, coder_list = generateCoder\<rparr>]"
  have folder: "reads (readFolders room 1 1) (1 # 3 # g_deflate_codecId) ?fs"
  proof -
    have "reads (rbind (readCoder room) (\<lambda>k. rret [\<lparr>numCoders = ucast (1 :: u8), coder_list = k\<rparr>])) (3 # g_deflate_codecId) ?fs"
      by (rule reads_map [OF reads_coder [OF room]]) simp
    moreover have "rbind (rret []) (\<lambda>fs. rret (a # fs)) = rret [a]" for a :: folder_info by (simp add: fun_eq_iff rbind_def rret_def)
    ultimately show ?thesis by (simp add: One_nat_def) (intro reads_tag, simp)
  qed
  have g: "reads (rbind (readFolders room 1 1) (\<lambda>fs. rret (fs, None :: u64 option))) (1 # 3 # g_deflate_codecId) (?fs, None)"
    by (rule reads_map [OF folder refl])
  have "reads (resolveCodersInfo room) (0x0b # getUint64Bytes 1 @ 0 # (1 # 3 # g_deflate_codecId) @ 0x0c # getUint64Bytes unpacked @ [0])
      (dec_coders unpacked)"
    unfolding resolveCodersInfo_def dec_coders_def cap_one unat_1
    by (intro reads_expect_then reads_number_then reads_alloc_then room reads_tag)
      (simp only: if_True simp_thms cap_one unat_1, rule reads_bind [OF g], simp only: prod.case,
       intro reads_expect_then reads_alloc_then room reads_fill_one refl cap_one reads_ret)
  then show ?thesis by (simp add: coders_bytes_def one_bytes)
qed

definition dec_substreams :: "file_item list \<Rightarrow> substreams_dec" where
  "dec_substreams fs = \<lparr>total_streams = of_nat (length fs), d_numUnPackStreams = Some [of_nat (length fs)],
     d_unPackSize = (if length fs \<noteq> 1 then Some (map fsize (butlast fs)) else None), unpacksize_resolved = True,
     d_crcs = Some (replicate (length fs) None)\<rparr>"

lemma sint_of_small: "n < 2 ^ 31 \<Longrightarrow> sint (of_nat n :: u32) = int n"
proof -
  assume n: "n < 2 ^ 31"
  have "unat (of_nat n :: u32) = n" using n by (simp add: unat_of_nat)
  then have "uint (of_nat n :: u32) = int n" by (simp only: uint_nat)
  moreover have "signed_take_bit 31 (int n) = int n" by (rule signed_take_bit_int_eq_self) (use n in auto)
  ultimately show ?thesis by (simp add: sint_uint)
qed

lemma elems_of: "k < 2 ^ 28 \<Longrightarrow> 0 < m \<Longrightarrow> m \<le> 72 \<Longrightarrow> elems_in (of_nat k * of_nat m) m = k"
proof -
  assume k: "k < 2 ^ 28" and m: "0 < m" "m \<le> 72"
  have "k * m < 2 ^ 28 * 73" using mult_strict_mono [of k "2 ^ 28" m 73] k m by simp
  then have "unat (of_nat (k * m) :: u64) = k * m" by (simp add: unat_of_nat del: of_nat_mult)
  then show ?thesis using m by (simp add: elems_in_def)
qed

lemma reads_nums:
  assumes room: "\<And>n. room n" and l: "length fs < 2 ^ 28"
  shows "reads (read_nums room 1 substreams0) (getUint64Bytes (of_nat (length fs)))
    (substreams0\<lparr>d_numUnPackStreams := Some [of_nat (length fs)], total_streams := of_nat (length fs)\<rparr>)"
proof -
  have u: "(ucast (of_nat (length fs) :: u64) :: u32) = of_nat (length fs)"
    using l by (simp add: unsigned_ucast_eq unsigned_of_nat take_bit_nat_eq_self)
  let ?k = "\<lambda>ns. rret (substreams0\<lparr>d_numUnPackStreams := Some ns, total_streams := foldl (\<lambda>t n. t + ucast n) 0 ns\<rparr>)"
  have "reads (?k [of_nat (length fs)]) [] (substreams0\<lparr>d_numUnPackStreams := Some [of_nat (length fs)], total_streams := of_nat (length fs)\<rparr>)"
    using u by (simp add: reads_ret)
  from reads_fill_one [of ?k, OF this refl cap_one(1)] show ?thesis
    unfolding read_nums_def by (simp add: substreams0_def) (rule reads_alloc_then [OF room], simp)
qed

lemma reads_sizes:
  assumes room: "\<And>n. room n" and l: "length fs < 2 ^ 28" and fs: "fs \<noteq> []"
    and s: "total_streams s = of_nat (length fs)" "\<not> unpacksize_resolved s" "d_unPackSize s = None"
  shows "reads (read_sizes room 1 s) (concat (map (getUint64Bytes \<circ> fsize) (butlast fs)))
    (s\<lparr>d_unPackSize := (if length fs \<noteq> 1 then Some (map fsize (butlast fs)) else None), unpacksize_resolved := True\<rparr>)"
proof -
  have "(of_nat (length fs) :: u32) - 1 = of_nat (length fs - 1)" using fs by (cases fs) simp_all
  then have d: "sint (total_streams s - of_int 1) = int (length fs - 1)" using sint_of_small [of "length fs - 1"] l s(1) by simp
  have e: "elems_in (of_int (int (length fs - 1)) * 8) 8 = length fs - 1" using elems_of [of "length fs - 1" 8] l by simp
  show ?thesis
  proof (cases "length fs = 1")
    case True
    then have "butlast fs = []" by (cases fs) simp_all
    then show ?thesis using True s d by (cases s) (simp add: read_sizes_def Let_def reads_ret)
  next
    case False
    then have nz: "int (length fs - 1) \<noteq> 0" using fs by (cases fs) simp_all
    have "reads (rbind (fill (length fs - 1) (nat (int (length fs - 1))) getU64FromBytes) (\<lambda>ss.
          rret (s\<lparr>d_unPackSize := Some ss, unpacksize_resolved := True\<rparr>)))
        (concat (map getUint64Bytes (map fsize (butlast fs))) @ []) (s\<lparr>d_unPackSize := Some (map fsize (butlast fs)), unpacksize_resolved := True\<rparr>)"
      by (rule reads_fill_then [OF reads_ret]) simp_all
    then show ?thesis
      unfolding read_sizes_def Let_def d e using nz s(2) False
      by (simp only: if_False refl not_False_eq_True if_True map_map append_Nil2) (rule reads_alloc_then [OF room])
  qed
qed

lemma reads_digests:
  assumes room: "\<And>n. room n" and l: "length fs < 2 ^ 28" and s: "total_streams s = of_nat (length fs)" "d_crcs s = None"
  shows "reads (read_digests room s) (1 # concat (map (le_bytes 4 \<circ> fcrc) fs)) (s\<lparr>d_crcs := Some (replicate (length fs) None)\<rparr>)"
proof -
  have d: "sint (total_streams s) = int (length fs)" using sint_of_small [of "length fs"] l s(1) by simp
  have "reads (rbind (read_n (length fs) readCRC) (\<lambda>_. rret (s\<lparr>d_crcs := Some (replicate (length fs) None)\<rparr>)))
      (concat (map (le_bytes 4) (map fcrc fs))) (s\<lparr>d_crcs := Some (replicate (length fs) None)\<rparr>)"
    by (rule reads_map [OF reads_checksums]) simp_all
  then show ?thesis
    unfolding read_digests_def d using s(2) by (simp add: nat_int) (intro reads_expect_then reads_alloc_then room)
qed

text \<open>A round of each loop.\<close>

lemma sub_nums: "reads (read_nums room n s) bs s' \<Longrightarrow> reads (substreams_loop k room n s') cs y \<Longrightarrow>
    reads (substreams_loop (Suc k) room n s) (0x0d # bs @ cs) y"
  unfolding substreams_loop.simps by (rule reads_tag) (simp, rule reads_bind)

lemma sub_sizes: "reads (read_sizes room n s) bs s' \<Longrightarrow> reads (substreams_loop k room n s') cs y \<Longrightarrow>
    reads (substreams_loop (Suc k) room n s) (0x09 # bs @ cs) y"
  unfolding substreams_loop.simps by (rule reads_tag) (simp, rule reads_bind)

lemma sub_digests: "reads (read_digests room s) bs s' \<Longrightarrow> reads (substreams_loop k room n s') cs y \<Longrightarrow>
    reads (substreams_loop (Suc k) room n s) (0x0a # bs @ cs) y"
  unfolding substreams_loop.simps by (rule reads_tag) (simp, rule reads_bind)

lemma sub_end: "reads (substreams_loop (Suc k) room n s) [0x00] s"
  unfolding substreams_loop.simps by (rule reads_tag) (simp add: reads_ret)

lemma reads_substreams:
  assumes room: "\<And>n. room n" and l: "length fs < 2 ^ 28" and fs: "fs \<noteq> []"
  shows "reads (resolveSubstreamsInfo room 1) (tl (substreams_bytes fs)) (dec_substreams fs)"
proof -
  define s1 where "s1 = substreams0\<lparr>d_numUnPackStreams := Some [of_nat (length fs)], total_streams := of_nat (length fs)\<rparr>"
  define s2 where "s2 = s1\<lparr>d_unPackSize := (if length fs \<noteq> 1 then Some (map fsize (butlast fs)) else None), unpacksize_resolved := True\<rparr>"
  define s3 where "s3 = s2\<lparr>d_crcs := Some (replicate (length fs) None)\<rparr>"
  have one: "sint (ucast (1 :: u64) :: u32) = 1" by simp
  have e: "s3 = dec_substreams fs" by (simp add: dec_substreams_def substreams0_def s3_def s2_def s1_def)
  have 1: "reads (read_nums room 1 substreams0) (getUint64Bytes (of_nat (length fs))) s1"
    unfolding s1_def by (rule reads_nums [OF room l])
  have 2: "reads (read_sizes room 1 s1) (concat (map (getUint64Bytes \<circ> fsize) (butlast fs))) s2"
    unfolding s2_def by (rule reads_sizes [OF room l fs]) (simp_all add: substreams0_def s1_def)
  have 3: "reads (read_digests room s2) (1 # concat (map (le_bytes 4 \<circ> fcrc) fs)) s3"
    unfolding s3_def by (rule reads_digests [OF room l]) (simp_all add: substreams0_def s1_def s2_def)
  have "reads (substreams_loop (Suc (Suc (Suc (Suc k)))) room 1 substreams0) (tl (substreams_bytes fs)) s3" for k
    using sub_nums [OF 1 sub_sizes [OF 2 sub_digests [OF 3 sub_end]]] by (simp add: substreams_bytes_def)
  then have "reads (substreams_loop (k + 4) room 1 substreams0) (tl (substreams_bytes fs)) s3" for k
    by (simp add: eval_nat_numeral)
  then show ?thesis unfolding resolveSubstreamsInfo_def one e
    by (rule reads_rounds) (simp add: substreams_bytes_def)
qed

lemma str_pack: "d_packInfo s = None \<Longrightarrow> reads (resolvePackInfo room) bs p \<Longrightarrow>
    reads (streams_loop k room (s\<lparr>d_packInfo := Some p\<rparr>)) cs y \<Longrightarrow> reads (streams_loop (Suc k) room s) (0x06 # bs @ cs) y"
  unfolding streams_loop.simps by (rule reads_tag) (simp, rule reads_bind)

lemma str_coders: "d_codersInfo s = None \<Longrightarrow> reads (resolveCodersInfo room) bs p \<Longrightarrow>
    reads (streams_loop k room (s\<lparr>d_codersInfo := Some p\<rparr>)) cs y \<Longrightarrow> reads (streams_loop (Suc k) room s) (0x07 # bs @ cs) y"
  unfolding streams_loop.simps by (rule reads_tag) (simp, rule reads_bind)

lemma str_substreams: "d_substreamsInfo s = None \<Longrightarrow> d_codersInfo s = Some i \<Longrightarrow> reads (resolveSubstreamsInfo room (numFolders i)) bs p \<Longrightarrow>
    reads (streams_loop k room (s\<lparr>d_substreamsInfo := Some p\<rparr>)) cs y \<Longrightarrow> reads (streams_loop (Suc k) room s) (0x08 # bs @ cs) y"
  unfolding streams_loop.simps by (rule reads_tag) (simp, rule reads_bind)

lemma str_end: "reads (streams_loop (Suc k) room s) [0x00] s"
  unfolding streams_loop.simps by (rule reads_tag) (simp add: reads_ret)

definition dec_streams :: "file_item list \<Rightarrow> u64 \<Rightarrow> streams_dec" where
  "dec_streams fs n = \<lparr>d_packInfo = Some \<lparr>PackPos = 0, NumPackStreams = 1, PackSize = [n]\<rparr>,
     d_codersInfo = Some (dec_coders (foldl (\<lambda>s p. s + fsize p) 0 fs)), d_substreamsInfo = Some (dec_substreams fs)\<rparr>"

lemma reads_streams:
  assumes room: "\<And>n. room n" and l: "length fs < 2 ^ 28" and fs: "fs \<noteq> []"
  shows "reads (resolveMainStreamsInfo room) (tl (streams_bytes fs n)) (dec_streams fs n)"
proof -
  let ?sum = "foldl (\<lambda>s p. s + fsize p) 0 fs"
  define s0 where "s0 = \<lparr>d_packInfo = None, d_codersInfo = None, d_substreamsInfo = None\<rparr>"
  define s1 where "s1 = s0\<lparr>d_packInfo := Some \<lparr>PackPos = 0, NumPackStreams = 1, PackSize = [n]\<rparr>\<rparr>"
  define s2 where "s2 = s1\<lparr>d_codersInfo := Some (dec_coders ?sum)\<rparr>"
  define s3 where "s3 = s2\<lparr>d_substreamsInfo := Some (dec_substreams fs)\<rparr>"
  have e: "s3 = dec_streams fs n" by (simp add: dec_streams_def s3_def s2_def s1_def s0_def)
  have 4: "reads (streams_loop (Suc k) room s3) [0] s3" for k by (rule str_end)
  have 3: "reads (streams_loop (Suc (Suc k)) room s2) (0x08 # tl (substreams_bytes fs) @ [0]) s3" for k
    by (rule str_substreams [where i = "dec_coders ?sum"])
      (use reads_substreams [of room, OF room l fs] 4 in \<open>simp_all add: s2_def s1_def s0_def dec_coders_def s3_def del: streams_loop.simps\<close>)
  have 2: "reads (streams_loop (Suc (Suc (Suc k))) room s1) (0x07 # tl (coders_bytes ?sum) @ 0x08 # tl (substreams_bytes fs) @ [0]) s3" for k
    by (rule str_coders [where p = "dec_coders ?sum"]) (use reads_coders [of room, OF room, of ?sum] 3 in \<open>simp_all add: s1_def s0_def s2_def del: streams_loop.simps\<close>)
  have "reads (streams_loop (Suc (Suc (Suc (Suc k)))) room s0)
      (0x06 # tl (pack_bytes n) @ 0x07 # tl (coders_bytes ?sum) @ 0x08 # tl (substreams_bytes fs) @ [0]) s3" for k
    by (rule str_pack [OF _ reads_pack [of room, OF room]]) (use 2 in \<open>simp_all add: s0_def s1_def del: streams_loop.simps\<close>)
  then have "reads (streams_loop (k + 4) room s0) (tl (streams_bytes fs n)) s3" for k
    by (simp add: eval_nat_numeral streams_bytes_def pack_bytes_def coders_bytes_def substreams_bytes_def del: streams_loop.simps)
  then show ?thesis unfolding resolveMainStreamsInfo_def e s0_def
    by (rule reads_rounds) (simp add: streams_bytes_def pack_bytes_def)
qed

end
