(* ===== verification/SevenFiles.thy ===== *)
theory SevenFiles
  imports SevenRound
begin

text \<open>
  What was written about the files of a 7z archive is read back: names, times, attributes, and the bits that tell directories and
  empty files from the others; then the end header as a whole.
\<close>

section \<open>A field of each file\<close>

context codec
begin

lemma reads_each_from: "list_all ok xs \<Longrightarrow> length rest = length xs \<Longrightarrow>
   reads (each_item (length xs) (length front) dec g (front @ rest)) (concat (map enc xs)) (front @ map2 (\<lambda>x p. g (view x) p) xs rest)"
proof (induction xs arbitrary: front rest)
  case Nil
  then show ?case by (simp add: reads_ret)
next
  case (Cons x xs)
  obtain p rest' where r: "rest = p # rest'" "length rest' = length xs" using Cons.prems(2) by (cases rest) auto
  have "reads (each_item (length xs) (length (front @ [g (view x) p])) dec g ((front @ [g (view x) p]) @ rest'))
      (concat (map enc xs)) ((front @ [g (view x) p]) @ map2 (\<lambda>x p. g (view x) p) xs rest')"
    by (rule Cons.IH) (use Cons.prems r in simp_all)
  then have "reads (each_item (length xs) (Suc (length front)) dec g (front @ g (view x) p # rest'))
      (concat (map enc xs)) (front @ g (view x) p # map2 (\<lambda>x p. g (view x) p) xs rest')" by simp
  then have k: "reads (if length front < length (front @ p # rest')
        then each_item (length xs) (Suc (length front)) dec g ((front @ p # rest')[length front := g (view x) ((front @ p # rest') ! length front)])
        else rover) (concat (map enc xs)) (front @ g (view x) p # map2 (\<lambda>x p. g (view x) p) xs rest')" by simp
  have o: "ok x" using Cons.prems by simp
  have "reads (rbind dec (\<lambda>y. if length front < length (front @ p # rest')
        then each_item (length xs) (Suc (length front)) dec g ((front @ p # rest')[length front := g y ((front @ p # rest') ! length front)])
        else rover)) (enc x @ concat (map enc xs)) (front @ g (view x) p # map2 (\<lambda>x p. g (view x) p) xs rest')"
    by (rule reads_bind [where x = "view x"]) (rule reads_enc [OF o], rule k)
  then show ?case by (simp only: r list.size each_item.simps list.map concat.simps zip_Cons_Cons prod.case add_Suc_right add_0_right)
qed

lemma reads_each: "list_all ok xs \<Longrightarrow> length ps = length xs \<Longrightarrow> n = length xs \<Longrightarrow>
   reads (each_item n 0 dec g ps) (concat (map enc xs)) (map2 (\<lambda>x p. g (view x) p) xs ps)"
  using reads_each_from [of xs ps "[]" g] by simp

end

text \<open>Names.\<close>

definition path_ok :: "bytes \<Rightarrow> bool" where
  "path_ok s \<longleftrightarrow> (\<forall>c \<in> set s. c \<noteq> 0) \<and> length s < PATH_MAX"

lemma reads_path_from: "(\<forall>c \<in> set s. c \<noteq> 0) \<Longrightarrow> length s < r \<Longrightarrow> reads (read_path r) (wide (s @ [0])) s"
proof (induction s arbitrary: r)
  case Nil
  obtain r' where r: "r = Suc r'" using Nil.prems(2) by (cases r) simp_all
  have "reads (rbind (fread 2) (\<lambda>wc. if wc ! 0 = 0 \<and> wc ! 1 = 0 then rret [] else rbind (read_path r') (\<lambda>s. rret (wc ! 0 # s)))) ([0, 0] @ []) []"
    by (rule reads_bind [OF reads_fread]) (simp_all add: reads_ret)
  then show ?case by (simp add: r wide_def)
next
  case (Cons c s)
  obtain r' where r: "r = Suc r'" "length s < r'" using Cons.prems(2) by (cases r) simp_all
  have c: "c \<noteq> 0" using Cons.prems(1) by simp
  have IH: "reads (read_path r') (wide (s @ [0])) s" using Cons r(2) by simp
  have k: "reads (if [c, 0] ! 0 = 0 \<and> [c, 0] ! 1 = 0 then rret [] else rbind (read_path r') (\<lambda>s. rret ([c, 0] ! 0 # s))) (wide (s @ [0])) (c # s)"
    using c by (simp, intro reads_map [OF IH refl])
  have "reads (rbind (fread 2) (\<lambda>wc. if wc ! 0 = 0 \<and> wc ! 1 = 0 then rret [] else rbind (read_path r') (\<lambda>s. rret (wc ! 0 # s))))
      ([c, 0] @ wide (s @ [0])) (c # s)"
    by (rule reads_bind [where x = "[c, 0]"]) (simp add: reads_fread, rule k)
  then show ?case by (simp add: r wide_def)
qed

interpretation names: codec "\<lambda>s. wide (s @ [0])" "read_path PATH_MAX" "\<lambda>s. s" path_ok
  by unfold_locales (simp add: path_ok_def reads_path_from)

text \<open>Times and attributes.\<close>

lemma reads_u32: "reads read_u32 (le_bytes 4 w) w"
  using reads_crc [of w] by (simp add: reads_def read_u32_def)

lemma reads_time: "reads read_time (le_bytes 4 (fst ft) @ le_bytes 4 (snd ft)) ft"
  unfolding read_time_def by (rule reads_bind [OF reads_u32], rule reads_map [OF reads_u32]) simp

interpretation times: codec "\<lambda>ft. le_bytes 4 (fst ft) @ le_bytes 4 (snd ft)" read_time "\<lambda>ft. ft" "\<lambda>_. True"
  by unfold_locales (rule reads_time)

interpretation attributes: codec "le_bytes 4" read_u32 "\<lambda>w. w" "\<lambda>_. True"
  by unfold_locales (rule reads_u32)

section \<open>Bits\<close>

lemma test_bit: "((c :: u8) AND push_bit j 1 \<noteq> 0) \<longleftrightarrow> bit c j"
  by (metis bit_iff_and_push_bit_not_eq_0)

lemma test_bit_power: "(c :: u8) AND 2 ^ j = 0 \<longleftrightarrow> \<not> bit c j"
  using test_bit [of c j] by auto

lemma byte_bits: "n \<le> 8 \<Longrightarrow> length fs \<le> n \<Longrightarrow> bit (byte_of n fs) j \<longleftrightarrow> j < n \<and> n - 1 - j < length fs \<and> fs ! (n - 1 - j)"
proof (induction fs arbitrary: n j)
  case (Cons f fs)
  obtain m where n: "n = Suc m" using Cons.prems(2) by (cases n) simp_all
  have m: "m \<le> 8" "length fs \<le> m" using Cons.prems n by simp_all
  define B where "B = (if f then push_bit m 1 else 0 :: u8)"
  have b: "bit B k \<longleftrightarrow> f \<and> k = m" for k using Cons.prems(1) n by (auto simp: B_def bit_simps)
  have nb: "\<not> bit (byte_of m fs) m" using Cons.IH [OF m] by simp
  have "B + byte_of m fs = B OR byte_of m fs" by (rule disjunctive_add) (use b nb in metis)
  moreover have "byte_of n (f # fs) = B + byte_of m fs" by (simp add: n B_def)
  ultimately have "bit (byte_of n (f # fs)) j \<longleftrightarrow> (f \<and> j = m) \<or> bit (byte_of m fs) j" using b by (simp add: bit_or_iff)
  also have "\<dots> \<longleftrightarrow> (f \<and> j = m) \<or> (j < m \<and> m - 1 - j < length fs \<and> fs ! (m - 1 - j))"
    by (simp only: Cons.IH [OF m])
  also have "\<dots> \<longleftrightarrow> j < n \<and> n - 1 - j < length (f # fs) \<and> (f # fs) ! (n - 1 - j)"
  proof (cases "j < m")
    case True
    then have "m - j = Suc (m - 1 - j)" by simp
    then show ?thesis using True by (simp add: n)
  next
    case False
    then show ?thesis by (cases "j = m") (simp_all add: n)
  qed
  finally show ?case .
qed simp

lemma byte_flags: "length fs \<le> 8 \<Longrightarrow> map (bit (byte_of 8 fs)) [7, 6, 5, 4, 3, 2, 1, 0] = fs @ replicate (8 - length fs) False"
proof -
  assume l: "length fs \<le> 8"
  have "[7, 6, 5, 4, 3, 2, 1, 0] = map (\<lambda>i. 7 - i) [0..<8]" by (simp add: upt_rec)
  then have "map (bit (byte_of 8 fs)) [7, 6, 5, 4, 3, 2, 1, 0] = map (\<lambda>i. bit (byte_of 8 fs) (7 - i)) [0..<8]" by simp
  also have "\<dots> = fs @ replicate (8 - length fs) False"
  proof (rule nth_equalityI)
    fix i
    assume "i < length (map (\<lambda>i. bit (byte_of 8 fs) (7 - i)) [0..<8])"
    then have i: "i < 8" by simp
    then have "8 - 1 - (7 - i) = i" by simp
    then have "bit (byte_of 8 fs) (7 - i) \<longleftrightarrow> i < length fs \<and> fs ! i" unfolding byte_bits [OF order_refl l] by auto
    then show "map (\<lambda>i. bit (byte_of 8 fs) (7 - i)) [0..<8] ! i = (fs @ replicate (8 - length fs) False) ! i"
      using i by (simp add: nth_append del: upt.simps)
  qed (use l in simp)
  finally show ?thesis .
qed

primrec apply_flags :: "(bool \<Rightarrow> 'a \<Rightarrow> 'a) \<Rightarrow> bool list \<Rightarrow> nat \<Rightarrow> 'a list \<Rightarrow> 'a list" where
  "apply_flags g [] i ps = ps"
| "apply_flags g (b # bs) i ps = (if i < length ps then apply_flags g bs (Suc i) (ps[i := g b (ps ! i)]) else ps)"

lemma length_apply_flags [simp]: "length (apply_flags g bs i ps) = length ps"
  by (induction bs arbitrary: i ps) simp_all

lemma apply_flags_past: "length ps \<le> i \<Longrightarrow> apply_flags g bs i ps = ps"
  by (cases bs) simp_all

lemma apply_flags_append: "apply_flags g (as @ bs) i ps = apply_flags g bs (i + length as) (apply_flags g as i ps)"
  by (induction as arbitrary: i ps) (simp_all add: apply_flags_past)

lemma apply_flags_nth: "j < length ps \<Longrightarrow>
    apply_flags g bs i ps ! j = (if i \<le> j \<and> j < i + length bs then g (bs ! (j - i)) (ps ! j) else ps ! j)"
proof (induction bs arbitrary: i ps)
  case (Cons b bs)
  show ?case
  proof (cases "i < length ps")
    case True
    note IH = Cons.IH [of "ps[i := g b (ps ! i)]" "Suc i"]
    show ?thesis
    proof (cases "i < j")
      case True
      then have "j - i = Suc (j - Suc i)" by simp
      then show ?thesis using IH Cons.prems \<open>i < length ps\<close> True by simp
    next
      case False
      then show ?thesis using IH Cons.prems \<open>i < length ps\<close> by (cases "j = i") simp_all
    qed
  qed (use Cons.prems in simp)
qed auto

definition count_set :: "bool list \<Rightarrow> u64" where
  "count_set bs = of_nat (length (filter id bs))"

lemma count_set_append: "count_set (as @ bs) = count_set as + count_set bs"
  by (simp add: count_set_def)

lemma flag_bits_apply: "i < length ps \<Longrightarrow> flag_bits g (length ps) c js (i, ps, n) =
    Some (min (i + length js) (length ps), apply_flags g (map (bit c) js) i ps, n + count_set (take (length ps - i) (map (bit c) js)))"
proof (induction js arbitrary: i ps n)
  case Nil
  then show ?case by (simp add: count_set_def)
next
  case (Cons j js)
  let ?ps = "ps[i := g (bit c j) (ps ! i)]"
  let ?n = "if bit c j then n + 1 else n"
  have t: "take (length ps - i) (map (bit c) (j # js)) = bit c j # take (length ps - Suc i) (map (bit c) js)"
    unfolding Suc_diff_Suc [OF Cons.prems, symmetric] by simp
  have n: "n + count_set (take (length ps - i) (map (bit c) (j # js))) = ?n + count_set (take (length ps - Suc i) (map (bit c) js))"
    unfolding t by (simp add: count_set_def)
  show ?case
  proof (cases "Suc i = length ps")
    case True
    then show ?thesis using Cons.prems n by (simp add: test_bit_power apply_flags_past Let_def count_set_def)
  next
    case False
    then show ?thesis using Cons.IH [of "Suc i" ?ps ?n] Cons.prems n by (simp add: test_bit_power Let_def)
  qed
qed

definition padded :: "bool list \<Rightarrow> bool list" where
  "padded bs = bs @ replicate (8 * flag_size (length bs) - length bs) False"

lemma flag_size_le: "n \<le> 8 * flag_size n"
  unfolding flag_size_def by presburger

lemma reads_flags: "i + length bs \<le> length ps \<Longrightarrow> reads (read_flags g (length ps) (flag_size (length bs)) (i, ps, n)) (flag_bytes bs)
    (min (i + 8 * flag_size (length bs)) (length ps), apply_flags g (padded bs) i ps, n + count_set bs)"
proof (induction "length bs" arbitrary: bs i ps n rule: less_induct)
  case less
  show ?case
  proof (cases "bs = []")
    case True
    then show ?thesis using less.prems by (simp add: reads_ret padded_def count_set_def)
  next
    case False
    let ?fs = "take 8 bs"
    let ?bits = "?fs @ replicate (8 - length ?fs) False"
    let ?c = "byte_of 8 ?fs"
    let ?i = "min (i + 8) (length ps)"
    let ?ps = "apply_flags g ?bits i ps"
    let ?n = "n + count_set ?fs"
    have i: "i < length ps" using less.prems False by (cases bs) simp_all
    have bits: "map (bit ?c) [7, 6, 5, 4, 3, 2, 1, 0] = ?bits" by (rule byte_flags) simp
    have cnt: "count_set (take (length ps - i) ?bits) = count_set ?fs"
    proof -
      have "take (length ps - i) ?bits = ?fs @ take (length ps - i - length ?fs) (replicate (8 - length ?fs) False)"
        using less.prems by (cases "8 \<le> length ps - i") simp_all
      then show ?thesis by (simp add: count_set_append) (simp add: count_set_def)
    qed
    have f: "flag_bits g (length ps) ?c [7, 6, 5, 4, 3, 2, 1, 0] (i, ps, n) = Some (?i, ?ps, ?n)"
      using flag_bits_apply [OF i, of g ?c "[7, 6, 5, 4, 3, 2, 1, 0]" n] unfolding bits cnt by simp
    have size: "flag_size (length bs) = Suc (flag_size (length (drop 8 bs)))" using False flag_size_less [of "length bs"] by simp
    have rest: "?i + length (drop 8 bs) \<le> length ?ps" using less.prems by simp
    have all: "apply_flags g (padded bs) i ps = apply_flags g (padded (drop 8 bs)) ?i ?ps"
    proof (cases "length bs \<le> 8")
      case True
      then have "flag_size (length bs) = 1" using size by simp
      then have "padded bs = ?bits" using True by (simp add: padded_def)
      then show ?thesis using True by (simp add: padded_def)
    next
      case False
      then have "padded bs = take 8 bs @ padded (drop 8 bs)" by (simp add: padded_def size add.commute)
      then show ?thesis using False less.prems by (simp add: apply_flags_append min_def)
    qed
    have mn: "min (i + 8 * flag_size (length bs)) (length ps) = min (?i + 8 * flag_size (length (drop 8 bs))) (length ?ps)"
      by (simp add: size min_def)
    have ct: "n + count_set bs = ?n + count_set (drop 8 bs)" using count_set_append [of ?fs "drop 8 bs"] by simp
    have IH: "reads (read_flags g (length ?ps) (flag_size (length (drop 8 bs))) (?i, ?ps, ?n)) (flag_bytes (drop 8 bs))
        (min (?i + 8 * flag_size (length (drop 8 bs))) (length ?ps), apply_flags g (padded (drop 8 bs)) ?i ?ps, ?n + count_set (drop 8 bs))"
      by (rule less.hyps) (use False rest in simp_all)
    show ?thesis unfolding size read_flags.simps flag_bytes_step [OF False] mn [unfolded size] all ct
      by (rule reads_tag) (use IH in \<open>simp only: f option.case length_apply_flags\<close>)
  qed
qed

section \<open>The files\<close>

text \<open>What is known of a file after reading: its name from the base on, its kind, its times and its attributes.\<close>

definition dec_item :: "file_item \<Rightarrow> file_item" where
  "dec_item p = file_item0\<lparr>isDir := isDir p, isEmpty := isEmpty p, nameLength := of_nat (length (name_of p)), fileName := name_of p,
     mtime := mtime p, atime := mtime p, attribute := attribute p\<rparr>"

definition dec_files :: "file_item list \<Rightarrow> file_item list \<Rightarrow> files_dec" where
  "dec_files ds fs = \<lparr>dir_num = of_nat (length ds), file_num = of_nat (length fs), items = map dec_item (ds @ fs)\<rparr>"

lemma name_split: "item_wf p \<Longrightarrow> name_of p = butlast (name_of p) @ [0] \<and> path_ok (butlast (name_of p))"
proof -
  assume p: "item_wf p"
  then have ne: "name_of p \<noteq> []" and l: "length (name_of p) \<le> 4096" and e: "fileName p \<noteq> []" by (auto simp: item_wf_def name_of_def)
  have "last (name_of p) = 0" using p ne by (simp add: item_wf_def name_of_def)
  then have s: "name_of p = butlast (name_of p) @ [0]" using append_butlast_last_id [OF ne] by simp
  have "set (butlast (name_of p)) \<subseteq> set (butlast (fileName p))" by (simp add: name_of_def butlast_drop set_drop_subset)
  then have "\<forall>c \<in> set (butlast (name_of p)). c \<noteq> 0" using p by (auto simp: item_wf_def)
  moreover have "length (butlast (name_of p)) < PATH_MAX" using l ne by (cases "name_of p") (simp_all add: PATH_MAX_def)
  ultimately show ?thesis using s by (simp add: path_ok_def)
qed

lemma set_name_of: "item_wf p \<Longrightarrow> set_name (butlast (name_of p)) q = q\<lparr>nameLength := of_nat (length (name_of p)), fileName := name_of p\<rparr>"
proof -
  assume p: "item_wf p"
  obtain s where s: "name_of p = s @ [0]" "path_ok s" using name_split [OF p] by blast
  have t: "takeWhile (\<lambda>c. c \<noteq> 0) s = s" using s(2) by (simp add: takeWhile_eq_all_conv path_ok_def)
  show ?thesis unfolding s(1) set_name_def Let_def butlast_snoc t by simp
qed

lemma bit_high: "bit (push_bit 32 (ucast (ucast (drop_bit 32 w) :: u32)) :: u64) n \<longleftrightarrow> n < 64 \<and> 32 \<le> n \<and> bit (w :: u64) n"
  by (simp add: bit_push_bit_iff bit_unsigned_iff bit_drop_bit_eq) auto

lemma bit_low: "bit (ucast (ucast w :: u32) :: u64) n \<longleftrightarrow> n < 32 \<and> bit (w :: u64) n"
  by (auto simp add: bit_unsigned_iff)

lemma join_halves: "push_bit 32 (ucast (ucast (drop_bit 32 w) :: u32)) + ucast (ucast w :: u32) = (w :: u64)"
proof -
  let ?h = "push_bit 32 (ucast (ucast (drop_bit 32 w) :: u32)) :: u64" and ?l = "ucast (ucast w :: u32) :: u64"
  have "?h + ?l = ?h OR ?l"
  proof (rule disjunctive_add)
    show "\<not> bit ?h n \<or> \<not> bit ?l n" for n unfolding bit_high bit_low by linarith
  qed
  also have "\<dots> = w"
  proof (rule bit_word_eqI)
    fix n
    assume "n < LENGTH(64)"
    then show "bit (?h OR ?l) n = bit w n" unfolding bit_or_iff bit_high bit_low by auto
  qed
  finally show ?thesis .
qed

definition ticks :: "u64 \<Rightarrow> u32 \<Rightarrow> nat" where
  "ticks t nsec = (unat t + 11644473600) * 10000000 + unat nsec div 100"

lemma ticks_word: "t * 10000000 + (134774 * (24 * 60 * 60)) * 10000000 + ucast (nsec div 100) = (of_nat (ticks t nsec) :: u64)"
proof -
  have "unat nsec < 2 ^ 32" using unsigned_less [where w = nsec and 'a = nat] by simp
  then have n: "(of_nat (unat nsec div 100) :: u64) = ucast (nsec div 100)"
    by (simp add: word_unat_eq_iff unat_of_nat unsigned_ucast_eq unat_div take_bit_nat_eq_self)
  show ?thesis by (simp add: ticks_def n distrib_right)
qed

lemma ticks_less: "unat t < 10 ^ 12 \<Longrightarrow> ticks t nsec < 2 ^ 64"
proof -
  assume "unat t < 10 ^ 12"
  moreover have "unat nsec < 2 ^ 32" using unsigned_less [where w = nsec and 'a = nat] by simp
  ultimately show ?thesis by (simp add: ticks_def)
qed

lemma ticks_seconds: "unat nsec < 10 ^ 9 \<Longrightarrow> ticks t nsec div 10000000 = unat t + 11644473600"
  by (simp add: ticks_def)

lemma filetime_roundtrip: "unat t < 10 ^ 12 \<Longrightarrow> unat nsec < 10 ^ 9 \<Longrightarrow> filetimeToUnixtime (unixtimeToFiletime t nsec) = t"
proof -
  assume t: "unat t < 10 ^ 12" and n: "unat nsec < 10 ^ 9"
  have "unat (of_nat (ticks t nsec) :: u64) = ticks t nsec" using ticks_less [OF t] by (simp add: unat_of_nat)
  then have "unat ((of_nat (ticks t nsec) :: u64) div 10000000) = unat t + 11644473600"
    using ticks_seconds [OF n, of t] by (simp only: unat_div) simp
  then have "(of_nat (ticks t nsec) :: u64) div 10000000 = of_nat (unat t + 11644473600)" by (metis of_nat_unat ucast_id)
  then have d: "(of_nat (ticks t nsec) :: u64) div 10000000 - 134774 * (24 * 60 * 60) = t" by simp
  show ?thesis unfolding filetimeToUnixtime_def unixtimeToFiletime_def Let_def fst_conv snd_conv ticks_word join_halves by (rule d)
qed

text \<open>The sections.\<close>

lemma flag_word: "t < 2 ^ 28 \<Longrightarrow> nat (sint (ucast (if (of_nat t :: u64) mod 8 \<noteq> 0 then of_nat t div 8 + 1 else of_nat t div 8 :: u64) :: u32)) = flag_size t"
proof -
  assume t: "t < 2 ^ 28"
  have m: "(of_nat t :: u64) mod 8 = 0 \<longleftrightarrow> t mod 8 = 0" using t by (simp add: word_unat_eq_iff unat_mod unat_of_nat)
  have d: "(of_nat t :: u64) div 8 = of_nat (t div 8)" using t by (simp add: word_unat_eq_iff unat_div unat_of_nat)
  have f: "(if (of_nat t :: u64) mod 8 \<noteq> 0 then of_nat t div 8 + 1 else of_nat t div 8 :: u64) = of_nat (flag_size t)"
    unfolding m d by (simp add: flag_size_def)
  have le: "flag_size t < 2 ^ 28" using t by (simp add: flag_size_def) linarith
  have "(ucast (of_nat (flag_size t) :: u64) :: u32) = of_nat (flag_size t)"
    using le by (simp add: unsigned_ucast_eq unsigned_of_nat take_bit_nat_eq_self)
  then show ?thesis unfolding f using sint_of_small [of "flag_size t"] le by simp
qed

lemma unat_count: "t < 2 ^ 28 \<Longrightarrow> unat (of_nat t :: u64) = t"
  by (simp add: unat_of_nat)

lemma reads_then: "reads r bs x \<Longrightarrow> reads (k x) [] y \<Longrightarrow> reads (rbind r k) bs y"
  using reads_bind [of r bs x k "[]" y] by simp

lemma reads_dirs:
  assumes t: "length bs < 2 ^ 28" and s: "length (items s) = length bs"
  shows "reads (read_dirs (of_nat (length bs)) s) (sized (flag_bytes bs))
    (s\<lparr>items := apply_flags set_dir bs 0 (items s), dir_num := count_set bs, file_num := of_nat (length bs) - count_set bs\<rparr>)"
proof -
  have pad: "apply_flags set_dir (padded bs) 0 (items s) = apply_flags set_dir bs 0 (items s)"
    using s by (simp add: padded_def apply_flags_append apply_flags_past)
  have r: "reads (read_flags set_dir (length bs) (flag_size (length bs)) (0, items s, 0)) (flag_bytes bs)
      (min (0 + 8 * flag_size (length bs)) (length bs), apply_flags set_dir bs 0 (items s), count_set bs)"
    using reads_flags [of 0 bs "items s" set_dir 0] s by (simp add: pad)
  show ?thesis unfolding read_dirs_def Let_def flag_word [OF t] unat_count [OF t] sized_def
    by (intro reads_number_then reads_then [OF r]) (simp add: reads_ret)
qed

lemma reads_empties:
  assumes t: "length (items s) < 2 ^ 28" and l: "length bs \<le> length (items s)"
  shows "reads (read_empties (of_nat (length (items s))) s) (sized (flag_bytes bs)) (s\<lparr>items := apply_flags set_empty (padded bs) 0 (items s)\<rparr>)"
proof -
  have r: "reads (read_flags set_empty (length (items s)) (flag_size (length bs)) (0, items s, 0)) (flag_bytes bs)
      (min (0 + 8 * flag_size (length bs)) (length (items s)), apply_flags set_empty (padded bs) 0 (items s), count_set bs)"
    using reads_flags [of 0 bs "items s" set_empty 0] l by simp
  have "flag_size (length bs) < 2 ^ 28" using t l by (simp add: flag_size_def) linarith
  then have u: "unat (of_nat (length (flag_bytes bs)) :: u64) = flag_size (length bs)" by (simp add: length_flag_bytes unat_of_nat)
  show ?thesis unfolding read_empties_def unat_count [OF t] sized_def
    by (rule reads_number_then, unfold u, rule reads_then [OF r]) (simp add: reads_ret)
qed

lemma reads_items: "reads (r t (items s)) bs ps \<Longrightarrow> reads (set_items r t s) bs (s\<lparr>items := ps\<rparr>)"
  unfolding set_items_def by (rule reads_then [where x = ps]) (assumption, rule reads_ret)

lemma map2_left: "map2 g (map h xs) ps = map2 (\<lambda>p q. g (h p) q) xs ps"
  by (simp add: zip_map1 comp_def case_prod_beta)

lemma reads_names:
  assumes wf: "list_all item_wf xs" and t: "length xs < 2 ^ 28" and l: "length ps = length xs"
  shows "reads (readNames (of_nat (length xs)) ps) (sized (0 # concat (map (wide \<circ> name_of) xs)))
    (map2 (\<lambda>p q. set_name (butlast (name_of p)) q) xs ps)"
proof -
  let ?ns = "map (\<lambda>p. butlast (name_of p)) xs"
  have w: "map (\<lambda>s. wide (s @ [0])) ?ns = map (wide \<circ> name_of) xs"
    using wf name_split by (auto simp: list_all_iff)
  have ok: "list_all path_ok ?ns" using wf name_split by (auto simp: list_all_iff)
  have n: "length ps = length ?ns" "length xs = length ?ns" using l by simp_all
  have "reads (each_item (length xs) 0 (read_path PATH_MAX) set_name ps) (concat (map (wide \<circ> name_of) xs))
      (map2 (\<lambda>p q. set_name (butlast (name_of p)) q) xs ps)"
    using names.reads_each [OF ok n, of set_name] unfolding w map2_left .
  then show ?thesis unfolding readNames_def unat_count [OF t] sized_def
    by (intro reads_number_then reads_expect_then)
qed

lemma reads_times:
  assumes t: "length xs < 2 ^ 28" and l: "length ps = length xs"
  shows "reads (readTimes (of_nat (length xs)) ps) (getUint64Bytes n @ 1 # 0 # concat (map time_bytes xs))
    (map2 (\<lambda>p q. set_time (unixtimeToFiletime (mtime p) (mtime_nano p)) q) xs ps)"
proof -
  let ?fts = "map (\<lambda>p. unixtimeToFiletime (mtime p) (mtime_nano p)) xs"
  have w: "map (\<lambda>ft. le_bytes 4 (fst ft) @ le_bytes 4 (snd ft)) ?fts = map time_bytes xs" by (simp add: time_bytes_def Let_def)
  have ok: "list_all (\<lambda>_. True) ?fts" by (simp add: list_all_iff)
  have n: "length ps = length ?fts" "length xs = length ?fts" using l by simp_all
  have "reads (each_item (length xs) 0 read_time set_time ps) (concat (map time_bytes xs))
      (map2 (\<lambda>p q. set_time (unixtimeToFiletime (mtime p) (mtime_nano p)) q) xs ps)"
    using times.reads_each [OF ok n, of set_time] unfolding w map2_left .
  then show ?thesis unfolding readTimes_def unat_count [OF t] by (intro reads_number_then reads_expect_then)
qed

lemma reads_attributes:
  assumes t: "length xs < 2 ^ 28" and l: "length ps = length xs"
  shows "reads (readAttributes (of_nat (length xs)) ps) (getUint64Bytes n @ 1 # 0 # concat (map (le_bytes 4 \<circ> attribute) xs))
    (map2 (\<lambda>p q. set_attribute (attribute p) q) xs ps)"
proof -
  have ok: "list_all (\<lambda>_. True) (map attribute xs)" by (simp add: list_all_iff)
  have n: "length ps = length (map attribute xs)" "length xs = length (map attribute xs)" using l by simp_all
  have "reads (each_item (length xs) 0 read_u32 set_attribute ps) (concat (map (le_bytes 4 \<circ> attribute) xs))
      (map2 (\<lambda>p q. set_attribute (attribute p) q) xs ps)"
    using attributes.reads_each [OF ok n, of set_attribute] unfolding map2_left map_map .
  then show ?thesis unfolding readAttributes_def unat_count [OF t] by (intro reads_number_then reads_expect_then)
qed

lemma two_bytes: "getUint64Bytes 2 = [2]"
  by (simp add: getUint64Bytes_def getExtraByteNum_def extra_byte_boundary_def first_byte_table_def Let_def)

lemma reads_dummy: "reads (skip_dummy s) [2, 0, 0] s"
proof -
  have "reads (skipNByte 2) [0, 0] ()" by (rule reads_skip) simp_all
  then have "reads (rseq (skipNByte 2) (rret s)) ([0, 0] @ []) s" by (rule reads_seq) (rule reads_ret)
  then show ?thesis unfolding skip_dummy_def by (intro reads_tag) simp
qed

text \<open>A round of the loop.\<close>

lemma files_dirs: "reads (read_dirs t s) bs s' \<Longrightarrow> reads (files_loop k t s') cs y \<Longrightarrow> reads (files_loop (Suc k) t s) (0x0e # bs @ cs) y"
  unfolding files_loop.simps by (rule reads_tag) (simp, rule reads_bind)

lemma files_empties: "reads (read_empties t s) bs s' \<Longrightarrow> reads (files_loop k t s') cs y \<Longrightarrow> reads (files_loop (Suc k) t s) (0x0f # bs @ cs) y"
  unfolding files_loop.simps by (rule reads_tag) (simp, rule reads_bind)

lemma files_names: "reads (set_items readNames t s) bs s' \<Longrightarrow> reads (files_loop k t s') cs y \<Longrightarrow> reads (files_loop (Suc k) t s) (0x11 # bs @ cs) y"
  unfolding files_loop.simps by (rule reads_tag) (simp, rule reads_bind)

lemma files_mtime: "reads (set_items readTimes t s) bs s' \<Longrightarrow> reads (files_loop k t s') cs y \<Longrightarrow> reads (files_loop (Suc k) t s) (0x14 # bs @ cs) y"
  unfolding files_loop.simps by (rule reads_tag) (simp, rule reads_bind)

lemma files_attributes: "reads (set_items readAttributes t s) bs s' \<Longrightarrow> reads (files_loop k t s') cs y \<Longrightarrow> reads (files_loop (Suc k) t s) (0x15 # bs @ cs) y"
  unfolding files_loop.simps by (rule reads_tag) (simp, rule reads_bind)

lemma files_dummy: "reads (skip_dummy s) bs s' \<Longrightarrow> reads (files_loop k t s') cs y \<Longrightarrow> reads (files_loop (Suc k) t s) (0x19 # bs @ cs) y"
  unfolding files_loop.simps by (rule reads_tag) (simp, rule reads_bind)

lemma files_end: "reads (files_loop (Suc k) t s) [0x00] s"
  unfolding files_loop.simps by (rule reads_tag) (simp add: reads_ret)

text \<open>The bits together say of each file what it is.\<close>

definition kind_of :: "file_item \<Rightarrow> file_item" where
  "kind_of p = set_empty (isEmpty p) (set_dir (isDir p \<or> isEmpty p) file_item0)"

lemma count_prefix: "count_set (replicate m True @ replicate n False) = of_nat m"
  by (simp add: count_set_def)

lemma kinds:
  assumes ok: "archive_ok ds fs" and ps: "ps = replicate (length (ds @ fs)) file_item0"
    and qs: "qs = apply_flags set_dir (replicate (length ds) True @ replicate (length fs) False) 0 ps"
  shows "(if list_ex isEmpty ds then apply_flags set_empty (padded (map isEmpty ds)) 0 qs else qs) = map kind_of (ds @ fs)"
proof (rule nth_equalityI)
  fix j
  assume "j < length (if list_ex isEmpty ds then apply_flags set_empty (padded (map isEmpty ds)) 0 qs else qs)"
  then have j: "j < length ds + length fs" by (simp add: qs ps split: if_splits)
  have dj: "isDir (ds ! j) \<or> isEmpty (ds ! j)" if "j < length ds" using ok that by (auto simp: archive_ok_def list_all_length)
  have fj: "\<not> isDir (fs ! (j - length ds)) \<and> \<not> isEmpty (fs ! (j - length ds))" if "\<not> j < length ds"
    using ok that j by (auto simp: archive_ok_def list_all_length)
  have q: "qs ! j = set_dir (j < length ds) file_item0" using j by (simp add: qs ps apply_flags_nth nth_append)
  have lq: "j < length qs" using j by (simp add: qs ps)
  have none: "set_empty False (set_dir b file_item0) = set_dir b file_item0" for b by (simp add: set_empty_def set_dir_def file_item0_def)
  have k: "kind_of ((ds @ fs) ! j) = (if j < length ds then set_empty (isEmpty (ds ! j)) (qs ! j) else qs ! j)"
    using dj fj by (simp add: kind_of_def nth_append q none)
  have m: "map kind_of (ds @ fs) ! j = kind_of ((ds @ fs) ! j)" by (rule nth_map) (use j in simp)
  show "(if list_ex isEmpty ds then apply_flags set_empty (padded (map isEmpty ds)) 0 qs else qs) ! j = map kind_of (ds @ fs) ! j"
  proof (cases "list_ex isEmpty ds")
    case True
    have "apply_flags set_empty (padded (map isEmpty ds)) 0 qs ! j = (if j < length ds then set_empty (isEmpty (ds ! j)) (qs ! j) else qs ! j)"
      using flag_size_le [of "length ds"] by (simp add: apply_flags_nth [OF lq] padded_def nth_append q none)
    then show ?thesis using True unfolding m k by simp
  next
    case False
    then have "j < length ds \<Longrightarrow> \<not> isEmpty (ds ! j)" by (auto simp: list_ex_iff)
    then have "(if j < length ds then set_empty (isEmpty (ds ! j)) (qs ! j) else qs ! j) = qs ! j" by (simp add: q none)
    then show ?thesis using False unfolding m k by simp
  qed
qed (simp add: qs ps)

lemma map2_same: "map2 f xs (map g xs) = map (\<lambda>p. f p (g p)) xs"
  by (induction xs) simp_all

lemma item_read: "item_wf p \<Longrightarrow> \<not> (isDir p \<and> isEmpty p) \<Longrightarrow>
    set_attribute (attribute p) (set_time (unixtimeToFiletime (mtime p) (mtime_nano p)) (set_name (butlast (name_of p)) (kind_of p))) = dec_item p"
proof -
  assume p: "item_wf p" and e: "\<not> (isDir p \<and> isEmpty p)"
  have t: "filetimeToUnixtime (unixtimeToFiletime (mtime p) (mtime_nano p)) = mtime p"
    by (rule filetime_roundtrip) (use p in \<open>simp_all add: item_wf_def\<close>)
  show ?thesis using e unfolding set_name_of [OF p] set_time_def t
    by (auto simp: dec_item_def set_attribute_def kind_of_def set_empty_def set_dir_def file_item0_def)
qed

lemma reads_files:
  assumes room: "\<And>n. room n" and ok: "archive_ok ds fs"
  shows "reads (resolveFilesInfo room) (tl (files_bytes ds fs)) (dec_files ds fs)"
proof -
  let ?xs = "ds @ fs"
  let ?t = "length ds + length fs"
  let ?bits = "replicate (length ds) True @ replicate (length fs) False"
  have wf: "list_all item_wf ?xs" and t: "?t < 2 ^ 28" using ok by (simp_all add: archive_ok_def)
  define s0 where "s0 = \<lparr>dir_num = 0, file_num = 0, items = replicate ?t file_item0\<rparr>"
  define s1 where "s1 = s0\<lparr>items := apply_flags set_dir ?bits 0 (items s0), dir_num := count_set ?bits, file_num := of_nat ?t - count_set ?bits\<rparr>"
  define s2 where "s2 = s1\<lparr>items := map kind_of ?xs\<rparr>"
  define s3 where "s3 = s2\<lparr>items := map2 (\<lambda>p q. set_name (butlast (name_of p)) q) ?xs (items s2)\<rparr>"
  define s4 where "s4 = s3\<lparr>items := map2 (\<lambda>p q. set_time (unixtimeToFiletime (mtime p) (mtime_nano p)) q) ?xs (items s3)\<rparr>"
  define s5 where "s5 = s4\<lparr>items := map2 (\<lambda>p q. set_attribute (attribute p) q) ?xs (items s4)\<rparr>"
  have e: "s5 = dec_files ds fs"
  proof -
    have "items s5 = map (\<lambda>p. set_attribute (attribute p) (set_time (unixtimeToFiletime (mtime p) (mtime_nano p))
        (set_name (butlast (name_of p)) (kind_of p)))) ?xs"
      by (simp add: s5_def s4_def s3_def s2_def map2_same del: map_append)
    also have "\<dots> = map dec_item ?xs"
      by (rule map_cong [OF refl], rule item_read) (use ok in \<open>auto simp: archive_ok_def list_all_iff\<close>)
    finally have "items s5 = map dec_item ?xs" .
    moreover have "dir_num s5 = of_nat (length ds)" "file_num s5 = of_nat (length fs)"
      by (simp_all add: s5_def s4_def s3_def s2_def s1_def count_prefix)
    ultimately show ?thesis by (simp add: dec_files_def)
  qed
  have l: "length (items s0) = length ?bits" by (simp add: s0_def)
  have tb: "length ?bits = ?t" by simp
  have 1: "reads (read_dirs (of_nat ?t) s0) (sized (flag_bytes ?bits)) s1"
    using reads_dirs [OF _ l] t unfolding s1_def tb by blast
  have l1: "length (items s1) = ?t" "length (map isEmpty ds) \<le> length (items s1)" by (simp_all add: s1_def s0_def)
  have 2: "reads (read_empties (of_nat ?t) s1) (sized (flag_bytes (map isEmpty ds))) s2" if "list_ex isEmpty ds"
  proof -
    have "apply_flags set_empty (padded (map isEmpty ds)) 0 (items s1) = map kind_of ?xs"
      using kinds [OF ok refl refl] that by (simp add: s1_def s0_def)
    then show ?thesis using reads_empties [of s1 "map isEmpty ds"] l1 t by (simp add: s2_def)
  qed
  have 12: "s1 = s2" if "\<not> list_ex isEmpty ds"
    using kinds [OF ok refl refl] that by (simp add: s2_def s1_def s0_def)
  have xs: "length ?xs = ?t" by simp
  have l2: "length (items s2) = length ?xs" "length (items s3) = length ?xs" "length (items s4) = length ?xs"
    by (simp_all add: s4_def s3_def s2_def)
  note t' = t [folded xs]
  have 3: "reads (set_items readNames (of_nat ?t) s2) (sized (0 # concat (map (wide \<circ> name_of) ?xs))) s3"
    unfolding s3_def by (rule reads_items, rule reads_names [OF wf t' l2(1), unfolded xs])
  have 4: "reads (set_items readTimes (of_nat ?t) s3) (getUint64Bytes n @ 1 # 0 # concat (map time_bytes ?xs)) s4" for n
    unfolding s4_def by (rule reads_items, rule reads_times [OF t' l2(2), unfolded xs])
  have 5: "reads (set_items readAttributes (of_nat ?t) s4) (getUint64Bytes n @ 1 # 0 # concat (map (le_bytes 4 \<circ> attribute) ?xs)) s5" for n
    unfolding s5_def by (rule reads_items, rule reads_attributes [OF t' l2(3), unfolded xs])
  define after where "after = 0x19 # [2, 0, 0] @ 0x11 # sized (0 # concat (map (wide \<circ> name_of) ?xs))
      @ 0x14 # (getUint64Bytes (of_nat (?t * 8 + 2)) @ 1 # 0 # concat (map time_bytes ?xs))
      @ 0x15 # (getUint64Bytes (of_nat (2 + 4 * ?t)) @ 1 # 0 # concat (map (le_bytes 4 \<circ> attribute) ?xs)) @ [0x00]"
  have rest: "reads (files_loop (Suc (Suc (Suc (Suc (Suc k))))) (of_nat ?t) s2) after s5" for k
    unfolding after_def
    by (rule files_dummy [OF reads_dummy files_names [OF 3 files_mtime [OF 4 files_attributes [OF 5 files_end]]]])
  have loop: "reads (files_loop (k + 7) (of_nat ?t) s0) (0x0e # sized (flag_bytes ?bits)
      @ (if list_ex isEmpty ds then 0x0f # sized (flag_bytes (map isEmpty ds)) @ after else after)) s5" for k
  proof -
    have k: "k + 7 = Suc (Suc (Suc (Suc (Suc (Suc (Suc k))))))" by simp
    show ?thesis
    proof (cases "list_ex isEmpty ds")
      case True
      show ?thesis unfolding k if_P [OF True] by (rule files_dirs [OF 1 files_empties [OF 2 [OF True] rest]])
    next
      case False
      show ?thesis unfolding k if_not_P [OF False] by (rule files_dirs [OF 1]) (unfold 12 [OF False], rule rest)
    qed
  qed
  have cap: "elems_in (of_nat ?t * of_nat file_item_size) file_item_size = ?t"
    unfolding file_item_size_def by (rule elems_of [OF t]) simp_all
  have bytes: "tl (files_bytes ds fs) = getUint64Bytes (of_nat ?t) @ 0x0e # sized (flag_bytes ?bits)
      @ (if list_ex isEmpty ds then 0x0f # sized (flag_bytes (map isEmpty ds)) @ after else after)"
    by (simp add: files_bytes_def after_def two_bytes)
  have "reads (rounds (\<lambda>k. files_loop k (of_nat ?t) s0)) (0x0e # sized (flag_bytes ?bits)
      @ (if list_ex isEmpty ds then 0x0f # sized (flag_bytes (map isEmpty ds)) @ after else after)) s5"
    by (rule reads_rounds [where k = 7], rule loop) (simp add: after_def)
  then show ?thesis unfolding bytes resolveFilesInfo_def e s0_def
    by (intro reads_number_then reads_alloc_then [OF room]) (simp only: cap)
qed

section \<open>The end header\<close>

lemma end_head: "reads (end_loop k room RESOLVE_STATUS_IN_HEADER e) cs y \<Longrightarrow> reads (end_loop (Suc k) room st e) (0x01 # cs) y"
  unfolding end_loop.simps by (rule reads_tag) simp

lemma end_property: "d_property e = None \<Longrightarrow> reads resolveArchiveProperties bs p \<Longrightarrow>
    reads (end_loop k room RESOLVE_STATUS_IN_ARCHIVE_PROPERTIES (e\<lparr>d_property := Some p\<rparr>)) cs y \<Longrightarrow>
    reads (end_loop (Suc k) room st e) (0x02 # bs @ cs) y"
  unfolding end_loop.simps by (rule reads_tag) (simp, rule reads_bind)

lemma end_streams: "d_streams e = None \<Longrightarrow> reads (resolveMainStreamsInfo room) bs p \<Longrightarrow>
    reads (end_loop k room RESOLVE_STATUS_IN_STREAMSINFO (e\<lparr>d_streams := Some p\<rparr>)) cs y \<Longrightarrow>
    reads (end_loop (Suc k) room st e) (0x04 # bs @ cs) y"
  unfolding end_loop.simps by (rule reads_tag) (simp, rule reads_bind)

lemma end_files: "d_files e = None \<Longrightarrow> reads (resolveFilesInfo room) bs p \<Longrightarrow>
    reads (end_loop k room RESOLVE_STATUS_IN_FILESINFO (e\<lparr>d_files := Some p\<rparr>)) cs y \<Longrightarrow>
    reads (end_loop (Suc k) room st e) (0x05 # bs @ cs) y"
  unfolding end_loop.simps by (rule reads_tag) (simp, rule reads_bind)

lemma end_end: "reads (end_loop (Suc k) room RESOLVE_STATUS_IN_FILESINFO e) [0x00] e"
  unfolding end_loop.simps by (rule reads_tag) (simp add: reads_ret)

definition dec_end :: "file_item list \<Rightarrow> file_item list \<Rightarrow> u64 \<Rightarrow> end_dec" where
  "dec_end ds fs n = \<lparr>d_property = Some QZ7Z_PROPERTY_ID_INTEL7Z_1001,
     d_streams = (if fs = [] then None else Some (dec_streams fs n)), d_files = Some (dec_files ds fs)\<rparr>"

lemma reads_end:
  assumes room: "\<And>n. room n" and ok: "archive_ok ds fs"
  shows "reads (rounds (\<lambda>k. end_loop k room 0 \<lparr>d_property = None, d_streams = None, d_files = None\<rparr>)) (end_header_bytes ds fs n) (dec_end ds fs n)"
proof -
  have l: "length fs < 2 ^ 28" using ok by (simp add: archive_ok_def)
  define e0 where "e0 = \<lparr>d_property = None, d_streams = None, d_files = None\<rparr>"
  define e1 where "e1 = e0\<lparr>d_property := Some QZ7Z_PROPERTY_ID_INTEL7Z_1001\<rparr>"
  define e2 where "e2 = e1\<lparr>d_streams := (if fs = [] then None else Some (dec_streams fs n))\<rparr>"
  define e3 where "e3 = e2\<lparr>d_files := Some (dec_files ds fs)\<rparr>"
  have e: "e3 = dec_end ds fs n" by (simp add: e3_def e2_def e1_def e0_def dec_end_def)
  define rest where "rest = 0x05 # tl (files_bytes ds fs) @ [0x00]"
  have files: "reads (end_loop (Suc (Suc k)) room st e2) rest e3" for k st
    unfolding rest_def
    by (rule end_files [OF _ reads_files [of room, OF room ok]]) (simp_all add: e2_def e1_def e0_def e3_def end_end del: end_loop.simps)
  have "reads (end_loop (k + 5) room 0 e0) (end_header_bytes ds fs n) e3" for k
  proof -
    have k: "k + 5 = Suc (Suc (Suc (Suc (Suc k))))" by simp
    have streams: "reads (end_loop (Suc (Suc (Suc k))) room st e1) ((if fs = [] then [] else 0x04 # tl (streams_bytes fs n)) @ rest) e3" for st
    proof (cases "fs = []")
      case True
      then have "e1 = e2" by (simp add: e2_def e1_def e0_def)
      then show ?thesis using True files [of "Suc k" st] by simp
    next
      case False
      have "d_streams e1 = None" by (simp add: e1_def e0_def)
      moreover have "e1\<lparr>d_streams := Some (dec_streams fs n)\<rparr> = e2" using False by (simp add: e2_def)
      ultimately show ?thesis
        using end_streams [of e1 room "tl (streams_bytes fs n)" "dec_streams fs n" "Suc (Suc k)" rest e3 st]
          reads_streams [of room, OF room l False] files False by simp
    qed
    have "reads (end_loop (Suc (Suc (Suc (Suc (Suc k))))) room 0 e0)
        (0x01 # 0x02 # tl property_bytes @ (if fs = [] then [] else 0x04 # tl (streams_bytes fs n)) @ rest) e3"
      by (rule end_head, rule end_property [OF _ reads_property]) (simp add: e0_def, use streams in \<open>simp only: e1_def\<close>)
    moreover have "end_header_bytes ds fs n = 0x01 # 0x02 # tl property_bytes @ (if fs = [] then [] else 0x04 # tl (streams_bytes fs n)) @ rest"
    proof -
      define a where "a = tl property_bytes"
      define b where "b = tl (streams_bytes fs n)"
      define c where "c = tl (files_bytes ds fs)"
      have "property_bytes = 0x02 # a" "streams_bytes fs n = 0x04 # b" "files_bytes ds fs = 0x05 # c"
        by (simp_all add: a_def b_def c_def property_bytes_def streams_bytes_def files_bytes_def)
      then show ?thesis unfolding end_header_bytes_def rest_def a_def [symmetric] b_def [symmetric] c_def [symmetric] by simp
    qed
    ultimately show ?thesis unfolding k by simp
  qed
  then show ?thesis unfolding e0_def e by (rule reads_rounds [where k = 5]) (simp add: end_header_bytes_def property_bytes_def)
qed

end
