(* ===== verification/SevenArchive.thy ===== *)
theory SevenArchive
  imports SevenFiles
begin

text \<open>
  A 7z archive as a whole (\<^verbatim>\<open>src/utils/qzip_7z.c\<close>): the headers around the compressed data as
  \<^verbatim>\<open>doCompressFile\<close> writes them and \<^verbatim>\<open>doDecompressFile\<close> reads them, and the sizes it then gives the files.
\<close>

section \<open>Writing an archive\<close>

definition writeSignatureHeader :: "signature_header \<Rightarrow> bytes \<Rightarrow> bytes" where
  "writeSignatureHeader h f = f @ signature h @ [majorVersion h, minorVersion h] @ le_bytes 4 (startHeaderCRC h)
     @ le_bytes 8 (nextHeaderOffset h) @ le_bytes 8 (nextHeaderSize h) @ le_bytes 4 (nextHeaderCRC h)"

definition overwrite :: "nat \<Rightarrow> bytes \<Rightarrow> bytes \<Rightarrow> bytes" where
  "overwrite p bs f = take p f @ bs @ drop (p + length bs) f"

text \<open>The headers of \<^verbatim>\<open>doCompressFile\<close> around the compressed \<open>data\<close>; what is not set of the first header is \<open>garbage\<close>.\<close>

definition write_archive :: "crc_fun \<Rightarrow> signature_header \<Rightarrow> item_list \<Rightarrow> bytes \<Rightarrow> bytes option" where
  "write_archive C garbage l data =
    (let f = writeSignatureHeader (generateSignatureHeader garbage) [] @ data;
         total_compressed_size = of_nat (length data)
     in case generateEndHeader l total_compressed_size of None \<Rightarrow> None
        | Some h \<Rightarrow> (case writeEndHeader C h (f, 0) of None \<Rightarrow> None
          | Some (eheader_size, f, crc) \<Rightarrow>
            if eheader_size = 0 then None
            else let fields = le_bytes 8 (total_compressed_size :: u64) @ le_bytes 8 eheader_size @ le_bytes 4 crc
              in Some (overwrite 8 (le_bytes 4 (C 0 fields) @ fields) f)))"

section \<open>Opening an archive\<close>

definition QZ7Z_ERR_HEADER_CRC :: int where "QZ7Z_ERR_HEADER_CRC = -219"
definition QZ7Z_ERR_RESOLVE_END_HEADER :: int where "QZ7Z_ERR_RESOLVE_END_HEADER = -209"

text \<open>\<open>None\<close> is the end of the process or an access outside an array.\<close>

definition open_archive :: "crc_fun \<Rightarrow> (u64 \<Rightarrow> bool) \<Rightarrow> bytes \<Rightarrow> (int + signature_header \<times> end_dec) option" where
  "open_archive C room f =
    (case resolveSignatureHeader f 0 of
       Seen sheader p \<Rightarrow>
         if \<not> checkHeaderCRC C sheader f then Some (Inl QZ7Z_ERR_HEADER_CRC)
         else (case resolveEndHeader room sheader f 0 of
             Seen e q \<Rightarrow> Some (Inr (sheader, e))
           | Refused \<Rightarrow> Some (Inl QZ7Z_ERR_RESOLVE_END_HEADER)
           | _ \<Rightarrow> None)
     | _ \<Rightarrow> None)"

definition check7zArchive :: "bytes option \<Rightarrow> int" where
  "check7zArchive archive = (case archive of None \<Rightarrow> QZ7Z_ERR_OPEN
     | Some f \<Rightarrow> if length f < 8 then -1 else if take 6 f \<noteq> g_header_signature then -221 else 1)"

section \<open>The sizes of the files\<close>

text \<open>The sizes of a folder's files but the last, which gets what is left of the folder's size. Every folder starts over at the first
  size, and the index stays on the last file.\<close>

primrec folder_sizes :: "nat list \<Rightarrow> u64 list option \<Rightarrow> nat \<times> u64 \<times> file_item list \<Rightarrow> (nat \<times> u64 \<times> file_item list) option" where
  "folder_sizes [] sizes s = Some s"
| "folder_sizes (j # js) sizes s = (case s of (k, left, ps) \<Rightarrow> (case sizes of None \<Rightarrow> None
     | Some ss \<Rightarrow> if j < length ss \<and> k < length ps then folder_sizes js sizes (Suc k, left - ss ! j, ps[k := (ps ! k)\<lparr>fsize := ss ! j\<rparr>]) else None))"

primrec all_sizes :: "nat list \<Rightarrow> coders_info \<Rightarrow> substreams_dec \<Rightarrow> nat \<Rightarrow> file_item list \<Rightarrow> file_item list option" where
  "all_sizes [] c s k ps = Some ps"
| "all_sizes (i # is) c s k ps = (case d_numUnPackStreams s of None \<Rightarrow> None
     | Some ns \<Rightarrow> if length ns \<le> i \<or> length (unPackSize c) \<le> i then None
       else (case folder_sizes [0..<unat (ns ! i - 1)] (d_unPackSize s) (k, unPackSize c ! i, ps) of None \<Rightarrow> None
         | Some (k', left, ps') \<Rightarrow> if k' < length ps' then all_sizes is c s k' (ps'[k' := (ps' ! k')\<lparr>fsize := left\<rparr>]) else None))"

definition assign_sizes :: "end_dec \<Rightarrow> file_item list option" where
  "assign_sizes e = (case d_files e of None \<Rightarrow> None
     | Some fd \<Rightarrow> (case d_streams e of None \<Rightarrow> Some (items fd)
       | Some s \<Rightarrow> (case (d_codersInfo s, d_substreamsInfo s) of
           (Some c, Some ss) \<Rightarrow> all_sizes [0..<unat (numFolders c)] c ss (unat (dir_num fd)) (items fd)
         | _ \<Rightarrow> None)))"

section \<open>The archive is read as it was written\<close>

lemma crc_blocks_all: "crc_law C \<Longrightarrow> crc_blocks C c bs = C c bs"
proof (induction C c bs rule: crc_blocks.induct)
  case (1 C c bs)
  show ?case
  proof (cases "bs = []")
    case False
    have "crc_blocks C (C c (take 4096 bs)) (drop 4096 bs) = C (C c (take 4096 bs)) (drop 4096 bs)" by (rule "1.IH" [OF False "1.prems"])
    also have "\<dots> = C c (take 4096 bs @ drop 4096 bs)" using "1.prems" unfolding crc_law_def by blast
    finally show ?thesis using False by (simp add: crc_blocks.simps [of C c bs])
  next
    case True
    then show ?thesis using "1.prems" by (subst crc_blocks.simps) (simp add: crc_law_def)
  qed
qed

lemma reads_fread8: "reads (fread 8) (le_bytes 8 w) (le_bytes 8 w)"
  by (rule reads_fread) simp

lemma reads_signature: "length (signature h) = 6 \<Longrightarrow> reads resolveSignatureHeader (writeSignatureHeader h []) h"
proof -
  assume s: "length (signature h) = 6"
  have o: "of_le (le_bytes 8 w) = w" for w :: u64 by (simp add: of_le_roundtrip)
  have "reads resolveSignatureHeader (signature h @ majorVersion h # minorVersion h # le_bytes 4 (startHeaderCRC h) @ le_bytes 8 (nextHeaderOffset h)
      @ le_bytes 8 (nextHeaderSize h) @ le_bytes 4 (nextHeaderCRC h)) h"
    unfolding resolveSignatureHeader_def
    by (rule reads_bind [OF reads_fread], simp add: s, intro reads_tag, rule reads_bind [OF reads_crc], rule reads_bind [OF reads_fread8],
        rule reads_bind [OF reads_fread8], rule reads_then [OF reads_crc]) (cases h, simp add: o reads_ret)
  then show ?thesis by (simp add: writeSignatureHeader_def)
qed

lemma length_number: "length (getUint64Bytes n) \<le> 9"
  using extra_bytes(1) [of n] by (simp add: getUint64Bytes_def Let_def low_bytes_le)

lemma length_concat_le: "(\<And>x. x \<in> set xs \<Longrightarrow> length (f x) \<le> k) \<Longrightarrow> length (concat (map f xs)) \<le> k * length xs"
proof (induction xs)
  case (Cons x xs)
  have "length (f x) \<le> k" "length (concat (map f xs)) \<le> k * length xs" using Cons by simp_all
  then show ?case by simp
qed simp

lemma length_streams: "length fs < 2 ^ 28 \<Longrightarrow> length (streams_bytes fs n) < 2 ^ 40"
proof -
  assume l: "length fs < 2 ^ 28"
  have a: "length (concat (map (getUint64Bytes \<circ> fsize) (butlast fs))) \<le> 9 * length (butlast fs)"
    by (rule length_concat_le) (simp add: length_number)
  have b: "length (concat (map (le_bytes 4 \<circ> fcrc) fs)) \<le> 4 * length fs" by (rule length_concat_le) simp
  have "length (streams_bytes fs n) \<le> 200 + 9 * length fs + 4 * length fs"
    using a b length_number [of 0] length_number [of 1] length_number [of n] length_number [of "foldl (\<lambda>s p. s + fsize p) 0 fs"]
      length_number [of "of_nat (length fs)"]
    by (simp add: streams_bytes_def pack_bytes_def coders_bytes_def substreams_bytes_def g_deflate_codecId_def)
  then show ?thesis using l by simp
qed

lemma length_bound: "x \<le> 12 + 9 + (9 + t) + (10 + d) + 9 + (10 + N) + 9 + 8 * m + 9 + 4 * m + 1 \<Longrightarrow> m = t \<Longrightarrow> d \<le> t \<Longrightarrow>
    t < 2 ^ 28 \<Longrightarrow> N < 2 ^ 31 \<Longrightarrow> x < (2 :: nat) ^ 40"
  by simp

lemma length_files: "archive_ok ds fs \<Longrightarrow> length (files_bytes ds fs) < 2 ^ 40"
proof -
  assume ok: "archive_ok ds fs"
  let ?xs = "ds @ fs"
  let ?t = "length ds + length fs"
  have t: "?t < 2 ^ 28" using ok by (simp add: archive_ok_def)
  have "length (concat (map (wide \<circ> name_of) ?xs)) = sum_list (map (\<lambda>p. 2 * length (name_of p)) ?xs)"
    by (simp only: length_concat map_map) (simp add: comp_def length_wide)
  then have n: "length (concat (map (wide \<circ> name_of) ?xs)) < 2 ^ 31" using ok by (simp add: archive_ok_def)
  have a: "length (concat (map time_bytes ?xs)) \<le> 8 * length ?xs" by (rule length_concat_le) (simp add: time_bytes_def Let_def)
  have b: "length (concat (map (le_bytes 4 \<circ> attribute) ?xs)) \<le> 4 * length ?xs" by (rule length_concat_le) simp
  have f: "flag_size k \<le> k" for k by (cases "k = 0") (simp_all add: flag_size_def Suc_le_eq)
  have s: "length (sized bs) \<le> 9 + length bs" for bs using length_number by (simp add: sized_def)
  let ?zero = "if list_ex isEmpty ds then [0x0f] @ sized (flag_bytes (map isEmpty ds)) else []"
  have z: "length ?zero \<le> 10 + length ds" using s [of "flag_bytes (map isEmpty ds)"] f [of "length ds"] by (simp add: length_flag_bytes)
  have dirs: "length (sized (flag_bytes (replicate (length ds) True @ replicate (length fs) False))) \<le> 9 + ?t"
    using s [of "flag_bytes (replicate (length ds) True @ replicate (length fs) False)"] f [of ?t] by (simp add: length_flag_bytes)
  have names: "length (sized (0 # concat (map (wide \<circ> name_of) ?xs))) \<le> 10 + length (concat (map (wide \<circ> name_of) ?xs))"
    using s [of "0 # concat (map (wide \<circ> name_of) ?xs)"] by simp
  have split: "length (files_bytes ds fs) = 12 + length (getUint64Bytes (of_nat ?t))
      + length (sized (flag_bytes (replicate (length ds) True @ replicate (length fs) False))) + length ?zero + length (getUint64Bytes 2)
      + length (sized (0 # concat (map (wide \<circ> name_of) ?xs))) + length (getUint64Bytes (of_nat (?t * 8 + 2))) + length (concat (map time_bytes ?xs))
      + length (getUint64Bytes (of_nat (2 + 4 * ?t))) + length (concat (map (le_bytes 4 \<circ> attribute) ?xs)) + 1"
    unfolding files_bytes_def by (simp only: length_append list.size)
  have le: "length (files_bytes ds fs) \<le> 12 + 9 + (9 + ?t) + (10 + length ds) + 9 + (10 + length (concat (map (wide \<circ> name_of) ?xs))) + 9
      + 8 * length ?xs + 9 + 4 * length ?xs + 1"
    unfolding split by (intro add_mono z dirs names a b length_number order_refl)
  show ?thesis by (rule length_bound [OF le length_append _ t n]) (rule le_add1)
qed

lemma length_end_header: "archive_ok ds fs \<Longrightarrow> 0 < length (end_header_bytes ds fs n) \<and> length (end_header_bytes ds fs n) < 2 ^ 42"
proof -
  assume ok: "archive_ok ds fs"
  have "length (streams_bytes fs n) < 2 ^ 40" by (rule length_streams) (use ok in \<open>simp add: archive_ok_def\<close>)
  then show ?thesis
    using length_files [OF ok] length_number [of QZ7Z_PROPERTY_ID_INTEL7Z_1001] length_number [of 3]
    by (cases "fs = []") (simp_all add: end_header_bytes_def property_bytes_def g_property_data_def)
qed

text \<open>The first header as it stands at the end.\<close>

definition sheader_of :: "crc_fun \<Rightarrow> file_item list \<Rightarrow> file_item list \<Rightarrow> bytes \<Rightarrow> signature_header" where
  "sheader_of C ds fs data =
    (let n = of_nat (length data); e = end_header_bytes ds fs n
     in \<lparr>signature = g_header_signature, majorVersion = 0, minorVersion = 4,
       startHeaderCRC = C 0 (le_bytes 8 n @ le_bytes 8 (of_nat (length e) :: u64) @ le_bytes 4 (C 0 e)),
       nextHeaderOffset = n, nextHeaderSize = of_nat (length e), nextHeaderCRC = C 0 e\<rparr>)"

lemma written_archive:
  assumes C: "crc_law C" and l: "item_list_ok ds fs l" and ok: "archive_ok ds fs"
  shows "write_archive C garbage l data =
    Some (writeSignatureHeader (sheader_of C ds fs data) [] @ data @ end_header_bytes ds fs (of_nat (length data)))"
proof -
  let ?n = "of_nat (length data) :: u64"
  let ?e = "end_header_bytes ds fs ?n"
  obtain h where h: "generateEndHeader l ?n = Some h" using end_header_of [OF l] by blast
  have w: "writeEndHeader C h (f, c) = Some (of_nat (length ?e), f @ ?e, C c ?e)" for f c
    using writes_end_header [OF C l ok h] unfolding writes_def by blast
  have "unat (of_nat (length ?e) :: u64) = length ?e" using length_end_header [OF ok, of ?n] by (simp add: unat_of_nat)
  then have nz: "(of_nat (length ?e) :: u64) \<noteq> 0" using length_end_header [OF ok, of ?n] by (metis less_not_refl2 unat_0)
  let ?fields = "le_bytes 8 ?n @ le_bytes 8 (of_nat (length ?e) :: u64) @ le_bytes 4 (C 0 ?e)"
  let ?S = "writeSignatureHeader (generateSignatureHeader garbage) []"
  have "overwrite 8 (le_bytes 4 (C 0 ?fields) @ ?fields) ((?S @ data) @ ?e) = writeSignatureHeader (sheader_of C ds fs data) [] @ data @ ?e"
    by (simp add: overwrite_def writeSignatureHeader_def generateSignatureHeader_def g_header_signature_def sheader_of_def Let_def)
  then show ?thesis unfolding write_archive_def Let_def h option.case w prod.case using nz by simp
qed

lemma sheader_length: "length (writeSignatureHeader (sheader_of C ds fs data) []) = 32"
  by (simp add: writeSignatureHeader_def sheader_of_def Let_def g_header_signature_def)

lemma opened_archive:
  assumes C: "crc_law C" and room: "\<And>n. room n" and ok: "archive_ok ds fs" and d: "length data < 2 ^ 62"
  shows "open_archive C room (writeSignatureHeader (sheader_of C ds fs data) [] @ data @ end_header_bytes ds fs (of_nat (length data)))
    = Some (Inr (sheader_of C ds fs data, dec_end ds fs (of_nat (length data))))"
proof -
  let ?n = "of_nat (length data) :: u64"
  let ?sh = "sheader_of C ds fs data"
  let ?S = "writeSignatureHeader ?sh []"
  let ?e = "end_header_bytes ds fs ?n"
  let ?f = "?S @ data @ ?e"
  have S: "length ?S = 32" by (rule sheader_length)
  have "reads resolveSignatureHeader ?S ?sh"
    by (rule reads_signature) (simp add: sheader_of_def Let_def g_header_signature_def)
  then have "resolveSignatureHeader ([] @ ?S @ (data @ ?e)) (length ([] :: bytes)) = Seen ?sh (length ([] :: bytes) + length ?S)"
    unfolding reads_def by blast
  then have sig: "resolveSignatureHeader ?f 0 = Seen ?sh 32" using S by simp
  have off: "sint (nextHeaderOffset ?sh + 0x20) = int (length data + 32)"
  proof -
    have "uint (of_nat (length data + 32) :: u64) = int (length data + 32)"
      using d by (simp only: uint_nat) (simp add: unat_of_nat del: of_nat_add)
    moreover have "signed_take_bit 63 (int (length data + 32)) = int (length data + 32)"
      by (rule signed_take_bit_int_eq_self) (use d in auto)
    ultimately show ?thesis by (simp add: sheader_of_def Let_def sint_uint)
  qed
  have check: "checkHeaderCRC C ?sh ?f"
  proof -
    have a: "C (C (C 0 x) y) z = C 0 (x @ y @ z)" for x y z using C unfolding crc_law_def by simp
    have "drop (length data + 32) ?f = ?e" using S by simp
    moreover have "(if int (length data + 32) < 0 then 32 else nat (int (length data + 32))) = length data + 32" by simp
    ultimately show ?thesis unfolding checkHeaderCRC_def Let_def off crc_blocks_all [OF C] a
      by (simp add: sheader_of_def Let_def)
  qed
  have "resolveEndHeader room ?sh ?f 0 = Seen (dec_end ds fs ?n) (length data + 32 + length ?e)"
  proof -
    have "reads (rounds (\<lambda>k. end_loop k room 0 \<lparr>d_property = None, d_streams = None, d_files = None\<rparr>)) ?e (dec_end ds fs ?n)"
      by (rule reads_end [of room, OF room ok])
    then have "rounds (\<lambda>k. end_loop k room 0 \<lparr>d_property = None, d_streams = None, d_files = None\<rparr>) ((?S @ data) @ ?e @ []) (length (?S @ data))
        = Seen (dec_end ds fs ?n) (length (?S @ data) + length ?e)" unfolding reads_def by blast
    then have r: "rounds (\<lambda>k. end_loop k room 0 \<lparr>d_property = None, d_streams = None, d_files = None\<rparr>) ?f (length data + 32)
        = Seen (dec_end ds fs ?n) (length data + 32 + length ?e)" using S by (simp add: add.commute)
    have k: "fseek_cur (nextHeaderOffset ?sh + 0x20) ?f 0 = Seen () (length data + 32)" by (simp add: fseek_cur_def off Let_def)
    show ?thesis unfolding resolveEndHeader_def rseq_def rbind_def k r seen.case by (simp add: dec_end_def rret_def)
  qed
  then show ?thesis unfolding open_archive_def sig using check by simp
qed

section \<open>The sizes are those of the files\<close>

definition sized_item :: "file_item \<Rightarrow> file_item" where
  "sized_item p = (dec_item p)\<lparr>fsize := fsize p\<rparr>"

definition sized_to :: "file_item list \<Rightarrow> file_item list \<Rightarrow> nat \<Rightarrow> file_item list" where
  "sized_to ds fs j = map dec_item ds @ map sized_item (take j fs) @ map dec_item (drop j fs)"

lemma sized_to_length [simp]: "length (sized_to ds fs j) = length ds + length fs"
  by (simp add: sized_to_def)

lemma sized_to_step: "j < length fs \<Longrightarrow>
    (sized_to ds fs j)[length ds + j := (sized_to ds fs j ! (length ds + j))\<lparr>fsize := fsize (fs ! j)\<rparr>] = sized_to ds fs (Suc j)"
proof -
  assume j: "j < length fs"
  have d: "drop j fs = fs ! j # drop (Suc j) fs" using j by (simp add: Cons_nth_drop_Suc)
  show ?thesis using j by (simp add: sized_to_def d take_Suc_conv_app_nth nth_append list_update_append sized_item_def)
qed

lemma folder_sizes_all: "j + r = length fs - 1 \<Longrightarrow> fs \<noteq> [] \<Longrightarrow>
    folder_sizes [j..<length fs - 1] (Some (map fsize (butlast fs))) (length ds + j, left, sized_to ds fs j)
      = Some (length ds + length fs - 1, left - sum_list (map fsize (drop j (butlast fs))), sized_to ds fs (length fs - 1))"
proof (induction r arbitrary: j left)
  case 0
  then show ?case by (cases fs) simp_all
next
  case (Suc r)
  have j: "j < length fs - 1" using Suc.prems(1) by simp
  have u: "[j..<length fs - 1] = j # [Suc j..<length fs - 1]" using j by (rule upt_conv_Cons)
  have b: "butlast fs ! j = fs ! j" using j by (simp add: nth_butlast)
  have d: "drop j (butlast fs) = fs ! j # drop (Suc j) (butlast fs)" using j b Cons_nth_drop_Suc [of j "butlast fs"] by simp
  have s: "(sized_to ds fs j)[length ds + j := (sized_to ds fs j ! (length ds + j))\<lparr>fsize := fsize (fs ! j)\<rparr>] = sized_to ds fs (Suc j)"
    by (rule sized_to_step) (use j in simp)
  show ?case using Suc.IH [of "Suc j" "left - fsize (fs ! j)"] Suc.prems j b s unfolding u d by (simp add: diff_diff_eq)
qed

lemma foldl_sizes: "foldl (\<lambda>s p. s + fsize p) a fs = a + sum_list (map fsize fs)"
  by (induction fs arbitrary: a) (simp_all add: add.assoc)

lemma sizes_assigned:
  assumes ok: "archive_ok ds fs"
  shows "assign_sizes (dec_end ds fs n) = Some (map dec_item ds @ map sized_item fs)"
proof (cases "fs = []")
  case True
  then show ?thesis by (simp add: assign_sizes_def dec_end_def dec_files_def)
next
  case False
  have l: "length fs < 2 ^ 28" "length ds < 2 ^ 28" using ok by (simp_all add: archive_ok_def)
  have u: "unat (of_nat (length fs) :: u64) = length fs" "unat (of_nat (length ds) :: u64) = length ds" using l by (simp_all add: unat_of_nat)
  have "(of_nat (length fs) :: u64) \<noteq> 0" using u(1) False by (metis length_0_conv unat_0)
  then have k: "unat (of_nat (length fs) - 1 :: u64) = length fs - 1" using u(1) by (simp add: unat_minus_one)
  have start: "map dec_item (ds @ fs) = sized_to ds fs 0" by (simp add: sized_to_def)
  have last: "foldl (\<lambda>s p. s + fsize p) 0 fs - sum_list (map fsize (butlast fs)) = fsize (last fs)"
  proof -
    have "sum_list (map fsize fs) = sum_list (map fsize (butlast fs)) + fsize (last fs)"
      by (cases fs rule: rev_cases) (use False in simp_all)
    then show ?thesis by (simp add: foldl_sizes)
  qed
  have f: "folder_sizes [0..<length fs - 1] (d_unPackSize (dec_substreams fs)) (length ds, foldl (\<lambda>s p. s + fsize p) 0 fs, sized_to ds fs 0)
      = Some (length ds + length fs - 1, fsize (last fs), sized_to ds fs (length fs - 1))"
  proof (cases "length fs = 1")
    case True
    then have "butlast fs = []" by (cases fs) simp_all
    then show ?thesis using True last by simp
  next
    case False': False
    then show ?thesis using folder_sizes_all [of 0 "length fs - 1" fs ds] False last by (simp add: dec_substreams_def)
  qed
  have e: "(sized_to ds fs (length fs - 1))[length ds + length fs - 1 := (sized_to ds fs (length fs - 1) ! (length ds + length fs - 1))\<lparr>fsize := fsize (last fs)\<rparr>]
      = map dec_item ds @ map sized_item fs"
  proof -
    have "length ds + (length fs - 1) = length ds + length fs - 1" "Suc (length fs - 1) = length fs" "length fs - 1 < length fs"
      using False by (cases fs; simp)+
    then have "(sized_to ds fs (length fs - 1))[length ds + length fs - 1 := (sized_to ds fs (length fs - 1) ! (length ds + length fs - 1))\<lparr>fsize := fsize (last fs)\<rparr>]
        = sized_to ds fs (length fs)"
      using sized_to_step [of "length fs - 1" fs ds] unfolding last_conv_nth [OF False] by simp
    then show ?thesis by (simp add: sized_to_def)
  qed
  have lt: "length ds + length fs - 1 < length (sized_to ds fs (length fs - 1))" using False by (cases fs) simp_all
  have "all_sizes [0] (dec_coders (foldl (\<lambda>s p. s + fsize p) 0 fs)) (dec_substreams fs) (length ds) (sized_to ds fs 0)
      = Some (map dec_item ds @ map sized_item fs)"
    using f e lt k by (simp add: dec_coders_def dec_substreams_def)
  then show ?thesis using False
    by (simp add: assign_sizes_def dec_end_def dec_files_def dec_streams_def dec_coders_def start u del: map_append)
qed

end
