(* ===== verification/SevenDeliver.thy ===== *)
theory SevenDeliver
  imports SevenArchive
begin

text \<open>
  How \<^verbatim>\<open>doDecompressFile\<close> deals out the decompressed bytes to the files of an archive
  (\<^verbatim>\<open>src/utils/qzip_7z.c\<close>): it opens the current file by its name for every piece, starts it anew with its first piece
  and appends the others, and makes a link of a complete file whose mode says so (\<^verbatim>\<open>convertToSymlink\<close>). The disk maps
  names to files and links. What the operating system decides is an argument: what a name leads to, what can be opened,
  removed and linked, and how much of a piece is written. The loop runs on fuel: with a full disk it does not end.
\<close>

section \<open>The disk\<close>

datatype node = Regular bytes | Symlink bytes

type_synonym disk = "bytes \<rightharpoonup> node"

text \<open>\<open>o_file\<close> is the file that opening a name leads to, if it can be opened; \<open>o_wrote k n\<close> is how many of \<open>n\<close> bytes the \<open>k\<close>-th write takes.\<close>

record DiskOS =
  o_file :: "disk \<Rightarrow> bytes \<Rightarrow> bytes option"
  o_remove :: "disk \<Rightarrow> bytes \<Rightarrow> bool"
  o_realpath :: "disk \<Rightarrow> bytes \<Rightarrow> bool"
  o_unlink :: "disk \<Rightarrow> bytes \<Rightarrow> bool"
  o_symlink :: "disk \<Rightarrow> bytes \<Rightarrow> bytes \<Rightarrow> bool"
  o_wrote :: "nat \<Rightarrow> nat \<Rightarrow> nat"

definition c_str :: "bytes \<Rightarrow> bytes" where
  "c_str bs = takeWhile (\<lambda>b. b \<noteq> 0) bs"

text \<open>\<^verbatim>\<open>fopen\<close> with \<^verbatim>\<open>w+\<close> and with \<^verbatim>\<open>a\<close>: the file it leads to, and the disk.\<close>

definition open_trunc :: "DiskOS \<Rightarrow> bytes \<Rightarrow> disk \<Rightarrow> (bytes \<times> disk) option" where
  "open_trunc E name D = (case o_file E D name of None \<Rightarrow> None | Some n \<Rightarrow> Some (n, D(n \<mapsto> Regular [])))"

definition open_append :: "DiskOS \<Rightarrow> bytes \<Rightarrow> disk \<Rightarrow> (bytes \<times> disk) option" where
  "open_append E name D = (case o_file E D name of None \<Rightarrow> None
     | Some n \<Rightarrow> Some (n, case D n of Some (Regular c) \<Rightarrow> D | _ \<Rightarrow> D(n \<mapsto> Regular [])))"

definition add_bytes :: "bytes \<Rightarrow> bytes \<Rightarrow> disk \<Rightarrow> disk" where
  "add_bytes n bs D = (case D n of Some (Regular c) \<Rightarrow> D(n \<mapsto> Regular (c @ bs)) | _ \<Rightarrow> D)"

definition read_disk :: "DiskOS \<Rightarrow> bytes \<Rightarrow> disk \<Rightarrow> bytes option" where
  "read_disk E name D = (case o_file E D name of None \<Rightarrow> None
     | Some n \<Rightarrow> (case D n of Some (Regular c) \<Rightarrow> Some c | _ \<Rightarrow> None))"

text \<open>\<^verbatim>\<open>fgets\<close> into a buffer of \<open>n\<close> bytes: up to the end of the first line.\<close>

definition fgets :: "nat \<Rightarrow> bytes \<Rightarrow> bytes" where
  "fgets n c = (let l = take (n - 1) c in takeWhile (\<lambda>b. b \<noteq> 10) l @ take 1 (dropWhile (\<lambda>b. b \<noteq> 10) l))"

definition convertToSymlink :: "DiskOS \<Rightarrow> bytes \<Rightarrow> disk \<Rightarrow> int \<times> disk" where
  "convertToSymlink E name D =
    (case read_disk E name D of None \<Rightarrow> (-1, D)
     | Some c \<Rightarrow>
       if \<not> o_realpath E D name then (-1, D)
       else if fgets 1000 c = [] then (-1, D)
       else if \<not> o_unlink E D name then (-1, D)
       else let D = D(name := None); to = c_str (fgets 1000 c) in
         if o_symlink E D to name then (0, D(name \<mapsto> Symlink to)) else (-1, D))"

section \<open>Dealing out\<close>

definition S_ISLNK :: "u32 \<Rightarrow> bool" where
  "S_ISLNK m \<longleftrightarrow> and m 0xF000 = 0xA000"

definition is_link :: "file_item \<Rightarrow> bool" where
  "is_link p \<longleftrightarrow> S_ISLNK (drop_bit 16 (attribute p))"

text \<open>The file the next bytes are for, how much of it is there, whether the next write starts it anew, the disk, and the number of writes.\<close>

record deliver =
  file_no :: nat
  cur_offset :: u64
  need_check_file_with_same_name :: bool
  on_disk :: disk
  n_writes :: nat

text \<open>Dealing ends with all bytes dealt out, with an error, behind the array of the files, or not at all.\<close>

datatype dealt = Dealt deliver | Failed deliver | Outside | Spinning

text \<open>Opening the current file. A link that leads nowhere is removed, and the test of the result is inverted: a link that could be removed is the error.\<close>

definition open_current :: "DiskOS \<Rightarrow> file_item \<Rightarrow> bool \<Rightarrow> disk \<Rightarrow> disk + bytes \<times> disk" where
  "open_current E p anew D =
    (let name = c_str (fileName p) in
     case (if anew then open_trunc E name D else open_append E name D) of Some r \<Rightarrow> Inr r
     | None \<Rightarrow>
       if \<not> is_link p then Inl D
       else if o_remove E D name then Inl (D(name := None))
       else (case open_append E name D of None \<Rightarrow> Inl D | Some r \<Rightarrow> Inr r))"

text \<open>One round: what is left of the bytes, and the state. A short write of the last piece of a file is tried again; of any other piece the rest is lost.\<close>

definition deal_one :: "DiskOS \<Rightarrow> file_item list \<Rightarrow> bytes \<Rightarrow> deliver \<Rightarrow> dealt + bytes \<times> deliver" where
  "deal_one E ps dst d =
    (if length ps \<le> file_no d then Inl Outside
     else let p = ps ! file_no d in
       case open_current E p (need_check_file_with_same_name d) (on_disk d) of
         Inl D \<Rightarrow> Inl (Failed (d\<lparr>on_disk := D\<rparr>))
       | Inr (n, D) \<Rightarrow>
         (let left = unat (fsize p - cur_offset d) in
          if left \<le> length dst then
            (let w = min left (o_wrote E (n_writes d) left); D = add_bytes n (take w dst) D; d = d\<lparr>n_writes := n_writes d + 1\<rparr> in
             Inr (drop w dst,
               if w = left
               then d\<lparr>file_no := file_no d + 1, need_check_file_with_same_name := True, cur_offset := 0,
                 on_disk := (if is_link p then snd (convertToSymlink E (c_str (fileName p)) D) else D)\<rparr>
               else d\<lparr>need_check_file_with_same_name := False, cur_offset := cur_offset d + of_nat w, on_disk := D\<rparr>))
          else
            (let w = min (length dst) (o_wrote E (n_writes d) (length dst)) in
             Inr ([], d\<lparr>n_writes := n_writes d + 1, need_check_file_with_same_name := False,
               cur_offset := cur_offset d + of_nat (length dst), on_disk := add_bytes n (take w dst) D\<rparr>))))"

primrec deal_out :: "nat \<Rightarrow> DiskOS \<Rightarrow> file_item list \<Rightarrow> bytes \<Rightarrow> deliver \<Rightarrow> dealt" where
  "deal_out 0 E ps dst d = (if dst = [] then Dealt d else Spinning)"
| "deal_out (Suc k) E ps dst d =
    (if dst = [] then Dealt d
     else case deal_one E ps dst d of Inl r \<Rightarrow> r | Inr (dst, d) \<Rightarrow> deal_out k E ps dst d)"

text \<open>One decompressed buffer after another.\<close>

primrec deal_out_all :: "nat \<Rightarrow> DiskOS \<Rightarrow> file_item list \<Rightarrow> bytes list \<Rightarrow> deliver \<Rightarrow> dealt" where
  "deal_out_all k E ps [] d = Dealt d"
| "deal_out_all k E ps (b # bs) d = (case deal_out k E ps b d of Dealt d \<Rightarrow> deal_out_all k E ps bs d | r \<Rightarrow> r)"

definition deliver0 :: "disk \<Rightarrow> deliver" where
  "deliver0 D = \<lparr>file_no = 0, cur_offset = 0, need_check_file_with_same_name = True, on_disk = D, n_writes = 0\<rparr>"

section \<open>What is on the disk\<close>

text \<open>A system where nothing stands in the way: every name that is no link can be opened and is itself, whatever is asked can be done, and writes are whole.\<close>

definition plain_os :: "DiskOS \<Rightarrow> bool" where
  "plain_os E \<longleftrightarrow> (\<forall>D n. (\<forall>t. D n \<noteq> Some (Symlink t)) \<longrightarrow> o_file E D n = Some n) \<and>
     (\<forall>D n. o_realpath E D n \<and> o_unlink E D n) \<and> (\<forall>D t n. o_symlink E D t n) \<and> (\<forall>k n. o_wrote E k n = n)"

definition node_of :: "file_item \<Rightarrow> bytes \<Rightarrow> node" where
  "node_of p c = (if is_link p then Symlink c else Regular c)"

definition put_all :: "(file_item \<times> bytes) list \<Rightarrow> disk \<Rightarrow> disk" where
  "put_all pcs D = foldl (\<lambda>D (p, c). D(c_str (fileName p) \<mapsto> node_of p c)) D pcs"

definition link_text :: "bytes \<Rightarrow> bool" where
  "link_text c \<longleftrightarrow> length c < 1000 \<and> 0 \<notin> set c \<and> 10 \<notin> set c"

text \<open>Files and their contents: the sizes are those of the files, the links have a text of one line, and no later file goes through a link.\<close>

definition deliverable :: "file_item list \<Rightarrow> bytes list \<Rightarrow> disk \<Rightarrow> bool" where
  "deliverable ps cs D \<longleftrightarrow> length ps = length cs \<and>
     (\<forall>i < length cs. fsize (ps ! i) = of_nat (length (cs ! i)) \<and> 0 < length (cs ! i) \<and> length (cs ! i) < 2 ^ 63 \<and>
        (is_link (ps ! i) \<longrightarrow> link_text (cs ! i)) \<and> (\<forall>t. D (c_str (fileName (ps ! i))) \<noteq> Some (Symlink t)) \<and>
        (\<forall>j < i. is_link (ps ! j) \<longrightarrow> c_str (fileName (ps ! j)) \<noteq> c_str (fileName (ps ! i))))"

lemma link_text_kept: "link_text c \<Longrightarrow> c_str (fgets 1000 c) = c"
proof -
  assume c: "link_text c"
  then have t: "take (1000 - 1) c = c" by (simp add: link_text_def)
  have l: "takeWhile (\<lambda>b. b \<noteq> 10) c = c" using c by (intro takeWhile_eq_all_conv [THEN iffD2]) (auto simp: link_text_def)
  have d: "dropWhile (\<lambda>b. b \<noteq> 10) c = []" using c by (intro dropWhile_eq_Nil_conv [THEN iffD2]) (auto simp: link_text_def)
  have z: "takeWhile (\<lambda>b. b \<noteq> 0) c = c" using c by (intro takeWhile_eq_all_conv [THEN iffD2]) (auto simp: link_text_def)
  show ?thesis by (simp only: fgets_def c_str_def Let_def t l d take_Nil append_Nil2 z)
qed

lemma put_all_snoc: "i < length ps \<Longrightarrow> length ps = length cs \<Longrightarrow> put_all (take (Suc i) (zip ps cs)) D =
    (put_all (take i (zip ps cs)) D)(c_str (fileName (ps ! i)) \<mapsto> node_of (ps ! i) (cs ! i))"
  by (simp add: put_all_def take_Suc_conv_app_nth)

lemma put_all_no_link:
  assumes "deliverable ps cs D" "j < length cs"
  shows "i \<le> j \<Longrightarrow> put_all (take i (zip ps cs)) D (c_str (fileName (ps ! j))) \<noteq> Some (Symlink t)"
proof (induction i)
  case 0
  then show ?case using assms by (simp add: put_all_def deliverable_def)
next
  case (Suc i)
  then have i: "i < length ps" "length ps = length cs" "i < j" using assms by (simp_all add: deliverable_def)
  have "is_link (ps ! i) \<longrightarrow> c_str (fileName (ps ! i)) \<noteq> c_str (fileName (ps ! j))" using assms i(3) unfolding deliverable_def by blast
  then show ?case using Suc i by (auto simp: put_all_snoc node_of_def)
qed

text \<open>Where the bytes to come belong: in the current file after its first \<open>n\<close>.\<close>

definition at_byte :: "file_item list \<Rightarrow> bytes list \<Rightarrow> disk \<Rightarrow> deliver \<Rightarrow> nat \<Rightarrow> bool" where
  "at_byte ps cs D d n \<longleftrightarrow> file_no d < length cs \<and> n < length (cs ! file_no d) \<and> cur_offset d = of_nat n \<and>
     (if need_check_file_with_same_name d then n = 0 \<and> on_disk d = put_all (take (file_no d) (zip ps cs)) D
      else on_disk d = (put_all (take (file_no d) (zip ps cs)) D)(c_str (fileName (ps ! file_no d)) \<mapsto> Regular (take n (cs ! file_no d))))"

definition dealt_to :: "file_item list \<Rightarrow> bytes list \<Rightarrow> disk \<Rightarrow> deliver \<Rightarrow> bytes \<Rightarrow> bool" where
  "dealt_to ps cs D d rem \<longleftrightarrow>
     file_no d = length cs \<and> on_disk d = put_all (zip ps cs) D \<and> rem = [] \<or>
     (\<exists>n. at_byte ps cs D d n \<and> rem = drop n (cs ! file_no d) @ concat (drop (Suc (file_no d)) cs))"

lemma open_here:
  assumes E: "plain_os E" and ok: "deliverable ps cs D" and d: "at_byte ps cs D d n"
  shows "\<exists>D'. open_current E (ps ! file_no d) (need_check_file_with_same_name d) (on_disk d) = Inr (c_str (fileName (ps ! file_no d)), D') \<and>
    add_bytes (c_str (fileName (ps ! file_no d))) bs D' =
      (put_all (take (file_no d) (zip ps cs)) D)(c_str (fileName (ps ! file_no d)) \<mapsto> Regular (take n (cs ! file_no d) @ bs))"
proof -
  let ?n = "c_str (fileName (ps ! file_no d))"
  have "\<forall>t. put_all (take (file_no d) (zip ps cs)) D ?n \<noteq> Some (Symlink t)"
    using put_all_no_link [OF ok] d by (simp add: at_byte_def)
  then have "\<forall>t. on_disk d ?n \<noteq> Some (Symlink t)" using d by (auto simp: at_byte_def split: if_splits)
  then have "o_file E (on_disk d) ?n = Some ?n" using E by (simp add: plain_os_def)
  then show ?thesis using d
    by (cases "need_check_file_with_same_name d")
      (auto simp: at_byte_def open_current_def open_trunc_def open_append_def add_bytes_def Let_def)
qed

lemma left_here: "deliverable ps cs D \<Longrightarrow> at_byte ps cs D d n \<Longrightarrow>
    unat (fsize (ps ! file_no d) - cur_offset d) = length (cs ! file_no d) - n"
proof -
  assume ok: "deliverable ps cs D" and d: "at_byte ps cs D d n"
  let ?i = "file_no d"
  have c: "?i < length cs" "n < length (cs ! ?i)" "cur_offset d = of_nat n" using d by (simp_all add: at_byte_def)
  have f: "fsize (ps ! ?i) = of_nat (length (cs ! ?i))" "length (cs ! ?i) < 2 ^ 63" using ok c(1) by (simp_all add: deliverable_def)
  have "fsize (ps ! ?i) - cur_offset d = of_nat (length (cs ! ?i) - n)" using c f by simp
  moreover have "unat (of_nat (length (cs ! ?i) - n) :: u64) = length (cs ! ?i) - n" using f(2) by (simp add: unat_of_nat del: of_nat_diff)
  ultimately show ?thesis by simp
qed

text \<open>A round that completes a file, and one that does not.\<close>

lemma next_file:
  assumes E: "plain_os E" and ok: "deliverable ps cs D" and d: "at_byte ps cs D d n" and l: "length (cs ! file_no d) - n \<le> length dst"
    and t: "take (length (cs ! file_no d) - n) dst = drop n (cs ! file_no d)"
  shows "\<exists>d'. deal_one E ps dst d = Inr (drop (length (cs ! file_no d) - n) dst, d') \<and> file_no d' = Suc (file_no d) \<and>
    dealt_to ps cs D d' (concat (drop (Suc (file_no d)) cs))"
proof -
  let ?i = "file_no d" and ?n = "c_str (fileName (ps ! file_no d))"
  let ?c = "cs ! ?i" and ?B = "put_all (take ?i (zip ps cs)) D"
  have i: "?i < length cs" "?i < length ps" "length ps = length cs" "?c \<noteq> []" using d ok by (auto simp: at_byte_def deliverable_def)
  obtain D' where o: "open_current E (ps ! ?i) (need_check_file_with_same_name d) (on_disk d) = Inr (?n, D')"
    "add_bytes ?n (drop n ?c) D' = ?B(?n \<mapsto> Regular (take n ?c @ drop n ?c))"
    using open_here [OF E ok d] by blast
  have w: "o_wrote E k m = m" for k m using E by (simp add: plain_os_def)
  have f: "(if is_link (ps ! ?i) then snd (convertToSymlink E ?n (?B(?n \<mapsto> Regular ?c))) else ?B(?n \<mapsto> Regular ?c)) = put_all (take (Suc ?i) (zip ps cs)) D"
  proof (cases "is_link (ps ! ?i)")
    case True
    then have c: "c_str (fgets 1000 ?c) = ?c" using ok i(1) by (intro link_text_kept) (simp add: deliverable_def)
    then have "fgets 1000 ?c \<noteq> []" using i(4) by (auto simp: c_str_def)
    then show ?thesis using E c True i by (simp add: convertToSymlink_def read_disk_def plain_os_def put_all_snoc node_of_def Let_def)
  qed (use i in \<open>simp add: put_all_snoc node_of_def\<close>)
  define d' where "d' = d\<lparr>n_writes := n_writes d + 1, file_no := Suc ?i, need_check_file_with_same_name := True, cur_offset := 0,
    on_disk := (if is_link (ps ! ?i) then snd (convertToSymlink E ?n (?B(?n \<mapsto> Regular ?c))) else ?B(?n \<mapsto> Regular ?c))\<rparr>"
  have dd: "on_disk d' = put_all (take (Suc ?i) (zip ps cs)) D" unfolding d'_def f by simp
  have dn: "file_no d' = Suc ?i" "need_check_file_with_same_name d'" "cur_offset d' = 0" by (simp_all add: d'_def)
  have one: "deal_one E ps dst d = Inr (drop (length ?c - n) dst, d')"
    using i(1-3) l t o by (simp add: deal_one_def Let_def left_here [OF ok d] w d'_def)
  have "dealt_to ps cs D d' (concat (drop (Suc ?i) cs))"
  proof (cases "Suc ?i < length cs")
    case True
    then have "at_byte ps cs D d' 0" "concat (drop (Suc ?i) cs) = drop 0 (cs ! file_no d') @ concat (drop (Suc (file_no d')) cs)"
      using ok dd dn by (simp_all add: at_byte_def deliverable_def Cons_nth_drop_Suc [symmetric])
    then show ?thesis unfolding dealt_to_def by blast
  next
    case False
    then have "Suc ?i = length cs" using i by simp
    then show ?thesis using i(3) dd dn by (simp add: dealt_to_def)
  qed
  then show ?thesis using one dn(1) by blast
qed

lemma same_file:
  assumes E: "plain_os E" and ok: "deliverable ps cs D" and d: "at_byte ps cs D d n" and l: "n + length dst < length (cs ! file_no d)"
    and dst: "dst = take (length dst) (drop n (cs ! file_no d))"
  shows "\<exists>d'. deal_one E ps dst d = Inr ([], d') \<and> file_no d' = file_no d \<and> at_byte ps cs D d' (n + length dst)"
proof -
  let ?i = "file_no d" and ?n = "c_str (fileName (ps ! file_no d))"
  have i: "?i < length cs" "?i < length ps" "cur_offset d = of_nat n" using d ok by (auto simp: at_byte_def deliverable_def)
  obtain D' where o: "open_current E (ps ! ?i) (need_check_file_with_same_name d) (on_disk d) = Inr (?n, D')"
    "add_bytes ?n dst D' = (put_all (take ?i (zip ps cs)) D)(?n \<mapsto> Regular (take n (cs ! ?i) @ dst))"
    using open_here [OF E ok d] by blast
  have w: "o_wrote E k m = m" for k m using E by (simp add: plain_os_def)
  define d' where "d' = d\<lparr>n_writes := n_writes d + 1, need_check_file_with_same_name := False,
    cur_offset := cur_offset d + of_nat (length dst), on_disk := add_bytes ?n dst D'\<rparr>"
  have "deal_one E ps dst d = Inr ([], d')"
    using i(1,2) l o(1) by (simp add: deal_one_def Let_def left_here [OF ok d] w d'_def)
  moreover have "take (n + length dst) (cs ! ?i) = take n (cs ! ?i) @ dst" using dst by (simp add: take_add)
  then have "at_byte ps cs D d' (n + length dst)" using i l o(2) by (simp add: at_byte_def d'_def)
  ultimately show ?thesis by (intro exI [of _ d']) (simp add: d'_def)
qed

lemma dealt_deal_out:
  "plain_os E \<Longrightarrow> deliverable ps cs D \<Longrightarrow> dealt_to ps cs D d (dst @ rem) \<Longrightarrow> length cs - file_no d < k \<Longrightarrow>
    \<exists>d'. deal_out k E ps dst d = Dealt d' \<and> dealt_to ps cs D d' rem"
proof (induction k arbitrary: d dst)
  case (Suc k)
  show ?case
  proof (cases "dst = []")
    case True
    then show ?thesis using Suc.prems by simp
  next
    case False
    let ?c = "cs ! file_no d"
    obtain n where d: "at_byte ps cs D d n" and n: "dst @ rem = drop n ?c @ concat (drop (Suc (file_no d)) cs)"
      using Suc.prems(3) False unfolding dealt_to_def by auto
    have i: "file_no d < length cs" "n < length ?c" using d by (simp_all add: at_byte_def)
    show ?thesis
    proof (cases "length ?c - n \<le> length dst")
      case True
      have t: "take (length ?c - n) dst = drop n ?c" and r: "drop (length ?c - n) dst @ rem = concat (drop (Suc (file_no d)) cs)"
        using n True by (simp_all add: append_eq_append_conv_if split: if_splits)
      obtain d' where d': "deal_one E ps dst d = Inr (drop (length ?c - n) dst, d')" "file_no d' = Suc (file_no d)"
        "dealt_to ps cs D d' (drop (length ?c - n) dst @ rem)"
        using next_file [OF Suc.prems(1,2) d True t] r by auto
      have "length cs - file_no d' < k" using Suc.prems(4) i(1) d'(2) by simp
      from Suc.IH [OF Suc.prems(1,2) d'(3) this] show ?thesis using False d'(1) by simp
    next
      case False': False
      then have l: "n + length dst < length ?c" by simp
      have dst: "dst = take (length dst) (drop n ?c)" and r: "rem = drop (length dst) (drop n ?c) @ concat (drop (Suc (file_no d)) cs)"
        using n l by (simp_all add: append_eq_append_conv_if split: if_splits)
      obtain d' where d': "deal_one E ps dst d = Inr ([], d')" "file_no d' = file_no d" "at_byte ps cs D d' (n + length dst)"
        using same_file [OF Suc.prems(1,2) d l dst] by blast
      have "rem = drop (n + length dst) (cs ! file_no d') @ concat (drop (Suc (file_no d')) cs)" using r d'(2) by (simp add: add.commute)
      then have "dealt_to ps cs D d' rem" using d'(3) unfolding dealt_to_def by blast
      moreover have "deal_out k E ps [] d' = Dealt d'" by (cases k) simp_all
      ultimately show ?thesis using False d'(1) by simp
    qed
  qed
qed simp

lemma dealt_all:
  "plain_os E \<Longrightarrow> deliverable ps cs D \<Longrightarrow> dealt_to ps cs D d (concat bs @ rem) \<Longrightarrow> length cs < k \<Longrightarrow>
    \<exists>d'. deal_out_all k E ps bs d = Dealt d' \<and> dealt_to ps cs D d' rem"
proof (induction bs arbitrary: d)
  case (Cons b bs)
  have "length cs - file_no d < k" "dealt_to ps cs D d (b @ concat bs @ rem)" using Cons.prems(3,4) by simp_all
  from dealt_deal_out [OF Cons.prems(1,2) this(2,1)] obtain d' where
    "deal_out k E ps b d = Dealt d'" "dealt_to ps cs D d' (concat bs @ rem)" by blast
  then show ?case using Cons.IH [OF Cons.prems(1,2)] Cons.prems(4) by simp
qed simp

lemma files_delivered:
  assumes E: "plain_os E" and ok: "deliverable ps cs D" and b: "concat bs = concat cs" and k: "length cs < k"
  shows "\<exists>d. deal_out_all k E ps bs (deliver0 D) = Dealt d \<and> on_disk d = put_all (zip ps cs) D"
proof -
  have "dealt_to ps cs D (deliver0 D) (concat bs @ [])"
  proof (cases cs)
    case Nil
    then show ?thesis using b ok by (simp add: dealt_to_def deliver0_def deliverable_def put_all_def)
  next
    case (Cons c cs')
    then have "at_byte ps cs D (deliver0 D) 0" using ok by (auto simp: at_byte_def deliver0_def deliverable_def put_all_def)
    moreover have "concat bs @ [] = drop 0 (cs ! file_no (deliver0 D)) @ concat (drop (Suc (file_no (deliver0 D))) cs)"
      using b Cons by (simp add: deliver0_def)
    ultimately show ?thesis unfolding dealt_to_def by blast
  qed
  from dealt_all [OF E ok this k] show ?thesis by (auto simp: dealt_to_def at_byte_def)
qed

lemma put_all_other: "n \<notin> (\<lambda>p. c_str (fileName p)) ` set ps \<Longrightarrow> put_all (zip ps cs) D n = D n"
proof (induction ps arbitrary: cs D)
  case (Cons p ps)
  then show ?case by (cases cs) (simp_all add: put_all_def)
qed (simp add: put_all_def)

lemma put_all_distinct:
  "distinct (map (\<lambda>p. c_str (fileName p)) ps) \<Longrightarrow> length ps = length cs \<Longrightarrow> i < length ps \<Longrightarrow>
    put_all (zip ps cs) D (c_str (fileName (ps ! i))) = Some (node_of (ps ! i) (cs ! i))"
proof (induction ps arbitrary: cs D i)
  case (Cons p ps)
  then obtain c cs' where cs: "cs = c # cs'" by (cases cs) auto
  have s: "put_all (zip (p # ps) cs) D = put_all (zip ps cs') (D(c_str (fileName p) \<mapsto> node_of p c))" by (simp add: cs put_all_def)
  show ?case
  proof (cases i)
    case 0
    have "c_str (fileName p) \<notin> (\<lambda>p. c_str (fileName p)) ` set ps" using Cons.prems(1) by simp
    from put_all_other [OF this] show ?thesis unfolding s by (simp add: 0 cs)
  next
    case (Suc j)
    have "put_all (zip ps cs') (D(c_str (fileName p) \<mapsto> node_of p c)) (c_str (fileName (ps ! j))) = Some (node_of (ps ! j) (cs' ! j))"
      by (rule Cons.IH) (use Cons.prems Suc cs in auto)
    then show ?thesis unfolding s by (simp add: Suc cs)
  qed
qed simp

section \<open>Where it goes wrong\<close>

text \<open>A link of the archive where the disk already has one that leads nowhere: it is removed, and the extraction fails because that succeeded.\<close>

lemma broken_link_fails:
  assumes "is_link p" "o_file E D (c_str (fileName p)) = None" "o_remove E D (c_str (fileName p))"
  shows "deal_out (Suc k) E (p # ps) (b # dst) (deliver0 D) = Failed ((deliver0 D)\<lparr>on_disk := D(c_str (fileName p) := None)\<rparr>)"
  using assms by (simp add: deal_one_def deliver0_def open_current_def open_trunc_def Let_def)

text \<open>On a full disk the loop over the files does not end.\<close>

lemma full_disk_spins:
  assumes o: "\<And>D. o_file E D (c_str (fileName p)) = Some (c_str (fileName p))" "\<And>k n. o_wrote E k n = 0"
    and l: "0 < fsize p" "unat (fsize p) \<le> length dst"
  shows "deal_out k E (p # ps) dst (deliver0 D) = Spinning"
proof -
  have ne: "dst \<noteq> []" and z: "unat (fsize p) \<noteq> 0" using l by (auto simp: unat_eq_0)
  have "deal_out k E (p # ps) dst d = Spinning" if "file_no d = 0" "cur_offset d = 0" for d
    using that
  proof (induction k arbitrary: d)
    case (Suc k)
    obtain D' where c: "open_current E p (need_check_file_with_same_name d) (on_disk d) = Inr (c_str (fileName p), D')"
      by (cases "need_check_file_with_same_name d") (simp_all add: open_current_def open_trunc_def open_append_def o Let_def)
    have "\<exists>d'. deal_one E (p # ps) dst d = Inr (dst, d') \<and> file_no d' = 0 \<and> cur_offset d' = 0"
      using Suc.prems l(2) z by (simp add: deal_one_def c o Let_def)
    then show ?case using Suc.IH ne by auto
  qed (simp add: ne)
  then show ?thesis by (simp add: deliver0_def)
qed

text \<open>A short write in the middle of a file: what was not written is lost, and the bytes that follow go to the wrong place.\<close>

lemma short_write_loses:
  "(case deal_out_all 3 \<lparr>o_file = (\<lambda>D n. Some n), o_remove = (\<lambda>_ _. False), o_realpath = (\<lambda>_ _. True), o_unlink = (\<lambda>_ _. True), o_symlink = (\<lambda>_ _ _. True),
        o_wrote = (\<lambda>k n. if k = 0 then 1 else n)\<rparr> [file_item0\<lparr>fileName := [102, 0], fsize := 4\<rparr>] [[1, 2], [3, 4]] (deliver0 Map.empty) of
      Dealt d \<Rightarrow> on_disk d [102] = Some (Regular [1, 3, 4]) | _ \<Rightarrow> False)"
  by code_simp

text \<open>Two files of one name: only the second is there in the end.\<close>

lemma same_name_overwritten:
  assumes "plain_os E" "deliverable [p, q] [a, b] D" "c_str (fileName p) = c_str (fileName q)" "\<not> is_link p" "\<not> is_link q"
  shows "\<exists>d. deal_out_all 3 E [p, q] [a @ b] (deliver0 D) = Dealt d \<and> on_disk d = D(c_str (fileName q) \<mapsto> Regular b)"
  using files_delivered [OF assms(1,2), of "[a @ b]" 3] assms(3-5) by (simp add: put_all_def node_of_def)

end
