(* ===== verification/SevenZip.thy ===== *)
theory SevenZip
  imports SevenDeliver
begin

text \<open>
  What holds of 7z archives (\<^verbatim>\<open>src/utils/qzip_7z.c\<close>): numbers, the list of files, reading that comes to an end, archives
  that are read as they were written, files that get their bytes back; and, with their inputs, the places where the code leaves its arrays or
  forgets what it read.
\<close>

section \<open>Numbers and lists\<close>

text \<open>C35: (seven_number) A number of any size is written in at most nine bytes, and reading at the place where it was written
  gives it back and stands behind it, whatever comes before and after it in the file.\<close>

theorem seven_number:
  "\<exists>bs. writeNumber C n (f, c) = Some (of_nat (length bs), f @ bs, C c bs) \<and> length bs \<le> 9 \<and>
     getU64FromBytes (f @ bs @ rest) (length f) = Seen n (length (f @ bs))"
proof (intro exI conjI)
  show "writeNumber C n (f, c) = Some (of_nat (length (getUint64Bytes n)), f @ getUint64Bytes n, C c (getUint64Bytes n))"
    using writes_number [of C n] by (simp add: writes_def)
  show "getU64FromBytes (f @ getUint64Bytes n @ rest) (length f) = Seen n (length (f @ getUint64Bytes n))"
    using reads_number [of n] by (simp add: reads_def)
qed (rule length_number)

text \<open>C32: (seven_list) The chain of nodes refines a sequence: whatever the number of elements in a node, the elements that were added are
  found at their places in the order of adding, nothing is found behind them, and the total counts them.\<close>

theorem seven_list:
  assumes "0 < k" "k < 2 ^ 31" "length xs < 2 ^ 32"
  shows "l_total (foldl qzListAdd (qzListCreate k) xs) = of_nat (length xs) \<and>
     (\<forall>i. qzListGet (foldl qzListAdd (qzListCreate k) xs) i = (if unat i < length xs then Some (xs ! unat i) else None))"
proof -
  let ?l = "foldl qzListAdd (qzListCreate k) xs"
  have ok: "list_ok ?l" "list_items ?l = xs" using growing_list.built [OF chain_grows [OF assms(1,2)], of xs] assms(3) by simp_all
  have t: "unat (l_total ?l) = length xs" using total_of [OF ok(1)] ok(2) by simp
  have "l_total ?l = of_nat (length xs)" using t by (metis of_nat_unat ucast_id)
  moreover have "qzListGet ?l i = (if unat i < length xs then Some (xs ! unat i) else None)" for i
  proof (cases "unat i < length xs")
    case True
    then show ?thesis using get_ok [OF ok(1), of "unat i"] ok(2) by (simp add: get_at_def)
  next
    case False
    then have "l_total ?l \<le> i" using t by (simp add: word_le_nat_alt)
    then show ?thesis using False by (simp add: qzListGet_def)
  qed
  ultimately show ?thesis by blast
qed

lemma seven_list_witness: "qzListGet (foldl qzListAdd (qzListCreate 2) [''a'', ''b'', ''c'']) 2 = Some ''c'' \<and>
    qzListGet (foldl qzListAdd (qzListCreate 2) [''a'', ''b'', ''c'']) 3 = None"
  using seven_list [of 2 "[''a'', ''b'', ''c'']"] by simp

section \<open>Reading comes to an end\<close>

text \<open>C27: (seven_reading_ends) Reading the end header of any file, from any position, comes to an end: the loops over tags take at most
  twice as many rounds as the file has bytes, although the property of the archive can move the position back.\<close>

theorem seven_reading_ends: "resolveEndHeader room sheader f p \<noteq> Spin"
  using end_header_ends [of room sheader] by (simp add: ends_def)

section \<open>Archives\<close>

text \<open>C19: (seven_archive) An archive written for directories, empty files and files with names, times and attributes in their bounds is
  accepted when it is opened: both checksums agree, the end header is found behind the compressed data, and every file has its name from the base on,
  its kind, its modification time and its attributes.\<close>

theorem seven_archive:
  assumes "crc_law C" "\<forall>n. room n" "archive_ok ds fs" "length data < 2 ^ 62"
  shows "\<exists>l file sh. scanFilesIntoCatagory (scanned ds fs) = Some l \<and> write_archive C garbage l data = Some file \<and>
    check7zArchive (Some file) = 1 \<and> open_archive C room file = Some (Inr (sh, dec_end ds fs (of_nat (length data)))) \<and>
    nextHeaderOffset sh = of_nat (length data) \<and> take (length data) (drop 32 file) = data"
proof -
  have n: "length ds < 2 ^ 32" "length fs < 2 ^ 32" using assms(3) by (simp_all add: archive_ok_def)
  obtain l where l: "scanFilesIntoCatagory (scanned ds fs) = Some l" "item_list_ok ds fs l" using scanned_ok [OF n] by blast
  let ?sh = "sheader_of C ds fs data"
  let ?file = "writeSignatureHeader ?sh [] @ data @ end_header_bytes ds fs (of_nat (length data))"
  have w: "write_archive C garbage l data = Some ?file" by (rule written_archive [OF assms(1) l(2) assms(3)])
  have o: "open_archive C room ?file = Some (Inr (?sh, dec_end ds fs (of_nat (length data))))"
    by (rule opened_archive [of C room, OF assms(1) _ assms(3,4)]) (use assms(2) in blast)
  have "check7zArchive (Some ?file) = 1"
    by (simp add: check7zArchive_def writeSignatureHeader_def sheader_of_def Let_def g_header_signature_def)
  moreover have "take (length data) (drop 32 ?file) = data" using sheader_length [of C ds fs data] by simp
  moreover have "nextHeaderOffset ?sh = of_nat (length data)" by (simp add: sheader_of_def Let_def)
  ultimately show ?thesis using l(1) w o by blast
qed

text \<open>A checksum that obeys the law, an empty file and a file.\<close>

definition sum_crc :: crc_fun where
  "sum_crc c bs = foldl (\<lambda>c b. push_bit 1 c + ucast b) c bs"

lemma sum_crc_law: "crc_law sum_crc"
  by (simp add: crc_law_def sum_crc_def)

definition empty_item :: file_item where
  "empty_item = file_item0\<lparr>fileName := [47, 101, 0], nameLength := 3, baseNameLength := 1, isEmpty := True, mtime := 1700000000\<rparr>"

definition full_item :: file_item where
  "full_item = file_item0\<lparr>fileName := [47, 102, 0], nameLength := 3, baseNameLength := 1, fsize := 3, mtime := 1700000001, mtime_nano := 999\<rparr>"

lemma archive_ok_items: "archive_ok [empty_item] [full_item]"
  by (simp add: archive_ok_def item_wf_def empty_item_def full_item_def file_item0_def name_of_def flag_size_def)

definition first_header :: signature_header where
  "first_header = sheader_of sum_crc [] [] []"

lemma seven_archive_witness:
  "\<exists>l file sh. scanFilesIntoCatagory (scanned [empty_item] [full_item]) = Some l \<and> write_archive sum_crc first_header l [5, 6] = Some file \<and>
    check7zArchive (Some file) = 1 \<and> open_archive sum_crc (\<lambda>_. True) file = Some (Inr (sh, dec_end [empty_item] [full_item] (of_nat (length [5 :: u8, 6])))) \<and>
    nextHeaderOffset sh = of_nat (length [5 :: u8, 6]) \<and> take (length [5 :: u8, 6]) (drop 32 file) = [5, 6]"
  using seven_archive [OF sum_crc_law _ archive_ok_items, of "\<lambda>_. True" "[5, 6]" first_header] by simp




section \<open>Where the code goes wrong\<close>

lemma wall_fails: "w \<in> set ws \<Longrightarrow> (\<And>s. w s = None) \<Longrightarrow> wall ws s = None"
proof (induction ws arbitrary: s)
  case (Cons v ws)
  show ?case
  proof (cases "v = w")
    case True
    then show ?thesis using Cons.prems(2) by simp
  next
    case False
    then have IH: "wall ws t = None" for t using Cons.IH [OF _ Cons.prems(2)] Cons.prems(1) by simp
    show ?thesis by (cases "v s") (auto simp: IH split: prod.split)
  qed
qed simp

text \<open>Directories and empty files alone, eight of them or a multiple: the bits fill their bytes and one more byte is written behind them.\<close>

lemma directories_overrun:
  assumes "scanFilesIntoCatagory (scanned ds []) = Some l" "length ds mod 8 = 0" "length ds < 2 ^ 32"
  shows "write_archive C garbage l data = None"
proof -
  obtain l' where "scanFilesIntoCatagory (scanned ds []) = Some l'" "item_list_ok ds [] l'" using scanned_ok [of ds "[]"] assms(3) by auto
  then have l: "item_list_ok ds [] l" using assms(1) by simp
  let ?n = "of_nat (length data) :: u64"
  let ?F = "generateFilesInfo l"
  have h: "generateEndHeader l ?n = Some \<lparr>propertyInfo = Some generatePropertyInfo, streamsInfo = None, filesInfo = Some ?F\<rparr>"
    using end_header_of [OF l, of ?n] by simp
  have t: "unat (l_total (head_dirs ?F)) = length ds" "unat (l_total (head_files ?F)) = 0"
    using l by (simp_all add: item_list_ok_def generateFilesInfo_def total_of)
  have "put_sized C (calculateEmptyStreamProperty (length ds) 0) s = None" for s
    using assms(2) by (simp add: empty_streams flag_size_def put_sized_def wfail_def)
  then have "writeFilesInfo C ?F s = None" for s unfolding writeFilesInfo_def Let_def t by (intro wall_fails) auto
  then have "writeEndHeader C \<lparr>propertyInfo = Some generatePropertyInfo, streamsInfo = None, filesInfo = Some ?F\<rparr> s = None" for s
    unfolding writeEndHeader_def by (intro wall_fails [where w = "writeFilesInfo C ?F"]) auto
  then show ?thesis unfolding write_archive_def Let_def h by simp
qed

text \<open>A section of empty files that is longer than its files: the byte after the last file goes past the items.\<close>

lemma empty_section_overrun:
  "read_empties 1 \<lparr>dir_num = 1, file_num = 0, items = [file_item0]\<rparr> [2, 0x80, 0] 0 = Overrun"
proof -
  have n: "getU64FromBytes [2, 0x80, 0] 0 = Seen 2 1"
    using reads_number [of 2] by (auto simp: reads_def two_bytes dest: spec [where x = "[]"] spec [where x = "[0x80, 0]"])
  have "read_flags set_empty 1 (Suc (Suc 0)) (0, [file_item0], 0) [2, 0x80, 0] 1 = Overrun"
    by (simp add: rbind_def readByte_def fread_def rret_def rover_def)
  moreover have "unat (1 :: u64) = 1" "unat (2 :: u64) = Suc (Suc 0)" by simp_all
  ultimately have "read_flags set_empty (unat (1 :: u64)) (unat (2 :: u64)) (0, [file_item0], 0) [2, 0x80, 0] 1 = Overrun" by (simp only:)
  then show ?thesis unfolding read_empties_def rbind_def n by simp
qed

text \<open>A name that is as long as the path buffer, or longer, is written behind it.\<close>

lemma long_name_overrun: "(\<forall>c \<in> set s. c \<noteq> 0) \<Longrightarrow> PATH_MAX < length s \<Longrightarrow> read_path PATH_MAX (f @ wide s @ rest) (length f) = Overrun"
proof -
  have "(\<forall>c \<in> set s. c \<noteq> 0) \<Longrightarrow> r < length s \<Longrightarrow> read_path r (f @ wide s @ rest) (length f) = Overrun" for r f s
  proof (induction r arbitrary: f s)
    case 0
    then obtain c s' where "s = c # s'" by (cases s) auto
    then show ?case by (simp add: rbind_def fread_def wide_def rover_def)
  next
    case (Suc r)
    then obtain c s' where s: "s = c # s'" by (cases s) auto
    have "read_path r ((f @ [c, 0]) @ wide s' @ rest) (length (f @ [c, 0])) = Overrun" by (rule Suc.IH) (use Suc.prems s in auto)
    then show ?case using Suc.prems s by (simp add: rbind_def fread_def wide_def)
  qed
  then show "(\<forall>c \<in> set s. c \<noteq> 0) \<Longrightarrow> PATH_MAX < length s \<Longrightarrow> read_path PATH_MAX (f @ wide s @ rest) (length f) = Overrun" by blast
qed

text \<open>Of the checksums of the files none is kept, whatever the archive says.\<close>

definition no_crcs :: "substreams_dec \<Rightarrow> bool" where
  "no_crcs s \<longleftrightarrow> (case d_crcs s of None \<Rightarrow> True | Some cs \<Rightarrow> \<forall>c \<in> set cs. c = None)"

lemma bind_seen: "rbind r k f p = Seen y q \<Longrightarrow> \<exists>x p'. r f p = Seen x p' \<and> k x f p' = Seen y q"
  by (simp add: rbind_def split: seen.splits)

lemma seq_seen: "rseq r k f p = Seen y q \<Longrightarrow> \<exists>p'. k f p' = Seen y q"
  unfolding rseq_def by (drule bind_seen) blast

lemma nums_no_crcs: "read_nums room n s f p = Seen s' q \<Longrightarrow> no_crcs s \<Longrightarrow> no_crcs s'"
  unfolding read_nums_def by (auto simp: rfail_def rret_def no_crcs_def split: if_splits dest!: seq_seen bind_seen)

lemma sizes_no_crcs: "read_sizes room n s f p = Seen s' q \<Longrightarrow> no_crcs s \<Longrightarrow> no_crcs s'"
  unfolding read_sizes_def Let_def by (auto simp: rfail_def rret_def no_crcs_def split: if_splits dest!: seq_seen bind_seen)

lemma digests_no_crcs: "read_digests room s f p = Seen s' q \<Longrightarrow> no_crcs s'"
  unfolding read_digests_def by (auto simp: rfail_def rret_def no_crcs_def split: if_splits dest!: seq_seen bind_seen)

lemma loop_no_crcs: "substreams_loop k room n s f p = Seen s' q \<Longrightarrow> no_crcs s \<Longrightarrow> no_crcs s'"
proof (induction k arbitrary: s p)
  case (Suc k)
  obtain c :: u8 and p1 where c: "(if c = 0x0d then rbind (read_nums room n s) (substreams_loop k room n)
     else if c = 0x09 then rbind (read_sizes room n s) (substreams_loop k room n)
     else if c = 0x0a then rbind (read_digests room s) (substreams_loop k room n)
     else if c = 0x00 then rret s else rfail) f p1 = Seen s' q"
    using Suc.prems(1) unfolding substreams_loop.simps by (blast dest: bind_seen)
  show ?case using c Suc.IH Suc.prems(2) nums_no_crcs sizes_no_crcs digests_no_crcs
    by (auto simp: rret_def rfail_def split: if_splits dest!: bind_seen)
qed (simp add: rspin_def)

lemma checksums_not_kept: "resolveSubstreamsInfo room n f p = Seen s q \<Longrightarrow> d_crcs s = Some cs \<Longrightarrow> \<forall>c \<in> set cs. c = None"
  unfolding resolveSubstreamsInfo_def rounds_def
  by (drule loop_no_crcs) (simp_all add: no_crcs_def substreams0_def)

text \<open>Two folders of a file each: the second size goes to the first file.\<close>

lemma second_folder_overwrites:
  "map_option (map fsize) (all_sizes [0, 1] \<lparr>numFolders = 2, folders = [], dataStreamIndex = None, unPackSize = [10, 20]\<rparr>
     \<lparr>total_streams = 2, d_numUnPackStreams = Some [1, 1], d_unPackSize = None, unpacksize_resolved = True, d_crcs = None\<rparr> 0 [file_item0, file_item0])
   = Some [20, 0]"
  by (simp add: file_item0_def)

text \<open>Streams without coders are accepted, and the sizes are then taken from a null pointer.\<close>

lemma streams_without_coders:
  "reads (rounds (\<lambda>k. end_loop k (\<lambda>_. True) 0 \<lparr>d_property = None, d_streams = None, d_files = None\<rparr>))
     ([1] @ property_bytes @ [4, 0] @ files_bytes [empty_item] [] @ [0])
     \<lparr>d_property = Some QZ7Z_PROPERTY_ID_INTEL7Z_1001, d_streams = Some \<lparr>d_packInfo = None, d_codersInfo = None, d_substreamsInfo = None\<rparr>,
      d_files = Some (dec_files [empty_item] [])\<rparr> \<and>
   assign_sizes \<lparr>d_property = Some QZ7Z_PROPERTY_ID_INTEL7Z_1001, d_streams = Some \<lparr>d_packInfo = None, d_codersInfo = None, d_substreamsInfo = None\<rparr>,
      d_files = Some (dec_files [empty_item] [])\<rparr> = None"
proof
  let ?none = "\<lparr>d_packInfo = None, d_codersInfo = None, d_substreamsInfo = None\<rparr>"
  have ok: "archive_ok [empty_item] []"
    by (simp add: archive_ok_def item_wf_def empty_item_def file_item0_def name_of_def flag_size_def)
  have s: "reads (resolveMainStreamsInfo (\<lambda>_. True)) [0] ?none"
    unfolding resolveMainStreamsInfo_def by (rule reads_rounds [where k = 1]) (simp only: add_Suc_right Nat.add_0_right One_nat_def str_end, simp)
  define c where "c = tl (files_bytes [empty_item] [])"
  define b where "b = tl property_bytes"
  have p: "property_bytes = 2 # b" "files_bytes [empty_item] [] = 5 # c" by (simp_all add: b_def c_def property_bytes_def files_bytes_def)
  have f: "reads (resolveFilesInfo (\<lambda>_. True)) c (dec_files [empty_item] [])" unfolding c_def by (rule reads_files [OF _ ok]) simp
  have "reads (end_loop (Suc (Suc (Suc (Suc (Suc k))))) (\<lambda>_. True) 0 \<lparr>d_property = None, d_streams = None, d_files = None\<rparr>)
     (1 # 2 # b @ 4 # [0] @ 5 # c @ [0])
     \<lparr>d_property = Some QZ7Z_PROPERTY_ID_INTEL7Z_1001, d_streams = Some ?none, d_files = Some (dec_files [empty_item] [])\<rparr>" for k
    by (rule end_head, rule end_property [OF _ reads_property [folded b_def]], simp, rule end_streams [OF _ s], simp, rule end_files [OF _ f], simp)
      (simp add: end_end del: end_loop.simps)
  then have "reads (end_loop (j + 5) (\<lambda>_. True) 0 \<lparr>d_property = None, d_streams = None, d_files = None\<rparr>)
     ([1] @ property_bytes @ [4, 0] @ files_bytes [empty_item] [] @ [0])
     \<lparr>d_property = Some QZ7Z_PROPERTY_ID_INTEL7Z_1001, d_streams = Some ?none, d_files = Some (dec_files [empty_item] [])\<rparr>" for j
    unfolding p by (simp add: eval_nat_numeral del: end_loop.simps)
  then show "reads (rounds (\<lambda>k. end_loop k (\<lambda>_. True) 0 \<lparr>d_property = None, d_streams = None, d_files = None\<rparr>))
     ([1] @ property_bytes @ [4, 0] @ files_bytes [empty_item] [] @ [0])
     \<lparr>d_property = Some QZ7Z_PROPERTY_ID_INTEL7Z_1001, d_streams = Some ?none, d_files = Some (dec_files [empty_item] [])\<rparr>"
    by (rule reads_rounds [where k = 5]) simp
qed (simp add: assign_sizes_def dec_files_def)

end
