(* ===== verification/Types.thy ===== *)
theory Types
  imports Prelude
begin

text \<open>
  The constants, enumerations and parameter structures shared by all components:
  \<^verbatim>\<open>include/qatzip.h\<close> and \<^verbatim>\<open>src/qatzip_internal.h\<close>. Return codes are C \<open>int\<close>s and are
  kept as integers under the header's names. Enumerations that a caller fills in
  (\<open>huffman_hdr\<close>, \<open>direction\<close>, the public \<open>data_fmt\<close>) are 32-bit words, because the
  parameter checks are about values outside the enumeration; the internal data format, which
  only the library assigns, is a datatype.
\<close>

section \<open>Return codes\<close>

abbreviation (input) QZ_OK :: int where "QZ_OK \<equiv> 0"
abbreviation (input) QZ_DUPLICATE :: int where "QZ_DUPLICATE \<equiv> 1"
abbreviation (input) QZ_FORCE_SW :: int where "QZ_FORCE_SW \<equiv> 2"
abbreviation (input) QZ_WAIT_SW_PENDING :: int where "QZ_WAIT_SW_PENDING \<equiv> 10"
abbreviation (input) QZ_NO_HW :: int where "QZ_NO_HW \<equiv> 11"
abbreviation (input) QZ_NO_INST_ATTACH :: int where "QZ_NO_INST_ATTACH \<equiv> 13"
abbreviation (input) QZ_LOW_MEM :: int where "QZ_LOW_MEM \<equiv> 14"
abbreviation (input) QZ_LOW_DEST_MEM :: int where "QZ_LOW_DEST_MEM \<equiv> 15"
abbreviation (input) QZ_UNSUPPORTED_FMT :: int where "QZ_UNSUPPORTED_FMT \<equiv> 16"
abbreviation (input) QZ_NONE :: int where "QZ_NONE \<equiv> 100"
abbreviation (input) QZ_PARAMS :: int where "QZ_PARAMS \<equiv> -1"
abbreviation (input) QZ_FAIL :: int where "QZ_FAIL \<equiv> -2"
abbreviation (input) QZ_BUF_ERROR :: int where "QZ_BUF_ERROR \<equiv> -3"
abbreviation (input) QZ_DATA_ERROR :: int where "QZ_DATA_ERROR \<equiv> -4"
abbreviation (input) QZ_NOSW_NO_HW :: int where "QZ_NOSW_NO_HW \<equiv> -101"
abbreviation (input) QZ_NOSW_NO_INST_ATTACH :: int where "QZ_NOSW_NO_INST_ATTACH \<equiv> -103"
abbreviation (input) QZ_NOSW_LOW_MEM :: int where "QZ_NOSW_LOW_MEM \<equiv> -104"

definition QZ_INIT_FAIL :: "status \<Rightarrow> bool" where
  "QZ_INIT_FAIL rc = (QZ_OK \<noteq> rc \<and> QZ_DUPLICATE \<noteq> rc)"

definition QZ_SETUP_SESSION_FAIL :: "status \<Rightarrow> bool" where
  "QZ_SETUP_SESSION_FAIL rc = (QZ_PARAMS = rc \<or> QZ_NOSW_NO_HW = rc \<or> QZ_NOSW_LOW_MEM = rc)"

section \<open>Enumerations and limits\<close>

abbreviation (input) QZ_DEFLATE :: u8 where "QZ_DEFLATE \<equiv> 8"
abbreviation (input) QZ_LZ4 :: u8 where "QZ_LZ4 \<equiv> 52"
abbreviation (input) QZ_LZ4s :: u8 where "QZ_LZ4s \<equiv> 115"
abbreviation (input) QZ_ZSTD :: u8 where "QZ_ZSTD \<equiv> 90"

abbreviation (input) QZ_DYNAMIC_HDR :: u32 where "QZ_DYNAMIC_HDR \<equiv> 0"
abbreviation (input) QZ_STATIC_HDR :: u32 where "QZ_STATIC_HDR \<equiv> 1"

abbreviation (input) QZ_DIR_COMPRESS :: u32 where "QZ_DIR_COMPRESS \<equiv> 0"
abbreviation (input) QZ_DIR_DECOMPRESS :: u32 where "QZ_DIR_DECOMPRESS \<equiv> 1"
abbreviation (input) QZ_DIR_BOTH :: u32 where "QZ_DIR_BOTH \<equiv> 2"

abbreviation (input) QZ_DEFLATE_4B :: u32 where "QZ_DEFLATE_4B \<equiv> 0"
abbreviation (input) QZ_DEFLATE_GZIP :: u32 where "QZ_DEFLATE_GZIP \<equiv> 1"
abbreviation (input) QZ_DEFLATE_GZIP_EXT :: u32 where "QZ_DEFLATE_GZIP_EXT \<equiv> 2"
abbreviation (input) QZ_DEFLATE_RAW :: u32 where "QZ_DEFLATE_RAW \<equiv> 3"

abbreviation (input) QZ_PERIODICAL_POLLING :: u32 where "QZ_PERIODICAL_POLLING \<equiv> 0"

abbreviation (input) QZ_HW_BUFF_SZ :: u32 where "QZ_HW_BUFF_SZ \<equiv> 65536"
abbreviation (input) QZ_HW_BUFF_MIN_SZ :: u32 where "QZ_HW_BUFF_MIN_SZ \<equiv> 1024"
abbreviation (input) QZ_HW_BUFF_MAX_SZ :: u32 where "QZ_HW_BUFF_MAX_SZ \<equiv> 524288"
abbreviation (input) QZ_STRM_BUFF_MIN_SZ :: u32 where "QZ_STRM_BUFF_MIN_SZ \<equiv> 1024"
abbreviation (input) QZ_STRM_BUFF_MAX_SZ :: u32 where "QZ_STRM_BUFF_MAX_SZ \<equiv> 2092032"
abbreviation (input) QZ_COMP_THRESHOLD_DEFAULT :: u32 where "QZ_COMP_THRESHOLD_DEFAULT \<equiv> 1024"
abbreviation (input) QZ_COMP_THRESHOLD_MINIMUM :: u32 where "QZ_COMP_THRESHOLD_MINIMUM \<equiv> 128"
abbreviation (input) QZ_REQ_THRESHOLD_MINIMUM :: u32 where "QZ_REQ_THRESHOLD_MINIMUM \<equiv> 1"
abbreviation (input) QZ_REQ_THRESHOLD_MAXIMUM :: u32 where "QZ_REQ_THRESHOLD_MAXIMUM \<equiv> 32"
abbreviation (input) QZ_WAIT_CNT_THRESHOLD_DEFAULT :: u32 where "QZ_WAIT_CNT_THRESHOLD_DEFAULT \<equiv> 8"

text \<open>\<open>DEST_SZ\<close>: the destination size for a source block; a macro, so it is evaluated at the
  width of its argument.\<close>

definition DEST_SZ :: "'a::len word \<Rightarrow> 'a word" where
  "DEST_SZ src_sz = (9 * src_sz) div 8 + 1024"

datatype DataFormatInternal =
  DEFLATE_4B | DEFLATE_GZIP | DEFLATE_GZIP_EXT | DEFLATE_RAW | LZ4_FH | LZ4S_BK | DEFLATE_ZLIB

definition IS_DEFLATE_RAW :: "DataFormatInternal \<Rightarrow> bool" where
  "IS_DEFLATE_RAW fmt = (DEFLATE_RAW = fmt)"

definition IS_DEFLATE :: "DataFormatInternal \<Rightarrow> bool" where
  "IS_DEFLATE fmt = (DEFLATE_RAW = fmt \<or> DEFLATE_GZIP = fmt \<or> DEFLATE_GZIP_EXT = fmt \<or>
     DEFLATE_4B = fmt \<or> DEFLATE_ZLIB = fmt)"

section \<open>Results of a hardware request\<close>

text \<open>\<^verbatim>\<open>CpaDcRqResults\<close> is declared by the driver headers; these are the fields the library
  reads.\<close>

record CpaDcRqResults =
  res_status :: int
  produced :: u32
  consumed :: u32
  checksum :: u32
  endOfLastBlock :: bool

section \<open>Session parameters kept by the library\<close>

text \<open>The callback and its argument are opaque pointers (64-bit words, 0 is NULL).\<close>

record QzSessionParamsInternal =
  i_huffman_hdr :: u32
  i_direction :: u32
  i_data_fmt :: DataFormatInternal
  i_comp_lvl :: u32
  i_comp_algorithm :: u8
  i_max_forks :: u32
  i_sw_backup :: u8
  i_hw_buff_sz :: u32
  i_strm_buff_sz :: u32
  i_input_sz_thrshold :: u32
  i_req_cnt_thrshold :: u32
  i_wait_cnt_thrshold :: u32
  i_qzCallback :: u64
  i_qzCallback_external :: u64
  i_polling_mode :: u32
  i_is_sensitive_mode :: u32
  i_lz4s_mini_match :: u32
  i_stop_decompression_stream_end :: u8
  i_zlib_format :: u8

text \<open>\<^verbatim>\<open>calloc\<close>'d parameters: every field zero.\<close>

definition zero_params :: QzSessionParamsInternal where
  "zero_params = \<lparr>i_huffman_hdr = 0, i_direction = 0, i_data_fmt = DEFLATE_4B,
     i_comp_lvl = 0, i_comp_algorithm = 0, i_max_forks = 0, i_sw_backup = 0,
     i_hw_buff_sz = 0, i_strm_buff_sz = 0, i_input_sz_thrshold = 0, i_req_cnt_thrshold = 0,
     i_wait_cnt_thrshold = 0, i_qzCallback = 0, i_qzCallback_external = 0,
     i_polling_mode = 0, i_is_sensitive_mode = 0, i_lz4s_mini_match = 0,
     i_stop_decompression_stream_end = 0, i_zlib_format = 0\<rparr>"

definition g_sess_params_internal_default :: QzSessionParamsInternal where
  "g_sess_params_internal_default = zero_params\<lparr>
     i_huffman_hdr := QZ_DYNAMIC_HDR, i_direction := QZ_DIR_BOTH,
     i_data_fmt := DEFLATE_GZIP_EXT, i_comp_lvl := 1, i_comp_algorithm := QZ_DEFLATE,
     i_max_forks := 3, i_sw_backup := 1, i_hw_buff_sz := QZ_HW_BUFF_SZ,
     i_strm_buff_sz := QZ_HW_BUFF_SZ, i_input_sz_thrshold := QZ_COMP_THRESHOLD_DEFAULT,
     i_req_cnt_thrshold := QZ_REQ_THRESHOLD_MAXIMUM,
     i_wait_cnt_thrshold := QZ_WAIT_CNT_THRESHOLD_DEFAULT,
     i_polling_mode := QZ_PERIODICAL_POLLING, i_lz4s_mini_match := 3,
     i_qzCallback := 0, i_qzCallback_external := 0,
     i_stop_decompression_stream_end := 0, i_zlib_format := 0\<rparr>"

lemma DEST_SZ_32: "unat s \<le> 524288 \<Longrightarrow> unat (DEST_SZ (s :: u32)) = 9 * unat s div 8 + 1024"
proof -
  assume "unat s \<le> 524288"
  then have "unat (9 * s) = 9 * unat s"
    by (simp add: unat_word_ariths)
  with \<open>unat s \<le> 524288\<close> show ?thesis
    by (simp add: DEST_SZ_def unat_word_ariths)
qed

end
