(* ===== verification/Store.thy ===== *)
theory Store
  imports Types
begin

text \<open>
  Memory: a pointer is a block and an offset, a store gives each block its bytes. The blocks are
  the caller's source and destination of one call and the numbered pinned buffers the library
  allocates; two blocks never overlap. An access outside its block is \<open>None\<close>.
\<close>

datatype blk = BSrc | BDest | BPool nat

record ptr =
  p_blk :: blk
  p_off :: nat

type_synonym store = "blk \<Rightarrow> bytes"

abbreviation Ptr :: "blk \<Rightarrow> nat \<Rightarrow> ptr" where "Ptr b n \<equiv> \<lparr>p_blk = b, p_off = n\<rparr>"

definition padd :: "ptr \<Rightarrow> nat \<Rightarrow> ptr" where
  "padd p n = p\<lparr>p_off := p_off p + n\<rparr>"

definition load :: "store \<Rightarrow> ptr \<Rightarrow> nat \<Rightarrow> bytes option" where
  "load m p n = (let b = m (p_blk p) in
     if p_off p + n \<le> length b then Some (take n (drop (p_off p) b)) else None)"

definition put_bytes :: "bytes \<Rightarrow> nat \<Rightarrow> bytes \<Rightarrow> bytes" where
  "put_bytes b i xs = take i b @ xs @ drop (i + length xs) b"

definition store_bytes :: "store \<Rightarrow> ptr \<Rightarrow> bytes \<Rightarrow> store option" where
  "store_bytes m p xs = (let b = m (p_blk p) in
     if p_off p + length xs \<le> length b
     then Some (m(p_blk p := put_bytes b (p_off p) xs)) else None)"

text \<open>\<^verbatim>\<open>QZ_MEMCPY(dest, src, dest_sz, src_sz)\<close> copies the smaller of the two sizes.\<close>

definition QZ_MEMCPY :: "store \<Rightarrow> ptr \<Rightarrow> ptr \<Rightarrow> nat \<Rightarrow> nat \<Rightarrow> store option" where
  "QZ_MEMCPY m d s dest_sz src_sz =
     do { xs \<leftarrow> load m s (min dest_sz src_sz); store_bytes m d xs }"

lemma padd_simps [simp]: "p_blk (padd p n) = p_blk p" "p_off (padd p n) = p_off p + n"
  "padd (padd p a) b = padd p (a + b)" "padd p 0 = p"
  by (simp_all add: padd_def add.assoc)

lemma length_put_bytes [simp]: "i + length xs \<le> length b \<Longrightarrow> length (put_bytes b i xs) = length b"
  by (simp add: put_bytes_def)

lemma take_put_bytes [simp]: "i + length xs \<le> length b \<Longrightarrow>
    take (i + length xs) (put_bytes b i xs) = take i b @ xs"
  by (simp add: put_bytes_def)

lemma drop_put_bytes: "i + length xs \<le> m \<Longrightarrow> i + length xs \<le> length b \<Longrightarrow> drop m (put_bytes b i xs) = drop m b"
  by (simp add: put_bytes_def)

lemma put_bytes_same: "i + length xs \<le> length b \<Longrightarrow>
    take (length xs) (drop i (put_bytes b i xs)) = xs"
  by (simp add: put_bytes_def)

lemma store_bytes_Some: "store_bytes m p xs = Some m' \<longleftrightarrow>
    p_off p + length xs \<le> length (m (p_blk p)) \<and>
    m' = m(p_blk p := put_bytes (m (p_blk p)) (p_off p) xs)"
  by (auto simp: store_bytes_def Let_def)

lemma load_Some: "load m p n = Some xs \<longleftrightarrow>
    p_off p + n \<le> length (m (p_blk p)) \<and> xs = take n (drop (p_off p) (m (p_blk p)))"
  by (auto simp: load_def Let_def)

end
