(* ===== verification/Params.thy ===== *)
theory Params
  imports Types
begin

text \<open>
  Session parameters (\<^verbatim>\<open>src/qatzip_utils.c\<close>, and the defaults interface of \<^verbatim>\<open>src/qatzip.c\<close>):
  the five public parameter structures, their range checks, and the conversions to and from the
  internal structure. The process-wide defaults are the state the \<open>qzSetDefaults\<close> family
  updates.
\<close>

section \<open>Public parameter structures\<close>

record QzSessionParams =
  s_huffman_hdr :: u32
  s_direction :: u32
  s_data_fmt :: u32
  s_comp_lvl :: u32
  s_comp_algorithm :: u8
  s_max_forks :: u32
  s_sw_backup :: u8
  s_hw_buff_sz :: u32
  s_strm_buff_sz :: u32
  s_input_sz_thrshold :: u32
  s_req_cnt_thrshold :: u32
  s_wait_cnt_thrshold :: u32

record QzSessionParamsCommon =
  c_direction :: u32
  c_comp_lvl :: u32
  c_comp_algorithm :: u8
  c_max_forks :: u32
  c_sw_backup :: u8
  c_hw_buff_sz :: u32
  c_strm_buff_sz :: u32
  c_input_sz_thrshold :: u32
  c_req_cnt_thrshold :: u32
  c_wait_cnt_thrshold :: u32
  c_polling_mode :: u32
  c_is_sensitive_mode :: u32

record QzSessionParamsDeflate =
  d_common :: QzSessionParamsCommon
  d_huffman_hdr :: u32
  d_data_fmt :: u32

record QzSessionParamsDeflateExt =
  x_deflate :: QzSessionParamsDeflate
  x_stop_decompression_stream_end :: u8
  x_zlib_format :: u8

record QzSessionParamsLZ4 =
  l_common :: QzSessionParamsCommon

record QzSessionParamsLZ4S =
  z_common :: QzSessionParamsCommon
  z_qzCallback :: u64
  z_qzCallback_external :: u64
  z_lz4s_mini_match :: u32

section \<open>Checks\<close>

definition qzCheckParams :: "QzSessionParams \<Rightarrow> status" where
  "qzCheckParams p =
    (if s_huffman_hdr p > QZ_STATIC_HDR then QZ_PARAMS
     else if s_comp_lvl p < 1 \<or> s_comp_lvl p > 9 then QZ_PARAMS
     else if s_direction p > QZ_DIR_BOTH then QZ_PARAMS
     else if s_comp_algorithm p \<noteq> QZ_DEFLATE then QZ_PARAMS
     else if s_sw_backup p > 1 then QZ_PARAMS
     else if s_hw_buff_sz p < QZ_HW_BUFF_MIN_SZ \<or> s_hw_buff_sz p > QZ_HW_BUFF_MAX_SZ
       then QZ_PARAMS
     else if s_strm_buff_sz p < QZ_STRM_BUFF_MIN_SZ \<or> s_strm_buff_sz p > QZ_STRM_BUFF_MAX_SZ
       then QZ_PARAMS
     else if s_input_sz_thrshold p < QZ_COMP_THRESHOLD_MINIMUM then QZ_PARAMS
     else if s_req_cnt_thrshold p < QZ_REQ_THRESHOLD_MINIMUM \<or>
       s_req_cnt_thrshold p > QZ_REQ_THRESHOLD_MAXIMUM then QZ_PARAMS
     else if s_hw_buff_sz p AND (s_hw_buff_sz p - 1) \<noteq> 0 then QZ_PARAMS
     else QZ_OK)"

definition qzCheckParamsCommon :: "QzSessionParamsCommon \<Rightarrow> status" where
  "qzCheckParamsCommon p =
    (if c_direction p > QZ_DIR_BOTH then QZ_PARAMS
     else if c_comp_algorithm p \<noteq> QZ_DEFLATE \<and> c_comp_algorithm p \<noteq> QZ_LZ4 \<and>
       c_comp_algorithm p \<noteq> QZ_LZ4s \<and> c_comp_algorithm p \<noteq> QZ_ZSTD then QZ_PARAMS
     else if c_sw_backup p > 1 then QZ_PARAMS
     else if c_hw_buff_sz p < QZ_HW_BUFF_MIN_SZ \<or> c_hw_buff_sz p > QZ_HW_BUFF_MAX_SZ
       then QZ_PARAMS
     else if c_strm_buff_sz p < QZ_STRM_BUFF_MIN_SZ \<or> c_strm_buff_sz p > QZ_STRM_BUFF_MAX_SZ
       then QZ_PARAMS
     else if c_input_sz_thrshold p < QZ_COMP_THRESHOLD_MINIMUM then QZ_PARAMS
     else if c_req_cnt_thrshold p < QZ_REQ_THRESHOLD_MINIMUM \<or>
       c_req_cnt_thrshold p > QZ_REQ_THRESHOLD_MAXIMUM then QZ_PARAMS
     else if c_hw_buff_sz p AND (c_hw_buff_sz p - 1) \<noteq> 0 then QZ_PARAMS
     else QZ_OK)"

definition qzCheckParamsDeflate :: "QzSessionParamsDeflate \<Rightarrow> status" where
  "qzCheckParamsDeflate p =
    (if qzCheckParamsCommon (d_common p) \<noteq> QZ_OK then QZ_PARAMS
     else if c_comp_algorithm (d_common p) \<noteq> QZ_DEFLATE then QZ_PARAMS
     else if d_huffman_hdr p > QZ_STATIC_HDR then QZ_PARAMS
     else if c_comp_lvl (d_common p) < 1 \<or> c_comp_lvl (d_common p) > 12 then QZ_PARAMS
     else if d_data_fmt p > QZ_DEFLATE_RAW then QZ_PARAMS
     else QZ_OK)"

definition qzCheckParamsDeflateExt :: "QzSessionParamsDeflateExt \<Rightarrow> status" where
  "qzCheckParamsDeflateExt p =
    (let d = x_deflate p; c = d_common d in
     if qzCheckParamsCommon c \<noteq> QZ_OK then QZ_PARAMS
     else if c_comp_algorithm c \<noteq> QZ_DEFLATE then QZ_PARAMS
     else if d_huffman_hdr d > QZ_STATIC_HDR then QZ_PARAMS
     else if c_comp_lvl c < 1 \<or> c_comp_lvl c > 12 then QZ_PARAMS
     else if x_zlib_format p = 0 \<and> d_data_fmt d > QZ_DEFLATE_RAW then QZ_PARAMS
     else QZ_OK)"

definition qzCheckParamsLZ4 :: "QzSessionParamsLZ4 \<Rightarrow> status" where
  "qzCheckParamsLZ4 p =
    (if qzCheckParamsCommon (l_common p) \<noteq> QZ_OK then QZ_PARAMS
     else if c_comp_algorithm (l_common p) \<noteq> QZ_LZ4 then QZ_PARAMS
     else if c_comp_lvl (l_common p) < 1 \<or> c_comp_lvl (l_common p) > 12 then QZ_PARAMS
     else QZ_OK)"

definition qzCheckParamsLZ4S :: "QzSessionParamsLZ4S \<Rightarrow> status" where
  "qzCheckParamsLZ4S p =
    (if qzCheckParamsCommon (z_common p) \<noteq> QZ_OK then QZ_PARAMS
     else if c_comp_algorithm (z_common p) \<noteq> QZ_LZ4s then QZ_PARAMS
     else if c_direction (z_common p) \<noteq> QZ_DIR_COMPRESS then QZ_PARAMS
     else if c_comp_lvl (z_common p) < 1 \<or> c_comp_lvl (z_common p) > 12 then QZ_PARAMS
     else if z_lz4s_mini_match p < 3 \<or> z_lz4s_mini_match p > 4 then QZ_PARAMS
     else QZ_OK)"

section \<open>Public to internal\<close>

definition fmt_of_public :: "u32 \<Rightarrow> DataFormatInternal" where
  "fmt_of_public f =
    (if f = QZ_DEFLATE_4B then DEFLATE_4B else if f = QZ_DEFLATE_GZIP then DEFLATE_GZIP
     else if f = QZ_DEFLATE_RAW then DEFLATE_RAW else DEFLATE_GZIP_EXT)"

definition qzSetParamsCommon ::
  "QzSessionParamsCommon \<Rightarrow> QzSessionParamsInternal \<Rightarrow> QzSessionParamsInternal" where
  "qzSetParamsCommon p ip = ip\<lparr>
     i_direction := c_direction p, i_comp_lvl := c_comp_lvl p,
     i_comp_algorithm := c_comp_algorithm p, i_max_forks := c_max_forks p,
     i_sw_backup := c_sw_backup p, i_hw_buff_sz := c_hw_buff_sz p,
     i_strm_buff_sz := c_strm_buff_sz p, i_input_sz_thrshold := c_input_sz_thrshold p,
     i_req_cnt_thrshold := c_req_cnt_thrshold p, i_wait_cnt_thrshold := c_wait_cnt_thrshold p,
     i_polling_mode := c_polling_mode p, i_is_sensitive_mode := c_is_sensitive_mode p\<rparr>"

definition qzSetParams ::
  "QzSessionParams \<Rightarrow> QzSessionParamsInternal \<Rightarrow> QzSessionParamsInternal" where
  "qzSetParams p ip = ip\<lparr>
     i_direction := s_direction p, i_comp_lvl := s_comp_lvl p,
     i_comp_algorithm := s_comp_algorithm p, i_max_forks := s_max_forks p,
     i_sw_backup := s_sw_backup p, i_hw_buff_sz := s_hw_buff_sz p,
     i_strm_buff_sz := s_strm_buff_sz p, i_input_sz_thrshold := s_input_sz_thrshold p,
     i_req_cnt_thrshold := s_req_cnt_thrshold p, i_wait_cnt_thrshold := s_wait_cnt_thrshold p,
     i_data_fmt := fmt_of_public (s_data_fmt p), i_huffman_hdr := s_huffman_hdr p\<rparr>"

definition qzSetParamsDeflate ::
  "QzSessionParamsDeflate \<Rightarrow> QzSessionParamsInternal \<Rightarrow> QzSessionParamsInternal" where
  "qzSetParamsDeflate p ip = (qzSetParamsCommon (d_common p) ip)\<lparr>
     i_data_fmt := fmt_of_public (d_data_fmt p), i_huffman_hdr := d_huffman_hdr p\<rparr>"

definition qzSetParamsDeflateExt ::
  "QzSessionParamsDeflateExt \<Rightarrow> QzSessionParamsInternal \<Rightarrow> QzSessionParamsInternal" where
  "qzSetParamsDeflateExt p ip =
    (let ip = qzSetParamsDeflate (x_deflate p) ip;
         ip = (if x_zlib_format p = 1 then ip\<lparr>i_data_fmt := DEFLATE_ZLIB, i_zlib_format := 1\<rparr>
               else ip)
     in ip\<lparr>i_stop_decompression_stream_end := x_stop_decompression_stream_end p\<rparr>)"

definition qzSetParamsLZ4 ::
  "QzSessionParamsLZ4 \<Rightarrow> QzSessionParamsInternal \<Rightarrow> QzSessionParamsInternal" where
  "qzSetParamsLZ4 p ip = (qzSetParamsCommon (l_common p) ip)\<lparr>i_data_fmt := LZ4_FH\<rparr>"

definition qzSetParamsLZ4S ::
  "QzSessionParamsLZ4S \<Rightarrow> QzSessionParamsInternal \<Rightarrow> QzSessionParamsInternal" where
  "qzSetParamsLZ4S p ip = (qzSetParamsCommon (z_common p) ip)\<lparr>i_data_fmt := LZ4S_BK,
     i_qzCallback := z_qzCallback p, i_qzCallback_external := z_qzCallback_external p,
     i_lz4s_mini_match := z_lz4s_mini_match p\<rparr>"

section \<open>Internal to public\<close>

definition fmt_to_public :: "DataFormatInternal \<Rightarrow> u32" where
  "fmt_to_public f =
    (if f = DEFLATE_4B then QZ_DEFLATE_4B else if f = DEFLATE_GZIP then QZ_DEFLATE_GZIP
     else if f = DEFLATE_RAW then QZ_DEFLATE_RAW else QZ_DEFLATE_GZIP_EXT)"

definition qzGetParams :: "QzSessionParamsInternal \<Rightarrow> QzSessionParams" where
  "qzGetParams ip = \<lparr>s_huffman_hdr = i_huffman_hdr ip, s_direction = i_direction ip,
     s_data_fmt = fmt_to_public (i_data_fmt ip), s_comp_lvl = i_comp_lvl ip,
     s_comp_algorithm = i_comp_algorithm ip, s_max_forks = i_max_forks ip,
     s_sw_backup = i_sw_backup ip, s_hw_buff_sz = i_hw_buff_sz ip,
     s_strm_buff_sz = i_strm_buff_sz ip, s_input_sz_thrshold = i_input_sz_thrshold ip,
     s_req_cnt_thrshold = i_req_cnt_thrshold ip, s_wait_cnt_thrshold = i_wait_cnt_thrshold ip\<rparr>"

definition qzGetParamsCommon :: "QzSessionParamsInternal \<Rightarrow> QzSessionParamsCommon" where
  "qzGetParamsCommon ip = \<lparr>c_direction = i_direction ip, c_comp_lvl = i_comp_lvl ip,
     c_comp_algorithm = i_comp_algorithm ip, c_max_forks = i_max_forks ip,
     c_sw_backup = i_sw_backup ip, c_hw_buff_sz = i_hw_buff_sz ip,
     c_strm_buff_sz = i_strm_buff_sz ip, c_input_sz_thrshold = i_input_sz_thrshold ip,
     c_req_cnt_thrshold = i_req_cnt_thrshold ip, c_wait_cnt_thrshold = i_wait_cnt_thrshold ip,
     c_polling_mode = i_polling_mode ip, c_is_sensitive_mode = i_is_sensitive_mode ip\<rparr>"

definition qzGetParamsDeflate :: "QzSessionParamsInternal \<Rightarrow> QzSessionParamsDeflate" where
  "qzGetParamsDeflate ip =
    \<lparr>d_common = (qzGetParamsCommon ip)\<lparr>c_comp_algorithm := QZ_DEFLATE\<rparr>,
     d_huffman_hdr = i_huffman_hdr ip, d_data_fmt = fmt_to_public (i_data_fmt ip)\<rparr>"

text \<open>This getter also writes the structure it reads from.\<close>

definition qzGetParamsDeflateExt ::
  "QzSessionParamsInternal \<Rightarrow> QzSessionParamsDeflateExt \<times> QzSessionParamsInternal" where
  "qzGetParamsDeflateExt ip =
    (let d = qzGetParamsDeflate ip;
         ip = (if i_data_fmt ip = DEFLATE_ZLIB then ip\<lparr>i_zlib_format := 1\<rparr> else ip)
     in (\<lparr>x_deflate = d, x_stop_decompression_stream_end = i_stop_decompression_stream_end ip,
          x_zlib_format = i_zlib_format ip\<rparr>, ip))"

definition qzGetParamsLZ4 :: "QzSessionParamsInternal \<Rightarrow> QzSessionParamsLZ4" where
  "qzGetParamsLZ4 ip =
     \<lparr>l_common = (qzGetParamsCommon ip)\<lparr>c_comp_algorithm := QZ_LZ4\<rparr>\<rparr>"

definition qzGetParamsLZ4S :: "QzSessionParamsInternal \<Rightarrow> QzSessionParamsLZ4S" where
  "qzGetParamsLZ4S ip = \<lparr>
     z_common = (qzGetParamsCommon ip)\<lparr>c_comp_algorithm := QZ_LZ4s, c_direction := QZ_DIR_COMPRESS\<rparr>,
     z_qzCallback = i_qzCallback ip, z_qzCallback_external = i_qzCallback_external ip,
     z_lz4s_mini_match = i_lz4s_mini_match ip\<rparr>"

section \<open>The process-wide defaults\<close>

text \<open>The setters take the parameter (\<open>None\<close> is NULL) and the defaults, and return the code and
  the new defaults; the mutex around the update is not modelled.\<close>

definition qzSetDefaults ::
  "QzSessionParams option \<Rightarrow> QzSessionParamsInternal \<Rightarrow> status \<times> QzSessionParamsInternal" where
  "qzSetDefaults defaults g = (case defaults of None \<Rightarrow> (QZ_PARAMS, g)
    | Some p \<Rightarrow> if qzCheckParams p \<noteq> QZ_OK then (QZ_PARAMS, g) else (QZ_OK, qzSetParams p g))"

definition qzSetDefaultsDeflate ::
  "QzSessionParamsDeflate option \<Rightarrow> QzSessionParamsInternal \<Rightarrow> status \<times> QzSessionParamsInternal"
where
  "qzSetDefaultsDeflate defaults g = (case defaults of None \<Rightarrow> (QZ_PARAMS, g)
    | Some p \<Rightarrow> if qzCheckParamsDeflate p \<noteq> QZ_OK then (QZ_PARAMS, g)
       else (QZ_OK, qzSetParamsDeflate p g))"

definition qzSetDefaultsDeflateExt ::
  "QzSessionParamsDeflateExt option \<Rightarrow> QzSessionParamsInternal \<Rightarrow>
     status \<times> QzSessionParamsInternal" where
  "qzSetDefaultsDeflateExt defaults g = (case defaults of None \<Rightarrow> (QZ_PARAMS, g)
    | Some p \<Rightarrow> if qzCheckParamsDeflateExt p \<noteq> QZ_OK then (QZ_PARAMS, g)
       else (QZ_OK, qzSetParamsDeflateExt p g))"

definition qzSetDefaultsLZ4 ::
  "QzSessionParamsLZ4 option \<Rightarrow> QzSessionParamsInternal \<Rightarrow> status \<times> QzSessionParamsInternal" where
  "qzSetDefaultsLZ4 defaults g = (case defaults of None \<Rightarrow> (QZ_PARAMS, g)
    | Some p \<Rightarrow> if qzCheckParamsLZ4 p \<noteq> QZ_OK then (QZ_PARAMS, g)
       else (QZ_OK, qzSetParamsLZ4 p g))"

definition qzSetDefaultsLZ4S ::
  "QzSessionParamsLZ4S option \<Rightarrow> QzSessionParamsInternal \<Rightarrow> status \<times> QzSessionParamsInternal" where
  "qzSetDefaultsLZ4S defaults g = (case defaults of None \<Rightarrow> (QZ_PARAMS, g)
    | Some p \<Rightarrow> if qzCheckParamsLZ4S p \<noteq> QZ_OK then (QZ_PARAMS, g)
       else (QZ_OK, qzSetParamsLZ4S p g))"

text \<open>The getters: the code, the parameters written to the caller and the defaults after. A
  NULL destination writes nothing, so \<open>present\<close> says whether there is one.\<close>

definition qzGetDefaults ::
  "bool \<Rightarrow> QzSessionParamsInternal \<Rightarrow> status \<times> QzSessionParams option" where
  "qzGetDefaults present g = (if present then (QZ_OK, Some (qzGetParams g)) else (QZ_PARAMS, None))"

definition qzGetDefaultsDeflate ::
  "bool \<Rightarrow> QzSessionParamsInternal \<Rightarrow> status \<times> QzSessionParamsDeflate option" where
  "qzGetDefaultsDeflate present g =
     (if present then (QZ_OK, Some (qzGetParamsDeflate g)) else (QZ_PARAMS, None))"

definition qzGetDefaultsDeflateExt ::
  "bool \<Rightarrow> QzSessionParamsInternal \<Rightarrow>
     status \<times> QzSessionParamsDeflateExt option \<times> QzSessionParamsInternal" where
  "qzGetDefaultsDeflateExt present g =
     (if present then (case qzGetParamsDeflateExt g of (p, g') \<Rightarrow> (QZ_OK, Some p, g'))
      else (QZ_PARAMS, None, g))"

definition qzGetDefaultsLZ4 ::
  "bool \<Rightarrow> QzSessionParamsInternal \<Rightarrow> status \<times> QzSessionParamsLZ4 option" where
  "qzGetDefaultsLZ4 present g =
     (if present then (QZ_OK, Some (qzGetParamsLZ4 g)) else (QZ_PARAMS, None))"

definition qzGetDefaultsLZ4S ::
  "bool \<Rightarrow> QzSessionParamsInternal \<Rightarrow> status \<times> QzSessionParamsLZ4S option" where
  "qzGetDefaultsLZ4S present g =
     (if present then (QZ_OK, Some (qzGetParamsLZ4S g)) else (QZ_PARAMS, None))"

section \<open>The contract between setters, checks and getters\<close>

text \<open>What the session setup relies on: parameters that pass the check and were made the
  defaults are the ones a session created without parameters gets, and they pass again.\<close>

locale param_kind =
  fixes check :: "'p \<Rightarrow> status"
    and valid :: "'p \<Rightarrow> bool"
    and set_p :: "'p \<Rightarrow> QzSessionParamsInternal \<Rightarrow> QzSessionParamsInternal"
    and get_p :: "QzSessionParamsInternal \<Rightarrow> 'p"
  assumes valid_check: "valid p \<Longrightarrow> check p = QZ_OK"
    and get_set: "valid p \<Longrightarrow> get_p (set_p p g) = p"
begin

lemma defaults_pass: "valid p \<Longrightarrow> check (get_p (set_p p g)) = QZ_OK"
  by (simp add: get_set valid_check)

lemma last_set_wins: "valid q \<Longrightarrow> get_p (set_p q (set_p p g)) = q"
  by (simp add: get_set)

lemma set_again: "valid p \<Longrightarrow> get_p (set_p (get_p (set_p p g)) h) = p"
  by (simp add: get_set)

end

definition valid_params :: "QzSessionParams \<Rightarrow> bool" where
  "valid_params p \<longleftrightarrow> qzCheckParams p = QZ_OK \<and> s_data_fmt p \<le> QZ_DEFLATE_RAW"

lemma fmt_roundtrip: "f \<le> QZ_DEFLATE_RAW \<Longrightarrow> fmt_to_public (fmt_of_public f) = f"
proof -
  assume "f \<le> 3"
  then have "unat f \<le> 3" by (simp add: word_le_nat_alt)
  then have "f = 0 \<or> f = 1 \<or> f = 2 \<or> f = 3"
    unfolding word_eq_iff_unsigned [where ?'a = nat] by auto
  then show ?thesis by (auto simp: fmt_of_public_def fmt_to_public_def)
qed

lemma common_roundtrip: "qzGetParamsCommon (qzSetParamsCommon c g) = c"
  by (simp add: qzGetParamsCommon_def qzSetParamsCommon_def)

lemmas set_params_defs = qzSetParams_def qzSetParamsCommon_def qzSetParamsDeflate_def
  qzSetParamsDeflateExt_def qzSetParamsLZ4_def qzSetParamsLZ4S_def
lemmas get_params_defs = qzGetParams_def qzGetParamsCommon_def qzGetParamsDeflate_def
  qzGetParamsDeflateExt_def qzGetParamsLZ4_def qzGetParamsLZ4S_def

interpretation plain: param_kind qzCheckParams valid_params qzSetParams qzGetParams
  by unfold_locales
     (auto simp: valid_params_def qzSetParams_def qzGetParams_def fmt_roundtrip)

interpretation deflate: param_kind qzCheckParamsDeflate
  "\<lambda>p. qzCheckParamsDeflate p = QZ_OK" qzSetParamsDeflate qzGetParamsDeflate
proof
  fix p g
  assume ok: "qzCheckParamsDeflate p = QZ_OK"
  then have "d_data_fmt p \<le> QZ_DEFLATE_RAW" "c_comp_algorithm (d_common p) = QZ_DEFLATE"
    by (auto simp: qzCheckParamsDeflate_def split: if_splits)
  then show "qzGetParamsDeflate (qzSetParamsDeflate p g) = p"
    by (simp add: set_params_defs get_params_defs fmt_roundtrip)
qed

interpretation lz4: param_kind qzCheckParamsLZ4
  "\<lambda>p. qzCheckParamsLZ4 p = QZ_OK" qzSetParamsLZ4 qzGetParamsLZ4
proof
  fix p g
  assume "qzCheckParamsLZ4 p = QZ_OK"
  then have "c_comp_algorithm (l_common p) = QZ_LZ4"
    by (auto simp: qzCheckParamsLZ4_def split: if_splits)
  then show "qzGetParamsLZ4 (qzSetParamsLZ4 p g) = p"
    by (simp add: set_params_defs get_params_defs)
qed

interpretation lz4s: param_kind qzCheckParamsLZ4S
  "\<lambda>p. qzCheckParamsLZ4S p = QZ_OK" qzSetParamsLZ4S qzGetParamsLZ4S
proof
  fix p g
  assume "qzCheckParamsLZ4S p = QZ_OK"
  then have "c_comp_algorithm (z_common p) = QZ_LZ4s" "c_direction (z_common p) = QZ_DIR_COMPRESS"
    by (auto simp: qzCheckParamsLZ4S_def split: if_splits)
  then show "qzGetParamsLZ4S (qzSetParamsLZ4S p g) = p"
    by (simp add: set_params_defs get_params_defs)
qed

section \<open>Properties\<close>

lemma hw_buff_pow2:
  fixes w :: u32
  assumes "QZ_HW_BUFF_MIN_SZ \<le> w" and "w \<le> QZ_HW_BUFF_MAX_SZ"
  shows "(w AND (w - 1) = 0) \<longleftrightarrow> (\<exists>k \<in> {10..19}. unat w = 2 ^ k)"
proof -
  have r: "1024 \<le> unat w" "unat w \<le> 524288" using assms by (simp_all add: word_le_nat_alt)
  then have "w \<noteq> 0" by auto
  moreover have "k \<in> {10..19}" if "unat w = 2 ^ k" for k
  proof -
    have "\<not> k < 10"
    proof
      assume "k < 10"
      then have "(2 :: nat) ^ k < 2 ^ 10" by (intro power_strict_increasing) simp_all
      then show False using r(1) that by simp
    qed
    moreover have "\<not> 19 < k"
    proof
      assume "19 < k"
      then have "(2 :: nat) ^ 19 < 2 ^ k" by (intro power_strict_increasing) simp_all
      then show False using r(2) that by simp
    qed
    ultimately show ?thesis by simp
  qed
  ultimately show ?thesis using and_pred_word by blast
qed

text \<open>C34: The deflate parameter check accepts exactly the ranges of the code's macros: an enumerated direction, the deflate
  algorithm, a software-backup flag of 0 or 1, a hardware buffer of \<open>2^k\<close> bytes with
  10 <= k <= 19 (1 KB to 512 KB), a stream buffer in range, a threshold of at least 128, 1 to 32
  requests, an enumerated Huffman type and format and a level from 1 to 12. The comments of \<^verbatim>\<open>qatzip.h\<close>
  say otherwise: levels from 1 to 9, hardware buffers from 4 KB to 128 KB, and a field of bits for the backup.\<close>

theorem qzCheckParamsDeflate_iff:
  "qzCheckParamsDeflate p = QZ_OK \<longleftrightarrow>
     (let c = d_common p in
       unat (c_direction c) \<le> 2 \<and> c_comp_algorithm c = QZ_DEFLATE \<and> unat (c_sw_backup c) \<le> 1 \<and>
       (\<exists>k \<in> {10..19}. unat (c_hw_buff_sz c) = 2 ^ k) \<and>
       unat (c_strm_buff_sz c) \<in> {1024..2092032} \<and> 128 \<le> unat (c_input_sz_thrshold c) \<and>
       unat (c_req_cnt_thrshold c) \<in> {1..32} \<and> unat (d_huffman_hdr p) \<le> 1 \<and>
       unat (c_comp_lvl c) \<in> {1..12} \<and> unat (d_data_fmt p) \<le> 3)"
proof -
  let ?c = "d_common p"
  have pow: "(\<exists>k \<in> {10..19}. unat (c_hw_buff_sz ?c) = 2 ^ k) \<longleftrightarrow>
      1024 \<le> c_hw_buff_sz ?c \<and> c_hw_buff_sz ?c \<le> 524288 \<and>
      c_hw_buff_sz ?c AND (c_hw_buff_sz ?c - 1) = 0"
  proof
    assume ex: "\<exists>k \<in> {10..19}. unat (c_hw_buff_sz ?c) = 2 ^ k"
    then obtain k where k: "10 \<le> k" "k \<le> 19" "unat (c_hw_buff_sz ?c) = 2 ^ k" by auto
    have "(2 :: nat) ^ 10 \<le> 2 ^ k" "(2 :: nat) ^ k \<le> 2 ^ 19"
      using k(1,2) by (simp_all only: power_increasing_iff)
    then have "1024 \<le> c_hw_buff_sz ?c" "c_hw_buff_sz ?c \<le> 524288"
      using k(3) by (simp_all add: word_le_nat_alt)
    then show "1024 \<le> c_hw_buff_sz ?c \<and> c_hw_buff_sz ?c \<le> 524288 \<and>
        c_hw_buff_sz ?c AND (c_hw_buff_sz ?c - 1) = 0"
      using hw_buff_pow2 ex by blast
  qed (use hw_buff_pow2 in blast)
  show ?thesis
    unfolding Let_def pow
    by (auto simp: qzCheckParamsDeflate_def qzCheckParamsCommon_def word_less_nat_alt
        word_le_nat_alt not_less split: if_splits)
qed

text \<open>Parameters accepted by \<open>qzSetDefaultsDeflate\<close> are exactly what
  \<open>qzGetDefaultsDeflate\<close> returns, whatever the defaults were before, and they pass the check of
  a session set up without parameters.\<close>

theorem deflate_defaults_roundtrip:
  assumes "qzSetDefaultsDeflate (Some p) g = (QZ_OK, g')"
  shows "qzGetDefaultsDeflate True g' = (QZ_OK, Some p) \<and>
         qzCheckParamsDeflate (qzGetParamsDeflate g') = QZ_OK"
proof -
  have ok: "qzCheckParamsDeflate p = QZ_OK" and g': "g' = qzSetParamsDeflate p g"
    using assms by (auto simp: qzSetDefaultsDeflate_def split: if_splits)
  show ?thesis
    using deflate.get_set [OF ok] deflate.defaults_pass [OF ok] g'
    by (simp add: qzGetDefaultsDeflate_def)
qed

definition deflate_example :: QzSessionParamsDeflate where
  "deflate_example = \<lparr>d_common = \<lparr>c_direction = 2, c_comp_lvl = 1, c_comp_algorithm = 8,
     c_max_forks = 3, c_sw_backup = 1, c_hw_buff_sz = 65536, c_strm_buff_sz = 65536,
     c_input_sz_thrshold = 1024, c_req_cnt_thrshold = 32, c_wait_cnt_thrshold = 8,
     c_polling_mode = 0, c_is_sensitive_mode = 0\<rparr>, d_huffman_hdr = 0, d_data_fmt = 2\<rparr>"

theorem deflate_defaults_roundtrip_witness:
  "qzGetDefaultsDeflate True (qzSetParamsDeflate deflate_example zero_params)
     = (QZ_OK, Some deflate_example)"
proof -
  have "qzSetDefaultsDeflate (Some deflate_example) zero_params
      = (QZ_OK, qzSetParamsDeflate deflate_example zero_params)"
    by (simp add: qzSetDefaultsDeflate_def qzCheckParamsDeflate_def qzCheckParamsCommon_def
        deflate_example_def)
  from deflate_defaults_roundtrip [OF this] show ?thesis by simp
qed

text \<open>The zlib flag of the defaults cannot be taken back: after the extended defaults were set
  once with \<open>zlib_format = 1\<close>, setting valid extended defaults with \<open>zlib_format = 0\<close> succeeds,
  but the defaults read back still have it set.\<close>

theorem deflate_ext_zlib_sticky:
  assumes "qzSetDefaultsDeflateExt (Some p) g = (QZ_OK, g1)" and "x_zlib_format p = 1"
    and "qzSetDefaultsDeflateExt (Some q) g1 = (QZ_OK, g2)" and "x_zlib_format q = 0"
  shows "\<exists>r g3. qzGetDefaultsDeflateExt True g2 = (QZ_OK, Some r, g3) \<and> x_zlib_format r = 1"
proof -
  have g1: "g1 = qzSetParamsDeflateExt p g" and g2: "g2 = qzSetParamsDeflateExt q g1"
    using assms(1,3) by (auto simp: qzSetDefaultsDeflateExt_def split: if_splits)
  have "i_zlib_format g2 = 1"
    using assms(2,4) by (simp add: g1 g2 set_params_defs Let_def)
  then show ?thesis
    by (simp add: qzGetDefaultsDeflateExt_def qzGetParamsDeflateExt_def Let_def)
qed

definition deflate_ext_example :: "u8 \<Rightarrow> QzSessionParamsDeflateExt" where
  "deflate_ext_example z = \<lparr>x_deflate = deflate_example, x_stop_decompression_stream_end = 0,
     x_zlib_format = z\<rparr>"

theorem deflate_ext_zlib_sticky_witness:
  "\<exists>r g3. qzGetDefaultsDeflateExt True (qzSetParamsDeflateExt (deflate_ext_example 0)
     (qzSetParamsDeflateExt (deflate_ext_example 1) zero_params)) = (QZ_OK, Some r, g3) \<and>
     x_zlib_format r = 1"
proof -
  have ok: "qzSetDefaultsDeflateExt (Some (deflate_ext_example z)) g
      = (QZ_OK, qzSetParamsDeflateExt (deflate_ext_example z) g)" for z g
    by (simp add: qzSetDefaultsDeflateExt_def qzCheckParamsDeflateExt_def Let_def
        qzCheckParamsCommon_def deflate_ext_example_def deflate_example_def)
  show ?thesis
    by (rule deflate_ext_zlib_sticky [OF ok _ ok]) (simp_all add: deflate_ext_example_def)
qed

end
