(* ===== verification/Metrix.thy ===== *)
theory Metrix
  imports Types
begin

text \<open>
  The latency statistics of the latency sensitive mode (\<^verbatim>\<open>src/qatzip_utils.c\<close>,
  \<^verbatim>\<open>LatencyMetrix_T\<close>): a ring of the last 64 latencies with their running total and average.
  The abstract view is the window of the last 64 values, oldest first; every update shifts it.
  The fields that exist only in a debug build extend the record.
\<close>

abbreviation (input) lsm_met_len_shift :: nat where "lsm_met_len_shift \<equiv> 6"
abbreviation (input) lsm_sw_met_seed :: u64 where "lsm_sw_met_seed \<equiv> 1000"

definition LSM_MET_DEPTH :: nat where "LSM_MET_DEPTH = push_bit lsm_met_len_shift 1"

record LatencyMetrix =
  latency_array :: "u64 list option"
  arr_idx :: nat
  arr_total :: u64
  arr_avg :: u64
  invoke_counter :: u64

record LatencyMetrixDebug = LatencyMetrix +
  sess_lat_total :: u64
  sess_lat_avg :: u64
  max_latency :: u64
  min_latency :: u64
  max_cnt :: u64
  min_cnt :: u64

text \<open>\<open>alloc\<close> says whether the \<^verbatim>\<open>calloc\<close> of the array succeeds; without an array the loop
  that clears it dereferences NULL.\<close>

definition metrixReset :: "bool \<Rightarrow> 'a LatencyMetrix_scheme \<Rightarrow> 'a LatencyMetrix_scheme option" where
  "metrixReset alloc m =
    (case (case latency_array m of
             None \<Rightarrow> if alloc then Some (replicate LSM_MET_DEPTH 0) else None
           | Some a \<Rightarrow> Some a) of
       None \<Rightarrow> None
     | Some a \<Rightarrow> Some (m\<lparr>latency_array := Some (replicate LSM_MET_DEPTH 0),
                      arr_total := 0, arr_avg := 0, arr_idx := 0\<rparr>))"

definition metrixUpdate :: "'a LatencyMetrix_scheme \<Rightarrow> u64 \<Rightarrow> 'a LatencyMetrix_scheme option" where
  "metrixUpdate m val =
    (case latency_array m of
       None \<Rightarrow> None
     | Some a \<Rightarrow>
         if length a \<le> arr_idx m then None
         else
           let total = arr_total m - a ! arr_idx m + val;
               idx = arr_idx m + 1
           in Some (m\<lparr>latency_array := Some (a[arr_idx m := val]),
                arr_total := total, arr_avg := drop_bit lsm_met_len_shift total,
                arr_idx := (if idx \<ge> LSM_MET_DEPTH then 0 else idx),
                invoke_counter := (if val \<noteq> 0 then invoke_counter m + 1 else invoke_counter m)\<rparr>))"

text \<open>The part of an update that only a debug build has.\<close>

definition metrixUpdate_debug :: "LatencyMetrixDebug \<Rightarrow> u64 \<Rightarrow> LatencyMetrixDebug option" where
  "metrixUpdate_debug m0 val =
    (case metrixUpdate m0 val of
       None \<Rightarrow> None
     | Some m \<Rightarrow>
        let m = m\<lparr>sess_lat_total := sess_lat_total m + val\<rparr>;
            m = (if invoke_counter m \<noteq> 0
                 then m\<lparr>sess_lat_avg := sess_lat_total m div invoke_counter m\<rparr> else m);
            m = (if val < min_latency m
                 then m\<lparr>min_latency := val, min_cnt := invoke_counter m\<rparr> else m)
        in Some (if val > min_latency m
                 then m\<lparr>max_latency := val, max_cnt := invoke_counter m\<rparr> else m))"

datatype LSM_path = LSM_QAT | LSM_SW

text \<open>The choice of the path, from the software, round trip and post-processing statistics.\<close>

definition chooseLSMPath ::
  "'a LatencyMetrix_scheme \<Rightarrow> 'a LatencyMetrix_scheme \<Rightarrow> 'a LatencyMetrix_scheme \<Rightarrow> LSM_path" where
  "chooseLSMPath SWT RRT PPT = (if arr_avg SWT < arr_avg RRT + arr_avg PPT then LSM_SW else LSM_QAT)"

section \<open>The window of the last latencies\<close>

definition metrix_ok :: "'a LatencyMetrix_scheme \<Rightarrow> bool" where
  "metrix_ok m \<longleftrightarrow> (case latency_array m of None \<Rightarrow> False
     | Some a \<Rightarrow> length a = 64 \<and> arr_idx m < 64 \<and> arr_total m = sum_list a \<and>
         arr_avg m = drop_bit 6 (arr_total m))"

definition metrix_ok_len :: "'a LatencyMetrix_scheme \<Rightarrow> bool" where
  "metrix_ok_len m \<longleftrightarrow> (case latency_array m of None \<Rightarrow> False | Some a \<Rightarrow> arr_idx m < length a)"

definition window :: "'a LatencyMetrix_scheme \<Rightarrow> u64 list" where
  "window m = (case latency_array m of None \<Rightarrow> [] | Some a \<Rightarrow> rotate (arr_idx m) a)"

lemma depth [simp]: "LSM_MET_DEPTH = 64"
  by (simp add: LSM_MET_DEPTH_def)

lemma metrixReset_ok: "metrixReset True m = Some m' \<Longrightarrow>
    metrix_ok m' \<and> window m' = replicate 64 0"
  by (auto simp: metrixReset_def metrix_ok_def window_def sum_list_replicate split: option.splits)

lemma sum_list_upd: "i < length a \<Longrightarrow> sum_list (a[i := v]) = sum_list a - a ! i + (v :: u64)"
  by (induction a arbitrary: i) (auto split: nat.splits simp: algebra_simps)

lemma sum_list_rotate [simp]: "sum_list (rotate n b) = sum_list (b :: u64 list)"
proof -
  let ?k = "n mod length b"
  have "sum_list (rotate n b) = sum_list (drop ?k b) + sum_list (take ?k b)"
    by (simp add: rotate_drop_take)
  also have "\<dots> = sum_list (take ?k b @ drop ?k b)" by (simp only: sum_list_append add.commute)
  finally show ?thesis by simp
qed

lemma rotate_push: "i < length a \<Longrightarrow>
    rotate (Suc i) (a[i := v]) = tl (rotate i a) @ [v]"
proof -
  assume i: "i < length a"
  have "rotate i (a[i := v]) = v # drop (Suc i) a @ take i a"
    using i by (simp add: rotate_drop_take drop_update_cancel Cons_nth_drop_Suc [symmetric]
        upd_conv_take_nth_drop)
  moreover have "rotate i a = a ! i # drop (Suc i) a @ take i a"
    using i by (simp add: rotate_drop_take Cons_nth_drop_Suc [symmetric])
  ultimately show ?thesis by simp
qed

lemma metrixUpdate_ok:
  assumes "metrix_ok m"
  shows "\<exists>m'. metrixUpdate m v = Some m' \<and> metrix_ok m' \<and> window m' = tl (window m) @ [v]"
proof -
  obtain a where a: "latency_array m = Some a" "length a = 64" "arr_idx m < 64"
    "arr_total m = sum_list a"
    using assms by (auto simp: metrix_ok_def split: option.splits)
  have sum: "arr_total m - a ! arr_idx m + v = sum_list (a[arr_idx m := v])"
    using a by (simp add: sum_list_upd)
  have rot: "(if 64 \<le> Suc (arr_idx m) then b else rotate (Suc (arr_idx m)) b) =
      rotate (Suc (arr_idx m)) b" if "length b = 64" for b :: "u64 list"
  proof (cases "64 \<le> Suc (arr_idx m)")
    case True
    then have "Suc (arr_idx m) = length b" using that a(3) by simp
    then have "rotate (Suc (arr_idx m)) b = b" by (intro rotate_id) simp
    then show ?thesis using True by simp
  qed simp
  have w: "(case if 64 \<le> Suc (arr_idx m) then 0 else Suc (arr_idx m) of n \<Rightarrow> rotate n (a[arr_idx m := v]))
      = tl (rotate (arr_idx m) a) @ [v]"
    using rot [of "a[arr_idx m := v]"] rotate_push [of "arr_idx m" a v] a(2,3)
    by (auto split: if_splits)
  show ?thesis
    using a sum w by (simp add: metrixUpdate_def Let_def metrix_ok_def window_def)
qed

text \<open>Pushing several values.\<close>

fun metrixUpdates :: "'a LatencyMetrix_scheme \<Rightarrow> u64 list \<Rightarrow> 'a LatencyMetrix_scheme option" where
  "metrixUpdates m [] = Some m"
| "metrixUpdates m (v # vs) = (case metrixUpdate m v of None \<Rightarrow> None | Some m' \<Rightarrow> metrixUpdates m' vs)"

lemma metrixUpdates_window:
  "metrix_ok m \<Longrightarrow> \<exists>m'. metrixUpdates m vs = Some m' \<and> metrix_ok m' \<and>
     window m' = drop (length vs) (window m @ vs)"
proof (induction vs arbitrary: m)
  case (Cons v vs)
  obtain m1 where m1: "metrixUpdate m v = Some m1" "metrix_ok m1" "window m1 = tl (window m) @ [v]"
    using metrixUpdate_ok [OF Cons.prems] by blast
  obtain m' where m': "metrixUpdates m1 vs = Some m'" "metrix_ok m'"
    "window m' = drop (length vs) (window m1 @ vs)"
    using Cons.IH [OF m1(2)] by blast
  have "window m \<noteq> []"
    using Cons.prems by (auto simp: metrix_ok_def window_def split: option.splits)
  then obtain x xs where "window m = x # xs" by (cases "window m") auto
  then show ?case using m1 m' by simp
qed simp

section \<open>Properties\<close>

text \<open>C39: After any sequence of updates on statistics that were reset, the running total, which the
  code keeps by subtracting the value that is overwritten, is the sum of the last 64 values (zeros
  before the first ones), and the average is its 64th by a shift: the ring index never leaves
  the array.\<close>

theorem metrix_window_total:
  assumes "metrixReset True m = Some m0"
  shows "\<exists>m'. metrixUpdates m0 vs = Some m' \<and>
           arr_total m' = sum_list (drop (length vs) (replicate 64 0 @ vs)) \<and>
           arr_avg m' = drop_bit 6 (arr_total m')"
proof -
  have ok: "metrix_ok m0" "window m0 = replicate 64 0"
    using metrixReset_ok assms by blast+
  obtain m' where m': "metrixUpdates m0 vs = Some m'" "metrix_ok m'"
    "window m' = drop (length vs) (replicate 64 0 @ vs)"
    using metrixUpdates_window [OF ok(1)] ok(2) by metis
  have "arr_total m' = sum_list (window m') \<and> arr_avg m' = drop_bit 6 (arr_total m')"
    using m'(2) by (auto simp: metrix_ok_def window_def split: option.splits)
  then show ?thesis using m' by simp
qed

theorem metrix_window_total_witness:
  "\<exists>m'. metrixUpdates (\<lparr>latency_array = Some (replicate 64 0), arr_idx = 0, arr_total = 0,
     arr_avg = 0, invoke_counter = 7\<rparr>) [5, 6] = Some m' \<and>
     arr_total m' = sum_list (drop (length [5, 6 :: u64]) (replicate 64 0 @ [5, 6])) \<and>
     arr_avg m' = drop_bit 6 (arr_total m')"
  by (rule metrix_window_total [of "\<lparr>latency_array = None, arr_idx = 3, arr_total = 9,
     arr_avg = 0, invoke_counter = 7\<rparr>"]) (simp add: metrixReset_def)

text \<open>The seed of the software latency is lost at once: \<open>qzSetupSessionInternal\<close> resets the
  statistics and sets the average to the seed, but the total stays 0, so the first measured
  software latency replaces the average by a 64th of itself.\<close>

theorem metrix_seed_lost:
  assumes "metrixReset True m = Some m0"
  shows "\<exists>m'. metrixUpdate (m0\<lparr>arr_avg := lsm_sw_met_seed\<rparr>) v = Some m' \<and>
           arr_avg m' = drop_bit 6 v"
  using assms by (auto simp: metrixReset_def metrixUpdate_def Let_def split: option.splits)

theorem metrix_seed_lost_witness:
  "\<exists>m'. metrixUpdate (\<lparr>latency_array = Some (replicate 64 0), arr_idx = 0, arr_total = 0,
     arr_avg = 1000, invoke_counter = 0\<rparr>) 6400 = Some m' \<and> arr_avg m' = drop_bit 6 6400"
proof -
  let ?m = "\<lparr>latency_array = None, arr_idx = 0, arr_total = 0, arr_avg = 0, invoke_counter = 0\<rparr>"
  have "metrixReset True ?m = Some (?m\<lparr>latency_array := Some (replicate 64 0)\<rparr>)"
    by (simp add: metrixReset_def)
  from metrix_seed_lost [OF this, of 6400] show ?thesis by simp
qed

text \<open>In a debug build the recorded maximum latency is not the maximum: a smaller latency
  after a larger one overwrites it, because the comparison is with the minimum.\<close>

theorem metrix_debug_max_wrong:
  assumes "metrix_ok m" and "min_latency m \<le> v" and "min_latency m < w" and "w < v"
  shows "\<exists>m1 m2. metrixUpdate_debug m v = Some m1 \<and> metrixUpdate_debug m1 w = Some m2 \<and>
           max_latency m2 = w"
proof -
  obtain a where a: "latency_array m = Some a" "length a = 64" "arr_idx m < 64"
    using assms(1) by (auto simp: metrix_ok_def split: option.splits)
  have lt: "min_latency m < v" "\<not> v < min_latency m" "\<not> w < min_latency m"
    "min_latency m \<noteq> w" "min_latency m = 0 \<longrightarrow> w \<noteq> 0"
    using assms by auto
  obtain m1 where m1: "metrixUpdate_debug m v = Some m1" "metrix_ok_len m1"
    "min_latency m1 = min_latency m"
    using a lt by (simp add: metrixUpdate_debug_def metrixUpdate_def Let_def metrix_ok_len_def)
  then obtain b where b: "latency_array m1 = Some b" "arr_idx m1 < length b"
    by (auto simp: metrix_ok_len_def split: option.splits)
  then show ?thesis
    using m1 lt assms(3) by (simp add: metrixUpdate_debug_def [of m1] metrixUpdate_def Let_def)
qed

definition metrix_debug_example :: LatencyMetrixDebug where
  "metrix_debug_example = \<lparr>latency_array = Some (replicate 64 0), arr_idx = 0, arr_total = 0,
     arr_avg = 0, invoke_counter = 0, sess_lat_total = 0, sess_lat_avg = 0, max_latency = 0,
     min_latency = 0, max_cnt = 0, min_cnt = 0\<rparr>"

theorem metrix_debug_max_wrong_witness:
  "\<exists>m1 m2. metrixUpdate_debug metrix_debug_example 9 = Some m1 \<and>
     metrixUpdate_debug m1 2 = Some m2 \<and> max_latency m2 = 2"
  by (rule metrix_debug_max_wrong) (simp_all add: metrix_debug_example_def metrix_ok_def sum_list_replicate)

end
