(* ===== verification/Session.thy ===== *)
theory Session
  imports Store Params Metrix
begin

text \<open>
  Sessions: the public \<^verbatim>\<open>QzSession_T\<close>, the internal \<^verbatim>\<open>QzSess_T\<close> behind it, their setup for the five
  parameter kinds, teardown and the small queries (\<^verbatim>\<open>src/qatzip.c\<close>, \<^verbatim>\<open>src/qatzip_utils.c\<close>). The
  allocations a session may own are tracked in a set, so that leaks are visible. The states of
  zlib and of the LZ4 library are opaque and are identified by numbers.
\<close>

section \<open>The setup data handed to the driver\<close>

text \<open>The enumerators are the driver's; \<open>None\<close> is a field still zero from \<^verbatim>\<open>calloc\<close>.\<close>

datatype CpaDcCompType = CPA_DC_DEFLATE | CPA_DC_LZ4 | CPA_DC_LZ4S
datatype CpaDcChecksum = CPA_DC_CRC32 | CPA_DC_ADLER32 | CPA_DC_XXHASH32
datatype CpaDcHuffType = CPA_DC_HT_STATIC | CPA_DC_HT_FULL_DYNAMIC
datatype CpaDcSessionDir = CPA_DC_DIR_COMPRESS | CPA_DC_DIR_DECOMPRESS | CPA_DC_DIR_COMBINED
datatype CpaDcMinMatch = CPA_DC_MIN_3_BYTE_MATCH | CPA_DC_MIN_4_BYTE_MATCH

record CpaDcSessionSetupData =
  compLevel :: u32
  compType :: "CpaDcCompType option"
  checksumType :: "CpaDcChecksum option"
  autoSelectBestHuffmanTree :: bool
  huffType :: "CpaDcHuffType option"
  lz4BlockMaxSize_64K :: bool
  minMatch :: "CpaDcMinMatch option"
  sessDirection :: "CpaDcSessionDir option"
  sessState_stateless :: bool
  windowSize :: u32

definition zero_setup :: CpaDcSessionSetupData where
  "zero_setup = \<lparr>compLevel = 0, compType = None, checksumType = None,
     autoSelectBestHuffmanTree = False, huffType = None, lz4BlockMaxSize_64K = False,
     minMatch = None, sessDirection = None, sessState_stateless = False, windowSize = 0\<rparr>"

text \<open>\<open>api31\<close>: the driver's API version is at least 3.1 (a build-time condition).\<close>

definition qzSetupDcSessionData ::
  "bool \<Rightarrow> CpaDcSessionSetupData \<Rightarrow> QzSessionParamsInternal \<Rightarrow> status \<times> CpaDcSessionSetupData" where
  "qzSetupDcSessionData api31 d p =
    (let d = d\<lparr>compLevel := i_comp_lvl p\<rparr>;
         fin = (\<lambda>d. (QZ_OK, d\<lparr>sessDirection := Some (
                    if i_direction p = QZ_DIR_COMPRESS then CPA_DC_DIR_COMPRESS
                    else if i_direction p = QZ_DIR_DECOMPRESS then CPA_DC_DIR_DECOMPRESS
                    else CPA_DC_DIR_COMBINED),
                  sessState_stateless := True, windowSize := 7\<rparr>))
     in case i_data_fmt p of
          LZ4_FH \<Rightarrow>
            if api31 then fin (d\<lparr>compType := Some CPA_DC_LZ4, checksumType := Some CPA_DC_XXHASH32,
                                 lz4BlockMaxSize_64K := True\<rparr>)
            else (QZ_UNSUPPORTED_FMT, d)
        | LZ4S_BK \<Rightarrow>
            if api31 then fin (d\<lparr>compType := Some CPA_DC_LZ4S, checksumType := Some CPA_DC_XXHASH32,
                                 minMatch := Some (if i_lz4s_mini_match p = 4
                                   then CPA_DC_MIN_4_BYTE_MATCH else CPA_DC_MIN_3_BYTE_MATCH)\<rparr>)
            else (QZ_UNSUPPORTED_FMT, d)
        | fmt \<Rightarrow>
            fin (d\<lparr>compType := Some CPA_DC_DEFLATE,
                   checksumType := Some (if fmt = DEFLATE_ZLIB then CPA_DC_ADLER32 else CPA_DC_CRC32),
                   autoSelectBestHuffmanTree := True,
                   huffType := Some (if i_huffman_hdr p = QZ_DYNAMIC_HDR
                     then CPA_DC_HT_FULL_DYNAMIC else CPA_DC_HT_STATIC)\<rparr>))"

section \<open>The session structures\<close>

datatype InflateState = InflateError | InflateNull | InflateInited | InflateOK | InflateEnd
datatype DeflateState = DeflateNull | DeflateInited

record QzSess =
  inst_hint :: int
  sess_params :: QzSessionParamsInternal
  session_setup_data :: CpaDcSessionSetupData
  submitted :: int
  processed :: int
  last_submitted :: bool
  last_processed :: bool
  stop_submitting :: bool
  seq :: int
  seq_in :: int
  src :: ptr
  sess_src_sz :: u32
  sess_dest_sz :: u32
  next_dest :: ptr
  force_sw :: bool
  inflate_stat :: InflateState
  inflate_strm :: "nat option"
  qz_in_len :: u64
  qz_out_len :: u64
  sess_crc :: "u64 option"
  sess_last :: bool
  single_thread :: bool
  polling_idx :: nat
  deflate_strm :: "nat option"
  deflate_stat :: DeflateState
  dctx :: "nat option"
  qzdeflateExtData :: "u8 option"
  RRT :: LatencyMetrix
  PPT :: LatencyMetrix
  SWT :: LatencyMetrix
  async_ctrl :: bool

definition zero_metrix :: LatencyMetrix where
  "zero_metrix = \<lparr>latency_array = None, arr_idx = 0, arr_total = 0, arr_avg = 0,
     invoke_counter = 0\<rparr>"

text \<open>\<^verbatim>\<open>calloc(1, sizeof(QzSess_T))\<close>\<close>

definition zero_sess :: QzSess where
  "zero_sess = \<lparr>inst_hint = 0, sess_params = zero_params, session_setup_data = zero_setup,
     submitted = 0, processed = 0, last_submitted = False, last_processed = False,
     stop_submitting = False, seq = 0, seq_in = 0, src = Ptr BSrc 0, sess_src_sz = 0,
     sess_dest_sz = 0, next_dest = Ptr BDest 0, force_sw = False, inflate_stat = InflateNull,
     inflate_strm = None, qz_in_len = 0, qz_out_len = 0, sess_crc = None, sess_last = False,
     single_thread = False, polling_idx = 0, deflate_strm = None, deflate_stat = DeflateNull,
     dctx = None, qzdeflateExtData = None, RRT = zero_metrix, PPT = zero_metrix,
     SWT = zero_metrix, async_ctrl = False\<rparr>"

record QzSession =
  hw_session_stat :: int
  thd_sess_stat :: int
  internal :: "QzSess option"
  total_in :: u64
  total_out :: u64

datatype alloc = A_sess | A_ext | A_RRT | A_PPT | A_SWT | A_inflate | A_deflate | A_dctx | A_async

text \<open>What the setup depends on besides its arguments: the process defaults, the process
  initialisation status and the live allocations of this session.\<close>

record SessEnv =
  e_defaults :: QzSessionParamsInternal
  e_init_status :: int
  e_live :: "alloc set"

section \<open>Setup\<close>

text \<open>\<open>ok a\<close> says whether the allocation \<open>a\<close> succeeds.\<close>

definition reset_owned ::
  "(alloc \<Rightarrow> bool) \<Rightarrow> alloc \<Rightarrow> LatencyMetrix \<Rightarrow> SessEnv \<Rightarrow> (LatencyMetrix \<times> SessEnv) option" where
  "reset_owned ok a m env = do {
     m' \<leftarrow> metrixReset (ok a) m;
     Some (m', if latency_array m = None then env\<lparr>e_live := insert a (e_live env)\<rparr> else env) }"

text \<open>The second half of \<^verbatim>\<open>qzSetupSessionInternal\<close>: the fields that every setup resets, and the
  status that depends on the hardware.\<close>

definition session_reset_fields :: "QzSess \<Rightarrow> QzSess" where
  "session_reset_fields q = q\<lparr>inst_hint := -1, seq := 0, seq_in := 0, polling_idx := 0,
     force_sw := False, inflate_strm := None, inflate_stat := InflateNull,
     deflate_strm := None, deflate_stat := DeflateNull, dctx := None\<rparr>"

definition session_hw_status :: "SessEnv \<Rightarrow> QzSess \<Rightarrow> int \<times> status" where
  "session_hw_status env q =
    (if e_init_status env \<noteq> QZ_OK then
       if i_sw_backup (sess_params q) = 1 then (QZ_NO_HW, QZ_OK)
       else (QZ_NOSW_NO_HW, QZ_NOSW_NO_HW)
     else (QZ_OK, QZ_OK))"

definition qzSetupSessionInternal ::
  "bool \<Rightarrow> (alloc \<Rightarrow> bool) \<Rightarrow> SessEnv \<Rightarrow> QzSession \<Rightarrow> QzSess \<Rightarrow> (status \<times> QzSession \<times> SessEnv) option"
where
  "qzSetupSessionInternal api31 ok env sess q =
    (case qzSetupDcSessionData api31 (session_setup_data q) (sess_params q) of (rc, d) \<Rightarrow>
     let q = q\<lparr>session_setup_data := d\<rparr> in
     if rc \<noteq> QZ_OK then Some (rc, sess\<lparr>internal := Some q\<rparr>, env)
     else do {
       (q, env) \<leftarrow>
         (if i_is_sensitive_mode (sess_params q) = 1 then do {
            (r, env) \<leftarrow> reset_owned ok A_RRT (RRT q) env;
            (p, env) \<leftarrow> reset_owned ok A_PPT (PPT q) env;
            (s, env) \<leftarrow> reset_owned ok A_SWT (SWT q) env;
            Some (q\<lparr>RRT := r, PPT := p, SWT := s\<lparr>arr_avg := lsm_sw_met_seed\<rparr>\<rparr>, env) }
          else Some (q, env));
       (case session_hw_status env q of (hw, rc) \<Rightarrow>
          Some (rc, sess\<lparr>internal := Some (session_reset_fields q), hw_session_stat := hw\<rparr>, env)) })"

text \<open>The part the five setup functions share after the parameter check; \<open>ext\<close> is set for the
  extended deflate session, which owns a further structure.\<close>

definition session_open ::
  "bool \<Rightarrow> (alloc \<Rightarrow> bool) \<Rightarrow> bool \<Rightarrow> (QzSessionParamsInternal \<Rightarrow> QzSessionParamsInternal) \<Rightarrow>
     SessEnv \<Rightarrow> QzSession \<Rightarrow> (status \<times> QzSession \<times> SessEnv) option" where
  "session_open api31 ok ext setp env sess =
    (if internal sess \<noteq> None then Some (QZ_DUPLICATE, sess, env)
     else if \<not> ok A_sess then Some (QZ_NOSW_LOW_MEM, sess\<lparr>hw_session_stat := QZ_NOSW_LOW_MEM\<rparr>, env)
     else
       let sess = sess\<lparr>hw_session_stat := QZ_FAIL\<rparr>;
           has_ext = (ext \<and> ok A_ext);
           env = env\<lparr>e_live := insert A_sess (if has_ext then insert A_ext (e_live env) else e_live env)\<rparr>;
           q = zero_sess\<lparr>qzdeflateExtData := (if has_ext then Some 0 else None),
                         sess_params := setp zero_params\<rparr>
       in do {
         (rc, sess, env) \<leftarrow> qzSetupSessionInternal api31 ok env sess q;
         if rc < 0 then
           Some (rc, sess\<lparr>internal := None\<rparr>,
                 env\<lparr>e_live := e_live env - {A_sess} - (if has_ext then {A_ext} else {})\<rparr>)
         else Some (rc, sess, env) })"

definition qzSetupSession ::
  "bool \<Rightarrow> (alloc \<Rightarrow> bool) \<Rightarrow> QzSessionParams option \<Rightarrow> SessEnv \<Rightarrow> QzSession \<Rightarrow>
     (status \<times> QzSession \<times> SessEnv) option" where
  "qzSetupSession api31 ok params env sess =
    (let p = (case params of Some p \<Rightarrow> p | None \<Rightarrow> qzGetParams (e_defaults env)) in
     if qzCheckParams p \<noteq> QZ_OK then Some (QZ_PARAMS, sess, env)
     else session_open api31 ok False (qzSetParams p) env sess)"

definition qzSetupSessionDeflate ::
  "bool \<Rightarrow> (alloc \<Rightarrow> bool) \<Rightarrow> QzSessionParamsDeflate option \<Rightarrow> SessEnv \<Rightarrow> QzSession \<Rightarrow>
     (status \<times> QzSession \<times> SessEnv) option" where
  "qzSetupSessionDeflate api31 ok params env sess =
    (let p = (case params of Some p \<Rightarrow> p | None \<Rightarrow> qzGetParamsDeflate (e_defaults env)) in
     if qzCheckParamsDeflate p \<noteq> QZ_OK then Some (QZ_PARAMS, sess, env)
     else session_open api31 ok False (qzSetParamsDeflate p) env sess)"

definition qzSetupSessionDeflateExt ::
  "bool \<Rightarrow> (alloc \<Rightarrow> bool) \<Rightarrow> QzSessionParamsDeflateExt option \<Rightarrow> SessEnv \<Rightarrow> QzSession \<Rightarrow>
     (status \<times> QzSession \<times> SessEnv) option" where
  "qzSetupSessionDeflateExt api31 ok params env sess =
    (case (case params of Some p \<Rightarrow> (p, e_defaults env)
             | None \<Rightarrow> qzGetParamsDeflateExt (e_defaults env)) of (p, g) \<Rightarrow>
     let env = env\<lparr>e_defaults := g\<rparr> in
     if qzCheckParamsDeflateExt p \<noteq> QZ_OK then Some (QZ_PARAMS, sess, env)
     else session_open api31 ok True (qzSetParamsDeflateExt p) env sess)"

definition qzSetupSessionLZ4 ::
  "bool \<Rightarrow> (alloc \<Rightarrow> bool) \<Rightarrow> QzSessionParamsLZ4 option \<Rightarrow> SessEnv \<Rightarrow> QzSession \<Rightarrow>
     (status \<times> QzSession \<times> SessEnv) option" where
  "qzSetupSessionLZ4 api31 ok params env sess =
    (let p = (case params of Some p \<Rightarrow> p | None \<Rightarrow> qzGetParamsLZ4 (e_defaults env)) in
     if qzCheckParamsLZ4 p \<noteq> QZ_OK then Some (QZ_PARAMS, sess, env)
     else session_open api31 ok False (qzSetParamsLZ4 p) env sess)"

definition qzSetupSessionLZ4S ::
  "bool \<Rightarrow> (alloc \<Rightarrow> bool) \<Rightarrow> QzSessionParamsLZ4S option \<Rightarrow> SessEnv \<Rightarrow> QzSession \<Rightarrow>
     (status \<times> QzSession \<times> SessEnv) option" where
  "qzSetupSessionLZ4S api31 ok params env sess =
    (let p = (case params of Some p \<Rightarrow> p | None \<Rightarrow> qzGetParamsLZ4S (e_defaults env)) in
     if qzCheckParamsLZ4S p \<noteq> QZ_OK then Some (QZ_PARAMS, sess, env)
     else session_open api31 ok False (qzSetParamsLZ4S p) env sess)"

section \<open>Teardown and queries\<close>

definition free_if :: "bool \<Rightarrow> alloc \<Rightarrow> alloc set \<Rightarrow> alloc set" where
  "free_if b a live = (if b then live - {a} else live)"

text \<open>\<^verbatim>\<open>AsyncCtrlDestructor\<close> joins the consumer and frees the control block.\<close>

definition qzTeardownSession :: "SessEnv \<Rightarrow> QzSession \<Rightarrow> status \<times> QzSession \<times> SessEnv" where
  "qzTeardownSession env sess =
    (case internal sess of
       None \<Rightarrow> (QZ_OK, sess, env)
     | Some q \<Rightarrow>
         (QZ_OK, sess\<lparr>internal := None\<rparr>,
          env\<lparr>e_live := free_if True A_sess (free_if (async_ctrl q) A_async
             (free_if (qzdeflateExtData q \<noteq> None) A_ext
             (free_if (latency_array (SWT q) \<noteq> None) A_SWT
             (free_if (latency_array (PPT q) \<noteq> None) A_PPT
             (free_if (latency_array (RRT q) \<noteq> None) A_RRT
             (free_if (deflate_strm q \<noteq> None) A_deflate
             (free_if (inflate_strm q \<noteq> None) A_inflate (e_live env))))))))\<rparr>))"

definition qzClose :: "QzSession option \<Rightarrow> status" where
  "qzClose sess = (if sess = None then QZ_PARAMS else QZ_OK)"

definition qzGetStatus :: "bool \<Rightarrow> bool \<Rightarrow> status" where
  "qzGetStatus has_sess has_status = (if \<not> has_sess \<or> \<not> has_status then QZ_PARAMS else QZ_OK)"

definition setDeflateEndOfStream :: "QzSess \<Rightarrow> u8 \<Rightarrow> QzSess" where
  "setDeflateEndOfStream q v =
     (if qzdeflateExtData q \<noteq> None then q\<lparr>qzdeflateExtData := Some v\<rparr> else q)"

definition getDeflateEndOfStream :: "QzSess \<Rightarrow> u8" where
  "getDeflateEndOfStream q = (case qzdeflateExtData q of Some v \<Rightarrow> v | None \<Rightarrow> 0)"

definition qzGetDeflateEndOfStream :: "QzSession option \<Rightarrow> bool \<Rightarrow> status \<times> u8 option" where
  "qzGetDeflateEndOfStream sess has_dest =
    (case sess of None \<Rightarrow> (QZ_PARAMS, None)
     | Some s \<Rightarrow> if \<not> has_dest then (QZ_PARAMS, None)
        else (case internal s of Some q \<Rightarrow> (QZ_OK, Some (getDeflateEndOfStream q))
              | None \<Rightarrow> (QZ_PARAMS, None)))"

section \<open>Ownership\<close>

text \<open>The allocations a session's fields point to.\<close>

definition owned :: "QzSession \<Rightarrow> alloc set" where
  "owned sess = (case internal sess of None \<Rightarrow> {}
    | Some q \<Rightarrow> {A_sess} \<union> (if qzdeflateExtData q \<noteq> None then {A_ext} else {}) \<union>
        (if latency_array (RRT q) \<noteq> None then {A_RRT} else {}) \<union>
        (if latency_array (PPT q) \<noteq> None then {A_PPT} else {}) \<union>
        (if latency_array (SWT q) \<noteq> None then {A_SWT} else {}) \<union>
        (if inflate_strm q \<noteq> None then {A_inflate} else {}) \<union>
        (if deflate_strm q \<noteq> None then {A_deflate} else {}) \<union>
        (if dctx q \<noteq> None then {A_dctx} else {}) \<union> (if async_ctrl q then {A_async} else {}))"

lemmas session_defs = session_open_def qzSetupSessionInternal_def reset_owned_def
  session_reset_fields_def session_hw_status_def zero_sess_def Let_def

lemma metrixReset_array: "metrixReset b m = Some m' \<Longrightarrow> latency_array m' \<noteq> None"
  by (auto simp: metrixReset_def split: option.splits if_splits)

lemma metrixReset_zero: "metrixReset True zero_metrix =
    Some (zero_metrix\<lparr>latency_array := Some (replicate 64 0)\<rparr>)"
  by (simp add: metrixReset_def zero_metrix_def)

lemma setup_Dc_deflate: "i_data_fmt p \<noteq> LZ4_FH \<Longrightarrow> i_data_fmt p \<noteq> LZ4S_BK \<Longrightarrow>
    fst (qzSetupDcSessionData api31 d p) = QZ_OK"
  by (cases "i_data_fmt p") (auto simp: qzSetupDcSessionData_def Let_def)

lemma setup_Dc_code: "fst (qzSetupDcSessionData api31 d p) \<in> {QZ_OK, QZ_UNSUPPORTED_FMT}"
  by (cases "i_data_fmt p") (auto simp: qzSetupDcSessionData_def Let_def)


text \<open>What the common part of the setup does when the allocations succeed.\<close>

lemma fmt_of_public_deflate: "fmt_of_public f \<noteq> LZ4_FH" "fmt_of_public f \<noteq> LZ4S_BK"
  by (simp_all add: fmt_of_public_def)

lemma setup_Dc_deflate_pair:
  assumes "i_data_fmt p \<noteq> LZ4_FH" and "i_data_fmt p \<noteq> LZ4S_BK"
  obtains d where "qzSetupDcSessionData api31 zero_setup p = (QZ_OK, d)"
  using setup_Dc_deflate [OF assms, of api31 zero_setup]
  by (cases "qzSetupDcSessionData api31 zero_setup p") auto

lemma session_open_alloc:
  assumes "internal sess = None" and "\<forall>a. ok a" and ip: "setp zero_params = ip"
    and fmt: "i_data_fmt ip \<noteq> LZ4_FH" "i_data_fmt ip \<noteq> LZ4S_BK"
  shows "\<exists>rc s e. session_open api31 ok ext setp env sess = Some (rc, s, e) \<and>
    rc = (if e_init_status env = QZ_OK \<or> i_sw_backup ip = 1 then QZ_OK else QZ_NOSW_NO_HW) \<and>
    (rc \<noteq> QZ_OK \<longrightarrow> internal s = None) \<and>
    (rc = QZ_OK \<longrightarrow> (\<exists>q. internal s = Some q \<and> sess_params q = ip \<and>
           seq q = 0 \<and> seq_in q = 0 \<and> inflate_stat q = InflateNull)) \<and>
    hw_session_stat s = (if e_init_status env = QZ_OK then QZ_OK
           else if i_sw_backup ip = 1 then QZ_NO_HW else QZ_NOSW_NO_HW) \<and>
    e_live e = e_live env \<union> owned s \<union>
           (if i_is_sensitive_mode ip = 1 then {A_RRT, A_PPT, A_SWT} else {}) -
           (if rc = QZ_OK then {} else {A_sess} \<union> (if ext then {A_ext} else {}))"
proof -
  obtain d where d: "qzSetupDcSessionData api31 zero_setup ip = (QZ_OK, d)"
    using fmt by (rule setup_Dc_deflate_pair)
  note defs = session_defs metrixReset_zero zero_metrix_def owned_def metrixReset_def
  show ?thesis
    by (cases "i_is_sensitive_mode ip = 1"; cases "e_init_status env = 0";
        cases "i_sw_backup ip = 1"; cases ext)
       (use assms(1,2) ip d in \<open>simp_all add: defs\<close>, (use ip d in \<open>auto simp: defs\<close>)?)
qed

section \<open>Properties\<close>

text \<open>Setting up a deflate session with valid parameters (memory being available) succeeds
  when the hardware is initialised or software backup is on, gives a session holding exactly
  these parameters with nothing in flight, and records whether the hardware may be used; without
  hardware and backup it fails and leaves no session.\<close>

theorem setup_deflate_session:
  assumes "qzCheckParamsDeflate p = QZ_OK" and "internal sess = None" and "\<forall>a. ok a"
  shows "\<exists>rc s e. qzSetupSessionDeflate api31 ok (Some p) env sess = Some (rc, s, e) \<and>
    (if e_init_status env = QZ_OK \<or> c_sw_backup (d_common p) = 1 then
       rc = QZ_OK \<and> hw_session_stat s = (if e_init_status env = QZ_OK then QZ_OK else QZ_NO_HW) \<and>
       (\<exists>q. internal s = Some q \<and> qzGetParamsDeflate (sess_params q) = p \<and> seq q = seq_in q)
     else rc = QZ_NOSW_NO_HW \<and> internal s = None)"
proof -
  have fmt: "i_data_fmt (qzSetParamsDeflate p zero_params) \<noteq> LZ4_FH"
    "i_data_fmt (qzSetParamsDeflate p zero_params) \<noteq> LZ4S_BK"
    by (simp_all add: qzSetParamsDeflate_def fmt_of_public_deflate)
  have bk: "i_sw_backup (qzSetParamsDeflate p zero_params) = c_sw_backup (d_common p)"
    by (simp add: set_params_defs)
  obtain rc s e where o: "session_open api31 ok False (qzSetParamsDeflate p) env sess = Some (rc, s, e)"
    and r: "rc = (if e_init_status env = QZ_OK \<or> c_sw_backup (d_common p) = 1 then QZ_OK
               else QZ_NOSW_NO_HW)"
    and n: "rc \<noteq> QZ_OK \<longrightarrow> internal s = None"
    and k: "rc = QZ_OK \<longrightarrow> (\<exists>q. internal s = Some q \<and>
           sess_params q = qzSetParamsDeflate p zero_params \<and> seq q = 0 \<and> seq_in q = 0 \<and>
           inflate_stat q = InflateNull)"
    and h: "hw_session_stat s = (if e_init_status env = QZ_OK then QZ_OK
           else if c_sw_backup (d_common p) = 1 then QZ_NO_HW else QZ_NOSW_NO_HW)"
    using session_open_alloc [where setp = "qzSetParamsDeflate p", OF assms(2,3) refl fmt, of api31 False env] unfolding bk by blast
  have "qzSetupSessionDeflate api31 ok (Some p) env sess = Some (rc, s, e)"
    using o assms(1) by (simp add: qzSetupSessionDeflate_def)
  then show ?thesis
    using r n k h deflate.get_set [OF assms(1)] by (auto split: if_splits)
qed

abbreviation fresh_session :: QzSession where
  "fresh_session \<equiv> \<lparr>hw_session_stat = 0, thd_sess_stat = 0, internal = None, total_in = 0,
     total_out = 0\<rparr>"

abbreviation fresh_env :: "int \<Rightarrow> SessEnv" where
  "fresh_env st \<equiv> \<lparr>e_defaults = g_sess_params_internal_default, e_init_status = st, e_live = {}\<rparr>"

lemma deflate_example_ok: "qzCheckParamsDeflate deflate_example = QZ_OK"
  by (simp add: qzCheckParamsDeflate_def qzCheckParamsCommon_def deflate_example_def)

theorem setup_deflate_session_witness:
  "\<exists>rc s e. qzSetupSessionDeflate True (\<lambda>_. True) (Some deflate_example) (fresh_env QZ_NO_HW)
     fresh_session = Some (rc, s, e) \<and> rc = QZ_OK \<and> hw_session_stat s = QZ_NO_HW"
  using setup_deflate_session [OF deflate_example_ok, of fresh_session "\<lambda>_. True" True "fresh_env QZ_NO_HW"]
  by (auto simp: deflate_example_def)

text \<open>C38: A deflate session that was set up successfully owns exactly the memory allocated for
  it, and tearing it down releases all of it.\<close>

theorem setup_teardown_releases:
  assumes "qzSetupSessionDeflate api31 ok (Some p) env sess = Some (rc, s, e)"
    and "\<forall>a. ok a" and "internal sess = None" and "e_live env = {}" and "rc = QZ_OK"
  shows "e_live e = owned s \<and>
    (case qzTeardownSession e s of (rc', s', e') \<Rightarrow> rc' = QZ_OK \<and> internal s' = None \<and> e_live e' = {})"
proof -
  have fmt: "i_data_fmt (qzSetParamsDeflate p zero_params) \<noteq> LZ4_FH"
    "i_data_fmt (qzSetParamsDeflate p zero_params) \<noteq> LZ4S_BK"
    by (simp_all add: qzSetParamsDeflate_def fmt_of_public_deflate)
  have o: "session_open api31 ok False (qzSetParamsDeflate p) env sess = Some (rc, s, e)"
    using assms(1,5) by (simp add: qzSetupSessionDeflate_def split: if_splits)
  obtain d where d: "qzSetupDcSessionData api31 zero_setup (qzSetParamsDeflate p zero_params) = (QZ_OK, d)"
    using fmt by (rule setup_Dc_deflate_pair)
  show ?thesis
    using o assms(2-5) d
    by (auto simp: session_defs metrixReset_zero zero_metrix_def owned_def
        qzTeardownSession_def free_if_def metrixReset_def split: if_splits)
qed

theorem setup_teardown_releases_witness:
  "\<exists>s e. qzSetupSessionDeflate True (\<lambda>_. True) (Some deflate_example) (fresh_env QZ_OK) fresh_session
     = Some (QZ_OK, s, e) \<and> e_live e = owned s \<and> e_live (snd (snd (qzTeardownSession e s))) = {}"
proof -
  obtain s e where 1: "qzSetupSessionDeflate True (\<lambda>_. True) (Some deflate_example) (fresh_env QZ_OK)
      fresh_session = Some (QZ_OK, s, e)"
    using setup_deflate_session [OF deflate_example_ok, of fresh_session "\<lambda>_. True" True
        "fresh_env QZ_OK"] by auto
  from setup_teardown_releases [OF this] show ?thesis
    using 1 by (auto split: prod.splits)
qed

text \<open>A setup that fails for want of hardware frees the session but not the three latency
  arrays it had already allocated for a latency sensitive session: they are leaked.\<close>

theorem failed_setup_leaks_metrics:
  assumes "qzCheckParamsDeflate p = QZ_OK" and "c_is_sensitive_mode (d_common p) = 1"
    and "c_sw_backup (d_common p) = 0" and "e_init_status env \<noteq> QZ_OK" and "e_live env = {}"
    and "internal sess = None" and "\<forall>a. ok a"
  shows "\<exists>s e. qzSetupSessionDeflate api31 ok (Some p) env sess = Some (QZ_NOSW_NO_HW, s, e) \<and>
           internal s = None \<and> e_live e = {A_RRT, A_PPT, A_SWT}"
proof -
  have fmt: "i_data_fmt (qzSetParamsDeflate p zero_params) \<noteq> LZ4_FH"
    "i_data_fmt (qzSetParamsDeflate p zero_params) \<noteq> LZ4S_BK"
    by (simp_all add: qzSetParamsDeflate_def fmt_of_public_deflate)
  obtain rc s e where o: "session_open api31 ok False (qzSetParamsDeflate p) env sess = Some (rc, s, e)"
    and r: "rc = QZ_NOSW_NO_HW" "internal s = None" "e_live e = {A_RRT, A_PPT, A_SWT}"
    using session_open_alloc [where setp = "qzSetParamsDeflate p", OF assms(6,7) refl fmt, of api31 False env] assms(2-5)
    by (auto simp: set_params_defs owned_def)
  then show ?thesis
    using assms(1) by (auto simp: qzSetupSessionDeflate_def)
qed

theorem failed_setup_leaks_metrics_witness:
  "\<exists>s e. qzSetupSessionDeflate True (\<lambda>_. True) (Some (deflate_example\<lparr>d_common :=
       (d_common deflate_example)\<lparr>c_sw_backup := 0, c_is_sensitive_mode := 1\<rparr>\<rparr>))
     (fresh_env QZ_NO_HW) fresh_session = Some (QZ_NOSW_NO_HW, s, e) \<and>
     internal s = None \<and> e_live e = {A_RRT, A_PPT, A_SWT}"
  by (rule failed_setup_leaks_metrics)
     (simp_all add: qzCheckParamsDeflate_def qzCheckParamsCommon_def deflate_example_def)

text \<open>Tearing down a session releases everything it owns except an LZ4 decompression context
  still open from an incomplete frame, which is leaked.\<close>

theorem teardown_leaks_dctx:
  assumes "e_live env = owned sess"
  shows "e_live (snd (snd (qzTeardownSession env sess))) = owned sess \<inter> {A_dctx}"
proof (cases "internal sess")
  case None
  then show ?thesis using assms by (simp add: qzTeardownSession_def owned_def)
next
  case (Some q)
  have mem_if: "(x \<in> (if b then S else {})) = (b \<and> x \<in> S)" for x :: alloc and b S by simp
  have free: "(x \<in> free_if b y L) = (x \<in> L \<and> \<not> (b \<and> x = y))" for x y :: alloc and b L
    by (simp add: free_if_def)
  have "(x \<in> e_live (snd (snd (qzTeardownSession env sess)))) = (x \<in> owned sess \<inter> {A_dctx})" for x
    by (cases x) (simp_all add: Some assms owned_def qzTeardownSession_def free mem_if del: not_None_eq)
  then show ?thesis by blast
qed

theorem teardown_leaks_dctx_witness:
  "e_live (snd (snd (qzTeardownSession ((fresh_env QZ_OK)\<lparr>e_live := {A_sess, A_dctx}\<rparr>)
     (fresh_session\<lparr>internal := Some (zero_sess\<lparr>dctx := Some 7\<rparr>)\<rparr>)))) = {A_dctx}"
proof -
  have o: "{A_sess, A_dctx} = owned (fresh_session\<lparr>internal := Some (zero_sess\<lparr>dctx := Some 7\<rparr>)\<rparr>)"
    by (auto simp: owned_def zero_sess_def zero_metrix_def)
  have "e_live ((fresh_env QZ_OK)\<lparr>e_live := {A_sess, A_dctx}\<rparr>) =
      owned (fresh_session\<lparr>internal := Some (zero_sess\<lparr>dctx := Some 7\<rparr>)\<rparr>)"
    using o by simp
  from teardown_leaks_dctx [OF this] show ?thesis unfolding o [symmetric] by simp
qed

end
