(* ===== verification/Gzip.thy ===== *)
theory Gzip
  imports Types
begin

text \<open>
  The gzip, gzip-extended and zlib framing of \<^verbatim>\<open>src/qatzip_gzip.c\<close>: headers and footers as
  records with their byte layout, the generators, the header check for QATzip's own extended
  header, the zlib header check of RFC 1950 and the search for a gzip member's footer.
\<close>

section \<open>Structures and their layout\<close>

record StdGzH =
  id1 :: u8
  id2 :: u8
  cm :: u8
  gz_flag :: u8
  mtime :: "u8 \<times> u8 \<times> u8 \<times> u8"
  xfl :: u8
  os :: u8

record QzExtraHeader =
  src_sz :: u32
  dest_sz :: u32

record QzExtraField =
  st1 :: u8
  st2 :: u8
  x2_len :: u16
  qz_e :: QzExtraHeader

record QzGzH =
  std_hdr :: StdGzH
  x_len :: u16
  extra :: QzExtraField

record StdGzF =
  crc32 :: u32
  i_size :: u32

record StdZlibH =
  cmf :: u8
  zl_flags :: u8

definition StdGzH_bytes :: "StdGzH \<Rightarrow> bytes" where
  [enc_defs]: "StdGzH_bytes h = (case mtime h of (t0, t1, t2, t3) \<Rightarrow>
     [id1 h, id2 h, cm h, gz_flag h, t0, t1, t2, t3, xfl h, os h])"

definition QzExtraField_bytes :: "QzExtraField \<Rightarrow> bytes" where
  [enc_defs]: "QzExtraField_bytes e = [st1 e, st2 e] @ le_bytes 2 (x2_len e) @
     le_bytes 4 (src_sz (qz_e e)) @ le_bytes 4 (dest_sz (qz_e e))"

definition QzGzH_bytes :: "QzGzH \<Rightarrow> bytes" where
  [enc_defs]: "QzGzH_bytes h =
     StdGzH_bytes (std_hdr h) @ le_bytes 2 (x_len h) @ QzExtraField_bytes (extra h)"

definition StdGzF_bytes :: "StdGzF \<Rightarrow> bytes" where
  [enc_defs]: "StdGzF_bytes f = le_bytes 4 (crc32 f) @ le_bytes 4 (i_size f)"

definition StdZlibH_bytes :: "StdZlibH \<Rightarrow> bytes" where
  [enc_defs]: "StdZlibH_bytes h = [cmf h, zl_flags h]"

text \<open>\<open>sizeof\<close> of each structure; the layouts have no padding.\<close>

definition qzGzipHeaderSz :: nat where "qzGzipHeaderSz = 24"
definition stdGzipHeaderSz :: nat where "stdGzipHeaderSz = 10"
definition qz4BHeaderSz :: nat where "qz4BHeaderSz = 4"
definition stdGzipFooterSz :: nat where "stdGzipFooterSz = 8"
definition stdZlibHeaderSz :: nat where "stdZlibHeaderSz = 2"
definition stdZlibFooterSz :: nat where "stdZlibFooterSz = 4"

lemmas gz_size_defs = qzGzipHeaderSz_def stdGzipHeaderSz_def qz4BHeaderSz_def
  stdGzipFooterSz_def stdZlibHeaderSz_def stdZlibFooterSz_def

text \<open>The structure read through a cast pointer.\<close>

definition StdGzH_at :: "bytes \<Rightarrow> StdGzH option" where
  "StdGzH_at p = (if 10 \<le> length p then Some \<lparr>id1 = p ! 0, id2 = p ! 1, cm = p ! 2,
     gz_flag = p ! 3, mtime = (p ! 4, p ! 5, p ! 6, p ! 7), xfl = p ! 8, os = p ! 9\<rparr>
   else None)"

definition QzGzH_at :: "bytes \<Rightarrow> QzGzH option" where
  "QzGzH_at p = do {
     h \<leftarrow> StdGzH_at p;
     xl \<leftarrow> get16 p 10; s1 \<leftarrow> get8 p 12; s2 \<leftarrow> get8 p 13; x2 \<leftarrow> get16 p 14;
     ss \<leftarrow> get32 p 16; ds \<leftarrow> get32 p 20;
     Some \<lparr>std_hdr = h, x_len = xl,
       extra = \<lparr>st1 = s1, st2 = s2, x2_len = x2, qz_e = \<lparr>src_sz = ss, dest_sz = ds\<rparr>\<rparr>\<rparr> }"

definition StdGzF_at :: "bytes \<Rightarrow> nat \<Rightarrow> StdGzF option" where
  "StdGzF_at p i = do { c \<leftarrow> get32 p i; s \<leftarrow> get32 p (i + 4); Some \<lparr>crc32 = c, i_size = s\<rparr> }"

section \<open>Generators\<close>

definition qzGzipHeaderExtraFieldGen :: "CpaDcRqResults \<Rightarrow> QzExtraField" where
  "qzGzipHeaderExtraFieldGen res = \<lparr>st1 = 81, st2 = 90, x2_len = 8,
     qz_e = \<lparr>src_sz = consumed res, dest_sz = produced res\<rparr>\<rparr>"

definition qzGzipHeaderGen :: "CpaDcRqResults \<Rightarrow> QzGzH" where
  "qzGzipHeaderGen res = \<lparr>std_hdr = \<lparr>id1 = 0x1f, id2 = 0x8b, cm = QZ_DEFLATE,
       gz_flag = 0x04, mtime = (0, 0, 0, 0), xfl = 0, os = 255\<rparr>,
     x_len = 12, extra = qzGzipHeaderExtraFieldGen res\<rparr>"

definition stdGzipHeaderGen :: "CpaDcRqResults \<Rightarrow> StdGzH" where
  "stdGzipHeaderGen res = \<lparr>id1 = 0x1f, id2 = 0x8b, cm = QZ_DEFLATE, gz_flag = 0,
     mtime = (0, 0, 0, 0), xfl = 0, os = 255\<rparr>"

definition qz4BHeaderGen :: "CpaDcRqResults \<Rightarrow> bytes" where
  "qz4BHeaderGen res = le_bytes 4 (produced res)"

definition qzGzipFooterGen :: "CpaDcRqResults \<Rightarrow> StdGzF" where
  "qzGzipFooterGen res = \<lparr>crc32 = checksum res, i_size = consumed res\<rparr>"

definition stdZlibHeaderGen :: "CpaDcRqResults \<Rightarrow> StdZlibH" where
  "stdZlibHeaderGen res = \<lparr>cmf = 0x78, zl_flags = 0x9C\<rparr>"

text \<open>\<^verbatim>\<open>htonl\<close> on a little-endian machine reverses the bytes of the word.\<close>

definition htonl :: "u32 \<Rightarrow> u32" where
  "htonl w = of_le (rev (le_bytes 4 w))"

definition qzZlibFooterGen :: "CpaDcRqResults \<Rightarrow> u32" where
  "qzZlibFooterGen res = htonl (checksum res)"

section \<open>Checks and searches\<close>

text \<open>\<^verbatim>\<open>qzGzipHeaderExt\<close>: the extended header is copied out only if it is exactly of the
  form the library writes (any of the three \<open>xfl\<close> values zlib may write is allowed).\<close>

definition qzGzipHeaderExt :: "bytes \<Rightarrow> (status \<times> QzGzH option) option" where
  "qzGzipHeaderExt p = do {
     h \<leftarrow> QzGzH_at p;
     Some (if id1 (std_hdr h) \<noteq> 0x1f \<or> id2 (std_hdr h) \<noteq> 0x8b \<or>
       st1 (extra h) \<noteq> 81 \<or> st2 (extra h) \<noteq> 90 \<or>
       cm (std_hdr h) \<noteq> QZ_DEFLATE \<or> gz_flag (std_hdr h) \<noteq> 0x04 \<or>
       (xfl (std_hdr h) \<noteq> 0 \<and> xfl (std_hdr h) \<noteq> 2 \<and> xfl (std_hdr h) \<noteq> 4) \<or>
       os (std_hdr h) \<noteq> 255 \<or> x_len h \<noteq> 12 \<or> x2_len (extra h) \<noteq> 8
     then (QZ_FAIL, None) else (QZ_OK, Some h)) }"

definition qzGzipFooterExt :: "bytes \<Rightarrow> StdGzF option" where
  "qzGzipFooterExt p = StdGzF_at p 0"

text \<open>
  \<^verbatim>\<open>findStdGzipFooter\<close>: the offset of the footer, which is 8 bytes before the next member's
  header or at the end of the data. The result is an \<open>int\<close>: with fewer than 8 bytes of data
  the computed address lies before the buffer.
\<close>

definition gz_magic_at :: "bytes \<Rightarrow> nat \<Rightarrow> bool option" where
  "gz_magic_at p i =
     match8 p [(i, 0x1f), (i + 1, 0x8b), (i + 2, QZ_DEFLATE), (i + 3, 0)]"

function findStdGzipFooter_loop :: "bytes \<Rightarrow> nat \<Rightarrow> nat \<Rightarrow> int option" where
  "findStdGzipFooter_loop p avail off =
     (if avail \<ge> off + stdGzipHeaderSz then
        (case gz_magic_at p off of
           None \<Rightarrow> None
         | Some True \<Rightarrow> Some (int off - int stdGzipFooterSz)
         | Some False \<Rightarrow> findStdGzipFooter_loop p avail (off + 1))
      else Some (int avail - int stdGzipFooterSz))"
  by pat_completeness auto
termination
  by (relation "measure (\<lambda>(p, avail, off). avail - off)") (auto simp: stdGzipHeaderSz_def)

definition findStdGzipFooter :: "bytes \<Rightarrow> nat \<Rightarrow> int option" where
  "findStdGzipFooter p avail =
     findStdGzipFooter_loop p avail (stdGzipHeaderSz + stdGzipFooterSz)"

definition qzVerifyZlibHeader :: "bytes \<Rightarrow> u32 \<Rightarrow> int option" where
  "qzVerifyZlibHeader p src_len =
     (if unat src_len < stdZlibHeaderSz then Some 0
      else do {
        CMF \<leftarrow> get8 p 0;
        if CMF AND 0x0F \<noteq> QZ_DEFLATE then Some 0
        else if drop_bit 4 CMF > 7 then Some 0
        else do {
          FLG \<leftarrow> get8 p 1;
          (let FDICT = drop_bit 5 (FLG AND 0x20) in
           if FDICT \<noteq> 0 \<or> (uint CMF * 256 + uint FLG) mod 31 \<noteq> 0 then Some 0
           else Some 1) } })"

text \<open>
  \<^verbatim>\<open>isQATDeflateProcessable\<close>: can the hardware decompress this data? The result is the return
  code and the session's data format, which a standard gzip header sets to
  \<open>DEFLATE_GZIP\<close>. The bytes are read in the order of the C conditions.
\<close>

definition isQATDeflateProcessable ::
  "bytes \<Rightarrow> u32 \<Rightarrow> QzSessionParamsInternal \<Rightarrow> (int \<times> QzSessionParamsInternal) option" where
  "isQATDeflateProcessable p src_len sp =
     (let hw = i_hw_buff_sz sp;
          dest = DEST_SZ (ucast hw :: u64);
          buff_sz = (if DEST_SZ hw < src_len then unat dest else unat src_len) in
      if i_data_fmt sp = DEFLATE_4B then do {
        blk_size \<leftarrow> get32 p 0;
        Some (if blk_size > DEST_SZ hw then 0 else 1, sp) }
      else if i_data_fmt sp = DEFLATE_ZLIB then do {
        v \<leftarrow> qzVerifyZlibHeader p src_len;
        Some (if v = 1 then 1 else 0, sp) }
      else do {
        std \<leftarrow> match8 p [(0, 0x1f), (1, 0x8b), (2, QZ_DEFLATE), (3, 0)];
        if std then do {
          f \<leftarrow> findStdGzipFooter p buff_sz;
          if (word_of_int (f - int stdGzipHeaderSz) :: u64) > dest then Some (0, sp)
          else do {
            isz \<leftarrow> get32_at p (f + 4);
            if isz > hw then Some (0, sp)
            else Some (1, sp\<lparr>i_data_fmt := DEFLATE_GZIP\<rparr>) } }
        else do {
          gz \<leftarrow> match8 p [(0, 0x1f), (1, 0x8b), (2, QZ_DEFLATE)];
          if \<not> gz then Some (-1, sp)
          else do {
            qz \<leftarrow> match8 p [(12, 81), (13, 90)];
            Some (if qz then 1 else 0, sp) } } })"

section \<open>Correctness of the framing\<close>

lemma StdGzH_at_bytes: "StdGzH_at (StdGzH_bytes h @ rest) = Some h"
  by (cases h; cases "mtime h") (auto simp: StdGzH_at_def StdGzH_bytes_def nth_Cons')

lemma length_StdGzH_bytes [simp]: "length (StdGzH_bytes h) = 10"
  by (cases "mtime h") (simp add: StdGzH_bytes_def)

lemma length_QzGzH_bytes [simp]: "length (QzGzH_bytes h) = 24"
  by (simp add: QzGzH_bytes_def QzExtraField_bytes_def)

text \<open>The extended header survives a write and a read, whatever follows it.\<close>

lemma QzGzH_at_bytes: "QzGzH_at (QzGzH_bytes h @ rest) = Some h"
proof -
  let ?s = "StdGzH_bytes (std_hdr h)" and ?e = "extra h"
  let ?p = "QzGzH_bytes h @ rest"
  have "get16 (?s @ le_bytes 2 (x_len h) @ QzExtraField_bytes ?e @ rest) 10 = Some (x_len h)"
    by (rule get16_at) simp
  then have 1: "get16 ?p 10 = Some (x_len h)" by (simp add: QzGzH_bytes_def)
  have "get16 ((?s @ le_bytes 2 (x_len h) @ [st1 ?e, st2 ?e]) @ le_bytes 2 (x2_len ?e) @
      le_bytes 4 (src_sz (qz_e ?e)) @ le_bytes 4 (dest_sz (qz_e ?e)) @ rest) 14
      = Some (x2_len ?e)"
    by (rule get16_at) simp
  then have 2: "get16 ?p 14 = Some (x2_len ?e)"
    by (simp add: QzGzH_bytes_def QzExtraField_bytes_def)
  have "get32 ((?s @ le_bytes 2 (x_len h) @ [st1 ?e, st2 ?e] @ le_bytes 2 (x2_len ?e)) @
      le_bytes 4 (src_sz (qz_e ?e)) @ le_bytes 4 (dest_sz (qz_e ?e)) @ rest) 16
      = Some (src_sz (qz_e ?e))"
    by (rule get32_bytes) simp
  then have 3: "get32 ?p 16 = Some (src_sz (qz_e ?e))"
    by (simp add: QzGzH_bytes_def QzExtraField_bytes_def)
  have "get32 ((?s @ le_bytes 2 (x_len h) @ [st1 ?e, st2 ?e] @ le_bytes 2 (x2_len ?e) @
      le_bytes 4 (src_sz (qz_e ?e))) @ le_bytes 4 (dest_sz (qz_e ?e)) @ rest) 20
      = Some (dest_sz (qz_e ?e))"
    by (rule get32_bytes) simp
  then have 4: "get32 ?p 20 = Some (dest_sz (qz_e ?e))"
    by (simp add: QzGzH_bytes_def QzExtraField_bytes_def)
  have 5: "get8 ?p 12 = Some (st1 ?e)" "get8 ?p 13 = Some (st2 ?e)"
    by (simp_all add: QzGzH_bytes_def QzExtraField_bytes_def nth_append)
  have 6: "StdGzH_at ?p = Some (std_hdr h)"
    by (simp add: QzGzH_bytes_def StdGzH_at_bytes)
  show ?thesis
    unfolding QzGzH_at_def by (simp add: 1 2 3 4 5 6)
qed

lemma StdGzF_at_bytes: "StdGzF_at (xs @ StdGzF_bytes f @ rest) (length xs) = Some f"
proof -
  have "get32 (xs @ le_bytes 4 (crc32 f) @ le_bytes 4 (i_size f) @ rest) (length xs)
      = Some (crc32 f)" by (rule get32_bytes) simp
  moreover have "get32 ((xs @ le_bytes 4 (crc32 f)) @ le_bytes 4 (i_size f) @ rest)
      (length xs + 4) = Some (i_size f)" by (rule get32_bytes) simp
  ultimately show ?thesis by (simp add: StdGzF_at_def StdGzF_bytes_def)
qed

lemma htonl_involutive: "htonl (htonl w) = w"
proof -
  have "le_bytes 4 (htonl w) = rev (le_bytes 4 w)"
    unfolding htonl_def by (rule le_bytes_of_le) auto
  then show ?thesis
    by (simp add: htonl_def of_le_roundtrip)
qed

lemma gz_magic_at_in: "i + 4 \<le> length p \<Longrightarrow>
    gz_magic_at p i = Some (p ! i = 0x1f \<and> p ! (i + 1) = 0x8b \<and> p ! (i + 2) = QZ_DEFLATE \<and>
      p ! (i + 3) = 0)"
  by (simp add: gz_magic_at_def)

declare findStdGzipFooter_loop.simps [simp del]

lemma findStdGzipFooter_loop_find:
  assumes "avail \<le> length p"
  shows "findStdGzipFooter_loop p avail off =
    Some (case find (\<lambda>k. gz_magic_at p k = Some True) [off..<avail - 9] of
            Some k \<Rightarrow> int k - 8 | None \<Rightarrow> int avail - 8)"
  using assms
proof (induction p avail off rule: findStdGzipFooter_loop.induct)
  case (1 p avail off)
  note unfold = findStdGzipFooter_loop.simps [of p avail off]
  show ?case
  proof (cases "off + 10 \<le> avail")
    case False
    then show ?thesis by (simp add: unfold gz_size_defs)
  next
    case True
    then have upt: "[off..<avail - 9] = off # [off + 1..<avail - 9]"
      by (simp add: upt_conv_Cons)
    have "off + 4 \<le> length p" using True "1.prems" by simp
    then obtain b where b: "gz_magic_at p off = Some b"
      by (simp add: gz_magic_at_in)
    show ?thesis
      by (cases b) (use True b upt "1.IH" [OF _ b] "1.prems" in
        \<open>simp_all add: unfold gz_size_defs\<close>)
  qed
qed

lemma findStdGzipFooter_Some:
  assumes "avail \<le> length p"
  obtains f where "findStdGzipFooter p avail = Some f" and "f \<le> int avail - 8"
    and "f = int avail - 8 \<or> 10 \<le> f"
proof -
  have "find (\<lambda>k. gz_magic_at p k = Some True) [18..<avail - 9] = Some k \<Longrightarrow>
      18 \<le> k \<and> k < avail - 9" for k
    by (auto simp: find_Some_iff)
  then show thesis
    using that assms
    by (fastforce simp: findStdGzipFooter_def findStdGzipFooter_loop_find gz_size_defs
        split: option.splits)
qed

lemma qzVerifyZlibHeader_Some: "unat n \<le> length p \<Longrightarrow> \<exists>v. qzVerifyZlibHeader p n = Some v"
proof -
  assume a: "unat n \<le> length p"
  show ?thesis
  proof (cases "unat n < 2")
    case False
    with a have "1 < length p" by linarith
    then have "get8 p 0 = Some (p ! 0)" "get8 p 1 = Some (p ! 1)" by (cases p; simp)+
    then show ?thesis by (simp add: qzVerifyZlibHeader_def Let_def)
  qed (simp add: qzVerifyZlibHeader_def stdZlibHeaderSz_def)
qed

text \<open>What the header check makes of a generated header.\<close>

lemma gzip_ext_header_sizes:
  "qzGzipHeaderExt (QzGzH_bytes (qzGzipHeaderGen res) @ rest) = Some (QZ_OK, Some (qzGzipHeaderGen res))"
  "dest_sz (qz_e (extra (qzGzipHeaderGen res))) = produced res"
  "src_sz (qz_e (extra (qzGzipHeaderGen res))) = consumed res"
  by (simp_all add: qzGzipHeaderExt_def QzGzH_at_bytes)
     (simp_all add: qzGzipHeaderGen_def qzGzipHeaderExtraFieldGen_def)

section \<open>Properties\<close>

text \<open>The footer search of standard gzip is the first offset, from 18 bytes on, at which a
  whole further gzip header fits in the data, less the footer size; without one it is the last
  8 bytes of the data. It never reads outside the data.\<close>

theorem findStdGzipFooter_first_header:
  assumes "avail \<le> length p"
  shows "findStdGzipFooter p avail =
    Some (case find (\<lambda>k. take 4 (drop k p) = [0x1f, 0x8b, QZ_DEFLATE, 0]) [18..<avail - 9] of
            Some k \<Rightarrow> int k - 8 | None \<Rightarrow> int avail - 8)"
proof -
  have "(gz_magic_at p k = Some True) = (take 4 (drop k p) = [0x1f, 0x8b, QZ_DEFLATE, 0])"
    if "k \<in> set [18..<avail - 9]" for k
  proof -
    have k: "k + 4 \<le> length p" using that assms by auto
    then have "take 4 (drop k p) = [p ! k, p ! (k + 1), p ! (k + 2), p ! (k + 3)]"
      by (simp add: list_eq_iff_nth_eq less_Suc_eq numeral_eq_Suc)
    then show ?thesis using k by (simp add: gz_magic_at_in)
  qed
  then have "find (\<lambda>k. gz_magic_at p k = Some True) [18..<avail - 9] =
      find (\<lambda>k. take 4 (drop k p) = [0x1f, 0x8b, QZ_DEFLATE, 0]) [18..<avail - 9]"
    by (intro find_cong) auto
  then show ?thesis
    using assms by (simp add: findStdGzipFooter_def findStdGzipFooter_loop_find gz_size_defs)
qed

theorem findStdGzipFooter_first_header_witness:
  "findStdGzipFooter (replicate 20 0 @ [0x1f, 0x8b, 8, 0, 0, 0, 0, 0, 0, 255]) 30 = Some 12"
  by (subst findStdGzipFooter_first_header) (simp, code_simp)

text \<open>In a sequence of gzip members, the search from a member's start finds that member's own
  footer, provided the member holds no byte sequence that looks like a header.\<close>

theorem gzip_member_footer_found:
  assumes "18 \<le> length m"
    and "\<forall>k \<in> {18..<length m}. take 4 (drop k (m @ StdGzH_bytes (stdGzipHeaderGen r) @ rest))
           \<noteq> [0x1f, 0x8b, QZ_DEFLATE, 0]"
  shows "findStdGzipFooter (m @ StdGzH_bytes (stdGzipHeaderGen r) @ rest)
           (length m + 10 + length rest) = Some (int (length m) - 8)"
proof -
  let ?p = "m @ StdGzH_bytes (stdGzipHeaderGen r) @ rest"
  let ?P = "\<lambda>k. take 4 (drop k ?p) = [0x1f, 0x8b, QZ_DEFLATE, 0]"
  have hit: "?P (length m)"
    by (simp add: StdGzH_bytes_def stdGzipHeaderGen_def)
  have upt: "[18..<length m + 10 + length rest - 9] =
      [18..<length m] @ length m # [Suc (length m)..<length m + 10 + length rest - 9]"
  proof -
    have "[18..<length m + 10 + length rest - 9] = [18..<length m + (1 + length rest)]" by simp
    also have "\<dots> = [18..<length m] @ [length m..<length m + (1 + length rest)]"
      by (rule upt_add_eq_append) (rule assms(1))
    also have "[length m..<length m + (1 + length rest)] =
        length m # [Suc (length m)..<length m + (1 + length rest)]"
      by (rule upt_conv_Cons) simp
    finally show ?thesis by simp
  qed
  have miss: "find ?P [18..<length m] = None"
    using assms(2) by (auto simp: find_None_iff)
  have F: "find ?P ([18..<length m] @ length m # ys) = Some (length m)" for ys
    unfolding find_append miss using hit by simp
  have "length m + 10 + length rest \<le> length ?p" by simp
  then show ?thesis
    unfolding findStdGzipFooter_first_header [OF \<open>_ \<le> length ?p\<close>] upt F by simp
qed

theorem gzip_member_footer_found_witness:
  "findStdGzipFooter (replicate 20 7 @ StdGzH_bytes (stdGzipHeaderGen \<lparr>res_status = 0,
     produced = 2, consumed = 2, checksum = 0, endOfLastBlock = True\<rparr>) @ [1, 2]) 32 = Some 12"
proof -
  let ?r = "\<lparr>res_status = 0, produced = 2, consumed = 2, checksum = 0, endOfLastBlock = True\<rparr>"
  have "findStdGzipFooter (replicate 20 7 @ StdGzH_bytes (stdGzipHeaderGen ?r) @ [1, 2])
      (length (replicate 20 (7 :: u8)) + 10 + length [1, 2 :: u8])
      = Some (int (length (replicate 20 (7 :: u8))) - 8)"
    by (rule gzip_member_footer_found) (simp, code_simp)
  then show ?thesis by simp
qed

text \<open>The zlib header the library writes passes its own check, whatever follows it, and the
  Adler checksum of the zlib footer, which is stored byte-swapped, is recovered by swapping it
  back: \<open>decompOutCheckSum\<close> compares the value that compression produced.\<close>

theorem zlib_framing_roundtrip:
  "(1 < unat n \<longrightarrow>
     qzVerifyZlibHeader (StdZlibH_bytes (stdZlibHeaderGen res) @ rest) n = Some 1) \<and>
   htonl (qzZlibFooterGen res) = checksum res"
  by (auto simp: qzVerifyZlibHeader_def stdZlibHeaderSz_def StdZlibH_bytes_def
      stdZlibHeaderGen_def qzZlibFooterGen_def htonl_involutive)

theorem zlib_framing_roundtrip_witness:
  "1 < unat (2 :: u32) \<and> qzVerifyZlibHeader (StdZlibH_bytes (stdZlibHeaderGen \<lparr>res_status = 0,
     produced = 2, consumed = 2, checksum = 77, endOfLastBlock = True\<rparr>) @ []) 2 = Some 1"
  using zlib_framing_roundtrip [of 2 "\<lparr>res_status = 0, produced = 2, consumed = 2,
    checksum = 77, endOfLastBlock = True\<rparr>" "[]"] by simp

text \<open>The test whether the hardware can decompress a buffer stays inside the buffer when at
  least 14 bytes are accessible and the length passed is not larger than the buffer.\<close>

theorem isQATDeflateProcessable_in_bounds:
  assumes "14 \<le> length p" and "unat src_len \<le> length p"
    and "unat (i_hw_buff_sz sp) \<le> 524288"
  shows "\<exists>rc sp'. isQATDeflateProcessable p src_len sp = Some (rc, sp') \<and> rc \<in> {-1, 0, 1}"
proof -
  let ?hw = "i_hw_buff_sz sp"
  let ?b = "if DEST_SZ ?hw < src_len then unat (DEST_SZ (ucast ?hw :: u64)) else unat src_len"
  have d64: "unat (DEST_SZ (ucast ?hw :: u64)) = 9 * unat ?hw div 8 + 1024"
  proof -
    have "unat (9 * (ucast ?hw :: u64)) = 9 * unat ?hw"
      using assms(3) by (simp add: unat_word_ariths)
    with assms(3) show ?thesis by (simp add: DEST_SZ_def unat_word_ariths)
  qed
  have "?b \<le> length p"
    using assms d64 DEST_SZ_32 [OF assms(3)] by (auto simp: word_less_nat_alt)
  then obtain f where f: "findStdGzipFooter p ?b = Some f" "f \<le> int ?b - 8"
    "f = int ?b - 8 \<or> 10 \<le> f"
    by (rule findStdGzipFooter_Some)
  obtain v where v: "qzVerifyZlibHeader p src_len = Some v"
    using qzVerifyZlibHeader_Some assms(2) by blast
  obtain w where w: "get32 p 0 = Some w"
    using get32_Some [of 0 p] assms(1) by auto
  have m: "\<exists>b. match8 p [(0, 0x1f), (1, 0x8b), (2, QZ_DEFLATE), (3, 0)] = Some b"
    "\<exists>b. match8 p [(0, 0x1f), (1, 0x8b), (2, QZ_DEFLATE)] = Some b"
    "\<exists>b. match8 p [(12, 81), (13, 90)] = Some b"
    using assms(1) by (subst match8_Some; auto)+
  have far: "\<exists>s. get32_at p (f + 4) = Some s"
    if "\<not> (word_of_int (f - int stdGzipHeaderSz) :: u64) > DEST_SZ (ucast ?hw)"
  proof (rule get32_at_Some)
    show "f + 4 + 4 \<le> int (length p)" using f(2) \<open>?b \<le> length p\<close> by linarith
    show "0 \<le> f + 4"
    proof (rule ccontr)
      assume "\<not> 0 \<le> f + 4"
      moreover have "- 8 \<le> f" using f(3) by linarith
      ultimately have rng: "0 \<le> f - 10 + 2 ^ 64" "f - 10 + 2 ^ 64 < 2 ^ 64" by simp_all
      have "uint (word_of_int (f - 10) :: u64) = (f - 10) mod 2 ^ 64"
        using uint_word_of_int [where 'a = 64, of "f - 10"] by simp
      also have "\<dots> = (f - 10 + 2 ^ 64) mod 2 ^ 64" by (rule mod_add_self2 [symmetric])
      also have "\<dots> = f - 10 + 2 ^ 64" by (rule mod_pos_pos_trivial [OF rng])
      finally have "uint (word_of_int (f - 10) :: u64) = f - 10 + 2 ^ 64" .
      moreover have "9 * unat ?hw div 8 \<le> 589824" using assms(3) by linarith
      then have "int (9 * unat ?hw div 8 + 1024) < f - 10 + 2 ^ 64" using \<open>- 8 \<le> f\<close> by simp
      ultimately have "uint (DEST_SZ (ucast ?hw :: u64)) < uint (word_of_int (f - 10) :: u64)"
        by (simp only: uint_nat d64)
      with that show False by (simp add: word_less_def stdGzipHeaderSz_def)
    qed
  qed
  obtain b1 b2 b3 where m':
    "match8 p [(0, 0x1f), (1, 0x8b), (2, QZ_DEFLATE), (3, 0)] = Some b1"
    "match8 p [(0, 0x1f), (1, 0x8b), (2, QZ_DEFLATE)] = Some b2"
    "match8 p [(12, 81), (13, 90)] = Some b3"
    using m by blast
  note eqs = isQATDeflateProcessable_def Let_def bind.bind_lunit f(1) v w m'
  consider "i_data_fmt sp = DEFLATE_4B" | "i_data_fmt sp = DEFLATE_ZLIB"
    | "i_data_fmt sp \<noteq> DEFLATE_4B" "i_data_fmt sp \<noteq> DEFLATE_ZLIB" by blast
  then show ?thesis
  proof cases
    case 3
    show ?thesis
    proof (cases "(word_of_int (f - int stdGzipHeaderSz) :: u64) > DEST_SZ (ucast ?hw)")
      case True
      with 3 show ?thesis by (simp only: eqs simp_thms if_True if_False split: if_split) auto
    next
      case False
      then obtain s where "get32_at p (f + 4) = Some s" using far by blast
      with 3 False show ?thesis
        by (simp only: eqs simp_thms if_True if_False split: if_split) auto
    qed
  qed (simp_all only: eqs simp_thms if_True if_False DataFormatInternal.simps split: if_split, auto)
qed

theorem isQATDeflateProcessable_in_bounds_witness:
  "\<exists>rc sp'. isQATDeflateProcessable (replicate 14 0) 14 g_sess_params_internal_default
     = Some (rc, sp') \<and> rc \<in> {-1, 0, 1}"
  by (rule isQATDeflateProcessable_in_bounds)
     (simp_all add: g_sess_params_internal_default_def zero_params_def)

text \<open>The same test reads past the end of a shorter buffer: given the first three bytes of a
  gzip file and their length, it reads the fourth.\<close>

theorem isQATDeflateProcessable_overread:
  "isQATDeflateProcessable [0x1f, 0x8b, 8] 3 g_sess_params_internal_default = None"
  by (simp add: isQATDeflateProcessable_def g_sess_params_internal_default_def zero_params_def
      get8_def)

end
