(* ===== verification/XXHash.thy ===== *)
theory XXHash
  imports Prelude
begin

text \<open>
  The 32-bit xxHash of \<^verbatim>\<open>src/xxhash.c\<close>, which the LZ4 frame header checksum is made with:
  the one-shot function and the streaming interface (reset, update, digest) that keeps up to 15
  bytes of input between calls. The main result is that the two agree however the input is cut
  into pieces. The code is modelled for a little-endian machine, with any alignment.
\<close>

definition XXH_rotl32 :: "u32 \<Rightarrow> nat \<Rightarrow> u32" where
  "XXH_rotl32 x r = push_bit r x OR drop_bit (32 - r) x"

definition PRIME32_1 :: u32 where "PRIME32_1 = 2654435761"
definition PRIME32_2 :: u32 where "PRIME32_2 = 2246822519"
definition PRIME32_3 :: u32 where "PRIME32_3 = 3266489917"
definition PRIME32_4 :: u32 where "PRIME32_4 = 668265263"
definition PRIME32_5 :: u32 where "PRIME32_5 = 374761393"

definition XXH32_round :: "u32 \<Rightarrow> u32 \<Rightarrow> u32" where
  "XXH32_round seed inp = XXH_rotl32 (seed + inp * PRIME32_2) 13 * PRIME32_1"

definition XXH32_avalanche :: "u32 \<Rightarrow> u32" where
  "XXH32_avalanche h =
     (let h = h XOR drop_bit 15 h; h = h * PRIME32_2; h = h XOR drop_bit 13 h;
          h = h * PRIME32_3
      in h XOR drop_bit 16 h)"

definition PROCESS1 :: "u32 \<Rightarrow> u8 \<Rightarrow> u32" where
  "PROCESS1 h b = XXH_rotl32 (h + ucast b * PRIME32_5) 11 * PRIME32_1"

definition PROCESS4 :: "u32 \<Rightarrow> u32 \<Rightarrow> u32" where
  "PROCESS4 h w = XXH_rotl32 (h + w * PRIME32_3) 17 * PRIME32_4"

text \<open>The switch over the length of the tail: every case is as many 4-byte steps as fit, then
  single bytes.\<close>

fun XXH32_finalize :: "u32 \<Rightarrow> bytes \<Rightarrow> u32" where
  "XXH32_finalize h (a # b # c # d # r) = XXH32_finalize (PROCESS4 h (of_le [a, b, c, d])) r"
| "XXH32_finalize h (a # r) = XXH32_finalize (PROCESS1 h a) r"
| "XXH32_finalize h [] = XXH32_avalanche h"

text \<open>The four accumulators and the loop over whole 16-byte stripes; the rest is the tail.\<close>

type_synonym acc = "u32 \<times> u32 \<times> u32 \<times> u32"

fun XXH32_stripe :: "acc \<Rightarrow> bytes \<Rightarrow> acc" where
  "XXH32_stripe (v1, v2, v3, v4) p =
     (XXH32_round v1 (of_le (take 4 p)), XXH32_round v2 (of_le (take 4 (drop 4 p))),
      XXH32_round v3 (of_le (take 4 (drop 8 p))), XXH32_round v4 (of_le (take 4 (drop 12 p))))"

function XXH32_stripes :: "acc \<Rightarrow> bytes \<Rightarrow> acc \<times> bytes" where
  "XXH32_stripes v p =
     (if length p < 16 then (v, p) else XXH32_stripes (XXH32_stripe v p) (drop 16 p))"
  by pat_completeness auto
termination
  by (relation "measure (\<lambda>(v, p). length p)") auto

declare XXH32_stripes.simps [simp del] XXH32_stripe.simps [simp del]

definition XXH32_init :: "u32 \<Rightarrow> acc" where
  "XXH32_init seed = (seed + PRIME32_1 + PRIME32_2, seed + PRIME32_2, seed + 0, seed - PRIME32_1)"

fun XXH32_merge :: "acc \<Rightarrow> u32" where
  "XXH32_merge (v1, v2, v3, v4) =
     XXH_rotl32 v1 1 + XXH_rotl32 v2 7 + XXH_rotl32 v3 12 + XXH_rotl32 v4 18"

definition XXH32_endian_align :: "bytes \<Rightarrow> u32 \<Rightarrow> u32" where
  "XXH32_endian_align inp seed =
     (if length inp \<ge> 16 then
        (case XXH32_stripes (XXH32_init seed) inp of
           (v, p) \<Rightarrow> XXH32_finalize (XXH32_merge v + of_nat (length inp)) p)
      else XXH32_finalize (seed + PRIME32_5 + of_nat (length inp)) inp)"

definition XXH32 :: "bytes \<Rightarrow> u32 \<Rightarrow> u32" where
  "XXH32 inp seed = XXH32_endian_align inp seed"

section \<open>Streaming\<close>

text \<open>\<open>mem32\<close> and \<open>memsize\<close> of the C state are the list of the bytes kept.\<close>

record XXH32_state =
  total_len_32 :: u32
  large_len :: bool
  vs :: acc
  mem32 :: bytes

definition XXH32_reset :: "u32 \<Rightarrow> XXH32_state" where
  "XXH32_reset seed = \<lparr>total_len_32 = 0, large_len = False, vs = XXH32_init seed, mem32 = []\<rparr>"

definition XXH32_count :: "XXH32_state \<Rightarrow> bytes \<Rightarrow> u32" where
  "XXH32_count st inp = total_len_32 st + of_nat (length inp)"

definition XXH32_large :: "XXH32_state \<Rightarrow> bytes \<Rightarrow> bool" where
  "XXH32_large st inp \<longleftrightarrow> large_len st \<or> 16 \<le> length inp \<or> 16 \<le> XXH32_count st inp"

definition XXH32_update :: "XXH32_state \<Rightarrow> bytes \<Rightarrow> XXH32_state" where
  "XXH32_update st inp =
     (let st = st\<lparr>total_len_32 := XXH32_count st inp, large_len := XXH32_large st inp\<rparr> in
      if length (mem32 st) + length inp < 16 then st\<lparr>mem32 := mem32 st @ inp\<rparr>
      else
        let (v, p) = (if mem32 st \<noteq> [] then
               (XXH32_stripe (vs st) (mem32 st @ take (16 - length (mem32 st)) inp),
                drop (16 - length (mem32 st)) inp)
             else (vs st, inp));
            (v', p') = XXH32_stripes v p
        in st\<lparr>vs := v', mem32 := p'\<rparr>)"

definition XXH32_digest :: "XXH32_state \<Rightarrow> u32" where
  "XXH32_digest st =
     (let h = (if large_len st then XXH32_merge (vs st)
               else fst (snd (snd (vs st))) + PRIME32_5)
      in XXH32_finalize (h + total_len_32 st) (mem32 st))"

text \<open>Published test vectors.\<close>

lemma XXH32_vectors: "XXH32 [] 0 = 0x02CC5D05 \<and> XXH32 [97] 0 = 0x550D7456"
  by code_simp

section \<open>Streaming agrees with one-shot hashing\<close>

lemma XXH32_stripe_append: "16 \<le> length p \<Longrightarrow> XXH32_stripe v (p @ q) = XXH32_stripe v p"
  by (cases v) (simp add: XXH32_stripe.simps)

lemma XXH32_stripes_short: "length p < 16 \<Longrightarrow> XXH32_stripes v p = (v, p)"
  by (simp add: XXH32_stripes.simps)

lemma XXH32_stripes_step:
  "length s = 16 \<Longrightarrow> XXH32_stripes v (s @ p) = XXH32_stripes (XXH32_stripe v s) p"
  by (subst XXH32_stripes.simps) (simp add: XXH32_stripe_append)

lemma XXH32_stripes_rest: "XXH32_stripes v p = (v', r) \<Longrightarrow> length r < 16"
proof (induction v p rule: XXH32_stripes.induct)
  case (1 v p)
  show ?case
    by (cases "length p < 16") (use 1 in \<open>auto simp: XXH32_stripes.simps [of v p]\<close>)
qed

text \<open>Cutting the input: whatever was left of the first part is put before the second.\<close>

lemma XXH32_stripes_append:
  "XXH32_stripes v (p @ q) =
     (case XXH32_stripes v p of (v', r) \<Rightarrow> XXH32_stripes v' (r @ q))"
proof (induction v p rule: XXH32_stripes.induct)
  case (1 v p)
  show ?case
  proof (cases "length p < 16")
    case False
    then have "p @ q = take 16 p @ (drop 16 p @ q)" by simp
    moreover have "length (take 16 p) = 16" using False by simp
    ultimately have "XXH32_stripes v (p @ q) =
        XXH32_stripes (XXH32_stripe v (take 16 p)) (drop 16 p @ q)"
      by (metis XXH32_stripes_step)
    moreover have "XXH32_stripe v (take 16 p) = XXH32_stripe v p"
      using XXH32_stripe_append [of "take 16 p" v "drop 16 p"] False by simp
    ultimately show ?thesis
      using "1.IH" [OF False] False by (simp add: XXH32_stripes.simps [of v p])
  qed (simp add: XXH32_stripes_short)
qed

text \<open>The state after hashing \<open>inp\<close>.\<close>

definition xxh_inv :: "u32 \<Rightarrow> bytes \<Rightarrow> XXH32_state \<Rightarrow> bool" where
  "xxh_inv seed inp st \<longleftrightarrow>
     total_len_32 st = of_nat (length inp) \<and> (large_len st \<longleftrightarrow> 16 \<le> length inp) \<and>
     XXH32_stripes (XXH32_init seed) inp = (vs st, mem32 st)"

lemma xxh_inv_reset: "xxh_inv seed [] (XXH32_reset seed)"
  by (simp add: xxh_inv_def XXH32_reset_def XXH32_stripes_short)

lemma or_length_cases:
  "(a < 16 \<Longrightarrow> b < 16 \<Longrightarrow> T = (16 \<le> a + b)) \<Longrightarrow> L = (16 \<le> a) \<Longrightarrow>
   (L \<or> 16 \<le> b \<or> T) = (16 \<le> a + (b :: nat))"
  by (cases "a < 16"; cases "b < 16") auto

lemma xxh_count_large:
  assumes "xxh_inv seed inp st"
  shows "XXH32_count st q = of_nat (length (inp @ q))"
    and "XXH32_large st q \<longleftrightarrow> 16 \<le> length inp + length q"
proof -
  show c: "XXH32_count st q = of_nat (length (inp @ q))"
    using assms by (simp add: xxh_inv_def XXH32_count_def)
  have "length inp < 16 \<Longrightarrow> length q < 16 \<Longrightarrow> (16 \<le> XXH32_count st q) = (16 \<le> length inp + length q)"
    unfolding c by (simp add: word_le_nat_alt unat_of_nat del: of_nat_add)
  moreover have "large_len st = (16 \<le> length inp)"
    using assms unfolding xxh_inv_def by blast
  ultimately show "XXH32_large st q \<longleftrightarrow> 16 \<le> length inp + length q"
    unfolding XXH32_large_def by (rule or_length_cases)
qed

lemma xxh_inv_update:
  assumes inv: "xxh_inv seed inp st"
  shows "xxh_inv seed (inp @ q) (XXH32_update st q)"
proof -
  let ?m = "mem32 st"
  have st: "XXH32_stripes (XXH32_init seed) inp = (vs st, ?m)"
    using inv by (simp add: xxh_inv_def)
  have m: "length ?m < 16" using XXH32_stripes_rest [OF st] .
  obtain v' p' where vp: "XXH32_stripes (vs st) (?m @ q) = (v', p')" by fastforce
  have "XXH32_update st q = st\<lparr>total_len_32 := XXH32_count st q, large_len := XXH32_large st q,
      vs := v', mem32 := p'\<rparr>"
  proof (cases "length ?m + length q < 16")
    case True
    then have "XXH32_stripes (vs st) (?m @ q) = (vs st, ?m @ q)"
      by (simp add: XXH32_stripes_short)
    then show ?thesis
      using True vp by (simp add: XXH32_update_def)
  next
    case False
    let ?s = "?m @ take (16 - length ?m) q" and ?r = "drop (16 - length ?m) q"
    have "XXH32_stripes (vs st) (?s @ ?r) = XXH32_stripes (XXH32_stripe (vs st) ?s) ?r"
      by (rule XXH32_stripes_step) (use False m in simp)
    then have "XXH32_stripes (XXH32_stripe (vs st) ?s) ?r = (v', p')"
      using vp by simp
    then show ?thesis
      using False vp by (cases "?m = []") (simp_all add: XXH32_update_def)
  qed
  then show ?thesis
    using vp by (simp add: xxh_inv_def xxh_count_large [OF inv] st
        XXH32_stripes_append [of "XXH32_init seed" inp q])
qed

lemma xxh_inv_digest:
  assumes "xxh_inv seed inp st"
  shows "XXH32_digest st = XXH32 inp seed"
proof (cases "16 \<le> length inp")
  case True
  with assms show ?thesis
    by (simp add: xxh_inv_def XXH32_digest_def XXH32_def XXH32_endian_align_def)
next
  case False
  then have "XXH32_stripes (XXH32_init seed) inp = (XXH32_init seed, inp)"
    by (simp add: XXH32_stripes_short)
  with False assms show ?thesis
    by (simp add: xxh_inv_def XXH32_digest_def XXH32_def XXH32_endian_align_def XXH32_init_def)
qed

lemma xxh_inv_fold: "xxh_inv seed inp st \<Longrightarrow>
    xxh_inv seed (inp @ concat cs) (fold (\<lambda>c s. XXH32_update s c) cs st)"
proof (induction cs arbitrary: inp st)
  case (Cons c cs)
  then show ?case
    using Cons.IH [OF xxh_inv_update [OF Cons.prems, of c]] by simp
qed simp

text \<open>C6: Hashing a message in any number of pieces of any sizes gives the same 32-bit xxHash as
  hashing it at once: the bytes kept between two updates, the wrapping length counter and the
  16-byte switch agree with the one-shot code.\<close>

theorem XXH32_streaming_eq_oneshot:
  "XXH32_digest (fold (\<lambda>c s. XXH32_update s c) chunks (XXH32_reset seed)) =
     XXH32 (concat chunks) seed"
  using xxh_inv_digest [OF xxh_inv_fold [OF xxh_inv_reset, of seed chunks]] by simp

end
