(* ===== verification/Lz4.thy ===== *)
theory Lz4
  imports Types XXHash
begin

text \<open>
  The LZ4 frame format of \<^verbatim>\<open>src/qatzip_lz4.c\<close>: the frame header with its xxHash checksum, the
  frame footer, the header check of decompression, and the walk over the blocks of a frame that
  finds its footer. The walk adds block sizes read from the data to a 32-bit counter; it is
  modelled with that width, so its result says whether it returned, read outside the data or
  ran out of fuel.
\<close>

abbreviation (input) QZ_LZ4_MAGIC :: u32 where "QZ_LZ4_MAGIC \<equiv> 0x184D2204"
abbreviation (input) QZ_LZ4_MAGIC_SKIPPABLE :: u32 where "QZ_LZ4_MAGIC_SKIPPABLE \<equiv> 0x184D2A50"

record QzLZ4H =
  magic :: u32
  flag_desc :: u8
  block_desc :: u8
  cnt_size :: u64
  hdr_cksum :: u8

record QzLZ4F =
  end_mark :: u32
  cnt_cksum :: u32

definition QzLZ4H_bytes :: "QzLZ4H \<Rightarrow> bytes" where
  [enc_defs]: "QzLZ4H_bytes h = le_bytes 4 (magic h) @ [flag_desc h, block_desc h] @
     le_bytes 8 (cnt_size h) @ [hdr_cksum h]"

definition QzLZ4F_bytes :: "QzLZ4F \<Rightarrow> bytes" where
  [enc_defs]: "QzLZ4F_bytes f = le_bytes 4 (end_mark f) @ le_bytes 4 (cnt_cksum f)"

definition qzLZ4HeaderSz :: nat where "qzLZ4HeaderSz = 15"
definition qzLZ4FooterSz :: nat where "qzLZ4FooterSz = 8"
definition qzLZ4SBlockHeaderSz :: nat where "qzLZ4SBlockHeaderSz = 4"

lemmas lz4_size_defs = qzLZ4HeaderSz_def qzLZ4FooterSz_def qzLZ4SBlockHeaderSz_def

section \<open>Generators\<close>

text \<open>Version 1, dependent blocks, no block checksum, content size and content checksum
  present, no dictionary; 64 KB blocks. The header checksum is the second byte of the hash of
  the 10 descriptor bytes before it.\<close>

definition lz4_flag_desc :: u8 where
  "lz4_flag_desc = push_bit 6 (1 AND 3) + push_bit 5 (0 AND 1) + push_bit 4 (0 AND 1) +
     push_bit 3 (1 AND 1) + push_bit 2 (1 AND 1) + (0 AND 1)"

definition qzLZ4HeaderGen :: "CpaDcRqResults \<Rightarrow> QzLZ4H" where
  "qzLZ4HeaderGen res =
     (let h = \<lparr>magic = QZ_LZ4_MAGIC, flag_desc = lz4_flag_desc,
               block_desc = push_bit 4 (4 AND 7), cnt_size = ucast (consumed res),
               hdr_cksum = 0\<rparr>
      in h\<lparr>hdr_cksum := ucast (drop_bit 8 (XXH32 (take 10 (drop 4 (QzLZ4H_bytes h))) 0) AND 0xff)\<rparr>)"

definition qzLZ4FooterGen :: "CpaDcRqResults \<Rightarrow> QzLZ4F" where
  "qzLZ4FooterGen res = \<lparr>end_mark = 0, cnt_cksum = checksum res\<rparr>"

definition qzLZ4SBlockHeaderGen :: "CpaDcRqResults \<Rightarrow> bytes" where
  "qzLZ4SBlockHeaderGen res = le_bytes 4 (produced res)"

section \<open>Header check\<close>

definition lz4_flags_unsupported :: "u8 \<Rightarrow> bool" where
  "lz4_flags_unsupported fl \<longleftrightarrow> fl AND 1 \<noteq> 0 \<or> drop_bit 4 fl AND 1 \<noteq> 0 \<or>
     drop_bit 2 fl AND 1 \<noteq> 1 \<or> drop_bit 3 fl AND 1 \<noteq> 1"

text \<open>\<open>None\<close> is the failed assertion \<open>len >= QZ_LZ4_HEADER_SIZE\<close> or a read outside the data.\<close>

definition qzVerifyLZ4FrameHeader :: "bytes \<Rightarrow> u32 \<Rightarrow> status option" where
  "qzVerifyLZ4FrameHeader p len =
     (if unat len < qzLZ4HeaderSz then None
      else do {
        m \<leftarrow> get32 p 0;
        if m AND 0xFFFFFFF0 = QZ_LZ4_MAGIC_SKIPPABLE then Some QZ_FORCE_SW
        else if m \<noteq> QZ_LZ4_MAGIC then Some QZ_FAIL
        else do {
          fl \<leftarrow> get8 p 4;
          if drop_bit 6 fl AND 3 \<noteq> 1 then Some QZ_FAIL
          else if lz4_flags_unsupported fl then Some QZ_FORCE_SW
          else Some QZ_OK } })"

section \<open>Finding the frame footer\<close>

datatype 'a outcome = Returned 'a | Fault | OutOfFuel

fun findLZ4Footer_loop :: "nat \<Rightarrow> bytes \<Rightarrow> nat \<Rightarrow> u32 \<Rightarrow> nat option outcome" where
  "findLZ4Footer_loop 0 p avail frame_sz = OutOfFuel"
| "findLZ4Footer_loop (Suc n) p avail frame_sz =
     (if avail \<ge> unat frame_sz then
        (case get32_at p (int (unat frame_sz) - int qzLZ4FooterSz) of
           None \<Rightarrow> Fault
         | Some mark \<Rightarrow>
             if mark = 0 then Returned (Some (unat frame_sz - qzLZ4FooterSz))
             else findLZ4Footer_loop n p avail (frame_sz + (mark AND 0x7fffffff) + 4))
      else Returned None)"

definition findLZ4Footer :: "nat \<Rightarrow> bytes \<Rightarrow> nat \<Rightarrow> nat option outcome" where
  "findLZ4Footer n p avail =
     (if avail < qzLZ4HeaderSz + 4 + qzLZ4FooterSz then Returned None
      else case get32 p qzLZ4HeaderSz of
        None \<Rightarrow> Fault
      | Some b \<Rightarrow> findLZ4Footer_loop n p avail ((b AND 0x7fffffff) + 15 + 4 + 8))"

text \<open>Enough fuel for data of this length when the counter does not wrap.\<close>

definition lz4_fuel :: "nat \<Rightarrow> nat" where "lz4_fuel avail = avail div 4 + 2"

definition isQATLZ4Processable :: "bytes \<Rightarrow> u32 \<Rightarrow> u32 \<Rightarrow> int outcome" where
  "isQATLZ4Processable p src_len hw =
     (if unat src_len < qzLZ4HeaderSz then Returned 0
      else case get32 p 0 of
        None \<Rightarrow> Fault
      | Some m \<Rightarrow>
          if m AND 0xFFFFFFF0 = QZ_LZ4_MAGIC_SKIPPABLE then Returned 0
          else if m \<noteq> QZ_LZ4_MAGIC then Returned 0
          else (case get8 p 4 of
            None \<Rightarrow> Fault
          | Some fl \<Rightarrow>
              if drop_bit 6 fl AND 3 \<noteq> 1 then Returned 0
              else if lz4_flags_unsupported fl then Returned 0
              else (case findLZ4Footer (lz4_fuel (unat src_len)) p (unat src_len) of
                  Returned None \<Rightarrow> Returned 0
                | Returned (Some f) \<Rightarrow>
                    if (of_nat f - 15 :: u32) > DEST_SZ hw then Returned 0 else Returned 1
                | Fault \<Rightarrow> Fault | OutOfFuel \<Rightarrow> OutOfFuel)))"

section \<open>Correctness\<close>

text \<open>A frame as the format describes it: blocks, each a size word and its data, then the zero
  end mark and the content checksum. The top bit of the size word marks a stored block.\<close>

fun lz4_blocks :: "(bool \<times> bytes) list \<Rightarrow> bytes" where
  "lz4_blocks [] = []"
| "lz4_blocks ((stored, d) # bs) =
     le_bytes 4 (of_nat (length d) OR (if stored then 0x80000000 else 0) :: u32) @ d @
     lz4_blocks bs"

definition lz4_block_ok :: "bool \<times> bytes \<Rightarrow> bool" where
  "lz4_block_ok b \<longleftrightarrow> 0 < length (snd b) \<and> length (snd b) < 2 ^ 31"

lemma unat_mask31: "unat (w AND 0x7fffffff :: u32) < 2 ^ 31"
proof -
  have "w AND 0x7fffffff = take_bit 31 w"
    by (simp add: take_bit_eq_mask mask_eq_exp_minus_1)
  then show ?thesis
    using take_bit_nat_less_exp [of 31 "unat w"] by (simp add: unsigned_take_bit_eq)
qed

lemma block_word:
  assumes "length d < 2 ^ 31"
  shows "unat ((of_nat (length d) OR (if st then 0x80000000 else 0) :: u32) AND 0x7fffffff)
      = length d" (is ?A)
    and "0 < length d \<Longrightarrow> (of_nat (length d) OR (if st then 0x80000000 else 0) :: u32) \<noteq> 0"
proof -
  let ?n = "of_nat (length d) :: u32"
  have un: "unat ?n = length d"
    using assms by (simp add: unat_of_nat)
  have tb: "take_bit 31 ?n = ?n"
    using assms by (simp add: take_bit_of_nat take_bit_nat_eq_self)
  have "x AND 0x7fffffff = take_bit 31 x" for x :: u32
    by (simp add: take_bit_eq_mask mask_eq_exp_minus_1)
  moreover have "take_bit 31 (?n OR (if st then 0x80000000 else 0)) = ?n"
    by (simp add: tb)
  ultimately show ?A using un by simp
  show "?n OR (if st then 0x80000000 else 0) \<noteq> 0" if "0 < length d"
  proof
    assume "?n OR (if st then 0x80000000 else 0) = 0"
    then have "?n = 0" by (simp add: or_eq_0_iff split: if_splits)
    then show False using un that by simp
  qed
qed

text \<open>Every step of the walk moves forward by at least the 4 bytes of a block header, as long as
  the counter cannot wrap.\<close>

lemma lz4_advance:
  assumes "unat frame_sz \<le> avail" and "avail \<le> 2 ^ 31 - 4"
  shows "unat (frame_sz + (mark AND 0x7fffffff) + 4 :: u32) =
           unat frame_sz + unat (mark AND 0x7fffffff) + 4"
  using assms unat_mask31 [of mark] by (simp add: unat_word_ariths)

lemma findLZ4Footer_loop_returns:
  assumes "avail \<le> 2 ^ 31 - 4" and "avail \<le> length p" and "8 \<le> unat frame_sz"
    and "avail < unat frame_sz + 4 * n"
  shows "\<exists>r. findLZ4Footer_loop (Suc n) p avail frame_sz = Returned r \<and>
           (\<forall>f. r = Some f \<longrightarrow> unat frame_sz - 8 \<le> f \<and> f + 8 \<le> avail \<and> get32 p f = Some 0)"
  using assms(3,4)
proof (induction n arbitrary: frame_sz)
  case 0
  then show ?case by simp
next
  case (Suc n)
  show ?case
  proof (cases "unat frame_sz \<le> avail")
    case False
    then show ?thesis by simp
  next
    case True
    have "\<exists>w. get32 p (unat frame_sz - 8) = Some w"
      using True Suc.prems assms(2) by (intro get32_Some) linarith
    then obtain w where w: "get32 p (unat frame_sz - 8) = Some w" ..
    then have at: "get32_at p (int (unat frame_sz) - int qzLZ4FooterSz) = Some w"
      using Suc.prems get32_at_diff [of 8 "unat frame_sz" p] by (simp add: lz4_size_defs)
    show ?thesis
    proof (cases "w = 0")
      case True
      then show ?thesis
        using at w \<open>unat frame_sz \<le> avail\<close> Suc.prems by (simp add: lz4_size_defs)
    next
      case False
      let ?fs = "frame_sz + (w AND 0x7fffffff) + 4"
      have u: "unat ?fs = unat frame_sz + unat (w AND 0x7fffffff) + 4"
        by (rule lz4_advance [OF True assms(1)])
      have "\<exists>r. findLZ4Footer_loop (Suc n) p avail ?fs = Returned r \<and>
           (\<forall>f. r = Some f \<longrightarrow> unat ?fs - 8 \<le> f \<and> f + 8 \<le> avail \<and> get32 p f = Some 0)"
        by (rule Suc.IH) (use u Suc.prems in simp_all)
      moreover have "findLZ4Footer_loop (Suc (Suc n)) p avail frame_sz =
          findLZ4Footer_loop (Suc n) p avail ?fs"
        using True False at by simp
      ultimately show ?thesis using u by fastforce
    qed
  qed
qed

lemma findLZ4Footer_returns:
  assumes "avail \<le> 2 ^ 31 - 4" and "avail \<le> length p"
  shows "\<exists>r. findLZ4Footer (lz4_fuel avail) p avail = Returned r \<and>
           (\<forall>f. r = Some f \<longrightarrow> 19 \<le> f \<and> f + 8 \<le> avail \<and> get32 p f = Some 0)"
proof (cases "avail < 27")
  case True
  then show ?thesis by (simp add: findLZ4Footer_def lz4_size_defs)
next
  case False
  then obtain b where b: "get32 p 15 = Some b"
    using get32_Some [of 15 p] assms(2) by auto
  let ?fs = "(b AND 0x7fffffff) + 15 + 4 + 8"
  have u: "unat ?fs = unat (b AND 0x7fffffff) + 27"
    using unat_mask31 [of b] by (simp add: unat_word_ariths)
  have "\<exists>r. findLZ4Footer_loop (Suc (avail div 4 + 1)) p avail ?fs = Returned r \<and>
      (\<forall>f. r = Some f \<longrightarrow> unat ?fs - 8 \<le> f \<and> f + 8 \<le> avail \<and> get32 p f = Some 0)"
    by (rule findLZ4Footer_loop_returns) (use assms u in simp_all)
  then show ?thesis
    using False b u by (auto simp: findLZ4Footer_def lz4_fuel_def lz4_size_defs numeral_2_eq_2)
qed

text \<open>Walking over the blocks of a well-formed frame.\<close>

lemma findLZ4Footer_loop_blocks:
  assumes "\<forall>b \<in> set bs. lz4_block_ok b"
    and "p = pre @ lz4_blocks bs @ le_bytes 4 (0 :: u32) @ ck @ rest" and "length ck = 4"
    and "length pre + length (lz4_blocks bs) + 8 \<le> avail" and "avail \<le> 2 ^ 31 - 4"
    and "unat frame_sz = length pre + 8" and "length bs < n"
  shows "findLZ4Footer_loop n p avail frame_sz =
           Returned (Some (length pre + length (lz4_blocks bs)))"
  using assms
proof (induction bs arbitrary: pre frame_sz n)
  case Nil
  then obtain m where n: "n = Suc m" by (cases n) auto
  have "get32 p (length pre) = Some 0"
    using Nil.prems(2) by (simp add: get32_bytes)
  then show ?case
    using Nil.prems n get32_at_diff [of 8 "unat frame_sz" p] by (simp add: lz4_size_defs)
next
  case (Cons b bs)
  obtain st d where b: "b = (st, d)" by (cases b)
  let ?w = "of_nat (length d) OR (if st then 0x80000000 else 0) :: u32"
  have ok: "0 < length d" "length d < 2 ^ 31"
    using Cons.prems(1) b by (auto simp: lz4_block_ok_def)
  obtain m where n: "n = Suc m" using Cons.prems(7) by (cases n) auto
  have "get32 p (length pre) = Some ?w"
    using Cons.prems(2) b by (simp add: get32_bytes)
  then have at: "get32_at p (int (unat frame_sz) - int qzLZ4FooterSz) = Some ?w"
    using Cons.prems(6) get32_at_diff [of 8 "unat frame_sz" p] by (simp add: lz4_size_defs)
  have w: "?w \<noteq> 0" "unat (?w AND 0x7fffffff) = length d"
    using block_word ok by blast+
  have fits: "unat frame_sz \<le> avail" using Cons.prems(4,6) by simp
  let ?fs = "frame_sz + (?w AND 0x7fffffff) + 4"
  have u: "unat ?fs = length (pre @ le_bytes 4 ?w @ d) + 8"
    using lz4_advance [OF fits Cons.prems(5), of ?w] w(2) Cons.prems(6) by simp
  have "findLZ4Footer_loop m p avail ?fs =
      Returned (Some (length (pre @ le_bytes 4 ?w @ d) + length (lz4_blocks bs)))"
    by (rule Cons.IH) (use Cons.prems b n u in \<open>simp_all\<close>)
  moreover have "findLZ4Footer_loop n p avail frame_sz = findLZ4Footer_loop m p avail ?fs"
    using n fits at w(1) by simp
  ultimately show ?case using b by simp
qed

lemma length_QzLZ4H_bytes [simp]: "length (QzLZ4H_bytes h) = 15"
  by (simp add: QzLZ4H_bytes_def)

lemma length_blocks: "4 * length bs \<le> length (lz4_blocks bs)"
  by (induction bs rule: lz4_blocks.induct) auto

section \<open>Properties\<close>

text \<open>The LZ4 frame header written for a hardware result is accepted by the header check of
  decompression, whatever data follows it, and holds the uncompressed size.\<close>

theorem lz4_header_accepted:
  assumes "15 \<le> unat n"
  shows "qzVerifyLZ4FrameHeader (QzLZ4H_bytes (qzLZ4HeaderGen res) @ rest) n = Some QZ_OK \<and>
   get64 (QzLZ4H_bytes (qzLZ4HeaderGen res) @ rest) 6 = Some (ucast (consumed res))"
proof
  let ?h = "qzLZ4HeaderGen res"
  have m: "get32 (QzLZ4H_bytes ?h @ rest) 0 = Some QZ_LZ4_MAGIC"
  proof -
    have "get32 ([] @ le_bytes 4 (magic ?h) @ [flag_desc ?h, block_desc ?h] @
        le_bytes 8 (cnt_size ?h) @ [hdr_cksum ?h] @ rest) 0 = Some (magic ?h)"
      by (rule get32_bytes) simp
    then show ?thesis by (simp add: QzLZ4H_bytes_def qzLZ4HeaderGen_def Let_def)
  qed
  have f: "get8 (QzLZ4H_bytes ?h @ rest) 4 = Some lz4_flag_desc"
    by (simp add: QzLZ4H_bytes_def nth_append) (simp add: qzLZ4HeaderGen_def Let_def)
  show "qzVerifyLZ4FrameHeader (QzLZ4H_bytes ?h @ rest) n = Some QZ_OK"
    using assms by (simp add: qzVerifyLZ4FrameHeader_def m f lz4_size_defs)
       (simp add: lz4_flag_desc_def lz4_flags_unsupported_def)
  have "get64 ((le_bytes 4 (magic ?h) @ [flag_desc ?h, block_desc ?h]) @
      le_bytes 8 (cnt_size ?h) @ [hdr_cksum ?h] @ rest) 6 = Some (cnt_size ?h)"
    by (rule get64_at) simp
  then show "get64 (QzLZ4H_bytes ?h @ rest) 6 = Some (ucast (consumed res))"
    by (simp add: QzLZ4H_bytes_def) (simp add: qzLZ4HeaderGen_def Let_def)
qed

theorem lz4_header_accepted_witness:
  "qzVerifyLZ4FrameHeader (QzLZ4H_bytes (qzLZ4HeaderGen \<lparr>res_status = 0, produced = 9,
     consumed = 70000, checksum = 5, endOfLastBlock = False\<rparr>) @ [1, 2]) 17 = Some QZ_OK"
  using lz4_header_accepted [of 17 "\<lparr>res_status = 0, produced = 9, consumed = 70000,
    checksum = 5, endOfLastBlock = False\<rparr>" "[1, 2]"] by simp

text \<open>C26: For less than 2 GB of data the search for an LZ4 footer returns, reads only inside the
  data, and gives either no footer or the offset of a zero end mark with the whole footer
  inside the data.\<close>

theorem findLZ4Footer_terminates:
  assumes "avail \<le> 2 ^ 31 - 4" and "avail \<le> length p"
  shows "\<exists>r. findLZ4Footer (lz4_fuel avail) p avail = Returned r \<and>
           (\<forall>f. r = Some f \<longrightarrow> 19 \<le> f \<and> f + 8 \<le> avail \<and> get32 p f = Some 0)"
  using assms by (rule findLZ4Footer_returns)

theorem findLZ4Footer_terminates_witness:
  "\<exists>r. findLZ4Footer (lz4_fuel 40) (replicate 40 1) 40 = Returned r \<and>
     (\<forall>f. r = Some f \<longrightarrow> 19 \<le> f \<and> f + 8 \<le> 40 \<and> get32 (replicate 40 1) f = Some 0)"
  by (rule findLZ4Footer_terminates) simp_all

text \<open>C10: On a well-formed LZ4 frame (a header, at least one block, all blocks non-empty, the end
  mark and the checksum) followed by any data, the search finds exactly the end mark that
  closes the frame: the blocks' contents are skipped by their sizes.\<close>

theorem findLZ4Footer_frame:
  assumes "length hdr = 15" and "bs \<noteq> []" and "\<forall>b \<in> set bs. lz4_block_ok b"
    and "length ck = 4"
    and "length (hdr @ lz4_blocks bs @ le_bytes 4 (0 :: u32) @ ck @ rest) \<le> 2 ^ 31 - 4"
  shows "findLZ4Footer (lz4_fuel (length (hdr @ lz4_blocks bs @ le_bytes 4 (0 :: u32) @ ck @ rest)))
           (hdr @ lz4_blocks bs @ le_bytes 4 (0 :: u32) @ ck @ rest)
           (length (hdr @ lz4_blocks bs @ le_bytes 4 (0 :: u32) @ ck @ rest))
         = Returned (Some (15 + length (lz4_blocks bs)))"
proof -
  let ?p = "hdr @ lz4_blocks bs @ le_bytes 4 (0 :: u32) @ ck @ rest"
  obtain st d cs where bs: "bs = (st, d) # cs" using assms(2) by (cases bs) auto
  let ?w = "of_nat (length d) OR (if st then 0x80000000 else 0) :: u32"
  have ok: "0 < length d" "length d < 2 ^ 31"
    using assms(3) bs by (auto simp: lz4_block_ok_def)
  have w: "unat (?w AND 0x7fffffff) = length d"
    using block_word(1) ok by blast
  have g: "get32 ?p 15 = Some ?w"
    using assms(1) bs by (simp add: get32_bytes)
  let ?fs = "(?w AND 0x7fffffff) + 15 + 4 + 8"
  have u: "unat ?fs = length (hdr @ le_bytes 4 ?w @ d) + 8"
    using ok w assms(1) by (simp add: unat_word_ariths)
  have "findLZ4Footer_loop (lz4_fuel (length ?p)) ?p (length ?p) ?fs =
      Returned (Some (length (hdr @ le_bytes 4 ?w @ d) + length (lz4_blocks cs)))"
  proof (rule findLZ4Footer_loop_blocks)
    show "length cs < lz4_fuel (length ?p)"
      using length_blocks [of cs] bs by (simp add: lz4_fuel_def)
  qed (use assms bs u in simp_all)
  then show ?thesis
    using g assms(1,4) bs by (simp add: findLZ4Footer_def lz4_size_defs)
qed

theorem findLZ4Footer_frame_witness:
  "findLZ4Footer (lz4_fuel 45) (replicate 15 9 @ lz4_blocks [(True, [0, 0, 0, 0, 0]), (False, [7])] @
     le_bytes 4 (0 :: u32) @ [1, 2, 3, 4] @ replicate 8 5) 45 = Returned (Some 29)"
  using findLZ4Footer_frame [of "replicate 15 9" "[(True, [0, 0, 0, 0, 0]), (False, [7])]"
    "[1, 2, 3, 4]" "replicate 8 5"]
  by (simp add: lz4_block_ok_def)

end
