(* ===== verification/Format.thy ===== *)
theory Format
  imports Session Gzip Lz4
begin

text \<open>
  The dispatch over the data formats (\<^verbatim>\<open>src/qatzip_utils.c\<close>): header and footer sizes and
  generators, the test whether the hardware can take a buffer, and \<open>checkHeader\<close>, with which
  decompression finds the size of the next compressed member and decides between hardware,
  software and an error.
\<close>

definition outputFooterSz :: "DataFormatInternal \<Rightarrow> nat" where
  "outputFooterSz fmt = (case fmt of
     DEFLATE_4B \<Rightarrow> 0 | DEFLATE_RAW \<Rightarrow> 0 | LZ4_FH \<Rightarrow> qzLZ4FooterSz | LZ4S_BK \<Rightarrow> 0
   | DEFLATE_ZLIB \<Rightarrow> stdZlibFooterSz | _ \<Rightarrow> stdGzipFooterSz)"

definition outputHeaderSz :: "DataFormatInternal \<Rightarrow> nat" where
  "outputHeaderSz fmt = (case fmt of
     DEFLATE_4B \<Rightarrow> qz4BHeaderSz | DEFLATE_RAW \<Rightarrow> 0 | DEFLATE_GZIP \<Rightarrow> stdGzipHeaderSz
   | LZ4_FH \<Rightarrow> qzLZ4HeaderSz | LZ4S_BK \<Rightarrow> qzLZ4SBlockHeaderSz
   | DEFLATE_ZLIB \<Rightarrow> stdZlibHeaderSz | _ \<Rightarrow> qzGzipHeaderSz)"

definition outputHeaderGen :: "CpaDcRqResults \<Rightarrow> DataFormatInternal \<Rightarrow> bytes" where
  "outputHeaderGen res fmt = (case fmt of
     DEFLATE_4B \<Rightarrow> qz4BHeaderGen res | DEFLATE_RAW \<Rightarrow> []
   | DEFLATE_GZIP \<Rightarrow> StdGzH_bytes (stdGzipHeaderGen res)
   | LZ4_FH \<Rightarrow> QzLZ4H_bytes (qzLZ4HeaderGen res) | LZ4S_BK \<Rightarrow> qzLZ4SBlockHeaderGen res
   | DEFLATE_ZLIB \<Rightarrow> StdZlibH_bytes (stdZlibHeaderGen res)
   | _ \<Rightarrow> QzGzH_bytes (qzGzipHeaderGen res))"

definition outputFooterGen :: "CpaDcRqResults \<Rightarrow> DataFormatInternal \<Rightarrow> bytes" where
  "outputFooterGen res fmt = (case fmt of
     DEFLATE_RAW \<Rightarrow> [] | LZ4_FH \<Rightarrow> QzLZ4F_bytes (qzLZ4FooterGen res) | LZ4S_BK \<Rightarrow> []
   | DEFLATE_ZLIB \<Rightarrow> le_bytes 4 (qzZlibFooterGen res)
   | _ \<Rightarrow> StdGzF_bytes (qzGzipFooterGen res))"

lemmas fmt_size_defs = outputHeaderSz_def outputFooterSz_def gz_size_defs lz4_size_defs

text \<open>A possibly failing read as an outcome.\<close>

definition of_option :: "'a option \<Rightarrow> 'a outcome" where
  "of_option x = (case x of None \<Rightarrow> Fault | Some a \<Rightarrow> Returned a)"

fun obind :: "'a outcome \<Rightarrow> ('a \<Rightarrow> 'b outcome) \<Rightarrow> 'b outcome" where
  "obind (Returned a) f = f a" | "obind Fault f = Fault" | "obind OutOfFuel f = OutOfFuel"

text \<open>\<open>p\<close> are the accessible bytes. The session's data format may be changed to standard gzip
  on the way.\<close>

definition isQATProcessable :: "bytes \<Rightarrow> u32 \<Rightarrow> QzSess \<Rightarrow> (int \<times> QzSess) outcome" where
  "isQATProcessable p src_len q =
    (let sp = sess_params q in
     case i_data_fmt sp of
       LZ4_FH \<Rightarrow> obind (isQATLZ4Processable p src_len (i_hw_buff_sz sp)) (\<lambda>rc. Returned (rc, q))
     | DEFLATE_RAW \<Rightarrow> Returned (if src_len < i_input_sz_thrshold sp then 0 else 1, q)
     | LZ4S_BK \<Rightarrow> Returned (0, q)
     | _ \<Rightarrow> obind (of_option (isQATDeflateProcessable p src_len sp))
              (\<lambda>(rc, sp). Returned (rc, q\<lparr>sess_params := sp\<rparr>)))"

section \<open>checkHeader\<close>

text \<open>What the format switch of \<^verbatim>\<open>checkHeader\<close> finds: an early return, or the compressed and
  uncompressed sizes, whether the footer is at the end of the data (gzip only), and the header
  structure.\<close>

datatype hdr_scan = Stop status | Sizes u32 u32 bool QzGzH

definition checkHeader_scan :: "QzSess \<Rightarrow> bytes \<Rightarrow> u32 \<Rightarrow> u32 \<Rightarrow> QzGzH \<Rightarrow> hdr_scan outcome" where
  "checkHeader_scan q p src_avail dest_avail hdr =
    (let hw = i_hw_buff_sz (sess_params q);
         guess = (if hw > dest_avail then dest_avail else hw) in
     case i_data_fmt (sess_params q) of
       DEFLATE_GZIP \<Rightarrow>
         obind (of_option (findStdGzipFooter p (unat src_avail))) (\<lambda>f.
         obind (of_option (get32_at p (f + 4))) (\<lambda>isz.
           Returned (Sizes (word_of_int (f - int stdGzipHeaderSz)) isz
             (f = int (unat src_avail) - int stdGzipFooterSz) hdr)))
     | DEFLATE_GZIP_EXT \<Rightarrow>
         obind (of_option (qzGzipHeaderExt p)) (\<lambda>(rc, h).
           case h of None \<Rightarrow> Returned (Stop QZ_FAIL)
           | Some h \<Rightarrow> if rc \<noteq> QZ_OK then Returned (Stop QZ_FAIL)
               else Returned (Sizes (dest_sz (qz_e (extra h))) (src_sz (qz_e (extra h))) False h))
     | DEFLATE_4B \<Rightarrow>
         obind (of_option (get32 p 0)) (\<lambda>c. Returned (Sizes c guess False hdr))
     | LZ4_FH \<Rightarrow>
         obind (of_option (qzVerifyLZ4FrameHeader p src_avail)) (\<lambda>rc.
           if rc \<noteq> QZ_OK then Returned (Stop rc)
           else obind (findLZ4Footer (lz4_fuel (unat src_avail)) p (unat src_avail)) (\<lambda>f.
             case f of None \<Rightarrow> Returned (Stop QZ_DATA_ERROR)
             | Some f \<Rightarrow>
                 obind (of_option (get64 p 6)) (\<lambda>n.
                   Returned (Sizes (of_nat f - of_nat qzLZ4HeaderSz) (ucast n) False hdr))))
     | DEFLATE_RAW \<Rightarrow> Returned (Sizes (sess_src_sz q) (sess_dest_sz q) False hdr)
     | DEFLATE_ZLIB \<Rightarrow>
         Returned (Sizes (src_avail - of_nat stdZlibFooterSz - of_nat stdZlibHeaderSz) guess False hdr)
     | LZ4S_BK \<Rightarrow> Returned (Stop QZ_FAIL))"

text \<open>The decision on the sizes.\<close>

definition checkHeader_decide ::
  "QzSess \<Rightarrow> u32 \<Rightarrow> u32 \<Rightarrow> u32 \<Rightarrow> u32 \<Rightarrow> bool \<Rightarrow> QzGzH \<Rightarrow> status \<times> QzSess \<times> QzGzH" where
  "checkHeader_decide q src_avail dest_avail csz usz at_end h =
    (let sp = sess_params q; fmt = i_data_fmt sp in
     if unat csz > unat (DEST_SZ (ucast (i_hw_buff_sz sp) :: u64)) \<or> usz > i_hw_buff_sz sp then
       (if i_sw_backup sp = 1 then
          (if fmt = DEFLATE_GZIP \<and> at_end then (QZ_FORCE_SW, q, h)
           else (QZ_FORCE_SW, q\<lparr>force_sw := True\<rparr>, h))
        else (QZ_FAIL, q, h))
     else if unat csz + outputHeaderSz fmt + outputFooterSz fmt > unat src_avail
       then (QZ_DATA_ERROR, q, h)
     else if usz > dest_avail then (QZ_BUF_ERROR, q, h)
     else (QZ_OK, q,
           h\<lparr>extra := (extra h)\<lparr>qz_e := \<lparr>src_sz = usz, dest_sz = csz\<rparr>\<rparr>\<rparr>))"

definition checkHeader ::
  "QzSess \<Rightarrow> bytes \<Rightarrow> u32 \<Rightarrow> u32 \<Rightarrow> QzGzH \<Rightarrow> (status \<times> QzSess \<times> QzGzH) outcome" where
  "checkHeader q p src_avail dest_avail hdr =
    (if src_avail \<le> 0 \<or> dest_avail \<le> 0 then Returned (QZ_BUF_ERROR, q, hdr)
     else if unat src_avail < outputHeaderSz (i_data_fmt (sess_params q))
       then Returned (QZ_DATA_ERROR, q, hdr)
     else if force_sw q then Returned (QZ_FORCE_SW, q, hdr)
     else obind (checkHeader_scan q p src_avail dest_avail hdr) (\<lambda>s.
       case s of Stop rc \<Rightarrow> Returned (rc, q, hdr)
       | Sizes csz usz at_end h \<Rightarrow>
           Returned (checkHeader_decide q src_avail dest_avail csz usz at_end h)))"

section \<open>Correctness\<close>

lemma obind_Returned: "obind x f = Returned b \<longleftrightarrow> (\<exists>a. x = Returned a \<and> f a = Returned b)"
  by (cases x) auto

lemma of_option_Returned [simp]: "of_option x = Returned a \<longleftrightarrow> x = Some a"
  by (cases x) (auto simp: of_option_def)

lemma of_option_Some [simp]: "of_option (Some a) = Returned a"
  by (simp add: of_option_def)

text \<open>The scan stays inside the data.\<close>

lemma checkHeader_scan_returns:
  assumes "unat n \<le> length p" and "unat n \<le> 2 ^ 31 - 4"
    and "outputHeaderSz (i_data_fmt (sess_params q)) \<le> unat n"
  shows "\<exists>s. checkHeader_scan q p n d h = Returned s \<and>
           (\<forall>rc. s = Stop rc \<longrightarrow> rc \<in> {QZ_FAIL, QZ_FORCE_SW, QZ_DATA_ERROR})"
proof (cases "i_data_fmt (sess_params q)")
  case DEFLATE_GZIP
  obtain f where f: "findStdGzipFooter p (unat n) = Some f" "f \<le> int (unat n) - 8"
    "f = int (unat n) - 8 \<or> 10 \<le> f"
    using assms(1) by (rule findStdGzipFooter_Some)
  have ten: "10 \<le> unat n" using assms(3) DEFLATE_GZIP by (simp add: fmt_size_defs)
  have "0 \<le> f + 4" using f(3) by (rule disjE) (use ten in linarith)+
  moreover have "f + 4 + 4 \<le> int (length p)" using f(2) assms(1) by linarith
  ultimately obtain w where "get32_at p (f + 4) = Some w" using get32_at_Some by blast
  then show ?thesis using f(1) DEFLATE_GZIP by (simp add: checkHeader_scan_def Let_def)
next
  case DEFLATE_GZIP_EXT
  then have len: "24 \<le> length p" using assms(1,3) by (simp add: fmt_size_defs)
  have "\<exists>h. QzGzH_at p = Some h"
    using len by (simp add: QzGzH_at_def StdGzH_at_def get16_def get32_def get_le_def get8_def)
  then show ?thesis
    using DEFLATE_GZIP_EXT by (auto simp: checkHeader_scan_def Let_def qzGzipHeaderExt_def)
next
  case DEFLATE_4B
  then have "4 \<le> length p" using assms(1,3) by (simp add: fmt_size_defs)
  then obtain w where "get32 p 0 = Some w" using get32_Some [of 0 p] by auto
  then show ?thesis using DEFLATE_4B by (simp add: checkHeader_scan_def Let_def)
next
  case LZ4_FH
  then have n: "15 \<le> unat n" using assms(3) by (simp add: fmt_size_defs)
  then have l: "15 \<le> length p" using assms(1) by simp
  have "\<exists>rc. qzVerifyLZ4FrameHeader p n = Some rc \<and> (rc = QZ_OK \<or> rc \<in> {QZ_FAIL, QZ_FORCE_SW})"
  proof -
    obtain m where "get32 p 0 = Some m" using get32_Some [of 0 p] l by auto
    moreover have "get8 p 4 = Some (p ! 4)" using l by (simp add: get8_def)
    ultimately show ?thesis using n by (simp add: qzVerifyLZ4FrameHeader_def lz4_size_defs)
  qed
  then obtain rc where rc: "qzVerifyLZ4FrameHeader p n = Some rc"
    "rc = QZ_OK \<or> rc \<in> {QZ_FAIL, QZ_FORCE_SW}" by blast
  obtain r where r: "findLZ4Footer (lz4_fuel (unat n)) p (unat n) = Returned r"
    using findLZ4Footer_returns [OF assms(2,1)] by blast
  have "\<exists>w. get64 p 6 = Some w" using l by (simp add: get64_def get_le_def)
  then show ?thesis
    using LZ4_FH rc r by (cases r) (auto simp: checkHeader_scan_def Let_def)
qed (simp_all add: checkHeader_scan_def Let_def)

section \<open>Properties\<close>

lemma framing_lengths:
  "length (outputHeaderGen res fmt) = outputHeaderSz fmt"
  "fmt \<noteq> DEFLATE_4B \<Longrightarrow> length (outputFooterGen res fmt) = outputFooterSz fmt"
  by (cases fmt; simp add: outputHeaderGen_def outputFooterGen_def fmt_size_defs qz4BHeaderGen_def
       qzLZ4SBlockHeaderGen_def StdZlibH_bytes_def QzLZ4F_bytes_def StdGzF_bytes_def)+

text \<open>In every format the generated header is as long as the size the library reserves for it;
  the generated footer is too, in all formats but one: for the 4-byte format no room is reserved,
  but the generator falls through to the gzip case and writes 8 bytes.\<close>

theorem framing_sizes:
  "length (outputHeaderGen res fmt) = outputHeaderSz fmt \<and>
   (length (outputFooterGen res fmt) = outputFooterSz fmt \<longleftrightarrow> fmt \<noteq> DEFLATE_4B) \<and>
   (fmt = DEFLATE_4B \<longrightarrow> outputFooterSz fmt = 0 \<and> length (outputFooterGen res fmt) = 8)"
  by (cases fmt)
     (simp_all add: outputHeaderGen_def outputFooterGen_def fmt_size_defs qz4BHeaderGen_def
       qzLZ4SBlockHeaderGen_def StdZlibH_bytes_def QzLZ4F_bytes_def StdGzF_bytes_def)

theorem framing_sizes_witness:
  "outputFooterSz DEFLATE_4B = 0 \<and> length (outputFooterGen \<lparr>res_status = 0, produced = 5,
     consumed = 9, checksum = 1, endOfLastBlock = True\<rparr> DEFLATE_4B) = 8"
  using framing_sizes [of "\<lparr>res_status = 0, produced = 5, consumed = 9, checksum = 1,
    endOfLastBlock = True\<rparr>" DEFLATE_4B] by simp

text \<open>C2: On less than 2 GB of accessible data \<open>checkHeader\<close> reads only inside the data and returns
  one of its documented codes; when it returns QZ_OK, the member with its header and footer lies
  inside the source, its compressed size fits a hardware buffer, and its uncompressed size fits the
  hardware buffer and the destination, and these sizes are what the header structure then holds.\<close>

theorem checkHeader_sound:
  assumes "unat n \<le> length p" and "unat n \<le> 2 ^ 31 - 4"
  shows "\<exists>rc q' h. checkHeader q p n d hdr = Returned (rc, q', h) \<and>
    rc \<in> {QZ_OK, QZ_FAIL, QZ_FORCE_SW, QZ_BUF_ERROR, QZ_DATA_ERROR} \<and>
    (rc = QZ_OK \<longrightarrow>
       (let fmt = i_data_fmt (sess_params q); c = unat (dest_sz (qz_e (extra h)));
            u = src_sz (qz_e (extra h)) in
        c + outputHeaderSz fmt + outputFooterSz fmt \<le> unat n \<and>
        c \<le> unat (DEST_SZ (ucast (i_hw_buff_sz (sess_params q)) :: u64)) \<and>
        u \<le> i_hw_buff_sz (sess_params q) \<and> u \<le> d))"
proof (cases "n \<le> 0 \<or> d \<le> 0 \<or> unat n < outputHeaderSz (i_data_fmt (sess_params q)) \<or> force_sw q")
  case True
  then show ?thesis by (auto simp: checkHeader_def)
next
  case False
  then have "outputHeaderSz (i_data_fmt (sess_params q)) \<le> unat n" by simp
  from checkHeader_scan_returns [OF assms this, of d hdr]
  obtain s where s: "checkHeader_scan q p n d hdr = Returned s"
    "\<forall>rc. s = Stop rc \<longrightarrow> rc \<in> {QZ_FAIL, QZ_FORCE_SW, QZ_DATA_ERROR}" by blast
  show ?thesis
  proof (cases s)
    case (Stop rc)
    then show ?thesis using s False by (auto simp: checkHeader_def)
  next
    case (Sizes c u e h)
    then have "checkHeader q p n d hdr = Returned (checkHeader_decide q n d c u e h)"
      using s False by (simp add: checkHeader_def)
    then show ?thesis by (auto simp: checkHeader_decide_def Let_def not_less)
  qed
qed

definition gz_sess :: "QzSess" where
  "gz_sess = zero_sess\<lparr>sess_params := g_sess_params_internal_default\<rparr>"

definition zero_hdr :: QzGzH where
  "zero_hdr = \<lparr>std_hdr = \<lparr>id1 = 0, id2 = 0, cm = 0, gz_flag = 0, mtime = (0, 0, 0, 0), xfl = 0,
     os = 0\<rparr>, x_len = 0, extra = \<lparr>st1 = 0, st2 = 0, x2_len = 0,
     qz_e = \<lparr>src_sz = 0, dest_sz = 0\<rparr>\<rparr>\<rparr>"

theorem checkHeader_sound_witness:
  "\<exists>rc q' h. checkHeader gz_sess (replicate 40 1) 40 100 zero_hdr = Returned (rc, q', h) \<and>
     rc \<in> {QZ_OK, QZ_FAIL, QZ_FORCE_SW, QZ_BUF_ERROR, QZ_DATA_ERROR}"
  using checkHeader_sound [of 40 "replicate 40 1" gz_sess 100 zero_hdr] by auto

text \<open>C4: A gzip-extended member that compression made from a hardware result is accepted by
  \<open>checkHeader\<close>, whatever follows it, and its sizes come back: the data handed to the hardware for
  decompression is exactly the data that was compressed to.\<close>

theorem member_accepted:
  assumes fmt: "i_data_fmt (sess_params q) = DEFLATE_GZIP_EXT" and "\<not> force_sw q"
    and len: "length data = unat (produced res)"
    and n: "unat n = length (outputHeaderGen res DEFLATE_GZIP_EXT @ data @
              outputFooterGen res DEFLATE_GZIP_EXT @ rest)"
    and u: "consumed res \<le> i_hw_buff_sz (sess_params q)" "consumed res \<le> d" "0 < d"
    and c: "unat (produced res) \<le> unat (DEST_SZ (ucast (i_hw_buff_sz (sess_params q)) :: u64))"
  shows "\<exists>h. checkHeader q (outputHeaderGen res DEFLATE_GZIP_EXT @ data @
             outputFooterGen res DEFLATE_GZIP_EXT @ rest) n d hdr = Returned (QZ_OK, q, h) \<and>
           src_sz (qz_e (extra h)) = consumed res \<and> dest_sz (qz_e (extra h)) = produced res"
proof -
  let ?p = "outputHeaderGen res DEFLATE_GZIP_EXT @ data @ outputFooterGen res DEFLATE_GZIP_EXT @ rest"
  have sz: "length (outputHeaderGen res DEFLATE_GZIP_EXT) = 24"
    "length (outputFooterGen res DEFLATE_GZIP_EXT) = 8"
    by (simp_all add: outputHeaderGen_def outputFooterGen_def StdGzF_bytes_def)
  have nn: "unat n = 32 + unat (produced res) + length rest"
    using n sz len by simp
  then have n0: "\<not> n \<le> 0" by (auto simp: word_le_nat_alt)
  have "checkHeader_scan q ?p n d hdr =
      Returned (Sizes (produced res) (consumed res) False (qzGzipHeaderGen res))"
    using fmt gzip_ext_header_sizes
    by (simp add: checkHeader_scan_def Let_def outputHeaderGen_def)
  then show ?thesis
    using assms nn n0 by (simp add: checkHeader_def checkHeader_decide_def Let_def fmt_size_defs not_less)
qed

theorem member_accepted_witness:
  "\<exists>h. checkHeader gz_sess (outputHeaderGen \<lparr>res_status = 0, produced = 2, consumed = 9,
       checksum = 5, endOfLastBlock = True\<rparr> DEFLATE_GZIP_EXT @ [3, 0] @ outputFooterGen
       \<lparr>res_status = 0, produced = 2, consumed = 9, checksum = 5, endOfLastBlock = True\<rparr>
       DEFLATE_GZIP_EXT @ [7]) 35 100 zero_hdr = Returned (QZ_OK, gz_sess, h) \<and>
     src_sz (qz_e (extra h)) = 9 \<and> dest_sz (qz_e (extra h)) = 2"
  using member_accepted [of gz_sess "[3, 0]" "\<lparr>res_status = 0, produced = 2, consumed = 9,
      checksum = 5, endOfLastBlock = True\<rparr>" 35 "[7]" 100 zero_hdr]
  by (simp add: gz_sess_def zero_sess_def g_sess_params_internal_default_def zero_params_def
      outputHeaderGen_def outputFooterGen_def StdGzF_bytes_def DEST_SZ_def word_le_nat_alt)

end
