(* ===== verification/Buffers.thy ===== *)
theory Buffers
  imports Format
begin

text \<open>
  The request buffers of an instance (\<^verbatim>\<open>QzCpaStream_T\<close>, \<^verbatim>\<open>src/qatzip_utils.c\<close> and
  \<^verbatim>\<open>src/qatzip.c\<close>): four counters say who owns a buffer, its pointers are set to the user's
  memory (zero copy) or to its own pinned memory before a request and restored after the response.
  The state of a call is the part of \<^verbatim>\<open>QzSess_T\<close> and \<^verbatim>\<open>QzSession_T\<close> that the two halves of a
  request share. Sizes are natural numbers below \<open>2 ^ 32\<close>; a subtraction that can wrap is written
  with its modulus. \<open>None\<close> is an access outside a block or a failed assertion.
\<close>

abbreviation (input) CPA_STATUS_SUCCESS :: int where "CPA_STATUS_SUCCESS \<equiv> 0"
abbreviation (input) CPA_DC_OK :: int where "CPA_DC_OK \<equiv> 0"
abbreviation (input) QZ_WAIT_SW_PENDING :: int where "QZ_WAIT_SW_PENDING \<equiv> 10"

record CpaStream =
  st_seq :: int
  src1 :: int
  src2 :: int
  sink1 :: int
  sink2 :: int
  st_res :: CpaDcRqResults
  job_status :: int
  orig_src :: ptr
  orig_dest :: ptr
  src_need_reset :: bool
  dest_need_reset :: bool
  st_checksum :: u32
  orgdatalen :: u32
  flush_final :: bool
  src_pData :: ptr
  src_dataLen :: nat
  dest_pData :: ptr
  dest_dataLen :: nat

text \<open>What a call does not change: \<open>pinned\<close> is \<^verbatim>\<open>qzMemFindAddr\<close>, \<open>crc_combine\<close> zlib's
  \<^verbatim>\<open>crc32_combine\<close>.\<close>

record Job =
  j_params :: QzSessionParamsInternal
  j_src :: ptr
  j_src_sz :: nat
  j_dest_sz :: nat
  j_last :: bool
  need_cont_mem :: bool
  pinned :: "ptr \<Rightarrow> bool"
  crc_combine :: "u64 \<Rightarrow> u32 \<Rightarrow> u32 \<Rightarrow> u64"

record Pipe =
  streams :: "CpaStream list"
  heartbeat :: bool
  q_seq :: int
  q_seq_in :: int
  q_submitted :: int
  q_processed :: int
  q_last_submitted :: bool
  q_last_processed :: bool
  q_stop :: bool
  q_single :: bool
  q_in_len :: nat
  q_out_len :: nat
  q_next_dest :: ptr
  q_crc :: "u64 option"
  q_stat :: status
  end_of_stream :: "u8 option"
  pmem :: store

definition j_fmt :: "Job \<Rightarrow> DataFormatInternal" where
  "j_fmt J = i_data_fmt (j_params J)"

definition j_hw :: "Job \<Rightarrow> nat" where
  "j_hw J = unat (i_hw_buff_sz (j_params J))"

definition upd :: "nat \<Rightarrow> (CpaStream \<Rightarrow> CpaStream) \<Rightarrow> Pipe \<Rightarrow> Pipe" where
  "upd j f P = P\<lparr>streams := (streams P)[j := f (streams P ! j)]\<rparr>"

section \<open>Ownership of a buffer\<close>

definition unused :: "CpaStream \<Rightarrow> bool" where
  "unused s \<longleftrightarrow> src1 s = src2 s \<and> src1 s = sink1 s \<and> src1 s = sink2 s"

definition answered :: "CpaStream \<Rightarrow> bool" where
  "answered s \<longleftrightarrow> src1 s = src2 s \<and> sink1 s = src1 s \<and> sink1 s = sink2 s + 1"

text \<open>The next free buffer from \<open>j\<close> on, or else from the start.\<close>

definition getUnusedBuffer :: "CpaStream list \<Rightarrow> int \<Rightarrow> int" where
  "getUnusedBuffer ss j =
    (let n = length ss; j = (if j < 0 then 0 else if int n \<le> j then n else nat j) in
     case find (\<lambda>k. unused (ss ! k)) [j..<n] of Some k \<Rightarrow> int k
     | None \<Rightarrow> (case find (\<lambda>k. unused (ss ! k)) [0..<n] of Some k \<Rightarrow> int k | None \<Rightarrow> -1))"

text \<open>The driver's callback; a violated flow is only reported.\<close>

definition dcCallback :: "int \<Rightarrow> CpaStream \<Rightarrow> CpaStream" where
  "dcCallback stat s =
    (if src1 s \<noteq> src2 s \<or> sink1 s \<noteq> sink2 s \<or> src2 s \<noteq> sink1 s + 1 then s
     else s\<lparr>sink1 := sink1 s + 1, job_status := stat\<rparr>)"

definition RestoreDestCpastreamBuffer :: "CpaStream \<Rightarrow> CpaStream" where
  "RestoreDestCpastreamBuffer s =
    (if dest_need_reset s then s\<lparr>dest_pData := orig_dest s, dest_need_reset := False\<rparr> else s)"

definition RestoreSrcCpastreamBuffer :: "CpaStream \<Rightarrow> CpaStream" where
  "RestoreSrcCpastreamBuffer s =
    (if src_need_reset s then s\<lparr>src_pData := orig_src s, src_need_reset := False\<rparr> else s)"

definition ResetCpastreamSink :: "CpaStream \<Rightarrow> CpaStream" where
  "ResetCpastreamSink s = s\<lparr>src1 := 0, src2 := 0, sink1 := 0, sink2 := 0\<rparr>"

section \<open>Compression\<close>

text \<open>\<open>DEST_SZ\<close> of a block, and the room given to the hardware: the header's size is subtracted from
  a 32-bit number.\<close>

definition block_dest_sz :: "nat \<Rightarrow> nat" where
  "block_dest_sz n = unat (DEST_SZ (of_nat n :: u32))"

definition dest_room :: "Job \<Rightarrow> nat \<Rightarrow> nat" where
  "dest_room J send = unat ((of_nat (min (j_dest_sz J) (block_dest_sz send)) :: u32) - of_nat (outputHeaderSz (j_fmt J)))"

definition compBufferSetup :: "Job \<Rightarrow> nat \<Rightarrow> ptr \<Rightarrow> nat \<Rightarrow> nat \<Rightarrow> Pipe \<Rightarrow> Pipe option" where
  "compBufferSetup J j src_ptr src_remaining src_send_sz P =
    (let s = streams P ! j;
         s = s\<lparr>st_seq := q_seq P, st_res := (st_res s)\<lparr>checksum := 0\<rparr>,
           flush_final := \<not> (IS_DEFLATE_RAW (j_fmt J) \<and> (\<not> j_last J \<or> src_remaining > j_hw J)),
           src_dataLen := src_send_sz, dest_dataLen := dest_room J src_send_sz\<rparr>
     in do {
       (s, m) \<leftarrow> (if \<not> pinned J src_ptr \<and> need_cont_mem J then do {
                   m \<leftarrow> QZ_MEMCPY (pmem P) (src_pData s) src_ptr src_send_sz src_remaining;
                   Some (s\<lparr>src_need_reset := False\<rparr>, m) }
                 else Some (s\<lparr>src_pData := src_ptr, src_need_reset := True\<rparr>, pmem P));
       let s = (if st_seq s = 0 \<and> (\<not> need_cont_mem J \<or> pinned J (q_next_dest P))
                then s\<lparr>dest_pData := padd (q_next_dest P) (outputHeaderSz (j_fmt J)), dest_need_reset := True\<rparr>
                else s);
       Some (upd j (\<lambda>_. s) (P\<lparr>pmem := m\<rparr>)) })"

definition compInBufferCleanUp :: "nat \<Rightarrow> Pipe \<Rightarrow> Pipe" where
  "compInBufferCleanUp j P = upd j (\<lambda>s.
     (let s = RestoreSrcCpastreamBuffer (RestoreDestCpastreamBuffer s)
      in s\<lparr>src1 := src1 s - 1, src2 := src2 s - 1\<rparr>)) P"

definition compOutSrcBufferCleanUp :: "nat \<Rightarrow> Pipe \<Rightarrow> Pipe" where
  "compOutSrcBufferCleanUp j = upd j RestoreSrcCpastreamBuffer"

definition compOutErrorDestBufferCleanUp :: "nat \<Rightarrow> Pipe \<Rightarrow> Pipe" where
  "compOutErrorDestBufferCleanUp j = upd j RestoreDestCpastreamBuffer"

definition compOutValidDestBufferCleanUp :: "Job \<Rightarrow> nat \<Rightarrow> nat \<Rightarrow> Pipe \<Rightarrow> Pipe option" where
  "compOutValidDestBufferCleanUp J j dest_receive_sz P =
    (let s = streams P ! j in
     if dest_need_reset s then Some (upd j (\<lambda>s. s\<lparr>dest_pData := orig_dest s, dest_need_reset := False\<rparr>) P)
     else do {
       m \<leftarrow> QZ_MEMCPY (pmem P) (q_next_dest P) (dest_pData s) (j_dest_sz J - q_out_len P) dest_receive_sz;
       Some (P\<lparr>pmem := m\<rparr>) })"

definition compOutProcessedRespond :: "nat \<Rightarrow> Pipe \<Rightarrow> Pipe option" where
  "compOutProcessedRespond j P =
    (let P = compOutSrcBufferCleanUp j P in
     if st_seq (streams P ! j) \<noteq> q_seq_in P then None
     else Some ((upd j (\<lambda>s. s\<lparr>sink2 := sink2 s + 1\<rparr>) P)
       \<lparr>q_processed := q_processed P + 1, q_seq_in := q_seq_in P + 1\<rparr>))"

definition compOutSkipErrorRespond :: "nat \<Rightarrow> Pipe \<Rightarrow> Pipe option" where
  "compOutSkipErrorRespond j P = compOutProcessedRespond j (compOutErrorDestBufferCleanUp j P)"

text \<open>The remaining room is kept as a number that may become negative.\<close>

definition compOutCheckDestLen :: "nat \<Rightarrow> int \<Rightarrow> nat \<Rightarrow> Pipe \<Rightarrow> (status \<times> int \<times> Pipe) option" where
  "compOutCheckDestLen j avail dest_receive_sz P =
    (let avail = avail - int dest_receive_sz in
     if avail < 0 then do {
       P \<leftarrow> compOutSkipErrorRespond j P;
       Some (QZ_BUF_ERROR, avail, P\<lparr>q_stop := True, q_stat := QZ_BUF_ERROR\<rparr>) }
     else Some (QZ_OK, avail, P))"

definition swapDataBuffer :: "CpaStream \<Rightarrow> CpaStream" where
  "swapDataBuffer s = s\<lparr>src_pData := dest_pData s, dest_pData := src_pData s,
     orig_src := orig_dest s, orig_dest := orig_src s\<rparr>"

section \<open>Decompression\<close>

text \<open>The footer's checksum and length are read just after the compressed data.\<close>

definition footer_fields :: "DataFormatInternal \<Rightarrow> store \<Rightarrow> ptr \<Rightarrow> QzGzH \<Rightarrow> CpaStream \<Rightarrow> CpaStream option" where
  "footer_fields fmt m p hdr s = (case fmt of
     DEFLATE_GZIP_EXT \<Rightarrow> do { x \<leftarrow> load m p 8; Some (s\<lparr>st_checksum := of_le (take 4 x), orgdatalen := of_le (drop 4 x)\<rparr>) }
   | DEFLATE_GZIP \<Rightarrow> do { x \<leftarrow> load m p 8; Some (s\<lparr>st_checksum := of_le (take 4 x), orgdatalen := of_le (drop 4 x)\<rparr>) }
   | LZ4_FH \<Rightarrow> do { x \<leftarrow> load m (padd p 4) 4; Some (s\<lparr>st_checksum := of_le x, orgdatalen := src_sz (qz_e (extra hdr))\<rparr>) }
   | DEFLATE_ZLIB \<Rightarrow> do { x \<leftarrow> load m p 4; Some (s\<lparr>st_checksum := of_le x, orgdatalen := src_sz (qz_e (extra hdr))\<rparr>) }
   | _ \<Rightarrow> Some s)"

text \<open>The result carries the sizes by which the source and the destination advance.\<close>

definition decompBufferSetup ::
  "Job \<Rightarrow> nat \<Rightarrow> ptr \<Rightarrow> ptr \<Rightarrow> nat \<Rightarrow> QzGzH \<Rightarrow> Pipe \<Rightarrow> (nat \<times> nat \<times> Pipe) option" where
  "decompBufferSetup J j src_ptr dest_ptr src_avail_len hdr P =
    (let fmt = j_fmt J; s = streams P ! j;
         s = swapDataBuffer (s\<lparr>st_seq := q_seq P, st_res := (st_res s)\<lparr>checksum := 0\<rparr>\<rparr>);
         p = padd src_ptr (outputHeaderSz fmt);
         send = unat (dest_sz (qz_e (extra hdr))); recv = unat (src_sz (qz_e (extra hdr)));
         s = s\<lparr>src_dataLen := send, dest_dataLen := recv\<rparr>
     in do {
       s \<leftarrow> footer_fields fmt (pmem P) (padd p send) hdr s;
       (s, m) \<leftarrow> (if \<not> pinned J src_ptr \<and> need_cont_mem J then do {
                   m \<leftarrow> QZ_MEMCPY (pmem P) (src_pData s) p src_avail_len send;
                   Some (s\<lparr>src_need_reset := False\<rparr>, m) }
                 else Some (s\<lparr>src_pData := p, src_need_reset := True\<rparr>, pmem P));
       let s = (if \<not> pinned J dest_ptr \<and> need_cont_mem J then s\<lparr>dest_need_reset := False\<rparr>
                else s\<lparr>dest_pData := dest_ptr, dest_need_reset := True\<rparr>);
       Some (outputHeaderSz fmt + send + outputFooterSz fmt, recv, upd j (\<lambda>_. s) (P\<lparr>pmem := m\<rparr>)) })"

definition decompInBufferCleanUp :: "nat \<Rightarrow> Pipe \<Rightarrow> Pipe" where
  "decompInBufferCleanUp j P = upd j (\<lambda>s.
     swapDataBuffer (RestoreSrcCpastreamBuffer (RestoreDestCpastreamBuffer
       (s\<lparr>src1 := src1 s - 1, src2 := src2 s - 1\<rparr>)))) P"

definition decompOutSrcBufferCleanUp :: "nat \<Rightarrow> Pipe \<Rightarrow> Pipe" where
  "decompOutSrcBufferCleanUp j = upd j RestoreSrcCpastreamBuffer"

definition decompOutErrorDestBufferCleanUp :: "nat \<Rightarrow> Pipe \<Rightarrow> Pipe" where
  "decompOutErrorDestBufferCleanUp j = upd j RestoreDestCpastreamBuffer"

definition decompOutValidDestBufferCleanUp :: "nat \<Rightarrow> CpaDcRqResults \<Rightarrow> nat \<Rightarrow> Pipe \<Rightarrow> Pipe option" where
  "decompOutValidDestBufferCleanUp j resl dest_avail_len P =
    (let s = streams P ! j in
     if \<not> dest_need_reset s then do {
       m \<leftarrow> QZ_MEMCPY (pmem P) (q_next_dest P) (dest_pData s) dest_avail_len (unat (produced resl));
       Some (P\<lparr>pmem := m\<rparr>) }
     else Some (upd j (\<lambda>s. s\<lparr>dest_pData := orig_dest s, dest_need_reset := False\<rparr>) P))"

definition decompOutProcessedRespond :: "nat \<Rightarrow> Pipe \<Rightarrow> Pipe option" where
  "decompOutProcessedRespond j P =
    (let P = upd j swapDataBuffer (decompOutSrcBufferCleanUp j P) in
     if st_seq (streams P ! j) \<noteq> q_seq_in P then None
     else Some ((upd j (\<lambda>s. s\<lparr>sink2 := sink2 s + 1\<rparr>) P)
       \<lparr>q_processed := q_processed P + 1, q_seq_in := q_seq_in P + 1\<rparr>))"

definition decompOutSkipErrorRespond :: "nat \<Rightarrow> Pipe \<Rightarrow> Pipe option" where
  "decompOutSkipErrorRespond j P = decompOutProcessedRespond j (decompOutErrorDestBufferCleanUp j P)"

text \<open>\<open>ntohl\<close> on a little-endian machine.\<close>

definition ntohl :: "u32 \<Rightarrow> u32" where
  "ntohl w = of_le (rev (le_bytes 4 w))"

definition decompOutCheckSum :: "Job \<Rightarrow> nat \<Rightarrow> CpaDcRqResults \<Rightarrow> Pipe \<Rightarrow> (status \<times> Pipe) option" where
  "decompOutCheckSum J j resl P = do {
     P \<leftarrow> (if j_fmt J = DEFLATE_ZLIB then do {
             P \<leftarrow> (if unat (consumed resl) < src_dataLen (streams P ! j) then do {
                     x \<leftarrow> load (pmem P) (padd (j_src J) (q_in_len P + outputHeaderSz DEFLATE_ZLIB + unat (consumed resl))) 4;
                     Some ((upd j (\<lambda>s. s\<lparr>st_checksum := of_le x\<rparr>) P)\<lparr>q_last_submitted :=
                       (if q_single P \<and> i_stop_decompression_stream_end (j_params J) = 0 then False
                        else q_last_submitted P)\<rparr>) }
                   else Some (P\<lparr>q_last_submitted := True\<rparr>));
             Some (upd j (\<lambda>s. s\<lparr>st_checksum := ntohl (st_checksum s)\<rparr>) P) }
           else Some P);
     let s = streams P ! j;
     if j_fmt J \<noteq> DEFLATE_4B \<and> j_fmt J \<noteq> DEFLATE_RAW \<and>
        (checksum resl \<noteq> st_checksum s \<or> (produced resl \<noteq> orgdatalen s \<and> j_fmt J \<noteq> DEFLATE_ZLIB))
     then do {
       P \<leftarrow> decompOutProcessedRespond j P;
       Some (QZ_DATA_ERROR, P\<lparr>q_stop := True, q_stat := QZ_DATA_ERROR\<rparr>) }
     else Some (QZ_OK, P) }"

end
