(* ===== verification/Pipeline.thy ===== *)
theory Pipeline
  imports Buffers
begin

text \<open>
  The compression pipeline (\<^verbatim>\<open>doCompressIn\<close>, the driver and \<^verbatim>\<open>doCompressOut\<close> of
  \<^verbatim>\<open>src/qatzip.c\<close>): one thread cuts the source into blocks and submits them, the driver answers
  them in any order, another thread collects the answers in the order of the blocks, frames them and
  writes them out. The state holds the local variables of both threads and the driver's requests; an
  event is one step of one of the three, so a list of events is an interleaving. The driver \<open>hw\<close> and
  the software compressor \<open>sw\<close> (with its state) are arguments. Sleeping and the polling interval
  are left out. On few requests a single thread runs the two parts one after the other: \<^verbatim>\<open>doCompressOut\<close>,
  which also polls the driver for its answers, starts when \<^verbatim>\<open>doCompressIn\<close> has returned.
\<close>

type_synonym hardware = "bytes \<Rightarrow> bool \<Rightarrow> nat \<Rightarrow> int \<times> CpaDcRqResults \<times> bytes"
type_synonym 'w software = "'w \<Rightarrow> bytes \<Rightarrow> nat \<Rightarrow> bool \<Rightarrow> status \<times> nat \<times> bytes \<times> 'w"

text \<open>Where the submitting thread is: between blocks, holding a buffer (after \<open>src1++\<close>), with the
  buffer set up, or finished.\<close>

datatype phase = Between | Claimed nat | Ready nat | InDone

record 'w Comp =
  pipe :: Pipe
  at_ptr :: ptr
  remaining :: nat
  send_sz :: nat
  last_j :: int
  phase :: phase
  driver :: "nat list"
  dest_avail :: int
  out_done :: bool
  sw_state :: 'w

definition resetQzsess :: "Job \<Rightarrow> Pipe \<Rightarrow> Pipe" where
  "resetQzsess J P = P\<lparr>q_stat := QZ_OK, q_submitted := 0, q_processed := 0, q_last_submitted := False,
     q_last_processed := False, q_stop := False, q_in_len := 0, q_out_len := 0, q_single := False,
     q_seq := 0, q_seq_in := 0\<rparr>"

definition comp_start :: "Job \<Rightarrow> Pipe \<Rightarrow> 'w \<Rightarrow> 'w Comp" where
  "comp_start J P w = (let r = j_src_sz J - q_in_len P in
     \<lparr>pipe = P, at_ptr = padd (j_src J) (q_in_len P), remaining = r, send_sz = min r (j_hw J),
      last_j = -1, phase = Between, driver = [], dest_avail = int (j_dest_sz J) - int (q_out_len P),
      out_done = False, sw_state = w\<rparr>)"

section \<open>Submitting\<close>

definition in_advance :: "Job \<Rightarrow> 'w Comp \<Rightarrow> 'w Comp" where
  "in_advance J x =
    (let rem = remaining x - send_sz x; P = pipe x;
         P = P\<lparr>q_seq := q_seq P + 1, q_submitted := q_submitted P + 1\<rparr>;
         send = min rem (j_hw J); r = (if q_stop P then 0 else rem)
     in x\<lparr>at_ptr := padd (at_ptr x) (send_sz x), remaining := r, send_sz := send,
          pipe := (if r = 0 then P\<lparr>q_last_submitted := True\<rparr> else P),
          phase := (if r = 0 then InDone else Between)\<rparr>)"

definition in_error :: "'w Comp \<Rightarrow> 'w Comp" where
  "in_error x = x\<lparr>pipe := (pipe x)\<lparr>q_stop := True, q_last_submitted := True, q_stat := QZ_FAIL\<rparr>, phase := InDone\<rparr>"

text \<open>Software compression of a block straight into the destination: its room is \<open>DEST_SZ\<close> of the
  block, whatever is left of the destination.\<close>

definition compInSWFallback :: "Job \<Rightarrow> 'w software \<Rightarrow> 'w Comp \<Rightarrow> (status \<times> 'w Comp) option" where
  "compInSWFallback J sw x =
    (let P = pipe x in
     if i_sw_backup (j_params J) = 0 then Some (QZ_FAIL, x)
     else if q_single P then Some (QZ_FAIL, x)
     else if q_stop P then Some (QZ_FAIL, x)
     else if q_seq P \<noteq> q_seq_in P then Some (QZ_WAIT_SW_PENDING, x)
     else do {
       d \<leftarrow> load (pmem P) (at_ptr x) (send_sz x);
       (case sw (sw_state x) d (block_dest_sz (send_sz x)) (j_last J) of (rc, used, out, w) \<Rightarrow> do {
          m \<leftarrow> store_bytes (pmem P) (q_next_dest P) out;
          let x = x\<lparr>pipe := P\<lparr>pmem := m\<rparr>, sw_state := w\<rparr>;
          if rc \<noteq> QZ_OK then Some (QZ_FAIL, x)
          else Some (QZ_OK, x\<lparr>send_sz := send_sz x, pipe := P\<lparr>pmem := m,
            q_next_dest := padd (q_next_dest P) (length out), q_in_len := q_in_len P + used,
            q_out_len := q_out_len P + length out, q_seq_in := q_seq_in P + 1,
            q_processed := q_processed P + 1\<rparr>\<rparr>) }) })"

definition in_fallback :: "Job \<Rightarrow> 'w software \<Rightarrow> 'w Comp \<Rightarrow> 'w Comp option" where
  "in_fallback J sw x = do {
     (rc, x) \<leftarrow> compInSWFallback J sw x;
     Some (if rc = QZ_WAIT_SW_PENDING then x\<lparr>phase := Between\<rparr>
           else if rc \<noteq> QZ_OK then in_error x else in_advance J x) }"

section \<open>Collecting\<close>

definition write_out :: "bytes \<Rightarrow> Pipe \<Rightarrow> Pipe option" where
  "write_out bs P = do { m \<leftarrow> store_bytes (pmem P) (q_next_dest P) bs; Some (P\<lparr>pmem := m\<rparr>) }"

definition advance_out :: "nat \<Rightarrow> Pipe \<Rightarrow> Pipe" where
  "advance_out n P = P\<lparr>q_next_dest := padd (q_next_dest P) n, q_out_len := q_out_len P + n\<rparr>"

definition update_crc :: "Job \<Rightarrow> CpaDcRqResults \<Rightarrow> Pipe \<Rightarrow> Pipe" where
  "update_crc J resl P = (case q_crc P of None \<Rightarrow> P
     | Some c \<Rightarrow> if \<not> IS_DEFLATE (j_fmt J) then P
         else P\<lparr>q_crc := Some (if c = 0 then ucast (checksum resl)
                               else crc_combine J c (checksum resl) (consumed resl))\<rparr>)"

text \<open>A hardware result: header, data and footer go to the destination.\<close>

definition frame_out :: "Job \<Rightarrow> nat \<Rightarrow> CpaDcRqResults \<Rightarrow> Pipe \<Rightarrow> Pipe option" where
  "frame_out J j resl P =
    (let fmt = j_fmt J; n = unat (produced resl) in do {
       P \<leftarrow> write_out (outputHeaderGen resl fmt) P;
       P \<leftarrow> compOutValidDestBufferCleanUp J j n (advance_out (outputHeaderSz fmt) P);
       let P = update_crc J resl (P\<lparr>q_next_dest := padd (q_next_dest P) n,
                 q_in_len := q_in_len P + unat (consumed resl)\<rparr>);
       P \<leftarrow> write_out (outputFooterGen resl fmt) (P\<lparr>q_out_len := q_out_len P + n\<rparr>);
       Some (advance_out (outputFooterSz fmt) P) })"

text \<open>Software compression of a failed request: the output goes to the buffer the hardware should
  have written.\<close>

definition compOutSWFallback ::
  "Job \<Rightarrow> 'w software \<Rightarrow> nat \<Rightarrow> int \<Rightarrow> Pipe \<Rightarrow> 'w \<Rightarrow> (status \<times> int \<times> Pipe \<times> 'w) option" where
  "compOutSWFallback J sw j avail P w =
    (let s = streams P ! j; room = outputHeaderSz (j_fmt J) + dest_dataLen s in
     if i_sw_backup (j_params J) = 0 then Some (QZ_FAIL, avail, P, w)
     else do {
       d \<leftarrow> load (pmem P) (src_pData s) (src_dataLen s);
       (case sw w d room (j_last J) of (rc, used, out, w) \<Rightarrow> do {
          m \<leftarrow> store_bytes (pmem P) (dest_pData s) out;
          let P = P\<lparr>pmem := m\<rparr>;
          if rc \<noteq> QZ_OK then Some (QZ_FAIL, avail, P, w)
          else do {
            (rc, avail, P) \<leftarrow> compOutCheckDestLen j avail (length out) P;
            if rc \<noteq> QZ_OK then Some (rc, avail, P, w)
            else do {
              P \<leftarrow> compOutValidDestBufferCleanUp J j (length out) P;
              Some (QZ_OK, avail, advance_out (length out) (P\<lparr>q_in_len := q_in_len P + used\<rparr>), w) } } }) })"

text \<open>What the loop over the buffers does with the buffer of the next block.\<close>

datatype control = Continue | Break | Abort

definition collect_one ::
  "Job \<Rightarrow> 'w software \<Rightarrow> nat \<Rightarrow> int \<Rightarrow> Pipe \<Rightarrow> 'w \<Rightarrow> (control \<times> int \<times> Pipe \<times> 'w) option" where
  "collect_one J sw j avail P w =
    (let s = streams P ! j; resl = st_res s; fmt = j_fmt J in
     if q_stat P = QZ_BUF_ERROR then do {
       P \<leftarrow> compOutSkipErrorRespond j P; Some (Continue, avail, P, w) }
     else if job_status s \<noteq> CPA_STATUS_SUCCESS \<or> res_status resl \<noteq> CPA_DC_OK then do {
       (rc, avail, P, w) \<leftarrow> compOutSWFallback J sw j avail P w;
       if rc = QZ_FAIL then Some (Abort, avail, P, w)
       else if rc = QZ_BUF_ERROR then Some (Continue, avail, P, w)
       else do { P \<leftarrow> compOutProcessedRespond j P; Some (Break, avail, P, w) } }
     else do {
       (rc, avail, P) \<leftarrow> compOutCheckDestLen j avail
          (outputHeaderSz fmt + unat (produced resl) + outputFooterSz fmt) P;
       if rc \<noteq> QZ_OK then Some (Continue, avail, P, w)
       else do {
         P \<leftarrow> frame_out J j resl P;
         P \<leftarrow> compOutProcessedRespond j P;
         Some (Break, avail, P, w) } })"

fun collect_scan ::
  "Job \<Rightarrow> 'w software \<Rightarrow> nat list \<Rightarrow> int \<Rightarrow> Pipe \<Rightarrow> 'w \<Rightarrow> (bool \<times> int \<times> Pipe \<times> 'w) option" where
  "collect_scan J sw [] avail P w = Some (False, avail, P, w)"
| "collect_scan J sw (j # js) avail P w =
    (if st_seq (streams P ! j) = q_seq_in P \<and> answered (streams P ! j) then do {
       (c, avail, P, w) \<leftarrow> collect_one J sw j avail P w;
       (case c of Continue \<Rightarrow> collect_scan J sw js avail P w
        | Break \<Rightarrow> Some (False, avail, P, w) | Abort \<Rightarrow> Some (True, avail, P, w)) }
     else collect_scan J sw js avail P w)"

definition out_error :: "Pipe \<Rightarrow> Pipe" where
  "out_error P = P\<lparr>q_stat := QZ_FAIL, q_stop := True, q_last_processed := True,
     streams := map (ResetCpastreamSink \<circ> RestoreDestCpastreamBuffer \<circ> RestoreSrcCpastreamBuffer) (streams P)\<rparr>"

text \<open>One round of \<^verbatim>\<open>doCompressOut\<close>.\<close>

definition collect :: "Job \<Rightarrow> 'w software \<Rightarrow> 'w Comp \<Rightarrow> 'w Comp option" where
  "collect J sw x =
    (let P = pipe x in
     if \<not> q_last_submitted P \<or> q_processed P < q_submitted P then do {
       (err, a, P, w) \<leftarrow> collect_scan J sw [0..<length (streams P)] (dest_avail x) P (sw_state x);
       Some (x\<lparr>pipe := (if err then out_error P else P), dest_avail := a, sw_state := w, out_done := err\<rparr>) }
     else Some (x\<lparr>pipe := P\<lparr>q_last_processed := q_stop P \<or> q_last_submitted P\<rparr>, out_done := True\<rparr>))"

section \<open>Events\<close>

text \<open>With a single thread the collecting part, and with it the poll, runs only when the submitting part has returned.\<close>

definition polling :: "'w Comp \<Rightarrow> bool" where
  "polling x \<longleftrightarrow> (q_single (pipe x) \<longrightarrow> phase x = InDone)"

text \<open>\<open>Claim\<close>, \<open>Setup\<close> and \<open>Submit\<close> are the parts of a round of \<^verbatim>\<open>doCompressIn\<close>; \<open>Submit ok\<close> says
  whether the driver took the request (after the retries). \<open>Fallback\<close> is its round on an instance
  that is down. \<open>Respond j\<close> is the driver's answer to the request in buffer \<open>j\<close>, handed over by a poll. An event that is
  not possible changes nothing.\<close>

datatype event = Claim | Setup | Submit bool | Fallback | Respond nat | Collect | PollFail | Beat bool

definition respond :: "hardware \<Rightarrow> nat \<Rightarrow> Pipe \<Rightarrow> Pipe option" where
  "respond hw j P =
    (let s = streams P ! j in do {
       d \<leftarrow> load (pmem P) (src_pData s) (src_dataLen s);
       (case hw d (flush_final s) (dest_dataLen s) of (stat, res, out) \<Rightarrow> do {
          m \<leftarrow> store_bytes (pmem P) (dest_pData s) out;
          Some (upd j (\<lambda>s. dcCallback stat (s\<lparr>st_res := res\<rparr>)) (P\<lparr>pmem := m\<rparr>)) }) })"

definition comp_step :: "Job \<Rightarrow> hardware \<Rightarrow> 'w software \<Rightarrow> event \<Rightarrow> 'w Comp \<Rightarrow> 'w Comp option" where
  "comp_step J hw sw e x = (let P = pipe x in case e of
     Claim \<Rightarrow> if phase x = Between \<and> heartbeat P then
         (let j = getUnusedBuffer (streams P) (last_j x) in
          if j = -1 then Some (x\<lparr>last_j := j\<rparr>)
          else Some (x\<lparr>last_j := j, phase := Claimed (nat j), pipe := upd (nat j) (\<lambda>s. s\<lparr>src1 := src1 s + 1\<rparr>) P\<rparr>))
       else Some x
   | Setup \<Rightarrow> (case phase x of Claimed j \<Rightarrow> do {
         P \<leftarrow> compBufferSetup J j (at_ptr x) (remaining x) (send_sz x) P;
         Some (x\<lparr>pipe := P, phase := Ready j\<rparr>) } | _ \<Rightarrow> Some x)
   | Submit ok \<Rightarrow> (case phase x of Ready j \<Rightarrow>
         (let P = upd j (\<lambda>s. s\<lparr>src2 := src2 s + 1\<rparr>) P in
          if ok then Some (in_advance J (x\<lparr>pipe := P, driver := driver x @ [j]\<rparr>))
          else in_fallback J sw (x\<lparr>pipe := compInBufferCleanUp j P\<rparr>)) | _ \<Rightarrow> Some x)
   | Fallback \<Rightarrow> if phase x = Between \<and> \<not> heartbeat P then in_fallback J sw x else Some x
   | Respond j \<Rightarrow> if j \<in> set (driver x) \<and> polling x then do {
         P \<leftarrow> respond hw j P; Some (x\<lparr>pipe := P, driver := remove1 j (driver x)\<rparr>) } else Some x
   | Collect \<Rightarrow> if out_done x \<or> \<not> polling x then Some x else collect J sw x
   | PollFail \<Rightarrow> if out_done x \<or> \<not> polling x \<or> q_last_submitted P \<and> q_submitted P \<le> q_processed P then Some x else Some (x\<lparr>pipe := out_error P, out_done := True\<rparr>)
   | Beat b \<Rightarrow> Some (x\<lparr>pipe := P\<lparr>heartbeat := b\<rparr>\<rparr>))"

fun comp_run :: "Job \<Rightarrow> hardware \<Rightarrow> 'w software \<Rightarrow> event list \<Rightarrow> 'w Comp \<Rightarrow> 'w Comp option" where
  "comp_run J hw sw [] x = Some x"
| "comp_run J hw sw (e # es) x = do { x \<leftarrow> comp_step J hw sw e x; comp_run J hw sw es x }"

end
