(* ===== verification/Slots.thy ===== *)
theory Slots
  imports Pipeline
begin

text \<open>
  The life of the request buffers of a call, for both directions: a buffer is unused, held by the
  submitting thread, sent to the driver or answered, and the requests that are out have the sequence
  numbers from the next one to collect to the next one to submit, each in one buffer. What a set-up
  and an answered buffer holds differs between compression and decompression and is a parameter: the
  locale names what the steps need of it.
\<close>

section \<open>Stages\<close>

definition held :: "CpaStream \<Rightarrow> bool" where
  "held s \<longleftrightarrow> src1 s = src2 s + 1 \<and> src2 s = sink1 s \<and> src2 s = sink2 s"

definition sent :: "CpaStream \<Rightarrow> bool" where
  "sent s \<longleftrightarrow> src1 s = src2 s \<and> sink1 s = sink2 s \<and> src2 s = sink1 s + 1"

definition busy :: "CpaStream \<Rightarrow> bool" where
  "busy s \<longleftrightarrow> sent s \<or> answered s"

lemmas stage_defs = unused_def held_def sent_def answered_def

lemma stages_disjoint [simp]:
  "unused s \<Longrightarrow> \<not> held s" "unused s \<Longrightarrow> \<not> sent s" "unused s \<Longrightarrow> \<not> answered s"
  "held s \<Longrightarrow> \<not> sent s" "held s \<Longrightarrow> \<not> answered s" "sent s \<Longrightarrow> \<not> answered s"
  by (simp_all add: stage_defs)

lemma not_busy [simp]: "unused s \<Longrightarrow> \<not> busy s" "held s \<Longrightarrow> \<not> busy s"
  by (simp_all add: busy_def stage_defs)

lemma find_SomeD: "find P xs = Some k \<Longrightarrow> k \<in> set xs \<and> P k"
  by (auto simp: find_Some_iff)

lemma getUnusedBuffer_unused:
  assumes "getUnusedBuffer ss j = k" "k \<noteq> -1"
  shows "nat k < length ss \<and> unused (ss ! nat k)"
proof -
  define l where "l = (if j < 0 then 0 else if int (length ss) \<le> j then length ss else nat j)"
  have "k = (case find (\<lambda>k. unused (ss ! k)) [l..<length ss] of Some k \<Rightarrow> int k
     | None \<Rightarrow> (case find (\<lambda>k. unused (ss ! k)) [0..<length ss] of Some k \<Rightarrow> int k | None \<Rightarrow> -1))"
    using assms(1) by (simp add: getUnusedBuffer_def l_def Let_def)
  with assms(2) show ?thesis
    by (auto dest!: find_SomeD split: option.splits)
qed

lemma getUnusedBuffer_finds: "i < length ss \<Longrightarrow> unused (ss ! i) \<Longrightarrow> getUnusedBuffer ss j \<noteq> -1"
  by (auto simp: getUnusedBuffer_def Let_def find_None_iff split: option.splits dest: find_SomeD)

lemma upd_sel [simp]:
  "length (streams (upd j f P)) = length (streams P)" "streams (upd j f P) = [] \<longleftrightarrow> streams P = []"
  "j < length (streams P) \<Longrightarrow> streams (upd j f P) ! j = f (streams P ! j)"
  "i \<noteq> j \<Longrightarrow> streams (upd j f P) ! i = streams P ! i"
  "pmem (upd j f P) = pmem P" "q_seq (upd j f P) = q_seq P" "q_seq_in (upd j f P) = q_seq_in P"
  "q_submitted (upd j f P) = q_submitted P" "q_processed (upd j f P) = q_processed P"
  "q_last_submitted (upd j f P) = q_last_submitted P" "q_stop (upd j f P) = q_stop P"
  "q_stat (upd j f P) = q_stat P" "heartbeat (upd j f P) = heartbeat P" "q_in_len (upd j f P) = q_in_len P"
  "q_out_len (upd j f P) = q_out_len P" "q_next_dest (upd j f P) = q_next_dest P" "q_crc (upd j f P) = q_crc P"
  "q_single (upd j f P) = q_single P" "q_last_processed (upd j f P) = q_last_processed P"
  by (simp_all add: upd_def)

lemma upd_streams: "streams (upd j f P) = (streams P)[j := f (streams P ! j)]"
  by (simp add: upd_def)

section \<open>The invariant of the buffers\<close>

text \<open>\<open>idle j s\<close>: buffer \<open>j\<close> at rest; \<open>prep j m s k\<close>: set up for request \<open>k\<close>; \<open>fin j m s k\<close>: answered. \<open>cl\<close>
  is the buffer that is claimed, \<open>rd\<close> the one set up but not submitted, \<open>drv\<close> the driver's.\<close>

type_synonym slot_pred = "nat \<Rightarrow> store \<Rightarrow> CpaStream \<Rightarrow> int \<Rightarrow> bool"

definition slot_inv ::
  "(nat \<Rightarrow> CpaStream \<Rightarrow> bool) \<Rightarrow> slot_pred \<Rightarrow> slot_pred \<Rightarrow> nat option \<Rightarrow> nat option \<Rightarrow> nat list \<Rightarrow> Pipe \<Rightarrow> nat \<Rightarrow> CpaStream \<Rightarrow> bool" where
  "slot_inv idle prep fin cl rd drv P j s \<longleftrightarrow>
     (unused s \<and> idle j s) \<or>
     (held s \<and> (cl = Some j \<and> idle j s \<or> rd = Some j \<and> prep j (pmem P) s (q_seq P))) \<or>
     (sent s \<and> q_seq_in P \<le> st_seq s \<and> st_seq s < q_seq P \<and> prep j (pmem P) s (st_seq s) \<and> j \<in> set drv) \<or>
     (answered s \<and> q_seq_in P \<le> st_seq s \<and> st_seq s < q_seq P \<and> fin j (pmem P) s (st_seq s))"

definition slots_inv ::
  "(nat \<Rightarrow> CpaStream \<Rightarrow> bool) \<Rightarrow> slot_pred \<Rightarrow> slot_pred \<Rightarrow> nat option \<Rightarrow> nat option \<Rightarrow> nat list \<Rightarrow> Pipe \<Rightarrow> bool" where
  "slots_inv idle prep fin cl rd drv P \<longleftrightarrow> (let ss = streams P in
     (\<forall>j < length ss. slot_inv idle prep fin cl rd drv P j (ss ! j)) \<and>
     (\<forall>j \<in> set drv. j < length ss \<and> sent (ss ! j)) \<and> distinct drv \<and>
     (\<forall>j. cl = Some j \<or> rd = Some j \<longrightarrow> j < length ss \<and> held (ss ! j)) \<and>
     (\<forall>i < length ss. \<forall>j < length ss. busy (ss ! i) \<and> busy (ss ! j) \<and> st_seq (ss ! i) = st_seq (ss ! j) \<longrightarrow> i = j) \<and>
     (\<forall>k. q_seq_in P \<le> k \<and> k < q_seq P \<longrightarrow> (\<exists>j < length ss. busy (ss ! j) \<and> st_seq (ss ! j) = k)))"

lemma slots_invD:
  assumes "slots_inv idle prep fin cl rd drv P"
  shows "\<And>j. j < length (streams P) \<Longrightarrow> slot_inv idle prep fin cl rd drv P j (streams P ! j)"
    "\<And>j. j \<in> set drv \<Longrightarrow> j < length (streams P) \<and> sent (streams P ! j)" "distinct drv"
    "\<And>j. cl = Some j \<or> rd = Some j \<Longrightarrow> j < length (streams P) \<and> held (streams P ! j)"
    "\<And>i j. i < length (streams P) \<Longrightarrow> j < length (streams P) \<Longrightarrow> busy (streams P ! i) \<Longrightarrow> busy (streams P ! j) \<Longrightarrow>
      st_seq (streams P ! i) = st_seq (streams P ! j) \<Longrightarrow> i = j"
    "\<And>k. q_seq_in P \<le> k \<Longrightarrow> k < q_seq P \<Longrightarrow> \<exists>j < length (streams P). busy (streams P ! j) \<and> st_seq (streams P ! j) = k"
  using assms unfolding slots_inv_def Let_def by blast+

text \<open>There are as many busy buffers as requests that are out.\<close>

lemma busy_count:
  assumes inv: "slots_inv idle prep fin cl rd drv P"
  shows "card {i. i < length (streams P) \<and> busy (streams P ! i)} = nat (q_seq P - q_seq_in P)"
proof -
  note o = slots_invD [OF inv]
  let ?B = "{i. i < length (streams P) \<and> busy (streams P ! i)}" and ?f = "\<lambda>i. st_seq (streams P ! i)"
  have r: "q_seq_in P \<le> ?f i \<and> ?f i < q_seq P" if "i \<in> ?B" for i
    using that o(1) [of i] by (auto simp: slot_inv_def busy_def)
  have "?f ` ?B = {q_seq_in P..<q_seq P}" using r o(6) by (fastforce simp: image_iff)
  moreover have "inj_on ?f ?B" using o(5) by (auto simp: inj_on_def)
  ultimately show ?thesis using card_image [of ?f ?B] by simp
qed

text \<open>Changing one buffer, the others keeping what they have.\<close>

lemma slots_inv_update:
  assumes inv: "slots_inv idle prep fin cl rd drv P" and j: "j < length (streams P)"
    and ss: "streams P' = (streams P)[j := s']"
    and mine: "slot_inv idle prep fin cl' rd' drv' P' j s'"
    and others: "\<And>i. i < length (streams P) \<Longrightarrow> i \<noteq> j \<Longrightarrow> slot_inv idle prep fin cl' rd' drv' P' i (streams P ! i)"
    and drv: "set drv' - {j} \<subseteq> set drv" "j \<in> set drv' \<Longrightarrow> sent s'" "distinct drv'"
    and ph: "\<And>i. cl' = Some i \<or> rd' = Some i \<Longrightarrow> if i = j then held s' else cl = Some i \<or> rd = Some i"
    and uniq: "busy s' \<Longrightarrow> (busy (streams P ! j) \<and> st_seq s' = st_seq (streams P ! j)) \<or>
      (\<forall>i < length (streams P). i \<noteq> j \<longrightarrow> busy (streams P ! i) \<longrightarrow> st_seq (streams P ! i) \<noteq> st_seq s')"
    and cover: "\<And>k. q_seq_in P' \<le> k \<Longrightarrow> k < q_seq P' \<Longrightarrow> busy s' \<and> st_seq s' = k \<or>
      q_seq_in P \<le> k \<and> k < q_seq P \<and> \<not> (busy (streams P ! j) \<and> st_seq (streams P ! j) = k)"
  shows "slots_inv idle prep fin cl' rd' drv' P'"
proof -
  let ?ss = "streams P"
  note o = slots_invD [OF inv]
  have 1: "\<forall>i < length ?ss. slot_inv idle prep fin cl' rd' drv' P' i (?ss[j := s'] ! i)"
    using mine others j by (auto simp: nth_list_update)
  have 2: "\<forall>i\<in>set drv'. i < length ?ss \<and> sent (?ss[j := s'] ! i)"
    using o(2) drv(1,2) j by (auto simp: nth_list_update)
  have 3: "\<forall>i. cl' = Some i \<or> rd' = Some i \<longrightarrow> i < length ?ss \<and> held (?ss[j := s'] ! i)"
  proof (intro allI impI)
    fix i assume "cl' = Some i \<or> rd' = Some i"
    from ph [OF this] o(4) j show "i < length ?ss \<and> held (?ss[j := s'] ! i)"
      by (cases "i = j") auto
  qed
  have 4: "\<forall>i<length ?ss. \<forall>k<length ?ss. busy (?ss[j := s'] ! i) \<and> busy (?ss[j := s'] ! k) \<and>
      st_seq (?ss[j := s'] ! i) = st_seq (?ss[j := s'] ! k) \<longrightarrow> i = k"
  proof (intro allI impI)
    fix i k assume ik: "i < length ?ss" "k < length ?ss" and b: "busy (?ss[j := s'] ! i) \<and> busy (?ss[j := s'] ! k) \<and>
      st_seq (?ss[j := s'] ! i) = st_seq (?ss[j := s'] ! k)"
    show "i = k"
    proof (cases "i = j"; cases "k = j")
      assume "i \<noteq> j" "k \<noteq> j" with b o(5) ik show ?thesis by simp
    next
      assume "i = j" "k \<noteq> j" with b ik j uniq o(5) show ?thesis by (metis nth_list_update_eq nth_list_update_neq)
    next
      assume "i \<noteq> j" "k = j" with b ik j uniq o(5) show ?thesis by (metis nth_list_update_eq nth_list_update_neq)
    qed simp
  qed
  have 5: "\<forall>k. q_seq_in P' \<le> k \<and> k < q_seq P' \<longrightarrow>
      (\<exists>i < length ?ss. busy (?ss[j := s'] ! i) \<and> st_seq (?ss[j := s'] ! i) = k)"
  proof (intro allI impI)
    fix k assume "q_seq_in P' \<le> k \<and> k < q_seq P'"
    then consider "busy s'" "st_seq s' = k" | i where "i < length ?ss" "busy (?ss ! i)" "st_seq (?ss ! i) = k" "i \<noteq> j"
      using cover o(6) by metis
    then show "\<exists>i < length ?ss. busy (?ss[j := s'] ! i) \<and> st_seq (?ss[j := s'] ! i) = k"
    proof cases
      case 1
      then show ?thesis using j by (intro exI [of _ j]) simp
    next
      case 2
      then show ?thesis by (intro exI [of _ i]) simp
    qed
  qed
  from 1 2 3 4 5 drv(3) ss show ?thesis by (simp add: slots_inv_def)
qed

section \<open>The steps of a request\<close>

text \<open>The laws: what a buffer holds depends only on the source, its own two pinned blocks and, when the
  answer was written straight to the destination, on its part of the destination (\<open>keeps k\<close>).\<close>

definition own_same :: "nat \<Rightarrow> store \<Rightarrow> store \<Rightarrow> bool" where
  "own_same j m m' \<longleftrightarrow> m' BSrc = m BSrc \<and> m' (BPool (2 * j)) = m (BPool (2 * j)) \<and> m' (BPool (2 * j + 1)) = m (BPool (2 * j + 1))"

locale request_slots =
  fixes idle :: "nat \<Rightarrow> CpaStream \<Rightarrow> bool" and prep fin :: slot_pred and keeps :: "int \<Rightarrow> store \<Rightarrow> store \<Rightarrow> bool"
  assumes prep_seq: "prep j m s k \<Longrightarrow> st_seq s = k"
    and prep_mem: "prep j m s k \<Longrightarrow> own_same j m m' \<Longrightarrow> prep j m' s k"
    and prep_src2: "prep j m (s\<lparr>src2 := n\<rparr>) k \<longleftrightarrow> prep j m s k"
    and fin_mem: "fin j m s k \<Longrightarrow> own_same j m m' \<Longrightarrow> (dest_need_reset s \<Longrightarrow> keeps k m m') \<Longrightarrow> fin j m' s k"
    and keeps_same: "m' BDest = m BDest \<Longrightarrow> keeps k m m'"
    and idle_src1: "idle j (s\<lparr>src1 := n\<rparr>) \<longleftrightarrow> idle j s"
begin

lemma slot_mono:
  assumes inv: "slot_inv idle prep fin cl rd drv P i s"
    and cl: "cl = Some i \<Longrightarrow> cl' = Some i" and rd: "rd = Some i \<Longrightarrow> rd' = Some i \<and> q_seq P' = q_seq P"
    and q: "q_seq P \<le> q_seq P'" "busy s \<Longrightarrow> q_seq_in P \<le> st_seq s \<Longrightarrow> q_seq_in P' \<le> st_seq s"
    and drv: "i \<in> set drv \<Longrightarrow> i \<in> set drv'" and m: "own_same i (pmem P) (pmem P')"
    and d: "answered s \<Longrightarrow> dest_need_reset s \<Longrightarrow> q_seq_in P \<le> st_seq s \<Longrightarrow> keeps (st_seq s) (pmem P) (pmem P')"
  shows "slot_inv idle prep fin cl' rd' drv' P' i s"
proof -
  consider "unused s" "idle i s" | "held s" "cl = Some i" "idle i s"
    | "held s" "rd = Some i" "prep i (pmem P) s (q_seq P)"
    | "sent s" "q_seq_in P \<le> st_seq s" "st_seq s < q_seq P" "prep i (pmem P) s (st_seq s)" "i \<in> set drv"
    | "answered s" "q_seq_in P \<le> st_seq s" "st_seq s < q_seq P" "fin i (pmem P) s (st_seq s)"
    using inv unfolding slot_inv_def by argo
  then show ?thesis
  proof cases
    case 3
    then show ?thesis using prep_mem [OF 3(3) m] rd unfolding slot_inv_def by auto
  next
    case 4
    then show ?thesis using prep_mem [OF 4(4) m] q drv unfolding slot_inv_def busy_def by auto
  next
    case 5
    then show ?thesis using fin_mem [OF 5(4) m] d q unfolding slot_inv_def busy_def by auto
  qed (use cl in \<open>simp_all add: slot_inv_def\<close>)
qed

lemma others_same:
  assumes "slots_inv idle prep fin cl rd drv P" "i < length (streams P)"
    and "cl = Some i \<Longrightarrow> cl' = Some i" "rd = Some i \<Longrightarrow> rd' = Some i \<and> q_seq P' = q_seq P"
    and "q_seq P \<le> q_seq P'" "busy (streams P ! i) \<Longrightarrow> q_seq_in P \<le> st_seq (streams P ! i) \<Longrightarrow> q_seq_in P' \<le> st_seq (streams P ! i)"
    and "i \<in> set drv \<Longrightarrow> i \<in> set drv'" "own_same i (pmem P) (pmem P')"
    and "answered (streams P ! i) \<Longrightarrow> dest_need_reset (streams P ! i) \<Longrightarrow> q_seq_in P \<le> st_seq (streams P ! i) \<Longrightarrow>
      keeps (st_seq (streams P ! i)) (pmem P) (pmem P')"
  shows "slot_inv idle prep fin cl' rd' drv' P' i (streams P ! i)"
  by (rule slot_mono [OF slots_invD(1) [OF assms(1,2)]]) (use assms(3-) in blast)+

lemma own_same_refl [simp]: "own_same j m m"
  by (simp add: own_same_def)

lemma claim_step:
  assumes inv: "slots_inv idle prep fin None None drv P" and j: "j < length (streams P)" "unused (streams P ! j)"
  shows "slots_inv idle prep fin (Some j) None drv (upd j (\<lambda>s. s\<lparr>src1 := src1 s + 1\<rparr>) P)"
proof -
  let ?s = "streams P ! j"
  note o = slots_invD [OF inv]
  have id: "idle j ?s" using o(1) [OF j(1)] j(2) by (auto simp: slot_inv_def)
  have nd: "j \<notin> set drv" using o(2) [of j] j(2) by auto
  show ?thesis
  proof (rule slots_inv_update [OF inv j(1) upd_streams])
    show "slot_inv idle prep fin (Some j) None drv (upd j (\<lambda>s. s\<lparr>src1 := src1 s + 1\<rparr>) P) j (?s\<lparr>src1 := src1 ?s + 1\<rparr>)"
      using j(2) id by (simp add: slot_inv_def idle_src1 stage_defs)
    show "slot_inv idle prep fin (Some j) None drv (upd j (\<lambda>s. s\<lparr>src1 := src1 s + 1\<rparr>) P) i (streams P ! i)"
      if "i < length (streams P)" "i \<noteq> j" for i
      by (rule others_same [OF inv that(1)]) (simp_all add: keeps_same)
  qed (use j(2) nd o(3) in \<open>auto simp: stage_defs busy_def\<close>)
qed

lemma setup_step:
  assumes inv: "slots_inv idle prep fin (Some j) None drv P"
    and P': "streams P' = (streams P)[j := s']" "q_seq P' = q_seq P" "q_seq_in P' = q_seq_in P"
    and s': "held s'" "prep j (pmem P') s' (q_seq P)"
    and m: "\<And>i. i \<noteq> j \<Longrightarrow> own_same i (pmem P) (pmem P')" "pmem P' BDest = pmem P BDest"
  shows "slots_inv idle prep fin None (Some j) drv P'"
proof -
  note o = slots_invD [OF inv]
  have j: "j < length (streams P)" "held (streams P ! j)" using o(4) by auto
  have nd: "j \<notin> set drv" using o(2) [of j] j(2) by auto
  show ?thesis
  proof (rule slots_inv_update [OF inv j(1) P'(1)])
    show "slot_inv idle prep fin None (Some j) drv P' i (streams P ! i)" if "i < length (streams P)" "i \<noteq> j" for i
      by (rule others_same [OF inv that(1)]) (use that P' m in \<open>simp_all add: keeps_same\<close>)
  qed (use s' P' j(2) nd o(3) in \<open>auto simp: slot_inv_def\<close>)
qed

lemma submit_step:
  assumes inv: "slots_inv idle prep fin None (Some j) drv P"
    and P': "streams P' = (streams P)[j := (streams P ! j)\<lparr>src2 := src2 (streams P ! j) + 1\<rparr>]" "q_seq P' = q_seq P + 1"
      "q_seq_in P' = q_seq_in P" "pmem P' = pmem P"
    and q: "q_seq_in P \<le> q_seq P"
  shows "slots_inv idle prep fin None None (drv @ [j]) P'"
proof -
  let ?s = "streams P ! j"
  note o = slots_invD [OF inv]
  have j: "j < length (streams P)" "held ?s" using o(4) by auto
  have nd: "j \<notin> set drv" using o(2) [of j] j(2) by auto
  have pr: "prep j (pmem P) ?s (q_seq P)" using o(1) [OF j(1)] j(2) by (auto simp: slot_inv_def busy_def)
  note seq = prep_seq [OF pr]
  show ?thesis
  proof (rule slots_inv_update [OF inv j(1) P'(1)])
    show "slot_inv idle prep fin None None (drv @ [j]) P' j (?s\<lparr>src2 := src2 ?s + 1\<rparr>)"
      using j(2) pr seq q P' by (simp add: slot_inv_def prep_src2 stage_defs)
    show "slot_inv idle prep fin None None (drv @ [j]) P' i (streams P ! i)" if "i < length (streams P)" "i \<noteq> j" for i
      by (rule others_same [OF inv that(1)]) (use that P' in \<open>simp_all add: keeps_same\<close>)
    show "busy (?s\<lparr>src2 := src2 ?s + 1\<rparr>) \<Longrightarrow> busy ?s \<and> st_seq (?s\<lparr>src2 := src2 ?s + 1\<rparr>) = st_seq ?s \<or>
      (\<forall>i<length (streams P). i \<noteq> j \<longrightarrow> busy (streams P ! i) \<longrightarrow> st_seq (streams P ! i) \<noteq> st_seq (?s\<lparr>src2 := src2 ?s + 1\<rparr>))"
    proof (intro disjI2 allI impI)
      fix i assume i: "i < length (streams P)" "i \<noteq> j" "busy (streams P ! i)"
      from o(1) [OF i(1)] i(3) have "st_seq (streams P ! i) < q_seq P" by (auto simp: slot_inv_def busy_def)
      then show "st_seq (streams P ! i) \<noteq> st_seq (?s\<lparr>src2 := src2 ?s + 1\<rparr>)" using seq by simp
    qed
    show "busy (?s\<lparr>src2 := src2 ?s + 1\<rparr>) \<and> st_seq (?s\<lparr>src2 := src2 ?s + 1\<rparr>) = k \<or>
        q_seq_in P \<le> k \<and> k < q_seq P \<and> \<not> (busy ?s \<and> st_seq ?s = k)"
      if "q_seq_in P' \<le> k" "k < q_seq P'" for k
      using that j(2) seq P' by (cases "k = q_seq P") (auto simp: busy_def stage_defs)
  qed (use j(2) nd o(3) in \<open>auto simp: stage_defs\<close>)
qed

lemma sent_of_driver:
  assumes inv: "slots_inv idle prep fin cl rd drv P" and j: "j \<in> set drv"
  shows "j < length (streams P)" "sent (streams P ! j)" "prep j (pmem P) (streams P ! j) (st_seq (streams P ! j))"
    "q_seq_in P \<le> st_seq (streams P ! j)" "st_seq (streams P ! j) < q_seq P"
proof -
  note o = slots_invD [OF inv]
  show j': "j < length (streams P)" "sent (streams P ! j)" using o(2) j by auto
  from o(1) [OF j'(1)] j'(2) show "prep j (pmem P) (streams P ! j) (st_seq (streams P ! j))"
    "q_seq_in P \<le> st_seq (streams P ! j)" "st_seq (streams P ! j) < q_seq P" by (auto simp: slot_inv_def)
qed

lemma respond_step:
  assumes inv: "slots_inv idle prep fin cl rd drv P" and j: "j \<in> set drv"
    and P': "streams P' = (streams P)[j := s']" "q_seq P' = q_seq P" "q_seq_in P' = q_seq_in P"
    and s': "answered s'" "st_seq s' = st_seq (streams P ! j)" "fin j (pmem P') s' (st_seq s')"
    and m: "\<And>i. i \<noteq> j \<Longrightarrow> own_same i (pmem P) (pmem P')"
    and k: "\<And>i. i < length (streams P) \<Longrightarrow> i \<noteq> j \<Longrightarrow> answered (streams P ! i) \<Longrightarrow> dest_need_reset (streams P ! i) \<Longrightarrow>
      st_seq (streams P ! i) \<noteq> st_seq s' \<Longrightarrow> fin i (pmem P) (streams P ! i) (st_seq (streams P ! i)) \<Longrightarrow>
      q_seq_in P \<le> st_seq (streams P ! i) \<Longrightarrow> keeps (st_seq (streams P ! i)) (pmem P) (pmem P')"
  shows "slots_inv idle prep fin cl rd (remove1 j drv) P'"
proof -
  note o = slots_invD [OF inv] and sj = sent_of_driver [OF inv j]
  have b: "busy (streams P ! j)" using sj(2) by (simp add: busy_def)
  show ?thesis
  proof (rule slots_inv_update [OF inv sj(1) P'(1)])
    show "slot_inv idle prep fin cl rd (remove1 j drv) P' j s'"
      using s' sj(4,5) P' by (simp add: slot_inv_def)
    show "slot_inv idle prep fin cl rd (remove1 j drv) P' i (streams P ! i)" if i: "i < length (streams P)" "i \<noteq> j" for i
    proof (rule slot_mono [OF o(1) [OF i(1)]])
      assume a: "answered (streams P ! i)" "dest_need_reset (streams P ! i)" "q_seq_in P \<le> st_seq (streams P ! i)"
      have "st_seq (streams P ! i) \<noteq> st_seq s'" using o(5) [OF i(1) sj(1) _ b] a(1) i(2) s'(2) by (auto simp: busy_def)
      moreover have "fin i (pmem P) (streams P ! i) (st_seq (streams P ! i))"
        using o(1) [OF i(1)] a(1) by (auto simp: slot_inv_def)
      ultimately show "keeps (st_seq (streams P ! i)) (pmem P) (pmem P')" using k i a by blast
    qed (use i m P' in auto)
    show "set (remove1 j drv) - {j} \<subseteq> set drv" by (auto dest: notin_set_remove1)
    show "j \<in> set (remove1 j drv) \<Longrightarrow> sent s'" "distinct (remove1 j drv)" using o(3) by simp_all
    show "if i = j then held s' else cl = Some i \<or> rd = Some i" if "cl = Some i \<or> rd = Some i" for i
      using that o(4) sj(2) by auto
    show "busy s' \<and> st_seq s' = i \<or> q_seq_in P \<le> i \<and> i < q_seq P \<and> \<not> (busy (streams P ! j) \<and> st_seq (streams P ! j) = i)"
      if "q_seq_in P' \<le> i" "i < q_seq P'" for i
      using that s'(1,2) P' by (auto simp: busy_def)
  qed (use b s'(2) in simp)
qed

lemma release_step:
  assumes inv: "slots_inv idle prep fin cl rd drv P" and j: "j < length (streams P)" "answered (streams P ! j)"
    and q: "st_seq (streams P ! j) = q_seq_in P"
    and P': "streams P' = (streams P)[j := s']" "q_seq P' = q_seq P" "q_seq_in P' = q_seq_in P + 1"
    and s': "unused s'" "idle j s'"
    and m: "\<And>i. own_same i (pmem P) (pmem P')"
    and k: "\<And>k. q_seq_in P < k \<Longrightarrow> keeps k (pmem P) (pmem P')"
  shows "slots_inv idle prep fin cl rd drv P'"
proof -
  note o = slots_invD [OF inv]
  have b: "busy (streams P ! j)" using j(2) by (simp add: busy_def)
  show ?thesis
  proof (rule slots_inv_update [OF inv j(1) P'(1)])
    show "slot_inv idle prep fin cl rd drv P' i (streams P ! i)" if i: "i < length (streams P)" "i \<noteq> j" for i
    proof (rule slot_mono [OF o(1) [OF i(1)]])
      have ne: "st_seq (streams P ! i) \<noteq> q_seq_in P" if "busy (streams P ! i)"
        using o(5) [OF i(1) j(1) that b] i(2) q by auto
      show "q_seq_in P' \<le> st_seq (streams P ! i)" if "busy (streams P ! i)" "q_seq_in P \<le> st_seq (streams P ! i)"
        using ne [OF that(1)] that(2) P'(3) by linarith
      show "keeps (st_seq (streams P ! i)) (pmem P) (pmem P')"
        if "answered (streams P ! i)" "q_seq_in P \<le> st_seq (streams P ! i)"
        using ne that k by (simp add: busy_def)
    qed (use m P' in auto)
    show "j \<in> set drv \<Longrightarrow> sent s'" using o(2) j(2) by fastforce
    show "if i = j then held s' else cl = Some i \<or> rd = Some i" if "cl = Some i \<or> rd = Some i" for i
      using that o(4) j(2) by auto
  qed (use s' P' q o(3) in \<open>auto simp: slot_inv_def\<close>)
qed

text \<open>An answered buffer with the next number exists when the driver has answered everything.\<close>

lemma next_answered:
  assumes inv: "slots_inv idle prep fin cl rd [] P" and q: "q_seq_in P < q_seq P"
  shows "\<exists>j < length (streams P). answered (streams P ! j) \<and> st_seq (streams P ! j) = q_seq_in P"
proof -
  note o = slots_invD [OF inv]
  obtain j where j: "j < length (streams P)" "busy (streams P ! j)" "st_seq (streams P ! j) = q_seq_in P"
    using o(6) [of "q_seq_in P"] q by auto
  have "answered (streams P ! j)" using o(1) [OF j(1)] j(2) by (auto simp: slot_inv_def busy_def)
  then show ?thesis using j by blast
qed

lemma answered_of:
  assumes inv: "slots_inv idle prep fin cl rd drv P" and j: "j < length (streams P)" "answered (streams P ! j)"
  shows "fin j (pmem P) (streams P ! j) (st_seq (streams P ! j))" "q_seq_in P \<le> st_seq (streams P ! j)"
    "st_seq (streams P ! j) < q_seq P"
  using slots_invD(1) [OF inv j(1)] j(2) by (auto simp: slot_inv_def)

end

end
