(* ===== verification/PipeInv.thy ===== *)
theory PipeInv
  imports Slots
begin

text \<open>
  The invariant of the compression pipeline on a healthy instance, and its preservation by the
  submitting thread and by the driver: which buffer is in which state and what it holds for which
  block, and which blocks are in the destination.
\<close>

section \<open>What is to be written\<close>

definition n_blocks :: "Job \<Rightarrow> bytes \<Rightarrow> nat" where
  "n_blocks J d = (if d = [] then 1 else (length d + j_hw J - 1) div j_hw J)"

definition block :: "Job \<Rightarrow> bytes \<Rightarrow> nat \<Rightarrow> bytes" where
  "block J d k = take (j_hw J) (drop (k * j_hw J) d)"

definition final_flag :: "Job \<Rightarrow> bytes \<Rightarrow> nat \<Rightarrow> bool" where
  "final_flag J d k \<longleftrightarrow> \<not> (IS_DEFLATE_RAW (j_fmt J) \<and> (\<not> j_last J \<or> length d - k * j_hw J > j_hw J))"

definition answer :: "Job \<Rightarrow> hardware \<Rightarrow> bytes \<Rightarrow> nat \<Rightarrow> int \<times> CpaDcRqResults \<times> bytes" where
  "answer J hw d k = hw (block J d k) (final_flag J d k) (dest_room J (length (block J d k)))"

definition res_of :: "Job \<Rightarrow> hardware \<Rightarrow> bytes \<Rightarrow> nat \<Rightarrow> CpaDcRqResults" where
  "res_of J hw d k = fst (snd (answer J hw d k))"

definition out_of :: "Job \<Rightarrow> hardware \<Rightarrow> bytes \<Rightarrow> nat \<Rightarrow> bytes" where
  "out_of J hw d k = snd (snd (answer J hw d k))"

definition frame :: "Job \<Rightarrow> hardware \<Rightarrow> bytes \<Rightarrow> nat \<Rightarrow> bytes" where
  "frame J hw d k = outputHeaderGen (res_of J hw d k) (j_fmt J) @ out_of J hw d k @
     outputFooterGen (res_of J hw d k) (j_fmt J)"

definition frames :: "Job \<Rightarrow> hardware \<Rightarrow> bytes \<Rightarrow> nat \<Rightarrow> bytes" where
  "frames J hw d k = concat (map (frame J hw d) [0..<k])"

text \<open>The driver's contract for the blocks of this call: success, everything consumed, and output
  that fits the room it was given.\<close>

definition healthy :: "Job \<Rightarrow> hardware \<Rightarrow> bytes \<Rightarrow> bool" where
  "healthy J hw d \<longleftrightarrow> (\<forall>k < n_blocks J d. fst (answer J hw d k) = CPA_STATUS_SUCCESS \<and>
     res_status (res_of J hw d k) = CPA_DC_OK \<and> unat (consumed (res_of J hw d k)) = length (block J d k) \<and>
     unat (produced (res_of J hw d k)) = length (out_of J hw d k) \<and>
     length (out_of J hw d k) \<le> dest_room J (length (block J d k)))"

definition job_ok :: "Job \<Rightarrow> bytes \<Rightarrow> bool" where
  "job_ok J d \<longleftrightarrow> j_src J = Ptr BSrc 0 \<and> j_src_sz J = length d \<and> length d < 2 ^ 32 \<and> j_dest_sz J < 2 ^ 32 \<and>
     0 < j_hw J \<and> j_hw J \<le> 524288 \<and> outputHeaderSz (j_fmt J) \<le> j_dest_sz J \<and> j_fmt J \<noteq> DEFLATE_4B"

section \<open>Arithmetic of the blocks\<close>

lemma frames_Suc: "frames J hw d (Suc k) = frames J hw d k @ frame J hw d k"
  by (simp add: frames_def)

lemma frames_0 [simp]: "frames J hw d 0 = []"
  by (simp add: frames_def)

lemma length_block: "length (block J d k) = min (length d - k * j_hw J) (j_hw J)"
  by (simp add: block_def)

lemma n_blocks_pos: "0 < j_hw J \<Longrightarrow> 0 < n_blocks J d"
  by (cases d) (simp_all add: n_blocks_def div_greater_zero_iff)

lemma block_last: "0 < j_hw J \<Longrightarrow> n_blocks J d \<le> Suc k \<longleftrightarrow> length d - k * j_hw J \<le> j_hw J"
proof -
  assume h: "0 < j_hw J"
  show ?thesis
  proof (cases "d = []")
    case False
    then have "n_blocks J d \<le> Suc k \<longleftrightarrow> (length d + j_hw J - 1) div j_hw J < Suc (Suc k)"
      by (simp add: n_blocks_def less_Suc_eq_le)
    also have "\<dots> \<longleftrightarrow> length d + j_hw J - 1 < Suc (Suc k) * j_hw J"
      using h by (simp add: div_less_iff_less_mult)
    also have "\<dots> \<longleftrightarrow> length d - k * j_hw J \<le> j_hw J"
      using h by (simp add: algebra_simps) linarith
    finally show ?thesis .
  qed (simp add: n_blocks_def)
qed

lemma frame_length: "j_fmt J \<noteq> DEFLATE_4B \<Longrightarrow> length (frame J hw d k) =
    outputHeaderSz (j_fmt J) + length (out_of J hw d k) + outputFooterSz (j_fmt J)"
  using framing_lengths [where res = "res_of J hw d k" and fmt = "j_fmt J"] by (simp add: frame_def)

lemma block_dest_sz_eq: "n \<le> 524288 \<Longrightarrow> block_dest_sz n = 9 * n div 8 + 1024"
  by (simp add: block_dest_sz_def DEST_SZ_32 unat_of_nat)

lemma header_small: "outputHeaderSz fmt \<le> 32"
  by (cases fmt) (simp_all add: fmt_size_defs)

lemma dest_room_eq: "job_ok J d \<Longrightarrow> n \<le> j_hw J \<Longrightarrow>
    dest_room J n = min (j_dest_sz J) (block_dest_sz n) - outputHeaderSz (j_fmt J)"
proof -
  assume j: "job_ok J d" and n: "n \<le> j_hw J"
  let ?m = "min (j_dest_sz J) (block_dest_sz n)" and ?h = "outputHeaderSz (j_fmt J)"
  have b: "block_dest_sz n = 9 * n div 8 + 1024" using j n by (intro block_dest_sz_eq) (simp add: job_ok_def)
  have s: "?m < 2 ^ 32" "?h \<le> ?m" using j b header_small [of "j_fmt J"] by (auto simp: job_ok_def)
  then have "?h < 2 ^ 32" by linarith
  with s have "unat (of_nat ?m :: u32) = ?m" "unat (of_nat ?h :: u32) = ?h"
    by (simp_all add: unat_of_nat del: min_less_iff_conj)
  with s show ?thesis by (simp add: dest_room_def unat_sub_le word_le_nat_alt)
qed

section \<open>The invariant\<close>

definition home :: "nat \<Rightarrow> CpaStream \<Rightarrow> bool" where
  "home j s \<longleftrightarrow> orig_src s = Ptr (BPool (2 * j)) 0 \<and> orig_dest s = Ptr (BPool (2 * j + 1)) 0"

definition clean :: "CpaStream \<Rightarrow> bool" where
  "clean s \<longleftrightarrow> \<not> src_need_reset s \<and> \<not> dest_need_reset s \<and> src_pData s = orig_src s \<and> dest_pData s = orig_dest s"

text \<open>A buffer set up for block \<open>k\<close>, and one with its answer.\<close>

definition prepared :: "Job \<Rightarrow> bytes \<Rightarrow> store \<Rightarrow> CpaStream \<Rightarrow> nat \<Rightarrow> bool" where
  "prepared J d m s k \<longleftrightarrow> st_seq s = int k \<and> load m (src_pData s) (src_dataLen s) = Some (block J d k) \<and>
     (if src_need_reset s then p_blk (src_pData s) = BSrc else src_pData s = orig_src s) \<and>
     flush_final s = final_flag J d k \<and> dest_dataLen s = dest_room J (length (block J d k)) \<and>
     (if dest_need_reset s then k = 0 \<and> dest_pData s = Ptr BDest (outputHeaderSz (j_fmt J))
      else dest_pData s = orig_dest s)"

definition finished :: "Job \<Rightarrow> hardware \<Rightarrow> bytes \<Rightarrow> store \<Rightarrow> CpaStream \<Rightarrow> nat \<Rightarrow> bool" where
  "finished J hw d m s k \<longleftrightarrow> prepared J d m s k \<and> job_status s = CPA_STATUS_SUCCESS \<and> st_res s = res_of J hw d k \<and>
     load m (dest_pData s) (length (out_of J hw d k)) = Some (out_of J hw d k)"

text \<open>What the buffers of a compression hold, for the common theory of buffers: only the first block is
  written straight to the destination.\<close>

definition comp_idle :: "nat \<Rightarrow> CpaStream \<Rightarrow> bool" where
  "comp_idle j s \<longleftrightarrow> home j s \<and> clean s"

definition comp_prep :: "Job \<Rightarrow> bytes \<Rightarrow> slot_pred" where
  "comp_prep J d j m s k \<longleftrightarrow> 0 \<le> k \<and> home j s \<and> prepared J d m s (nat k)"

definition comp_fin :: "Job \<Rightarrow> hardware \<Rightarrow> bytes \<Rightarrow> slot_pred" where
  "comp_fin J hw d j m s k \<longleftrightarrow> 0 \<le> k \<and> home j s \<and> finished J hw d m s (nat k)"

definition comp_keeps :: "int \<Rightarrow> store \<Rightarrow> store \<Rightarrow> bool" where
  "comp_keeps k m m' \<longleftrightarrow> (k = 0 \<longrightarrow> m' BDest = m BDest)"

definition claimed :: "phase \<Rightarrow> nat option" where
  "claimed ph = (case ph of Claimed j \<Rightarrow> Some j | _ \<Rightarrow> None)"

definition readied :: "phase \<Rightarrow> nat option" where
  "readied ph = (case ph of Ready j \<Rightarrow> Some j | _ \<Rightarrow> None)"

lemma phase_simps [simp]: "claimed (Claimed j) = Some j" "claimed Between = None" "claimed (Ready j) = None"
  "claimed InDone = None" "readied (Ready j) = Some j" "readied Between = None" "readied (Claimed j) = None"
  "readied InDone = None"
  by (simp_all add: claimed_def readied_def)

abbreviation comp_slots :: "Job \<Rightarrow> hardware \<Rightarrow> bytes \<Rightarrow> 'w Comp \<Rightarrow> bool" where
  "comp_slots J hw d x \<equiv> slots_inv comp_idle (comp_prep J d) (comp_fin J hw d) (claimed (phase x)) (readied (phase x))
     (driver x) (pipe x)"

definition mem_inv :: "Job \<Rightarrow> bytes \<Rightarrow> Pipe \<Rightarrow> bool" where
  "mem_inv J d P \<longleftrightarrow> streams P \<noteq> [] \<and> pmem P BSrc = d \<and> length (pmem P BDest) = j_dest_sz J \<and>
     (\<forall>j < length (streams P). j_hw J \<le> length (pmem P (BPool (2 * j))) \<and>
        block_dest_sz (j_hw J) \<le> length (pmem P (BPool (2 * j + 1))))"

definition local_inv :: "Job \<Rightarrow> bytes \<Rightarrow> 'w Comp \<Rightarrow> bool" where
  "local_inv J d x \<longleftrightarrow> (let P = pipe x in
     heartbeat P \<and> q_submitted P = q_seq P \<and> q_processed P = q_seq_in P \<and> 0 \<le> q_seq_in P \<and>
     q_seq_in P \<le> q_seq P \<and> q_seq P \<le> int (n_blocks J d) \<and>
     (q_last_submitted P \<longleftrightarrow> phase x = InDone) \<and>
     (phase x = InDone \<longrightarrow> q_seq P = int (n_blocks J d) \<or> q_stop P) \<and>
     (phase x \<noteq> InDone \<longrightarrow> q_seq P < int (n_blocks J d) \<and> at_ptr x = Ptr BSrc (nat (q_seq P) * j_hw J) \<and>
        remaining x = length d - nat (q_seq P) * j_hw J \<and> send_sz x = min (remaining x) (j_hw J)) \<and>
     (q_stop P \<longleftrightarrow> q_stat P = QZ_BUF_ERROR) \<and> q_stat P \<in> {QZ_OK, QZ_BUF_ERROR} \<and>
     (out_done x \<longrightarrow> q_last_submitted P \<and> q_seq_in P = q_seq P))"

text \<open>The first \<open>k\<close> frames are in the destination; with no error these are the collected blocks.\<close>

definition out_inv :: "Job \<Rightarrow> hardware \<Rightarrow> bytes \<Rightarrow> 'w Comp \<Rightarrow> nat \<Rightarrow> bool" where
  "out_inv J hw d x k \<longleftrightarrow> (let P = pipe x in
     q_out_len P = length (frames J hw d k) \<and> q_out_len P \<le> j_dest_sz J \<and>
     take (q_out_len P) (pmem P BDest) = frames J hw d k \<and> q_next_dest P = Ptr BDest (q_out_len P) \<and>
     q_in_len P = min (k * j_hw J) (length d) \<and>
     (if q_stat P = QZ_OK then int k = q_seq_in P \<and> dest_avail x = int (j_dest_sz J) - int (q_out_len P)
      else int k < q_seq_in P \<and> int (j_dest_sz J) < int (length (frames J hw d (Suc k)))))"

definition comp_inv :: "Job \<Rightarrow> hardware \<Rightarrow> bytes \<Rightarrow> 'w Comp \<Rightarrow> bool" where
  "comp_inv J hw d x \<longleftrightarrow> mem_inv J d (pipe x) \<and> local_inv J d x \<and> comp_slots J hw d x \<and> (\<exists>k. out_inv J hw d x k)"

section \<open>The buffers\<close>

lemma prepared_mem: "prepared J d m s k \<Longrightarrow> home j s \<Longrightarrow> m' BSrc = m BSrc \<Longrightarrow> m' (BPool (2 * j)) = m (BPool (2 * j)) \<Longrightarrow>
    prepared J d m' s k"
  by (auto simp: prepared_def load_def home_def Let_def split: if_splits)

lemma finished_mem: "finished J hw d m s k \<Longrightarrow> home j s \<Longrightarrow> m' BSrc = m BSrc \<Longrightarrow> m' (BPool (2 * j)) = m (BPool (2 * j)) \<Longrightarrow>
    m' (BPool (2 * j + 1)) = m (BPool (2 * j + 1)) \<Longrightarrow> (dest_need_reset s \<Longrightarrow> m' BDest = m BDest) \<Longrightarrow>
    finished J hw d m' s k"
  using prepared_mem [of J d m s k j m']
  by (auto simp: finished_def prepared_def load_def home_def Let_def split: if_splits)

interpretation cs: request_slots comp_idle "comp_prep J d" "comp_fin J hw d" comp_keeps for J hw d
proof unfold_locales
  fix j m m' s k n
  show "comp_prep J d j m s k \<Longrightarrow> st_seq s = k" by (simp add: comp_prep_def prepared_def)
  show "comp_prep J d j m s k \<Longrightarrow> own_same j m m' \<Longrightarrow> comp_prep J d j m' s k"
    unfolding comp_prep_def own_same_def by (blast intro: prepared_mem)
  show "comp_prep J d j m (s\<lparr>src2 := n\<rparr>) k = comp_prep J d j m s k"
    by (simp add: comp_prep_def prepared_def home_def)
  show "comp_fin J hw d j m' s k" if f: "comp_fin J hw d j m s k" and o: "own_same j m m'"
    and k: "dest_need_reset s \<Longrightarrow> comp_keeps k m m'"
  proof -
    have fi: "0 \<le> k" "home j s" "finished J hw d m s (nat k)" using f by (simp_all add: comp_fin_def)
    then have "dest_need_reset s \<Longrightarrow> k = 0" unfolding finished_def prepared_def by auto
    then have "finished J hw d m' s (nat k)"
      using o k unfolding own_same_def comp_keeps_def by (intro finished_mem [OF fi(3,2)]) auto
    then show ?thesis using fi by (simp add: comp_fin_def)
  qed
  show "m' BDest = m BDest \<Longrightarrow> comp_keeps k m m'" by (simp add: comp_keeps_def)
  show "comp_idle j (s\<lparr>src1 := n\<rparr>) = comp_idle j s" by (simp add: comp_idle_def home_def clean_def)
qed

section \<open>Submitting\<close>

lemma claim_inv:
  assumes inv: "comp_inv J hw d x" and ph: "phase x = Between" and j: "j < length (streams (pipe x))"
    and un: "unused (streams (pipe x) ! j)"
  shows "comp_inv J hw d (x\<lparr>last_j := l, phase := Claimed j, pipe := upd j (\<lambda>s. s\<lparr>src1 := src1 s + 1\<rparr>) (pipe x)\<rparr>)"
proof -
  let ?x = "x\<lparr>last_j := l, phase := Claimed j, pipe := upd j (\<lambda>s. s\<lparr>src1 := src1 s + 1\<rparr>) (pipe x)\<rparr>"
  have s: "comp_slots J hw d x" and m: "mem_inv J d (pipe x)" using inv by (simp_all add: comp_inv_def)
  have "comp_slots J hw d ?x" using cs.claim_step [OF _ j un] s ph by simp
  moreover have "local_inv J d ?x" using inv ph by (auto simp: comp_inv_def local_inv_def Let_def)
  moreover have "out_inv J hw d ?x k = out_inv J hw d x k" for k by (simp add: out_inv_def Let_def)
  moreover have "mem_inv J d (pipe ?x)" using m by (simp add: mem_inv_def)
  ultimately show ?thesis using inv by (simp add: comp_inv_def)
qed

text \<open>Setting a buffer up.\<close>

lemma block_loaded: "pmem P BSrc = d \<Longrightarrow> k * j_hw J \<le> length d \<Longrightarrow> n = min (length d - k * j_hw J) (j_hw J) \<Longrightarrow>
    load (pmem P) (Ptr BSrc (k * j_hw J)) n = Some (block J d k)"
  by (auto simp: load_Some block_def min_def)

lemma out_inv_start: "out_inv J hw d x k \<Longrightarrow> local_inv J d x \<Longrightarrow> q_seq_in (pipe x) = 0 \<Longrightarrow>
    k = 0 \<and> q_stat (pipe x) = QZ_OK \<and> q_out_len (pipe x) = 0 \<and> q_next_dest (pipe x) = Ptr BDest 0"
  by (cases "q_stat (pipe x) = QZ_OK") (simp_all add: out_inv_def local_inv_def Let_def)

lemma block_inside: "0 < j_hw J \<Longrightarrow> k < n_blocks J d \<Longrightarrow> k * j_hw J \<le> length d"
proof (cases k)
  case (Suc k')
  assume "0 < j_hw J" "k < n_blocks J d"
  with Suc block_last [of J d k'] show ?thesis by simp
qed simp

lemma setup_ok:
  assumes inv: "comp_inv J hw d x" and job: "job_ok J d" and ph: "phase x = Claimed j"
  obtains s' m' where
    "compBufferSetup J j (at_ptr x) (remaining x) (send_sz x) (pipe x) = Some (upd j (\<lambda>_. s') ((pipe x)\<lparr>pmem := m'\<rparr>))"
    "held s'" "home j s'" "prepared J d m' s' (nat (q_seq (pipe x)))"
    "\<And>b. b \<noteq> BPool (2 * j) \<Longrightarrow> m' b = pmem (pipe x) b"
    "length (m' (BPool (2 * j))) = length (pmem (pipe x) (BPool (2 * j)))"
proof -
  let ?P = "pipe x" and ?k = "nat (q_seq (pipe x))"
  let ?s = "streams ?P ! j"
  have s: "comp_slots J hw d x" and m: "mem_inv J d ?P" and l: "local_inv J d x"
    using inv by (simp_all add: comp_inv_def)
  obtain k where o: "out_inv J hw d x k" using inv by (auto simp: comp_inv_def)
  have j: "j < length (streams ?P)" "held ?s" using slots_invD(4) [OF s, of j] ph by auto
  have c: "home j ?s" "clean ?s"
    using slots_invD(1) [OF s j(1)] j(2) ph by (auto simp: slot_inv_def comp_idle_def)
  have loc: "at_ptr x = Ptr BSrc (?k * j_hw J)" "remaining x = length d - ?k * j_hw J"
    "send_sz x = min (remaining x) (j_hw J)" "?k < n_blocks J d" "0 \<le> q_seq ?P"
    using l ph by (auto simp: local_inv_def Let_def)
  have hw: "0 < j_hw J" using job by (simp add: job_ok_def)
  have len: "length (block J d ?k) = send_sz x" using loc by (simp add: length_block)
  have src: "load (pmem ?P) (at_ptr x) (send_sz x) = Some (block J d ?k)"
    using block_loaded [of ?P d ?k J "send_sz x"] m loc block_inside [OF hw loc(4)] by (simp add: mem_inv_def)
  define s1 where "s1 = ?s\<lparr>st_seq := q_seq ?P, st_res := (st_res ?s)\<lparr>checksum := 0\<rparr>,
       flush_final := final_flag J d ?k, src_dataLen := send_sz x, dest_dataLen := dest_room J (send_sz x)\<rparr>"
  have room: "length (block J d ?k) \<le> length (pmem ?P (BPool (2 * j)))"
    using m j loc by (auto simp: mem_inv_def len)
  obtain s2 m' where s2: "(if \<not> pinned J (at_ptr x) \<and> need_cont_mem J then do {
                   m \<leftarrow> QZ_MEMCPY (pmem ?P) (src_pData s1) (at_ptr x) (send_sz x) (remaining x);
                   Some (s1\<lparr>src_need_reset := False\<rparr>, m) }
                 else Some (s1\<lparr>src_pData := at_ptr x, src_need_reset := True\<rparr>, pmem ?P)) = Some (s2, m')"
    and s2': "load m' (src_pData s2) (send_sz x) = Some (block J d ?k)"
      "if src_need_reset s2 then p_blk (src_pData s2) = BSrc else src_pData s2 = orig_src ?s"
      "s2 = s1\<lparr>src_pData := src_pData s2, src_need_reset := src_need_reset s2\<rparr>"
    and m': "\<And>b. b \<noteq> BPool (2 * j) \<Longrightarrow> m' b = pmem ?P b"
      "length (m' (BPool (2 * j))) = length (pmem ?P (BPool (2 * j)))"
  proof (cases "\<not> pinned J (at_ptr x) \<and> need_cont_mem J")
    case True
    let ?b = "pmem ?P (BPool (2 * j))"
    let ?m = "(pmem ?P)(BPool (2 * j) := put_bytes ?b 0 (block J d ?k))"
    have sp: "src_pData s1 = Ptr (BPool (2 * j)) 0" using c by (simp add: s1_def clean_def home_def)
    have "QZ_MEMCPY (pmem ?P) (src_pData s1) (at_ptr x) (send_sz x) (remaining x) = Some ?m"
      using loc(3) src room by (simp add: QZ_MEMCPY_def sp store_bytes_def min_def)
    moreover have "load ?m (src_pData s1) (send_sz x) = Some (block J d ?k)"
      using room by (simp add: load_Some sp len [symmetric] put_bytes_def)
    ultimately show thesis
      using True c room by (intro that [of "s1\<lparr>src_need_reset := False\<rparr>" ?m])
        (auto simp: s1_def clean_def home_def)
  next
    case False
    then show thesis
      using src loc(1) by (intro that [of "s1\<lparr>src_pData := at_ptr x, src_need_reset := True\<rparr>" "pmem ?P"]) (auto simp: s1_def)
  qed
  define s3 where "s3 = (if st_seq s2 = 0 \<and> (\<not> need_cont_mem J \<or> pinned J (q_next_dest ?P))
      then s2\<lparr>dest_pData := padd (q_next_dest ?P) (outputHeaderSz (j_fmt J)), dest_need_reset := True\<rparr> else s2)"
  have f: "st_seq s2 = q_seq ?P" "flush_final s2 = final_flag J d ?k" "src_dataLen s2 = send_sz x"
    "dest_dataLen s2 = dest_room J (send_sz x)" "dest_pData s2 = orig_dest ?s" "\<not> dest_need_reset s2"
    "orig_src s2 = orig_src ?s" "orig_dest s2 = orig_dest ?s"
    using c(2) by (subst s2'(3), simp add: s1_def clean_def)+
  have nd: "q_seq ?P = 0 \<Longrightarrow> q_next_dest ?P = Ptr BDest 0"
    using out_inv_start [OF o l] l by (simp add: local_inv_def Let_def)
  have "compBufferSetup J j (at_ptr x) (remaining x) (send_sz x) ?P = Some (upd j (\<lambda>_. s3) (?P\<lparr>pmem := m'\<rparr>))"
  proof -
    have ff: "(\<not> (IS_DEFLATE_RAW (j_fmt J) \<and> (\<not> j_last J \<or> remaining x > j_hw J))) = final_flag J d ?k"
      by (simp add: final_flag_def loc(2))
    show ?thesis
      unfolding compBufferSetup_def Let_def ff s1_def [symmetric] s2 by (simp add: s3_def)
  qed
  moreover have "held s3" using j(2) by (simp add: s3_def) (subst s2'(3), simp add: s1_def stage_defs)+
  moreover have "home j s3" using c(1) by (simp add: s3_def) (subst s2'(3), simp add: s1_def home_def)+
  moreover have "prepared J d m' s3 ?k"
    using f s2'(1,2) loc(5) nd by (auto simp: prepared_def s3_def len)
  ultimately show thesis using that m' by blast
qed

lemma setup_inv:
  assumes inv: "comp_inv J hw d x" and job: "job_ok J d" and ph: "phase x = Claimed j"
  shows "\<exists>P. compBufferSetup J j (at_ptr x) (remaining x) (send_sz x) (pipe x) = Some P \<and>
    comp_inv J hw d (x\<lparr>pipe := P, phase := Ready j\<rparr>)"
proof -
  obtain s' m' where r:
    "compBufferSetup J j (at_ptr x) (remaining x) (send_sz x) (pipe x) = Some (upd j (\<lambda>_. s') ((pipe x)\<lparr>pmem := m'\<rparr>))"
    and s': "held s'" "home j s'" "prepared J d m' s' (nat (q_seq (pipe x)))"
    and m': "\<And>b. b \<noteq> BPool (2 * j) \<Longrightarrow> m' b = pmem (pipe x) b"
    "length (m' (BPool (2 * j))) = length (pmem (pipe x) (BPool (2 * j)))"
    by (rule setup_ok [OF inv job ph]) (rule that)
  let ?P = "upd j (\<lambda>_. s') ((pipe x)\<lparr>pmem := m'\<rparr>)"
  let ?x = "x\<lparr>pipe := ?P, phase := Ready j\<rparr>"
  have s: "comp_slots J hw d x" and m: "mem_inv J d (pipe x)" using inv by (simp_all add: comp_inv_def)
  have "comp_slots J hw d ?x"
  proof -
    have "own_same i (pmem (pipe x)) m'" if "i \<noteq> j" for i
    proof -
      have "2 * i + 1 \<noteq> 2 * j" by presburger
      then show ?thesis using that by (simp add: own_same_def m'(1))
    qed
    moreover have "comp_prep J d j m' s' (q_seq (pipe x))"
      using s'(2,3) inv by (simp add: comp_prep_def comp_inv_def local_inv_def Let_def)
    ultimately show ?thesis
      using cs.setup_step [of J d hw j "driver x" "pipe x" ?P s'] s ph s'(1) m'(1) by (simp add: upd_streams)
  qed
  moreover have "local_inv J d ?x" using inv ph by (auto simp: comp_inv_def local_inv_def Let_def)
  moreover have "out_inv J hw d ?x k = out_inv J hw d x k" for k by (simp add: out_inv_def Let_def m'(1))
  moreover have "mem_inv J d (pipe ?x)"
    using m m' unfolding mem_inv_def by (auto simp: m'(1)) (metis m' mult_cancel_left blk.inject)+
  ultimately show ?thesis using inv r unfolding comp_inv_def by auto
qed

lemma submit_inv:
  assumes inv: "comp_inv J hw d x" and job: "job_ok J d" and ph: "phase x = Ready j"
  shows "comp_inv J hw d (in_advance J (x\<lparr>pipe := upd j (\<lambda>s. s\<lparr>src2 := src2 s + 1\<rparr>) (pipe x), driver := driver x @ [j]\<rparr>))"
proof -
  let ?P = "pipe x"
  let ?s = "streams ?P ! j"
  let ?s' = "?s\<lparr>src2 := src2 ?s + 1\<rparr>"
  define x' where "x' = in_advance J (x\<lparr>pipe := upd j (\<lambda>s. s\<lparr>src2 := src2 s + 1\<rparr>) ?P, driver := driver x @ [j]\<rparr>)"
  have s: "comp_slots J hw d x" and m: "mem_inv J d ?P" and l: "local_inv J d x" using inv by (simp_all add: comp_inv_def)
  have hw: "0 < j_hw J" using job by (simp add: job_ok_def)
  have q: "q_seq ?P < int (n_blocks J d)" "0 \<le> q_seq ?P" "remaining x = length d - nat (q_seq ?P) * j_hw J"
    "send_sz x = min (remaining x) (j_hw J)" "q_seq_in ?P \<le> q_seq ?P" "\<not> q_last_submitted ?P" "\<not> out_done x"
    "at_ptr x = Ptr BSrc (nat (q_seq ?P) * j_hw J)"
    using l ph by (auto simp: local_inv_def Let_def)
  have f: "streams (pipe x') = (streams ?P)[j := ?s']" "pmem (pipe x') = pmem ?P" "q_seq (pipe x') = q_seq ?P + 1"
    "q_seq_in (pipe x') = q_seq_in ?P" "driver x' = driver x @ [j]" "phase x' \<in> {Between, InDone}"
    "dest_avail x' = dest_avail x" "q_stat (pipe x') = q_stat ?P" "q_out_len (pipe x') = q_out_len ?P"
    "q_next_dest (pipe x') = q_next_dest ?P" "q_in_len (pipe x') = q_in_len ?P"
    by (simp_all add: x'_def in_advance_def upd_def Let_def)
  have "comp_slots J hw d x'"
  proof -
    have "slots_inv comp_idle (comp_prep J d) (comp_fin J hw d) None (Some j) (driver x) ?P" using s ph by simp
    from cs.submit_step [OF this f(1,3,4,2)] show ?thesis using f(5,6) q(5) by auto
  qed
  moreover have "local_inv J d x'"
  proof -
    let ?k = "nat (q_seq ?P)"
    have n: "nat (q_seq ?P + 1) = Suc ?k" using q by simp
    have r: "remaining x - send_sz x = length d - Suc ?k * j_hw J"
      unfolding q(3,4) by (auto simp: min_def)
    have z: "length d - Suc ?k * j_hw J = 0 \<longleftrightarrow> n_blocks J d \<le> Suc ?k"
      using block_last [OF hw, of d ?k] by (auto simp: algebra_simps)
    have sm: "length d - Suc ?k * j_hw J \<noteq> 0 \<Longrightarrow> send_sz x = j_hw J" using q(3,4) by (simp add: min_def)
    define R where "R = (if q_stop ?P then 0 else length d - Suc ?k * j_hw J)"
    have g: "remaining x' = R" "phase x' = (if R = 0 then InDone else Between)"
      "q_last_submitted (pipe x') = (R = 0)" "at_ptr x' = Ptr BSrc (?k * j_hw J + send_sz x)"
      "send_sz x' = min (length d - Suc ?k * j_hw J) (j_hw J)" "out_done x' = out_done x"
      "heartbeat (pipe x') = heartbeat ?P" "q_submitted (pipe x') = q_submitted ?P + 1"
      "q_processed (pipe x') = q_processed ?P" "q_stop (pipe x') = q_stop ?P"
      using q(6,8) by (simp_all add: x'_def in_advance_def Let_def r R_def padd_def)
    have o: "heartbeat ?P" "q_submitted ?P = q_seq ?P" "q_processed ?P = q_seq_in ?P" "0 \<le> q_seq_in ?P"
      "q_stop ?P \<longleftrightarrow> q_stat ?P = QZ_BUF_ERROR" "q_stat ?P \<in> {QZ_OK, QZ_BUF_ERROR}"
      using l by (simp_all add: local_inv_def Let_def)
    show ?thesis
    proof (cases "R = 0")
      case True
      then have "q_stop ?P \<or> n_blocks J d \<le> Suc ?k" using z by (auto simp: R_def split: if_splits)
      then show ?thesis using True o q(1,2,5,7) n unfolding local_inv_def Let_def g f(3,4,8) by auto
    next
      case False
      then have "\<not> q_stop ?P" "length d - Suc ?k * j_hw J \<noteq> 0" by (auto simp: R_def split: if_splits)
      then have "R = length d - Suc ?k * j_hw J" "send_sz x = j_hw J" "Suc ?k < n_blocks J d" using sm z by (auto simp: R_def)
      then show ?thesis using False o q(1,2,5,7) n unfolding local_inv_def Let_def g f(3,4,8) by (auto simp: algebra_simps)
    qed
  qed
  moreover have "out_inv J hw d x' k = out_inv J hw d x k" for k by (simp add: out_inv_def Let_def f)
  moreover have "mem_inv J d (pipe x')" using m by (simp add: mem_inv_def f)
  ultimately show ?thesis using inv unfolding x'_def [symmetric] comp_inv_def by auto
qed

section \<open>The driver's answers\<close>

lemma block_dest_mono: "m \<le> n \<Longrightarrow> n \<le> 524288 \<Longrightarrow> block_dest_sz m \<le> block_dest_sz n"
  by (simp add: block_dest_sz_eq div_le_mono)

lemma out_room:
  assumes "job_ok J d" "healthy J hw d" "k < n_blocks J d"
  shows "length (out_of J hw d k) \<le> block_dest_sz (j_hw J)"
    "outputHeaderSz (j_fmt J) + length (out_of J hw d k) \<le> j_dest_sz J"
proof -
  have b: "length (block J d k) \<le> j_hw J" by (simp add: length_block)
  have o: "length (out_of J hw d k) \<le> min (j_dest_sz J) (block_dest_sz (length (block J d k))) - outputHeaderSz (j_fmt J)"
    using assms(2,3) unfolding dest_room_eq [OF assms(1) b, symmetric] by (simp add: healthy_def)
  show "length (out_of J hw d k) \<le> block_dest_sz (j_hw J)"
    using o block_dest_mono [OF b] assms(1) by (simp add: job_ok_def)
  show "outputHeaderSz (j_fmt J) + length (out_of J hw d k) \<le> j_dest_sz J"
    using o assms(1) by (simp add: job_ok_def) linarith
qed

text \<open>A store update at the home or zero-copy destination of one buffer.\<close>

lemma respond_ok:
  assumes inv: "comp_inv J hw d x" and job: "job_ok J d" and law: "healthy J hw d" and j: "j \<in> set (driver x)"
  defines "s \<equiv> streams (pipe x) ! j"
  obtains m' k where
    "respond hw j (pipe x) = Some (upd j (\<lambda>s. dcCallback CPA_STATUS_SUCCESS (s\<lparr>st_res := res_of J hw d k\<rparr>)) ((pipe x)\<lparr>pmem := m'\<rparr>))"
    "k = nat (st_seq s)" "k < n_blocks J d" "finished J hw d m' (dcCallback CPA_STATUS_SUCCESS (s\<lparr>st_res := res_of J hw d k\<rparr>)) k"
    "\<And>b. b \<noteq> p_blk (dest_pData s) \<Longrightarrow> m' b = pmem (pipe x) b" "\<And>b. length (m' b) = length (pmem (pipe x) b)"
proof -
  let ?P = "pipe x"
  have sl: "comp_slots J hw d x" and m: "mem_inv J d ?P" and l: "local_inv J d x" using inv by (simp_all add: comp_inv_def)
  note sd = cs.sent_of_driver [OF sl j, folded s_def]
  have js: "j < length (streams ?P)" "sent s" using sd by simp_all
  define k where "k = nat (st_seq s)"
  have p: "home j s" "prepared J d (pmem ?P) s k" "q_seq_in ?P \<le> st_seq s" "st_seq s < q_seq ?P"
    using sd by (simp_all add: comp_prep_def k_def)
  have k: "k < n_blocks J d" using p l by (auto simp: local_inv_def Let_def k_def)
  note room = out_room [OF job law k]
  let ?o = "out_of J hw d k"
  have a: "answer J hw d k = (CPA_STATUS_SUCCESS, res_of J hw d k, ?o)"
    using law k by (cases "answer J hw d k") (auto simp: healthy_def res_of_def out_of_def)
  have fit: "p_off (dest_pData s) + length ?o \<le> length (pmem ?P (p_blk (dest_pData s)))"
  proof (cases "dest_need_reset s")
    case True
    then show ?thesis using p m room by (simp add: prepared_def mem_inv_def)
  next
    case False
    then have "dest_pData s = Ptr (BPool (2 * j + 1)) 0" using p by (simp add: prepared_def home_def)
    moreover have "block_dest_sz (j_hw J) \<le> length (pmem ?P (BPool (2 * j + 1)))" using m js(1) by (simp add: mem_inv_def)
    ultimately show ?thesis using room by simp
  qed
  define b where "b = p_blk (dest_pData s)"
  define m' where "m' = (pmem ?P)(b := put_bytes (pmem ?P b) (p_off (dest_pData s)) ?o)"
  have st: "store_bytes (pmem ?P) (dest_pData s) ?o = Some m'" using fit by (simp add: store_bytes_Some m'_def b_def)
  have r: "respond hw j ?P = Some (upd j (\<lambda>s. dcCallback CPA_STATUS_SUCCESS (s\<lparr>st_res := res_of J hw d k\<rparr>)) (?P\<lparr>pmem := m'\<rparr>))"
    using p(2) a st unfolding respond_def Let_def s_def [symmetric] by (simp add: prepared_def answer_def)
  have nb: "m' b' = pmem ?P b'" if "b' \<noteq> b" for b' using that by (simp add: m'_def)
  have "p_blk (dest_pData s) \<notin> {BSrc, BPool (2 * j)}"
    using p by (auto simp: prepared_def home_def split: if_splits)
  then have "prepared J d m' s k"
    using p nb by (intro prepared_mem [OF p(2,1)]) (auto simp: b_def)
  moreover have "load m' (dest_pData s) (length ?o) = Some ?o"
    using fit put_bytes_same [OF fit] by (simp add: load_Some m'_def b_def)
  ultimately have "finished J hw d m' (dcCallback CPA_STATUS_SUCCESS (s\<lparr>st_res := res_of J hw d k\<rparr>)) k"
    using js(2) by (simp add: finished_def prepared_def dcCallback_def sent_def)
  then show thesis
    by (rule that [OF r k_def k]) (use fit nb in \<open>auto simp: m'_def b_def\<close>)
qed

lemma respond_inv:
  assumes inv: "comp_inv J hw d x" and job: "job_ok J d" and law: "healthy J hw d" and j: "j \<in> set (driver x)"
  shows "\<exists>P. respond hw j (pipe x) = Some P \<and> comp_inv J hw d (x\<lparr>pipe := P, driver := remove1 j (driver x)\<rparr>)"
proof -
  let ?P = "pipe x"
  let ?s = "streams ?P ! j"
  obtain m' k where r:
    "respond hw j ?P = Some (upd j (\<lambda>s. dcCallback CPA_STATUS_SUCCESS (s\<lparr>st_res := res_of J hw d k\<rparr>)) (?P\<lparr>pmem := m'\<rparr>))"
    and k: "k = nat (st_seq ?s)" "k < n_blocks J d"
    and fin: "finished J hw d m' (dcCallback CPA_STATUS_SUCCESS (?s\<lparr>st_res := res_of J hw d k\<rparr>)) k"
    and m': "\<And>b. b \<noteq> p_blk (dest_pData ?s) \<Longrightarrow> m' b = pmem ?P b" "\<And>b. length (m' b) = length (pmem ?P b)"
    by (rule respond_ok [OF inv job law j]) (rule that)
  define s' where "s' = dcCallback CPA_STATUS_SUCCESS (?s\<lparr>st_res := res_of J hw d k\<rparr>)"
  let ?x = "x\<lparr>pipe := upd j (\<lambda>s. dcCallback CPA_STATUS_SUCCESS (s\<lparr>st_res := res_of J hw d k\<rparr>)) (?P\<lparr>pmem := m'\<rparr>),
     driver := remove1 j (driver x)\<rparr>"
  have sl: "comp_slots J hw d x" and m: "mem_inv J d ?P" and l: "local_inv J d x" using inv by (simp_all add: comp_inv_def)
  note sd = cs.sent_of_driver [OF sl j]
  have js: "j < length (streams ?P)" "sent ?s" using sd by simp_all
  have p: "home j ?s" "prepared J d (pmem ?P) ?s k" "q_seq_in ?P \<le> st_seq ?s" "st_seq ?s < q_seq ?P"
    using sd k(1) by (simp_all add: comp_prep_def)
  have s': "answered s'" "st_seq s' = st_seq ?s" "home j s'" "busy ?s"
    using js(2) p(1) by (simp_all add: s'_def dcCallback_def stage_defs home_def busy_def)
  have dst: "p_blk (dest_pData ?s) = (if dest_need_reset ?s then BDest else BPool (2 * j + 1))"
    using p by (auto simp: prepared_def home_def)
  have "st_seq ?s = int k" and "dest_need_reset ?s \<Longrightarrow> k = 0"
    using p(2) unfolding prepared_def by argo+
  then have zc: "dest_need_reset ?s \<Longrightarrow> st_seq ?s = 0" by simp
  have z0: "q_seq_in ?P = 0" if "dest_need_reset ?s" using zc [OF that] p(3) l by (simp add: local_inv_def Let_def)
  have "comp_slots J hw d ?x"
  proof -
    have "finished J hw d m' s' (nat (st_seq s'))"
      using fin unfolding s'_def [symmetric] s'(2) k(1) [symmetric] .
    then have fi: "comp_fin J hw d j m' s' (st_seq s')"
      using s'(2,3) sd(3) by (simp add: comp_fin_def comp_prep_def)
    have "slots_inv comp_idle (comp_prep J d) (comp_fin J hw d) (claimed (phase x)) (readied (phase x))
        (remove1 j (driver x)) (pipe ?x)"
    proof (rule cs.respond_step [OF sl j])
      show "streams (pipe ?x) = (streams ?P)[j := s']" by (simp add: upd_def s'_def)
      show "own_same i (pmem ?P) (pmem (pipe ?x))" if "i \<noteq> j" for i
        using that m'(1) by (auto simp: own_same_def dst)
      show "comp_keeps (st_seq (streams ?P ! i)) (pmem ?P) (pmem (pipe ?x))" if "st_seq (streams ?P ! i) \<noteq> st_seq s'" for i
        using that m'(1) [of BDest] dst zc s'(2) by (cases "dest_need_reset ?s") (auto simp: comp_keeps_def)
    qed (use fi s'(1,2) in simp_all)
    then show ?thesis by simp
  qed
  moreover have "local_inv J d ?x" using l by (auto simp: local_inv_def Let_def)
  moreover have "out_inv J hw d ?x i" if o: "out_inv J hw d x i" for i
  proof (cases "dest_need_reset ?s")
    case True
    then show ?thesis using o out_inv_start [OF o l z0 [OF True]] by (simp add: out_inv_def Let_def)
  next
    case False
    then have "m' BDest = pmem ?P BDest" using m'(1) dst by simp
    then show ?thesis using o unfolding out_inv_def Let_def by auto
  qed
  moreover have "mem_inv J d (pipe ?x)"
    using m m' dst unfolding mem_inv_def by (auto split: if_splits)
  ultimately show ?thesis using inv r unfolding comp_inv_def by auto
qed

end
