(* ===== verification/CompOrder.thy ===== *)
theory CompOrder
  imports PipeInv
begin

text \<open>
  Correctness of the compression pipeline on a healthy instance: the collecting thread keeps the
  invariant, some thread can always go on, and whatever the interleaving of the threads and the order
  of the driver's answers, the destination holds the framed blocks in the order of the source.
\<close>

section \<open>Collecting\<close>

lemma write_out_dest:
  assumes "q_next_dest P = Ptr BDest i" "i + length xs \<le> length (pmem P BDest)"
  shows "write_out xs P = Some (P\<lparr>pmem := (pmem P)(BDest := put_bytes (pmem P BDest) i xs)\<rparr>)"
  using assms by (simp add: write_out_def store_bytes_def)

lemma put_bytes_twice: "i + length xs + length ys \<le> length b \<Longrightarrow>
    put_bytes (put_bytes b i xs) (i + length xs) ys = put_bytes b i (xs @ ys)"
  by (simp add: put_bytes_def ac_simps)

lemma put_bytes_present: "i + length xs \<le> length b \<Longrightarrow> take (length xs) (drop i b) = xs \<Longrightarrow> put_bytes b i xs = b"
  by (simp add: put_bytes_def) (metis append_take_drop_id drop_drop add.commute)

text \<open>The data of a finished buffer reaches the destination, by copy or because it is there.\<close>

lemma valid_clean_up:
  assumes s: "s = streams P ! j" and j: "j < length (streams P)" and h: "home j s"
    and nd: "q_next_dest P = Ptr BDest i" "q_out_len P = i" "length (pmem P BDest) = j_dest_sz J"
    and fit: "i + length out \<le> j_dest_sz J"
    and ld: "load (pmem P) (dest_pData s) (length out) = Some out"
    and d: "dest_pData s = (if dest_need_reset s then Ptr BDest i else orig_dest s)"
  shows "compOutValidDestBufferCleanUp J j (length out) P =
    Some (upd j RestoreDestCpastreamBuffer (P\<lparr>pmem := (pmem P)(BDest := put_bytes (pmem P BDest) i out)\<rparr>))"
proof (cases "dest_need_reset s")
  case True
  then have "put_bytes (pmem P BDest) i out = pmem P BDest"
    using ld d nd fit by (intro put_bytes_present) (simp_all add: load_Some)
  then show ?thesis
    using True s j by (simp add: compOutValidDestBufferCleanUp_def Let_def RestoreDestCpastreamBuffer_def upd_def)
next
  case False
  have u: "upd j RestoreDestCpastreamBuffer Q = Q" if "streams Q = streams P" for Q
    using False s that by (simp add: upd_def RestoreDestCpastreamBuffer_def)
  have mn: "min (j_dest_sz J - i) (length out) = length out" using fit by simp
  have "QZ_MEMCPY (pmem P) (q_next_dest P) (dest_pData s) (j_dest_sz J - q_out_len P) (length out) =
      Some ((pmem P)(BDest := put_bytes (pmem P BDest) i out))"
    using ld nd fit unfolding QZ_MEMCPY_def nd(2) mn by (simp add: store_bytes_def)
  then show ?thesis
    using False s by (simp add: compOutValidDestBufferCleanUp_def Let_def u)
qed

lemma update_crc_only: "update_crc J r P = P\<lparr>q_crc := q_crc (update_crc J r P)\<rparr>"
  by (cases P) (simp add: update_crc_def split: option.split)

lemma frame_out_ok:
  assumes j: "j < length (streams P)" and h: "home j (streams P ! j)" and fmt: "j_fmt J \<noteq> DEFLATE_4B"
    and nd: "q_next_dest P = Ptr BDest i" "q_out_len P = i" "length (pmem P BDest) = j_dest_sz J"
    and fit: "i + outputHeaderSz (j_fmt J) + length out + outputFooterSz (j_fmt J) \<le> j_dest_sz J"
    and pr: "unat (produced r) = length out"
    and ld: "load (pmem P) (dest_pData (streams P ! j)) (length out) = Some out"
    and d: "if dest_need_reset (streams P ! j) then dest_pData (streams P ! j) = Ptr BDest (i + outputHeaderSz (j_fmt J))
       else dest_pData (streams P ! j) = orig_dest (streams P ! j)"
  defines "bs \<equiv> outputHeaderGen r (j_fmt J) @ out @ outputFooterGen r (j_fmt J)"
  shows "\<exists>c. frame_out J j r P = Some ((upd j RestoreDestCpastreamBuffer P)\<lparr>
     pmem := (pmem P)(BDest := put_bytes (pmem P BDest) i bs), q_next_dest := Ptr BDest (i + length bs),
     q_out_len := i + length bs, q_in_len := q_in_len P + unat (consumed r), q_crc := c\<rparr>)"
proof -
  let ?f = "j_fmt J" and ?s = "streams P ! j"
  let ?H = "outputHeaderGen r ?f" and ?F = "outputFooterGen r ?f" and ?b = "pmem P BDest"
  have len: "length ?H = outputHeaderSz ?f" "length ?F = outputFooterSz ?f"
    by (simp_all add: framing_lengths fmt)
  define P1 where "P1 = advance_out (outputHeaderSz ?f) (P\<lparr>pmem := (pmem P)(BDest := put_bytes ?b i ?H)\<rparr>)"
  have w1: "write_out ?H P = Some (P\<lparr>pmem := (pmem P)(BDest := put_bytes ?b i ?H)\<rparr>)"
    using fit nd len by (intro write_out_dest) simp_all
  have "load (pmem P1) (dest_pData ?s) (length out) = Some out"
  proof (cases "dest_need_reset ?s")
    case True
    then have dp: "dest_pData ?s = Ptr BDest (i + length ?H)" using d len by simp
    have "i + length ?H \<le> length ?b" using fit nd len by simp
    with ld dp show ?thesis by (simp add: P1_def advance_out_def load_Some drop_put_bytes)
  next
    case False
    then have "p_blk (dest_pData ?s) \<noteq> BDest" using d h by (simp add: home_def)
    with ld show ?thesis by (simp add: P1_def advance_out_def load_def)
  qed
  then have cl: "compOutValidDestBufferCleanUp J j (length out) P1 =
      Some (upd j RestoreDestCpastreamBuffer (P1\<lparr>pmem := (pmem P1)(BDest := put_bytes (pmem P1 BDest) (i + length ?H) out)\<rparr>))"
    using j h nd fit d len
    by (intro valid_clean_up [OF refl]) (simp_all add: P1_def advance_out_def padd_def split: if_splits)
  have pb: "put_bytes (pmem P1 BDest) (i + length ?H) out = put_bytes ?b i (?H @ out)"
    using fit nd len put_bytes_twice [of i ?H out ?b] by (simp add: P1_def advance_out_def)
  define P2 where "P2 = upd j RestoreDestCpastreamBuffer (P1\<lparr>pmem := (pmem P1)(BDest := put_bytes ?b i (?H @ out))\<rparr>)"
  obtain c where u: "update_crc J r (P2\<lparr>q_next_dest := padd (q_next_dest P2) (length out),
      q_in_len := q_in_len P2 + unat (consumed r)\<rparr>) =
    P2\<lparr>q_next_dest := padd (q_next_dest P2) (length out), q_in_len := q_in_len P2 + unat (consumed r), q_crc := c\<rparr>"
    by (rule that) (subst update_crc_only, simp)
  have f2: "q_next_dest P2 = Ptr BDest (i + length ?H)" "pmem P2 = (pmem P)(BDest := put_bytes ?b i (?H @ out))"
    "q_out_len P2 = i + length ?H" "q_in_len P2 = q_in_len P"
    using nd len by (simp_all add: P2_def P1_def advance_out_def padd_def)
  define P3 where "P3 = P2\<lparr>q_next_dest := Ptr BDest (i + length (?H @ out)), q_in_len := q_in_len P + unat (consumed r),
     q_crc := c, q_out_len := i + length (?H @ out)\<rparr>"
  have w3: "write_out ?F P3 = Some (P3\<lparr>pmem := (pmem P3)(BDest := put_bytes (pmem P3 BDest) (i + length (?H @ out)) ?F)\<rparr>)"
    using fit nd len f2 by (intro write_out_dest) (simp_all add: P3_def)
  have pb3: "put_bytes (pmem P3 BDest) (i + length (?H @ out)) ?F = put_bytes ?b i bs"
    using put_bytes_twice [of i "?H @ out" ?F ?b] fit nd len by (simp add: P3_def f2 bs_def)
  have "frame_out J j r P = Some (advance_out (outputFooterSz ?f) (P3\<lparr>pmem := (pmem P3)(BDest := put_bytes ?b i bs)\<rparr>))"
    using w1 cl pb u w3 [unfolded pb3, unfolded P3_def] pr f2
    by (simp add: frame_out_def Let_def P1_def [symmetric] P2_def [symmetric] padd_def add.assoc) (simp add: P3_def add.assoc)
  also have "advance_out (outputFooterSz ?f) (P3\<lparr>pmem := (pmem P3)(BDest := put_bytes ?b i bs)\<rparr>) =
    (upd j RestoreDestCpastreamBuffer P)\<lparr>pmem := (pmem P)(BDest := put_bytes ?b i bs), q_next_dest := Ptr BDest (i + length bs),
     q_out_len := i + length bs, q_in_len := q_in_len P + unat (consumed r), q_crc := c\<rparr>"
    using len by (simp add: P3_def f2 advance_out_def padd_def bs_def P2_def P1_def upd_def)
  finally show ?thesis by blast
qed

text \<open>Giving a buffer back.\<close>

definition restored :: "CpaStream \<Rightarrow> CpaStream" where
  "restored s = (RestoreSrcCpastreamBuffer (RestoreDestCpastreamBuffer s))\<lparr>sink2 := sink2 s + 1\<rparr>"

definition release :: "nat \<Rightarrow> Pipe \<Rightarrow> Pipe" where
  "release j P = P\<lparr>streams := (streams P)[j := restored (streams P ! j)],
     q_processed := q_processed P + 1, q_seq_in := q_seq_in P + 1\<rparr>"

lemma skip_releases: "j < length (streams P) \<Longrightarrow> st_seq (streams P ! j) = q_seq_in P \<Longrightarrow>
    compOutSkipErrorRespond j P = Some (release j P)"
  by (simp add: compOutSkipErrorRespond_def compOutProcessedRespond_def compOutErrorDestBufferCleanUp_def
      compOutSrcBufferCleanUp_def upd_def release_def restored_def RestoreSrcCpastreamBuffer_def RestoreDestCpastreamBuffer_def Let_def)

lemma processed_releases: "j < length (streams P) \<Longrightarrow> st_seq (streams P ! j) = q_seq_in P \<Longrightarrow>
    streams P' = streams (upd j RestoreDestCpastreamBuffer P) \<Longrightarrow> q_seq_in P' = q_seq_in P \<Longrightarrow>
    compOutProcessedRespond j P' = Some (P'\<lparr>streams := (streams P)[j := restored (streams P ! j)],
      q_processed := q_processed P' + 1, q_seq_in := q_seq_in P + 1\<rparr>)"
  by (simp add: compOutProcessedRespond_def compOutSrcBufferCleanUp_def upd_def restored_def RestoreSrcCpastreamBuffer_def
      RestoreDestCpastreamBuffer_def Let_def)

lemma restored_clean:
  assumes "answered s" "prepared J d m s k" "home j s"
  shows "unused (restored s)" "clean (restored s)" "home j (restored s)"
  using assms by (auto simp: restored_def RestoreSrcCpastreamBuffer_def RestoreDestCpastreamBuffer_def stage_defs
      clean_def home_def prepared_def split: if_splits)

lemma answered_comp:
  assumes s: "comp_slots J hw d x" and j: "j < length (streams (pipe x))" and a: "answered (streams (pipe x) ! j)"
  shows "home j (streams (pipe x) ! j)" "finished J hw d (pmem (pipe x)) (streams (pipe x) ! j) (nat (st_seq (streams (pipe x) ! j)))"
    "st_seq (streams (pipe x) ! j) < q_seq (pipe x)"
  using cs.answered_of [OF s j a] by (simp_all add: comp_fin_def)

lemma release_slots:
  assumes s: "comp_slots J hw d x" and j: "j < length (streams (pipe x))" and a: "answered (streams (pipe x) ! j)"
    and q: "st_seq (streams (pipe x) ! j) = q_seq_in (pipe x)"
    and x': "streams (pipe x') = (streams (pipe x))[j := restored (streams (pipe x) ! j)]"
      "q_seq_in (pipe x') = q_seq_in (pipe x) + 1" "q_seq (pipe x') = q_seq (pipe x)" "driver x' = driver x" "phase x' = phase x"
      "\<And>b. b \<noteq> BDest \<Longrightarrow> pmem (pipe x') b = pmem (pipe x) b"
    and pos: "0 \<le> q_seq_in (pipe x)"
  shows "comp_slots J hw d x'"
proof -
  have p: "home j (streams (pipe x) ! j)" "prepared J d (pmem (pipe x)) (streams (pipe x) ! j) (nat (st_seq (streams (pipe x) ! j)))"
    using answered_comp [OF s j a] by (simp_all add: finished_def)
  note r = restored_clean [OF a p(2,1)]
  have "slots_inv comp_idle (comp_prep J d) (comp_fin J hw d) (claimed (phase x)) (readied (phase x)) (driver x) (pipe x')"
    by (rule cs.release_step [OF s j a q x'(1,3,2)])
      (use r x'(6) pos in \<open>simp_all add: comp_idle_def own_same_def comp_keeps_def\<close>)
  then show ?thesis using x'(4,5) by simp
qed

lemma released_local: "local_inv J d x \<Longrightarrow> q_seq_in (pipe x) < q_seq (pipe x) \<Longrightarrow>
    q_seq_in P = q_seq_in (pipe x) + 1 \<Longrightarrow> q_processed P = q_processed (pipe x) + 1 \<Longrightarrow>
    q_seq P = q_seq (pipe x) \<Longrightarrow> q_submitted P = q_submitted (pipe x) \<Longrightarrow> heartbeat P = heartbeat (pipe x) \<Longrightarrow>
    q_last_submitted P = q_last_submitted (pipe x) \<Longrightarrow> q_stat P \<in> {QZ_OK, QZ_BUF_ERROR} \<Longrightarrow>
    (q_stat P = QZ_BUF_ERROR) = q_stop P \<Longrightarrow> (q_stop (pipe x) \<Longrightarrow> q_stop P) \<Longrightarrow>
    local_inv J d (x\<lparr>pipe := P, dest_avail := a\<rparr>)"
  by (auto simp: local_inv_def Let_def)

lemma collect_one_inv:
  assumes inv: "comp_inv J hw d x" and job: "job_ok J d" and law: "healthy J hw d"
    and j: "j < length (streams (pipe x))" and a: "answered (streams (pipe x) ! j)"
    and q: "st_seq (streams (pipe x) ! j) = q_seq_in (pipe x)"
  shows "\<exists>c av P. collect_one J sw j (dest_avail x) (pipe x) w = Some (c, av, P, w) \<and> c \<noteq> Abort \<and>
    comp_inv J hw d (x\<lparr>pipe := P, dest_avail := av\<rparr>) \<and> length (streams P) = length (streams (pipe x)) \<and>
    q_seq P = q_seq (pipe x) \<and> q_seq_in P = q_seq_in (pipe x) + 1"
proof -
  let ?P = "pipe x" and ?s = "streams (pipe x) ! j" and ?k = "nat (q_seq_in (pipe x))"
  have s: "comp_slots J hw d x" and m: "mem_inv J d ?P" and l: "local_inv J d x" using inv by (simp_all add: comp_inv_def)
  obtain k where o: "out_inv J hw d x k" using inv by (auto simp: comp_inv_def)
  have f: "finished J hw d (pmem ?P) ?s ?k" and h: "home j ?s" and lt: "q_seq_in ?P < q_seq ?P"
    using answered_comp [OF s j a] q by simp_all
  have pos: "0 \<le> q_seq_in ?P" "q_seq ?P \<le> int (n_blocks J d)" and st: "q_stat ?P \<in> {QZ_OK, QZ_BUF_ERROR}"
    "q_stop ?P \<longleftrightarrow> q_stat ?P = QZ_BUF_ERROR"
    using l by (auto simp: local_inv_def Let_def)
  have kn: "?k < n_blocks J d" using lt pos by linarith
  have fmt: "j_fmt J \<noteq> DEFLATE_4B" using job by (simp add: job_ok_def)
  have res: "st_res ?s = res_of J hw d ?k" "job_status ?s = 0" "res_status (res_of J hw d ?k) = 0"
    "unat (produced (res_of J hw d ?k)) = length (out_of J hw d ?k)"
    "unat (consumed (res_of J hw d ?k)) = length (block J d ?k)"
    using f law kn by (simp_all add: finished_def healthy_def)
  have fl: "length (frame J hw d ?k) = outputHeaderSz (j_fmt J) + unat (produced (res_of J hw d ?k)) + outputFooterSz (j_fmt J)"
    using frame_length [OF fmt] res(4) by simp
  show ?thesis
  proof (cases "q_stat ?P = QZ_BUF_ERROR")
    case True
    let ?x = "x\<lparr>pipe := release j ?P, dest_avail := dest_avail x\<rparr>"
    have "collect_one J sw j (dest_avail x) ?P w = Some (Continue, dest_avail x, release j ?P, w)"
      using True skip_releases [OF j q] by (simp add: collect_one_def Let_def)
    moreover have "comp_slots J hw d ?x"
      by (rule release_slots [OF s j a q]) (use pos in \<open>simp_all add: release_def\<close>)
    moreover have "local_inv J d ?x"
      by (rule released_local [OF l lt]) (use st True in \<open>simp_all add: release_def\<close>)
    moreover have "out_inv J hw d ?x k" using o True unfolding out_inv_def release_def Let_def by auto
    moreover have "mem_inv J d (release j ?P)" using m by (simp add: mem_inv_def release_def)
    ultimately show ?thesis by (auto simp: comp_inv_def release_def)
  next
    case ok: False
    have k: "int k = q_seq_in ?P" "dest_avail x = int (j_dest_sz J) - int (q_out_len ?P)"
      and ou: "q_out_len ?P = length (frames J hw d k)" "q_next_dest ?P = Ptr BDest (q_out_len ?P)"
        "take (q_out_len ?P) (pmem ?P BDest) = frames J hw d k" "q_in_len ?P = min (k * j_hw J) (length d)"
      using o ok st by (auto simp: out_inv_def Let_def)
    have kk: "?k = k" using k(1) by simp
    show ?thesis
    proof (cases "dest_avail x < int (length (frame J hw d k))")
      case True
      let ?P' = "(release j ?P)\<lparr>q_stop := True, q_stat := QZ_BUF_ERROR\<rparr>"
      let ?av = "dest_avail x - int (length (frame J hw d k))"
      let ?x = "x\<lparr>pipe := ?P', dest_avail := ?av\<rparr>"
      have "collect_one J sw j (dest_avail x) ?P w = Some (Continue, ?av, ?P', w)"
        using ok True skip_releases [OF j q] res fl kk by (simp add: collect_one_def compOutCheckDestLen_def Let_def)
      moreover have "comp_slots J hw d ?x"
        by (rule release_slots [OF s j a q]) (use pos in \<open>simp_all add: release_def\<close>)
      moreover have "local_inv J d ?x"
        by (rule released_local [OF l lt]) (simp_all add: release_def)
      moreover have "out_inv J hw d ?x k"
        using o k True ou(1) by (simp add: out_inv_def release_def Let_def frames_Suc)
      moreover have "mem_inv J d ?P'" using m by (simp add: mem_inv_def release_def)
      ultimately show ?thesis by (auto simp: comp_inv_def release_def)
    next
      case fits: False
      let ?r = "res_of J hw d k" and ?o = "out_of J hw d k"
      let ?fr = "outputHeaderGen ?r (j_fmt J) @ ?o @ outputFooterGen ?r (j_fmt J)"
      have fr: "?fr = frame J hw d k" by (simp add: frame_def)
      have dl: "length (pmem ?P BDest) = j_dest_sz J" using m by (simp add: mem_inv_def)
      have fit: "q_out_len ?P + length (frame J hw d k) \<le> j_dest_sz J" using fits k(2) by simp
      have f': "finished J hw d (pmem ?P) ?s k" using f kk by simp
      have z: "dest_need_reset ?s \<Longrightarrow> q_out_len ?P = 0"
        using f' ou(1) unfolding finished_def prepared_def by (metis frames_0 list.size(3))
      obtain c where fo: "frame_out J j ?r ?P = Some ((upd j RestoreDestCpastreamBuffer ?P)\<lparr>
          pmem := (pmem ?P)(BDest := put_bytes (pmem ?P BDest) (q_out_len ?P) ?fr),
          q_next_dest := Ptr BDest (q_out_len ?P + length ?fr), q_out_len := q_out_len ?P + length ?fr,
          q_in_len := q_in_len ?P + unat (consumed ?r), q_crc := c\<rparr>)"
      proof -
        have "\<exists>c. frame_out J j ?r ?P = Some ((upd j RestoreDestCpastreamBuffer ?P)\<lparr>
          pmem := (pmem ?P)(BDest := put_bytes (pmem ?P BDest) (q_out_len ?P) ?fr),
          q_next_dest := Ptr BDest (q_out_len ?P + length ?fr), q_out_len := q_out_len ?P + length ?fr,
          q_in_len := q_in_len ?P + unat (consumed ?r), q_crc := c\<rparr>)"
          by (rule frame_out_ok [OF j h fmt ou(2) refl dl])
            (use fit fl kk res(4) f' z in \<open>auto simp: finished_def prepared_def split: if_splits\<close>)
        then show thesis using that by blast
      qed
      let ?P1 = "(upd j RestoreDestCpastreamBuffer ?P)\<lparr>
          pmem := (pmem ?P)(BDest := put_bytes (pmem ?P BDest) (q_out_len ?P) ?fr),
          q_next_dest := Ptr BDest (q_out_len ?P + length ?fr), q_out_len := q_out_len ?P + length ?fr,
          q_in_len := q_in_len ?P + unat (consumed ?r), q_crc := c\<rparr>"
      let ?P' = "?P1\<lparr>streams := (streams ?P)[j := restored ?s], q_processed := q_processed ?P1 + 1,
         q_seq_in := q_seq_in ?P + 1\<rparr>"
      let ?av = "dest_avail x - int (length (frame J hw d k))"
      let ?x = "x\<lparr>pipe := ?P', dest_avail := ?av\<rparr>"
      have pr: "compOutProcessedRespond j ?P1 = Some ?P'"
        by (rule processed_releases [OF j q]) simp_all
      have "collect_one J sw j (dest_avail x) ?P w = Some (Break, ?av, ?P', w)"
        using ok fits fo pr res fl kk by (simp add: collect_one_def compOutCheckDestLen_def Let_def)
      moreover have "comp_slots J hw d ?x"
        by (rule release_slots [OF s j a q]) (use pos in \<open>simp_all add: upd_def\<close>)
      moreover have "local_inv J d ?x"
        by (rule released_local [OF l lt]) (use ok st in simp_all)
      moreover have "out_inv J hw d ?x (Suc k)"
      proof -
        have "take (q_out_len ?P + length ?fr) (put_bytes (pmem ?P BDest) (q_out_len ?P) ?fr) = frames J hw d (Suc k)"
          using take_put_bytes [of "q_out_len ?P" ?fr "pmem ?P BDest"] fit dl ou(3) fr by (simp add: frames_Suc)
        moreover have "q_in_len ?P + unat (consumed ?r) = min (Suc k * j_hw J) (length d)"
          using ou(4) res(5) kk by (simp add: length_block)
        moreover have "length (frames J hw d (Suc k)) = q_out_len ?P + length ?fr"
          using ou(1) fr by (simp add: frames_Suc)
        ultimately show ?thesis using fit k ok st(1) fr unfolding out_inv_def Let_def by auto
      qed
      moreover have "mem_inv J d ?P'" using m fit dl fr by (simp add: mem_inv_def)
      ultimately show ?thesis by (auto simp: comp_inv_def)
    qed
  qed
qed

lemma collect_scan_inv:
  assumes job: "job_ok J d" and law: "healthy J hw d"
  shows "comp_inv J hw d x \<Longrightarrow> \<forall>j \<in> set js. j < length (streams (pipe x)) \<Longrightarrow>
    \<exists>av P. collect_scan J sw js (dest_avail x) (pipe x) w = Some (False, av, P, w) \<and>
      comp_inv J hw d (x\<lparr>pipe := P, dest_avail := av\<rparr>) \<and> length (streams P) = length (streams (pipe x)) \<and>
      q_seq P = q_seq (pipe x) \<and> q_seq_in (pipe x) \<le> q_seq_in P \<and>
      ((\<exists>j \<in> set js. st_seq (streams (pipe x) ! j) = q_seq_in (pipe x) \<and> answered (streams (pipe x) ! j)) \<longrightarrow>
         q_seq_in (pipe x) < q_seq_in P)"
proof (induction js arbitrary: x)
  case Nil
  then show ?case by simp
next
  case (Cons j js)
  have j: "j < length (streams (pipe x))" using Cons.prems(2) by simp
  show ?case
  proof (cases "st_seq (streams (pipe x) ! j) = q_seq_in (pipe x) \<and> answered (streams (pipe x) ! j)")
    case True
    obtain c av P where c: "collect_one J sw j (dest_avail x) (pipe x) w = Some (c, av, P, w)" "c \<noteq> Abort"
      "comp_inv J hw d (x\<lparr>pipe := P, dest_avail := av\<rparr>)" "length (streams P) = length (streams (pipe x))"
      "q_seq P = q_seq (pipe x)" "q_seq_in P = q_seq_in (pipe x) + 1"
      using collect_one_inv [OF Cons.prems(1) job law j True [THEN conjunct2] True [THEN conjunct1], of sw w]
      by (elim exE conjE) (rule that)
    show ?thesis
    proof (cases c)
      case Continue
      let ?x = "x\<lparr>pipe := P, dest_avail := av\<rparr>"
      have "\<exists>av' P'. collect_scan J sw js (dest_avail ?x) (pipe ?x) w = Some (False, av', P', w) \<and>
          comp_inv J hw d (?x\<lparr>pipe := P', dest_avail := av'\<rparr>) \<and> length (streams P') = length (streams (pipe ?x)) \<and>
          q_seq P' = q_seq (pipe ?x) \<and> q_seq_in (pipe ?x) \<le> q_seq_in P'"
        using Cons.IH [OF c(3)] Cons.prems(2) c(4) by fastforce
      then obtain av' P' where "collect_scan J sw js av P w = Some (False, av', P', w)"
        "comp_inv J hw d (x\<lparr>pipe := P', dest_avail := av'\<rparr>)" "length (streams P') = length (streams P)"
        "q_seq P' = q_seq P" "q_seq_in P \<le> q_seq_in P'" by auto
      then show ?thesis using True c Continue by simp
    next
      case Break
      then show ?thesis using True c by simp
    qed (use c(2) in simp)
  next
    case False
    note Cons.IH [OF Cons.prems(1)]
    moreover have "\<forall>j \<in> set js. j < length (streams (pipe x))" using Cons.prems(2) by simp
    moreover have "(\<exists>i \<in> set (j # js). st_seq (streams (pipe x) ! i) = q_seq_in (pipe x) \<and> answered (streams (pipe x) ! i)) =
        (\<exists>i \<in> set js. st_seq (streams (pipe x) ! i) = q_seq_in (pipe x) \<and> answered (streams (pipe x) ! i))"
      using False by auto
    moreover have "collect_scan J sw (j # js) (dest_avail x) (pipe x) w = collect_scan J sw js (dest_avail x) (pipe x) w"
      unfolding collect_scan.simps by (rule if_not_P [OF False])
    ultimately show ?thesis by presburger
  qed
qed

lemma comp_inv_outer:
  assumes inv: "comp_inv J hw d x" and d: "out_done x' \<Longrightarrow> q_last_submitted (pipe x) \<and> q_seq_in (pipe x) = q_seq (pipe x)"
    and p: "pipe x' = (pipe x)\<lparr>q_last_processed := b\<rparr>"
    and e: "at_ptr x' = at_ptr x" "remaining x' = remaining x" "send_sz x' = send_sz x" "phase x' = phase x"
      "driver x' = driver x" "dest_avail x' = dest_avail x"
  shows "comp_inv J hw d x'"
proof -
  have "comp_slots J hw d x' = comp_slots J hw d x" "mem_inv J d (pipe x') = mem_inv J d (pipe x)"
    "out_inv J hw d x' k = out_inv J hw d x k" for k
    by (simp_all add: slots_inv_def slot_inv_def mem_inv_def out_inv_def Let_def p e)
  moreover have "local_inv J d x'"
    using inv d unfolding comp_inv_def local_inv_def Let_def p e by auto
  ultimately show ?thesis using inv by (simp add: comp_inv_def)
qed

lemma same_last_processed: "P = P\<lparr>q_last_processed := q_last_processed P\<rparr>"
  by simp

lemma collect_inv:
  assumes inv: "comp_inv J hw d x" and job: "job_ok J d" and law: "healthy J hw d" and nd: "\<not> out_done x"
  shows "\<exists>x'. collect J sw x = Some x' \<and> comp_inv J hw d x'"
proof (cases "\<not> q_last_submitted (pipe x) \<or> q_processed (pipe x) < q_submitted (pipe x)")
  case True
  obtain av P where r: "collect_scan J sw [0..<length (streams (pipe x))] (dest_avail x) (pipe x) (sw_state x) =
      Some (False, av, P, sw_state x)" and i: "comp_inv J hw d (x\<lparr>pipe := P, dest_avail := av\<rparr>)"
  proof -
    have "\<forall>j \<in> set [0..<length (streams (pipe x))]. j < length (streams (pipe x))" by simp
    from collect_scan_inv [OF job law inv this, of sw "sw_state x"] show thesis using that by blast
  qed
  have "comp_inv J hw d (x\<lparr>pipe := P, dest_avail := av, sw_state := sw_state x, out_done := False\<rparr>)"
    by (rule comp_inv_outer [OF i, where b = "q_last_processed P"]) simp_all
  with True r show ?thesis by (simp add: collect_def Let_def)
next
  case False
  have "q_last_submitted (pipe x) \<and> q_seq_in (pipe x) = q_seq (pipe x)"
    using False inv by (auto simp: comp_inv_def local_inv_def Let_def)
  then have "comp_inv J hw d (x\<lparr>pipe := (pipe x)\<lparr>q_last_processed := q_stop (pipe x) \<or> q_last_submitted (pipe x)\<rparr>,
      out_done := True\<rparr>)"
    by (intro comp_inv_outer [OF inv, where b = "q_stop (pipe x) \<or> q_last_submitted (pipe x)"]) simp_all
  with False show ?thesis by (simp add: collect_def Let_def)
qed

section \<open>Runs\<close>

text \<open>The events of a healthy run: every request is taken, the poll succeeds and the instance stays up.\<close>

fun healthy_event :: "event \<Rightarrow> bool" where
  "healthy_event (Submit ok) = ok" | "healthy_event PollFail = False" | "healthy_event (Beat b) = b"
| "healthy_event _ = True"

lemma comp_step_inv:
  assumes inv: "comp_inv J hw d x" and job: "job_ok J d" and law: "healthy J hw d" and ev: "healthy_event e"
  shows "\<exists>x'. comp_step J hw sw e x = Some x' \<and> comp_inv J hw d x'"
proof -
  have hb: "heartbeat (pipe x)" using inv by (simp add: comp_inv_def local_inv_def Let_def)
  show ?thesis
  proof (cases e)
    case Claim
    define j where "j = getUnusedBuffer (streams (pipe x)) (last_j x)"
    show ?thesis
    proof (cases "phase x = Between \<and> j \<noteq> -1")
      case True
      have u: "nat j < length (streams (pipe x))" "unused (streams (pipe x) ! nat j)"
        using getUnusedBuffer_unused [OF j_def [symmetric]] True by simp_all
      show ?thesis
        using claim_inv [OF inv _ u, of j] True hb by (simp add: Claim comp_step_def Let_def j_def)
    next
      case False
      have "comp_inv J hw d (x\<lparr>last_j := -1\<rparr>)"
        by (rule comp_inv_outer [OF inv, where b = "q_last_processed (pipe x)"])
          (use inv in \<open>auto simp: comp_inv_def local_inv_def Let_def\<close>)
      then show ?thesis using False inv hb by (auto simp: Claim comp_step_def Let_def j_def)
    qed
  next
    case Setup
    then show ?thesis
    proof (cases "phase x")
      case (Claimed j)
      then show ?thesis using setup_inv [OF inv job Claimed] Setup by (auto simp: comp_step_def Let_def)
    qed (use inv Setup in \<open>simp_all add: comp_step_def Let_def\<close>)
  next
    case (Submit ok)
    then show ?thesis
    proof (cases "phase x")
      case (Ready j)
      then show ?thesis using submit_inv [OF inv job Ready] Submit ev by (simp add: comp_step_def Let_def)
    qed (use inv Submit in \<open>simp_all add: comp_step_def Let_def\<close>)
  next
    case (Respond j)
    show ?thesis
    proof (cases "j \<in> set (driver x) \<and> polling x")
      case True
      then obtain P where "respond hw j (pipe x) = Some P" "comp_inv J hw d (x\<lparr>pipe := P, driver := remove1 j (driver x)\<rparr>)"
        using respond_inv [OF inv job law, of j] by blast
      then show ?thesis using Respond True by (simp add: comp_step_def Let_def)
    qed (use inv Respond in \<open>auto simp: comp_step_def Let_def\<close>)
  next
    case Collect
    then show ?thesis using collect_inv [OF inv job law] inv by (cases "out_done x \<or> \<not> polling x") (auto simp: comp_step_def Let_def)
  next
    case (Beat b)
    have "(pipe x)\<lparr>heartbeat := b\<rparr> = pipe x" using Beat ev hb by simp
    then show ?thesis using Beat inv by (simp add: comp_step_def Let_def)
  qed (use inv hb ev in \<open>simp_all add: comp_step_def Let_def\<close>)
qed

lemma comp_run_inv:
  assumes job: "job_ok J d" and law: "healthy J hw d"
  shows "comp_inv J hw d x \<Longrightarrow> \<forall>e \<in> set es. healthy_event e \<Longrightarrow>
    \<exists>x'. comp_run J hw sw es x = Some x' \<and> comp_inv J hw d x'"
proof (induction es arbitrary: x)
  case (Cons e es)
  obtain x1 where "comp_step J hw sw e x = Some x1" "comp_inv J hw d x1"
    using comp_step_inv [OF Cons.prems(1) job law] Cons.prems(2) by fastforce
  then show ?case using Cons.IH [of x1] Cons.prems(2) by simp
qed simp

text \<open>The state in which a call starts: all buffers free, the destination empty.\<close>

definition fresh_pipe :: "Job \<Rightarrow> bytes \<Rightarrow> Pipe \<Rightarrow> bool" where
  "fresh_pipe J d P \<longleftrightarrow> heartbeat P \<and> q_next_dest P = Ptr BDest 0 \<and> mem_inv J d P \<and>
     (\<forall>j < length (streams P). unused (streams P ! j) \<and> clean (streams P ! j) \<and> home j (streams P ! j))"

text \<open>A call starts with one thread or with two.\<close>

definition call_start :: "Job \<Rightarrow> bool \<Rightarrow> Pipe \<Rightarrow> 'w \<Rightarrow> 'w Comp" where
  "call_start J single P w = comp_start J ((resetQzsess J P)\<lparr>q_single := single\<rparr>) w"

lemma comp_start_inv:
  assumes job: "job_ok J d" and fresh: "fresh_pipe J d P"
  shows "comp_inv J hw d (call_start J single P w)"
proof -
  have n: "0 < n_blocks J d" using job by (intro n_blocks_pos) (simp add: job_ok_def)
  note start = call_start_def comp_start_def resetQzsess_def Let_def
  have "local_inv J d (call_start J single P w)"
    using job fresh n by (simp add: local_inv_def start job_ok_def fresh_pipe_def padd_def)
  moreover have "comp_slots J hw d (call_start J single P w)"
    using fresh by (auto simp: slots_inv_def slot_inv_def comp_idle_def start fresh_pipe_def busy_def)
  moreover have "out_inv J hw d (call_start J single P w) 0"
    using fresh by (simp add: out_inv_def start fresh_pipe_def)
  moreover have "mem_inv J d (pipe (call_start J single P w))"
    using fresh by (simp add: mem_inv_def start fresh_pipe_def)
  ultimately show ?thesis by (auto simp: comp_inv_def)
qed

section \<open>Progress\<close>

text \<open>The work left in a call.\<close>

definition comp_todo :: "Job \<Rightarrow> bytes \<Rightarrow> 'w Comp \<Rightarrow> nat" where
  "comp_todo J d x = 8 * nat (int (n_blocks J d) - q_seq (pipe x)) +
     (case phase x of Between \<Rightarrow> 3 | Claimed _ \<Rightarrow> 2 | Ready _ \<Rightarrow> 1 | InDone \<Rightarrow> 0) + 2 * length (driver x) +
     nat (q_seq (pipe x) - q_seq_in (pipe x)) + (if out_done x then 0 else 1)"

lemma collect_some:
  assumes inv: "comp_inv J hw d x" and job: "job_ok J d" and law: "healthy J hw d"
    and drv: "driver x = []" and lt: "q_seq_in (pipe x) < q_seq (pipe x)"
  shows "\<exists>x'. collect J sw x = Some x' \<and> q_seq (pipe x') = q_seq (pipe x) \<and> q_seq_in (pipe x) < q_seq_in (pipe x') \<and>
    phase x' = phase x \<and> driver x' = driver x \<and> \<not> out_done x' \<and> length (streams (pipe x')) = length (streams (pipe x))"
proof -
  let ?ss = "streams (pipe x)"
  have s: "comp_slots J hw d x" and l: "local_inv J d x" using inv by (simp_all add: comp_inv_def)
  have "\<exists>j < length ?ss. answered (?ss ! j) \<and> st_seq (?ss ! j) = q_seq_in (pipe x)"
    using s lt unfolding drv by (rule cs.next_answered)
  then have e: "\<exists>j \<in> set [0..<length ?ss]. st_seq (?ss ! j) = q_seq_in (pipe x) \<and> answered (?ss ! j)"
    by auto
  have r: "\<forall>j \<in> set [0..<length ?ss]. j < length ?ss" by simp
  obtain av P where c: "collect_scan J sw [0..<length ?ss] (dest_avail x) (pipe x) (sw_state x) = Some (False, av, P, sw_state x)"
    "q_seq P = q_seq (pipe x)" "q_seq_in (pipe x) < q_seq_in P" "length (streams P) = length ?ss"
    using collect_scan_inv [OF job law inv r, of sw "sw_state x"] e by blast
  have g: "\<not> q_last_submitted (pipe x) \<or> q_processed (pipe x) < q_submitted (pipe x)"
    using l lt by (simp add: local_inv_def Let_def)
  show ?thesis using c g by (simp add: collect_def Let_def)
qed

text \<open>No step changes the number of threads or of buffers.\<close>

definition same_kind :: "Pipe \<Rightarrow> Pipe \<Rightarrow> bool" where
  "same_kind P Q \<longleftrightarrow> q_single P = q_single Q \<and> length (streams P) = length (streams Q)"

lemma same_kind_refl [simp]: "same_kind P P"
  by (simp add: same_kind_def)

lemma same_kind_trans: "same_kind P Q \<Longrightarrow> same_kind Q R \<Longrightarrow> same_kind P R"
  by (simp add: same_kind_def)

lemma update_crc_kind: "same_kind (update_crc J r P) P"
  by (subst update_crc_only) (simp add: same_kind_def)

lemma clean_up_kind: "compOutValidDestBufferCleanUp J j n P = Some Q \<Longrightarrow> same_kind Q P"
  by (auto simp: compOutValidDestBufferCleanUp_def same_kind_def Let_def split: if_split_asm bind_split_asm)

lemma processed_kind: "compOutProcessedRespond j P = Some Q \<Longrightarrow> same_kind Q P"
  by (auto simp: compOutProcessedRespond_def compOutSrcBufferCleanUp_def same_kind_def Let_def split: if_split_asm)

lemma skip_kind: "compOutSkipErrorRespond j P = Some Q \<Longrightarrow> same_kind Q P"
  by (auto simp: compOutSkipErrorRespond_def compOutErrorDestBufferCleanUp_def same_kind_def dest!: processed_kind)

lemma check_kind: "compOutCheckDestLen j a n P = Some (rc, b, Q) \<Longrightarrow> same_kind Q P"
  by (auto simp: compOutCheckDestLen_def same_kind_def Let_def split: if_split_asm bind_split_asm dest!: skip_kind)

lemma frame_out_kind: "frame_out J j r P = Some Q \<Longrightarrow> same_kind Q P"
  using update_crc_kind
  by (auto simp: frame_out_def write_out_def advance_out_def same_kind_def Let_def split: bind_split_asm dest!: clean_up_kind)

lemma fallback_kind: "compOutSWFallback J sw j a P w = Some (rc, b, Q, v) \<Longrightarrow> same_kind Q P"
  by (auto simp: compOutSWFallback_def advance_out_def same_kind_def Let_def split: if_split_asm prod.split_asm bind_split_asm
      dest!: check_kind clean_up_kind)

lemma collect_one_kind: "collect_one J sw j a P w = Some (c, b, Q, v) \<Longrightarrow> same_kind Q P"
  by (auto simp: collect_one_def Let_def split: if_split_asm prod.split_asm bind_split_asm
      dest!: fallback_kind check_kind skip_kind frame_out_kind processed_kind intro: same_kind_trans)

lemma collect_scan_kind: "collect_scan J sw js a P w = Some (e, b, Q, v) \<Longrightarrow> same_kind Q P"
proof (induction js arbitrary: a P w)
  case (Cons j js)
  then show ?case
    by (auto split: if_split_asm prod.split_asm bind_split_asm control.split_asm dest!: collect_one_kind intro: same_kind_trans)
qed simp

lemma collect_kind: "collect J sw x = Some x' \<Longrightarrow> same_kind (pipe x') (pipe x) \<and> phase x' = phase x"
  by (auto simp: collect_def out_error_def same_kind_def Let_def split: if_split_asm prod.split_asm bind_split_asm dest!: collect_scan_kind)

lemma respond_kind: "respond hw j P = Some Q \<Longrightarrow> same_kind Q P \<and> q_seq_in Q = q_seq_in P"
  by (auto simp: respond_def same_kind_def Let_def split: prod.split_asm bind_split_asm)

lemma setup_kind: "compBufferSetup J j a r n P = Some Q \<Longrightarrow> same_kind Q P \<and> q_seq_in Q = q_seq_in P"
  by (auto simp: compBufferSetup_def same_kind_def Let_def split: if_split_asm prod.split_asm bind_split_asm)

text \<open>While a single thread submits nothing has been collected.\<close>

definition one_thread :: "'w Comp \<Rightarrow> bool" where
  "one_thread x \<longleftrightarrow> (q_single (pipe x) \<and> phase x \<noteq> InDone \<longrightarrow> q_seq_in (pipe x) = 0 \<and> \<not> out_done x)"

lemma one_thread_step:
  assumes inv: "one_thread x" and hb: "heartbeat (pipe x)" and ev: "healthy_event e" and s: "comp_step J hw sw e x = Some x'"
  shows "one_thread x' \<and> same_kind (pipe x') (pipe x)"
proof (cases e)
  case Collect
  then show ?thesis using inv s
    by (auto simp: comp_step_def polling_def one_thread_def same_kind_def split: if_split_asm dest!: collect_kind)
next
  case Setup
  then show ?thesis using inv s
    by (auto simp: comp_step_def one_thread_def same_kind_def split: phase.split_asm bind_split_asm dest!: setup_kind)
next
  case (Respond j)
  then show ?thesis using inv s
    by (auto simp: comp_step_def one_thread_def same_kind_def split: if_split_asm bind_split_asm dest!: respond_kind)
qed (use inv hb ev s in \<open>auto simp: comp_step_def one_thread_def same_kind_def in_advance_def Let_def split: if_split_asm phase.split_asm\<close>)

lemma spare_buffer:
  assumes inv: "comp_inv J hw d x" and ph: "phase x = Between" and lt: "nat (q_seq (pipe x) - q_seq_in (pipe x)) < length (streams (pipe x))"
  shows "getUnusedBuffer (streams (pipe x)) l \<noteq> -1"
proof -
  let ?ss = "streams (pipe x)"
  have s: "comp_slots J hw d x" using inv by (simp add: comp_inv_def)
  have "{i. i < length ?ss \<and> busy (?ss ! i)} \<noteq> {i. i < length ?ss}"
    using busy_count [OF s] lt by (metis card_Collect_less_nat less_irrefl)
  then obtain i where i: "i < length ?ss" "\<not> busy (?ss ! i)" by blast
  then have "unused (?ss ! i)" using slots_invD(1) [OF s i(1)] ph by (auto simp: slot_inv_def busy_def)
  then show ?thesis using getUnusedBuffer_finds i(1) by blast
qed

text \<open>A call that a single thread runs needs a buffer for every block.\<close>

definition enough_buffers :: "Job \<Rightarrow> bytes \<Rightarrow> Pipe \<Rightarrow> bool" where
  "enough_buffers J d P \<longleftrightarrow> (q_single P \<longrightarrow> n_blocks J d \<le> length (streams P))"

lemma comp_progress:
  assumes inv: "comp_inv J hw d x" and job: "job_ok J d" and law: "healthy J hw d" and nd: "\<not> out_done x"
    and one: "one_thread x" and room: "enough_buffers J d (pipe x)"
  shows "\<exists>e x'. healthy_event e \<and> comp_step J hw sw e x = Some x' \<and> comp_todo J d x' < comp_todo J d x"
proof -
  let ?P = "pipe x"
  have s: "comp_slots J hw d x" and l: "local_inv J d x" and n: "streams ?P \<noteq> []"
    using inv by (simp_all add: comp_inv_def mem_inv_def)
  have loc: "heartbeat ?P" "q_seq_in ?P \<le> q_seq ?P" "q_processed ?P = q_seq_in ?P" "q_submitted ?P = q_seq ?P"
    "phase x \<noteq> InDone \<Longrightarrow> q_seq ?P < int (n_blocks J d)" "q_last_submitted ?P \<longleftrightarrow> phase x = InDone"
    using l by (simp_all add: local_inv_def Let_def)
  have submit: ?thesis if ph: "phase x \<noteq> InDone" and u: "phase x = Between \<Longrightarrow> getUnusedBuffer (streams ?P) (last_j x) \<noteq> -1"
  proof (cases "phase x")
    case Between
    then show ?thesis
      using u loc(1) by (intro exI [of _ Claim]) (simp add: comp_step_def Let_def comp_todo_def)
  next
    case (Claimed j)
    obtain s' m' where "compBufferSetup J j (at_ptr x) (remaining x) (send_sz x) ?P = Some (upd j (\<lambda>_. s') (?P\<lparr>pmem := m'\<rparr>))"
      by (rule setup_ok [OF inv job Claimed]) (rule that)
    then show ?thesis
      using Claimed by (intro exI [of _ Setup]) (simp add: comp_step_def Let_def comp_todo_def)
  next
    case (Ready j)
    then have "nat (int (n_blocks J d) - q_seq ?P) = Suc (nat (int (n_blocks J d) - (q_seq ?P + 1)))"
      and "nat (q_seq ?P + 1 - q_seq_in ?P) = Suc (nat (q_seq ?P - q_seq_in ?P))"
      using loc(2,5) by simp_all
    then show ?thesis
      using Ready by (intro exI [of _ "Submit True"]) (simp add: comp_step_def Let_def comp_todo_def in_advance_def upd_def)
  qed (use ph in simp)
  show ?thesis
  proof (cases "polling x")
    case False
    then have a: "q_single ?P" "phase x \<noteq> InDone" by (simp_all add: polling_def)
    then have "q_seq_in ?P = 0" using one by (simp add: one_thread_def)
    then have lt: "nat (q_seq ?P - q_seq_in ?P) < length (streams ?P)"
      using loc(2,5) a room by (simp add: enough_buffers_def)
    show ?thesis by (rule submit [OF a(2) spare_buffer [OF inv _ lt]])
  next
    case poll: True
    consider (drv) j js where "driver x = j # js" | (out) "driver x = []" "q_seq_in ?P < q_seq ?P"
      | (idle) "driver x = []" "q_seq_in ?P = q_seq ?P"
      using loc(2) by (cases "driver x") fastforce+
    then show ?thesis
    proof cases
      case drv
      then have j: "j \<in> set (driver x)" by simp
      obtain m' k where r: "respond hw j ?P = Some (upd j (\<lambda>s. dcCallback CPA_STATUS_SUCCESS (s\<lparr>st_res := res_of J hw d k\<rparr>)) (?P\<lparr>pmem := m'\<rparr>))"
        by (rule respond_ok [OF inv job law j]) (rule that)
      show ?thesis
        using r drv poll by (intro exI [of _ "Respond j"]) (simp add: comp_step_def Let_def comp_todo_def)
    next
      case out
      obtain x' where c: "collect J sw x = Some x'" "q_seq (pipe x') = q_seq ?P" "q_seq_in ?P < q_seq_in (pipe x')"
        "phase x' = phase x" "driver x' = driver x" "\<not> out_done x'" "length (streams (pipe x')) = length (streams ?P)"
        using collect_some [OF inv job law out, of sw] by (elim exE conjE) (rule that)
      have "comp_step J hw sw Collect x = Some x'" using nd c(1) poll by (simp add: comp_step_def Let_def)
      moreover have "comp_todo J d x' < comp_todo J d x" using c nd out(2) by (simp add: comp_todo_def)
      ultimately show ?thesis by (intro exI [of _ Collect]) simp
    next
      case idle
      show ?thesis
      proof (cases "phase x = InDone")
        case True
        then show ?thesis
          using idle loc nd poll by (intro exI [of _ Collect]) (simp add: comp_step_def collect_def Let_def comp_todo_def)
      next
        case False
        then show ?thesis using spare_buffer [OF inv] idle n by (intro submit) simp_all
      qed
    qed
  qed
qed

lemma comp_completes:
  assumes job: "job_ok J d" and law: "healthy J hw d"
  shows "comp_inv J hw d x \<Longrightarrow> one_thread x \<Longrightarrow> enough_buffers J d (pipe x) \<Longrightarrow>
    \<exists>es x'. (\<forall>e \<in> set es. healthy_event e) \<and> comp_run J hw sw es x = Some x' \<and> out_done x'"
proof (induction "comp_todo J d x" arbitrary: x rule: less_induct)
  case less
  show ?case
  proof (cases "out_done x")
    case True
    then show ?thesis by (intro exI [of _ "[]"]) simp
  next
    case False
    obtain e x1 where e: "healthy_event e" "comp_step J hw sw e x = Some x1" "comp_todo J d x1 < comp_todo J d x"
      using comp_progress [OF less.prems(1) job law False less.prems(2,3), of sw] by (elim exE conjE) (rule that)
    have i: "comp_inv J hw d x1" using comp_step_inv [OF less.prems(1) job law e(1), of sw] e(2) by simp
    have "heartbeat (pipe x)" using less.prems(1) by (simp add: comp_inv_def local_inv_def Let_def)
    from one_thread_step [OF less.prems(2) this e(1,2)] less.prems(3)
    have "one_thread x1" "enough_buffers J d (pipe x1)" by (simp_all add: same_kind_def enough_buffers_def)
    from less.hyps [OF e(3) i this] obtain es x' where
      "\<forall>e \<in> set es. healthy_event e" "comp_run J hw sw es x1 = Some x'" "out_done x'"
      by (elim exE conjE) (rule that)
    then show ?thesis using e(1,2) by (intro exI [of _ "e # es"]) simp
  qed
qed

text \<open>With too few buffers the single thread waits for one for ever.\<close>

definition stuck :: "Job \<Rightarrow> bytes \<Rightarrow> 'w Comp \<Rightarrow> bool" where
  "stuck J d x \<longleftrightarrow> one_thread x \<and> q_single (pipe x) \<and> phase x \<noteq> InDone \<and> length (streams (pipe x)) < n_blocks J d"

lemma one_thread_run:
  assumes job: "job_ok J d" and law: "healthy J hw d"
  shows "comp_inv J hw d x \<Longrightarrow> one_thread x \<Longrightarrow> \<forall>e \<in> set es. healthy_event e \<Longrightarrow> comp_run J hw sw es x = Some x' \<Longrightarrow>
    one_thread x' \<and> same_kind (pipe x') (pipe x) \<and> (stuck J d x \<longrightarrow> stuck J d x')"
proof (induction es arbitrary: x)
  case (Cons e es)
  obtain x1 where s: "comp_step J hw sw e x = Some x1" "comp_run J hw sw es x1 = Some x'" using Cons.prems(4) by (auto split: bind_split_asm)
  have ev: "healthy_event e" "\<forall>e \<in> set es. healthy_event e" using Cons.prems(3) by simp_all
  have i: "comp_inv J hw d x1" using comp_step_inv [OF Cons.prems(1) job law ev(1), of sw] s(1) by simp
  have hb: "heartbeat (pipe x)" using Cons.prems(1) by (simp add: comp_inv_def local_inv_def Let_def)
  note k = one_thread_step [OF Cons.prems(2) hb ev(1) s(1)]
  have "stuck J d x1" if st: "stuck J d x"
  proof -
    have ph: "phase x \<noteq> InDone" "q_single (pipe x)" "q_seq_in (pipe x) = 0" "\<not> polling x" using st by (auto simp: stuck_def one_thread_def polling_def)
    have "q_stat (pipe x) = QZ_OK"
    proof -
      obtain k where "out_inv J hw d x k" using Cons.prems(1) by (auto simp: comp_inv_def)
      from out_inv_start [OF this _ ph(3)] Cons.prems(1) show ?thesis by (simp add: comp_inv_def)
    qed
    then have stop: "\<not> q_stop (pipe x)" using Cons.prems(1) by (simp add: comp_inv_def local_inv_def Let_def)
    then have nd: "phase x1 = InDone \<Longrightarrow> \<not> q_stop (pipe x1) \<and> q_seq_in (pipe x1) = 0"
      using s(1) ph hb ev(1)
      by (cases e) (auto simp: comp_step_def in_advance_def Let_def split: if_split_asm phase.split_asm bind_split_asm)
    have "phase x1 \<noteq> InDone"
    proof
      assume d: "phase x1 = InDone"
      then have "q_seq (pipe x1) = int (n_blocks J d)" using i nd by (auto simp: comp_inv_def local_inv_def Let_def)
      moreover have "nat (q_seq (pipe x1) - q_seq_in (pipe x1)) \<le> length (streams (pipe x1))"
        using busy_count [of comp_idle "comp_prep J d" "comp_fin J hw d" "claimed (phase x1)" "readied (phase x1)" "driver x1" "pipe x1"] i
          card_mono [of "{i. i < length (streams (pipe x1))}" "{i. i < length (streams (pipe x1)) \<and> busy (streams (pipe x1) ! i)}"]
        by (auto simp: comp_inv_def)
      ultimately show False using nd [OF d] k st by (simp add: same_kind_def stuck_def)
    qed
    then show ?thesis using k st by (simp add: stuck_def same_kind_def)
  qed
  then show ?case using Cons.IH [OF i k [THEN conjunct1] ev(2) s(2)] k by (blast intro: same_kind_trans)
qed simp

lemma comp_run_append: "comp_run J hw sw (es @ es') x = do { x \<leftarrow> comp_run J hw sw es x; comp_run J hw sw es' x }"
  by (induction es arbitrary: x) (simp_all split: bind_split)

section \<open>The pipeline's promise\<close>

text \<open>What a state shows of the output: \<open>k\<close> framed blocks, no more, and the source they stand for.\<close>

definition shows_blocks :: "Job \<Rightarrow> hardware \<Rightarrow> bytes \<Rightarrow> Pipe \<Rightarrow> nat \<Rightarrow> bool" where
  "shows_blocks J hw d P k \<longleftrightarrow> take (q_out_len P) (pmem P BDest) = frames J hw d k \<and>
     q_out_len P = length (frames J hw d k) \<and> q_next_dest P = Ptr BDest (q_out_len P) \<and>
     q_in_len P = min (k * j_hw J) (length d)"

lemma all_blocks: "0 < j_hw J \<Longrightarrow> length d \<le> n_blocks J d * j_hw J"
proof (cases "n_blocks J d")
  case (Suc n)
  assume "0 < j_hw J"
  then have "length d - n * j_hw J \<le> j_hw J" using block_last [of J d n] Suc by simp
  then show ?thesis by (simp add: Suc)
next
  case 0
  assume "0 < j_hw J"
  then show ?thesis using n_blocks_pos [of J d] 0 by simp
qed

lemma comp_inv_shows:
  assumes inv: "comp_inv J hw d x" and job: "job_ok J d"
  shows "\<exists>k. shows_blocks J hw d (pipe x) k \<and> (q_stat (pipe x) = QZ_OK \<or> q_stat (pipe x) = QZ_BUF_ERROR) \<and>
    (q_stat (pipe x) = QZ_BUF_ERROR \<longrightarrow> j_dest_sz J < length (frames J hw d (Suc k))) \<and>
    (out_done x \<and> q_stat (pipe x) = QZ_OK \<longrightarrow> k = n_blocks J d \<and> q_in_len (pipe x) = length d)"
proof -
  obtain k where o: "out_inv J hw d x k" and l: "local_inv J d x" using inv by (auto simp: comp_inv_def)
  have st: "q_stat (pipe x) = QZ_OK \<or> q_stat (pipe x) = QZ_BUF_ERROR" using l by (simp add: local_inv_def Let_def)
  have b: "shows_blocks J hw d (pipe x) k" using o unfolding shows_blocks_def out_inv_def Let_def by auto
  have e: "q_stat (pipe x) = QZ_BUF_ERROR \<longrightarrow> j_dest_sz J < length (frames J hw d (Suc k))"
    using o by (auto simp: out_inv_def Let_def)
  have d: "k = n_blocks J d \<and> q_in_len (pipe x) = length d" if "out_done x" "q_stat (pipe x) = QZ_OK"
  proof -
    have "q_seq (pipe x) = int (n_blocks J d)" "q_seq_in (pipe x) = q_seq (pipe x)"
      using l that by (auto simp: local_inv_def Let_def)
    moreover have "int k = q_seq_in (pipe x)" using o that by (simp add: out_inv_def Let_def)
    ultimately have k: "k = n_blocks J d" by simp
    then show ?thesis using b all_blocks [of J d] job by (simp add: shows_blocks_def job_ok_def min_absorb2)
  qed
  show ?thesis using b st e d by blast
qed

text \<open>C1: (ordered compression) On a healthy instance, for every interleaving of the submitting thread, the
  collecting thread and the driver, whatever the order of the answers, no access leaves a buffer and
  at every moment the destination holds exactly the framed blocks of a prefix of the source, in the
  order of the source, with the input length of that prefix; the status becomes QZ_BUF_ERROR only if
  the next frame does not fit the destination; and when the collecting thread ends without an error,
  all blocks of the source are there.\<close>

theorem compress_in_order:
  assumes "job_ok J d" "healthy J hw d" "fresh_pipe J d P" "\<forall>e \<in> set es. healthy_event e"
  shows "\<exists>x k. comp_run J hw sw es (call_start J single P w) = Some x \<and> shows_blocks J hw d (pipe x) k \<and>
    (q_stat (pipe x) = QZ_OK \<or> q_stat (pipe x) = QZ_BUF_ERROR) \<and>
    (q_stat (pipe x) = QZ_BUF_ERROR \<longrightarrow> j_dest_sz J < length (frames J hw d (Suc k))) \<and>
    (out_done x \<and> q_stat (pipe x) = QZ_OK \<longrightarrow> k = n_blocks J d \<and> q_in_len (pipe x) = length d)"
proof -
  obtain x where r: "comp_run J hw sw es (call_start J single P w) = Some x" and i: "comp_inv J hw d x"
    using comp_run_inv [OF assms(1,2) comp_start_inv [OF assms(1,3)] assms(4), of sw single w]
    by (elim exE conjE) (rule that)
  show ?thesis using r comp_inv_shows [OF i assms(1)] by simp
qed

text \<open>C18: (compression completes) From every state a healthy run of a call can reach, some continuation of the run ends the call, if and only
  if two threads run it or the instance has a buffer for every block: the pipeline never deadlocks, whatever was interleaved before, except that a
  single thread, which collects nothing before it has submitted everything, waits for ever for a buffer when there are more blocks than buffers. That is what
  the bound of the threshold for a single thread by \<^verbatim>\<open>NUM_BUFF\<close> is for.\<close>

theorem compress_can_finish:
  assumes "job_ok J d" "healthy J hw d" "fresh_pipe J d P" "\<forall>e \<in> set es. healthy_event e"
  shows "(\<exists>es' x'. (\<forall>e \<in> set es'. healthy_event e) \<and> comp_run J hw sw (es @ es') (call_start J single P w) = Some x' \<and> out_done x') \<longleftrightarrow>
    (single \<longrightarrow> n_blocks J d \<le> length (streams P))"
proof -
  let ?x0 = "call_start J single P w"
  note i0 = comp_start_inv [OF assms(1,3), of hw single w]
  have o0: "one_thread ?x0" "q_single (pipe ?x0) = single" "streams (pipe ?x0) = streams P" "phase ?x0 = Between"
    by (simp_all add: one_thread_def call_start_def comp_start_def resetQzsess_def Let_def)
  obtain x where r: "comp_run J hw sw es ?x0 = Some x" and i: "comp_inv J hw d x"
    using comp_run_inv [OF assms(1,2) i0 assms(4), of sw] by (elim exE conjE) (rule that)
  note k = one_thread_run [OF assms(1,2) i0 o0(1) assms(4) r]
  show ?thesis
  proof (cases "single \<longrightarrow> n_blocks J d \<le> length (streams P)")
    case True
    then have "enough_buffers J d (pipe x)" using k o0 by (simp add: enough_buffers_def same_kind_def)
    from comp_completes [OF assms(1,2) i _ this, of sw] True k show ?thesis by (simp add: comp_run_append r)
  next
    case False
    then have "stuck J d ?x0" using o0 by (simp add: stuck_def)
    then have st: "stuck J d x" using k by blast
    have "\<not> out_done x'" if "\<forall>e \<in> set es'. healthy_event e" "comp_run J hw sw (es @ es') ?x0 = Some x'" for es' x'
    proof -
      have "comp_run J hw sw es' x = Some x'" using that(2) by (simp add: comp_run_append r)
      then have "stuck J d x'" using one_thread_run [OF assms(1,2) i _ that(1)] st k by blast
      then show ?thesis by (simp add: stuck_def one_thread_def)
    qed
    then show ?thesis using False by blast
  qed
qed

text \<open>A call on nine bytes with a block size of four, two buffers, and a driver that stores.\<close>

definition store_hw :: hardware where
  "store_hw x fin cap = (CPA_STATUS_SUCCESS, \<lparr>res_status = CPA_DC_OK, produced = of_nat (length (take cap x)),
     consumed = of_nat (length x), checksum = 0, endOfLastBlock = fin\<rparr>, take cap x)"

lemma store_hw_healthy: "job_ok J d \<Longrightarrow> healthy J store_hw d"
proof -
  assume j: "job_ok J d"
  have "length (block J d k) < 4294967296" for k using j by (auto simp: length_block job_ok_def)
  then show ?thesis
    by (auto simp: healthy_def answer_def res_of_def out_of_def store_hw_def unat_of_nat min_less_iff_disj)
qed

definition nine_job :: Job where
  "nine_job = \<lparr>j_params = zero_params\<lparr>i_data_fmt := DEFLATE_GZIP, i_hw_buff_sz := 4\<rparr>, j_src = Ptr BSrc 0, j_src_sz = 9,
     j_dest_sz = 100, j_last = True, need_cont_mem = True, pinned = (\<lambda>_. False), crc_combine = (\<lambda>a b n. 0)\<rparr>"

abbreviation nine_bytes :: bytes where "nine_bytes \<equiv> [1, 2, 3, 4, 5, 6, 7, 8, 9]"

definition free_stream :: "nat \<Rightarrow> CpaStream" where
  "free_stream j = \<lparr>st_seq = 0, src1 = 0, src2 = 0, sink1 = 0, sink2 = 0, st_res = \<lparr>res_status = 0, produced = 0,
     consumed = 0, checksum = 0, endOfLastBlock = False\<rparr>, job_status = 0, orig_src = Ptr (BPool (2 * j)) 0,
     orig_dest = Ptr (BPool (2 * j + 1)) 0, src_need_reset = False, dest_need_reset = False, st_checksum = 0,
     orgdatalen = 0, flush_final = False, src_pData = Ptr (BPool (2 * j)) 0, src_dataLen = 0,
     dest_pData = Ptr (BPool (2 * j + 1)) 0, dest_dataLen = 0\<rparr>"

definition two_buffers :: "bytes \<Rightarrow> nat \<Rightarrow> Pipe" where
  "two_buffers d n = \<lparr>streams = [free_stream 0, free_stream 1], heartbeat = True, q_seq = 0, q_seq_in = 0, q_submitted = 0,
     q_processed = 0, q_last_submitted = False, q_last_processed = False, q_stop = False, q_single = False,
     q_in_len = 0, q_out_len = 0, q_next_dest = Ptr BDest 0, q_crc = None, q_stat = QZ_OK, end_of_stream = None,
     pmem = (\<lambda>b. case b of BSrc \<Rightarrow> d | BDest \<Rightarrow> replicate n 0 | BPool k \<Rightarrow> replicate 1100 0)\<rparr>"

lemma nine_job_ok: "job_ok nine_job nine_bytes"
  by (simp add: job_ok_def nine_job_def j_hw_def j_fmt_def fmt_size_defs)

lemma two_buffers_fresh: "fresh_pipe nine_job nine_bytes (two_buffers nine_bytes 100)"
  by (simp add: fresh_pipe_def mem_inv_def two_buffers_def free_stream_def nine_job_def j_hw_def block_dest_sz_eq
      unused_def clean_def home_def All_less_Suc2)

abbreviation nine_events :: "event list" where
  "nine_events \<equiv> [Claim, Setup, Submit True, Claim, Setup, Submit True, Respond 1, Collect, Respond 0, Collect, Collect,
     Claim, Setup, Submit True, Respond 0, Respond 1, Collect, Collect]"

theorem compress_in_order_witness:
  "\<exists>x k. comp_run nine_job store_hw (\<lambda>w d n l. (QZ_FAIL, 0, [], w)) nine_events
      (call_start nine_job False (two_buffers nine_bytes 100) ()) = Some x \<and>
    shows_blocks nine_job store_hw nine_bytes (pipe x) k"
proof -
  have "\<forall>e \<in> set nine_events. healthy_event e" by simp
  from compress_in_order [OF nine_job_ok store_hw_healthy [OF nine_job_ok] two_buffers_fresh this,
      where sw = "\<lambda>w d n l. (QZ_FAIL, 0, [], w)" and w = "()" and single = False]
  show ?thesis by (elim exE conjE) (intro exI conjI)
qed

theorem compress_can_finish_witness:
  "(\<exists>es' x'. (\<forall>e \<in> set es'. healthy_event e) \<and> comp_run nine_job store_hw (\<lambda>w d n l. (QZ_FAIL, 0, [], w)) (nine_events @ es')
      (call_start nine_job False (two_buffers nine_bytes 100) ()) = Some x' \<and> out_done x') \<and>
   \<not> (\<exists>es' x'. (\<forall>e \<in> set es'. healthy_event e) \<and> comp_run nine_job store_hw (\<lambda>w d n l. (QZ_FAIL, 0, [], w)) (nine_events @ es')
      (call_start nine_job True (two_buffers nine_bytes 100) ()) = Some x' \<and> out_done x')"
proof -
  have "\<forall>e \<in> set nine_events. healthy_event e" by simp
  note f = compress_can_finish [OF nine_job_ok store_hw_healthy [OF nine_job_ok] two_buffers_fresh this,
      where sw = "\<lambda>w d n l. (QZ_FAIL, 0, [], w)" and w = "()"]
  have "\<not> n_blocks nine_job nine_bytes \<le> length (streams (two_buffers nine_bytes 100))"
    by (simp add: n_blocks_def nine_job_def j_hw_def two_buffers_def)
  then show ?thesis using f [where single = False] f [where single = True] by simp
qed

end
