(* ===== verification/DecompPipe.thy ===== *)
theory DecompPipe
  imports Pipeline
begin

text \<open>
  The decompression pipeline (\<^verbatim>\<open>doDecompressIn\<close>, the driver, \<^verbatim>\<open>doDecompressOut\<close> and
  \<^verbatim>\<open>doQzDecompressSingleThread\<close> of \<^verbatim>\<open>src/qatzip.c\<close>): one thread finds the next member of the source with
  \<^verbatim>\<open>checkHeader\<close> and submits it, the other collects the answers in the order of the members, checks
  their checksums and writes the data out. As for compression a list of events is an interleaving.
  On few requests a single thread runs the two parts in turn: the submitting part pauses when no
  buffer is free or a number of requests is out, and starts again from what has been collected.
\<close>

text \<open>Software decompression: from its state, the source and the room, a code, the bytes taken, the
  output and the new state.\<close>

type_synonym 'w sw_decomp = "'w \<Rightarrow> bytes \<Rightarrow> nat \<Rightarrow> status \<times> nat \<times> bytes \<times> 'w"

text \<open>Where the submitting part is: at the top of its loop, with a header found, holding a buffer, with
  the buffer set up (and the sizes of the step), paused (single thread only), or finished.\<close>

datatype dphase = DTop | DFound | DClaimed nat | DReady nat nat nat | DPaused | DDone

record 'w Decomp =
  d_pipe :: Pipe
  d_sess :: QzSess
  d_src_ptr :: ptr
  d_dest_ptr :: ptr
  d_remaining :: nat
  d_src_avail :: nat
  d_dest_avail :: nat
  d_hdr :: QzGzH
  d_last_j :: int
  d_phase :: dphase
  d_driver :: "nat list"
  d_out_avail :: nat
  d_out_done :: bool
  d_sw_state :: 'w

text \<open>Unsigned subtraction of 32 bits.\<close>

definition sub32 :: "nat \<Rightarrow> nat \<Rightarrow> nat" where
  "sub32 a b = unat (of_nat a - of_nat b :: u32)"

text \<open>The local variables of the submitting part at its start.\<close>

definition decomp_in_start :: "Job \<Rightarrow> 'w Decomp \<Rightarrow> 'w Decomp" where
  "decomp_in_start J x = (let P = d_pipe x; rem = sub32 (j_src_sz J) (q_in_len P) in
     x\<lparr>d_src_ptr := padd (j_src J) (q_in_len P), d_dest_ptr := q_next_dest P, d_remaining := rem,
       d_src_avail := rem, d_dest_avail := sub32 (j_dest_sz J) (q_out_len P), d_hdr := zero_hdr, d_last_j := -1, d_phase := DTop\<rparr>)"

definition decomp_out_start :: "Job \<Rightarrow> 'w Decomp \<Rightarrow> 'w Decomp" where
  "decomp_out_start J x = x\<lparr>d_out_avail := sub32 (j_dest_sz J) (q_out_len (d_pipe x)), d_out_done := False\<rparr>"

definition decomp_start :: "Job \<Rightarrow> QzSess \<Rightarrow> Pipe \<Rightarrow> 'w \<Rightarrow> 'w Decomp" where
  "decomp_start J q P w = decomp_out_start J (decomp_in_start J
     \<lparr>d_pipe = P, d_sess = q, d_src_ptr = j_src J, d_dest_ptr = q_next_dest P, d_remaining = 0, d_src_avail = 0,
      d_dest_avail = 0, d_hdr = zero_hdr, d_last_j = -1, d_phase = DTop, d_driver = [], d_out_avail = 0,
      d_out_done = False, d_sw_state = w\<rparr>)"

section \<open>Submitting\<close>

text \<open>The end of a round: step over the member.\<close>

definition decomp_advance :: "Job \<Rightarrow> nat \<Rightarrow> nat \<Rightarrow> 'w Decomp \<Rightarrow> 'w Decomp" where
  "decomp_advance J n m x =
    (let P = d_pipe x; P = P\<lparr>q_seq := q_seq P + 1, q_submitted := q_submitted P + 1\<rparr>;
         rem = (if q_stop P \<or> i_stop_decompression_stream_end (j_params J) = 1 then 0 else sub32 (d_remaining x) n)
     in x\<lparr>d_src_ptr := padd (d_src_ptr x) n, d_dest_ptr := padd (d_dest_ptr x) m,
          d_src_avail := sub32 (d_src_avail x) n, d_dest_avail := sub32 (d_dest_avail x) m, d_remaining := rem,
          d_pipe := (if rem = 0 then P\<lparr>q_last_submitted := True\<rparr> else P),
          d_phase := (if rem = 0 then DDone else DTop)\<rparr>)"

definition decomp_in_error :: "'w Decomp \<Rightarrow> 'w Decomp" where
  "decomp_in_error x = x\<lparr>d_pipe := (d_pipe x)\<lparr>q_stop := True, q_last_submitted := True\<rparr>, d_phase := DDone\<rparr>"

definition decompInSWFallback ::
  "Job \<Rightarrow> 'w sw_decomp \<Rightarrow> 'w Decomp \<Rightarrow> (status \<times> nat \<times> nat \<times> 'w Decomp) option" where
  "decompInSWFallback J sw x =
    (let P = d_pipe x; failed = x\<lparr>d_pipe := P\<lparr>q_stat := QZ_FAIL\<rparr>\<rparr> in
     if i_sw_backup (j_params J) = 0 then Some (QZ_FAIL, 0, 0, failed)
     else if q_single P then Some (QZ_FAIL, 0, 0, failed)
     else if q_stop P then Some (QZ_FAIL, 0, 0, x)
     else if q_seq P \<noteq> q_seq_in P then Some (QZ_WAIT_SW_PENDING, 0, 0, x)
     else do {
       d \<leftarrow> load (pmem P) (d_src_ptr x) (d_src_avail x);
       (case sw (d_sw_state x) d (d_dest_avail x) of (rc, used, out, w) \<Rightarrow> do {
          m \<leftarrow> store_bytes (pmem P) (d_dest_ptr x) out;
          if rc \<noteq> QZ_OK then Some (QZ_FAIL, 0, 0, x\<lparr>d_pipe := P\<lparr>pmem := m, q_stat := QZ_FAIL\<rparr>, d_sw_state := w\<rparr>)
          else Some (QZ_OK, used, length out, x\<lparr>d_sw_state := w, d_pipe := P\<lparr>pmem := m, q_seq_in := q_seq_in P + 1,
             q_processed := q_processed P + 1, q_in_len := q_in_len P + used, q_out_len := q_out_len P + length out,
             q_next_dest := padd (q_next_dest P) (length out)\<rparr>\<rparr>) }) })"

definition decomp_in_fallback :: "Job \<Rightarrow> 'w sw_decomp \<Rightarrow> 'w Decomp \<Rightarrow> 'w Decomp option" where
  "decomp_in_fallback J sw x = do {
     (rc, n, m, x) \<leftarrow> decompInSWFallback J sw x;
     Some (if rc = QZ_WAIT_SW_PENDING then x\<lparr>d_phase := DTop\<rparr>
           else if rc \<noteq> QZ_OK then decomp_in_error x else decomp_advance J n m x) }"

text \<open>The top of the loop: the header decides between an error, software and hardware.\<close>

definition decomp_check :: "Job \<Rightarrow> 'w sw_decomp \<Rightarrow> 'w Decomp \<Rightarrow> 'w Decomp option" where
  "decomp_check J sw x =
    (let P = d_pipe x; p = d_src_ptr x in
     case checkHeader (d_sess x) (drop (p_off p) (pmem P (p_blk p))) (of_nat (d_src_avail x))
            (of_nat (d_dest_avail x)) (d_hdr x) of
       Returned (rc, q, h) \<Rightarrow>
         (let x = x\<lparr>d_sess := q, d_hdr := h\<rparr> in
          if rc \<noteq> QZ_OK \<and> rc \<noteq> QZ_FORCE_SW
            then Some (decomp_in_error (x\<lparr>d_pipe := P\<lparr>q_stat := rc\<rparr>\<rparr>))
          else if \<not> heartbeat P \<or> rc = QZ_FORCE_SW then decomp_in_fallback J sw x
          else Some (x\<lparr>d_phase := DFound\<rparr>))
     | _ \<Rightarrow> None)"

text \<open>Looking for a buffer; a single thread returns to collect first.\<close>

definition decomp_claim :: "Job \<Rightarrow> 'w Decomp \<Rightarrow> 'w Decomp" where
  "decomp_claim J x =
    (let P = d_pipe x; j = getUnusedBuffer (streams P) (d_last_j x); x = x\<lparr>d_last_j := j\<rparr> in
     if q_single P \<and> (j = -1 \<or> (q_seq P mod int (unat (i_req_cnt_thrshold (j_params J))) = 0 \<and> q_seq P > q_seq_in P))
       then x\<lparr>d_phase := DPaused\<rparr>
     else if j = -1 then x
     else x\<lparr>d_phase := DClaimed (nat j), d_pipe := upd (nat j) (\<lambda>s. s\<lparr>src1 := src1 s + 1\<rparr>) P\<rparr>)"

definition decomp_setup :: "Job \<Rightarrow> nat \<Rightarrow> 'w Decomp \<Rightarrow> 'w Decomp option" where
  "decomp_setup J j x = do {
     (n, m, P) \<leftarrow> decompBufferSetup J j (d_src_ptr x) (d_dest_ptr x) (d_src_avail x) (d_hdr x) (d_pipe x);
     Some (x\<lparr>d_pipe := P, d_phase := DReady j n m\<rparr>) }"

text \<open>The driver takes the request, or the member is left to software.\<close>

definition decomp_submit :: "Job \<Rightarrow> 'w sw_decomp \<Rightarrow> nat \<Rightarrow> nat \<Rightarrow> nat \<Rightarrow> bool \<Rightarrow> 'w Decomp \<Rightarrow> 'w Decomp option" where
  "decomp_submit J sw j n m ok x =
    (let P = upd j (\<lambda>s. s\<lparr>src2 := src2 s + 1\<rparr>) (d_pipe x) in
     if ok then Some (decomp_advance J n m (x\<lparr>d_pipe := P, d_driver := d_driver x @ [j]\<rparr>))
     else decomp_in_fallback J sw (x\<lparr>d_pipe := decompInBufferCleanUp j P\<rparr>))"

section \<open>Collecting\<close>

text \<open>Software decompression of a failed request, from the source again.\<close>

definition decompOutSWFallback ::
  "Job \<Rightarrow> 'w sw_decomp \<Rightarrow> nat \<Rightarrow> nat \<Rightarrow> Pipe \<Rightarrow> 'w \<Rightarrow> (status \<times> nat \<times> Pipe \<times> 'w) option" where
  "decompOutSWFallback J sw j avail P w =
    (let s = streams P ! j; fmt = j_fmt J; n = src_dataLen s + (outputHeaderSz fmt + outputFooterSz fmt) in
     if i_sw_backup (j_params J) = 0 then Some (QZ_FAIL, avail, P, w)
     else do {
       d \<leftarrow> load (pmem P) (padd (j_src J) (q_in_len P)) n;
       (case sw w d (dest_dataLen s) of (rc, used, out, w) \<Rightarrow> do {
          m \<leftarrow> store_bytes (pmem P) (q_next_dest P) out;
          let P = P\<lparr>pmem := m\<rparr>;
          if rc \<noteq> QZ_OK then Some (QZ_FAIL, avail, P, w)
          else Some (QZ_OK, sub32 avail (length out),
             advance_out (length out) ((decompOutErrorDestBufferCleanUp j P)\<lparr>q_in_len := q_in_len P + used\<rparr>), w) }) })"

definition set_end_of_stream :: "Pipe \<Rightarrow> Pipe" where
  "set_end_of_stream P = (if end_of_stream P \<noteq> None then P\<lparr>end_of_stream := Some 1\<rparr> else P)"

text \<open>A hardware result: the data is copied out before the checksum is looked at.\<close>

definition decomp_collect_hw ::
  "Job \<Rightarrow> nat \<Rightarrow> nat \<Rightarrow> Pipe \<Rightarrow> (control \<times> nat \<times> Pipe) option" where
  "decomp_collect_hw J j avail P =
    (let resl = st_res (streams P ! j); n = unat (produced resl); fmt = j_fmt J in do {
       P \<leftarrow> decompOutValidDestBufferCleanUp j resl avail P;
       (rc, P) \<leftarrow> decompOutCheckSum J j resl P;
       if rc \<noteq> QZ_OK then Some (Continue, avail, P)
       else do {
         let P = advance_out n (P\<lparr>q_in_len := q_in_len P + (outputHeaderSz fmt + unat (consumed resl) + outputFooterSz fmt)\<rparr>);
         P \<leftarrow> decompOutProcessedRespond j (if endOfLastBlock resl then set_end_of_stream P else P);
         Some (Break, sub32 avail n, P) } })"

definition decomp_collect_one ::
  "Job \<Rightarrow> 'w sw_decomp \<Rightarrow> nat \<Rightarrow> nat \<Rightarrow> Pipe \<Rightarrow> 'w \<Rightarrow> (control \<times> nat \<times> Pipe \<times> 'w) option" where
  "decomp_collect_one J sw j avail P w =
    (if q_stat P = QZ_DATA_ERROR then do {
       P \<leftarrow> decompOutSkipErrorRespond j P; Some (Continue, avail, P, w) }
     else if job_status (streams P ! j) \<noteq> CPA_STATUS_SUCCESS then do {
       (rc, avail, P, w) \<leftarrow> decompOutSWFallback J sw j avail P w;
       if rc = QZ_FAIL then Some (Abort, avail, upd j swapDataBuffer P, w)
       else do { P \<leftarrow> decompOutProcessedRespond j P; Some (Break, avail, P, w) } }
     else do { (c, avail, P) \<leftarrow> decomp_collect_hw J j avail P; Some (c, avail, P, w) })"

primrec decomp_scan ::
  "Job \<Rightarrow> 'w sw_decomp \<Rightarrow> nat list \<Rightarrow> nat \<Rightarrow> Pipe \<Rightarrow> 'w \<Rightarrow> (bool \<times> nat \<times> Pipe \<times> 'w) option" where
  "decomp_scan J sw [] avail P w = Some (False, avail, P, w)"
| "decomp_scan J sw (j # js) avail P w =
    (if st_seq (streams P ! j) = q_seq_in P \<and> answered (streams P ! j) then do {
       (c, avail, P, w) \<leftarrow> decomp_collect_one J sw j avail P w;
       (case c of Continue \<Rightarrow> decomp_scan J sw js avail P w
        | Break \<Rightarrow> Some (False, avail, P, w) | Abort \<Rightarrow> Some (True, avail, P, w)) }
     else decomp_scan J sw js avail P w)"

text \<open>One round of \<^verbatim>\<open>doDecompressOut\<close>.\<close>

definition decomp_collect :: "Job \<Rightarrow> 'w sw_decomp \<Rightarrow> 'w Decomp \<Rightarrow> 'w Decomp option" where
  "decomp_collect J sw x = do {
     (err, a, P, w) \<leftarrow> decomp_scan J sw [0..<length (streams (d_pipe x))] (d_out_avail x) (d_pipe x) (d_sw_state x);
     let x = x\<lparr>d_out_avail := a, d_sw_state := w\<rparr>;
     let fin = ((q_single P \<or> q_last_submitted P) \<and> q_processed P = q_submitted P);
     Some (if err then x\<lparr>d_pipe := out_error P, d_out_done := True\<rparr>
           else if fin then x\<lparr>d_pipe := P\<lparr>q_last_processed := q_last_submitted P\<rparr>, d_out_done := True\<rparr>
           else x\<lparr>d_pipe := P\<rparr>) }"

section \<open>Events\<close>

text \<open>\<open>Restart\<close> is the single thread going back to the submitting part after the collecting part. With
  a single thread the collecting part runs only when the other has returned.\<close>

datatype devent = DCheck | DClaim | DSetup | DSubmit bool | DRespond nat | DCollect | DPollFail | DBeat bool | Restart

definition may_collect :: "'w Decomp \<Rightarrow> bool" where
  "may_collect x \<longleftrightarrow> \<not> d_out_done x \<and> (q_single (d_pipe x) \<longrightarrow> d_phase x = DPaused \<or> d_phase x = DDone)"

text \<open>The driver's answer; decompression always asks for a final flush.\<close>

definition decomp_respond :: "hardware \<Rightarrow> nat \<Rightarrow> Pipe \<Rightarrow> Pipe option" where
  "decomp_respond hw j P =
    (let s = streams P ! j in do {
       d \<leftarrow> load (pmem P) (src_pData s) (src_dataLen s);
       (case hw d True (dest_dataLen s) of (stat, res, out) \<Rightarrow> do {
          m \<leftarrow> store_bytes (pmem P) (dest_pData s) out;
          Some (upd j (\<lambda>s. dcCallback stat (s\<lparr>st_res := res\<rparr>)) (P\<lparr>pmem := m\<rparr>)) }) })"

definition decomp_step :: "Job \<Rightarrow> hardware \<Rightarrow> 'w sw_decomp \<Rightarrow> devent \<Rightarrow> 'w Decomp \<Rightarrow> 'w Decomp option" where
  "decomp_step J hw sw e x = (let P = d_pipe x in case e of
     DCheck \<Rightarrow> if d_phase x = DTop then decomp_check J sw x else Some x
   | DClaim \<Rightarrow> Some (if d_phase x = DFound then decomp_claim J x else x)
   | DSetup \<Rightarrow> (case d_phase x of DClaimed j \<Rightarrow> decomp_setup J j x | _ \<Rightarrow> Some x)
   | DSubmit ok \<Rightarrow> (case d_phase x of DReady j n m \<Rightarrow> decomp_submit J sw j n m ok x | _ \<Rightarrow> Some x)
   | DRespond j \<Rightarrow> if j \<in> set (d_driver x) then do {
         P \<leftarrow> decomp_respond hw j P; Some (x\<lparr>d_pipe := P, d_driver := remove1 j (d_driver x)\<rparr>) } else Some x
   | DCollect \<Rightarrow> if may_collect x then decomp_collect J sw x else Some x
   | DPollFail \<Rightarrow> if may_collect x then Some (x\<lparr>d_pipe := out_error P, d_out_done := True\<rparr>) else Some x
   | DBeat b \<Rightarrow> Some (x\<lparr>d_pipe := P\<lparr>heartbeat := b\<rparr>\<rparr>)
   | Restart \<Rightarrow> Some (if q_single P \<and> d_out_done x \<and> \<not> q_last_processed P
       then decomp_out_start J (decomp_in_start J x) else x))"

primrec decomp_run :: "Job \<Rightarrow> hardware \<Rightarrow> 'w sw_decomp \<Rightarrow> devent list \<Rightarrow> 'w Decomp \<Rightarrow> 'w Decomp option" where
  "decomp_run J hw sw [] x = Some x"
| "decomp_run J hw sw (e # es) x = do { x \<leftarrow> decomp_step J hw sw e x; decomp_run J hw sw es x }"

end
