(* ===== verification/Async.thy ===== *)
theory Async
  imports CompOrder DecompPipe
begin

text \<open>
  The asynchronous compression (\<^verbatim>\<open>AsyncReqConsumeJob\<close>, \<^verbatim>\<open>AsyncCompressIn\<close>, \<^verbatim>\<open>AsyncCompressOut\<close> of
  \<^verbatim>\<open>src/qatzip.c\<close>): callers put requests into a queue, one thread takes them and submits their blocks,
  the driver answers in any order, and a polling thread collects the answers in the order of the blocks,
  writes each request's output and calls its callback. As in \<open>Pipeline\<close> an event is one step of one of the
  four, so a list of events is an interleaving.

  A request is a block of memory that the callback's caller frees: using it later is \<open>None\<close>. The results
  structure belongs to the user and stays. The user's sources are regions of \<open>BSrc\<close>, the destinations regions of
  \<open>BDest\<close>. The queue is that of \<open>Ring\<close>, here as the list it refines.
\<close>

section \<open>Requests\<close>

text \<open>\<open>qr_crc\<close> is the object the checksum's pointer points to, where there is a valid one.\<close>

record QzResult =
  qr_status :: status
  qr_src_len :: nat
  qr_dest_len :: nat
  qr_crc :: "bytes option"

record QzAsyncReq =
  rq_src :: ptr
  rq_dest :: ptr
  req_in_len :: nat
  req_out_len :: nat

text \<open>Where the consumer is: waiting for a request, or with one of them between blocks, holding a buffer, with
  the buffer set up, or waiting for the answers after a block could not be submitted; \<open>AEnd\<close> is its end.\<close>

datatype aphase = AWait | ABetween nat | AClaimed nat nat | AReady nat nat | ADrain nat | AEnd

record Async =
  as_pipe :: Pipe
  as_job :: Job
  as_at :: ptr
  as_rem :: nat
  as_send :: nat
  as_last_j :: int
  as_phase :: aphase
  as_driver :: "nat list"
  stream_req :: "nat \<Rightarrow> nat"
  as_reqs :: "nat \<Rightarrow> QzAsyncReq option"
  as_res :: "nat \<Rightarrow> QzResult"
  as_calls :: "(nat \<times> status \<times> nat \<times> nat) list"
  req_prv :: "nat option"
  as_queue :: "nat list"
  as_next :: nat
  as_ctrl_init :: bool
  as_out_done :: bool

abbreviation on_pipe :: "(Pipe \<Rightarrow> Pipe) \<Rightarrow> Async \<Rightarrow> Async" where
  "on_pipe f x \<equiv> x\<lparr>as_pipe := f (as_pipe x)\<rparr>"

text \<open>The callback of a request, which sees the results as they are then; the request is freed.\<close>

definition CallAsyncbackfn :: "nat \<Rightarrow> status \<Rightarrow> bool \<Rightarrow> Async \<Rightarrow> Async option" where
  "CallAsyncbackfn r stat recover x =
    (if as_reqs x r = None then None
     else let res = (as_res x r)\<lparr>qr_status := stat\<rparr>;
              res = (if stat \<noteq> QZ_OK then res\<lparr>qr_src_len := 0, qr_dest_len := 0\<rparr> else res);
              x = x\<lparr>as_res := (as_res x)(r := res), as_reqs := (as_reqs x)(r := None),
                as_calls := as_calls x @ [(r, stat, qr_src_len res, qr_dest_len res)]\<rparr>
          in Some (if recover then on_pipe (\<lambda>P. P\<lparr>q_stat := QZ_OK\<rparr>) x else x))"

section \<open>Submitting\<close>

text \<open>The next request: the session takes its addresses and lengths.\<close>

definition async_take :: "Async \<Rightarrow> Async option" where
  "async_take x = (case as_queue x of
     [] \<Rightarrow> Some x
   | r # q \<Rightarrow> (case as_reqs x r of None \<Rightarrow> None
       | Some req \<Rightarrow>
         (let n = qr_src_len (as_res x r);
              J = (as_job x)\<lparr>j_src := rq_src req, j_src_sz := n, j_dest_sz := qr_dest_len (as_res x r), j_last := True\<rparr> in
          Some (x\<lparr>as_queue := q, as_job := J, as_pipe := (as_pipe x)\<lparr>q_next_dest := rq_dest req\<rparr>, as_at := rq_src req, as_rem := n,
            as_send := min n (j_hw J), as_last_j := -1, as_phase := ABetween r\<rparr>))))"

definition async_claim :: "nat \<Rightarrow> Async \<Rightarrow> Async" where
  "async_claim r x =
    (let P = as_pipe x; j = getUnusedBuffer (streams P) (as_last_j x); x = x\<lparr>as_last_j := j\<rparr> in
     if j = -1 then x
     else x\<lparr>as_phase := AClaimed r (nat j), as_pipe := upd (nat j) (\<lambda>s. s\<lparr>src1 := src1 s + 1\<rparr>) P\<rparr>)"

text \<open>The size of the destination is read through the pointer into the results.\<close>

definition async_setup :: "nat \<Rightarrow> nat \<Rightarrow> Async \<Rightarrow> Async option" where
  "async_setup r j x = do {
     P \<leftarrow> compBufferSetup ((as_job x)\<lparr>j_dest_sz := qr_dest_len (as_res x r)\<rparr>) j (as_at x) (as_rem x) (as_send x) (as_pipe x);
     Some (x\<lparr>as_pipe := P, stream_req := (stream_req x)(j := r), as_phase := AReady r j\<rparr>) }"

text \<open>A refused block ends the submission of the request; there is no turn to software.\<close>

definition async_submit :: "nat \<Rightarrow> nat \<Rightarrow> bool \<Rightarrow> Async \<Rightarrow> Async" where
  "async_submit r j ok x =
    (let P = upd j (\<lambda>s. s\<lparr>src2 := src2 s + 1\<rparr>) (as_pipe x) in
     if \<not> ok then x\<lparr>as_pipe := (compInBufferCleanUp j P)\<lparr>q_stop := True, q_stat := QZ_FAIL\<rparr>, as_phase := ADrain r\<rparr>
     else let rem = as_rem x - as_send x;
              P = P\<lparr>q_seq := q_seq P + 1, q_submitted := q_submitted P + 1\<rparr>;
              send = min rem (j_hw (as_job x)); rem = (if q_stop P then 0 else rem)
          in x\<lparr>as_pipe := P, as_driver := as_driver x @ [j], as_at := padd (as_at x) (as_send x), as_rem := rem, as_send := send,
               as_phase := (if rem = 0 then AWait else ABetween r)\<rparr>)"

text \<open>After a refused block: the wait, the reset of the session and the callback.\<close>

definition async_drain :: "nat \<Rightarrow> Async \<Rightarrow> Async option" where
  "async_drain r x =
    (let P = as_pipe x in
     if q_stop P \<and> q_seq P \<noteq> q_seq_in P then Some x
     else if as_reqs x r = None then None
     else let res = (as_res x r)\<lparr>qr_status := QZ_FAIL\<rparr>
          in Some (x\<lparr>as_pipe := resetQzsess (as_job x) P, as_phase := AWait, as_res := (as_res x)(r := res),
               as_calls := as_calls x @ [(r, QZ_FAIL, qr_src_len res, qr_dest_len res)], as_reqs := (as_reqs x)(r := None)\<rparr>))"

section \<open>Collecting\<close>

definition AsyncCompOutCheckDestLen :: "nat \<Rightarrow> nat \<Rightarrow> nat \<Rightarrow> nat \<Rightarrow> Pipe \<Rightarrow> (status \<times> Pipe) option" where
  "AsyncCompOutCheckDestLen j dest_len out_len n P =
    (if int (sub32 dest_len out_len) - int n < 0 then do {
       P \<leftarrow> compOutSkipErrorRespond j P;
       Some (QZ_BUF_ERROR, P\<lparr>q_stat := QZ_BUF_ERROR\<rparr>) }
     else Some (QZ_OK, P))"

definition AsyncCompOutValidDestBufferCleanUp :: "nat \<Rightarrow> ptr \<Rightarrow> nat \<Rightarrow> nat \<Rightarrow> nat \<Rightarrow> Pipe \<Rightarrow> Pipe option" where
  "AsyncCompOutValidDestBufferCleanUp j dest dest_len out_len n P =
    (let s = streams P ! j in
     if dest_need_reset s then Some (upd j (\<lambda>s. s\<lparr>dest_pData := orig_dest s, dest_need_reset := False\<rparr>) P)
     else do {
       m \<leftarrow> QZ_MEMCPY (pmem P) dest (dest_pData s) (sub32 dest_len out_len) n;
       Some (P\<lparr>pmem := m\<rparr>) })"

text \<open>The checksum is read and written through a pointer to \<^verbatim>\<open>unsigned long\<close>: eight bytes.\<close>

definition async_crc :: "Job \<Rightarrow> CpaDcRqResults \<Rightarrow> bytes option \<Rightarrow> bytes option option" where
  "async_crc J resl c = (case c of None \<Rightarrow> Some None
     | Some b \<Rightarrow> if \<not> IS_DEFLATE (j_fmt J) then Some c
         else do {
           v \<leftarrow> get64 b 0;
           let v' = (if v = 0 then ucast (checksum resl) else crc_combine J v (checksum resl) (consumed resl));
           Some (Some (put_bytes b 0 (le_bytes 8 v'))) })"

definition store_at :: "ptr \<Rightarrow> bytes \<Rightarrow> Pipe \<Rightarrow> Pipe option" where
  "store_at p bs P = do { m \<leftarrow> store_bytes (pmem P) p bs; Some (P\<lparr>pmem := m\<rparr>) }"

text \<open>Header, data and footer of a block go to the destination of its request.\<close>

definition async_frame_out :: "nat \<Rightarrow> nat \<Rightarrow> CpaDcRqResults \<Rightarrow> Async \<Rightarrow> Async option" where
  "async_frame_out r j resl x =
    (let J = as_job x; fmt = j_fmt J; n = unat (produced resl); h = outputHeaderSz fmt; f = outputFooterSz fmt;
         res = as_res x r in do {
       req \<leftarrow> as_reqs x r;
       P \<leftarrow> store_at (rq_dest req) (outputHeaderGen resl fmt) (as_pipe x);
       let req = req\<lparr>rq_dest := padd (rq_dest req) h, req_out_len := req_out_len req + h\<rparr>;
       P \<leftarrow> AsyncCompOutValidDestBufferCleanUp j (rq_dest req) (qr_dest_len res) (req_out_len req) n P;
       let req = req\<lparr>rq_dest := padd (rq_dest req) n, req_in_len := req_in_len req + unat (consumed resl)\<rparr>;
       crc \<leftarrow> async_crc J resl (qr_crc res);
       let req = req\<lparr>req_out_len := req_out_len req + n\<rparr>;
       P \<leftarrow> store_at (rq_dest req) (outputFooterGen resl fmt) P;
       let req = req\<lparr>rq_dest := padd (rq_dest req) f, req_out_len := req_out_len req + f\<rparr>;
       Some (x\<lparr>as_pipe := P, as_reqs := (as_reqs x)(r \<mapsto> req), as_res := (as_res x)(r := res\<lparr>qr_crc := crc\<rparr>)\<rparr>) })"

text \<open>A request that failed is over when all that was submitted is processed.\<close>

definition fail_if_last :: "nat \<Rightarrow> Async \<Rightarrow> Async option" where
  "fail_if_last r x =
    (if q_processed (as_pipe x) = q_submitted (as_pipe x)
     then do { x \<leftarrow> CallAsyncbackfn r QZ_FAIL True x; Some (x\<lparr>req_prv := None\<rparr>) } else Some x)"

definition async_finish_block :: "nat \<Rightarrow> nat \<Rightarrow> Async \<Rightarrow> Async option" where
  "async_finish_block r j x = do {
     P \<leftarrow> compOutProcessedRespond j (as_pipe x);
     let x = x\<lparr>as_pipe := P\<rparr>;
     req \<leftarrow> as_reqs x r;
     if req_in_len req = qr_src_len (as_res x r) then do {
       x \<leftarrow> CallAsyncbackfn r QZ_OK False (x\<lparr>as_res := (as_res x)(r := (as_res x r)\<lparr>qr_dest_len := req_out_len req\<rparr>)\<rparr>);
       Some (x\<lparr>req_prv := None\<rparr>) }
     else Some (x\<lparr>req_prv := Some r\<rparr>) }"

definition async_hw_result :: "nat \<Rightarrow> Async \<Rightarrow> (control \<times> Async) option" where
  "async_hw_result j x =
    (let P = as_pipe x; r = stream_req x j; s = streams P ! j; resl = st_res s; fmt = j_fmt (as_job x) in
     if job_status s \<noteq> CPA_STATUS_SUCCESS \<or> res_status resl \<noteq> CPA_DC_OK then do {
       P \<leftarrow> compOutSkipErrorRespond j P;
       x \<leftarrow> fail_if_last r (x\<lparr>as_pipe := P\<lparr>q_stat := QZ_FAIL\<rparr>\<rparr>);
       Some (Continue, x) }
     else do {
       req \<leftarrow> as_reqs x r;
       (rc, P) \<leftarrow> AsyncCompOutCheckDestLen j (qr_dest_len (as_res x r)) (req_out_len req)
         (outputHeaderSz fmt + unat (produced resl) + outputFooterSz fmt) P;
       if rc \<noteq> QZ_OK then do { x \<leftarrow> fail_if_last r (x\<lparr>as_pipe := P\<rparr>); Some (Continue, x) }
       else do {
         x \<leftarrow> async_frame_out r j resl (x\<lparr>as_pipe := P\<rparr>);
         x \<leftarrow> async_finish_block r j x;
         Some (Break, x) } })"

text \<open>After an error the answers are skipped until one of another request comes, or none is left.\<close>

definition async_skip :: "nat \<Rightarrow> nat \<Rightarrow> Async \<Rightarrow> (control \<times> Async) option" where
  "async_skip r j x = do {
     P \<leftarrow> compOutSkipErrorRespond j (as_pipe x);
     x \<leftarrow> fail_if_last r (x\<lparr>as_pipe := P, req_prv := Some r\<rparr>);
     Some (Continue, on_pipe (\<lambda>P. P\<lparr>q_stop := False\<rparr>) x) }"

definition async_collect_one :: "nat \<Rightarrow> Async \<Rightarrow> (control \<times> Async) option" where
  "async_collect_one j x =
    (let r = stream_req x j in
     if \<not> (q_stat (as_pipe x) = QZ_BUF_ERROR \<or> q_stat (as_pipe x) = QZ_FAIL) then async_hw_result j x
     else case req_prv x of
       Some p \<Rightarrow> if p \<noteq> r then do { x \<leftarrow> CallAsyncbackfn p QZ_FAIL True x; async_hw_result j (x\<lparr>req_prv := None\<rparr>) }
                 else async_skip r j x
     | None \<Rightarrow> async_skip r j x)"

primrec async_scan :: "nat list \<Rightarrow> Async \<Rightarrow> Async option" where
  "async_scan [] x = Some x"
| "async_scan (j # js) x =
    (let P = as_pipe x in
     if st_seq (streams P ! j) = q_seq_in P \<and> answered (streams P ! j) then do {
       (c, x) \<leftarrow> async_collect_one j x;
       (case c of Continue \<Rightarrow> async_scan js x | _ \<Rightarrow> Some x) }
     else async_scan js x)"

text \<open>One round of \<^verbatim>\<open>AsyncCompressOut\<close>.\<close>

definition AsyncCompressOut :: "Async \<Rightarrow> Async option" where
  "AsyncCompressOut x =
    (let P = as_pipe x in
     if \<not> q_last_submitted P \<or> q_processed P < q_submitted P then async_scan [0..<length (streams P)] x
     else Some (x\<lparr>as_pipe := P\<lparr>q_last_processed := q_stop P \<or> q_last_submitted P\<rparr>, as_out_done := True\<rparr>))"

section \<open>Events\<close>

text \<open>\<open>APut\<close> is a caller's next request, which \<open>U\<close> gives; a full queue refuses it. \<open>ATake\<close>, \<open>AClaim\<close>, \<open>ASetup\<close>, \<open>ASubmit\<close> and \<open>ADrained\<close> are
  parts of the consumer's loop, \<open>AClose\<close> the teardown of the session, after which the consumer ends, waits for the polling
  thread (\<open>AJoin\<close>) and frees what is left in the queue.\<close>

datatype aevent = APut | ATake | AClaim | ASetup | ASubmit bool | ADrained | ARespond nat | ACollect | APollFail | AClose | AJoin

definition async_put :: "nat \<Rightarrow> (nat \<Rightarrow> QzAsyncReq \<times> QzResult) \<Rightarrow> Async \<Rightarrow> Async" where
  "async_put cap U x =
    (if length (as_queue x) < cap
     then x\<lparr>as_queue := as_queue x @ [as_next x], as_reqs := (as_reqs x)(as_next x \<mapsto> fst (U (as_next x))),
            as_res := (as_res x)(as_next x := snd (U (as_next x))), as_next := as_next x + 1\<rparr>
     else x)"

definition async_step :: "nat \<Rightarrow> (nat \<Rightarrow> QzAsyncReq \<times> QzResult) \<Rightarrow> hardware \<Rightarrow> aevent \<Rightarrow> Async \<Rightarrow> Async option" where
  "async_step cap U hw e x = (case e of
     APut \<Rightarrow> Some (if as_ctrl_init x then async_put cap U x else x)
   | ATake \<Rightarrow> if as_phase x \<noteq> AWait then Some x
       else if as_ctrl_init x then async_take x
       else Some (x\<lparr>as_phase := AEnd, as_pipe := (as_pipe x)\<lparr>q_last_submitted := True\<rparr>\<rparr>)
   | AClaim \<Rightarrow> Some (case as_phase x of ABetween r \<Rightarrow> async_claim r x | _ \<Rightarrow> x)
   | ASetup \<Rightarrow> (case as_phase x of AClaimed r j \<Rightarrow> async_setup r j x | _ \<Rightarrow> Some x)
   | ASubmit ok \<Rightarrow> Some (case as_phase x of AReady r j \<Rightarrow> async_submit r j ok x | _ \<Rightarrow> x)
   | ADrained \<Rightarrow> (case as_phase x of ADrain r \<Rightarrow> async_drain r x | _ \<Rightarrow> Some x)
   | ARespond j \<Rightarrow> if j \<in> set (as_driver x) then do {
         P \<leftarrow> respond hw j (as_pipe x); Some (x\<lparr>as_pipe := P, as_driver := remove1 j (as_driver x)\<rparr>) } else Some x
   | ACollect \<Rightarrow> if as_out_done x then Some x else AsyncCompressOut x
   | APollFail \<Rightarrow> Some (if as_out_done x \<or> q_last_submitted (as_pipe x) \<and> q_submitted (as_pipe x) \<le> q_processed (as_pipe x) then x
       else x\<lparr>as_pipe := out_error (as_pipe x), as_out_done := True\<rparr>)
   | AClose \<Rightarrow> Some (x\<lparr>as_ctrl_init := False\<rparr>)
   | AJoin \<Rightarrow> Some (if as_phase x = AEnd \<and> as_out_done x
       then x\<lparr>as_reqs := (\<lambda>r. if r \<in> set (as_queue x) then None else as_reqs x r), as_queue := []\<rparr> else x))"

primrec async_run :: "nat \<Rightarrow> (nat \<Rightarrow> QzAsyncReq \<times> QzResult) \<Rightarrow> hardware \<Rightarrow> aevent list \<Rightarrow> Async \<Rightarrow> Async option" where
  "async_run cap U hw [] x = Some x"
| "async_run cap U hw (e # es) x = do { x \<leftarrow> async_step cap U hw e x; async_run cap U hw es x }"

text \<open>The state of a new controller: the counters of the session, in \<open>P\<close>, are as the last call left them.\<close>

definition async_start :: "Job \<Rightarrow> Pipe \<Rightarrow> Async" where
  "async_start J P = \<lparr>as_pipe = P, as_job = J, as_at = j_src J, as_rem = 0, as_send = 0, as_last_j = -1, as_phase = AWait,
     as_driver = [], stream_req = (\<lambda>_. 0), as_reqs = (\<lambda>_. None), as_res = (\<lambda>_. \<lparr>qr_status = QZ_OK, qr_src_len = 0, qr_dest_len = 0, qr_crc = None\<rparr>),
     as_calls = [], req_prv = None, as_queue = [], as_next = 0, as_ctrl_init = True, as_out_done = False\<rparr>"

end
