(* ===== verification/AsyncInv.thy ===== *)
theory AsyncInv
  imports Async
begin

text \<open>
  The asynchronous compression on a healthy instance: the blocks of all requests, one after the other, go through the
  buffers as those of one call do, so the buffers are a third instance of \<open>request_slots\<close>. The invariant says which block of
  which request a buffer holds, which requests are answered, and how far the one that is being collected is.
\<close>

section \<open>What the callers ask for\<close>

text \<open>The first \<open>l_count\<close> requests of the callers, on the memory \<open>l_src\<close> with their destinations in \<open>l_room\<close> bytes.\<close>

record Workload =
  l_job :: Job
  l_users :: "nat \<Rightarrow> QzAsyncReq \<times> QzResult"
  l_count :: nat
  l_src :: bytes
  l_room :: nat

abbreviation "w_req W r \<equiv> fst (l_users W r)"
abbreviation "w_res W r \<equiv> snd (l_users W r)"
abbreviation "w_len W r \<equiv> qr_src_len (w_res W r)"
abbreviation "w_cap W r \<equiv> qr_dest_len (w_res W r)"

definition w_src :: "Workload \<Rightarrow> nat \<Rightarrow> nat" where
  "w_src W r = p_off (rq_src (w_req W r))"

definition w_dst :: "Workload \<Rightarrow> nat \<Rightarrow> nat" where
  "w_dst W r = p_off (rq_dest (w_req W r))"

definition w_data :: "Workload \<Rightarrow> nat \<Rightarrow> bytes" where
  "w_data W r = take (w_len W r) (drop (w_src W r) (l_src W))"

definition w_job :: "Workload \<Rightarrow> nat \<Rightarrow> Job" where
  "w_job W r = (l_job W)\<lparr>j_src := Ptr BSrc 0, j_src_sz := w_len W r, j_dest_sz := w_cap W r, j_last := True\<rparr>"

abbreviation "w_hw W \<equiv> j_hw (l_job W)"
abbreviation "w_n W r \<equiv> n_blocks (w_job W r) (w_data W r)"
abbreviation "w_block W r i \<equiv> block (w_job W r) (w_data W r) i"
abbreviation "w_frames W hw r i \<equiv> frames (w_job W r) hw (w_data W r) i"
abbreviation "w_out W hw r \<equiv> w_frames W hw r (w_n W r)"

definition w_base :: "Workload \<Rightarrow> nat \<Rightarrow> nat" where
  "w_base W r = (\<Sum>i < r. w_n W i)"

definition crc_ok :: "bytes option \<Rightarrow> bool" where
  "crc_ok c \<longleftrightarrow> (case c of None \<Rightarrow> True | Some b \<Rightarrow> 8 \<le> length b)"

text \<open>Each request is within its bounds, has room for its output, and is taken as promised by the driver.\<close>

definition request_ok :: "Workload \<Rightarrow> hardware \<Rightarrow> nat \<Rightarrow> bool" where
  "request_ok W hw r \<longleftrightarrow> w_req W r = \<lparr>rq_src = Ptr BSrc (w_src W r), rq_dest = Ptr BDest (w_dst W r), req_in_len = 0, req_out_len = 0\<rparr> \<and>
     crc_ok (qr_crc (w_res W r)) \<and> w_src W r + w_len W r \<le> length (l_src W) \<and> w_dst W r + w_cap W r \<le> l_room W \<and>
     job_ok (w_job W r) (w_data W r) \<and> healthy (w_job W r) hw (w_data W r) \<and> length (w_out W hw r) \<le> w_cap W r"

definition workload_ok :: "Workload \<Rightarrow> hardware \<Rightarrow> bool" where
  "workload_ok W hw \<longleftrightarrow> (\<forall>r < l_count W. request_ok W hw r) \<and> 0 < w_hw W \<and> w_hw W \<le> 524288 \<and>
     (\<forall>r < l_count W. \<forall>t < l_count W. r \<noteq> t \<longrightarrow> w_dst W r + w_cap W r \<le> w_dst W t \<or> w_dst W t + w_cap W t \<le> w_dst W r)"

section \<open>The numbers of the blocks\<close>

lemma w_job_simps [simp]: "j_hw (w_job W r) = w_hw W" "j_fmt (w_job W r) = j_fmt (l_job W)"
  "j_dest_sz (w_job W r) = w_cap W r" "j_params (w_job W r) = j_params (l_job W)" "j_last (w_job W r)"
  "j_src_sz (w_job W r) = w_len W r"
  by (simp_all add: w_job_def j_hw_def j_fmt_def)

lemma w_base_simps [simp]: "w_base W 0 = 0" "w_base W (Suc r) = w_base W r + w_n W r"
  by (simp_all add: w_base_def)

lemma w_base_mono: "r \<le> t \<Longrightarrow> w_base W r \<le> w_base W t"
  by (induction t) (auto simp: le_Suc_eq)

lemma w_n_pos: "0 < w_hw W \<Longrightarrow> 0 < w_n W r"
  by (simp add: n_blocks_pos)

lemma w_place_less: "w_base W r + i < w_base W t + k \<Longrightarrow> i < w_n W r \<Longrightarrow> k < w_n W t \<Longrightarrow> r < t \<or> r = t \<and> i < k"
proof (rule ccontr)
  assume a: "w_base W r + i < w_base W t + k" "i < w_n W r" "k < w_n W t" "\<not> (r < t \<or> r = t \<and> i < k)"
  then have "t < r" by (cases "r = t") auto
  then have "w_base W (Suc t) \<le> w_base W r" by (intro w_base_mono) simp
  then show False using a by simp
qed

lemma w_place_unique: "w_base W r + i = w_base W t + k \<Longrightarrow> i < w_n W r \<Longrightarrow> k < w_n W t \<Longrightarrow> r = t \<and> i = k"
proof (cases r t rule: linorder_cases)
  case less
  then have "w_base W (Suc r) \<le> w_base W t" by (intro w_base_mono) simp
  then show "w_base W r + i = w_base W t + k \<Longrightarrow> i < w_n W r \<Longrightarrow> ?thesis" by simp
next
  case greater
  then have "w_base W (Suc t) \<le> w_base W r" by (intro w_base_mono) simp
  then show "w_base W r + i = w_base W t + k \<Longrightarrow> k < w_n W t \<Longrightarrow> ?thesis" by simp
qed simp

lemma w_before: "w_base W r + i < w_base W t \<Longrightarrow> r < t"
proof (rule ccontr)
  assume "w_base W r + i < w_base W t" "\<not> r < t"
  then show False using w_base_mono [of t r W] by simp
qed

section \<open>The invariant\<close>

definition a_prepared :: "Workload \<Rightarrow> store \<Rightarrow> CpaStream \<Rightarrow> nat \<Rightarrow> nat \<Rightarrow> bool" where
  "a_prepared W m s r i \<longleftrightarrow> st_seq s = int (w_base W r + i) \<and> r < l_count W \<and> i < w_n W r \<and>
     load m (src_pData s) (src_dataLen s) = Some (w_block W r i) \<and>
     (if src_need_reset s then p_blk (src_pData s) = BSrc else src_pData s = orig_src s) \<and>
     flush_final s = final_flag (w_job W r) (w_data W r) i \<and> dest_dataLen s = dest_room (w_job W r) (length (w_block W r i)) \<and>
     (if dest_need_reset s then r = 0 \<and> i = 0 \<and> dest_pData s = Ptr BDest (w_dst W 0 + outputHeaderSz (j_fmt (l_job W)))
      else dest_pData s = orig_dest s)"

definition a_finished :: "Workload \<Rightarrow> hardware \<Rightarrow> store \<Rightarrow> CpaStream \<Rightarrow> nat \<Rightarrow> nat \<Rightarrow> bool" where
  "a_finished W hw m s r i \<longleftrightarrow> a_prepared W m s r i \<and> job_status s = CPA_STATUS_SUCCESS \<and>
     st_res s = res_of (w_job W r) hw (w_data W r) i \<and>
     load m (dest_pData s) (length (out_of (w_job W r) hw (w_data W r) i)) = Some (out_of (w_job W r) hw (w_data W r) i)"

definition a_prep :: "Workload \<Rightarrow> slot_pred" where
  "a_prep W j m s k \<longleftrightarrow> home j s \<and> st_seq s = k \<and> (\<exists>r i. a_prepared W m s r i)"

definition a_fin :: "Workload \<Rightarrow> hardware \<Rightarrow> slot_pred" where
  "a_fin W hw j m s k \<longleftrightarrow> home j s \<and> st_seq s = k \<and> (\<exists>r i. a_finished W hw m s r i)"

lemma a_prepared_mem: "a_prepared W m s r i \<Longrightarrow> home j s \<Longrightarrow> m' BSrc = m BSrc \<Longrightarrow> m' (BPool (2 * j)) = m (BPool (2 * j)) \<Longrightarrow>
    a_prepared W m' s r i"
  by (auto simp: a_prepared_def load_def home_def Let_def split: if_splits)

lemma a_finished_mem: "a_finished W hw m s r i \<Longrightarrow> home j s \<Longrightarrow> own_same j m m' \<Longrightarrow> (dest_need_reset s \<Longrightarrow> m' BDest = m BDest) \<Longrightarrow>
    a_finished W hw m' s r i"
  using a_prepared_mem [of W m s r i j m']
  by (auto simp: a_finished_def a_prepared_def load_def home_def own_same_def Let_def split: if_splits)

lemma a_prepared_zero: "a_prepared W m s r i \<Longrightarrow> dest_need_reset s \<Longrightarrow> st_seq s = 0"
  by (simp add: a_prepared_def)

interpretation ac: request_slots comp_idle "a_prep W" "a_fin W hw" comp_keeps for W hw
proof unfold_locales
  fix j m m' s k n
  show "a_prep W j m s k \<Longrightarrow> st_seq s = k" by (simp add: a_prep_def)
  show "a_prep W j m s k \<Longrightarrow> own_same j m m' \<Longrightarrow> a_prep W j m' s k"
    unfolding a_prep_def own_same_def by (blast intro: a_prepared_mem)
  show "a_prep W j m (s\<lparr>src2 := n\<rparr>) k = a_prep W j m s k"
    by (simp add: a_prep_def a_prepared_def home_def)
  show "a_fin W hw j m' s k" if f: "a_fin W hw j m s k" and o: "own_same j m m'" and k: "dest_need_reset s \<Longrightarrow> comp_keeps k m m'"
  proof -
    obtain r i where fi: "home j s" "st_seq s = k" "a_finished W hw m s r i" using f by (auto simp: a_fin_def)
    have "dest_need_reset s \<Longrightarrow> m' BDest = m BDest"
      using k fi a_prepared_zero [of W m s r i] by (auto simp: comp_keeps_def a_finished_def)
    from a_finished_mem [OF fi(3,1) o this] show ?thesis using fi by (auto simp: a_fin_def)
  qed
  show "m' BDest = m BDest \<Longrightarrow> comp_keeps k m m'" by (simp add: comp_keeps_def)
  show "comp_idle j (s\<lparr>src1 := n\<rparr>) = comp_idle j s" by (simp add: comp_idle_def home_def clean_def)
qed

definition a_claimed :: "aphase \<Rightarrow> nat option" where
  "a_claimed ph = (case ph of AClaimed r j \<Rightarrow> Some j | _ \<Rightarrow> None)"

definition a_readied :: "aphase \<Rightarrow> nat option" where
  "a_readied ph = (case ph of AReady r j \<Rightarrow> Some j | _ \<Rightarrow> None)"

definition a_request :: "aphase \<Rightarrow> nat option" where
  "a_request ph = (case ph of ABetween r \<Rightarrow> Some r | AClaimed r j \<Rightarrow> Some r | AReady r j \<Rightarrow> Some r | _ \<Rightarrow> None)"

lemma aphase_simps [simp]: "a_claimed (AClaimed r j) = Some j" "a_claimed (ABetween r) = None" "a_claimed (AReady r j) = None"
  "a_claimed AWait = None" "a_readied (AReady r j) = Some j" "a_readied (ABetween r) = None" "a_readied (AClaimed r j) = None"
  "a_readied AWait = None" "a_request AWait = None" "a_request (ABetween r) = Some r" "a_request (AClaimed r j) = Some r"
  "a_request (AReady r j) = Some r"
  by (simp_all add: a_claimed_def a_readied_def a_request_def)

definition a_mem :: "Workload \<Rightarrow> Pipe \<Rightarrow> bool" where
  "a_mem W P \<longleftrightarrow> streams P \<noteq> [] \<and> pmem P BSrc = l_src W \<and> length (pmem P BDest) = l_room W \<and>
     (\<forall>j < length (streams P). w_hw W \<le> length (pmem P (BPool (2 * j))) \<and>
        block_dest_sz (w_hw W) \<le> length (pmem P (BPool (2 * j + 1))))"

definition a_local :: "Workload \<Rightarrow> Async \<Rightarrow> bool" where
  "a_local W x \<longleftrightarrow> (let P = as_pipe x; J = as_job x in
     q_submitted P = q_seq P \<and> q_processed P = q_seq_in P \<and> 0 \<le> q_seq_in P \<and> q_seq_in P \<le> q_seq P \<and> \<not> q_stop P \<and>
     q_stat P = QZ_OK \<and> \<not> q_last_submitted P \<and> as_ctrl_init x \<and> \<not> as_out_done x \<and> as_next x \<le> l_count W \<and>
     j_params J = j_params (l_job W) \<and> need_cont_mem J = need_cont_mem (l_job W) \<and> pinned J = pinned (l_job W) \<and>
     crc_combine J = crc_combine (l_job W))"

definition a_in :: "Workload \<Rightarrow> Async \<Rightarrow> bool" where
  "a_in W x \<longleftrightarrow> (let P = as_pipe x; J = as_job x in case a_request (as_phase x) of
     None \<Rightarrow> as_phase x = AWait \<and> (\<exists>t \<le> as_next x. q_seq P = int (w_base W t) \<and> as_queue x = [t..<as_next x])
   | Some r \<Rightarrow> r < as_next x \<and> as_queue x = [Suc r..<as_next x] \<and>
       j_dest_sz J = w_cap W r \<and> j_last J \<and> q_next_dest P = Ptr BDest (w_dst W r) \<and>
       (\<exists>i < w_n W r. q_seq P = int (w_base W r + i) \<and> as_at x = Ptr BSrc (w_src W r + i * w_hw W) \<and>
          as_rem x = w_len W r - i * w_hw W \<and> as_send x = min (as_rem x) (w_hw W)))"

text \<open>The buffers know their requests.\<close>

definition a_tags :: "Workload \<Rightarrow> Async \<Rightarrow> bool" where
  "a_tags W x \<longleftrightarrow> (\<forall>j < length (streams (as_pipe x)). busy (streams (as_pipe x) ! j) \<longrightarrow>
       (\<exists>i < w_n W (stream_req x j). st_seq (streams (as_pipe x) ! j) = int (w_base W (stream_req x j) + i))) \<and>
     (\<forall>r j. as_phase x = AReady r j \<longrightarrow> stream_req x j = r)"

text \<open>Requests before \<open>c\<close> are answered; of request \<open>c\<close> the first \<open>i\<close> blocks are.\<close>

definition a_out :: "Workload \<Rightarrow> hardware \<Rightarrow> Async \<Rightarrow> nat \<Rightarrow> nat \<Rightarrow> bool" where
  "a_out W hw x c i \<longleftrightarrow> q_seq_in (as_pipe x) = int (w_base W c + i) \<and> i < w_n W c \<and> c \<le> as_next x \<and>
     as_calls x = map (\<lambda>r. (r, QZ_OK, w_len W r, length (w_out W hw r))) [0..<c] \<and>
     (\<forall>r < c. as_reqs x r = None \<and> take (length (w_out W hw r)) (drop (w_dst W r) (pmem (as_pipe x) BDest)) = w_out W hw r) \<and>
     (\<forall>r. c < r \<and> r < as_next x \<longrightarrow> as_reqs x r = Some (w_req W r) \<and> as_res x r = w_res W r) \<and>
     (c < as_next x \<longrightarrow> as_reqs x c = Some \<lparr>rq_src = Ptr BSrc (w_src W c), rq_dest = Ptr BDest (w_dst W c + length (w_frames W hw c i)),
          req_in_len = min (i * w_hw W) (w_len W c), req_out_len = length (w_frames W hw c i)\<rparr> \<and>
        qr_src_len (as_res x c) = w_len W c \<and> qr_dest_len (as_res x c) = w_cap W c \<and> crc_ok (qr_crc (as_res x c)) \<and>
        take (length (w_frames W hw c i)) (drop (w_dst W c) (pmem (as_pipe x) BDest)) = w_frames W hw c i)"

abbreviation a_slots :: "Workload \<Rightarrow> hardware \<Rightarrow> Async \<Rightarrow> bool" where
  "a_slots W hw x \<equiv> slots_inv comp_idle (a_prep W) (a_fin W hw) (a_claimed (as_phase x)) (a_readied (as_phase x)) (as_driver x) (as_pipe x)"

definition a_inv :: "Workload \<Rightarrow> hardware \<Rightarrow> Async \<Rightarrow> bool" where
  "a_inv W hw x \<longleftrightarrow> a_mem W (as_pipe x) \<and> a_local W x \<and> a_in W x \<and> a_tags W x \<and> a_slots W hw x \<and> (\<exists>c i. a_out W hw x c i)"

lemma a_invD:
  assumes "a_inv W hw x"
  shows "a_mem W (as_pipe x)" "a_local W x" "a_in W x" "a_tags W x" "a_slots W hw x" "\<exists>c i. a_out W hw x c i"
  using assms by (simp_all add: a_inv_def)

lemma a_inI:
  assumes "a_request (as_phase x) = Some r" "r < as_next x" "as_queue x = [Suc r..<as_next x]" "j_dest_sz (as_job x) = w_cap W r"
    "j_last (as_job x)" "q_next_dest (as_pipe x) = Ptr BDest (w_dst W r)" "i < w_n W r" "q_seq (as_pipe x) = int (w_base W r + i)"
    "as_at x = Ptr BSrc (w_src W r + i * w_hw W)" "as_rem x = w_len W r - i * w_hw W" "as_send x = min (as_rem x) (w_hw W)"
  shows "a_in W x"
  using assms unfolding a_in_def Let_def by auto

section \<open>Queueing and taking\<close>

lemma a_slots_same: "streams P' = streams P \<Longrightarrow> pmem P' = pmem P \<Longrightarrow> q_seq P' = q_seq P \<Longrightarrow> q_seq_in P' = q_seq_in P \<Longrightarrow>
    slots_inv idle prep fin cl rd drv P' = slots_inv idle prep fin cl rd drv P"
  by (simp add: slots_inv_def slot_inv_def)

lemma put_inv:
  assumes inv: "a_inv W hw x" and ok: "workload_ok W hw" and n: "as_next x < l_count W"
  shows "a_inv W hw (async_put cap (l_users W) x)"
proof (cases "length (as_queue x) < cap")
  case True
  let ?x = "async_put cap (l_users W) x" and ?n = "as_next x"
  note i = a_invD [OF inv]
  have f: "as_pipe ?x = as_pipe x" "as_phase ?x = as_phase x" "as_next ?x = Suc ?n" "as_queue ?x = as_queue x @ [?n]"
    "as_reqs ?x = (as_reqs x)(?n \<mapsto> w_req W ?n)" "as_res ?x = (as_res x)(?n := w_res W ?n)" "stream_req ?x = stream_req x"
    "as_driver ?x = as_driver x" "as_calls ?x = as_calls x" "as_job ?x = as_job x" "as_at ?x = as_at x" "as_rem ?x = as_rem x"
    "as_send ?x = as_send x" "as_ctrl_init ?x = as_ctrl_init x" "as_out_done ?x = as_out_done x"
    using True by (simp_all add: async_put_def)
  have "request_ok W hw ?n" using ok n by (simp add: workload_ok_def)
  note r = this [unfolded request_ok_def]
  have q: "w_req W ?n = \<lparr>rq_src = Ptr BSrc (w_src W ?n), rq_dest = Ptr BDest (w_dst W ?n), req_in_len = 0, req_out_len = 0\<rparr>"
    using r by blast
  have "a_in W ?x" using i(3) unfolding a_in_def f Let_def
    by (auto split: option.splits simp: upt_Suc_append le_Suc_eq)
  moreover have "a_out W hw ?x c k" if o: "a_out W hw x c k" for c k
  proof (cases "c = ?n")
    case True
    have s: "q_seq_in (as_pipe x) \<le> int (w_base W ?n)"
    proof -
      have "q_seq_in (as_pipe x) \<le> q_seq (as_pipe x)" using i(2) by (simp add: a_local_def Let_def)
      also have "q_seq (as_pipe x) \<le> int (w_base W ?n)"
      proof (cases "a_request (as_phase x)")
        case None
        then show ?thesis using i(3) w_base_mono by (auto simp: a_in_def Let_def)
      next
        case (Some t)
        then obtain m where "t < ?n" "m < w_n W t" "q_seq (as_pipe x) = int (w_base W t + m)" using i(3) by (auto simp: a_in_def Let_def)
        then show ?thesis using w_base_mono [of "Suc t" ?n W] by simp
      qed
      finally show ?thesis .
    qed
    then have k: "k = 0" using o True by (simp add: a_out_def)
    have cr: "crc_ok (qr_crc (w_res W ?n))" using r by blast
    note o' = o [unfolded a_out_def]
    have "(\<forall>r<c. as_reqs x r = None \<and> take (length (w_out W hw r)) (drop (w_dst W r) (pmem (as_pipe x) BDest)) = w_out W hw r)" using o' by blast
    then show ?thesis using o' True k cr unfolding a_out_def f by (simp add: q) auto
  next
    case False
    then have "c < ?n" using o by (simp add: a_out_def)
    note o' = o [unfolded a_out_def] this
    have "((as_reqs x)(?n \<mapsto> w_req W ?n)) r = Some (w_req W r) \<and> ((as_res x)(?n := w_res W ?n)) r = w_res W r"
      if "c < r" "r < Suc ?n" for r using o' that by (cases "r = ?n") simp_all
    then have later: "\<forall>r. c < r \<and> r < Suc ?n \<longrightarrow> ((as_reqs x)(?n \<mapsto> w_req W ?n)) r = Some (w_req W r) \<and> ((as_res x)(?n := w_res W ?n)) r = w_res W r"
      by blast
    have other: "((as_reqs x)(?n \<mapsto> w_req W ?n)) r = as_reqs x r" "((as_res x)(?n := w_res W ?n)) r = as_res x r" if "r \<le> c" for r
      using that o'(2) by simp_all
    have cn: "c \<le> Suc ?n" "c < ?n" using o'(2) by simp_all
    have early: "\<forall>r < c. ((as_reqs x)(?n \<mapsto> w_req W ?n)) r = None \<and> take (length (w_out W hw r)) (drop (w_dst W r) (pmem (as_pipe x) BDest)) = w_out W hw r"
      using o' by simp
    show ?thesis unfolding a_out_def f
    proof (intro conjI)
      show "\<forall>r<c. ((as_reqs x)(?n \<mapsto> w_req W ?n)) r = None \<and> take (length (w_out W hw r)) (drop (w_dst W r) (pmem (as_pipe x) BDest)) = w_out W hw r"
        by (rule early)
      show "\<forall>r. c < r \<and> r < Suc ?n \<longrightarrow> ((as_reqs x)(?n \<mapsto> w_req W ?n)) r = Some (w_req W r) \<and> ((as_res x)(?n := w_res W ?n)) r = w_res W r"
        by (rule later)
    qed (insert o'(1) cn, simp_all only: other [OF order_refl] simp_thms)
  qed
  moreover have "a_local W ?x" using i(2) n unfolding a_local_def f Let_def by simp
  moreover have "a_tags W ?x" using i(4) unfolding a_tags_def f .
  moreover have "a_slots W hw ?x" using i(5) unfolding f .
  ultimately show ?thesis using i unfolding a_inv_def f by blast
qed (use inv in \<open>simp add: async_put_def\<close>)

lemma take_inv:
  assumes inv: "a_inv W hw x" and ok: "workload_ok W hw" and ph: "as_phase x = AWait"
  shows "\<exists>x'. async_take x = Some x' \<and> a_inv W hw x'"
proof -
  note i = a_invD [OF inv]
  obtain t where t: "t \<le> as_next x" "q_seq (as_pipe x) = int (w_base W t)" "as_queue x = [t..<as_next x]"
    using i(3) ph by (auto simp: a_in_def Let_def)
  show ?thesis
  proof (cases "t = as_next x")
    case True
    then show ?thesis using inv t by (simp add: async_take_def)
  next
    case False
    then have lt: "t < as_next x" using t(1) by simp
    have q: "as_queue x = t # [Suc t..<as_next x]" using t(3) lt by (simp add: upt_conv_Cons)
    have tc: "t < l_count W" using i(2) lt by (simp add: a_local_def Let_def)
    then have rq: "request_ok W hw t" using ok by (simp add: workload_ok_def)
    have wr: "w_req W t = \<lparr>rq_src = Ptr BSrc (w_src W t), rq_dest = Ptr BDest (w_dst W t), req_in_len = 0, req_out_len = 0\<rparr>"
      using rq by (simp add: request_ok_def)
    obtain c k where o: "a_out W hw x c k" using i(6) by blast
    have le: "int (w_base W c + k) \<le> int (w_base W t)" using o i(2) t(2) by (simp add: a_out_def a_local_def Let_def)
    have req: "as_reqs x t = Some (w_req W t) \<and> qr_src_len (as_res x t) = w_len W t \<and> qr_dest_len (as_res x t) = w_cap W t"
    proof (cases "c < t")
      case True
      then show ?thesis using o lt by (simp add: a_out_def)
    next
      case False
      have "0 < w_n W t" using ok by (simp add: workload_ok_def w_n_pos)
      then have "c = t" using False le w_base_mono [of "Suc t" c W] by (cases "t < c") auto
      then have "c = t" "k = 0" using le by simp_all
      then have r: "as_reqs x t = Some \<lparr>rq_src = Ptr BSrc (w_src W t), rq_dest = Ptr BDest (w_dst W t), req_in_len = 0, req_out_len = 0\<rparr>"
        "qr_src_len (as_res x t) = w_len W t" "qr_dest_len (as_res x t) = w_cap W t" using o lt by (simp_all add: a_out_def)
      have "as_reqs x t = Some (w_req W t)" by (rule trans [OF r(1) arg_cong [where f = Some, OF wr [symmetric]]])
      then show ?thesis using r(2,3) by simp
    qed
    let ?J = "(as_job x)\<lparr>j_src := rq_src (w_req W t), j_src_sz := w_len W t, j_dest_sz := w_cap W t, j_last := True\<rparr>"
    let ?x = "x\<lparr>as_queue := [Suc t..<as_next x], as_job := ?J, as_pipe := (as_pipe x)\<lparr>q_next_dest := rq_dest (w_req W t)\<rparr>,
        as_at := rq_src (w_req W t), as_rem := w_len W t, as_send := min (w_len W t) (j_hw ?J), as_last_j := -1, as_phase := ABetween t\<rparr>"
    have hw: "j_hw (as_job x) = w_hw W" using i(2) by (simp add: a_local_def j_hw_def Let_def)
    have hwp: "0 < w_hw W" using ok by (simp add: workload_ok_def)
    have wp: "rq_src (w_req W t) = Ptr BSrc (w_src W t)" "rq_dest (w_req W t) = Ptr BDest (w_dst W t)" by (simp_all add: wr)
    have "a_in W ?x"
    proof (rule a_inI [where r = t and i = 0])
      show "0 < w_n W t" by (rule w_n_pos [OF hwp])
      show "as_send ?x = min (as_rem ?x) (w_hw W)" using hw by (simp add: j_hw_def)
      show "t < as_next ?x" using lt by simp
      show "q_next_dest (as_pipe ?x) = Ptr BDest (w_dst W t)" by (simp add: wp(2))
      show "q_seq (as_pipe ?x) = int (w_base W t + 0)" by (simp add: t(2))
      show "as_at ?x = Ptr BSrc (w_src W t + 0 * w_hw W)" by (simp add: wp(1))
    qed simp_all
    moreover have "a_local W ?x" using i(2) by (simp add: a_local_def Let_def)
    moreover have "a_tags W ?x" using i(4) by (simp add: a_tags_def)
    moreover have "a_slots W hw ?x"
      using i(5) ph a_slots_same [of "as_pipe ?x" "as_pipe x" comp_idle "a_prep W" "a_fin W hw" None None "as_driver x"] by simp
    moreover have "a_out W hw ?x c' k' = a_out W hw x c' k'" for c' k' by (simp add: a_out_def)
    moreover have "a_mem W (as_pipe ?x)" using i(1) by (simp add: a_mem_def)
    ultimately have "a_inv W hw ?x" using i(6) by (simp add: a_inv_def)
    moreover have "async_take x = Some ?x" using req by (simp add: async_take_def q Let_def)
    ultimately show ?thesis by blast
  qed
qed

section \<open>Submitting\<close>

lemma a_claim_inv:
  assumes inv: "a_inv W hw x" and ph: "as_phase x = ABetween r"
  shows "a_inv W hw (async_claim r x)"
proof -
  let ?j = "getUnusedBuffer (streams (as_pipe x)) (as_last_j x)"
  note i = a_invD [OF inv]
  show ?thesis
  proof (cases "?j = -1")
    case True
    let ?x = "x\<lparr>as_last_j := -1\<rparr>"
    have "a_in W ?x = a_in W x" by (cases "a_request (as_phase x)") (simp_all add: a_in_def Let_def)
    moreover have "a_local W ?x = a_local W x" "a_tags W ?x = a_tags W x" "a_out W hw ?x c k = a_out W hw x c k" for c k
      by (simp_all add: a_local_def a_tags_def a_out_def Let_def)
    ultimately have "a_inv W hw ?x" using i by (simp add: a_inv_def)
    then show ?thesis using True by (simp add: async_claim_def Let_def)
  next
    case False
    let ?x = "x\<lparr>as_last_j := ?j, as_phase := AClaimed r (nat ?j), as_pipe := upd (nat ?j) (\<lambda>s. s\<lparr>src1 := src1 s + 1\<rparr>) (as_pipe x)\<rparr>"
    have u: "nat ?j < length (streams (as_pipe x))" "unused (streams (as_pipe x) ! nat ?j)"
      using getUnusedBuffer_unused [OF refl False] by simp_all
    have "a_slots W hw ?x" using ac.claim_step [OF _ u, of W hw "as_driver x"] i(5) ph by simp
    moreover have "a_in W ?x" using i(3) ph by (simp add: a_in_def Let_def)
    moreover have "a_tags W ?x"
      using i(4) u by (auto simp: a_tags_def upd_def nth_list_update busy_def stage_defs)
    moreover have "a_local W ?x" using i(2) by (simp add: a_local_def Let_def)
    moreover have "a_out W hw ?x c' k' = a_out W hw x c' k'" for c' k' by (simp add: a_out_def)
    moreover have "a_mem W (as_pipe ?x)" using i(1) by (simp add: a_mem_def)
    ultimately have "a_inv W hw ?x" using i(6) by (simp add: a_inv_def)
    then show ?thesis using False by (simp add: async_claim_def Let_def)
  qed
qed

text \<open>Setting up one free buffer with \<open>bs\<close>, whatever the call.\<close>

lemma buffer_set_up:
  assumes c: "home j (streams P ! j)" "clean (streams P ! j)" "held (streams P ! j)"
    and src: "load (pmem P) p n = Some bs" "length bs = n" "n \<le> rem" "p_blk p = BSrc"
    and room: "n \<le> length (pmem P (BPool (2 * j)))"
  obtains s' m' where "compBufferSetup J j p rem n P = Some (upd j (\<lambda>_. s') (P\<lparr>pmem := m'\<rparr>))"
    "held s'" "home j s'" "st_seq s' = q_seq P" "load m' (src_pData s') (src_dataLen s') = Some bs"
    "if src_need_reset s' then p_blk (src_pData s') = BSrc else src_pData s' = orig_src s'"
    "flush_final s' \<longleftrightarrow> \<not> (IS_DEFLATE_RAW (j_fmt J) \<and> (\<not> j_last J \<or> rem > j_hw J))" "dest_dataLen s' = dest_room J n"
    "if dest_need_reset s' then q_seq P = 0 \<and> dest_pData s' = padd (q_next_dest P) (outputHeaderSz (j_fmt J)) else dest_pData s' = orig_dest s'"
    "\<And>b. b \<noteq> BPool (2 * j) \<Longrightarrow> m' b = pmem P b" "length (m' (BPool (2 * j))) = length (pmem P (BPool (2 * j)))"
proof -
  let ?s = "streams P ! j"
  define s1 where "s1 = ?s\<lparr>st_seq := q_seq P, st_res := (st_res ?s)\<lparr>checksum := 0\<rparr>,
       flush_final := (\<not> (IS_DEFLATE_RAW (j_fmt J) \<and> (\<not> j_last J \<or> rem > j_hw J))), src_dataLen := n, dest_dataLen := dest_room J n\<rparr>"
  obtain s2 m' where s2: "(if \<not> pinned J p \<and> need_cont_mem J then do {
                   m \<leftarrow> QZ_MEMCPY (pmem P) (src_pData s1) p n rem; Some (s1\<lparr>src_need_reset := False\<rparr>, m) }
                 else Some (s1\<lparr>src_pData := p, src_need_reset := True\<rparr>, pmem P)) = Some (s2, m')"
    and s2': "load m' (src_pData s2) n = Some bs"
      "if src_need_reset s2 then p_blk (src_pData s2) = BSrc else src_pData s2 = orig_src ?s"
      "s2 = s1\<lparr>src_pData := src_pData s2, src_need_reset := src_need_reset s2\<rparr>"
    and m': "\<And>b. b \<noteq> BPool (2 * j) \<Longrightarrow> m' b = pmem P b" "length (m' (BPool (2 * j))) = length (pmem P (BPool (2 * j)))"
  proof (cases "\<not> pinned J p \<and> need_cont_mem J")
    case True
    let ?b = "pmem P (BPool (2 * j))"
    let ?m = "(pmem P)(BPool (2 * j) := put_bytes ?b 0 bs)"
    have sp: "src_pData s1 = Ptr (BPool (2 * j)) 0" using c by (simp add: s1_def clean_def home_def)
    have "QZ_MEMCPY (pmem P) (src_pData s1) p n rem = Some ?m"
      using src room by (simp add: QZ_MEMCPY_def sp store_bytes_def min_absorb1)
    moreover have "load ?m (src_pData s1) n = Some bs"
      using room src(2) by (simp add: load_Some sp put_bytes_def)
    ultimately show thesis
      using True c room src(2) by (intro that [of "s1\<lparr>src_need_reset := False\<rparr>" ?m]) (auto simp: s1_def clean_def home_def)
  next
    case False
    then show thesis using src by (intro that [of "s1\<lparr>src_pData := p, src_need_reset := True\<rparr>" "pmem P"]) (auto simp: s1_def)
  qed
  define s3 where "s3 = (if st_seq s2 = 0 \<and> (\<not> need_cont_mem J \<or> pinned J (q_next_dest P))
      then s2\<lparr>dest_pData := padd (q_next_dest P) (outputHeaderSz (j_fmt J)), dest_need_reset := True\<rparr> else s2)"
  have f: "st_seq s2 = q_seq P" "flush_final s2 \<longleftrightarrow> \<not> (IS_DEFLATE_RAW (j_fmt J) \<and> (\<not> j_last J \<or> rem > j_hw J))"
    "src_dataLen s2 = n" "dest_dataLen s2 = dest_room J n" "dest_pData s2 = orig_dest ?s" "\<not> dest_need_reset s2"
    "orig_src s2 = orig_src ?s" "orig_dest s2 = orig_dest ?s"
    using c(2) by (subst s2'(3), simp add: s1_def clean_def)+
  have r: "compBufferSetup J j p rem n P = Some (upd j (\<lambda>_. s3) (P\<lparr>pmem := m'\<rparr>))"
    unfolding compBufferSetup_def Let_def s1_def [symmetric] s2 by (simp add: s3_def)
  show thesis
  proof (rule that [OF r])
    show "held s3" using c(3) by (simp add: s3_def) (subst s2'(3), simp add: s1_def stage_defs)+
    show "home j s3" using c(1) by (simp add: s3_def) (subst s2'(3), simp add: s1_def home_def)+
  qed (use f s2'(1,2) m' in \<open>auto simp: s3_def\<close>)
qed

text \<open>The request that is being submitted has not been answered.\<close>

lemma a_res_cap:
  assumes inv: "a_inv W hw x" and q: "q_seq (as_pipe x) = int (w_base W r + k)" and k: "k < w_n W r" and r: "r < as_next x"
  shows "qr_dest_len (as_res x r) = w_cap W r"
proof -
  note v = a_invD [OF inv]
  obtain c i where o: "a_out W hw x c i" using v(6) by blast
  have "q_seq_in (as_pipe x) \<le> q_seq (as_pipe x)" using v(2) by (simp add: a_local_def Let_def)
  then have le: "w_base W c + i \<le> w_base W r + k" using o q by (simp add: a_out_def)
  have i: "i < w_n W c" using o by (simp add: a_out_def)
  have "c \<le> r"
  proof (rule ccontr)
    assume "\<not> c \<le> r"
    then show False using w_base_mono [of "Suc r" c W] le k by simp
  qed
  then show ?thesis using o r by (cases "c = r") (simp_all add: a_out_def)
qed

lemma a_setup_inv:
  assumes inv: "a_inv W hw x" and ok: "workload_ok W hw" and ph: "as_phase x = AClaimed r j"
  shows "\<exists>x'. async_setup r j x = Some x' \<and> a_inv W hw x'"
proof -
  let ?P = "as_pipe x" and ?J = "(as_job x)\<lparr>j_dest_sz := qr_dest_len (as_res x r)\<rparr>"
  let ?s = "streams ?P ! j"
  note i = a_invD [OF inv]
  have j: "j < length (streams ?P)" "held ?s" using slots_invD(4) [OF i(5), of j] ph by auto
  have c: "home j ?s" "clean ?s" using slots_invD(1) [OF i(5) j(1)] j(2) ph by (auto simp: slot_inv_def comp_idle_def)
  obtain k where k: "k < w_n W r" "q_seq ?P = int (w_base W r + k)" "as_at x = Ptr BSrc (w_src W r + k * w_hw W)"
    "as_rem x = w_len W r - k * w_hw W" "as_send x = min (as_rem x) (w_hw W)" "r < as_next x" "j_last ?J" "q_next_dest ?P = Ptr BDest (w_dst W r)"
    using i(3) ph by (auto simp: a_in_def Let_def)
  have cap: "j_dest_sz ?J = w_cap W r" using a_res_cap [OF inv k(2,1,6)] by simp
  have jb: "j_params ?J = j_params (l_job W)" "as_next x \<le> l_count W" using i(2) by (simp_all add: a_local_def Let_def)
  then have jf: "j_fmt ?J = j_fmt (l_job W)" "j_hw ?J = w_hw W" by (simp_all add: j_fmt_def j_hw_def)
  have rc: "r < l_count W" using k(6) jb(2) by simp
  then have rq: "request_ok W hw r" and hwp: "0 < w_hw W" using ok by (simp_all add: workload_ok_def)
  have sr: "w_src W r + w_len W r \<le> length (l_src W)" using rq by (simp add: request_ok_def)
  then have len: "length (w_data W r) = w_len W r" by (simp add: w_data_def)
  have kin: "k * w_hw W \<le> w_len W r" using block_inside [of "w_job W r" k "w_data W r"] k(1) hwp len by simp
  have bl: "length (w_block W r k) = as_send x" by (simp add: length_block k len)
  have src: "load (pmem ?P) (as_at x) (as_send x) = Some (w_block W r k)"
  proof -
    have "pmem ?P BSrc = l_src W" using i(1) by (simp add: a_mem_def)
    then show ?thesis
      using k(3-5) kin sr by (auto simp: load_Some block_def w_data_def drop_take min_def add.commute)
  qed
  have sl: "as_send x \<le> as_rem x" and bs: "p_blk (as_at x) = BSrc" using k(3,5) by simp_all
  have room: "as_send x \<le> length (pmem ?P (BPool (2 * j)))" using i(1) j(1) k(5) by (auto simp: a_mem_def)
  obtain s' m' where r1: "compBufferSetup ?J j (as_at x) (as_rem x) (as_send x) ?P = Some (upd j (\<lambda>_. s') (?P\<lparr>pmem := m'\<rparr>))"
    and s': "held s'" "home j s'" "st_seq s' = q_seq ?P" "load m' (src_pData s') (src_dataLen s') = Some (w_block W r k)"
      "if src_need_reset s' then p_blk (src_pData s') = BSrc else src_pData s' = orig_src s'"
      "flush_final s' \<longleftrightarrow> \<not> (IS_DEFLATE_RAW (j_fmt ?J) \<and> (\<not> j_last ?J \<or> as_rem x > j_hw ?J))" "dest_dataLen s' = dest_room ?J (as_send x)"
      "if dest_need_reset s' then q_seq ?P = 0 \<and> dest_pData s' = padd (q_next_dest ?P) (outputHeaderSz (j_fmt ?J)) else dest_pData s' = orig_dest s'"
    and m': "\<And>b. b \<noteq> BPool (2 * j) \<Longrightarrow> m' b = pmem ?P b" "length (m' (BPool (2 * j))) = length (pmem ?P (BPool (2 * j)))"
    by (rule buffer_set_up [OF c j(2) src bl sl bs room, where J = ?J]) (rule that)
  have dr: "dest_room ?J n = dest_room (w_job W r) n" for n using cap jf by (simp add: dest_room_def)
  have z: "r = 0 \<and> k = 0" if "q_seq ?P = 0"
  proof (cases r)
    case (Suc t)
    then show ?thesis using that k(2) w_n_pos [OF hwp, of t] by simp
  qed (use that k(2) in simp)
  have fl: "flush_final s' = final_flag (w_job W r) (w_data W r) k"
    using s'(6) k(4,7) jf by (simp add: final_flag_def len)
  have ds: "if dest_need_reset s' then r = 0 \<and> k = 0 \<and> dest_pData s' = Ptr BDest (w_dst W 0 + outputHeaderSz (j_fmt (l_job W)))
      else dest_pData s' = orig_dest s'"
    using s'(8) z k(8) jf(1) by (cases "dest_need_reset s'") (auto simp: padd_def)
  have prep: "a_prepared W m' s' r k"
    unfolding a_prepared_def s'(3) k(2) using s'(4,5,7) k(1) rc fl ds by (simp add: dr bl)
  let ?P' = "upd j (\<lambda>_. s') (?P\<lparr>pmem := m'\<rparr>)"
  let ?x = "x\<lparr>as_pipe := ?P', stream_req := (stream_req x)(j := r), as_phase := AReady r j\<rparr>"
  have "a_slots W hw ?x"
  proof -
    have "own_same i (pmem ?P) m'" if "i \<noteq> j" for i
    proof -
      have "2 * i + 1 \<noteq> 2 * j" by presburger
      then show ?thesis using that by (simp add: own_same_def m'(1))
    qed
    moreover have "a_prep W j m' s' (q_seq ?P)" using prep s'(2,3) by (auto simp: a_prep_def)
    ultimately show ?thesis
      using ac.setup_step [of W hw j "as_driver x" ?P ?P' s'] i(5) ph s'(1) m'(1) by (simp add: upd_streams)
  qed
  moreover have "a_tags W ?x"
  proof -
    have "\<not> busy s'" using s'(1) by (auto simp: busy_def)
    then show ?thesis using i(4) j(1) by (auto simp: a_tags_def upd_def nth_list_update)
  qed
  moreover have "a_in W ?x" using i(3) ph by (simp add: a_in_def Let_def)
  moreover have "a_local W ?x" using i(2) by (simp add: a_local_def Let_def)
  moreover have "a_out W hw ?x c' k' = a_out W hw x c' k'" for c' k' by (simp add: a_out_def m'(1))
  moreover have "a_mem W (as_pipe ?x)"
    using i(1) m' unfolding a_mem_def by (auto simp: m'(1)) (metis m' mult_cancel_left blk.inject)+
  ultimately have "a_inv W hw ?x" using i(6) by (simp add: a_inv_def)
  then show ?thesis using r1 by (simp add: async_setup_def)
qed

end
