(* ===== verification/AsyncSteps.thy ===== *)
theory AsyncSteps
  imports AsyncInv
begin

text \<open>
  Submitting a block and the driver's answer keep the invariant of the asynchronous compression.
\<close>

section \<open>Submitting\<close>

lemma a_inD:
  assumes "a_in W x" "a_request (as_phase x) = Some r"
  obtains k where "k < w_n W r" "q_seq (as_pipe x) = int (w_base W r + k)" "as_at x = Ptr BSrc (w_src W r + k * w_hw W)"
    "as_rem x = w_len W r - k * w_hw W" "as_send x = min (as_rem x) (w_hw W)" "r < as_next x" "j_dest_sz (as_job x) = w_cap W r"
    "j_last (as_job x)" "q_next_dest (as_pipe x) = Ptr BDest (w_dst W r)" "as_queue x = [Suc r..<as_next x]"
  using assms by (auto simp: a_in_def Let_def)

lemma a_in_waiting:
  assumes "as_phase x = AWait" "t \<le> as_next x" "q_seq (as_pipe x) = int (w_base W t)" "as_queue x = [t..<as_next x]"
  shows "a_in W x"
  using assms by (auto simp: a_in_def Let_def)

lemma a_job_hw: "a_local W x \<Longrightarrow> j_hw (as_job x) = w_hw W" "a_local W x \<Longrightarrow> j_fmt (as_job x) = j_fmt (l_job W)"
  by (simp_all add: a_local_def Let_def j_hw_def j_fmt_def)

lemma a_request_ok: "workload_ok W hw \<Longrightarrow> a_local W x \<Longrightarrow> r < as_next x \<Longrightarrow> request_ok W hw r"
  by (simp add: workload_ok_def a_local_def Let_def)

lemma w_data_length: "request_ok W hw r \<Longrightarrow> length (w_data W r) = w_len W r"
  by (auto simp: w_data_def request_ok_def min_def)

lemma a_submit_inv:
  assumes inv: "a_inv W hw x" and ok: "workload_ok W hw" and ph: "as_phase x = AReady r j"
  shows "a_inv W hw (async_submit r j True x)"
proof -
  let ?P = "as_pipe x"
  define x' where "x' = async_submit r j True x"
  note i = a_invD [OF inv]
  obtain k where k: "k < w_n W r" "q_seq ?P = int (w_base W r + k)" "as_at x = Ptr BSrc (w_src W r + k * w_hw W)"
    "as_rem x = w_len W r - k * w_hw W" "as_send x = min (as_rem x) (w_hw W)" "r < as_next x" "j_dest_sz (as_job x) = w_cap W r"
    "j_last (as_job x)" "q_next_dest ?P = Ptr BDest (w_dst W r)" "as_queue x = [Suc r..<as_next x]"
    by (rule a_inD [OF i(3)]) (simp add: ph, rule that)
  have hwp: "0 < w_hw W" using ok by (simp add: workload_ok_def)
  have ns: "\<not> q_stop ?P" and qs: "q_seq_in ?P \<le> q_seq ?P" using i(2) by (simp_all add: a_local_def Let_def)
  have len: "length (w_data W r) = w_len W r" by (rule w_data_length [OF a_request_ok [OF ok i(2) k(6)]])
  define R where "R = w_len W r - Suc k * w_hw W"
  have z: "R = 0 \<longleftrightarrow> w_n W r \<le> Suc k"
    using block_last [of "w_job W r" "w_data W r" k] hwp len by (auto simp: R_def algebra_simps)
  have r: "as_rem x - as_send x = R" unfolding k(4,5) R_def by (auto simp: min_def)
  have sm: "as_send x = w_hw W" if "R \<noteq> 0"
  proof -
    have "w_hw W \<le> w_len W r - k * w_hw W" using that by (simp add: R_def)
    then show ?thesis using k(4,5) by simp
  qed
  have f: "streams (as_pipe x') = (streams ?P)[j := (streams ?P ! j)\<lparr>src2 := src2 (streams ?P ! j) + 1\<rparr>]" "pmem (as_pipe x') = pmem ?P"
    "q_seq (as_pipe x') = q_seq ?P + 1" "q_seq_in (as_pipe x') = q_seq_in ?P" "q_submitted (as_pipe x') = q_submitted ?P + 1"
    "q_processed (as_pipe x') = q_processed ?P" "q_stop (as_pipe x') = q_stop ?P" "q_stat (as_pipe x') = q_stat ?P"
    "q_last_submitted (as_pipe x') = q_last_submitted ?P" "q_next_dest (as_pipe x') = q_next_dest ?P"
    by (simp_all add: x'_def async_submit_def Let_def upd_streams)
  have g: "as_driver x' = as_driver x @ [j]" "as_rem x' = R" "as_send x' = min R (w_hw W)" "as_at x' = padd (as_at x) (as_send x)"
    "as_phase x' = (if R = 0 then AWait else ABetween r)" "as_job x' = as_job x" "as_next x' = as_next x" "as_queue x' = as_queue x"
    "stream_req x' = stream_req x" "as_calls x' = as_calls x" "as_reqs x' = as_reqs x" "as_res x' = as_res x"
    "as_ctrl_init x' = as_ctrl_init x" "as_out_done x' = as_out_done x"
    using a_job_hw(1) [OF i(2)] ns by (simp_all add: x'_def async_submit_def Let_def r)
  have rd: "a_slots W hw x = slots_inv comp_idle (a_prep W) (a_fin W hw) None (Some j) (as_driver x) ?P" by (simp add: ph)
  have "a_slots W hw x'"
    using ac.submit_step [OF i(5) [unfolded rd] f(1,3,4,2) qs] g(5) by (auto simp: g(1))
  moreover have "a_tags W x'"
  proof -
    have j: "j < length (streams ?P)" "held (streams ?P ! j)" using slots_invD(4) [OF i(5), of j] ph by auto
    have "a_prep W j (pmem ?P) (streams ?P ! j) (q_seq ?P)"
      using slots_invD(1) [OF i(5) j(1)] j(2) ph by (auto simp: slot_inv_def busy_def)
    then have sq: "st_seq (streams ?P ! j) = int (w_base W r + k)" using k(2) by (simp add: a_prep_def)
    have rq: "stream_req x j = r" using i(4) ph by (simp add: a_tags_def)
    have "\<exists>m < w_n W (stream_req x' i). st_seq (streams (as_pipe x') ! i) = int (w_base W (stream_req x' i) + m)"
      if "i < length (streams (as_pipe x'))" "busy (streams (as_pipe x') ! i)" for i
    proof (cases "i = j")
      case True
      then show ?thesis using sq rq k(1) j(1) by (auto simp: f(1) g(9))
    next
      case False
      then show ?thesis using i(4) that by (simp add: a_tags_def f(1) g(9))
    qed
    then show ?thesis by (simp add: a_tags_def g(5))
  qed
  moreover have "a_in W x'"
  proof (cases "R = 0")
    case True
    then have "Suc k = w_n W r" using z k(1) by simp
    then show ?thesis
      by (intro a_in_waiting [where t = "Suc r"]) (use True k in \<open>simp_all add: f g\<close>)
  next
    case False
    then have "Suc k < w_n W r" using z by simp
    then show ?thesis
      by (intro a_inI [where r = r and i = "Suc k"]) (use False k sm in \<open>simp_all add: f g R_def padd_def\<close>)
  qed
  moreover have "a_local W x'" using i(2) unfolding a_local_def Let_def f g by simp
  moreover have "a_out W hw x' c' k' = a_out W hw x c' k'" for c' k' by (simp add: a_out_def f g)
  moreover have "a_mem W (as_pipe x')" using i(1) by (simp add: a_mem_def f nth_list_update)
  ultimately have "a_inv W hw x'" using i(6) by (simp add: a_inv_def)
  then show ?thesis by (simp add: x'_def)
qed

section \<open>The answers of the driver\<close>

lemma a_respond_inv:
  assumes inv: "a_inv W hw x" and ok: "workload_ok W hw" and j: "j \<in> set (as_driver x)"
  shows "\<exists>P. respond hw j (as_pipe x) = Some P \<and> a_inv W hw (x\<lparr>as_pipe := P, as_driver := remove1 j (as_driver x)\<rparr>)"
proof -
  let ?P = "as_pipe x"
  let ?s = "streams ?P ! j"
  note i = a_invD [OF inv]
  note sd = ac.sent_of_driver [OF i(5) j]
  have js: "j < length (streams ?P)" "sent ?s" using sd by simp_all
  obtain r k where h: "home j ?s" and p: "a_prepared W (pmem ?P) ?s r k" using sd(3) by (auto simp: a_prep_def)
  have rk: "r < l_count W" "k < w_n W r" "st_seq ?s = int (w_base W r + k)" using p by (simp_all add: a_prepared_def)
  then have rq: "request_ok W hw r" using ok by (simp add: workload_ok_def)
  let ?J = "w_job W r" and ?d = "w_data W r"
  let ?o = "out_of ?J hw ?d k" and ?res = "res_of ?J hw ?d k"
  have law: "job_ok ?J ?d" "healthy ?J hw ?d" "w_dst W r + w_cap W r \<le> l_room W" using rq by (simp_all add: request_ok_def)
  note room = out_room [OF law(1,2) rk(2)]
  have a: "answer ?J hw ?d k = (CPA_STATUS_SUCCESS, ?res, ?o)"
    using law(2) rk(2) by (cases "answer ?J hw ?d k") (auto simp: healthy_def res_of_def out_of_def)
  have dz: "r = 0" "k = 0" "dest_pData ?s = Ptr BDest (w_dst W 0 + outputHeaderSz (j_fmt (l_job W)))" if "dest_need_reset ?s"
    using p that by (simp_all add: a_prepared_def)
  have dn: "dest_pData ?s = Ptr (BPool (2 * j + 1)) 0" if "\<not> dest_need_reset ?s"
    using p h that by (simp add: a_prepared_def home_def)
  define b where "b = p_blk (dest_pData ?s)"
  define m' where "m' = (pmem ?P)(b := put_bytes (pmem ?P b) (p_off (dest_pData ?s)) ?o)"
  have dst: "b = (if dest_need_reset ?s then BDest else BPool (2 * j + 1))" by (simp add: b_def dz dn)
  have fit: "p_off (dest_pData ?s) + length ?o \<le> length (pmem ?P b)"
  proof (cases "dest_need_reset ?s")
    case True
    then show ?thesis using dz [OF True] i(1) room law(3) by (simp add: b_def a_mem_def)
  next
    case False
    then have "block_dest_sz (w_hw W) \<le> length (pmem ?P b)" using i(1) js(1) by (simp add: a_mem_def dst)
    then show ?thesis using room dn [OF False] by simp
  qed
  have st: "store_bytes (pmem ?P) (dest_pData ?s) ?o = Some m'" using fit by (simp add: store_bytes_Some m'_def b_def)
  define s' where "s' = dcCallback CPA_STATUS_SUCCESS (?s\<lparr>st_res := ?res\<rparr>)"
  have ar: "hw (w_block W r k) (flush_final ?s) (dest_dataLen ?s) = (CPA_STATUS_SUCCESS, ?res, ?o)"
    using p a by (simp add: answer_def a_prepared_def)
  have ld: "load (pmem ?P) (src_pData ?s) (src_dataLen ?s) = Some (w_block W r k)" using p by (simp add: a_prepared_def)
  have rs: "respond hw j ?P = Some (upd j (\<lambda>s. dcCallback CPA_STATUS_SUCCESS (s\<lparr>st_res := ?res\<rparr>)) (?P\<lparr>pmem := m'\<rparr>))"
    unfolding respond_def Let_def by (simp add: ld ar st)
  let ?x = "x\<lparr>as_pipe := upd j (\<lambda>s. dcCallback CPA_STATUS_SUCCESS (s\<lparr>st_res := ?res\<rparr>)) (?P\<lparr>pmem := m'\<rparr>),
     as_driver := remove1 j (as_driver x)\<rparr>"
  have nb: "m' b' = pmem ?P b'" if "b' \<noteq> b" for b' using that by (simp add: m'_def)
  have lb: "length (m' b') = length (pmem ?P b')" for b' using fit by (simp add: m'_def)
  have p': "a_prepared W m' ?s r k" by (rule a_prepared_mem [OF p h]) (use dst in \<open>auto intro!: nb split: if_splits\<close>)
  have "load m' (dest_pData ?s) (length ?o) = Some ?o"
    using fit put_bytes_same [OF fit] by (simp add: load_Some m'_def b_def)
  then have fin: "a_finished W hw m' s' r k"
    using js(2) p' by (simp add: a_finished_def a_prepared_def s'_def dcCallback_def sent_def)
  have s': "answered s'" "st_seq s' = st_seq ?s" "home j s'" "busy ?s"
    using js(2) h by (simp_all add: s'_def dcCallback_def stage_defs home_def busy_def)
  have zc: "dest_need_reset ?s \<Longrightarrow> st_seq ?s = 0" using rk(3) dz by simp
  have z0: "q_seq_in ?P = 0" if "dest_need_reset ?s" using zc [OF that] sd(4) i(2) by (simp add: a_local_def Let_def)
  have "a_slots W hw ?x"
  proof -
    have fi: "a_fin W hw j m' s' (st_seq s')" using s'(3) fin by (auto simp: a_fin_def)
    have "slots_inv comp_idle (a_prep W) (a_fin W hw) (a_claimed (as_phase x)) (a_readied (as_phase x))
        (remove1 j (as_driver x)) (as_pipe ?x)"
    proof (rule ac.respond_step [OF i(5) j])
      show "streams (as_pipe ?x) = (streams ?P)[j := s']" by (simp add: upd_def s'_def)
      show "own_same i (pmem ?P) (pmem (as_pipe ?x))" if "i \<noteq> j" for i
      proof -
        have "2 * i + 1 \<noteq> 2 * j" "2 * i \<noteq> 2 * j + 1" by presburger+
        then show ?thesis using that nb by (auto simp: own_same_def dst)
      qed
      show "comp_keeps (st_seq (streams ?P ! i)) (pmem ?P) (pmem (as_pipe ?x))" if "st_seq (streams ?P ! i) \<noteq> st_seq s'" for i
        using that nb [of BDest] dst zc s'(2) by (cases "dest_need_reset ?s") (auto simp: comp_keeps_def)
    qed (use fi s'(1,2) in simp_all)
    then show ?thesis by simp
  qed
  moreover have "a_tags W ?x"
  proof -
    have "streams (as_pipe ?x) = (streams ?P)[j := s']" by (simp add: upd_def s'_def)
    then show ?thesis using i(4) s'(2,4) js(1) by (auto simp: a_tags_def nth_list_update)
  qed
  moreover have "a_in W ?x" using i(3) unfolding a_in_def Let_def by (simp cong: option.case_cong)
  moreover have "a_local W ?x" using i(2) by (simp add: a_local_def Let_def)
  moreover have "a_out W hw ?x c i" if o: "a_out W hw x c i" for c i
  proof (cases "dest_need_reset ?s")
    case True
    have ci: "c = 0" "i = 0"
      using z0 [OF True] o w_n_pos [of W 0] w_base_mono [of 1 c W] ok unfolding a_out_def workload_ok_def by (cases c; simp)+
    show ?thesis using o unfolding a_out_def ci by simp
  next
    case False
    then show ?thesis using o nb [of BDest] dst by (simp add: a_out_def)
  qed
  moreover have "a_mem W (as_pipe ?x)"
    using i(1) lb nb [of BSrc] dst by (simp add: a_mem_def split: if_splits)
  ultimately have "a_inv W hw ?x" using i(6) unfolding a_inv_def by blast
  then show ?thesis using rs by blast
qed

end
