(* ===== verification/AsyncOrder.thy ===== *)
theory AsyncOrder
  imports AsyncSteps
begin

text \<open>
  The polling thread of the asynchronous compression, and the theorem: on a healthy instance, whatever the interleaving of the
  callers, the two threads and the driver, the callbacks come in the order of the requests, each once, after its output is in
  its destination, and no request is used after it was freed.
\<close>

section \<open>Writing a block\<close>

lemma frames_mono: "i \<le> k \<Longrightarrow> length (frames J hw d i) \<le> length (frames J hw d k)"
  by (induction k) (auto simp: frames_Suc le_Suc_eq)

lemma sub32_small: "b \<le> a \<Longrightarrow> a < 2 ^ 32 \<Longrightarrow> sub32 a b = a - b"
  unfolding sub32_def by (simp add: unat_of_nat unat_sub_le word_le_nat_alt)

lemma length_le_bytes_8: "length (le_bytes 8 w) = 8"
  by simp

lemma async_crc_some:
  assumes "crc_ok c"
  shows "\<exists>c'. async_crc J resl c = Some c' \<and> crc_ok c'"
proof (cases c)
  case (Some b)
  then have b: "8 \<le> length b" using assms by (simp add: crc_ok_def)
  then obtain v where "get64 b 0 = Some v" by (auto simp: get64_def get_le_def)
  then show ?thesis using Some b by (simp add: async_crc_def crc_ok_def Let_def)
qed (simp add: async_crc_def crc_ok_def)

lemma async_clean_up:
  assumes j: "j < length (streams P)" and fit: "a + length out \<le> length (pmem P BDest)"
    and cap: "l + length out \<le> cap" "cap < 2 ^ 32"
    and ld: "load (pmem P) (dest_pData (streams P ! j)) (length out) = Some out"
    and d: "dest_need_reset (streams P ! j) \<Longrightarrow> dest_pData (streams P ! j) = Ptr BDest a"
  shows "AsyncCompOutValidDestBufferCleanUp j (Ptr BDest a) cap l (length out) P =
    Some ((upd j RestoreDestCpastreamBuffer P)\<lparr>pmem := (pmem P)(BDest := put_bytes (pmem P BDest) a out)\<rparr>)"
proof (cases "dest_need_reset (streams P ! j)")
  case True
  then have "put_bytes (pmem P BDest) a out = pmem P BDest"
    using ld d fit by (intro put_bytes_present) (simp_all add: load_Some)
  then show ?thesis
    using True j by (simp add: AsyncCompOutValidDestBufferCleanUp_def Let_def RestoreDestCpastreamBuffer_def upd_def)
next
  case False
  have u: "upd j RestoreDestCpastreamBuffer P = P"
    using False by (simp add: upd_def RestoreDestCpastreamBuffer_def)
  have mn: "min (sub32 cap l) (length out) = length out" using cap by (simp add: sub32_small)
  have "QZ_MEMCPY (pmem P) (Ptr BDest a) (dest_pData (streams P ! j)) (sub32 cap l) (length out) =
      Some ((pmem P)(BDest := put_bytes (pmem P BDest) a out))"
    using ld fit unfolding QZ_MEMCPY_def mn by (simp add: store_bytes_def)
  then show ?thesis
    using False by (simp add: AsyncCompOutValidDestBufferCleanUp_def Let_def u)
qed

lemma store_at_dest: "a + length xs \<le> length (pmem P BDest) \<Longrightarrow>
    store_at (Ptr BDest a) xs P = Some (P\<lparr>pmem := (pmem P)(BDest := put_bytes (pmem P BDest) a xs)\<rparr>)"
  by (simp add: store_at_def store_bytes_def)

lemma async_frame_out_ok:
  assumes j: "j < length (streams (as_pipe x))" and h: "home j (streams (as_pipe x) ! j)" and fmt: "j_fmt (as_job x) \<noteq> DEFLATE_4B"
    and req: "as_reqs x r = Some \<lparr>rq_src = p, rq_dest = Ptr BDest a, req_in_len = n, req_out_len = l\<rparr>"
    and cap: "l + length bs \<le> qr_dest_len (as_res x r)" "qr_dest_len (as_res x r) < 2 ^ 32"
    and room: "a + length bs \<le> length (pmem (as_pipe x) BDest)"
    and bs: "bs = outputHeaderGen resl (j_fmt (as_job x)) @ out @ outputFooterGen resl (j_fmt (as_job x))"
    and pr: "unat (produced resl) = length out"
    and ld: "load (pmem (as_pipe x)) (dest_pData (streams (as_pipe x) ! j)) (length out) = Some out"
    and d: "if dest_need_reset (streams (as_pipe x) ! j) then dest_pData (streams (as_pipe x) ! j) = Ptr BDest (a + outputHeaderSz (j_fmt (as_job x)))
       else dest_pData (streams (as_pipe x) ! j) = orig_dest (streams (as_pipe x) ! j)"
    and crc: "crc_ok (qr_crc (as_res x r))"
  shows "\<exists>c. crc_ok c \<and> async_frame_out r j resl x = Some (x\<lparr>
     as_pipe := (upd j RestoreDestCpastreamBuffer (as_pipe x))\<lparr>
       pmem := (pmem (as_pipe x))(BDest := put_bytes (pmem (as_pipe x) BDest) a bs)\<rparr>,
     as_reqs := (as_reqs x)(r \<mapsto> \<lparr>rq_src = p, rq_dest = Ptr BDest (a + length bs), req_in_len = n + unat (consumed resl),
       req_out_len = l + length bs\<rparr>),
     as_res := (as_res x)(r := (as_res x r)\<lparr>qr_crc := c\<rparr>)\<rparr>)"
proof -
  let ?P = "as_pipe x" and ?f = "j_fmt (as_job x)"
  let ?s = "streams ?P ! j" and ?b = "pmem ?P BDest"
  let ?H = "outputHeaderGen resl ?f" and ?F = "outputFooterGen resl ?f"
  have len: "length ?H = outputHeaderSz ?f" "length ?F = outputFooterSz ?f"
    by (simp_all add: framing_lengths fmt)
  have bl: "length bs = length ?H + length out + length ?F" using bs by simp
  obtain c where c: "async_crc (as_job x) resl (qr_crc (as_res x r)) = Some c" "crc_ok c" using async_crc_some [OF crc] by blast
  define P1 where "P1 = ?P\<lparr>pmem := (pmem ?P)(BDest := put_bytes ?b a ?H)\<rparr>"
  have w1: "store_at (Ptr BDest a) ?H ?P = Some P1" unfolding P1_def by (rule store_at_dest) (use room bl in simp)
  have ld1: "load (pmem P1) (dest_pData (streams P1 ! j)) (length out) = Some out"
  proof (cases "dest_need_reset ?s")
    case True
    then have "dest_pData ?s = Ptr BDest (a + length ?H)" using d len by simp
    then show ?thesis using ld room bl by (simp add: P1_def load_Some drop_put_bytes)
  next
    case False
    then have "p_blk (dest_pData ?s) \<noteq> BDest" using d h by (simp add: home_def)
    with ld show ?thesis by (simp add: P1_def load_def)
  qed
  define P2 where "P2 = (upd j RestoreDestCpastreamBuffer P1)\<lparr>pmem := (pmem P1)(BDest := put_bytes (pmem P1 BDest) (a + length ?H) out)\<rparr>"
  have cl: "AsyncCompOutValidDestBufferCleanUp j (Ptr BDest (a + length ?H)) (qr_dest_len (as_res x r)) (l + length ?H) (length out) P1 = Some P2"
    unfolding P2_def by (rule async_clean_up [OF _ _ _ cap(2) ld1]) (use j room cap(1) bl d len in \<open>simp_all add: P1_def split: if_splits\<close>)
  have p2: "pmem P2 = (pmem ?P)(BDest := put_bytes ?b a (?H @ out))"
    using room bl put_bytes_twice [of a ?H out ?b] by (simp add: P2_def P1_def)
  define P3 where "P3 = P2\<lparr>pmem := (pmem P2)(BDest := put_bytes (pmem P2 BDest) (a + length ?H + length out) ?F)\<rparr>"
  have w3: "store_at (Ptr BDest (a + length ?H + length out)) ?F P2 = Some P3"
    unfolding P3_def by (rule store_at_dest) (use room bl p2 in simp)
  have "P3 = (upd j RestoreDestCpastreamBuffer ?P)\<lparr>pmem := (pmem ?P)(BDest := put_bytes ?b a bs)\<rparr>"
    using room bl put_bytes_twice [of a "?H @ out" ?F ?b] by (simp add: P3_def p2 bs add.assoc) (simp add: P2_def P1_def upd_def)
  moreover have "async_frame_out r j resl x = Some (x\<lparr>as_pipe := P3,
     as_reqs := (as_reqs x)(r \<mapsto> \<lparr>rq_src = p, rq_dest = Ptr BDest (a + length bs), req_in_len = n + unat (consumed resl),
       req_out_len = l + length bs\<rparr>),
     as_res := (as_res x)(r := (as_res x r)\<lparr>qr_crc := c\<rparr>)\<rparr>)"
    using w1 cl w3 c(1) by (simp add: async_frame_out_def Let_def req padd_def len(1) [symmetric] len(2) [symmetric] pr bl add.assoc)
  ultimately show ?thesis using c(2) by blast
qed

section \<open>Collecting a block\<close>

lemma a_restored_clean:
  assumes "answered s" "a_prepared W m s r k" "home j s"
  shows "unused (restored s)" "comp_idle j (restored s)"
  using assms by (auto simp: restored_def RestoreSrcCpastreamBuffer_def RestoreDestCpastreamBuffer_def stage_defs
      comp_idle_def clean_def home_def a_prepared_def split: if_splits)

lemma a_seq_le:
  assumes inv: "a_inv W hw x"
  shows "q_seq (as_pipe x) \<le> int (w_base W (as_next x))"
proof (cases "a_request (as_phase x)")
  case None
  then show ?thesis using a_invD(3) [OF inv] w_base_mono by (auto simp: a_in_def Let_def)
next
  case (Some t)
  then obtain m where "t < as_next x" "m < w_n W t" "q_seq (as_pipe x) = int (w_base W t + m)"
    using a_invD(3) [OF inv] by (auto simp: a_in_def Let_def)
  then show ?thesis using w_base_mono [of "Suc t" "as_next x" W] by simp
qed

text \<open>Giving the collected buffer back keeps all but what is answered.\<close>

lemma a_after_collect:
  assumes inv: "a_inv W hw x" and j: "j < length (streams (as_pipe x))" "answered (streams (as_pipe x) ! j)"
    and q: "st_seq (streams (as_pipe x) ! j) = q_seq_in (as_pipe x)"
    and P': "streams P' = (streams (as_pipe x))[j := restored (streams (as_pipe x) ! j)]" "q_seq_in P' = q_seq_in (as_pipe x) + 1"
      "q_processed P' = q_processed (as_pipe x) + 1" "q_seq P' = q_seq (as_pipe x)" "q_submitted P' = q_submitted (as_pipe x)"
      "q_stop P' = q_stop (as_pipe x)" "q_stat P' = q_stat (as_pipe x)" "q_last_submitted P' = q_last_submitted (as_pipe x)"
      "q_next_dest P' = q_next_dest (as_pipe x)" "\<And>b. b \<noteq> BDest \<Longrightarrow> pmem P' b = pmem (as_pipe x) b"
      "length (pmem P' BDest) = length (pmem (as_pipe x) BDest)"
    and x': "x' = x\<lparr>as_pipe := P', as_reqs := rs, as_res := re, as_calls := cs, req_prv := v\<rparr>"
    and o: "a_out W hw x' c i"
  shows "a_inv W hw x'"
proof -
  let ?P = "as_pipe x" and ?s = "streams (as_pipe x) ! j"
  note i = a_invD [OF inv]
  note an = ac.answered_of [OF i(5) j]
  obtain r k where f: "home j ?s" "a_prepared W (pmem ?P) ?s r k" using an(1) by (auto simp: a_fin_def a_finished_def)
  note rc = a_restored_clean [OF j(2) f(2,1)]
  have pos: "0 \<le> q_seq_in ?P" using i(2) by (simp add: a_local_def Let_def)
  have lt: "q_seq_in ?P < q_seq ?P" using an(3) q by simp
  have "a_slots W hw x'"
    unfolding x' using ac.release_step [OF i(5) j q P'(1,4,2)] rc P'(10) pos by (simp add: own_same_def comp_keeps_def)
  moreover have "a_tags W x'"
  proof -
    have "\<not> busy (restored ?s)" using rc(1) by (auto simp: busy_def stage_defs)
    then show ?thesis using i(4) j(1) unfolding x' by (auto simp: a_tags_def P'(1) nth_list_update)
  qed
  moreover have "a_local W x'" using i(2) lt unfolding x' by (simp add: a_local_def Let_def P')
  moreover have "a_in W x'" using i(3) unfolding x' a_in_def Let_def by (simp add: P' cong: option.case_cong)
  moreover have "a_mem W (as_pipe x')" using i(1) unfolding x' by (simp add: a_mem_def P')
  ultimately show ?thesis using o by (auto simp: a_inv_def)
qed

lemma region_kept: "p + n \<le> a \<or> a + length xs \<le> p \<Longrightarrow> a + length xs \<le> length b \<Longrightarrow>
    take n (drop p (put_bytes b a xs)) = take n (drop p b)"
  by (auto simp: put_bytes_def drop_take)

lemma region_grows: "take n (drop p b) = xs \<Longrightarrow> n = length xs \<Longrightarrow> p + n + length ys \<le> length b \<Longrightarrow>
    take (n + length ys) (drop p (put_bytes b (p + n) ys)) = xs @ ys"
  by (simp add: put_bytes_def drop_take)

text \<open>What is known of the block that is next, when it has been answered.\<close>

lemma a_next_block:
  assumes inv: "a_inv W hw x" and ok: "workload_ok W hw" and o: "a_out W hw x c i"
    and j: "j < length (streams (as_pipe x))" "answered (streams (as_pipe x) ! j)"
    and q: "st_seq (streams (as_pipe x) ! j) = q_seq_in (as_pipe x)"
  shows "home j (streams (as_pipe x) ! j)" "a_finished W hw (pmem (as_pipe x)) (streams (as_pipe x) ! j) c i"
    "stream_req x j = c" "c < as_next x" "request_ok W hw c" "i < w_n W c"
proof -
  let ?P = "as_pipe x" and ?s = "streams (as_pipe x) ! j"
  note v = a_invD [OF inv]
  note an = ac.answered_of [OF v(5) j]
  obtain r k where f: "home j ?s" "a_finished W hw (pmem ?P) ?s r k" using an(1) by (auto simp: a_fin_def)
  have rk: "k < w_n W r" "st_seq ?s = int (w_base W r + k)" using f(2) by (simp_all add: a_finished_def a_prepared_def)
  have ci: "i < w_n W c" "q_seq_in ?P = int (w_base W c + i)" using o by (simp_all add: a_out_def)
  show "i < w_n W c" by fact
  have e: "w_base W r + k = w_base W c + i" using q rk(2) ci(2) by simp
  note u = w_place_unique [OF e rk(1) ci(1)]
  then have "r = c" "k = i" by blast+
  with f show "home j ?s" "a_finished W hw (pmem ?P) ?s c i" by simp_all
  have "busy ?s" using j(2) by (simp add: busy_def)
  then obtain m where m: "m < w_n W (stream_req x j)" "st_seq ?s = int (w_base W (stream_req x j) + m)"
    using v(4) [unfolded a_tags_def, THEN conjunct1, rule_format, OF j(1)] by blast
  have "w_base W (stream_req x j) + m = w_base W c + i" using q m(2) ci(2) by simp
  from w_place_unique [OF this m(1) ci(1)] show "stream_req x j = c" by simp
  have "int (w_base W c + i) < int (w_base W (as_next x))" using an(3) a_seq_le [OF inv] q ci(2) by linarith
  then show c: "c < as_next x" using w_before [of W c i "as_next x"] by simp
  show "request_ok W hw c" by (rule a_request_ok [OF ok v(2) c])
qed

text \<open>The request after \<open>c\<close> is as its caller put it.\<close>

lemma a_out_done:
  assumes o: "a_out W hw x c i" and ok: "workload_ok W hw" and v: "a_local W x" and c: "c < as_next x"
    and x': "as_calls x' = as_calls x @ [(c, QZ_OK, w_len W c, length (w_out W hw c))]" "as_next x' = as_next x"
      "as_reqs x' = (as_reqs x)(c := None)" "\<And>r. r \<noteq> c \<Longrightarrow> as_res x' r = as_res x r"
    and q: "q_seq_in (as_pipe x') = int (w_base W (Suc c))"
    and mine: "take (length (w_out W hw c)) (drop (w_dst W c) (pmem (as_pipe x') BDest)) = w_out W hw c"
    and kept: "\<And>r. r < c \<Longrightarrow> take (length (w_out W hw r)) (drop (w_dst W r) (pmem (as_pipe x') BDest)) =
      take (length (w_out W hw r)) (drop (w_dst W r) (pmem (as_pipe x) BDest))"
  shows "a_out W hw x' (Suc c) 0"
proof -
  have n: "0 < w_n W (Suc c)" using ok by (simp add: workload_ok_def w_n_pos)
  have old: "as_calls x = map (\<lambda>r. (r, QZ_OK, w_len W r, length (w_out W hw r))) [0..<c]"
    "\<And>r. r < c \<Longrightarrow> as_reqs x r = None \<and> take (length (w_out W hw r)) (drop (w_dst W r) (pmem (as_pipe x) BDest)) = w_out W hw r"
    "\<And>r. c < r \<Longrightarrow> r < as_next x \<Longrightarrow> as_reqs x r = Some (w_req W r) \<and> as_res x r = w_res W r"
    using o by (simp_all add: a_out_def)
  have early: "as_reqs x' r = None \<and> take (length (w_out W hw r)) (drop (w_dst W r) (pmem (as_pipe x') BDest)) = w_out W hw r"
    if "r < Suc c" for r
    using old(2) [of r] kept [of r] mine that by (cases "r = c") (simp_all add: x'(3))
  have later: "as_reqs x' r = Some (w_req W r) \<and> as_res x' r = w_res W r" if "c < r" "r < as_next x" for r
    using old(3) [OF that] that by (simp add: x'(3,4))
  have nxt: "as_reqs x' (Suc c) = Some \<lparr>rq_src = Ptr BSrc (w_src W (Suc c)), rq_dest = Ptr BDest (w_dst W (Suc c)),
      req_in_len = 0, req_out_len = 0\<rparr> \<and> as_res x' (Suc c) = w_res W (Suc c) \<and> crc_ok (qr_crc (w_res W (Suc c)))"
    if "Suc c < as_next x"
  proof -
    have r: "request_ok W hw (Suc c)" by (rule a_request_ok [OF ok v that])
    have "w_req W (Suc c) = \<lparr>rq_src = Ptr BSrc (w_src W (Suc c)), rq_dest = Ptr BDest (w_dst W (Suc c)), req_in_len = 0, req_out_len = 0\<rparr>"
      "crc_ok (qr_crc (w_res W (Suc c)))" using r by (simp_all add: request_ok_def)
    then show ?thesis using later [of "Suc c"] that by simp
  qed
  show ?thesis unfolding a_out_def
  proof (intro conjI allI impI)
    show "as_calls x' = map (\<lambda>r. (r, QZ_OK, w_len W r, length (w_out W hw r))) [0..<Suc c]" by (simp add: x'(1) old(1))
    show "q_seq_in (as_pipe x') = int (w_base W (Suc c) + 0)" using q by simp
  qed (use n c x'(2) early later nxt in auto)
qed

lemma a_out_more:
  assumes o: "a_out W hw x c i" and c: "c < as_next x" and i: "Suc i < w_n W c"
    and x': "as_calls x' = as_calls x" "as_next x' = as_next x" "\<And>r. r \<noteq> c \<Longrightarrow> as_reqs x' r = as_reqs x r"
      "\<And>r. r \<noteq> c \<Longrightarrow> as_res x' r = as_res x r"
    and q: "q_seq_in (as_pipe x') = int (w_base W c + Suc i)"
    and mine: "take (length (w_frames W hw c (Suc i))) (drop (w_dst W c) (pmem (as_pipe x') BDest)) = w_frames W hw c (Suc i)"
    and req: "as_reqs x' c = Some \<lparr>rq_src = Ptr BSrc (w_src W c), rq_dest = Ptr BDest (w_dst W c + length (w_frames W hw c (Suc i))),
          req_in_len = min (Suc i * w_hw W) (w_len W c), req_out_len = length (w_frames W hw c (Suc i))\<rparr>"
    and res: "qr_src_len (as_res x' c) = w_len W c" "qr_dest_len (as_res x' c) = w_cap W c" "crc_ok (qr_crc (as_res x' c))"
    and kept: "\<And>r. r < c \<Longrightarrow> take (length (w_out W hw r)) (drop (w_dst W r) (pmem (as_pipe x') BDest)) =
      take (length (w_out W hw r)) (drop (w_dst W r) (pmem (as_pipe x) BDest))"
  shows "a_out W hw x' c (Suc i)"
proof -
  have old: "as_calls x = map (\<lambda>r. (r, QZ_OK, w_len W r, length (w_out W hw r))) [0..<c]"
    "\<And>r. r < c \<Longrightarrow> as_reqs x r = None \<and> take (length (w_out W hw r)) (drop (w_dst W r) (pmem (as_pipe x) BDest)) = w_out W hw r"
    "\<And>r. c < r \<Longrightarrow> r < as_next x \<Longrightarrow> as_reqs x r = Some (w_req W r) \<and> as_res x r = w_res W r"
    using o by (simp_all add: a_out_def)
  have early: "as_reqs x' r = None \<and> take (length (w_out W hw r)) (drop (w_dst W r) (pmem (as_pipe x') BDest)) = w_out W hw r"
    if "r < c" for r
    using old(2) [OF that] kept [OF that] that by (simp add: x'(3))
  have later: "as_reqs x' r = Some (w_req W r) \<and> as_res x' r = w_res W r" if "c < r" "r < as_next x" for r
    using old(3) [OF that] that by (simp add: x'(3,4))
  show ?thesis unfolding a_out_def
    by (intro conjI allI impI) (use q i c old(1) x'(1,2) early later mine req res in auto)
qed

abbreviation "w_frame W hw c i \<equiv> frame (w_job W c) hw (w_data W c) i"
abbreviation "w_res_of W hw c i \<equiv> res_of (w_job W c) hw (w_data W c) i"
abbreviation "w_out_of W hw c i \<equiv> out_of (w_job W c) hw (w_data W c) i"

text \<open>Where the frame of the next block goes, and that it fits.\<close>

lemma a_block_place:
  assumes inv: "a_inv W hw x" and ok: "workload_ok W hw" and o: "a_out W hw x c i" and c: "c < as_next x" and i: "i < w_n W c"
  shows "length (w_frames W hw c i) + length (w_frame W hw c i) \<le> w_cap W c"
    "w_dst W c + length (w_frames W hw c i) + length (w_frame W hw c i) \<le> length (pmem (as_pipe x) BDest)"
    "w_cap W c < 2 ^ 32" "j_fmt (l_job W) \<noteq> DEFLATE_4B"
    "length (w_frame W hw c i) = outputHeaderSz (j_fmt (l_job W)) + length (w_out_of W hw c i) + outputFooterSz (j_fmt (l_job W))"
    "as_reqs x c = Some \<lparr>rq_src = Ptr BSrc (w_src W c), rq_dest = Ptr BDest (w_dst W c + length (w_frames W hw c i)),
          req_in_len = min (i * w_hw W) (w_len W c), req_out_len = length (w_frames W hw c i)\<rparr>"
    "qr_src_len (as_res x c) = w_len W c" "qr_dest_len (as_res x c) = w_cap W c" "crc_ok (qr_crc (as_res x c))"
    "take (length (w_frames W hw c i)) (drop (w_dst W c) (pmem (as_pipe x) BDest)) = w_frames W hw c i"
proof -
  note v = a_invD [OF inv]
  have rq: "request_ok W hw c" by (rule a_request_ok [OF ok v(2) c])
  then have r: "job_ok (w_job W c) (w_data W c)" "w_dst W c + w_cap W c \<le> l_room W" "length (w_out W hw c) \<le> w_cap W c"
    by (simp_all add: request_ok_def)
  show fmt: "j_fmt (l_job W) \<noteq> DEFLATE_4B" and "w_cap W c < 2 ^ 32" using r(1) by (simp_all add: job_ok_def)
  show fits: "length (w_frames W hw c i) + length (w_frame W hw c i) \<le> w_cap W c"
    using frames_mono [of "Suc i" "w_n W c" "w_job W c" hw "w_data W c"] i r(3) by (simp add: frames_Suc)
  have "length (pmem (as_pipe x) BDest) = l_room W" using v(1) by (simp add: a_mem_def)
  then show "w_dst W c + length (w_frames W hw c i) + length (w_frame W hw c i) \<le> length (pmem (as_pipe x) BDest)" using fits r(2) by simp
  show "length (w_frame W hw c i) = outputHeaderSz (j_fmt (l_job W)) + length (w_out_of W hw c i) + outputFooterSz (j_fmt (l_job W))"
    using frame_length [of "w_job W c" hw "w_data W c" i] fmt by simp
qed (use o c in \<open>simp_all add: a_out_def\<close>)

lemma a_block_answer:
  assumes "a_finished W hw m s c i" "request_ok W hw c" "i < w_n W c"
  shows "st_res s = w_res_of W hw c i" "job_status s = CPA_STATUS_SUCCESS" "res_status (w_res_of W hw c i) = CPA_DC_OK"
    "unat (produced (w_res_of W hw c i)) = length (w_out_of W hw c i)"
    "unat (consumed (w_res_of W hw c i)) = length (w_block W c i)"
    "load m (dest_pData s) (length (w_out_of W hw c i)) = Some (w_out_of W hw c i)"
    "if dest_need_reset s then dest_pData s = Ptr BDest (w_dst W c + length (w_frames W hw c i) + outputHeaderSz (j_fmt (l_job W)))
     else dest_pData s = orig_dest s"
proof -
  have "healthy (w_job W c) hw (w_data W c)" using assms(2) by (simp add: request_ok_def)
  then show "st_res s = w_res_of W hw c i" "job_status s = CPA_STATUS_SUCCESS" "res_status (w_res_of W hw c i) = CPA_DC_OK"
    "unat (produced (w_res_of W hw c i)) = length (w_out_of W hw c i)"
    "unat (consumed (w_res_of W hw c i)) = length (w_block W c i)"
    "load m (dest_pData s) (length (w_out_of W hw c i)) = Some (w_out_of W hw c i)"
    using assms(1,3) by (simp_all add: a_finished_def healthy_def)
  show "if dest_need_reset s then dest_pData s = Ptr BDest (w_dst W c + length (w_frames W hw c i) + outputHeaderSz (j_fmt (l_job W)))
     else dest_pData s = orig_dest s"
    using assms(1) by (auto simp: a_finished_def a_prepared_def split: if_splits)
qed

lemma a_block_framed:
  assumes inv: "a_inv W hw x" and ok: "workload_ok W hw" and o: "a_out W hw x c i" and c: "c < as_next x" and i: "i < w_n W c"
    and j: "j < length (streams (as_pipe x))" "home j (streams (as_pipe x) ! j)"
    and f: "a_finished W hw (pmem (as_pipe x)) (streams (as_pipe x) ! j) c i"
  defines "fr \<equiv> w_frame W hw c i" and "F \<equiv> length (w_frames W hw c i)"
  obtains cr where "crc_ok cr" "async_frame_out c j (w_res_of W hw c i) x = Some (x\<lparr>
      as_pipe := (upd j RestoreDestCpastreamBuffer (as_pipe x))\<lparr>
        pmem := (pmem (as_pipe x))(BDest := put_bytes (pmem (as_pipe x) BDest) (w_dst W c + F) fr)\<rparr>,
      as_reqs := (as_reqs x)(c \<mapsto> \<lparr>rq_src = Ptr BSrc (w_src W c), rq_dest = Ptr BDest (w_dst W c + (F + length fr)),
        req_in_len = min (i * w_hw W) (w_len W c) + length (w_block W c i), req_out_len = F + length fr\<rparr>),
      as_res := (as_res x)(c := (as_res x c)\<lparr>qr_crc := cr\<rparr>)\<rparr>)"
proof -
  have l: "a_local W x" by (rule a_invD(2) [OF inv])
  note fa = a_job_hw(2) [OF l]
  note p = a_block_place [OF inv ok o c i]
  note a = a_block_answer [OF f a_request_ok [OF ok l c] i]
  have "\<exists>cr. crc_ok cr \<and> async_frame_out c j (w_res_of W hw c i) x = Some (x\<lparr>
      as_pipe := (upd j RestoreDestCpastreamBuffer (as_pipe x))\<lparr>
        pmem := (pmem (as_pipe x))(BDest := put_bytes (pmem (as_pipe x) BDest) (w_dst W c + F) fr)\<rparr>,
      as_reqs := (as_reqs x)(c \<mapsto> \<lparr>rq_src = Ptr BSrc (w_src W c), rq_dest = Ptr BDest (w_dst W c + F + length fr),
        req_in_len = min (i * w_hw W) (w_len W c) + unat (consumed (w_res_of W hw c i)), req_out_len = F + length fr\<rparr>),
      as_res := (as_res x)(c := (as_res x c)\<lparr>qr_crc := cr\<rparr>)\<rparr>)"
    by (rule async_frame_out_ok [OF j _ _ _ _ _ _ a(4,6) _ p(9)])
      (use fa p a(7) in \<open>simp_all add: fr_def F_def frame_def split: if_splits\<close>)
  then show thesis using that by (auto simp: a(5) add.assoc)
qed

text \<open>What is in the destinations when the frame has been written.\<close>

lemma a_block_regions:
  assumes inv: "a_inv W hw x" and ok: "workload_ok W hw" and o: "a_out W hw x c i" and c: "c < as_next x" and i: "i < w_n W c"
  defines "b \<equiv> pmem (as_pipe x) BDest"
  defines "b' \<equiv> put_bytes b (w_dst W c + length (w_frames W hw c i)) (w_frame W hw c i)"
  shows "take (length (w_frames W hw c (Suc i))) (drop (w_dst W c) b') = w_frames W hw c (Suc i)" "length b' = length b"
    "\<And>r. r < c \<Longrightarrow> take (length (w_out W hw r)) (drop (w_dst W r) b') = take (length (w_out W hw r)) (drop (w_dst W r) b)"
proof -
  note p = a_block_place [OF inv ok o c i, folded b_def]
  show "take (length (w_frames W hw c (Suc i))) (drop (w_dst W c) b') = w_frames W hw c (Suc i)"
    unfolding b'_def frames_Suc length_append by (rule region_grows [OF p(10) refl]) (use p(2) in simp)
  show "length b' = length b" unfolding b'_def by (rule length_put_bytes) (use p(2) in simp)
  fix r assume rc: "r < c"
  have lc: "c < l_count W" using a_invD(2) [OF inv] c by (simp add: a_local_def Let_def)
  then have "request_ok W hw r" using ok rc by (simp add: workload_ok_def)
  then have "length (w_out W hw r) \<le> w_cap W r" by (simp add: request_ok_def)
  moreover have "w_dst W r + w_cap W r \<le> w_dst W c \<or> w_dst W c + w_cap W c \<le> w_dst W r"
    using ok lc rc unfolding workload_ok_def by (metis less_trans nat_neq_iff)
  ultimately show "take (length (w_out W hw r)) (drop (w_dst W r) b') = take (length (w_out W hw r)) (drop (w_dst W r) b)"
    unfolding b'_def using p(1,2) by (intro region_kept) auto
qed

lemma a_block_ends:
  assumes "request_ok W hw c" "i < w_n W c" "0 < w_hw W"
  shows "min (i * w_hw W) (w_len W c) + length (w_block W c i) = min (Suc i * w_hw W) (w_len W c)"
    "min (Suc i * w_hw W) (w_len W c) = w_len W c \<longleftrightarrow> w_n W c \<le> Suc i"
proof -
  have len: "length (w_data W c) = w_len W c" by (rule w_data_length [OF assms(1)])
  have inside: "i * w_hw W \<le> w_len W c" using block_inside [of "w_job W c" i "w_data W c"] assms(2,3) len by simp
  then show "min (i * w_hw W) (w_len W c) + length (w_block W c i) = min (Suc i * w_hw W) (w_len W c)" by (simp add: length_block len)
  show "min (Suc i * w_hw W) (w_len W c) = w_len W c \<longleftrightarrow> w_n W c \<le> Suc i"
    using block_last [of "w_job W c" "w_data W c" i] assms(3) len inside by auto
qed

text \<open>From the framed block on: the buffer is given back and the request answered if this was its last block.\<close>

lemma a_finish_block_inv:
  assumes inv: "a_inv W hw x" and ok: "workload_ok W hw" and o: "a_out W hw x c i" and c: "c < as_next x" and i: "i < w_n W c"
    and j: "j < length (streams (as_pipe x))" "answered (streams (as_pipe x) ! j)"
    and q: "st_seq (streams (as_pipe x) ! j) = q_seq_in (as_pipe x)" and cr: "crc_ok cr"
  defines "fr \<equiv> w_frame W hw c i" and "F \<equiv> length (w_frames W hw c i)"
  defines "b' \<equiv> put_bytes (pmem (as_pipe x) BDest) (w_dst W c + F) fr"
  defines "x1 \<equiv> x\<lparr>as_pipe := (upd j RestoreDestCpastreamBuffer (as_pipe x))\<lparr>pmem := (pmem (as_pipe x))(BDest := b')\<rparr>,
      as_reqs := (as_reqs x)(c \<mapsto> \<lparr>rq_src = Ptr BSrc (w_src W c), rq_dest = Ptr BDest (w_dst W c + (F + length fr)),
        req_in_len = min (i * w_hw W) (w_len W c) + length (w_block W c i), req_out_len = F + length fr\<rparr>),
      as_res := (as_res x)(c := (as_res x c)\<lparr>qr_crc := cr\<rparr>)\<rparr>"
  shows "\<exists>P' rs re cs v x'. async_finish_block c j x1 = Some x' \<and> a_inv W hw x' \<and>
    x' = x\<lparr>as_pipe := P', as_reqs := rs, as_res := re, as_calls := cs, req_prv := v\<rparr> \<and>
    q_seq_in P' = q_seq_in (as_pipe x) + 1 \<and> q_seq P' = q_seq (as_pipe x) \<and> length (streams P') = length (streams (as_pipe x))"
proof -
  let ?P = "as_pipe x" and ?s = "streams (as_pipe x) ! j"
  have l: "a_local W x" by (rule a_invD(2) [OF inv])
  have hwp: "0 < w_hw W" using ok by (simp add: workload_ok_def)
  note p = a_block_place [OF inv ok o c i, folded fr_def F_def]
  note e = a_block_ends [OF a_request_ok [OF ok l c] i hwp]
  note g = a_block_regions [OF inv ok o c i, folded fr_def F_def, folded b'_def]
  define P' where "P' = (as_pipe x1)\<lparr>streams := (streams ?P)[j := restored ?s], q_processed := q_processed (as_pipe x1) + 1, q_seq_in := q_seq_in ?P + 1\<rparr>"
  have pr: "compOutProcessedRespond j (as_pipe x1) = Some P'"
    unfolding P'_def by (rule processed_releases [OF j(1) q]) (simp_all add: x1_def)
  have f: "streams P' = (streams ?P)[j := restored ?s]" "q_seq_in P' = q_seq_in ?P + 1" "q_processed P' = q_processed ?P + 1"
    "q_seq P' = q_seq ?P" "q_submitted P' = q_submitted ?P" "q_stop P' = q_stop ?P" "q_stat P' = q_stat ?P"
    "q_last_submitted P' = q_last_submitted ?P" "q_next_dest P' = q_next_dest ?P" "pmem P' = (pmem ?P)(BDest := b')"
    by (simp_all add: P'_def x1_def)
  have lp: "length (streams P') = length (streams ?P)" by (simp add: f(1))
  have si: "q_seq_in P' = int (w_base W c + Suc i)" using o f(2) by (simp add: a_out_def)
  note sf = frames_Suc [of "w_job W c" hw "w_data W c" i, folded fr_def]
  show ?thesis
  proof (cases "w_n W c \<le> Suc i")
    case True
    then have n: "w_n W c = Suc i" using i by simp
    define x' where "x' = x\<lparr>as_pipe := P', as_reqs := (as_reqs x)(c := None),
        as_res := (as_res x)(c := (as_res x c)\<lparr>qr_crc := cr, qr_dest_len := length (w_out W hw c), qr_status := QZ_OK\<rparr>),
        as_calls := as_calls x @ [(c, QZ_OK, w_len W c, length (w_out W hw c))], req_prv := None\<rparr>"
    have ol: "F + length fr = length (w_out W hw c)" by (simp add: n sf F_def)
    have "async_finish_block c j x1 = Some x'"
      using pr e True p(7) by (simp add: async_finish_block_def Let_def CallAsyncbackfn_def x1_def x'_def ol)
    moreover have "a_inv W hw x'"
    proof (rule a_after_collect [OF inv j q f(1-9) _ _ x'_def])
      show "a_out W hw x' (Suc c) 0"
        by (rule a_out_done [OF o ok l c]) (use si g n in \<open>simp_all add: x'_def f(10)\<close>)
    qed (use g(2) in \<open>simp_all add: f(10)\<close>)
    ultimately show ?thesis using f(2,4) lp x'_def by blast
  next
    case False
    have nl: "min (i * w_hw W) (w_len W c) + length (w_block W c i) \<noteq> w_len W c" using e False by simp
    define x' where "x' = x1\<lparr>as_pipe := P', req_prv := Some c\<rparr>"
    have x'_eq: "x' = x\<lparr>as_pipe := P', as_reqs := as_reqs x1, as_res := as_res x1, as_calls := as_calls x, req_prv := Some c\<rparr>"
      by (simp add: x'_def x1_def)
    have "async_finish_block c j x1 = Some x'"
      using pr nl p(7) by (simp add: async_finish_block_def Let_def x1_def x'_def)
    moreover have "a_inv W hw x'"
    proof (rule a_after_collect [OF inv j q f(1-9) _ _ x'_eq])
      show "a_out W hw x' c (Suc i)"
        by (rule a_out_more [OF o c]) (use False si g p cr e in \<open>simp_all add: x'_def x1_def f(10) sf F_def\<close>)
    qed (use g(2) in \<open>simp_all add: f(10)\<close>)
    ultimately show ?thesis using f(2,4) lp x'_eq by blast
  qed
qed

lemma a_collect_one_inv:
  assumes inv: "a_inv W hw x" and ok: "workload_ok W hw"
    and j: "j < length (streams (as_pipe x))" "answered (streams (as_pipe x) ! j)"
    and q: "st_seq (streams (as_pipe x) ! j) = q_seq_in (as_pipe x)"
  shows "\<exists>x'. async_collect_one j x = Some (Break, x') \<and> a_inv W hw x' \<and> q_seq_in (as_pipe x') = q_seq_in (as_pipe x) + 1 \<and>
    q_seq (as_pipe x') = q_seq (as_pipe x) \<and> length (streams (as_pipe x')) = length (streams (as_pipe x)) \<and>
    as_phase x' = as_phase x \<and> as_queue x' = as_queue x \<and> as_next x' = as_next x \<and> as_driver x' = as_driver x"
proof -
  let ?P = "as_pipe x" and ?s = "streams (as_pipe x) ! j"
  note v = a_invD [OF inv]
  obtain c i where o: "a_out W hw x c i" using v(6) by blast
  note nb = a_next_block [OF inv ok o j q]
  note p = a_block_place [OF inv ok o nb(4,6)] and a = a_block_answer [OF nb(2,5,6)] and fa = a_job_hw(2) [OF v(2)]
  have st: "q_stat ?P = QZ_OK" using v(2) by (simp add: a_local_def Let_def)
  have chk: "AsyncCompOutCheckDestLen j (w_cap W c) (length (w_frames W hw c i))
      (outputHeaderSz (j_fmt (l_job W)) + length (w_out_of W hw c i) + outputFooterSz (j_fmt (l_job W))) ?P = Some (QZ_OK, ?P)"
    using p(1,3,5) by (simp add: AsyncCompOutCheckDestLen_def sub32_small)
  obtain cr x1 where x1: "crc_ok cr" "async_frame_out c j (w_res_of W hw c i) x = Some x1" and
    fin: "\<exists>P' rs re cs v x'. async_finish_block c j x1 = Some x' \<and> a_inv W hw x' \<and>
      x' = x\<lparr>as_pipe := P', as_reqs := rs, as_res := re, as_calls := cs, req_prv := v\<rparr> \<and>
      q_seq_in P' = q_seq_in ?P + 1 \<and> q_seq P' = q_seq ?P \<and> length (streams P') = length (streams ?P)"
    by (rule a_block_framed [OF inv ok o nb(4,6) j(1) nb(1,2)]) (rule that, assumption+, rule a_finish_block_inv [OF inv ok o nb(4,6) j q])
  have "async_collect_one j x = (do { x \<leftarrow> async_finish_block c j x1; Some (Break, x) })"
    using st a p(6,8) chk x1(2) fa nb(3) by (simp add: async_collect_one_def async_hw_result_def Let_def)
  then show ?thesis using fin by (elim exE conjE) simp
qed

end
