(* ===== verification/AsyncRun.thy ===== *)
theory AsyncRun
  imports AsyncOrder
begin

text \<open>
  The promise of the asynchronous compression: what any run of callers, threads and driver on a healthy instance leaves, and that it
  can always go on until every request is answered.
\<close>

section \<open>All steps\<close>

lemma async_scan_inv:
  assumes inv: "a_inv W hw x" and ok: "workload_ok W hw"
  shows "\<forall>j \<in> set js. j < length (streams (as_pipe x)) \<Longrightarrow> \<exists>x'. async_scan js x = Some x' \<and> a_inv W hw x' \<and>
    q_seq (as_pipe x') = q_seq (as_pipe x) \<and> as_phase x' = as_phase x \<and> as_next x' = as_next x \<and> as_driver x' = as_driver x \<and>
    ((\<exists>j \<in> set js. st_seq (streams (as_pipe x) ! j) = q_seq_in (as_pipe x) \<and> answered (streams (as_pipe x) ! j)) \<longrightarrow>
       q_seq_in (as_pipe x') = q_seq_in (as_pipe x) + 1)"
proof (induction js)
  case Nil
  then show ?case using inv by simp
next
  case (Cons j js)
  show ?case
  proof (cases "st_seq (streams (as_pipe x) ! j) = q_seq_in (as_pipe x) \<and> answered (streams (as_pipe x) ! j)")
    case True
    have j: "j < length (streams (as_pipe x))" using Cons.prems by simp
    obtain x' where "async_collect_one j x = Some (Break, x')" "a_inv W hw x'" "q_seq_in (as_pipe x') = q_seq_in (as_pipe x) + 1"
      "q_seq (as_pipe x') = q_seq (as_pipe x)" "as_phase x' = as_phase x" "as_next x' = as_next x" "as_driver x' = as_driver x"
      using a_collect_one_inv [OF inv ok j True [THEN conjunct2] True [THEN conjunct1]] by (elim exE conjE) (rule that)
    then show ?thesis using True by (simp add: Let_def)
  next
    case False
    have "async_scan (j # js) x = async_scan js x" unfolding async_scan.simps Let_def by (rule if_not_P [OF False])
    moreover have "(\<exists>i \<in> set (j # js). st_seq (streams (as_pipe x) ! i) = q_seq_in (as_pipe x) \<and> answered (streams (as_pipe x) ! i)) =
        (\<exists>i \<in> set js. st_seq (streams (as_pipe x) ! i) = q_seq_in (as_pipe x) \<and> answered (streams (as_pipe x) ! i))"
      using False by auto
    ultimately show ?thesis using Cons.IH Cons.prems by simp
  qed
qed

lemma a_collect_inv:
  assumes inv: "a_inv W hw x" and ok: "workload_ok W hw"
  shows "\<exists>x'. AsyncCompressOut x = Some x' \<and> a_inv W hw x' \<and>
    q_seq (as_pipe x') = q_seq (as_pipe x) \<and> as_phase x' = as_phase x \<and> as_next x' = as_next x \<and> as_driver x' = as_driver x \<and>
    (as_driver x = [] \<and> q_seq_in (as_pipe x) < q_seq (as_pipe x) \<longrightarrow> q_seq_in (as_pipe x') = q_seq_in (as_pipe x) + 1)"
proof -
  let ?ss = "streams (as_pipe x)"
  have l: "\<not> q_last_submitted (as_pipe x)" using a_invD(2) [OF inv] by (simp add: a_local_def Let_def)
  have e: "\<exists>j \<in> set [0..<length ?ss]. st_seq (?ss ! j) = q_seq_in (as_pipe x) \<and> answered (?ss ! j)"
    if "as_driver x = []" "q_seq_in (as_pipe x) < q_seq (as_pipe x)"
    using ac.next_answered [OF a_invD(5) [OF inv, unfolded that(1)] that(2)] by auto
  show ?thesis
    using async_scan_inv [OF inv ok, of "[0..<length ?ss]"] e l by (simp add: AsyncCompressOut_def Let_def) blast
qed

text \<open>A healthy event: the driver takes every request, the polling works and the session is not torn down.\<close>

primrec good_event :: "aevent \<Rightarrow> bool" where
  "good_event (ASubmit ok) = ok"
| "good_event APollFail = False"
| "good_event AClose = False"
| "good_event APut = True" | "good_event ATake = True" | "good_event AClaim = True" | "good_event ASetup = True"
| "good_event ADrained = True" | "good_event (ARespond j) = True" | "good_event ACollect = True" | "good_event AJoin = True"

lemma a_phases:
  assumes "a_inv W hw x"
  shows "\<exists>r j. as_phase x \<in> {AWait, ABetween r, AClaimed r j, AReady r j}"
  using a_invD(3) [OF assms] by (cases "as_phase x") (auto simp: a_in_def Let_def a_request_def)

lemma a_take_next: "as_phase x = AWait \<Longrightarrow> async_take x = Some x' \<Longrightarrow> as_next x' = as_next x"
  by (auto simp: async_take_def Let_def split: list.splits option.splits)

lemma a_setup_next: "async_setup r j x = Some x' \<Longrightarrow> as_next x' = as_next x"
  by (auto simp: async_setup_def split: bind_splits)

lemma async_step_inv:
  assumes inv: "a_inv W hw x" and ok: "workload_ok W hw" and e: "good_event e" and n: "e = APut \<Longrightarrow> as_next x < l_count W"
  shows "\<exists>x'. async_step cap (l_users W) hw e x = Some x' \<and> a_inv W hw x' \<and> as_next x' \<le> as_next x + of_bool (e = APut)"
proof -
  have l: "as_ctrl_init x" "\<not> as_out_done x" using a_invD(2) [OF inv] by (simp_all add: a_local_def Let_def)
  obtain r j where ph: "as_phase x \<in> {AWait, ABetween r, AClaimed r j, AReady r j}" using a_phases [OF inv] by blast
  show ?thesis
  proof (cases e)
    case APut
    then show ?thesis using put_inv [OF inv ok n] l by (simp add: async_step_def async_put_def)
  next
    case ATake
    then show ?thesis using take_inv [OF inv ok] a_take_next inv l by (cases "as_phase x = AWait") (auto simp: async_step_def)
  next
    case AClaim
    then show ?thesis using a_claim_inv [OF inv, of r] inv ph by (auto simp: async_step_def async_claim_def Let_def)
  next
    case ASetup
    show ?thesis
    proof (cases "as_phase x = AClaimed r j")
      case True
      then show ?thesis using a_setup_inv [OF inv ok True] a_setup_next ASetup by (auto simp: async_step_def)
    qed (use ASetup ph inv in \<open>auto simp: async_step_def\<close>)
  next
    case (ASubmit b)
    show ?thesis
    proof (cases "as_phase x = AReady r j")
      case True
      then show ?thesis using a_submit_inv [OF inv ok True] ASubmit e by (simp add: async_step_def async_submit_def Let_def)
    qed (use ASubmit ph inv in \<open>auto simp: async_step_def\<close>)
  next
    case (ARespond j')
    then show ?thesis using a_respond_inv [OF inv ok, of j'] inv by (auto simp: async_step_def)
  next
    case ACollect
    then show ?thesis using a_collect_inv [OF inv ok] l by (auto simp: async_step_def)
  qed (use e ph inv in \<open>auto simp: async_step_def\<close>)
qed

lemma async_run_inv:
  assumes ok: "workload_ok W hw"
  shows "a_inv W hw x \<Longrightarrow> \<forall>e \<in> set es. good_event e \<Longrightarrow> as_next x + count_list es APut \<le> l_count W \<Longrightarrow>
    \<exists>x'. async_run cap (l_users W) hw es x = Some x' \<and> a_inv W hw x'"
proof (induction es arbitrary: x)
  case (Cons e es)
  have n: "e = APut \<Longrightarrow> as_next x < l_count W" using Cons.prems(3) by simp
  obtain x1 where x1: "async_step cap (l_users W) hw e x = Some x1" "a_inv W hw x1" "as_next x1 \<le> as_next x + of_bool (e = APut)"
    using async_step_inv [OF Cons.prems(1) ok _ n, where cap = cap] Cons.prems(2) by auto
  have "as_next x1 + count_list es APut \<le> l_count W" using x1(3) Cons.prems(3) by (simp split: if_splits)
  then show ?case using Cons.IH [OF x1(2)] Cons.prems(2) x1(1) by simp
qed simp

section \<open>The start\<close>

definition fresh_async :: "Workload \<Rightarrow> Pipe \<Rightarrow> bool" where
  "fresh_async W P \<longleftrightarrow> a_mem W P \<and> (\<forall>j < length (streams P). unused (streams P ! j) \<and> comp_idle j (streams P ! j)) \<and>
     q_seq P = 0 \<and> q_seq_in P = 0 \<and> q_submitted P = 0 \<and> q_processed P = 0 \<and> \<not> q_stop P \<and> \<not> q_last_submitted P \<and> q_stat P = QZ_OK"

lemma async_start_inv:
  assumes ok: "workload_ok W hw" and fresh: "fresh_async W P"
  shows "a_inv W hw (async_start (l_job W) P)"
proof -
  let ?x = "async_start (l_job W) P"
  have n: "0 < w_n W 0" using ok by (simp add: workload_ok_def w_n_pos)
  have f: "as_pipe ?x = P" "as_phase ?x = AWait" "as_next ?x = 0" "as_queue ?x = []" "as_driver ?x = []" "as_job ?x = l_job W"
    "as_calls ?x = []" "as_ctrl_init ?x" "\<not> as_out_done ?x" by (simp_all add: async_start_def)
  have "a_in W ?x" by (rule a_in_waiting [where t = 0]) (use f fresh in \<open>simp_all add: fresh_async_def\<close>)
  moreover have "a_local W ?x" using fresh by (simp add: a_local_def f fresh_async_def Let_def)
  moreover have "a_tags W ?x" using fresh by (simp add: a_tags_def f fresh_async_def)
  moreover have "a_slots W hw ?x"
    using fresh by (auto simp: f slots_inv_def slot_inv_def fresh_async_def Let_def)
  moreover have "a_out W hw ?x 0 0" using fresh n by (simp add: a_out_def f fresh_async_def)
  moreover have "a_mem W (as_pipe ?x)" using fresh by (simp add: f fresh_async_def)
  ultimately show ?thesis by (auto simp: a_inv_def)
qed

section \<open>Progress\<close>

definition async_todo :: "Workload \<Rightarrow> Async \<Rightarrow> nat" where
  "async_todo W x = 8 * nat (int (w_base W (as_next x)) - q_seq (as_pipe x)) +
     (case as_phase x of AWait \<Rightarrow> 4 | ABetween _ \<Rightarrow> 3 | AClaimed _ _ \<Rightarrow> 2 | AReady _ _ \<Rightarrow> 1 | _ \<Rightarrow> 0) + 2 * length (as_driver x) +
     nat (q_seq (as_pipe x) - q_seq_in (as_pipe x))"

abbreviation all_answered :: "Workload \<Rightarrow> Async \<Rightarrow> bool" where
  "all_answered W x \<equiv> q_seq_in (as_pipe x) = int (w_base W (as_next x))"

lemma async_submitter_progress:
  assumes inv: "a_inv W hw x" and ok: "workload_ok W hw" and drv: "as_driver x = []" and idle: "q_seq_in (as_pipe x) = q_seq (as_pipe x)"
    and todo: "\<not> all_answered W x"
  shows "\<exists>e x'. good_event e \<and> e \<noteq> APut \<and> async_step cap (l_users W) hw e x = Some x' \<and> as_next x' = as_next x \<and>
    async_todo W x' < async_todo W x"
proof -
  let ?P = "as_pipe x"
  note v = a_invD [OF inv]
  have n: "streams ?P \<noteq> []" using v(1) by (simp add: a_mem_def)
  have lt: "q_seq ?P < int (w_base W (as_next x))" using a_seq_le [OF inv] idle todo by simp
  have l: "as_ctrl_init x" "\<not> q_stop ?P" using v(2) by (simp_all add: a_local_def Let_def)
  have nb: "\<not> busy (streams ?P ! i)" if "i < length (streams ?P)" for i
    using slots_invD(1) [OF v(5) that] idle by (auto simp: slot_inv_def busy_def)
  obtain r j where ph: "as_phase x \<in> {AWait, ABetween r, AClaimed r j, AReady r j}" using a_phases [OF inv] by blast
  then consider "as_phase x = AWait" | "as_phase x = ABetween r" | "as_phase x = AClaimed r j" | "as_phase x = AReady r j" by blast
  then show ?thesis
  proof cases
    case 1
    obtain t where t: "t \<le> as_next x" "q_seq ?P = int (w_base W t)" "as_queue x = [t..<as_next x]"
      using v(3) 1 by (auto simp: a_in_def Let_def)
    then have "t < as_next x" using lt by (cases "t = as_next x") auto
    then have q: "as_queue x = t # [Suc t..<as_next x]" using t(3) by (simp add: upt_conv_Cons)
    obtain x' where x': "async_take x = Some x'" using take_inv [OF inv ok 1] by blast
    then have "as_phase x' = ABetween t" "as_next x' = as_next x" "as_driver x' = as_driver x" "q_seq (as_pipe x') = q_seq ?P"
      "q_seq_in (as_pipe x') = q_seq_in ?P"
      by (auto simp: async_take_def q Let_def split: option.splits)
    then show ?thesis using x' l 1 by (intro exI [of _ ATake]) (simp add: async_step_def async_todo_def)
  next
    case 2
    have "unused (streams ?P ! 0)"
      using slots_invD(1) [OF v(5), of 0] n nb [of 0] 2 by (auto simp: slot_inv_def busy_def)
    then have "getUnusedBuffer (streams ?P) (as_last_j x) \<noteq> -1" using getUnusedBuffer_finds n by blast
    then show ?thesis using 2 by (intro exI [of _ AClaim]) (simp add: async_step_def async_claim_def async_todo_def Let_def)
  next
    case 3
    obtain x' where x': "async_setup r j x = Some x'" using a_setup_inv [OF inv ok 3] by blast
    then obtain P where "compBufferSetup ((as_job x)\<lparr>j_dest_sz := qr_dest_len (as_res x r)\<rparr>) j (as_at x) (as_rem x) (as_send x) ?P = Some P"
      "x' = x\<lparr>as_pipe := P, stream_req := (stream_req x)(j := r), as_phase := AReady r j\<rparr>"
      by (auto simp: async_setup_def split: bind_splits)
    moreover from this(1) have "q_seq P = q_seq ?P" "q_seq_in P = q_seq_in ?P"
      by (auto simp: compBufferSetup_def Let_def split: bind_splits if_splits)
    ultimately show ?thesis using 3 x' by (intro exI [of _ ASetup]) (simp add: async_step_def async_todo_def)
  next
    case 4
    have "nat (int (w_base W (as_next x)) - q_seq ?P) = Suc (nat (int (w_base W (as_next x)) - (q_seq ?P + 1)))" using lt by simp
    then show ?thesis
      using 4 idle l by (intro exI [of _ "ASubmit True"]) (simp add: async_step_def async_submit_def async_todo_def Let_def)
  qed
qed

lemma async_progress:
  assumes inv: "a_inv W hw x" and ok: "workload_ok W hw" and todo: "\<not> all_answered W x"
  shows "\<exists>e x'. good_event e \<and> e \<noteq> APut \<and> async_step cap (l_users W) hw e x = Some x' \<and> as_next x' = as_next x \<and>
    async_todo W x' < async_todo W x"
proof -
  let ?P = "as_pipe x"
  have l: "\<not> as_out_done x" "q_seq_in ?P \<le> q_seq ?P" using a_invD(2) [OF inv] by (simp_all add: a_local_def Let_def)
  consider (drv) j js where "as_driver x = j # js" | (out) "as_driver x = []" "q_seq_in ?P < q_seq ?P"
    | (idle) "as_driver x = []" "q_seq_in ?P = q_seq ?P"
    using l(2) by (cases "as_driver x") fastforce+
  then show ?thesis
  proof cases
    case drv
    obtain P where P: "respond hw j ?P = Some P" using a_respond_inv [OF inv ok, of j] drv by auto
    then have "q_seq P = q_seq ?P" "q_seq_in P = q_seq_in ?P"
      by (auto simp: respond_def Let_def split: bind_splits prod.splits)
    then show ?thesis using P drv by (intro exI [of _ "ARespond j"]) (simp add: async_step_def async_todo_def)
  next
    case out
    then obtain x' where "AsyncCompressOut x = Some x'" "q_seq (as_pipe x') = q_seq ?P" "as_phase x' = as_phase x" "as_next x' = as_next x"
      "as_driver x' = as_driver x" "q_seq_in (as_pipe x') = q_seq_in ?P + 1"
      using a_collect_inv [OF inv ok] by (elim exE conjE) (rule that, simp_all)
    then show ?thesis using out l(1) by (intro exI [of _ ACollect]) (simp add: async_step_def async_todo_def)
  next
    case idle
    then show ?thesis using async_submitter_progress [OF inv ok _ _ todo] by blast
  qed
qed

lemma async_completes:
  assumes ok: "workload_ok W hw"
  shows "a_inv W hw x \<Longrightarrow> \<exists>es x'. (\<forall>e \<in> set es. good_event e \<and> e \<noteq> APut) \<and> async_run cap (l_users W) hw es x = Some x' \<and>
    a_inv W hw x' \<and> as_next x' = as_next x \<and> all_answered W x'"
proof (induction "async_todo W x" arbitrary: x rule: less_induct)
  case less
  show ?case
  proof (cases "all_answered W x")
    case True
    then show ?thesis using less.prems by (intro exI [of _ "[]"]) simp
  next
    case False
    obtain e x1 where e: "good_event e" "e \<noteq> APut" "async_step cap (l_users W) hw e x = Some x1" "as_next x1 = as_next x"
      "async_todo W x1 < async_todo W x"
      using async_progress [OF less.prems ok False, of cap] by (elim exE conjE) (rule that)
    have "a_inv W hw x1" using async_step_inv [OF less.prems ok e(1), of cap] e(2,3) by auto
    from less.hyps [OF e(5) this] obtain es x' where
      "\<forall>e \<in> set es. good_event e \<and> e \<noteq> APut" "async_run cap (l_users W) hw es x1 = Some x'" "a_inv W hw x'" "as_next x' = as_next x1"
      "all_answered W x'"
      by (elim exE conjE) (rule that)
    then show ?thesis using e by (intro exI [of _ "e # es"]) simp
  qed
qed

lemma async_run_append: "async_run cap U hw (es @ es') x = do { x \<leftarrow> async_run cap U hw es x; async_run cap U hw es' x }"
  by (induction es arbitrary: x) (simp_all split: bind_split)

lemma a_all_calls:
  assumes inv: "a_inv W hw x" and ok: "workload_ok W hw" and a: "all_answered W x"
  shows "as_calls x = map (\<lambda>r. (r, QZ_OK, w_len W r, length (w_out W hw r))) [0..<as_next x]"
proof -
  obtain c i where o: "a_out W hw x c i" using a_invD(6) [OF inv] by blast
  then have "w_base W c + i = w_base W (as_next x) + 0" "i < w_n W c" using a by (simp_all add: a_out_def)
  then have "c = as_next x" using w_place_unique ok w_n_pos by (metis workload_ok_def)
  then show ?thesis using o by (simp add: a_out_def)
qed

section \<open>The promise\<close>

text \<open>C7: (async_in_order) Callers put up to \<open>l_count\<close> requests on a healthy instance. Whatever the interleaving of the callers, the consumer, the
  polling thread and the driver, and whatever order the driver answers in, no step uses a freed request or leaves a buffer, and at
  every moment the callbacks made are exactly those of the first \<open>c\<close> requests, in the order of the queue, each once, with QZ_OK,
  the whole source consumed and the length of the output; these requests are freed and their framed blocks are in their destinations.\<close>

theorem async_in_order:
  assumes "workload_ok W hw" "fresh_async W P" "\<forall>e \<in> set es. good_event e" "count_list es APut \<le> l_count W"
  shows "\<exists>x c. async_run cap (l_users W) hw es (async_start (l_job W) P) = Some x \<and> c \<le> as_next x \<and>
    as_calls x = map (\<lambda>r. (r, QZ_OK, w_len W r, length (w_out W hw r))) [0..<c] \<and>
    (\<forall>r < c. as_reqs x r = None \<and> take (length (w_out W hw r)) (drop (w_dst W r) (pmem (as_pipe x) BDest)) = w_out W hw r)"
proof -
  have n: "as_next (async_start (l_job W) P) + count_list es APut \<le> l_count W" using assms(4) by (simp add: async_start_def)
  obtain x where r: "async_run cap (l_users W) hw es (async_start (l_job W) P) = Some x" and i: "a_inv W hw x"
    using async_run_inv [OF assms(1) async_start_inv [OF assms(1,2)] assms(3) n, of cap] by blast
  obtain c k where "a_out W hw x c k" using a_invD(6) [OF i] by blast
  then have "c \<le> as_next x" "as_calls x = map (\<lambda>r. (r, QZ_OK, w_len W r, length (w_out W hw r))) [0..<c]"
    "\<forall>r < c. as_reqs x r = None \<and> take (length (w_out W hw r)) (drop (w_dst W r) (pmem (as_pipe x) BDest)) = w_out W hw r"
    by (simp_all add: a_out_def)
  with r show ?thesis by blast
qed

text \<open>C13: (async_can_finish) From every state such a run can reach, the threads and the driver can go on, without a further request, until every
  request that was put has been answered with QZ_OK: nothing that was interleaved before leaves a request behind.\<close>

theorem async_can_finish:
  assumes "workload_ok W hw" "fresh_async W P" "\<forall>e \<in> set es. good_event e" "count_list es APut \<le> l_count W"
  shows "\<exists>es' x'. (\<forall>e \<in> set es'. good_event e \<and> e \<noteq> APut) \<and>
    async_run cap (l_users W) hw (es @ es') (async_start (l_job W) P) = Some x' \<and>
    as_calls x' = map (\<lambda>r. (r, QZ_OK, w_len W r, length (w_out W hw r))) [0..<as_next x']"
proof -
  have n: "as_next (async_start (l_job W) P) + count_list es APut \<le> l_count W" using assms(4) by (simp add: async_start_def)
  obtain x where r: "async_run cap (l_users W) hw es (async_start (l_job W) P) = Some x" and i: "a_inv W hw x"
    using async_run_inv [OF assms(1) async_start_inv [OF assms(1,2)] assms(3) n, of cap] by blast
  obtain es' x' where c: "\<forall>e \<in> set es'. good_event e \<and> e \<noteq> APut" "async_run cap (l_users W) hw es' x = Some x'" "a_inv W hw x'"
    "all_answered W x'"
    using async_completes [OF assms(1) i, of cap] by (elim exE conjE) (rule that)
  from a_all_calls [OF c(3) assms(1) c(4)] show ?thesis using r c(1,2) by (intro exI [of _ es'] exI [of _ x']) (simp add: async_run_append)
qed

text \<open>Two requests of six bytes each, in blocks of four, on two buffers, with a driver that stores.\<close>

abbreviation twelve_bytes :: bytes where "twelve_bytes \<equiv> [1, 2, 3, 4, 5, 6, 7, 8, 9, 10, 11, 12]"

definition two_requests :: Workload where
  "two_requests = \<lparr>l_job = nine_job, l_users = (\<lambda>k. (\<lparr>rq_src = Ptr BSrc (6 * k), rq_dest = Ptr BDest (50 * k), req_in_len = 0, req_out_len = 0\<rparr>,
       \<lparr>qr_status = 0, qr_src_len = 6, qr_dest_len = 50, qr_crc = Some (replicate 8 0)\<rparr>)),
     l_count = 2, l_src = twelve_bytes, l_room = 100\<rparr>"

lemma two_requests_each: "r < 2 \<Longrightarrow> request_ok two_requests store_hw r"
proof -
  assume r: "r < 2"
  have f: "w_req two_requests r = \<lparr>rq_src = Ptr BSrc (6 * r), rq_dest = Ptr BDest (50 * r), req_in_len = 0, req_out_len = 0\<rparr>"
    "w_src two_requests r = 6 * r" "w_dst two_requests r = 50 * r" "w_len two_requests r = 6" "w_cap two_requests r = 50"
    "length (l_src two_requests) = 12" "l_room two_requests = 100" "crc_ok (qr_crc (w_res two_requests r))"
    by (simp_all add: two_requests_def w_src_def w_dst_def crc_ok_def)
  have len: "length (w_data two_requests r) = 6" using r by (simp add: w_data_def f)
  have job: "job_ok (w_job two_requests r) (w_data two_requests r)"
    using len by (simp add: job_ok_def f(4,5)) (simp add: w_job_def two_requests_def nine_job_def j_hw_def j_fmt_def fmt_size_defs)
  have "r = 0 \<or> r = 1" using r by auto
  then have out: "length (w_out two_requests store_hw r) \<le> 50" by (elim disjE) (simp_all, code_simp+)
  show ?thesis using job store_hw_healthy [OF job] out r by (simp add: request_ok_def f)
qed

lemma two_requests_ok: "workload_ok two_requests store_hw"
proof -
  have "l_count two_requests = 2" "w_hw two_requests = 4" "w_dst two_requests r = 50 * r" "w_cap two_requests r = 50" for r
    by (simp_all add: two_requests_def nine_job_def j_hw_def w_dst_def)
  then show ?thesis using two_requests_each by (auto simp: workload_ok_def)
qed

lemma two_requests_fresh: "fresh_async two_requests (two_buffers twelve_bytes 100)"
  by (simp add: fresh_async_def a_mem_def two_buffers_def free_stream_def two_requests_def nine_job_def j_hw_def block_dest_sz_eq
      unused_def comp_idle_def clean_def home_def All_less_Suc2)

abbreviation two_request_events :: "aevent list" where
  "two_request_events \<equiv> [APut, ATake, AClaim, ASetup, APut, ASubmit True, AClaim, ASetup, ASubmit True, ATake, ARespond 1, ACollect,
     ARespond 0, ACollect, ACollect, AClaim, ASetup, ASubmit True]"

theorem async_in_order_witness:
  "\<exists>x c. async_run 8 (l_users two_requests) store_hw two_request_events (async_start nine_job (two_buffers twelve_bytes 100)) = Some x \<and>
    as_calls x = map (\<lambda>r. (r, QZ_OK, w_len two_requests r, length (w_out two_requests store_hw r))) [0..<c]"
proof -
  have e: "\<forall>e \<in> set two_request_events. good_event e" "count_list two_request_events APut \<le> l_count two_requests"
    by (simp_all add: two_requests_def)
  have "l_job two_requests = nine_job" by (simp add: two_requests_def)
  with async_in_order [OF two_requests_ok two_requests_fresh e, of 8] show ?thesis by auto
qed

theorem async_can_finish_witness:
  "\<exists>es' x'. async_run 8 (l_users two_requests) store_hw (two_request_events @ es') (async_start nine_job (two_buffers twelve_bytes 100)) = Some x' \<and>
    as_calls x' = map (\<lambda>r. (r, QZ_OK, w_len two_requests r, length (w_out two_requests store_hw r))) [0..<as_next x']"
proof -
  have e: "\<forall>e \<in> set two_request_events. good_event e" "count_list two_request_events APut \<le> l_count two_requests"
    by (simp_all add: two_requests_def)
  have j: "l_job two_requests = nine_job" by (simp add: two_requests_def)
  show ?thesis
    using async_can_finish [OF two_requests_ok two_requests_fresh e, of 8] unfolding j by (elim exE conjE) (intro exI conjI)
qed

end
