(* ===== verification/AsyncFaults.thy ===== *)
theory AsyncFaults
  imports AsyncRun
begin

text \<open>
  Where the asynchronous compression does not answer its callers, or uses a request after it was freed: a session used for a
  synchronous call before, a block the driver refuses, a destination that is too small, and a block that fails in the
  hardware. The last three are runs of two callers on a small instance.
\<close>

section \<open>A session used before\<close>

text \<open>A synchronous call leaves \<^verbatim>\<open>last_submitted\<close> set, and a polling thread that finds it set with nothing to wait for ends. What the
  callers heard from then on, after \<open>c\<close>: failures, and only of requests with a block the driver refused.\<close>

definition silent :: "(nat \<times> status \<times> nat \<times> nat) list \<Rightarrow> bool \<Rightarrow> Async \<Rightarrow> bool" where
  "silent c refused x \<longleftrightarrow> as_out_done x \<and> (\<exists>l. as_calls x = c @ l \<and> (\<forall>a \<in> set l. fst (snd a) = QZ_FAIL) \<and> (l \<noteq> [] \<longrightarrow> refused)) \<and>
     ((\<exists>r. as_phase x = ADrain r) \<longrightarrow> refused)"

lemma silent_frame: "silent c b x \<Longrightarrow> as_out_done x' = as_out_done x \<Longrightarrow> as_calls x' = as_calls x \<Longrightarrow> \<forall>r. as_phase x' = ADrain r \<longrightarrow> b \<Longrightarrow> silent c b x'"
  by (simp add: silent_def)

lemma take_silent: "silent c b x \<Longrightarrow> async_take x = Some x' \<Longrightarrow> silent c b x'"
  by (auto simp: async_take_def Let_def silent_def split: list.splits option.splits)

lemma setup_silent: "silent c b x \<Longrightarrow> async_setup r j x = Some x' \<Longrightarrow> silent c b x'"
  by (auto simp: async_setup_def elim: silent_frame split: bind_splits)

lemma drain_silent: "silent c b x \<Longrightarrow> as_phase x = ADrain r \<Longrightarrow> async_drain r x = Some x' \<Longrightarrow> silent c b x'"
proof -
  assume s: "silent c b x" "as_phase x = ADrain r" "async_drain r x = Some x'"
  then have b: b by (auto simp: silent_def)
  from s(3) consider "x' = x" | "as_out_done x' = as_out_done x" "as_phase x' = AWait" "\<exists>n m. as_calls x' = as_calls x @ [(r, QZ_FAIL, n, m)]"
    by (auto simp: async_drain_def Let_def split: if_splits)
  then show ?thesis
  proof cases
    case 2
    then show ?thesis using s(1) b by (auto simp: silent_def)
  qed (use s(1) in simp)
qed

lemma silent_step:
  assumes s: "silent c b x" and b: "e = ASubmit False \<Longrightarrow> b" and e: "async_step cap U hw e x = Some x'"
  shows "silent c b x'"
proof (cases e)
  case ATake
  then show ?thesis using e take_silent [OF s] s by (auto simp: async_step_def elim: silent_frame split: if_splits)
next
  case ASetup
  then show ?thesis using e setup_silent [OF s] s by (auto simp: async_step_def split: aphase.splits)
next
  case ADrained
  then show ?thesis using e drain_silent [OF s] s by (auto simp: async_step_def split: aphase.splits)
next
  case (ASubmit ok)
  then show ?thesis using e s b by (auto simp: async_step_def async_submit_def Let_def elim: silent_frame split: aphase.splits if_splits)
next
  case AClaim
  then show ?thesis using e s by (auto simp: async_step_def async_claim_def Let_def elim: silent_frame split: aphase.splits if_splits)
next
  case ACollect
  then show ?thesis using e s by (simp add: async_step_def silent_def)
next
  case APollFail
  then show ?thesis using e s by (simp add: async_step_def silent_def)
qed (use e s in \<open>auto simp: async_step_def async_put_def silent_def split: if_splits bind_splits\<close>)

lemma silent_run: "silent c b x \<Longrightarrow> (ASubmit False \<in> set es \<longrightarrow> b) \<Longrightarrow> async_run cap U hw es x = Some x' \<Longrightarrow> silent c b x'"
proof (induction es arbitrary: x)
  case (Cons e es)
  then obtain x1 where x1: "async_step cap U hw e x = Some x1" "async_run cap U hw es x1 = Some x'" by (auto split: bind_splits)
  have "silent c b x1" by (rule silent_step [OF Cons.prems(1) _ x1(1)]) (use Cons.prems(2) in simp)
  then show ?case using Cons.IH Cons.prems(2) x1(2) by simp
qed simp

text \<open>C16: (stale_session_never_answers) When the polling thread looks at a session that has \<^verbatim>\<open>last_submitted\<close> set, as a synchronous call leaves it, at a moment when
  all submitted blocks are processed, it ends, and from then on no asynchronous compression is ever carried to its callback, whatever is put, submitted and
  answered by the driver: the only callbacks still made are failures, of requests with a block that the driver refuses, and none at all
  as long as it refuses none. (A decompression request would reset the session; its loop is not modelled.)\<close>

theorem stale_session_never_answers:
  assumes "q_last_submitted (as_pipe y)" "q_submitted (as_pipe y) \<le> q_processed (as_pipe y)"
    and "async_run cap U hw (ACollect # es) y = Some x"
  shows "\<exists>l. as_calls x = as_calls y @ l \<and> (\<forall>(r, st, n, m) \<in> set l. st = QZ_FAIL) \<and>
    (ASubmit False \<notin> set es \<and> (\<forall>r. as_phase y \<noteq> ADrain r) \<longrightarrow> l = [])"
proof -
  let ?b = "ASubmit False \<in> set es \<or> (\<exists>r. as_phase y = ADrain r)"
  obtain y1 where y1: "async_step cap U hw ACollect y = Some y1" "async_run cap U hw es y1 = Some x" using assms(3) by (auto split: bind_splits)
  have "silent (as_calls y) ?b y1"
    using y1(1) assms(1,2) by (auto simp: async_step_def AsyncCompressOut_def silent_def Let_def split: if_splits)
  from silent_run [OF this _ y1(2)] show ?thesis by (fastforce simp: silent_def)
qed

definition small_pipe :: Pipe where
  "small_pipe = \<lparr>streams = [free_stream 0, free_stream 1], heartbeat = True, q_seq = 0, q_seq_in = 0, q_submitted = 0,
     q_processed = 0, q_last_submitted = False, q_last_processed = False, q_stop = False, q_single = False,
     q_in_len = 0, q_out_len = 0, q_next_dest = Ptr BDest 0, q_crc = None, q_stat = QZ_OK, end_of_stream = None,
     pmem = (\<lambda>b. case b of BSrc \<Rightarrow> [1, 2, 3, 4, 5, 6, 7, 8] | BDest \<Rightarrow> replicate 80 0 | BPool k \<Rightarrow> replicate 6 0)\<rparr>"

abbreviation small_start :: "bool \<Rightarrow> Async" where
  "small_start l \<equiv> async_start nine_job (small_pipe\<lparr>q_last_submitted := l\<rparr>)"

text \<open>Requests of \<open>n\<close> bytes with \<open>m\<close> bytes of destination.\<close>

definition users :: "nat \<Rightarrow> nat \<Rightarrow> nat \<Rightarrow> QzAsyncReq \<times> QzResult" where
  "users n m k = (\<lparr>rq_src = Ptr BSrc (4 * k), rq_dest = Ptr BDest (m * k), req_in_len = 0, req_out_len = 0\<rparr>,
     \<lparr>qr_status = 0, qr_src_len = n, qr_dest_len = m, qr_crc = None\<rparr>)"

text \<open>A driver that fails a block whose first byte is \<open>b\<close>.\<close>

definition fail_hw :: "u8 \<Rightarrow> hardware" where
  "fail_hw b x fin cap = (if x ! 0 = b then (-1, \<lparr>res_status = 0, produced = 0, consumed = 0, checksum = 0, endOfLastBlock = fin\<rparr>, [])
     else (CPA_STATUS_SUCCESS, \<lparr>res_status = CPA_DC_OK, produced = of_nat (length x),
     consumed = of_nat (length x), checksum = 0, endOfLastBlock = fin\<rparr>, x))"

abbreviation one_block :: "aevent list" where
  "one_block \<equiv> [AClaim, ASetup, ASubmit True]"

lemma stale_run: "async_run 8 (users 4 40) (fail_hw 0) ([ACollect, APut, ATake] @ one_block @ [ARespond 0, ACollect]) (small_start True) \<noteq> None"
  by code_simp

theorem stale_session_never_answers_witness:
  "\<exists>x. async_run 8 (users 4 40) (fail_hw 0) ([ACollect, APut, ATake] @ one_block @ [ARespond 0, ACollect]) (small_start True) = Some x \<and> as_calls x = []"
proof -
  obtain x where x: "async_run 8 (users 4 40) (fail_hw 0) (ACollect # ([APut, ATake] @ one_block @ [ARespond 0, ACollect])) (small_start True) = Some x"
    using stale_run by auto
  have "\<exists>l. as_calls x = as_calls (small_start True) @ l \<and> (\<forall>(r, st, n, m) \<in> set l. st = QZ_FAIL) \<and>
      (ASubmit False \<notin> set ([APut, ATake] @ one_block @ [ARespond 0, ACollect]) \<and> (\<forall>r. as_phase (small_start True) \<noteq> ADrain r) \<longrightarrow> l = [])"
    by (rule stale_session_never_answers [OF _ _ x]) (simp_all add: async_start_def small_pipe_def)
  with x show ?thesis by (auto simp: async_start_def)
qed

section \<open>Errors\<close>

text \<open>(refused_block_uses_freed_request) A request of two blocks whose second block the driver refuses after the first was taken: the first answer is skipped
  as that of a failed request, whose callback is called and which is freed; the consumer, which waited for this, then reports the
  failure through the freed request.\<close>

theorem refused_block_uses_freed_request:
  "(\<exists>x. async_run 8 (users 8 40) (fail_hw 0) ([APut, ATake] @ one_block @ [AClaim, ASetup, ASubmit False, ARespond 0, ACollect])
      (small_start False) = Some x \<and> as_calls x = [(0, QZ_FAIL, 0, 0)] \<and> as_phase x = ADrain 0 \<and> as_reqs x 0 = None) \<and>
   async_run 8 (users 8 40) (fail_hw 0) ([APut, ATake] @ one_block @ [AClaim, ASetup, ASubmit False, ARespond 0, ACollect, ADrained])
      (small_start False) = None"
proof
  have "case async_run 8 (users 8 40) (fail_hw 0) ([APut, ATake] @ one_block @ [AClaim, ASetup, ASubmit False, ARespond 0, ACollect])
      (small_start False) of None \<Rightarrow> False | Some x \<Rightarrow> as_calls x = [(0, QZ_FAIL, 0, 0)] \<and> as_phase x = ADrain 0 \<and> as_reqs x 0 = None"
    by code_simp
  then show "\<exists>x. async_run 8 (users 8 40) (fail_hw 0) ([APut, ATake] @ one_block @ [AClaim, ASetup, ASubmit False, ARespond 0, ACollect])
      (small_start False) = Some x \<and> as_calls x = [(0, QZ_FAIL, 0, 0)] \<and> as_phase x = ADrain 0 \<and> as_reqs x 0 = None"
    by (auto split: option.splits)
  show "async_run 8 (users 8 40) (fail_hw 0) ([APut, ATake] @ one_block @ [AClaim, ASetup, ASubmit False, ARespond 0, ACollect, ADrained])
      (small_start False) = None"
    by code_simp
qed

text \<open>A destination that is too small for the first block, collected before the second was submitted: the request is freed and the
  second answer uses it.\<close>

definition raw_job :: Job where
  "raw_job = nine_job\<lparr>j_params := (j_params nine_job)\<lparr>i_data_fmt := DEFLATE_RAW\<rparr>\<rparr>"

lemma small_destination_uses_freed_request:
  "async_run 8 (users 8 2) (fail_hw 0) ([APut, ATake] @ one_block @ [ARespond 0, ACollect] @ one_block @ [ARespond 0, ARespond 1, ACollect])
      (async_start raw_job small_pipe) = None"
  by code_simp

text \<open>A request whose only block fails in the hardware while the next one has been submitted: only the next one is answered.\<close>

lemma failed_request_not_answered:
  "map_option (\<lambda>x. (as_calls x, as_reqs x 0 = None, q_processed (as_pipe x) = q_submitted (as_pipe x)))
     (async_run 8 (users 4 40) (fail_hw 1) ([APut, APut, ATake] @ one_block @ [ATake] @ one_block @ [ARespond 1, ACollect, ARespond 0, ACollect, ACollect])
       (small_start False)) = Some ([(1, QZ_FAIL, 0, 0)], False, True)"
  by code_simp

text \<open>The checksum is eight bytes wide, the object its pointer points to four.\<close>

lemma crc_object_too_small: "IS_DEFLATE (j_fmt J) \<Longrightarrow> length b = 4 \<Longrightarrow> async_crc J resl (Some b) = None"
  by (simp add: async_crc_def get64_def get_le_def)

end
