(* ===== verification/Hardware.thy ===== *)
theory Hardware
  imports Types "HOL-Library.Multiset"
begin

text \<open>
  The devices found at start (\<^verbatim>\<open>setInstance\<close>, \<^verbatim>\<open>getInstance\<close>, \<^verbatim>\<open>clearDevices\<close> and the shuffle of \<^verbatim>\<open>qzInit\<close>,
  \<^verbatim>\<open>src/qatzip.c\<close>): per device a queue of instances, from which the instances are dealt round robin.
\<close>

abbreviation (input) QAT_MAX_DEVICES :: nat where "QAT_MAX_DEVICES \<equiv> 1024"

text \<open>The list hanging off each device, the number of devices with instances and the largest of them.\<close>

record 'i QzHardware =
  devices :: "nat \<Rightarrow> 'i list"
  dev_num :: nat
  max_dev_id :: nat

definition no_hardware :: "'i QzHardware" where
  "no_hardware = \<lparr>devices = \<lambda>_. [], dev_num = 0, max_dev_id = 0\<rparr>"

text \<open>A new instance is a node with the rest of a list behind it, which has to be empty.\<close>

definition setInstance :: "nat \<Rightarrow> ('i \<times> 'i list) option \<Rightarrow> 'i QzHardware option \<Rightarrow> status \<times> 'i QzHardware option" where
  "setInstance dev_id new hw =
    (case (new, hw) of
      (Some (x, nxt), Some H) \<Rightarrow>
        if dev_id \<ge> QAT_MAX_DEVICES \<or> nxt \<noteq> [] then (QZ_PARAMS, hw)
        else (let H = (if devices H dev_id = [] then H\<lparr>dev_num := dev_num H + 1\<rparr> else H);
                  H = H\<lparr>devices := (devices H)(dev_id := devices H dev_id @ [x])\<rparr>;
                  H = (if dev_id > max_dev_id H then H\<lparr>max_dev_id := dev_id\<rparr> else H) in (QZ_OK, Some H))
    | _ \<Rightarrow> (QZ_PARAMS, hw))"

text \<open>The search downwards for a device with instances.\<close>

primrec last_used :: "(nat \<Rightarrow> 'i list) \<Rightarrow> nat \<Rightarrow> nat option" where
  "last_used d 0 = None"
| "last_used d (Suc i) = (if d i \<noteq> [] then Some i else last_used d i)"

definition getInstance :: "nat \<Rightarrow> 'i QzHardware option \<Rightarrow> 'i option \<times> 'i QzHardware option" where
  "getInstance dev_id hw =
    (case hw of None \<Rightarrow> (None, hw)
     | Some H \<Rightarrow>
       if dev_id \<ge> QAT_MAX_DEVICES then (None, hw)
       else (case devices H dev_id of [] \<Rightarrow> (None, hw)
         | x # xs \<Rightarrow>
           (let H = H\<lparr>devices := (devices H)(dev_id := xs)\<rparr> in
            if xs = [] \<and> dev_num H > 0 then
              (let H = H\<lparr>dev_num := dev_num H - 1\<rparr> in
               if max_dev_id H > 0 \<and> dev_id = max_dev_id H then
                 (case last_used (devices H) (max_dev_id H) of Some m \<Rightarrow> (Some x, Some (H\<lparr>max_dev_id := m\<rparr>)) | None \<Rightarrow> (Some x, Some H))
               else (Some x, Some H))
            else (Some x, Some H))))"

lemma getInstance_shorter:
  "getInstance i (Some H) = (Some x, hw) \<Longrightarrow> \<exists>H'. hw = Some H' \<and> devices H = (devices H')(i := x # devices H' i)"
  by (auto simp: getInstance_def Let_def fun_eq_iff split: list.splits if_splits option.splits)

text \<open>Freeing a device's list, and all of them: the instances freed and what is left.\<close>

function drain :: "nat \<Rightarrow> 'i QzHardware \<Rightarrow> 'i list \<times> 'i QzHardware" where
  "drain i H = (case getInstance i (Some H) of
     (Some x, Some H') \<Rightarrow> (case drain i H' of (xs, H'') \<Rightarrow> (x # xs, H'')) | _ \<Rightarrow> ([], H))"
  by pat_completeness auto

termination
  by (relation "measure (\<lambda>(i, H). length (devices H i))") (auto dest!: getInstance_shorter [OF sym])

declare drain.simps [simp del]

text \<open>The bound of the loop is read again in each round; it never has more rounds than there are devices.\<close>

primrec clear_from :: "nat \<Rightarrow> nat \<Rightarrow> 'i QzHardware \<Rightarrow> 'i list \<times> 'i QzHardware" where
  "clear_from 0 i H = ([], H)"
| "clear_from (Suc k) i H = (if i < max_dev_id H
     then (case drain i H of (xs, H) \<Rightarrow> (case clear_from k (i + 1) H of (ys, H) \<Rightarrow> (xs @ ys, H)))
     else ([], H))"

definition clearDevices :: "'i QzHardware option \<Rightarrow> 'i list \<times> 'i QzHardware option" where
  "clearDevices hw = (case hw of None \<Rightarrow> ([], None)
     | Some H \<Rightarrow> if dev_num H = 0 then ([], Some H) else (case clear_from (max_dev_id H) 0 H of (xs, H) \<Rightarrow> (xs, Some H)))"

text \<open>Dealing the instances: the counter \<open>i\<close> goes round the devices until \<open>n\<close> instances are found. The result is \<open>None\<close> when
  the fuel is used up.\<close>

primrec shuffle :: "nat \<Rightarrow> nat \<Rightarrow> nat \<Rightarrow> 'i QzHardware \<Rightarrow> ('i list \<times> 'i QzHardware) option" where
  "shuffle 0 i n H = (if n = 0 then Some ([], H) else None)"
| "shuffle (Suc k) i n H = (if n = 0 then Some ([], H)
     else (case getInstance (i mod (max_dev_id H + 1)) (Some H) of
         (Some x, Some H') \<Rightarrow> map_option (\<lambda>(xs, H). (x # xs, H)) (shuffle k (i + 1) (n - 1) H')
       | _ \<Rightarrow> shuffle k (i + 1) n H))"

section \<open>The invariant\<close>

definition used_devices :: "(nat \<Rightarrow> 'i list) \<Rightarrow> nat set" where
  "used_devices d = {i. i < QAT_MAX_DEVICES \<and> d i \<noteq> []}"

definition all_instances :: "(nat \<Rightarrow> 'i list) \<Rightarrow> 'i multiset" where
  "all_instances d = (\<Sum>i < QAT_MAX_DEVICES. mset (d i))"

text \<open>Nothing hangs off a device behind \<open>max_dev_id\<close>, and the devices with instances are counted.\<close>

definition hw_inv :: "'i QzHardware \<Rightarrow> bool" where
  "hw_inv H \<longleftrightarrow> max_dev_id H < QAT_MAX_DEVICES \<and> (\<forall>i > max_dev_id H. devices H i = []) \<and> dev_num H = card (used_devices (devices H))"

lemma no_hardware_inv [simp]: "hw_inv no_hardware" "all_instances (devices no_hardware) = {#}"
  by (simp_all add: hw_inv_def no_hardware_def used_devices_def all_instances_def)

lemma used_below: "hw_inv H \<Longrightarrow> devices H i \<noteq> [] \<Longrightarrow> i \<le> max_dev_id H"
  unfolding hw_inv_def by (meson not_le)

lemma finite_used [simp]: "finite (used_devices d)"
  by (simp add: used_devices_def)

lemma used_upd: "used_devices (d(i := xs)) = (if xs = [] \<or> i \<ge> QAT_MAX_DEVICES then used_devices d - {i} else insert i (used_devices d))"
  by (auto simp: used_devices_def)

lemma all_upd: "i < QAT_MAX_DEVICES \<Longrightarrow> all_instances (d(i := xs)) + mset (d i) = all_instances d + mset xs"
proof -
  assume i: "i < QAT_MAX_DEVICES"
  have s: "all_instances e = mset (e i) + (\<Sum>j \<in> {..<QAT_MAX_DEVICES} - {i}. mset (e j))" for e :: "nat \<Rightarrow> 'a list"
    unfolding all_instances_def by (rule sum.remove) (use i in auto)
  show ?thesis unfolding s [of d] s [of "d(i := xs)"] by simp
qed

lemma last_used_Some: "last_used d m = Some k \<Longrightarrow> k < m \<and> d k \<noteq> [] \<and> (\<forall>i. k < i \<and> i < m \<longrightarrow> d i = [])"
  by (induction m) (auto split: if_splits simp: less_Suc_eq)

lemma last_used_None: "last_used d m = None \<Longrightarrow> \<forall>i < m. d i = []"
  by (induction m) (auto split: if_splits simp: less_Suc_eq)

text \<open>Entering an instance.\<close>

lemma setInstance_ok:
  assumes v: "hw_inv H" and d: "dev < QAT_MAX_DEVICES"
  shows "\<exists>H'. setInstance dev (Some (x, [])) (Some H) = (QZ_OK, Some H') \<and> hw_inv H' \<and> devices H' = (devices H)(dev := devices H dev @ [x]) \<and>
    all_instances (devices H') = add_mset x (all_instances (devices H))"
proof -
  let ?d = "(devices H)(dev := devices H dev @ [x])"
  have a: "all_instances ?d = add_mset x (all_instances (devices H))"
    using all_upd [OF d, of "devices H" "devices H dev @ [x]"] by simp
  have c: "card (used_devices ?d) = (if devices H dev = [] then card (used_devices (devices H)) + 1 else card (used_devices (devices H)))"
  proof (cases "devices H dev = []")
    case True
    then have "dev \<notin> used_devices (devices H)" by (simp add: used_devices_def)
    then show ?thesis using True d by (simp add: used_upd)
  next
    case False
    then have "dev \<in> used_devices (devices H)" using d by (simp add: used_devices_def)
    then show ?thesis using False d by (simp add: used_upd insert_absorb)
  qed
  have "max_dev_id H < QAT_MAX_DEVICES" "\<And>i. i > max_dev_id H \<Longrightarrow> devices H i = []" "dev_num H = card (used_devices (devices H))"
    using v by (simp_all add: hw_inv_def)
  moreover have "dev \<le> max_dev_id H" if "devices H dev \<noteq> []" using used_below [OF v that] .
  ultimately show ?thesis using d a c by (cases "devices H dev = []") (simp_all add: setInstance_def Let_def hw_inv_def)
qed

text \<open>Taking one.\<close>

lemma getInstance_None: "getInstance dev (Some H) = (None, hw) \<Longrightarrow> hw = Some H \<and> (dev < QAT_MAX_DEVICES \<longrightarrow> devices H dev = [])"
  by (auto simp: getInstance_def Let_def split: list.splits if_splits option.splits)

lemma getInstance_Some:
  assumes v: "hw_inv H" and d: "dev < QAT_MAX_DEVICES" and x: "devices H dev = x # xs"
  shows "\<exists>H'. getInstance dev (Some H) = (Some x, Some H') \<and> hw_inv H' \<and> devices H' = (devices H)(dev := xs) \<and>
    add_mset x (all_instances (devices H')) = all_instances (devices H) \<and> max_dev_id H' \<le> max_dev_id H \<and>
    (max_dev_id H' \<noteq> max_dev_id H \<longrightarrow> dev = max_dev_id H)"
proof -
  let ?d = "(devices H)(dev := xs)"
  have a: "add_mset x (all_instances ?d) = all_instances (devices H)"
    using all_upd [OF d, of "devices H" xs] x by simp
  have u: "dev \<in> used_devices (devices H)" using x d by (simp add: used_devices_def)
  then have pos: "card (used_devices (devices H)) > 0" by (auto simp: card_gt_0_iff)
  have c: "card (used_devices ?d) = (if xs = [] then card (used_devices (devices H)) - 1 else card (used_devices (devices H)))"
    using u d by (simp add: used_upd insert_absorb)
  have h: "max_dev_id H < QAT_MAX_DEVICES" "\<And>i. i > max_dev_id H \<Longrightarrow> devices H i = []" "dev_num H = card (used_devices (devices H))"
    using v by (simp_all add: hw_inv_def)
  have le: "dev \<le> max_dev_id H" using used_below [OF v, of dev] x by simp
  show ?thesis
  proof (cases "xs = [] \<and> max_dev_id H > 0 \<and> dev = max_dev_id H")
    case False
    then show ?thesis using h a c pos d x le by (auto simp: getInstance_def Let_def hw_inv_def)
  next
    case True
    show ?thesis
    proof (cases "last_used ?d (max_dev_id H)")
      case None
      then show ?thesis using True h a c pos d x by (simp add: getInstance_def Let_def hw_inv_def)
    next
      case (Some m)
      have m: "m < max_dev_id H" "\<And>i. i > m \<Longrightarrow> ?d i = []"
        using last_used_Some [OF Some] True h(2) by (auto simp: not_less_iff_gr_or_eq linorder_neq_iff)
      then show ?thesis using True Some h a c pos d x by (simp add: getInstance_def Let_def hw_inv_def)
    qed
  qed
qed


section \<open>Dealing\<close>

lemma all_instances_used: "all_instances d \<noteq> {#} \<Longrightarrow> \<exists>i. i \<in> used_devices d"
proof (rule ccontr)
  assume "all_instances d \<noteq> {#}" "\<not> (\<exists>i. i \<in> used_devices d)"
  moreover from this(2) have "all_instances d = {#}"
    unfolding all_instances_def used_devices_def by (intro sum.neutral) simp
  ultimately show False by simp
qed

lemma all_instances_mem: "i < QAT_MAX_DEVICES \<Longrightarrow> mset (d i) \<subseteq># all_instances d"
  unfolding all_instances_def by (simp add: sum.remove [of "{..<QAT_MAX_DEVICES}" i])

text \<open>The next residues reach every device up to \<open>max_dev_id\<close> before the counter has gone round.\<close>

lemma next_hit:
  assumes "u < (m::nat)"
  shows "\<exists>j < m. (i + j) mod m = u"
proof (cases "i mod m \<le> u")
  case True
  have "(i + (u - i mod m)) mod m = ((i mod m) + (u - i mod m)) mod m" by (metis mod_add_left_eq)
  then show ?thesis using True assms by (intro exI [of _ "u - i mod m"]) simp
next
  case False
  have "(i + (m - i mod m + u)) mod m = ((i mod m) + (m - i mod m + u)) mod m" by (metis mod_add_left_eq)
  also have "\<dots> = (m + u) mod m" using assms False by (intro arg_cong [where f = "\<lambda>x. x mod m"]) (metis add.assoc add_diff_inverse_nat mod_less_divisor not_less_iff_gr_or_eq gr_zeroI not_less0)
  finally show ?thesis using assms False by (intro exI [of _ "m - i mod m + u"]) simp
qed

text \<open>The counter passes over devices without instances.\<close>

lemma shuffle_skip:
  "n \<noteq> 0 \<Longrightarrow> hw_inv H \<Longrightarrow> (\<And>j. j < m \<Longrightarrow> devices H ((i + j) mod (max_dev_id H + 1)) = []) \<Longrightarrow> shuffle (m + k) i n H = shuffle k (i + m) n H"
proof (induction m arbitrary: i)
  case (Suc m)
  have "getInstance (i mod (max_dev_id H + 1)) (Some H) = (None, Some H)"
    using Suc.prems(3) [of 0] by (auto simp: getInstance_def)
  moreover have "shuffle (m + k) (i + 1) n H = shuffle k (i + 1 + m) n H"
    using Suc.prems(3) [of "Suc j" for j] by (intro Suc.IH) (use Suc.prems in auto)
  ultimately show ?case using Suc.prems(1) by simp
qed simp

lemma least_hit:
  assumes "P (m::nat)"
  shows "\<exists>j \<le> m. P j \<and> (\<forall>i < j. \<not> P i)"
  using assms by (metis LeastI Least_le not_less_Least)

text \<open>With enough fuel every instance is dealt once, and at most \<open>QAT_MAX_DEVICES\<close> counts go by for each.\<close>

lemma shuffle_all:
  "hw_inv H \<Longrightarrow> size (all_instances (devices H)) = n \<Longrightarrow> k \<ge> QAT_MAX_DEVICES * n \<Longrightarrow>
    \<exists>xs H'. shuffle k i n H = Some (xs, H') \<and> mset xs = all_instances (devices H) \<and> hw_inv H' \<and> all_instances (devices H') = {#}"
proof (induction n arbitrary: i k H)
  case 0
  then show ?case by (cases k) auto
next
  case (Suc n)
  define M where "M = max_dev_id H + 1"
  obtain u where u: "u \<in> used_devices (devices H)" using all_instances_used [of "devices H"] Suc.prems(2) by (metis Zero_not_Suc size_empty)
  then have "u < M" using used_below [OF Suc.prems(1), of u] u by (simp add: M_def used_devices_def)
  from next_hit [OF this] obtain j0 where j0: "j0 < M" "(i + j0) mod M = u" by blast
  then have "devices H ((i + j0) mod M) \<noteq> []" using u by (simp add: used_devices_def)
  from least_hit [where P = "\<lambda>j. devices H ((i + j) mod M) \<noteq> []", OF this]
  obtain j where j: "j \<le> j0" "devices H ((i + j) mod M) \<noteq> []" "\<And>l. l < j \<Longrightarrow> devices H ((i + l) mod M) = []" by blast
  obtain x xs where d: "devices H ((i + j) mod M) = x # xs" using j(2) by (meson neq_Nil_conv)
  have M: "M \<le> QAT_MAX_DEVICES" "M > 0" using Suc.prems(1) by (simp_all add: hw_inv_def M_def)
  have dev: "(i + j) mod M < QAT_MAX_DEVICES" using M by (meson mod_less_divisor order.strict_trans2)
  obtain H1 where g: "getInstance ((i + j) mod M) (Some H) = (Some x, Some H1)" "hw_inv H1"
    "add_mset x (all_instances (devices H1)) = all_instances (devices H)"
    using getInstance_Some [OF Suc.prems(1) dev d] by blast
  have jM: "j < QAT_MAX_DEVICES" using j(1) j0(1) M by simp
  then have k: "k = j + Suc (k - j - 1)" "k - j - 1 \<ge> QAT_MAX_DEVICES * n" using Suc.prems(3) by simp_all
  have "size (all_instances (devices H1)) = n"
    using Suc.prems(2) g(3) by (metis add_Suc_right add_cancel_right_right size_add_mset nat.inject)
  from Suc.IH [OF g(2) this k(2), of "i + j + 1"] obtain ys H' where s: "shuffle (k - j - 1) (i + j + 1) n H1 = Some (ys, H')"
    "mset ys = all_instances (devices H1)" "hw_inv H'" "all_instances (devices H') = {#}" by blast
  have "shuffle k i (Suc n) H = shuffle (Suc (k - j - 1)) (i + j) (Suc n) H"
    using shuffle_skip [of "Suc n" H j i "Suc (k - j - 1)"] Suc.prems(1) j(3) k(1) by (simp add: M_def)
  also have "\<dots> = Some (x # ys, H')" using g(1) s(1) by (simp add: M_def)
  finally show ?case using s g(3) by simp
qed


text \<open>The first round takes one instance of each device, in the order of the devices.\<close>

lemma shuffle_round:
  "hw_inv H \<Longrightarrow> size (all_instances (devices H)) = n \<Longrightarrow> i \<le> max_dev_id H + 1 \<Longrightarrow> shuffle k i n H = Some (xs, H') \<Longrightarrow>
    \<exists>zs. xs = map (\<lambda>j. hd (devices H j)) (filter (\<lambda>j. devices H j \<noteq> []) [i..<max_dev_id H + 1]) @ zs"
proof (induction k arbitrary: i n H xs)
  case 0
  then have "all_instances (devices H) = {#}" by (simp split: if_splits)
  then have "devices H j = []" if "j < QAT_MAX_DEVICES" for j
    using all_instances_mem [OF that, of "devices H"] by simp
  then have "filter (\<lambda>j. devices H j \<noteq> []) [i..<max_dev_id H + 1] = []"
    using 0 by (auto simp: filter_empty_conv hw_inv_def)
  then show ?case by simp
next
  case (Suc k)
  have none: ?case if "filter (\<lambda>j. devices H j \<noteq> []) [i..<max_dev_id H + 1] = []" by (simp only: that) simp
  show ?case
  proof (cases "n = 0 \<or> i = max_dev_id H + 1")
    case True
    have "filter (\<lambda>j. devices H j \<noteq> []) [i..<max_dev_id H + 1] = []"
    proof (cases "n = 0")
      case True
      then have "all_instances (devices H) = {#}" using Suc.prems(2) by simp
      then have "devices H j = []" if "j < QAT_MAX_DEVICES" for j
        using all_instances_mem [OF that, of "devices H"] by simp
      then show ?thesis using Suc.prems(1) by (auto simp: filter_empty_conv hw_inv_def)
    qed (use True in simp)
    then show ?thesis by (rule none)
  next
    case False
    then have i: "i \<le> max_dev_id H" "i mod (max_dev_id H + 1) = i" "n \<noteq> 0" using Suc.prems(3) by simp_all
    have up: "[i..<max_dev_id H + 1] = i # [i + 1..<max_dev_id H + 1]" using i(1) by (simp add: upt_rec)
    have lim: "i < QAT_MAX_DEVICES" using i(1) Suc.prems(1) by (simp add: hw_inv_def)
    show ?thesis
    proof (cases "devices H i")
      case Nil
      then have "getInstance i (Some H) = (None, Some H)" by (simp add: getInstance_def)
      then have "shuffle k (i + 1) n H = Some (xs, H')" using Suc.prems(4) i by simp
      from Suc.IH [OF Suc.prems(1,2) _ this] i(1) show ?thesis by (simp only: up filter.simps Nil simp_thms if_False)
    next
      case (Cons x ys)
      from getInstance_Some [OF Suc.prems(1) lim Cons] obtain H1 where g: "getInstance i (Some H) = (Some x, Some H1)" "hw_inv H1"
        "devices H1 = (devices H)(i := ys)" "add_mset x (all_instances (devices H1)) = all_instances (devices H)"
        "max_dev_id H1 \<noteq> max_dev_id H \<longrightarrow> i = max_dev_id H" by blast
      obtain zs where s: "shuffle k (i + 1) (n - 1) H1 = Some (zs, H')" "xs = x # zs"
        using Suc.prems(4) i g(1) by auto
      have n: "size (all_instances (devices H1)) = n - 1" using g(4) Suc.prems(2) by (metis diff_Suc_1 size_add_mset)
      show ?thesis
      proof (cases "i = max_dev_id H")
        case True
        then show ?thesis using s(2) Cons by simp
      next
        case False
        then have m: "max_dev_id H1 = max_dev_id H" using g(5) by blast
        have e: "map (\<lambda>j. hd (devices H1 j)) (filter (\<lambda>j. devices H1 j \<noteq> []) [i + 1..<max_dev_id H + 1]) =
            map (\<lambda>j. hd (devices H j)) (filter (\<lambda>j. devices H j \<noteq> []) [i + 1..<max_dev_id H + 1])"
          by (intro map_cong filter_cong) (auto simp: g(3))
        have "i + 1 \<le> max_dev_id H1 + 1" using i(1) m by simp
        from Suc.IH [OF g(2) n this s(1)] obtain ws where "zs = map (\<lambda>j. hd (devices H j)) (filter (\<lambda>j. devices H j \<noteq> []) [i + 1..<max_dev_id H + 1]) @ ws"
          unfolding m e by (elim exE) (rule that)
        then show ?thesis using s(2) Cons by (simp only: up) simp
      qed
    qed
  qed
qed

section \<open>Freeing what was not dealt\<close>

lemma drain_device:
  "hw_inv H \<Longrightarrow> i < max_dev_id H \<Longrightarrow> \<exists>H'. drain i H = (devices H i, H') \<and> hw_inv H' \<and> devices H' = (devices H)(i := []) \<and>
    max_dev_id H' = max_dev_id H"
proof (induction "devices H i" arbitrary: H)
  case Nil
  then have "getInstance i (Some H) = (None, Some H)" by (simp add: getInstance_def)
  moreover have "devices H = (devices H)(i := [])" using Nil by auto
  ultimately show ?case using Nil by (simp add: drain.simps [of i H])
next
  case (Cons x xs)
  have "i < QAT_MAX_DEVICES" using Cons.prems by (simp add: hw_inv_def)
  from getInstance_Some [OF Cons.prems(1) this Cons.hyps(2) [symmetric]] obtain H1 where g: "getInstance i (Some H) = (Some x, Some H1)"
    "hw_inv H1" "devices H1 = (devices H)(i := xs)" "max_dev_id H1 = max_dev_id H" using Cons.prems(2) by auto
  from Cons.hyps(1) [of H1] g Cons.prems(2) Cons.hyps(2) show ?case by (auto simp: drain.simps [of i H])
qed

lemma clear_from_all:
  "hw_inv H \<Longrightarrow> k + i = max_dev_id H \<Longrightarrow> \<exists>H'. clear_from k i H = (concat (map (devices H) [i..<max_dev_id H]), H') \<and> hw_inv H' \<and>
    devices H' = (\<lambda>j. if i \<le> j \<and> j < max_dev_id H then [] else devices H j) \<and> max_dev_id H' = max_dev_id H"
proof (induction k arbitrary: i H)
  case (Suc k)
  from drain_device [OF Suc.prems(1), of i] Suc.prems(2) obtain H1 where d: "drain i H = (devices H i, H1)" "hw_inv H1"
    "devices H1 = (devices H)(i := [])" "max_dev_id H1 = max_dev_id H" by auto
  have e: "map (devices H1) [Suc i..<max_dev_id H] = map (devices H) [Suc i..<max_dev_id H]" by (simp add: d(3))
  from Suc.IH [OF d(2), of "i + 1"] Suc.prems(2) d(4) obtain H' where c: "clear_from k (i + 1) H1 =
      (concat (map (devices H) [i + 1..<max_dev_id H]), H')" "hw_inv H'" "max_dev_id H' = max_dev_id H"
    "devices H' = (\<lambda>j. if i + 1 \<le> j \<and> j < max_dev_id H then [] else devices H1 j)" using e by auto
  have "[i..<max_dev_id H] = i # [i + 1..<max_dev_id H]" using Suc.prems(2) by (simp add: upt_rec)
  moreover have "devices H' = (\<lambda>j. if i \<le> j \<and> j < max_dev_id H then [] else devices H j)"
    using Suc.prems(2) by (auto simp: c(4) d(3))
  ultimately show ?case using d(1) c Suc.prems(2) by simp
qed (auto simp: fun_eq_iff)


section \<open>Properties\<close>

text \<open>What start makes of a list of instances with their devices.\<close>

primrec enter_all :: "(nat \<times> 'i) list \<Rightarrow> 'i QzHardware \<Rightarrow> 'i QzHardware option" where
  "enter_all [] H = Some H"
| "enter_all (x # xs) H = (case setInstance (fst x) (Some (snd x, [])) (Some H) of
     (rc, Some H') \<Rightarrow> if rc \<noteq> QZ_OK then None else enter_all xs H' | (_, None) \<Rightarrow> None)"

lemma enter_all_ok:
  "hw_inv H \<Longrightarrow> list_all (\<lambda>x. fst x < QAT_MAX_DEVICES) xs \<Longrightarrow> \<exists>H'. enter_all xs H = Some H' \<and> hw_inv H' \<and>
    devices H' = (\<lambda>d. devices H d @ map snd (filter (\<lambda>x. fst x = d) xs)) \<and>
    all_instances (devices H') = all_instances (devices H) + mset (map snd xs)"
proof (induction xs arbitrary: H)
  case (Cons x xs)
  from setInstance_ok [OF Cons.prems(1), of "fst x" "snd x"] Cons.prems(2) obtain H1 where
    s: "setInstance (fst x) (Some (snd x, [])) (Some H) = (QZ_OK, Some H1)" "hw_inv H1"
    "devices H1 = (devices H)(fst x := devices H (fst x) @ [snd x])" "all_instances (devices H1) = add_mset (snd x) (all_instances (devices H))"
    by auto
  from Cons.IH [OF s(2)] Cons.prems(2) obtain H' where h: "enter_all xs H1 = Some H'" "hw_inv H'"
    "devices H' = (\<lambda>d. devices H1 d @ map snd (filter (\<lambda>x. fst x = d) xs))"
    "all_instances (devices H') = all_instances (devices H1) + mset (map snd xs)" by auto
  have "devices H' = (\<lambda>d. devices H d @ map snd (filter (\<lambda>y. fst y = d) (x # xs)))" by (auto simp: h(3) s(3) fun_eq_iff)
  moreover have "all_instances (devices H') = all_instances (devices H) + mset (map snd (x # xs))" by (simp add: h(4) s(4))
  ultimately show ?case using s(1) h(1,2) by (intro exI [of _ H']) simp
qed simp

text \<open>C29: (shuffle_deals) Starting deals the instances found on the devices: after at most 1024 counts for each the loop has ended,
  every instance has been taken exactly once and none is left, and the first ones are one of each device, in
  the order of the devices, so that work spreads over all devices.\<close>

theorem shuffle_deals:
  assumes "list_all (\<lambda>x. fst x < QAT_MAX_DEVICES) xs"
  shows "\<exists>H ys H' zs. enter_all xs no_hardware = Some H \<and> shuffle (QAT_MAX_DEVICES * length xs) 0 (length xs) H = Some (ys, H') \<and>
    mset ys = mset (map snd xs) \<and> all_instances (devices H') = {#} \<and>
    ys = map (\<lambda>d. snd (hd (filter (\<lambda>x. fst x = d) xs))) (filter (\<lambda>d. d \<in> fst ` set xs) [0..<max_dev_id H + 1]) @ zs \<and>
    fst ` set xs \<subseteq> {..max_dev_id H}"
proof -
  obtain H where e: "enter_all xs no_hardware = Some H" "hw_inv H"
    "devices H = (\<lambda>d. map snd (filter (\<lambda>x. fst x = d) xs))" "all_instances (devices H) = mset (map snd xs)"
  proof -
    from enter_all_ok [OF no_hardware_inv(1) assms] obtain H where h: "enter_all xs no_hardware = Some H" "hw_inv H"
      "devices H = (\<lambda>d. devices no_hardware d @ map snd (filter (\<lambda>x. fst x = d) xs))"
      "all_instances (devices H) = all_instances (devices no_hardware) + mset (map snd xs)" by blast
    have "devices H = (\<lambda>d. map snd (filter (\<lambda>x. fst x = d) xs))" by (simp add: h(3)) (simp add: no_hardware_def)
    moreover have "all_instances (devices H) = mset (map snd xs)" by (simp only: h(4) no_hardware_inv) simp
    ultimately show thesis using that h(1,2) by blast
  qed
  have n: "size (all_instances (devices H)) = length xs" by (simp add: e(4))
  obtain ys H' where s: "shuffle (QAT_MAX_DEVICES * length xs) 0 (length xs) H = Some (ys, H')" "mset ys = mset (map snd xs)"
    "all_instances (devices H') = {#}" using shuffle_all [OF e(2) n order_refl, of 0] e(4) by auto
  have u: "devices H d \<noteq> [] \<longleftrightarrow> d \<in> fst ` set xs" for d by (force simp: e(3) filter_empty_conv)
  obtain zs where z: "ys = map (\<lambda>d. hd (devices H d)) (filter (\<lambda>d. devices H d \<noteq> []) [0..<max_dev_id H + 1]) @ zs"
    using shuffle_round [OF e(2) n _ s(1)] by auto
  have "map (\<lambda>d. hd (devices H d)) (filter (\<lambda>d. devices H d \<noteq> []) [0..<max_dev_id H + 1]) =
      map (\<lambda>d. snd (hd (filter (\<lambda>x. fst x = d) xs))) (filter (\<lambda>d. d \<in> fst ` set xs) [0..<max_dev_id H + 1])"
  proof (rule map_cong)
    show "filter (\<lambda>d. devices H d \<noteq> []) [0..<max_dev_id H + 1] = filter (\<lambda>d. d \<in> fst ` set xs) [0..<max_dev_id H + 1]"
      by (intro filter_cong refl u)
    fix d assume "d \<in> set (filter (\<lambda>d. d \<in> fst ` set xs) [0..<max_dev_id H + 1])"
    then have "d \<in> fst ` set xs" unfolding set_filter by blast
    then have "filter (\<lambda>x. fst x = d) xs \<noteq> []" using u [of d] by (simp add: e(3))
    then show "hd (devices H d) = snd (hd (filter (\<lambda>x. fst x = d) xs))" by (simp add: e(3) hd_map)
  qed
  moreover have "fst ` set xs \<subseteq> {..max_dev_id H}" using used_below [OF e(2)] u by blast
  ultimately show ?thesis using e(1) s z by auto
qed

theorem shuffle_deals_witness:
  "\<exists>H ys H'. enter_all [(3, ''a''), (1, ''b''), (3, ''c'')] no_hardware = Some H \<and> shuffle (1024 * 3) 0 3 H = Some (ys, H') \<and>
    mset ys = {# ''a'', ''b'', ''c'' #} \<and> all_instances (devices H') = {#}"
proof -
  have l: "list_all (\<lambda>x. fst x < QAT_MAX_DEVICES) [(3, ''a''), (1, ''b''), (3, ''c'')]" by simp
  from shuffle_deals [OF l] obtain H ys H' where "enter_all [(3, ''a''), (1, ''b''), (3, ''c'')] no_hardware = Some H"
    "shuffle (1024 * length [(3::nat, ''a''), (1, ''b''), (3, ''c'')]) 0 (length [(3::nat, ''a''), (1, ''b''), (3, ''c'')]) H = Some (ys, H')"
    "mset ys = mset (map snd [(3::nat, ''a''), (1, ''b''), (3, ''c'')])" "all_instances (devices H') = {#}"
    by (elim exE conjE) (rule that)
  then show ?thesis by (intro exI conjI) (simp_all add: numeral_3_eq_3)
qed

text \<open>(clearDevices_skips_last) The loop that frees the instances of a failed start stops before the largest device: all instances
  of that device are lost, and with a single device none is freed.\<close>

theorem clearDevices_skips_last:
  assumes "hw_inv H" and "dev_num H \<noteq> 0"
  shows "\<exists>H'. clearDevices (Some H) = (concat (map (devices H) [0..<max_dev_id H]), Some H') \<and>
    devices H' = (\<lambda>_. [])(max_dev_id H := devices H (max_dev_id H))"
proof -
  obtain H' where c: "clear_from (max_dev_id H) 0 H = (concat (map (devices H) [0..<max_dev_id H]), H')"
    "devices H' = (\<lambda>j. if 0 \<le> j \<and> j < max_dev_id H then [] else devices H j)"
    using clear_from_all [OF assms(1), of "max_dev_id H" 0] by auto
  have "devices H' = (\<lambda>_. [])(max_dev_id H := devices H (max_dev_id H))"
    using assms(1) by (auto simp: c(2) hw_inv_def fun_eq_iff)
  then show ?thesis using assms(2) c(1) by (simp add: clearDevices_def)
qed

theorem clearDevices_skips_last_witness:
  "\<exists>H H'. enter_all [(0, ''a''), (0, ''b'')] no_hardware = Some H \<and> clearDevices (Some H) = ([], Some H') \<and> devices H' 0 = [''a'', ''b'']"
proof -
  obtain H where e: "enter_all [(0, ''a''), (0, ''b'')] no_hardware = Some H" by (simp add: setInstance_def no_hardware_def Let_def)
  then have h: "hw_inv H" "dev_num H \<noteq> 0" "max_dev_id H = 0" "devices H 0 = [''a'', ''b'']"
    using enter_all_ok [OF no_hardware_inv(1), of "[(0, ''a''), (0, ''b'')]"] by (auto simp: setInstance_def no_hardware_def Let_def)
  from clearDevices_skips_last [OF h(1,2)] show ?thesis using e h by auto
qed

end
