(* ===== verification/Grab.thy ===== *)
theory Grab
  imports Types
begin

text \<open>
  Choosing an instance for a call (\<^verbatim>\<open>qzCheckInstCap\<close>, \<^verbatim>\<open>qzGrabInstance\<close>, \<^verbatim>\<open>qzReleaseInstance\<close>,
  \<^verbatim>\<open>dcEventCallback\<close> of \<^verbatim>\<open>src/qatzip.c\<close>): the search as the loop runs it, one look at an instance at a time, alone
  and with any number of threads at once.
\<close>

record CpaDcInstanceCapabilities =
  statelessLZ4Compression :: bool
  statelessLZ4Decompression :: bool
  statelessLZ4SCompression :: bool
  checksumXXHash32 :: bool
  statelessDeflateCompression :: bool
  statelessDeflateDecompression :: bool
  checksumCRC32 :: bool
  dynamicHuffman :: bool
  compressAndVerify :: bool

record QzInst =
  packageId :: nat
  instance_cap :: CpaDcInstanceCapabilities
  lock :: bool
  hb_ok :: bool

abbreviation (input) MAX_GRAB_RETRY :: nat where "MAX_GRAB_RETRY \<equiv> 10"

text \<open>The LZ4 formats need a driver of version 3.1.\<close>

definition qzCheckInstCap :: "bool \<Rightarrow> CpaDcInstanceCapabilities \<Rightarrow> QzSessionParamsInternal \<Rightarrow> status" where
  "qzCheckInstCap api31 c params =
    (if i_data_fmt params = LZ4_FH then
       (if api31 then
          if \<not> statelessLZ4Compression c \<or> \<not> statelessLZ4Decompression c \<or> \<not> checksumXXHash32 c then QZ_FAIL else QZ_OK
        else QZ_FAIL)
     else if i_data_fmt params = LZ4S_BK then
       (if api31 then if \<not> checksumXXHash32 c \<or> \<not> statelessLZ4SCompression c then QZ_FAIL else QZ_OK else QZ_FAIL)
     else if \<not> statelessDeflateCompression c \<or> \<not> statelessDeflateDecompression c \<or> \<not> checksumCRC32 c then QZ_FAIL
     else if \<not> dynamicHuffman c \<and> i_huffman_hdr params = QZ_DYNAMIC_HDR then QZ_FAIL
     else if \<not> compressAndVerify c then QZ_FAIL
     else QZ_OK)"

text \<open>Where the loop is: the retry, the instance and whether the hint has been taken.\<close>

record GrabPos =
  g_retry :: nat
  g_i :: nat
  g_hinted :: bool

definition grab_start :: GrabPos where
  "grab_start = \<lparr>g_retry = 0, g_i = 0, g_hinted = False\<rparr>"

definition grab_hint :: "int \<Rightarrow> nat \<Rightarrow> nat" where
  "grab_hint hint n = (if hint \<ge> int n \<or> hint < 0 then 0 else nat hint)"

definition wanted :: "bool \<Rightarrow> QzSessionParamsInternal \<Rightarrow> QzInst \<Rightarrow> bool" where
  "wanted api31 params x \<longleftrightarrow> qzCheckInstCap api31 (instance_cap x) params = QZ_OK \<and> hb_ok x"

text \<open>One look, up to the atomic test-and-set: a new position, or what the search returns and the lock it set.\<close>

definition grab_look :: "bool \<Rightarrow> QzSessionParamsInternal \<Rightarrow> nat \<Rightarrow> GrabPos \<Rightarrow> QzInst list \<Rightarrow> (GrabPos + int) \<times> QzInst list" where
  "grab_look api31 params hint g xs =
    (if g_retry g \<ge> MAX_GRAB_RETRY then (Inr (-1), xs)
     else if g_i g \<ge> length xs then (Inl (g\<lparr>g_retry := g_retry g + 1, g_i := 0\<rparr>), xs)
     else (let i = (if g_hinted g then g_i g else hint); g = g\<lparr>g_i := i + 1, g_hinted := True\<rparr> in
       if qzCheckInstCap api31 (instance_cap (xs ! i)) params \<noteq> QZ_OK then (Inl g, xs)
       else if \<not> hb_ok (xs ! i) then (Inl g, xs)
       else if lock (xs ! i) then (Inl g, xs)
       else (Inr (int i), xs[i := (xs ! i)\<lparr>lock := True\<rparr>])))"

primrec grab_loop :: "nat \<Rightarrow> bool \<Rightarrow> QzSessionParamsInternal \<Rightarrow> nat \<Rightarrow> GrabPos \<Rightarrow> QzInst list \<Rightarrow> (int \<times> QzInst list) option" where
  "grab_loop 0 api31 params hint g xs = None"
| "grab_loop (Suc k) api31 params hint g xs =
    (case grab_look api31 params hint g xs of (Inl g, xs) \<Rightarrow> grab_loop k api31 params hint g xs | (Inr r, xs) \<Rightarrow> Some (r, xs))"

definition grab_fuel :: "nat \<Rightarrow> nat" where
  "grab_fuel n = MAX_GRAB_RETRY * (n + 1) + 2"

definition qzGrabInstance :: "bool \<Rightarrow> int \<Rightarrow> int \<Rightarrow> QzSessionParamsInternal \<Rightarrow> QzInst list \<Rightarrow> (int \<times> QzInst list) option" where
  "qzGrabInstance api31 init_status hint params xs =
    (if init_status = QZ_NONE then Some (-1, xs)
     else grab_loop (grab_fuel (length xs)) api31 params (grab_hint hint (length xs)) grab_start xs)"

definition qzReleaseInstance :: "nat \<Rightarrow> QzInst list \<Rightarrow> QzInst list" where
  "qzReleaseInstance i xs = xs[i := (xs ! i)\<lparr>lock := False\<rparr>]"

datatype CpaInstanceEvent = EVENT_RESTARTING | EVENT_RESTARTED | EVENT_FATAL_ERROR | EVENT_UNKNOWN

definition dcEventCallback :: "nat \<Rightarrow> CpaInstanceEvent \<Rightarrow> QzInst list \<Rightarrow> QzInst list" where
  "dcEventCallback i ev xs = (case ev of
     EVENT_RESTARTED \<Rightarrow> xs[i := (xs ! i)\<lparr>hb_ok := True\<rparr>]
   | EVENT_FATAL_ERROR \<Rightarrow> xs[i := (xs ! i)\<lparr>hb_ok := False\<rparr>]
   | _ \<Rightarrow> xs)"

section \<open>Alone\<close>

text \<open>How much of the search is left.\<close>

definition grab_left :: "nat \<Rightarrow> GrabPos \<Rightarrow> nat" where
  "grab_left n g = (MAX_GRAB_RETRY - g_retry g) * (n + 1) + 1 - g_i g"

definition free_wanted :: "bool \<Rightarrow> QzSessionParamsInternal \<Rightarrow> QzInst \<Rightarrow> bool" where
  "free_wanted api31 params x \<longleftrightarrow> wanted api31 params x \<and> \<not> lock x"

lemma grab_hint_less: "xs \<noteq> [] \<Longrightarrow> grab_hint hint (length xs) < length xs"
  by (auto simp: grab_hint_def)

lemma grab_look_cases:
  assumes "hint < length xs \<or> xs = []" "g_i g \<le> length xs" "\<not> g_hinted g \<longrightarrow> g_i g = 0"
  shows "(g_retry g \<ge> MAX_GRAB_RETRY \<and> grab_look api31 params hint g xs = (Inr (-1), xs)) \<or>
    (g_retry g < MAX_GRAB_RETRY \<and> g_i g = length xs \<and> grab_look api31 params hint g xs = (Inl (g\<lparr>g_retry := g_retry g + 1, g_i := 0\<rparr>), xs)) \<or>
    (g_retry g < MAX_GRAB_RETRY \<and> g_i g < length xs \<and> (\<exists>i. i = (if g_hinted g then g_i g else hint) \<and> i < length xs \<and> g_i g \<le> i \<and>
      grab_look api31 params hint g xs = (if free_wanted api31 params (xs ! i) then (Inr (int i), xs[i := (xs ! i)\<lparr>lock := True\<rparr>])
        else (Inl (g\<lparr>g_i := i + 1, g_hinted := True\<rparr>), xs))))"
proof (cases "g_retry g < MAX_GRAB_RETRY \<and> g_i g < length xs")
  case True
  define i where "i = (if g_hinted g then g_i g else hint)"
  have "i < length xs" "g_i g \<le> i" using assms True by (auto simp: i_def)
  then show ?thesis using True by (auto simp: grab_look_def free_wanted_def wanted_def Let_def i_def)
next
  case False
  then show ?thesis using assms(2) by (auto simp: grab_look_def)
qed

definition grab_pos_ok :: "nat \<Rightarrow> GrabPos \<Rightarrow> bool" where
  "grab_pos_ok n g \<longleftrightarrow> g_i g \<le> n \<and> (\<not> g_hinted g \<longrightarrow> g_i g = 0)"

lemma grab_look_Inl:
  assumes "grab_look api31 params hint g xs = (Inl g', xs')" "grab_pos_ok (length xs) g" "hint < length xs \<or> xs = []"
  shows "xs' = xs \<and> grab_pos_ok (length xs) g' \<and> grab_left (length xs) g' < grab_left (length xs) g"
proof -
  have r: "(MAX_GRAB_RETRY - r) * (n + 1) = (MAX_GRAB_RETRY - (r + 1)) * (n + 1) + (n + 1)" if "r < MAX_GRAB_RETRY" for r n
  proof -
    have "MAX_GRAB_RETRY - r = Suc (MAX_GRAB_RETRY - (r + 1))" using that by simp
    then show ?thesis by (simp only: mult_Suc)
  qed
  have p: "g_i g \<le> length xs" "\<not> g_hinted g \<longrightarrow> g_i g = 0" using assms(2) by (simp_all add: grab_pos_ok_def)
  from grab_look_cases [OF assms(3) p, of api31 params] show ?thesis
  proof (elim disjE conjE exE)
    assume "grab_look api31 params hint g xs = (Inr (-1), xs)" then show ?thesis using assms(1) by simp
  next
    assume h: "g_retry g < MAX_GRAB_RETRY" "g_i g = length xs"
      "grab_look api31 params hint g xs = (Inl (g\<lparr>g_retry := g_retry g + 1, g_i := 0\<rparr>), xs)"
    have "grab_left (length xs) (g\<lparr>g_retry := g_retry g + 1, g_i := 0\<rparr>) < grab_left (length xs) g"
      using r [OF h(1), of "length xs"] h(2) by (simp add: grab_left_def)
    then show ?thesis using h assms(1) by (simp add: grab_pos_ok_def)
  next
    fix i assume h: "g_retry g < MAX_GRAB_RETRY" "g_i g \<le> i" "i < length xs"
      "grab_look api31 params hint g xs = (if free_wanted api31 params (xs ! i) then (Inr (int i), xs[i := (xs ! i)\<lparr>lock := True\<rparr>])
        else (Inl (g\<lparr>g_i := i + 1, g_hinted := True\<rparr>), xs))"
    define A where "A = (MAX_GRAB_RETRY - (g_retry g + 1)) * (length xs + 1)"
    have "grab_left (length xs) (g\<lparr>g_i := i + 1, g_hinted := True\<rparr>) = A + (length xs + 1) + 1 - (i + 1)"
      "grab_left (length xs) g = A + (length xs + 1) + 1 - g_i g"
      using r [OF h(1), of "length xs", folded A_def] by (simp_all add: grab_left_def)
    then have "grab_left (length xs) (g\<lparr>g_i := i + 1, g_hinted := True\<rparr>) < grab_left (length xs) g"
      using h(2,3) by simp
    then show ?thesis using h assms(1) by (auto simp: grab_pos_ok_def split: if_splits)
  qed
qed


text \<open>The order in which the search looks at the instances.\<close>

definition grab_order :: "nat \<Rightarrow> nat \<Rightarrow> nat list" where
  "grab_order hint n = [hint..<n] @ [0..<n]"

definition grab_result :: "bool \<Rightarrow> QzSessionParamsInternal \<Rightarrow> nat list \<Rightarrow> QzInst list \<Rightarrow> int \<times> QzInst list" where
  "grab_result api31 params order xs = (case find (\<lambda>i. free_wanted api31 params (xs ! i)) order of
     Some i \<Rightarrow> (int i, xs[i := (xs ! i)\<lparr>lock := True\<rparr>]) | None \<Rightarrow> (-1, xs))"

lemma grab_loop_look: "grab_loop k api31 params hint g xs = (case k of 0 \<Rightarrow> None | Suc k \<Rightarrow>
    (case grab_look api31 params hint g xs of (Inl g, xs) \<Rightarrow> grab_loop k api31 params hint g xs | (Inr r, xs) \<Rightarrow> Some (r, xs)))"
  by (cases k) simp_all

lemma find_pre: "\<forall>x \<in> set xs. \<not> P x \<Longrightarrow> find P (xs @ ys) = find P ys"
  by (induction xs) auto

text \<open>The looks still to come.\<close>

definition grab_rest :: "nat \<Rightarrow> nat \<Rightarrow> GrabPos \<Rightarrow> nat list" where
  "grab_rest hint n g = (if g_retry g < MAX_GRAB_RETRY
     then [(if g_hinted g then g_i g else hint)..<n] @ concat (replicate (MAX_GRAB_RETRY - 1 - g_retry g) [0..<n]) else [])"

lemma grab_rest_look:
  assumes h: "hint < length xs \<or> xs = []" and p: "grab_pos_ok (length xs) g"
  shows "(\<exists>g'. grab_look api31 params hint g xs = (Inl g', xs) \<and>
      grab_result api31 params (grab_rest hint (length xs) g) xs = grab_result api31 params (grab_rest hint (length xs) g') xs) \<or>
    (\<exists>r ys. grab_look api31 params hint g xs = (Inr r, ys) \<and> grab_result api31 params (grab_rest hint (length xs) g) xs = (r, ys))"
proof -
  have q: "g_i g \<le> length xs" "\<not> g_hinted g \<longrightarrow> g_i g = 0" using p by (simp_all add: grab_pos_ok_def)
  from grab_look_cases [OF h q, of api31 params] show ?thesis
  proof (elim disjE conjE exE)
    assume "grab_look api31 params hint g xs = (Inr (-1), xs)" "g_retry g \<ge> MAX_GRAB_RETRY"
    then show ?thesis by (simp add: grab_rest_def grab_result_def)
  next
    assume l: "g_retry g < MAX_GRAB_RETRY" "g_i g = length xs"
      "grab_look api31 params hint g xs = (Inl (g\<lparr>g_retry := g_retry g + 1, g_i := 0\<rparr>), xs)"
    have "grab_rest hint (length xs) (g\<lparr>g_retry := g_retry g + 1, g_i := 0\<rparr>) = grab_rest hint (length xs) g \<or> xs = []"
    proof (cases "g_hinted g")
      case True
      have "MAX_GRAB_RETRY - 1 - g_retry g = Suc (MAX_GRAB_RETRY - 1 - (g_retry g + 1))" if "g_retry g + 1 < MAX_GRAB_RETRY" using that by simp
      then show ?thesis using True l(1,2) by (cases "g_retry g + 1 < MAX_GRAB_RETRY") (simp_all add: grab_rest_def)
    qed (use q(2) l(2) in simp)
    moreover have "grab_rest h (length xs) g' = []" if "xs = []" for h g' using that by (simp add: grab_rest_def)
    ultimately show ?thesis using l(3) by auto
  next
    fix i assume l: "g_retry g < MAX_GRAB_RETRY" "g_i g \<le> i" "i < length xs" "i = (if g_hinted g then g_i g else hint)"
      "grab_look api31 params hint g xs = (if free_wanted api31 params (xs ! i) then (Inr (int i), xs[i := (xs ! i)\<lparr>lock := True\<rparr>])
        else (Inl (g\<lparr>g_i := i + 1, g_hinted := True\<rparr>), xs))"
    have "grab_rest hint (length xs) g = i # grab_rest hint (length xs) (g\<lparr>g_i := i + 1, g_hinted := True\<rparr>)"
      using l(1,3) l(4) [symmetric] by (simp add: grab_rest_def upt_conv_Cons)
    then show ?thesis using l(5) by (simp add: grab_result_def)
  qed
qed

lemma grab_loop_result:
  "hint < length xs \<or> xs = [] \<Longrightarrow> grab_pos_ok (length xs) g \<Longrightarrow> grab_left (length xs) g < k \<Longrightarrow>
    grab_loop k api31 params hint g xs = Some (grab_result api31 params (grab_rest hint (length xs) g) xs)"
proof (induction k arbitrary: g)
  case (Suc k)
  from grab_rest_look [OF Suc.prems(1,2), of api31 params] show ?case
  proof (elim disjE exE conjE)
    fix g' assume l: "grab_look api31 params hint g xs = (Inl g', xs)"
      "grab_result api31 params (grab_rest hint (length xs) g) xs = grab_result api31 params (grab_rest hint (length xs) g') xs"
    have "grab_pos_ok (length xs) g'" "grab_left (length xs) g' < k"
      using grab_look_Inl [OF l(1) Suc.prems(2,1)] Suc.prems(3) by auto
    from Suc.IH [OF Suc.prems(1) this] show ?thesis by (simp add: l)
  qed simp
qed simp

lemma find_append_none: "find P xs = None \<Longrightarrow> find P (xs @ ys) = find P ys"
  by (induction xs) (auto split: if_splits)

lemma find_append_some: "find P xs = Some x \<Longrightarrow> find P (xs @ ys) = Some x"
  by (induction xs) (auto split: if_splits)

lemma find_replicate: "find P (xs @ concat (replicate (Suc n) ys)) = find P (xs @ ys)"
proof (cases "find P (xs @ ys)")
  case None
  then have "\<forall>x \<in> set xs \<union> set ys. \<not> P x" by (auto simp: find_None_iff)
  then have "find P (xs @ concat (replicate (Suc n) ys)) = None" by (auto simp: find_None_iff)
  then show ?thesis using None by simp
next
  case (Some x)
  then show ?thesis using find_append_some [of P "xs @ ys" x "concat (replicate n ys)"] by simp
qed

text \<open>C40: (qzGrabInstance_first) Nobody else about, the search ends and takes the first free, healthy and capable instance from the hint on
  and then from the start, locking it and nothing else; it returns -1 exactly when there is none.\<close>

theorem qzGrabInstance_first:
  "qzGrabInstance api31 init_status hint params xs = Some (if init_status = QZ_NONE then (-1, xs)
     else case find (\<lambda>i. qzCheckInstCap api31 (instance_cap (xs ! i)) params = QZ_OK \<and> hb_ok (xs ! i) \<and> \<not> lock (xs ! i))
            ([grab_hint hint (length xs)..<length xs] @ [0..<length xs]) of
         Some i \<Rightarrow> (int i, xs[i := (xs ! i)\<lparr>lock := True\<rparr>]) | None \<Rightarrow> (-1, xs))"
proof (cases "init_status = QZ_NONE")
  case False
  have h: "grab_hint hint (length xs) < length xs \<or> xs = []" using grab_hint_less by blast
  have p: "grab_pos_ok (length xs) grab_start" "grab_left (length xs) grab_start < grab_fuel (length xs)"
    by (simp_all add: grab_pos_ok_def grab_start_def grab_left_def grab_fuel_def)
  have r: "grab_rest (grab_hint hint (length xs)) (length xs) grab_start =
      [grab_hint hint (length xs)..<length xs] @ concat (replicate (Suc 8) [0..<length xs])"
    by (simp add: grab_rest_def grab_start_def eval_nat_numeral)
  show ?thesis
    using grab_loop_result [OF h p, of api31 params] False
    by (simp only: qzGrabInstance_def r grab_result_def find_replicate if_False free_wanted_def wanted_def conj_assoc)
qed (simp add: qzGrabInstance_def)


section \<open>With other threads\<close>

datatype seeker = Idle | Searching QzSessionParamsInternal nat GrabPos | Holding QzSessionParamsInternal nat | Failed

text \<open>Any number of threads, each at its place of a search, and the device events. A step is one look of one thread.\<close>

inductive grab_step :: "bool \<Rightarrow> QzInst list \<times> (nat \<Rightarrow> seeker) \<Rightarrow> QzInst list \<times> (nat \<Rightarrow> seeker) \<Rightarrow> bool" for api31 where
  call: "ph t = Idle \<or> ph t = Failed \<Longrightarrow>
    grab_step api31 (xs, ph) (xs, ph(t := Searching params (grab_hint hint (length xs)) grab_start))"
| look: "ph t = Searching params hint g \<Longrightarrow> grab_look api31 params hint g xs = (Inl g', ys) \<Longrightarrow>
    grab_step api31 (xs, ph) (ys, ph(t := Searching params hint g'))"
| took: "ph t = Searching params hint g \<Longrightarrow> grab_look api31 params hint g xs = (Inr r, ys) \<Longrightarrow>
    grab_step api31 (xs, ph) (ys, ph(t := if r < 0 then Failed else Holding params (nat r)))"
| release: "ph t = Holding params i \<Longrightarrow> grab_step api31 (xs, ph) (qzReleaseInstance i xs, ph(t := Idle))"
| event: "grab_step api31 (xs, ph) (dcEventCallback i ev xs, ph)"

text \<open>A lock is set exactly while one thread holds the instance.\<close>

definition grab_inv :: "bool \<Rightarrow> QzInst list \<times> (nat \<Rightarrow> seeker) \<Rightarrow> bool" where
  "grab_inv api31 s \<longleftrightarrow> (case s of (xs, ph) \<Rightarrow>
     (\<forall>t p i. ph t = Holding p i \<longrightarrow> i < length xs \<and> lock (xs ! i) \<and> qzCheckInstCap api31 (instance_cap (xs ! i)) p = QZ_OK) \<and>
     (\<forall>t u p q i. ph t = Holding p i \<longrightarrow> ph u = Holding q i \<longrightarrow> t = u) \<and>
     (\<forall>i < length xs. lock (xs ! i) \<longrightarrow> (\<exists>t p. ph t = Holding p i)) \<and>
     (\<forall>t p h g. ph t = Searching p h g \<longrightarrow> grab_pos_ok (length xs) g \<and> (h < length xs \<or> xs = [])))"

lemma grab_look_Inr:
  assumes "grab_look api31 params hint g xs = (Inr r, ys)" "hint < length xs \<or> xs = []" "grab_pos_ok (length xs) g"
  shows "(r = -1 \<and> ys = xs) \<or> (\<exists>i. r = int i \<and> i < length xs \<and> free_wanted api31 params (xs ! i) \<and> ys = xs[i := (xs ! i)\<lparr>lock := True\<rparr>])"
  using grab_look_cases [OF assms(2), of g api31 params] assms(1,3) by (auto simp: grab_pos_ok_def split: if_splits)

lemma event_nth: "length (dcEventCallback i ev xs) = length xs \<and> (j < length xs \<longrightarrow>
    lock (dcEventCallback i ev xs ! j) = lock (xs ! j) \<and> instance_cap (dcEventCallback i ev xs ! j) = instance_cap (xs ! j))"
  by (cases "i = j") (auto simp: dcEventCallback_def split: CpaInstanceEvent.split)

lemma grab_inv_step: "grab_step api31 s s' \<Longrightarrow> grab_inv api31 s \<Longrightarrow> grab_inv api31 s'"
proof (induction rule: grab_step.induct)
  case (call ph t xs params hint)
  have "grab_hint hint (length xs) < length xs \<or> xs = []" using grab_hint_less by blast
  moreover have "grab_pos_ok (length xs) grab_start" by (simp add: grab_pos_ok_def grab_start_def)
  ultimately show ?case using call unfolding grab_inv_def by (auto split: if_splits) (metis seeker.distinct)+
next
  case (look ph t params hint g xs g' ys)
  have "ys = xs \<and> grab_pos_ok (length xs) g'"
    using look by (auto simp: grab_inv_def dest!: grab_look_Inl)
  then show ?case using look unfolding grab_inv_def by (auto split: if_splits) (metis seeker.distinct)+
next
  case (took ph t params hint g xs r ys)
  have p: "hint < length xs \<or> xs = []" "grab_pos_ok (length xs) g" using took(1,3) by (auto simp: grab_inv_def)
  from grab_look_Inr [OF took(2) p] show ?case
  proof (elim disjE exE conjE)
    assume "r = -1" "ys = xs"
    then show ?thesis using took(1,3) unfolding grab_inv_def by (auto split: if_splits) (metis seeker.distinct)+
  next
    fix i assume i: "r = int i" "i < length xs" "free_wanted api31 params (xs ! i)" "ys = xs[i := (xs ! i)\<lparr>lock := True\<rparr>]"
    then have n: "\<not> lock (xs ! i)" "qzCheckInstCap api31 (instance_cap (xs ! i)) params = QZ_OK" by (simp_all add: free_wanted_def wanted_def)
    then have h: "ph u \<noteq> Holding q i" for u q using took(3) by (auto simp: grab_inv_def)
    show ?thesis using took(1,3) h n(2) i(1,2) unfolding grab_inv_def i(4)
      by (auto simp: nth_list_update split: if_splits) (metis seeker.distinct)+
  qed
next
  case (release ph t params i xs)
  have i: "i < length xs" and u: "\<And>u q. ph u = Holding q i \<Longrightarrow> u = t"
    using release unfolding grab_inv_def by blast+
  have l: "j < length xs \<Longrightarrow> lock (qzReleaseInstance i xs ! j) = (lock (xs ! j) \<and> j \<noteq> i)"
    "j < length xs \<Longrightarrow> instance_cap (qzReleaseInstance i xs ! j) = instance_cap (xs ! j)"
    "length (qzReleaseInstance i xs) = length xs" for j
    using i by (auto simp: qzReleaseInstance_def nth_list_update)
  have nil: "(qzReleaseInstance i xs = []) = (xs = [])" by (simp add: qzReleaseInstance_def)
  show ?case using release u unfolding grab_inv_def by (auto simp: l nil split: if_splits) (metis seeker.inject(2))+
next
  case (event xs ph i ev)
  have "length (dcEventCallback i ev xs) = length xs" using event_nth by blast
  then have "(dcEventCallback i ev xs = []) = (xs = [])" by (metis length_0_conv)
  then show ?case using event event_nth [of i ev xs] unfolding grab_inv_def by simp
qed


definition grab_init :: "QzInst list \<Rightarrow> QzInst list \<times> (nat \<Rightarrow> seeker)" where
  "grab_init xs = (xs, \<lambda>_. Idle)"

lemma grab_reach: "(grab_step api31)\<^sup>*\<^sup>* s s' \<Longrightarrow> grab_inv api31 s \<Longrightarrow> grab_inv api31 s'"
  by (induction rule: rtranclp_induct) (auto intro: grab_inv_step)

text \<open>C15: (instances_exclusive) However the searches of any number of threads interleave, and whatever the devices report, an instance is held by at
  most one thread, it is locked while it is held and free otherwise, and it can do what its holder asked for.\<close>

theorem instances_exclusive:
  assumes "list_all (\<lambda>x. \<not> lock x) xs" and "(grab_step api31)\<^sup>*\<^sup>* (grab_init xs) (ys, ph)"
  shows "(\<forall>i < length ys. lock (ys ! i) \<longleftrightarrow> (\<exists>!t. \<exists>p. ph t = Holding p i)) \<and>
    (\<forall>t p i. ph t = Holding p i \<longrightarrow> i < length ys \<and> lock (ys ! i) \<and> qzCheckInstCap api31 (instance_cap (ys ! i)) p = QZ_OK)"
proof -
  have "grab_inv api31 (grab_init xs)" using assms(1) by (auto simp: grab_inv_def grab_init_def list_all_length)
  from grab_reach [OF assms(2) this] show ?thesis unfolding grab_inv_def by auto
qed

definition all_caps :: CpaDcInstanceCapabilities where
  "all_caps = \<lparr>statelessLZ4Compression = True, statelessLZ4Decompression = True, statelessLZ4SCompression = True, checksumXXHash32 = True,
     statelessDeflateCompression = True, statelessDeflateDecompression = True, checksumCRC32 = True, dynamicHuffman = True, compressAndVerify = True\<rparr>"

theorem instances_exclusive_witness:
  "\<exists>ys ph. (grab_step True)\<^sup>*\<^sup>* (grab_init [\<lparr>packageId = 0, instance_cap = all_caps, lock = False, hb_ok = True\<rparr>]) (ys, ph) \<and>
    ph 5 = Holding zero_params 0 \<and> lock (ys ! 0)"
proof -
  let ?x = "\<lparr>packageId = 0, instance_cap = all_caps, lock = False, hb_ok = True\<rparr>"
  let ?ph = "(\<lambda>_. Idle)(5 := Searching zero_params (grab_hint 3 1) grab_start)"
  have l: "list_all (\<lambda>x. \<not> lock x) [?x]" by simp
  have 1: "grab_step True (grab_init [?x]) ([?x], ?ph)"
    using grab_step.call [of "\<lambda>_. Idle" 5 True "[?x]" zero_params 3] by (simp add: grab_init_def)
  have "grab_look True zero_params (grab_hint 3 1) grab_start [?x] = (Inr 0, [?x\<lparr>lock := True\<rparr>])"
    by (simp add: grab_look_def grab_start_def grab_hint_def qzCheckInstCap_def all_caps_def zero_params_def)
  from grab_step.took [where ph = ?ph and t = 5, OF _ this]
  have 2: "grab_step True ([?x], ?ph) ([?x\<lparr>lock := True\<rparr>], ?ph(5 := Holding zero_params 0))" by simp
  have r: "(grab_step True)\<^sup>*\<^sup>* (grab_init [?x]) ([?x\<lparr>lock := True\<rparr>], ?ph(5 := Holding zero_params 0))"
    using 1 2 by (meson r_into_rtranclp rtranclp_trans)
  from instances_exclusive [OF l r] have "lock ([?x\<lparr>lock := True\<rparr>] ! 0)" by (metis fun_upd_same)
  then show ?thesis using r by (metis fun_upd_same)
qed

text \<open>(grab_wait_free) Each look of a search brings it nearer to its end, whatever the other threads do in between: a search is over
  after at most 10 rounds of looks.\<close>

theorem grab_wait_free:
  assumes "list_all (\<lambda>x. \<not> lock x) xs" and "(grab_step api31)\<^sup>*\<^sup>* (grab_init xs) (ys, ph)" and "ph t = Searching params hint g"
  shows "grab_left (length ys) g \<le> MAX_GRAB_RETRY * (length ys + 1) + 1 \<and>
    (case grab_look api31 params hint g ys of (Inr r, _) \<Rightarrow> True | (Inl g', zs) \<Rightarrow> zs = ys \<and> grab_left (length ys) g' < grab_left (length ys) g)"
proof -
  have "grab_inv api31 (grab_init xs)" using assms(1) by (auto simp: grab_inv_def grab_init_def list_all_length)
  from grab_reach [OF assms(2) this] assms(3) have p: "grab_pos_ok (length ys) g" "hint < length ys \<or> ys = []" unfolding grab_inv_def by auto
  have "(MAX_GRAB_RETRY - g_retry g) * (length ys + 1) \<le> MAX_GRAB_RETRY * (length ys + 1)" by (rule mult_le_mono1) simp
  then show ?thesis using grab_look_Inl [OF _ p] unfolding grab_left_def by (auto split: sum.split)
qed

theorem grab_wait_free_witness:
  "(case grab_look True zero_params (grab_hint 3 1) grab_start [\<lparr>packageId = 0, instance_cap = all_caps, lock = False, hb_ok = False\<rparr>] of
     (Inr r, _) \<Rightarrow> True | (Inl g', zs) \<Rightarrow> grab_left 1 g' < grab_left 1 grab_start)"
proof -
  let ?x = "\<lparr>packageId = 0, instance_cap = all_caps, lock = False, hb_ok = False\<rparr>"
  let ?ph = "(\<lambda>_. Idle)(5 := Searching zero_params (grab_hint 3 1) grab_start)"
  have l: "list_all (\<lambda>x. \<not> lock x) [?x]" by simp
  have "grab_step True (grab_init [?x]) ([?x], ?ph)"
    using grab_step.call [of "\<lambda>_. Idle" 5 True "[?x]" zero_params 3] by (simp add: grab_init_def)
  then have s: "(grab_step True)\<^sup>*\<^sup>* (grab_init [?x]) ([?x], ?ph)" by (rule r_into_rtranclp)
  from grab_wait_free [OF l s, of 5 zero_params "grab_hint 3 1" grab_start] show ?thesis
    by (auto split: sum.splits)
qed

end
