(* ===== verification/Init.thy ===== *)
theory Init
  imports Hardware Grab
begin

text \<open>
  Starting and stopping the process (\<^verbatim>\<open>qzInit\<close>, \<^verbatim>\<open>stopQat\<close>, \<^verbatim>\<open>getWaitCnt\<close>, \<^verbatim>\<open>getSectionName\<close> of
  \<^verbatim>\<open>src/qatzip.c\<close>). What the driver, the allocator and the threads library answer in a call is a record;
  \<^verbatim>\<open>sal\<close> tells which of the two device interfaces the library is compiled for.
\<close>

abbreviation (input) PTHREAD_KEYS_MAX :: nat where "PTHREAD_KEYS_MAX \<equiv> 1024"

text \<open>\<^verbatim>\<open>CPA_FALSE\<close> and \<^verbatim>\<open>CPA_TRUE\<close> in a field that also holds \<^verbatim>\<open>QZ_NONE\<close>. The keys that exist, the nodes that nothing points to and the number
  of attempts to start the driver are counted.\<close>

record Process =
  qz_init_status :: int
  p_sw_backup :: u8
  dc_inst_handle :: "nat list option"
  qz_inst :: "QzInst list option"
  num_instances :: nat
  qat_available :: int
  t_poll_heartbeat :: bool
  async_req_key :: nat
  waiting :: bool
  wait_cnt :: int
  sal_started :: bool
  keys_made :: nat
  nodes_lost :: nat
  starts :: nat

definition g_process :: Process where
  "g_process = \<lparr>qz_init_status = QZ_NONE, p_sw_backup = 0, dc_inst_handle = None, qz_inst = None, num_instances = 0,
     qat_available = QZ_NONE, t_poll_heartbeat = False, async_req_key = PTHREAD_KEYS_MAX, waiting = False, wait_cnt = 0,
     sal_started = False, keys_made = 0, nodes_lost = 0, starts = 0\<rparr>"

record InitEnv =
  e_lock :: bool
  e_unlock :: bool
  e_key :: "nat option"
  e_sal_available :: bool
  e_adf_devices :: "nat option"
  e_start :: bool
  e_num :: "nat option"
  e_handles_mem :: bool
  e_insts_mem :: bool
  e_handles :: "nat list option"
  e_hw_mem :: bool
  e_node_mem :: "nat \<Rightarrow> bool"
  e_info :: "nat \<Rightarrow> nat option"
  e_caps :: "nat \<Rightarrow> CpaDcInstanceCapabilities option"
  e_notify :: "nat \<Rightarrow> bool"
  e_thread :: bool
  e_params_default :: QzSessionParamsInternal

definition stopQat :: "Process \<Rightarrow> Process" where
  "stopQat P =
    (let P = (if qat_available P = 0 \<or> qz_init_status P = QZ_NONE \<or> qz_init_status P = QZ_NO_HW \<or> qz_init_status P = QZ_NOSW_NO_HW then P
       else if qz_init_status P = QZ_NO_INST_ATTACH then P\<lparr>dc_inst_handle := None, qz_inst := None, sal_started := False\<rparr>
       else if qz_init_status P = QZ_OK then
         (let P = (if dc_inst_handle P \<noteq> None \<and> qz_inst P \<noteq> None then P\<lparr>dc_inst_handle := None, qz_inst := None\<rparr> else P) in P\<lparr>sal_started := False\<rparr>)
       else P) in
     P\<lparr>num_instances := 0, qz_init_status := QZ_NONE, qat_available := QZ_NONE\<rparr>)"

text \<open>\<^verbatim>\<open>BACKOUT\<close>, and \<^verbatim>\<open>QZ_HW_BACKOUT\<close> that frees the devices first.\<close>

definition BACKOUT :: "status \<Rightarrow> u8 \<Rightarrow> Process \<Rightarrow> status \<times> Process" where
  "BACKOUT hw_status sw_backup P =
    (let P = stopQat P in
     if sw_backup = 1 then (QZ_OK, P\<lparr>qz_init_status := QZ_NO_HW\<rparr>)
     else if sw_backup = 0 then (hw_status, P\<lparr>qz_init_status := QZ_NOSW_NO_HW\<rparr>)
     else (QZ_NOSW_NO_HW, P))"

definition QZ_HW_BACKOUT :: "status \<Rightarrow> u8 \<Rightarrow> 'i QzHardware option \<Rightarrow> Process \<Rightarrow> status \<times> Process" where
  "QZ_HW_BACKOUT hw_status sw_backup hw P =
    (let P = (case hw of None \<Rightarrow> P | Some H \<Rightarrow>
       (case clearDevices hw of (_, Some H') \<Rightarrow> P\<lparr>nodes_lost := nodes_lost P + size (all_instances (devices H'))\<rparr> | (_, None) \<Rightarrow> P)) in
     BACKOUT hw_status sw_backup P)"

definition getWaitCnt :: "QzSessionParamsInternal \<Rightarrow> QzSessionParamsInternal option \<Rightarrow> u32" where
  "getWaitCnt dflt internal = (case internal of Some ps \<Rightarrow> i_wait_cnt_thrshold ps | None \<Rightarrow> i_wait_cnt_thrshold dflt)"

text \<open>The name of the driver's section: the environment's, cut to its size.\<close>

definition QAT_SECTION_NAME_SIZE :: nat where "QAT_SECTION_NAME_SIZE = 32"

definition getSectionName :: "string option \<Rightarrow> string" where
  "getSectionName env = take (QAT_SECTION_NAME_SIZE - 1) (case env of None \<Rightarrow> ''SHIM'' | Some s \<Rightarrow> if s = [] then ''SHIM'' else s)"

text \<open>Entering the \<open>k\<close> instances from \<open>i\<close> on: the devices, or with what code the start fails and how many nodes it lost.\<close>

primrec find_instances ::
  "nat \<Rightarrow> nat \<Rightarrow> InitEnv \<Rightarrow> nat list \<Rightarrow> (QzInst \<times> nat) QzHardware \<Rightarrow> (status \<times> nat + unit) \<times> (QzInst \<times> nat) QzHardware" where
  "find_instances 0 i env hs H = (Inr (), H)"
| "find_instances (Suc k) i env hs H =
    (if \<not> e_node_mem env i then (Inl (QZ_NOSW_LOW_MEM, 0), H)
     else (case e_info env (hs ! i) of None \<Rightarrow> (Inl (QZ_NOSW_NO_HW, 0), H)
     | Some dev_id \<Rightarrow>
     (case e_caps env (hs ! i) of None \<Rightarrow> (Inl (QZ_NOSW_NO_HW, 0), H)
     | Some caps \<Rightarrow>
       (case setInstance dev_id (Some ((\<lparr>packageId = dev_id, instance_cap = caps, lock = False, hb_ok = True\<rparr>, hs ! i), [])) (Some H) of
          (rc, Some H') \<Rightarrow> if rc \<noteq> QZ_OK then (Inl (QZ_NOSW_NO_INST_ATTACH, 1), H') else find_instances k (i + 1) env hs H'
        | (_, None) \<Rightarrow> (Inl (QZ_NOSW_NO_INST_ATTACH, 1), H)))))"

text \<open>With the driver started: the instances. The result is \<open>None\<close> when the shuffle does not end.\<close>

definition start_instances :: "u8 \<Rightarrow> InitEnv \<Rightarrow> Process \<Rightarrow> (status \<times> Process) option" where
  "start_instances sw env P =
    (let P = P\<lparr>qz_init_status := QZ_NO_INST_ATTACH\<rparr> in
     case e_num env of None \<Rightarrow> Some (BACKOUT QZ_NOSW_NO_INST_ATTACH sw P)
     | Some n \<Rightarrow>
     (let P = P\<lparr>num_instances := n, dc_inst_handle := if e_handles_mem env then Some (replicate n 0) else None,
          qz_inst := if e_insts_mem env then Some [] else None\<rparr> in
      if dc_inst_handle P = None \<or> qz_inst P = None then Some (BACKOUT QZ_NOSW_LOW_MEM sw P)
      else (case e_handles env of None \<Rightarrow> Some (BACKOUT QZ_NOSW_NO_INST_ATTACH sw P)
      | Some hs \<Rightarrow>
        if \<not> e_hw_mem env then Some (BACKOUT QZ_NOSW_LOW_MEM sw P)
        else (case find_instances n 0 env hs no_hardware of
          (Inl (rc, lost), H) \<Rightarrow> Some (QZ_HW_BACKOUT rc sw (Some H) (P\<lparr>nodes_lost := nodes_lost P + lost\<rparr>))
        | (Inr _, H) \<Rightarrow>
          (case shuffle (QAT_MAX_DEVICES * n) 0 n H of None \<Rightarrow> None
          | Some (ys, H) \<Rightarrow>
            (let P = P\<lparr>qz_inst := Some (map fst ys), dc_inst_handle := Some (map snd ys)\<rparr> in
             if \<not> list_all (e_notify env) [0..<length ys] then Some (QZ_HW_BACKOUT QZ_NOSW_NO_INST_ATTACH sw (Some H) P)
             else Some (QZ_OK, P\<lparr>t_poll_heartbeat := e_thread env, qz_init_status := QZ_OK\<rparr>)))))))"

definition available :: "bool \<Rightarrow> InitEnv \<Rightarrow> bool" where
  "available sal env = (if sal then e_sal_available env else (case e_adf_devices env of None \<Rightarrow> False | Some n \<Rightarrow> n \<ge> 1))"

text \<open>The part under the lock.\<close>

definition init_locked :: "bool \<Rightarrow> InitEnv \<Rightarrow> QzSessionParamsInternal option \<Rightarrow> u8 \<Rightarrow> Process \<Rightarrow> (status \<times> Process) option" where
  "init_locked sal env internal sw P =
    (case e_key env of None \<Rightarrow> Some (BACKOUT QZ_NOSW_NO_HW sw (P\<lparr>async_req_key := PTHREAD_KEYS_MAX\<rparr>))
     | Some key \<Rightarrow>
     (let P = P\<lparr>async_req_key := key, keys_made := keys_made P + 1, p_sw_backup := sw\<rparr> in
      if waiting P \<and> wait_cnt P > 0 then Some (BACKOUT QZ_NOSW_NO_HW sw (P\<lparr>wait_cnt := wait_cnt P - 1\<rparr>))
      else (let P = P\<lparr>waiting := False, qat_available := if available sal env then 1 else 0\<rparr> in
        if qat_available P = 0 then Some (BACKOUT QZ_NOSW_NO_HW sw P)
        else (let P = P\<lparr>starts := starts P + 1\<rparr> in
          if \<not> e_start env then Some (BACKOUT QZ_NOSW_NO_HW sw (P\<lparr>waiting := True, wait_cnt := sint (getWaitCnt (e_params_default env) internal)\<rparr>))
          else start_instances sw env (P\<lparr>sal_started := True\<rparr>)))))"

text \<open>The whole call. \<open>seen\<close> is the state at the first look, before the lock is taken.\<close>

definition qzInit ::
  "bool \<Rightarrow> InitEnv \<Rightarrow> QzSessionParamsInternal option option \<Rightarrow> u8 \<Rightarrow> Process \<Rightarrow> Process \<Rightarrow> (status \<times> Process) option" where
  "qzInit sal env sess sw seen P =
    (case sess of None \<Rightarrow> Some (QZ_PARAMS, P)
     | Some internal \<Rightarrow>
       if sw > 1 then Some (QZ_PARAMS, P)
       else if qat_available seen = 0 \<or> qz_init_status seen = QZ_OK then Some (QZ_DUPLICATE, P)
       else if \<not> e_lock env then Some (QZ_NOSW_NO_HW, P)
       else if qz_init_status P = QZ_OK then
         (if \<not> e_unlock env then Some (QZ_NOSW_NO_HW, P) else Some (QZ_DUPLICATE, P\<lparr>p_sw_backup := sw\<rparr>))
       else (case init_locked sal env internal sw P of None \<Rightarrow> None
         | Some (rc, P) \<Rightarrow> if \<not> e_unlock env then Some (QZ_NOSW_NO_HW, P) else Some (rc, P)))"

section \<open>The state of the process\<close>

definition proc_down :: "Process \<Rightarrow> bool" where
  "proc_down P \<longleftrightarrow> dc_inst_handle P = None \<and> qz_inst P = None \<and> num_instances P = 0 \<and> \<not> sal_started P"

definition proc_up :: "Process \<Rightarrow> bool" where
  "proc_up P \<longleftrightarrow> sal_started P \<and> (\<exists>hs xs. dc_inst_handle P = Some hs \<and> qz_inst P = Some xs \<and> length hs = num_instances P \<and>
     length xs = num_instances P)"

text \<open>Between calls the process has one of four states, and the driver and the instances are there exactly when it says so.\<close>

definition proc_inv :: "Process \<Rightarrow> bool" where
  "proc_inv P \<longleftrightarrow> (qz_init_status P = QZ_OK \<and> qat_available P = 1 \<and> proc_up P) \<or>
     (qz_init_status P \<in> {QZ_NONE, QZ_NO_HW, QZ_NOSW_NO_HW} \<and> qat_available P = QZ_NONE \<and> proc_down P)"

lemma g_process_inv: "proc_inv g_process"
  by (simp add: proc_inv_def g_process_def proc_down_def)

text \<open>What a failed start leaves: the state to back out of is either not started, or started and not finished.\<close>

definition backout_ok :: "Process \<Rightarrow> bool" where
  "backout_ok P \<longleftrightarrow> (qz_init_status P \<in> {QZ_NONE, QZ_NO_HW, QZ_NOSW_NO_HW} \<and> proc_down P) \<or> (qz_init_status P = QZ_NO_INST_ATTACH \<and> qat_available P \<noteq> 0)"

definition outcome :: "u8 \<Rightarrow> status \<times> Process \<Rightarrow> bool" where
  "outcome sw r \<longleftrightarrow> (case r of (rc, P) \<Rightarrow> proc_inv P \<and>
     ((qz_init_status P = QZ_OK \<and> rc = QZ_OK) \<or> (qz_init_status P = QZ_NO_HW \<and> sw = 1 \<and> rc = QZ_OK) \<or>
      (qz_init_status P = QZ_NOSW_NO_HW \<and> sw = 0 \<and> rc < 0)))"

lemma stopQat_ok: "backout_ok P \<Longrightarrow> proc_down (stopQat P) \<and> qat_available (stopQat P) = QZ_NONE"
  by (auto simp: backout_ok_def stopQat_def proc_down_def Let_def)

lemma sw_cases: "(sw::u8) \<le> 1 \<Longrightarrow> sw = 0 \<or> sw = 1"
  by (metis le_less less_one not_le word_le_sub1 diff_self unat_1 word_less_1)

lemma BACKOUT_outcome:
  assumes "backout_ok P" "sw \<le> 1" "rc < 0"
  shows "outcome sw (BACKOUT rc sw P) \<and> qz_init_status (snd (BACKOUT rc sw P)) \<noteq> QZ_OK"
proof -
  have "sw = 0 \<or> sw = 1" by (rule sw_cases [OF assms(2)])
  then show ?thesis using stopQat_ok [OF assms(1)] assms(3) by (auto simp: outcome_def BACKOUT_def proc_inv_def proc_down_def Let_def)
qed

lemma QZ_HW_BACKOUT_outcome:
  assumes "backout_ok P" "sw \<le> 1" "rc < 0"
  shows "outcome sw (QZ_HW_BACKOUT rc sw hw P) \<and> qz_init_status (snd (QZ_HW_BACKOUT rc sw hw P)) \<noteq> QZ_OK"
proof -
  have "backout_ok (P\<lparr>nodes_lost := m\<rparr>)" for m using assms(1) by (simp add: backout_ok_def proc_down_def)
  from BACKOUT_outcome [OF this assms(2,3)] BACKOUT_outcome [OF assms] show ?thesis
    unfolding QZ_HW_BACKOUT_def Let_def by (auto split: option.split prod.split)
qed

text \<open>The instance the driver describes by a handle.\<close>

definition inst_of :: "InitEnv \<Rightarrow> nat \<Rightarrow> QzInst \<times> nat" where
  "inst_of env h = (\<lparr>packageId = the (e_info env h), instance_cap = the (e_caps env h), lock = False, hb_ok = True\<rparr>, h)"

lemma find_instances_inv:
  "hw_inv H \<Longrightarrow> k + i \<le> length hs \<Longrightarrow> find_instances k i env hs H = (r, H') \<Longrightarrow> hw_inv H' \<and>
    (case r of Inr _ \<Rightarrow> all_instances (devices H') = all_instances (devices H) + mset (map (inst_of env) (take k (drop i hs)))
     | Inl (rc, _) \<Rightarrow> rc < 0)"
proof (induction k arbitrary: i H)
  case (Suc k)
  show ?case
  proof (cases "e_node_mem env i \<and> e_info env (hs ! i) \<noteq> None \<and> e_caps env (hs ! i) \<noteq> None")
    case False
    then show ?thesis using Suc.prems(1,3) by (auto split: if_splits option.splits)
  next
    case True
    then obtain dev caps where d: "e_info env (hs ! i) = Some dev" "e_caps env (hs ! i) = Some caps" "e_node_mem env i" by auto
    then have x: "(\<lparr>packageId = dev, instance_cap = caps, lock = False, hb_ok = True\<rparr>, hs ! i) = inst_of env (hs ! i)"
      by (simp add: inst_of_def)
    show ?thesis
    proof (cases "dev < QAT_MAX_DEVICES")
      case False
      then show ?thesis using Suc.prems(1,3) d by (auto simp: setInstance_def)
    next
      case True
      from setInstance_ok [OF Suc.prems(1) True, of "inst_of env (hs ! i)"] obtain H1 where s:
        "setInstance dev (Some (inst_of env (hs ! i), [])) (Some H) = (QZ_OK, Some H1)" "hw_inv H1"
        "all_instances (devices H1) = add_mset (inst_of env (hs ! i)) (all_instances (devices H))" by blast
      have "find_instances k (i + 1) env hs H1 = (r, H')" using Suc.prems(3) d s(1) by (simp add: x)
      from Suc.IH [OF s(2) _ this] Suc.prems(2) have "hw_inv H' \<and>
        (case r of Inr _ \<Rightarrow> all_instances (devices H') = all_instances (devices H1) + mset (map (inst_of env) (take k (drop (i + 1) hs)))
         | Inl (rc, _) \<Rightarrow> rc < 0)" by (simp only: add_Suc_shift Suc_eq_plus1 [symmetric])
      moreover have "take (Suc k) (drop i hs) = hs ! i # take k (drop (i + 1) hs)"
        using Suc.prems(2) by (simp add: Cons_nth_drop_Suc [symmetric])
      ultimately show ?thesis using s(3) by (cases r) auto
    qed
  qed
qed auto

text \<open>A started process has the instances of the driver's answer.\<close>

definition has_instances :: "InitEnv \<Rightarrow> Process \<Rightarrow> bool" where
  "has_instances env P \<longleftrightarrow> (\<exists>hs xs ys. e_handles env = Some hs \<and> qz_inst P = Some xs \<and> dc_inst_handle P = Some ys \<and>
     mset (zip xs ys) = mset (map (inst_of env) hs))"

lemma start_instances_outcome:
  assumes e: "\<And>hs. e_handles env = Some hs \<Longrightarrow> e_num env = Some (length hs)" and sw: "sw \<le> 1" and P: "qat_available P = 1" "sal_started P"
  shows "\<exists>r. start_instances sw env P = Some r \<and> outcome sw r \<and> (qz_init_status (snd r) = QZ_OK \<longrightarrow> has_instances env (snd r))"
proof -
  have bo: "backout_ok Q" if "qz_init_status Q = QZ_NO_INST_ATTACH" "qat_available Q = 1" for Q using that by (simp add: backout_ok_def)
  let ?P = "P\<lparr>qz_init_status := QZ_NO_INST_ATTACH\<rparr>"
  have fail: ?thesis if "start_instances sw env P = Some (BACKOUT c sw Q)" "c < 0" "qz_init_status Q = QZ_NO_INST_ATTACH" "qat_available Q = 1" for c Q
    using BACKOUT_outcome [OF bo [OF that(3,4)] sw that(2)] that(1) by auto
  have hwfail: ?thesis if "start_instances sw env P = Some (QZ_HW_BACKOUT c sw H Q)" "c < 0" "qz_init_status Q = QZ_NO_INST_ATTACH" "qat_available Q = 1" for c H Q
    using QZ_HW_BACKOUT_outcome [OF bo [OF that(3,4)] sw that(2), of H] that(1) by auto
  show ?thesis
  proof (cases "e_num env")
    case None
    then show ?thesis by (intro fail [of QZ_NOSW_NO_INST_ATTACH ?P]) (use P in \<open>simp_all add: start_instances_def\<close>)
  next
    case (Some n)
    define Q where "Q = ?P\<lparr>num_instances := n, dc_inst_handle := if e_handles_mem env then Some (replicate n 0) else None,
      qz_inst := if e_insts_mem env then Some [] else None\<rparr>"
    have Q: "qz_init_status Q = QZ_NO_INST_ATTACH" "qat_available Q = 1" using P by (simp_all add: Q_def)
    note st = start_instances_def [of sw env P, unfolded Let_def Some option.case, folded Q_def]
    show ?thesis
    proof (cases "dc_inst_handle Q = None \<or> qz_inst Q = None")
      case True
      then show ?thesis by (intro fail [of QZ_NOSW_LOW_MEM Q]) (use Q st in simp_all)
    next
      case mem: False
      note st1 = st [unfolded if_not_P [OF mem]]
      show ?thesis
      proof (cases "e_handles env")
        case None
        then show ?thesis by (intro fail [of QZ_NOSW_NO_INST_ATTACH Q]) (use Q st1 in simp_all)
      next
        case hs: (Some hs)
        then have n: "n = length hs" using e Some by simp
        note st2 = st1 [unfolded hs option.case]
        show ?thesis
        proof (cases "e_hw_mem env")
          case False
          then show ?thesis by (intro fail [of QZ_NOSW_LOW_MEM Q]) (use Q st2 in simp_all)
        next
          case hw: True
          obtain r H where f: "find_instances n 0 env hs no_hardware = (r, H)" by (cases "find_instances n 0 env hs no_hardware")
          note i = find_instances_inv [OF no_hardware_inv(1) _ f]
          show ?thesis
          proof (cases r)
            case (Inl z)
            obtain c l where z: "z = (c, l)" by (cases z)
            show ?thesis by (rule hwfail [of c "Some H" "Q\<lparr>nodes_lost := nodes_lost Q + l\<rparr>"])
              (use Q st2 hw f i n Inl z in simp_all)
          next
            case (Inr u)
            have a: "hw_inv H" "all_instances (devices H) = mset (map (inst_of env) hs)" using i Inr n by simp_all
            have "size (all_instances (devices H)) = n" by (simp add: a(2) n)
            from shuffle_all [OF a(1) this order_refl, of 0] obtain ys H' where s: "shuffle (QAT_MAX_DEVICES * n) 0 n H = Some (ys, H')"
              "mset ys = mset (map (inst_of env) hs)" using a(2) by auto
            have l: "length ys = n" using s(2) by (metis n length_map size_mset)
            let ?Q = "Q\<lparr>qz_inst := Some (map fst ys), dc_inst_handle := Some (map snd ys)\<rparr>"
            note st3 = st2 [unfolded f Inr prod.case sum.case s(1) option.case]
            show ?thesis
            proof (cases "list_all (e_notify env) [0..<length ys]")
              case False
              then show ?thesis by (intro hwfail [of QZ_NOSW_NO_INST_ATTACH "Some H'" ?Q]) (use Q st3 hw in simp_all)
            next
              case True
              have z: "zip (map fst ys) (map snd ys) = ys" by (rule zip_map_fst_snd)
              have "proc_up (?Q\<lparr>t_poll_heartbeat := e_thread env, qz_init_status := QZ_OK\<rparr>)"
                using P l by (simp add: proc_up_def Q_def)
              then have "outcome sw (QZ_OK, ?Q\<lparr>t_poll_heartbeat := e_thread env, qz_init_status := QZ_OK\<rparr>)"
                using Q(2) by (simp add: outcome_def proc_inv_def)
              then show ?thesis using st3 hw True s(2) hs z by (simp add: has_instances_def)
            qed
          qed
        qed
      qed
    qed
  qed
qed


lemma init_locked_outcome:
  assumes e: "\<And>hs. e_handles env = Some hs \<Longrightarrow> e_num env = Some (length hs)" and sw: "sw \<le> 1" and v: "proc_inv P" and d: "qz_init_status P \<noteq> QZ_OK"
  shows "\<exists>r. init_locked sal env internal sw P = Some r \<and> outcome sw r \<and> (qz_init_status (snd r) = QZ_OK \<longrightarrow> has_instances env (snd r))"
proof -
  have dn: "qz_init_status P \<in> {QZ_NONE, QZ_NO_HW, QZ_NOSW_NO_HW}" "proc_down P" using v d by (auto simp: proc_inv_def)
  have fail: ?thesis if "init_locked sal env internal sw P = Some (BACKOUT QZ_NOSW_NO_HW sw Q)"
    "qz_init_status Q = qz_init_status P" "dc_inst_handle Q = dc_inst_handle P" "qz_inst Q = qz_inst P" "num_instances Q = num_instances P"
    "sal_started Q = sal_started P" for Q
  proof -
    have "backout_ok Q" using dn that by (simp add: backout_ok_def proc_down_def)
    from BACKOUT_outcome [OF this sw, of QZ_NOSW_NO_HW] that(1) show ?thesis by auto
  qed
  show ?thesis
  proof (cases "e_key env")
    case None
    then show ?thesis by (intro fail [of "P\<lparr>async_req_key := PTHREAD_KEYS_MAX\<rparr>"]) (simp_all add: init_locked_def)
  next
    case (Some key)
    define Q where "Q = P\<lparr>async_req_key := key, keys_made := keys_made P + 1, p_sw_backup := sw\<rparr>"
    have Q: "qz_init_status Q = qz_init_status P" "dc_inst_handle Q = dc_inst_handle P" "qz_inst Q = qz_inst P" "num_instances Q = num_instances P"
      "sal_started Q = sal_started P" by (simp_all add: Q_def)
    define R where "R = Q\<lparr>waiting := False, qat_available := if available sal env then 1 else 0\<rparr>"
    have R: "qz_init_status R = qz_init_status P" "dc_inst_handle R = dc_inst_handle P" "qz_inst R = qz_inst P" "num_instances R = num_instances P"
      "sal_started R = sal_started P" by (simp_all add: R_def Q)
    note st = init_locked_def [of sal env internal sw P, unfolded Some option.case Let_def, folded Q_def, folded R_def]
    consider "waiting Q \<and> wait_cnt Q > 0" | "\<not> (waiting Q \<and> wait_cnt Q > 0)" "qat_available R = 0"
      | "\<not> (waiting Q \<and> wait_cnt Q > 0)" "qat_available R \<noteq> 0" "\<not> e_start env"
      | "\<not> (waiting Q \<and> wait_cnt Q > 0)" "qat_available R \<noteq> 0" "e_start env" by blast
    then show ?thesis
    proof cases
      case 1
      then show ?thesis by (intro fail [of "Q\<lparr>wait_cnt := wait_cnt Q - 1\<rparr>"]) (simp_all add: st Q)
    next
      case 2
      then show ?thesis by (intro fail [of R]) (simp_all add: st [unfolded if_not_P [OF 2(1)]] R)
    next
      case 3
      then show ?thesis
        by (intro fail [of "R\<lparr>starts := starts R + 1, waiting := True, wait_cnt := sint (getWaitCnt (e_params_default env) internal)\<rparr>"])
          (simp_all add: st [unfolded if_not_P [OF 3(1)]] R)
    next
      case 4
      let ?R = "R\<lparr>starts := starts R + 1, sal_started := True\<rparr>"
      have "qat_available ?R = 1" "sal_started ?R" using 4(2) by (simp_all add: R_def split: if_splits)
      from start_instances_outcome [OF e sw this] 4 show ?thesis
        by (simp add: st [unfolded if_not_P [OF 4(1)]])
    qed
  qed
qed

section \<open>Properties\<close>

text \<open>C25: (qzInit_outcome) A start that finds the process not started returns, and leaves it in one of exactly three states: started, with the
  instances the driver described, each once, and the code \<^verbatim>\<open>QZ_OK\<close>; or with nothing of the hardware held, as \<^verbatim>\<open>QZ_NO_HW\<close> with
  \<^verbatim>\<open>QZ_OK\<close> when software may take over; or as \<^verbatim>\<open>QZ_NOSW_NO_HW\<close> with an error.\<close>

theorem qzInit_outcome:
  assumes "\<And>hs. e_handles env = Some hs \<Longrightarrow> e_num env = Some (length hs)" and "sw \<le> 1" and "proc_inv P" and "qz_init_status P \<noteq> QZ_OK"
    and "e_lock env" and "e_unlock env" and "qat_available seen \<noteq> 0" and "qz_init_status seen \<noteq> QZ_OK"
  shows "\<exists>rc Q. qzInit sal env (Some internal) sw seen P = Some (rc, Q) \<and> proc_inv Q \<and>
    (qz_init_status Q = QZ_OK \<and> rc = QZ_OK \<and> has_instances env Q \<or>
     qz_init_status Q = QZ_NO_HW \<and> sw = 1 \<and> rc = QZ_OK \<and> proc_down Q \<or>
     qz_init_status Q = QZ_NOSW_NO_HW \<and> sw = 0 \<and> rc < 0 \<and> proc_down Q)"
proof -
  obtain r where r: "init_locked sal env internal sw P = Some r" "outcome sw r" "qz_init_status (snd r) = QZ_OK \<longrightarrow> has_instances env (snd r)"
    using init_locked_outcome [OF assms(1-4)] by blast
  have "\<not> sw > 1" using assms(2) by simp
  then have "qzInit sal env (Some internal) sw seen P = Some r" using r(1) assms(4-8) by (simp add: qzInit_def split: prod.split)
  then show ?thesis using r(2,3) by (cases r) (auto simp: outcome_def proc_inv_def)
qed

text \<open>An environment with \<open>n\<close> instances on one device.\<close>

definition good_env :: "nat \<Rightarrow> InitEnv" where
  "good_env n = \<lparr>e_lock = True, e_unlock = True, e_key = Some 3, e_sal_available = True, e_adf_devices = Some 1, e_start = True,
     e_num = Some n, e_handles_mem = True, e_insts_mem = True, e_handles = Some [0..<n], e_hw_mem = True, e_node_mem = \<lambda>_. True,
     e_info = \<lambda>h. Some (h mod 2), e_caps = \<lambda>_. Some all_caps, e_notify = \<lambda>_. True, e_thread = True, e_params_default = g_sess_params_internal_default\<rparr>"

theorem qzInit_outcome_witness:
  "(\<exists>Q. qzInit True (good_env 3) (Some None) 1 g_process g_process = Some (QZ_OK, Q) \<and> qz_init_status Q \<in> {QZ_OK, QZ_NO_HW})"
proof -
  have a: "\<And>hs. e_handles (good_env 3) = Some hs \<Longrightarrow> e_num (good_env 3) = Some (length hs)" by (auto simp: good_env_def)
  have b: "(1::u8) \<le> 1" "qz_init_status g_process \<noteq> QZ_OK" "qat_available g_process \<noteq> 0" "e_lock (good_env 3)" "e_unlock (good_env 3)"
    by (simp_all add: g_process_def good_env_def)
  from qzInit_outcome [OF a b(1) g_process_inv b(2,4,5,3,2), of True None] show ?thesis by auto
qed


text \<open>What happens to a process: calls of \<^verbatim>\<open>qzInit\<close> with whatever arguments and answers, and its exit.\<close>

datatype proc_op = Init_call InitEnv "QzSessionParamsInternal option option" u8 Process | Stop_call

primrec proc_step :: "bool \<Rightarrow> proc_op \<Rightarrow> Process \<Rightarrow> Process option" where
  "proc_step sal (Init_call env sess sw seen) P = map_option snd (qzInit sal env sess sw seen P)"
| "proc_step sal Stop_call P = Some (stopQat P)"

primrec proc_run :: "bool \<Rightarrow> proc_op list \<Rightarrow> Process \<Rightarrow> Process option" where
  "proc_run sal [] P = Some P"
| "proc_run sal (x # xs) P = (case proc_step sal x P of None \<Rightarrow> None | Some P \<Rightarrow> proc_run sal xs P)"

text \<open>The driver fills in as many handles as it said there are.\<close>

definition env_ok :: "InitEnv \<Rightarrow> bool" where
  "env_ok env \<longleftrightarrow> (\<forall>hs. e_handles env = Some hs \<longrightarrow> e_num env = Some (length hs))"

primrec op_env_ok :: "proc_op \<Rightarrow> bool" where
  "op_env_ok (Init_call env sess sw seen) = env_ok env"
| "op_env_ok Stop_call = True"

lemma qzInit_inv: "proc_inv P \<Longrightarrow> env_ok env \<Longrightarrow> \<exists>rc Q. qzInit sal env sess sw seen P = Some (rc, Q) \<and> proc_inv Q"
proof (cases "sess = None \<or> sw > 1 \<or> qat_available seen = 0 \<or> qz_init_status seen = QZ_OK \<or> \<not> e_lock env \<or> qz_init_status P = QZ_OK")
  case True
  assume v: "proc_inv P"
  then have "proc_inv (P\<lparr>p_sw_backup := sw\<rparr>)" by (simp add: proc_inv_def proc_up_def proc_down_def)
  then show ?thesis using True v by (cases sess) (simp_all add: qzInit_def, blast)
next
  case False
  assume v: "proc_inv P" and e: "env_ok env"
  obtain internal where i: "sess = Some internal" using False by auto
  have "\<And>hs. e_handles env = Some hs \<Longrightarrow> e_num env = Some (length hs)" using e by (simp add: env_ok_def)
  from init_locked_outcome [OF this _ v, of sw sal internal] False obtain rc Q where
    "init_locked sal env internal sw P = Some (rc, Q)" "proc_inv Q" by (auto simp: outcome_def not_less)
  then show ?thesis using False by (simp add: qzInit_def i)
qed

lemma stopQat_inv: "proc_inv P \<Longrightarrow> proc_inv (stopQat P)"
  by (auto simp: proc_inv_def proc_up_def stopQat_def proc_down_def Let_def)

text \<open>C37: (process_consistent) Whatever calls of \<^verbatim>\<open>qzInit\<close> a process makes, with whatever answers of the driver, the allocator and the threads library, each
  returns, and between them the state is one of not started, started, without hardware and without hardware or
  software; the driver is attached and the arrays of instances are there, of the length it says, exactly when it is started.\<close>

theorem process_consistent:
  assumes "list_all op_env_ok xs"
  shows "\<exists>P. proc_run sal xs g_process = Some P \<and> qz_init_status P \<in> {QZ_OK, QZ_NONE, QZ_NO_HW, QZ_NOSW_NO_HW} \<and>
    (if qz_init_status P = QZ_OK then proc_up P else proc_down P)"
proof -
  have "\<exists>P. proc_run sal xs P0 = Some P \<and> proc_inv P" if "proc_inv P0" "list_all op_env_ok xs" for P0
    using that
  proof (induction xs arbitrary: P0)
    case (Cons x xs)
    have "\<exists>P. proc_step sal x P0 = Some P \<and> proc_inv P"
    proof (cases x)
      case (Init_call env sess sw seen)
      then show ?thesis using qzInit_inv [OF Cons.prems(1), of env sal sess sw seen] Cons.prems(2) by force
    qed (use stopQat_inv [OF Cons.prems(1)] in simp)
    then show ?case using Cons by auto
  qed simp
  from this [OF g_process_inv assms] show ?thesis by (auto simp: proc_inv_def)
qed

theorem process_consistent_witness:
  "\<exists>P. proc_run True [Init_call (good_env 3) (Some None) 1 g_process, Stop_call, Init_call ((good_env 3)\<lparr>e_start := False\<rparr>) (Some None) 0 g_process]
     g_process = Some P \<and> (if qz_init_status P = QZ_OK then proc_up P else proc_down P)"
proof -
  have "list_all op_env_ok [Init_call (good_env 3) (Some None) 1 g_process, Stop_call,
      Init_call ((good_env 3)\<lparr>e_start := False\<rparr>) (Some None) 0 g_process]"
    by (simp add: env_ok_def good_env_def)
  from process_consistent [OF this] show ?thesis by blast
qed

text \<open>The library's calls of \<^verbatim>\<open>qzInit\<close> by one session, one after the other.\<close>

primrec init_run :: "bool \<Rightarrow> QzSessionParamsInternal option \<Rightarrow> u8 \<Rightarrow> InitEnv list \<Rightarrow> Process \<Rightarrow> Process option" where
  "init_run sal internal sw [] P = Some P"
| "init_run sal internal sw (env # envs) P =
    (case qzInit sal env (Some internal) sw P P of Some (_, P) \<Rightarrow> init_run sal internal sw envs P | None \<Rightarrow> None)"

text \<open>The device is there and the driver does not start.\<close>

definition start_fails :: "bool \<Rightarrow> InitEnv \<Rightarrow> bool" where
  "start_fails sal env \<longleftrightarrow> e_lock env \<and> e_key env \<noteq> None \<and> available sal env \<and> \<not> e_start env"

text \<open>How many calls are still to be answered without trying.\<close>

definition to_wait :: "Process \<Rightarrow> nat" where
  "to_wait P = (if waiting P then nat (wait_cnt P) else 0)"

lemma BACKOUT_keeps:
  assumes "qz_init_status P \<in> {QZ_NONE, QZ_NO_HW, QZ_NOSW_NO_HW}" "sw \<le> 1"
  shows "\<exists>rc Q. BACKOUT c sw P = (rc, Q) \<and> starts Q = starts P \<and> waiting Q = waiting P \<and> wait_cnt Q = wait_cnt P \<and> keys_made Q = keys_made P \<and>
    qz_init_status Q \<in> {QZ_NO_HW, QZ_NOSW_NO_HW} \<and> qat_available Q = QZ_NONE"
proof -
  have "sw = 0 \<or> sw = 1" by (rule sw_cases [OF assms(2)])
  then show ?thesis using assms(1) by (auto simp: BACKOUT_def stopQat_def Let_def)
qed

lemma qzInit_waits:
  assumes f: "start_fails sal env" and P: "qz_init_status P \<in> {QZ_NONE, QZ_NO_HW, QZ_NOSW_NO_HW}" "qat_available P \<noteq> 0" and sw: "sw \<le> 1"
    and w: "0 \<le> sint (getWaitCnt (e_params_default env) internal)"
  shows "\<exists>rc Q. qzInit sal env (Some internal) sw P P = Some (rc, Q) \<and> qz_init_status Q \<in> {QZ_NO_HW, QZ_NOSW_NO_HW} \<and> qat_available Q = QZ_NONE \<and>
    keys_made Q = keys_made P + 1 \<and>
    (if to_wait P > 0 then starts Q = starts P \<and> to_wait Q = to_wait P - 1 else starts Q = starts P + 1 \<and> to_wait Q = nat (sint (getWaitCnt (e_params_default env) internal)))"
proof -
  obtain key where k: "e_key env = Some key" using f by (auto simp: start_fails_def)
  have s: "\<not> sw > 1" "qz_init_status P \<noteq> QZ_OK" using sw P by auto
  define Q where "Q = P\<lparr>async_req_key := key, keys_made := keys_made P + 1, p_sw_backup := sw\<rparr>"
  have av: "available sal env" "e_lock env" "\<not> e_start env" using f by (simp_all add: start_fails_def)
  have i: "qzInit sal env (Some internal) sw P P = (case init_locked sal env internal sw P of None \<Rightarrow> None
      | Some (rc, P) \<Rightarrow> if \<not> e_unlock env then Some (QZ_NOSW_NO_HW, P) else Some (rc, P))"
    using s P(2) av(2) by (simp add: qzInit_def)
  show ?thesis
  proof (cases "waiting Q \<and> wait_cnt Q > 0")
    case True
    let ?Q = "Q\<lparr>wait_cnt := wait_cnt Q - 1\<rparr>"
    have "init_locked sal env internal sw P = Some (BACKOUT QZ_NOSW_NO_HW sw ?Q)"
      using True unfolding init_locked_def k option.case Let_def Q_def [symmetric] by simp
    moreover have "qz_init_status ?Q \<in> {QZ_NONE, QZ_NO_HW, QZ_NOSW_NO_HW}" using P by (simp add: Q_def)
    from BACKOUT_keeps [OF this sw] obtain rc R where "BACKOUT QZ_NOSW_NO_HW sw ?Q = (rc, R)" "starts R = starts ?Q" "waiting R = waiting ?Q"
      "wait_cnt R = wait_cnt ?Q" "keys_made R = keys_made ?Q" "qz_init_status R \<in> {QZ_NO_HW, QZ_NOSW_NO_HW}" "qat_available R = QZ_NONE" by blast
    ultimately show ?thesis unfolding i using True by (auto simp: to_wait_def Q_def nat_diff_distrib)
  next
    case False
    let ?Q = "Q\<lparr>qat_available := 1, starts := Suc (starts Q), waiting := True, wait_cnt := sint (getWaitCnt (e_params_default env) internal)\<rparr>"
    have "init_locked sal env internal sw P = Some (BACKOUT QZ_NOSW_NO_HW sw ?Q)"
      using av unfolding init_locked_def k option.case Let_def Q_def [symmetric] if_not_P [OF False] by simp
    moreover have "qz_init_status ?Q \<in> {QZ_NONE, QZ_NO_HW, QZ_NOSW_NO_HW}" using P by (simp add: Q_def)
    from BACKOUT_keeps [OF this sw] obtain rc R where "BACKOUT QZ_NOSW_NO_HW sw ?Q = (rc, R)" "starts R = starts ?Q" "waiting R = waiting ?Q"
      "wait_cnt R = wait_cnt ?Q" "keys_made R = keys_made ?Q" "qz_init_status R \<in> {QZ_NO_HW, QZ_NOSW_NO_HW}" "qat_available R = QZ_NONE" by blast
    moreover have "\<not> to_wait P > 0" using False by (auto simp: to_wait_def Q_def)
    ultimately show ?thesis unfolding i using False w by (auto simp: to_wait_def Q_def)
  qed
qed

lemma init_run_starts:
  "list_all (start_fails sal) envs \<Longrightarrow> qz_init_status P \<in> {QZ_NONE, QZ_NO_HW, QZ_NOSW_NO_HW} \<Longrightarrow> qat_available P \<noteq> 0 \<Longrightarrow> sw \<le> 1 \<Longrightarrow>
    list_all (\<lambda>env. sint (getWaitCnt (e_params_default env) internal) = int W) envs \<Longrightarrow>
    \<exists>Q. init_run sal internal sw envs P = Some Q \<and> starts Q = starts P + (length envs - to_wait P + W) div (W + 1) \<and>
      keys_made Q = keys_made P + length envs"
proof (induction envs arbitrary: P)
  case (Cons env envs)
  have f: "start_fails sal env" "list_all (start_fails sal) envs" using Cons.prems(1) by simp_all
  have w: "sint (getWaitCnt (e_params_default env) internal) = int W" "list_all (\<lambda>env. sint (getWaitCnt (e_params_default env) internal) = int W) envs"
    using Cons.prems(5) by simp_all
  have "0 \<le> sint (getWaitCnt (e_params_default env) internal)" by (simp add: w(1))
  from qzInit_waits [OF f(1) Cons.prems(2-4) this] obtain rc Q where q: "qzInit sal env (Some internal) sw P P = Some (rc, Q)"
    "qz_init_status Q \<in> {QZ_NO_HW, QZ_NOSW_NO_HW}" "qat_available Q = QZ_NONE" "keys_made Q = keys_made P + 1"
    "if to_wait P > 0 then starts Q = starts P \<and> to_wait Q = to_wait P - 1 else starts Q = starts P + 1 \<and> to_wait Q = W"
    using w(1) by (metis nat_int)
  have "qz_init_status Q \<in> {QZ_NONE, QZ_NO_HW, QZ_NOSW_NO_HW}" "qat_available Q \<noteq> 0" using q(2,3) by auto
  from Cons.IH [OF f(2) this Cons.prems(4) w(2)] obtain R where r: "init_run sal internal sw envs Q = Some R"
    "starts R = starts Q + (length envs - to_wait Q + W) div (W + 1)" "keys_made R = keys_made Q + length envs" by blast
  have "starts R = starts P + (length (env # envs) - to_wait P + W) div (W + 1)"
  proof (cases "to_wait P > 0")
    case True
    then show ?thesis using q(5) r(2) by simp
  next
    case False
    have "(length envs - W + W) div (W + 1) + 1 = (length envs + 1 + W) div (W + 1)"
    proof (cases "W \<le> length envs")
      case True
      have "(length envs + 1 + W) div (W + 1) = (length envs + (W + 1)) div (W + 1)" by (simp add: add_ac)
      also have "\<dots> = length envs div (W + 1) + 1" by (subst div_add_self2) simp_all
      finally show ?thesis using True by simp
    next
      case False
      then have "(length envs + (W + 1)) div (W + 1) = 1" by (subst div_add_self2) simp_all
      then show ?thesis using False by (simp add: add_ac)
    qed
    then show ?thesis using False q(5) r(2) by simp
  qed
  then show ?case using q(1,4) r by simp
qed simp

lemma sint_small: "(w::u32) < 2 ^ 31 \<Longrightarrow> sint w = int (unat w)"
proof -
  assume "w < 2 ^ 31"
  then have "uint w < 2 ^ 31" by (simp add: word_less_def)
  then have "signed_take_bit 31 (uint w) = uint w"
    by (intro signed_take_bit_int_eq_self) (use uint_ge_0 [of w] in linarith)+
  then show ?thesis by (simp add: sint_uint)
qed

lemma wait_int: "list_all (\<lambda>env. getWaitCnt (e_params_default env) internal = W) envs \<Longrightarrow> W < 2 ^ 31 \<Longrightarrow>
    list_all (\<lambda>env. sint (getWaitCnt (e_params_default env) internal) = int (unat W)) envs"
  by (simp add: list_all_iff sint_small)

lemma fresh_process: "qz_init_status g_process \<in> {QZ_NONE, QZ_NO_HW, QZ_NOSW_NO_HW}" "qat_available g_process \<noteq> 0" "to_wait g_process = 0"
  by (simp_all add: g_process_def to_wait_def)

text \<open>(start_retries) While the driver does not start, a call tries again only after as many calls as the session's wait threshold have gone
  by without trying: of any number of calls exactly one in threshold and one tries, the first among them.\<close>

theorem start_retries:
  assumes "list_all (start_fails sal) envs" and "sw \<le> 1" and "list_all (\<lambda>env. getWaitCnt (e_params_default env) internal = W) envs" and "W < 2 ^ 31"
  shows "\<exists>Q. init_run sal internal sw envs g_process = Some Q \<and> starts Q = (length envs + unat W) div (unat W + 1)"
proof -
  obtain Q where "init_run sal internal sw envs g_process = Some Q" "starts Q = starts g_process +
      (length envs - to_wait g_process + unat W) div (unat W + 1)"
    using init_run_starts [OF assms(1) fresh_process(1,2) assms(2) wait_int [OF assms(3,4)]] by blast
  moreover have "starts g_process = 0" by (simp add: g_process_def)
  ultimately show ?thesis by (simp add: fresh_process)
qed

theorem start_retries_witness:
  "\<exists>Q. init_run True None 1 (replicate 20 ((good_env 1)\<lparr>e_start := False\<rparr>)) g_process = Some Q \<and> starts Q = 3"
proof -
  have f: "list_all (start_fails True) (replicate 20 ((good_env 1)\<lparr>e_start := False\<rparr>))"
    by (simp add: list_all_iff start_fails_def good_env_def available_def)
  have w: "list_all (\<lambda>env. getWaitCnt (e_params_default env) None = 8) (replicate 20 ((good_env 1)\<lparr>e_start := False\<rparr>))"
    by (simp add: list_all_iff getWaitCnt_def good_env_def g_sess_params_internal_default_def)
  from start_retries [OF f _ w, of 1] show ?thesis by simp
qed

text \<open>(init_makes_keys) Every call that does not find the process started makes a new key for the threads and forgets the one before: a
  process without hardware uses up all keys there are.\<close>

theorem init_makes_keys:
  assumes "list_all (start_fails sal) envs" and "sw \<le> 1" and "list_all (\<lambda>env. getWaitCnt (e_params_default env) internal = W) envs" and "W < 2 ^ 31"
  shows "\<exists>Q. init_run sal internal sw envs g_process = Some Q \<and> keys_made Q = length envs"
proof -
  obtain Q where "init_run sal internal sw envs g_process = Some Q" "keys_made Q = keys_made g_process + length envs"
    using init_run_starts [OF assms(1) fresh_process(1,2) assms(2) wait_int [OF assms(3,4)]] by blast
  then show ?thesis by (simp add: g_process_def)
qed

text \<open>(start_loses_nodes) A start that fails at the second instance of the only device loses the node of the first.\<close>

theorem start_loses_nodes:
  "case qzInit True ((good_env 2)\<lparr>e_info := \<lambda>h. if h = 0 then Some 0 else None\<rparr>) (Some None) 1 g_process g_process of
     Some (rc, Q) \<Rightarrow> rc = QZ_OK \<and> qz_init_status Q = QZ_NO_HW \<and> nodes_lost Q = 1 | None \<Rightarrow> False"
proof -
  let ?env = "(good_env 2)\<lparr>e_info := \<lambda>h. if h = 0 then Some 0 else None\<rparr>"
  let ?x = "(\<lparr>packageId = 0, instance_cap = all_caps, lock = False, hb_ok = True\<rparr>, 0::nat)"
  define E where "E = ?env"
  have E: "e_lock E" "e_unlock E" "e_key E = Some 3" "available True E" "e_start E" "e_num E = Some 2" "e_handles_mem E" "e_insts_mem E"
    "e_handles E = Some [0, Suc 0]" "e_hw_mem E"
    by (simp_all add: E_def good_env_def available_def eval_nat_numeral)
  define H where "H = \<lparr>devices = (\<lambda>_. [])(0 := [?x]), dev_num = 1, max_dev_id = 0\<rparr>"
  have f: "find_instances 2 0 E [0, Suc 0] no_hardware = (Inl (QZ_NOSW_NO_HW, 0), H)"
    by (simp add: E_def H_def good_env_def setInstance_def no_hardware_def Let_def eval_nat_numeral)
  have "clearDevices (Some H) = ([], Some H)" by (simp add: H_def clearDevices_def)
  moreover have "all_instances (devices H) = {# ?x #}"
    using all_upd [of 0 "\<lambda>_. []" "[?x]"] by (simp add: H_def all_instances_def)
  ultimately have b: "QZ_HW_BACKOUT QZ_NOSW_NO_HW 1 (Some H) P = BACKOUT QZ_NOSW_NO_HW 1 (P\<lparr>nodes_lost := nodes_lost P + 1\<rparr>)" for P
    unfolding QZ_HW_BACKOUT_def by simp
  show ?thesis unfolding E_def [symmetric]
    by (simp add: qzInit_def g_process_def init_locked_def start_instances_def E f b) (simp add: BACKOUT_def stopQat_def Let_def)
qed

end
