(* ===== verification/InstMem.thy ===== *)
theory InstMem
  imports Session "HOL-Library.Multiset"
begin

text \<open>
  The memory of an instance (\<^verbatim>\<open>getInstMem\<close>, \<^verbatim>\<open>cleanUpInstMem\<close>, \<^verbatim>\<open>qzSetupHW\<close>, \<^verbatim>\<open>qzUpdateCpaSession\<close>
  and \<^verbatim>\<open>removeSession\<close> of \<^verbatim>\<open>src/qatzip.c\<close>): the buffer lists of three kinds, the array of request
  buffers and the driver's session. The heap records every live block with the allocator it came
  from and its size; giving back a block that is not live, or to the other allocator, is \<open>None\<close>, as
  is the use of a null pointer. Which allocations succeed is an argument, by their number.
\<close>

section \<open>The heap\<close>

datatype allocator = Libc | Pinned

record Heap =
  h_next :: nat
  h_live :: "nat \<rightharpoonup> allocator \<times> nat"

definition halloc :: "(nat \<Rightarrow> bool) \<Rightarrow> allocator \<Rightarrow> nat \<Rightarrow> Heap \<Rightarrow> nat option \<times> Heap" where
  "halloc ok k sz h = (let p = h_next h; h = h\<lparr>h_next := p + 1\<rparr> in
     if ok p then (Some p, h\<lparr>h_live := (h_live h)(p \<mapsto> (k, sz))\<rparr>) else (None, h))"

definition hfree :: "allocator \<Rightarrow> nat \<Rightarrow> Heap \<Rightarrow> Heap option" where
  "hfree k p h = (case h_live h p of Some (k', _) \<Rightarrow> if k' = k then Some (h\<lparr>h_live := (h_live h)(p := None)\<rparr>) else None
     | None \<Rightarrow> None)"

text \<open>Freeing a null pointer does nothing.\<close>

definition hfree_opt :: "allocator \<Rightarrow> nat option \<Rightarrow> Heap \<Rightarrow> Heap option" where
  "hfree_opt k p h = (case p of None \<Rightarrow> Some h | Some p \<Rightarrow> hfree k p h)"

section \<open>Buffer lists\<close>

text \<open>A \<^verbatim>\<open>CpaBufferList\<close> with its private data and its flat buffer with the data. The structure comes
  from \<^verbatim>\<open>qzMalloc\<close>, which does not clear it: until it is entered the pointer to the flat buffer is junk, and
  looking at junk is \<open>None\<close>.\<close>

datatype flat_ptr = Junk | Null | Flat nat "nat option"

record CpaBufferList =
  bl_self :: nat
  pPrivateMetaData :: "nat option"
  pBuffers :: flat_ptr

type_synonym buffer_array = "(nat \<times> CpaBufferList option list) option"

text \<open>What the driver answers, and the sizes of structures that depend on its headers.\<close>

record HwDrv =
  d_meta_size :: "nat option"
  d_num_inter :: "nat option"
  d_addr_ok :: bool
  d_start_ok :: bool
  d_remove_ok :: bool
  d_handle :: bool
  d_sess_size :: "nat option"
  d_init_ok :: bool
  sizeof_list :: nat
  sizeof_flat :: nat
  sizeof_stream :: nat

record InstMem =
  intermediate_buffers :: buffer_array
  intermediate_cnt :: nat
  src_buffers :: buffer_array
  dest_buffers :: buffer_array
  src_count :: nat
  dest_count :: nat
  stream_array :: "(nat \<times> (nat option \<times> nat option) list) option"
  cpaSess :: "nat option"
  im_setup_data :: CpaDcSessionSetupData
  mem_setup :: bool
  cpa_sess_setup :: bool

definition NUM_BUFF :: nat where "NUM_BUFF = 32"
definition NUM_BUFF_8K :: nat where "NUM_BUFF_8K = 128"

definition data_of :: "CpaBufferList option \<Rightarrow> nat option" where
  "data_of b = (case b of Some b \<Rightarrow> (case pBuffers b of Flat _ d \<Rightarrow> d | _ \<Rightarrow> None) | None \<Rightarrow> None)"

definition free_buffer :: "CpaBufferList option \<Rightarrow> Heap \<Rightarrow> Heap option" where
  "free_buffer b h = (case b of None \<Rightarrow> Some h
     | Some b \<Rightarrow> do {
         h \<leftarrow> hfree_opt Pinned (pPrivateMetaData b) h;
         h \<leftarrow> (case pBuffers b of Junk \<Rightarrow> None | Null \<Rightarrow> Some h
               | Flat f d \<Rightarrow> do { h \<leftarrow> hfree_opt Pinned d h; hfree Pinned f h });
         hfree Pinned (bl_self b) h })"

primrec free_buffers :: "CpaBufferList option list \<Rightarrow> Heap \<Rightarrow> Heap option" where
  "free_buffers [] h = Some h"
| "free_buffers (b # bs) h = do { h \<leftarrow> free_buffer b h; free_buffers bs h }"

definition free_array :: "buffer_array \<Rightarrow> Heap \<Rightarrow> Heap option" where
  "free_array a h = (case a of None \<Rightarrow> Some h | Some (p, bs) \<Rightarrow> do { h \<leftarrow> free_buffers bs h; hfree Libc p h })"

text \<open>The driver's session is given back but its pointer stays.\<close>

definition cleanUpInstMem :: "InstMem \<Rightarrow> Heap \<Rightarrow> (InstMem \<times> Heap) option" where
  "cleanUpInstMem I h = do {
     h \<leftarrow> free_array (intermediate_buffers I) h;
     h \<leftarrow> free_array (src_buffers I) h;
     h \<leftarrow> free_array (dest_buffers I) h;
     h \<leftarrow> hfree_opt Libc (map_option fst (stream_array I)) h;
     h \<leftarrow> hfree_opt Pinned (cpaSess I) h;
     Some (I\<lparr>intermediate_buffers := None, src_buffers := None, dest_buffers := None, stream_array := None,
       mem_setup := False\<rparr>, h) }"

section \<open>Setting up\<close>

text \<open>One buffer list: whether all is there, what there is, and the heap. \<open>None\<close> is the use of a null
  flat buffer, where its allocation is not checked.\<close>

definition make_buffer ::
  "(nat \<Rightarrow> bool) \<Rightarrow> HwDrv \<Rightarrow> bool \<Rightarrow> nat \<Rightarrow> nat \<Rightarrow> Heap \<Rightarrow> (bool \<times> CpaBufferList option \<times> Heap) option" where
  "make_buffer ok drv checked meta sz h =
    (case halloc ok Pinned (sizeof_list drv) h of (None, h) \<Rightarrow> Some (False, None, h)
     | (Some b, h) \<Rightarrow>
       (let L = \<lparr>bl_self = b, pPrivateMetaData = None, pBuffers = Junk\<rparr> in
        case (if meta \<noteq> 0 then halloc ok Pinned meta h else (None, h)) of (m, h) \<Rightarrow>
        let L = L\<lparr>pPrivateMetaData := m\<rparr> in
        if meta \<noteq> 0 \<and> m = None then Some (False, Some L, h)
        else (case halloc ok Pinned (sizeof_flat drv) h of
            (None, h) \<Rightarrow> if checked then Some (False, Some (L\<lparr>pBuffers := Null\<rparr>), h) else None
          | (Some f, h) \<Rightarrow>
              (case halloc ok Pinned sz h of (d, h) \<Rightarrow> Some (d \<noteq> None, Some (L\<lparr>pBuffers := Flat f d\<rparr>), h)))))"

primrec make_buffers ::
  "nat \<Rightarrow> (nat \<Rightarrow> bool) \<Rightarrow> HwDrv \<Rightarrow> bool \<Rightarrow> nat \<Rightarrow> nat \<Rightarrow> Heap \<Rightarrow> (bool \<times> CpaBufferList option list \<times> Heap) option" where
  "make_buffers 0 ok drv checked meta sz h = Some (True, [], h)"
| "make_buffers (Suc n) ok drv checked meta sz h = do {
     (good, b, h) \<leftarrow> make_buffer ok drv checked meta sz h;
     if \<not> good then Some (False, b # replicate n None, h)
     else do { (good, bs, h) \<leftarrow> make_buffers n ok drv checked meta sz h; Some (good, b # bs, h) } }"

definition inst_fail :: "status \<Rightarrow> InstMem \<Rightarrow> Heap \<Rightarrow> (status \<times> InstMem \<times> Heap) option" where
  "inst_fail rc I h = do { (I, h) \<leftarrow> cleanUpInstMem I h; Some (rc, I, h) }"

text \<open>The arrays and the buffers in them. The pointers in the array of request buffers are entered when a
  loop is through; a failure gives the array back at once.\<close>

definition inst_buffers ::
  "(nat \<Rightarrow> bool) \<Rightarrow> HwDrv \<Rightarrow> nat \<Rightarrow> u32 \<Rightarrow> InstMem \<Rightarrow> Heap \<Rightarrow> (bool \<times> InstMem \<times> Heap) option" where
  "inst_buffers ok drv meta hw I h =
    (let n = (if hw \<le> 8 * 1024 then NUM_BUFF_8K else NUM_BUFF); I = I\<lparr>src_count := n, dest_count := n\<rparr> in
     case halloc ok Libc (n * 8) h of (None, h) \<Rightarrow> Some (False, I, h)
     | (Some a, h) \<Rightarrow> let I = I\<lparr>src_buffers := Some (a, replicate n None)\<rparr> in
     (case halloc ok Libc (n * 8) h of (None, h) \<Rightarrow> Some (False, I, h)
     | (Some c, h) \<Rightarrow> let I = I\<lparr>dest_buffers := Some (c, replicate n None)\<rparr> in
     (case halloc ok Libc (n * sizeof_stream drv) h of (None, h) \<Rightarrow> Some (False, I, h)
     | (Some s, h) \<Rightarrow> let I = I\<lparr>stream_array := Some (s, replicate n (None, None))\<rparr> in do {
       (good, bs, h) \<leftarrow> make_buffers n ok drv False meta (unat hw) h;
       let I = I\<lparr>src_buffers := Some (a, bs)\<rparr>;
       if \<not> good then Some (False, I, h)
       else do {
         (good, ds, h) \<leftarrow> make_buffers n ok drv False meta (unat (DEST_SZ hw)) h;
         let I = I\<lparr>dest_buffers := Some (c, ds), stream_array := Some (s, zip (map data_of bs) (map data_of ds))\<rparr>;
         Some (good, I, h) } })))"

definition getInstMem ::
  "(nat \<Rightarrow> bool) \<Rightarrow> HwDrv \<Rightarrow> QzSessionParamsInternal \<Rightarrow> InstMem \<Rightarrow> Heap \<Rightarrow> (status \<times> InstMem \<times> Heap) option" where
  "getInstMem ok drv params I h =
    (let hw = i_hw_buff_sz params;
         no_mem = (if i_sw_backup params \<noteq> 0 then QZ_LOW_MEM else QZ_NOSW_LOW_MEM);
         no_inst = (if i_sw_backup params \<noteq> 0 then QZ_NO_INST_ATTACH else QZ_NOSW_NO_INST_ATTACH) in
     case d_meta_size drv of None \<Rightarrow> inst_fail no_inst I h
     | Some meta \<Rightarrow>
     (case d_num_inter drv of None \<Rightarrow> inst_fail no_inst I h
     | Some n \<Rightarrow> let I = I\<lparr>intermediate_cnt := n\<rparr> in
     (case halloc ok Libc (n * 8) h of (None, h) \<Rightarrow> inst_fail no_mem I h
     | (Some a, h) \<Rightarrow> do {
       (good, bs, h) \<leftarrow> make_buffers n ok drv True meta (unat (2 * hw)) h;
       let I = I\<lparr>intermediate_buffers := Some (a, bs)\<rparr>;
       if \<not> good then inst_fail no_mem I h
       else do {
         (good, I, h) \<leftarrow> inst_buffers ok drv meta hw I h;
         if \<not> good then inst_fail no_mem I h
         else if \<not> d_addr_ok drv \<or> \<not> d_start_ok drv then inst_fail no_inst I h
         else Some (QZ_OK, I\<lparr>mem_setup := True\<rparr>, h) } })))"

section \<open>The driver's session\<close>

definition qzSetupHW ::
  "(nat \<Rightarrow> bool) \<Rightarrow> HwDrv \<Rightarrow> int \<Rightarrow> nat \<Rightarrow> QzSess \<Rightarrow> InstMem \<Rightarrow> Heap \<Rightarrow> (status \<times> QzSess \<times> InstMem \<times> Heap) option" where
  "qzSetupHW ok drv init_status i q I h =
    (if init_status \<noteq> QZ_OK then Some (init_status, q, I, h)
     else let q = q\<lparr>inst_hint := int i, seq := 0, seq_in := 0\<rparr> in do {
       (rc, I, h) \<leftarrow> (if \<not> mem_setup I then getInstMem ok drv (sess_params q) I h else Some (QZ_OK, I, h));
       if rc \<noteq> QZ_OK then Some (rc, q, I, h)
       else if cpa_sess_setup I then Some (QZ_OK, q, I, h)
       else (case d_sess_size drv of None \<Rightarrow> Some (QZ_FAIL, q, I, h)
         | Some sz \<Rightarrow> (case halloc ok Pinned sz h of (p, h) \<Rightarrow>
             let I = I\<lparr>cpaSess := p\<rparr> in
             if p = None then Some (if i_sw_backup (sess_params q) \<noteq> 0 then QZ_LOW_MEM else QZ_NOSW_LOW_MEM, q, I, h)
             else (let I = I\<lparr>im_setup_data := session_setup_data q\<rparr> in
               if d_init_ok drv then Some (QZ_OK, q, I\<lparr>cpa_sess_setup := True\<rparr>, h) else Some (QZ_FAIL, q, I, h)))) })"

definition qzUpdateCpaSession ::
  "(nat \<Rightarrow> bool) \<Rightarrow> HwDrv \<Rightarrow> QzSess \<Rightarrow> InstMem \<Rightarrow> Heap \<Rightarrow> (status \<times> InstMem \<times> Heap) option" where
  "qzUpdateCpaSession ok drv q I h =
    (let I = I\<lparr>cpa_sess_setup := False\<rparr> in
     if \<not> d_remove_ok drv then Some (QZ_FAIL, I, h)
     else do {
       h \<leftarrow> hfree_opt Pinned (cpaSess I) h;
       (case d_sess_size drv of None \<Rightarrow> Some (QZ_FAIL, I, h)
        | Some sz \<Rightarrow> (case halloc ok Pinned sz h of (p, h) \<Rightarrow>
            let I = I\<lparr>cpaSess := p\<rparr> in
            if p = None then Some (QZ_FAIL, I, h)
            else if \<not> d_init_ok drv then do { h \<leftarrow> hfree_opt Libc p h; Some (QZ_FAIL, I\<lparr>cpaSess := None\<rparr>, h) }
            else Some (QZ_OK, I\<lparr>im_setup_data := session_setup_data q, cpa_sess_setup := True\<rparr>, h))) })"

definition removeSession :: "HwDrv \<Rightarrow> InstMem \<Rightarrow> Heap \<Rightarrow> (InstMem \<times> Heap) option" where
  "removeSession drv I h =
    (if \<not> cpa_sess_setup I then Some (I, h)
     else if d_handle drv \<and> cpaSess I \<noteq> None \<and> d_remove_ok drv then do {
       h \<leftarrow> hfree_opt Pinned (cpaSess I) h;
       Some (I\<lparr>cpaSess := None, cpa_sess_setup := False\<rparr>, h) }
     else Some (I, h))"

section \<open>The ledger\<close>

text \<open>The live blocks are those of \<open>base\<close> and the blocks \<open>os\<close>, each of its allocator.\<close>

definition ledger :: "(nat \<rightharpoonup> allocator \<times> nat) \<Rightarrow> (nat \<times> allocator) list \<Rightarrow> Heap \<Rightarrow> bool" where
  "ledger base os h \<longleftrightarrow> (\<forall>p \<ge> h_next h. h_live h p = None) \<and> distinct (map fst os) \<and>
     (\<forall>(p, k) \<in> set os. base p = None \<and> (\<exists>sz. h_live h p = Some (k, sz))) \<and>
     (\<forall>p. p \<notin> fst ` set os \<longrightarrow> h_live h p = base p)"

definition keeps_live :: "Heap \<Rightarrow> Heap \<Rightarrow> bool" where
  "keeps_live h h' \<longleftrightarrow> (\<forall>p b. h_live h p = Some b \<longrightarrow> h_live h' p = Some b)"

lemma keeps_live_refl [simp]: "keeps_live h h"
  by (simp add: keeps_live_def)

lemma keeps_live_trans: "keeps_live h h' \<Longrightarrow> keeps_live h' h'' \<Longrightarrow> keeps_live h h''"
  by (simp add: keeps_live_def)

lemma ledger_perm: "mset os = mset os' \<Longrightarrow> ledger base os h \<Longrightarrow> ledger base os' h"
proof -
  assume m: "mset os = mset os'" and l: "ledger base os h"
  have "set os = set os'" by (rule mset_eq_setD [OF m])
  moreover have "mset (map fst os) = mset (map fst os')" using m by simp
  then have "distinct (map fst os) = distinct (map fst os')" by (rule mset_eq_imp_distinct_iff)
  ultimately show ?thesis using l by (simp add: ledger_def)
qed

lemma ledger_Nil: "ledger base [] h \<Longrightarrow> h_live h = base"
  by (auto simp: ledger_def)

definition own_opt :: "allocator \<Rightarrow> nat option \<Rightarrow> (nat \<times> allocator) list" where
  "own_opt k r = (case r of None \<Rightarrow> [] | Some p \<Rightarrow> [(p, k)])"

definition own_buffer :: "CpaBufferList option \<Rightarrow> (nat \<times> allocator) list" where
  "own_buffer b = (case b of None \<Rightarrow> [] | Some b \<Rightarrow> own_opt Pinned (pPrivateMetaData b) @
     (case pBuffers b of Flat f d \<Rightarrow> own_opt Pinned d @ [(f, Pinned)] | _ \<Rightarrow> []) @ [(bl_self b, Pinned)])"

definition own_array :: "buffer_array \<Rightarrow> (nat \<times> allocator) list" where
  "own_array a = (case a of None \<Rightarrow> [] | Some (p, bs) \<Rightarrow> concat (map own_buffer bs) @ [(p, Libc)])"

definition owned_mem :: "InstMem \<Rightarrow> (nat \<times> allocator) list" where
  "owned_mem I = own_array (intermediate_buffers I) @ own_array (src_buffers I) @ own_array (dest_buffers I) @
     own_opt Libc (map_option fst (stream_array I)) @ own_opt Pinned (cpaSess I)"

lemma own_simps [simp]: "own_opt k None = []" "own_opt k (Some p) = [(p, k)]" "own_buffer None = []"
  "own_array None = []" "own_array (Some (p, bs)) = concat (map own_buffer bs) @ [(p, Libc)]"
  by (simp_all add: own_opt_def own_buffer_def own_array_def)

lemma hfree_ledger: "ledger base ((p, k) # os) h \<Longrightarrow> \<exists>h'. hfree k p h = Some h' \<and> ledger base os h'"
  by (fastforce simp: ledger_def hfree_def image_iff)

lemma hfree_opt_ledger: "ledger base (own_opt k r @ os) h \<Longrightarrow> \<exists>h'. hfree_opt k r h = Some h' \<and> ledger base os h'"
  by (cases r) (simp_all add: hfree_opt_def hfree_ledger)

lemma halloc_ledger:
  assumes "ledger base os h" "halloc ok k sz h = (r, h')"
  shows "ledger base (own_opt k r @ os) h'" "keeps_live h h'" "r = Some p \<Longrightarrow> h_live h' p = Some (k, sz)"
    "r = None \<Longrightarrow> \<exists>n. \<not> ok n"
proof -
  let ?p = "h_next h"
  have n: "h_live h ?p = None" using assms(1) by (simp add: ledger_def)
  then have o: "?p \<notin> fst ` set os" using assms(1) by (force simp: ledger_def)
  then have "h_live h ?p = base ?p" using assms(1) unfolding ledger_def by blast
  then have b: "base ?p = None" using n by simp
  show "ledger base (own_opt k r @ os) h'"
  proof (cases "ok ?p")
    case True
    then have "r = Some ?p" "h' = h\<lparr>h_next := ?p + 1, h_live := (h_live h)(?p \<mapsto> (k, sz))\<rparr>"
      using assms(2) by (simp_all add: halloc_def Let_def)
    moreover have "(q, k') \<in> set os \<Longrightarrow> q \<noteq> ?p" for q k' using o by (force simp: image_iff)
    ultimately show ?thesis using assms(1) o b by (fastforce simp: ledger_def)
  next
    case False
    then have "r = None" "h' = h\<lparr>h_next := ?p + 1\<rparr>" using assms(2) by (simp_all add: halloc_def Let_def)
    then show ?thesis using assms(1) by (simp add: ledger_def)
  qed
  show "keeps_live h h'" using assms(2) n by (auto simp: halloc_def Let_def keeps_live_def split: if_splits)
  show "h_live h' p = Some (k, sz)" if "r = Some p"
    using assms(2) that by (auto simp: halloc_def Let_def split: if_splits)
  show "\<exists>n. \<not> ok n" if "r = None"
    using assms(2) that by (auto simp: halloc_def Let_def split: if_splits)
qed

definition clean_buffer :: "CpaBufferList option \<Rightarrow> bool" where
  "clean_buffer b \<longleftrightarrow> (case b of None \<Rightarrow> True | Some b \<Rightarrow> pBuffers b \<noteq> Junk)"

definition clean_array :: "buffer_array \<Rightarrow> bool" where
  "clean_array a \<longleftrightarrow> (case a of None \<Rightarrow> True | Some (_, bs) \<Rightarrow> list_all clean_buffer bs)"

lemma free_buffer_ledger:
  "ledger base (own_buffer b @ os) h \<Longrightarrow> clean_buffer b \<Longrightarrow> \<exists>h'. free_buffer b h = Some h' \<and> ledger base os h'"
proof (cases b)
  case (Some b')
  assume "ledger base (own_buffer b @ os) h" and c: "clean_buffer b"
  then have "ledger base (own_opt Pinned (pPrivateMetaData b') @ ((case pBuffers b' of
      Flat f d \<Rightarrow> own_opt Pinned d @ [(f, Pinned)] | _ \<Rightarrow> []) @ (bl_self b', Pinned) # os)) h"
    by (simp add: Some own_buffer_def)
  from hfree_opt_ledger [OF this] obtain h1 where h1: "hfree_opt Pinned (pPrivateMetaData b') h = Some h1"
    "ledger base ((case pBuffers b' of Flat f d \<Rightarrow> own_opt Pinned d @ [(f, Pinned)] | _ \<Rightarrow> []) @ (bl_self b', Pinned) # os) h1"
    by blast
  obtain h2 where h2: "(case pBuffers b' of Junk \<Rightarrow> None | Null \<Rightarrow> Some h1
        | Flat f d \<Rightarrow> do { h \<leftarrow> hfree_opt Pinned d h1; hfree Pinned f h }) = Some h2" "ledger base ((bl_self b', Pinned) # os) h2"
  proof (cases "pBuffers b'")
    case (Flat f d)
    have "ledger base (own_opt Pinned d @ ((f, Pinned) # (bl_self b', Pinned) # os)) h1" using h1(2) by (simp add: Flat)
    from hfree_opt_ledger [OF this] obtain h' where "hfree_opt Pinned d h1 = Some h'"
      "ledger base ((f, Pinned) # (bl_self b', Pinned) # os) h'" by blast
    then show thesis using that hfree_ledger [of base f Pinned] by (fastforce simp: Flat)
  qed (use that h1(2) c Some in \<open>simp_all add: clean_buffer_def\<close>)
  show ?thesis using hfree_ledger [OF h2(2)] h1(1) h2(1) by (simp add: free_buffer_def Some)
qed (simp add: free_buffer_def)

lemma free_buffers_ledger:
  "ledger base (concat (map own_buffer bs) @ os) h \<Longrightarrow> list_all clean_buffer bs \<Longrightarrow> \<exists>h'. free_buffers bs h = Some h' \<and> ledger base os h'"
proof (induction bs arbitrary: h)
  case (Cons b bs)
  then obtain h1 where h1: "free_buffer b h = Some h1" "ledger base (concat (map own_buffer bs) @ os) h1"
    using free_buffer_ledger [of base b "concat (map own_buffer bs) @ os" h] by auto
  from Cons.IH [OF h1(2)] Cons.prems(2) show ?case using h1(1) by simp
qed simp

lemma free_array_ledger:
  "ledger base (own_array a @ os) h \<Longrightarrow> clean_array a \<Longrightarrow> \<exists>h'. free_array a h = Some h' \<and> ledger base os h'"
proof (cases a)
  case (Some pb)
  obtain p bs where pb: "pb = (p, bs)" by (cases pb)
  assume "ledger base (own_array a @ os) h" and "clean_array a"
  then have "ledger base (concat (map own_buffer bs) @ ((p, Libc) # os)) h" "list_all clean_buffer bs"
    by (simp_all add: Some pb clean_array_def)
  from free_buffers_ledger [OF this] obtain h1 where "free_buffers bs h = Some h1" "ledger base ((p, Libc) # os) h1" by blast
  then show ?thesis using hfree_ledger [of base p Libc os h1] by (simp add: free_array_def Some pb)
qed (simp add: free_array_def)

lemma free_buffer_clean: "free_buffer b h = Some h' \<Longrightarrow> clean_buffer b"
  by (cases b) (auto simp: free_buffer_def clean_buffer_def split: Option.bind_splits)

lemma free_buffers_clean: "free_buffers bs h = Some h' \<Longrightarrow> list_all clean_buffer bs"
  by (induction bs arbitrary: h) (auto dest: free_buffer_clean split: Option.bind_splits)

lemma free_array_clean: "free_array a h = Some h' \<Longrightarrow> clean_array a"
  by (auto simp: free_array_def clean_array_def dest: free_buffers_clean split: option.splits Option.bind_splits)

definition clean_mem :: "InstMem \<Rightarrow> bool" where
  "clean_mem I \<longleftrightarrow> clean_array (intermediate_buffers I) \<and> clean_array (src_buffers I) \<and> clean_array (dest_buffers I)"

lemma cleanUpInstMem_clean: "cleanUpInstMem I h = Some r \<Longrightarrow> clean_mem I"
  by (auto simp: cleanUpInstMem_def clean_mem_def dest!: free_array_clean split: Option.bind_splits)

text \<open>Cleaning up gives back exactly what the instance owns.\<close>

lemma cleanUpInstMem_ledger:
  assumes l: "ledger base (owned_mem I @ os) h" and c: "clean_mem I"
  shows "\<exists>h'. cleanUpInstMem I h = Some (I\<lparr>intermediate_buffers := None, src_buffers := None, dest_buffers := None,
      stream_array := None, mem_setup := False\<rparr>, h') \<and> ledger base os h'"
proof -
  note c' = c [unfolded clean_mem_def]
  have "ledger base (own_array (intermediate_buffers I) @ (own_array (src_buffers I) @ own_array (dest_buffers I) @
     own_opt Libc (map_option fst (stream_array I)) @ own_opt Pinned (cpaSess I) @ os)) h"
    using l by (simp add: owned_mem_def)
  from free_array_ledger [OF this] c' obtain h1 where 1: "free_array (intermediate_buffers I) h = Some h1"
    "ledger base (own_array (src_buffers I) @ (own_array (dest_buffers I) @
     own_opt Libc (map_option fst (stream_array I)) @ own_opt Pinned (cpaSess I) @ os)) h1" by blast
  from free_array_ledger [OF 1(2)] c' obtain h2 where 2: "free_array (src_buffers I) h1 = Some h2"
    "ledger base (own_array (dest_buffers I) @ (own_opt Libc (map_option fst (stream_array I)) @ own_opt Pinned (cpaSess I) @ os)) h2"
    by blast
  from free_array_ledger [OF 2(2)] c' obtain h3 where 3: "free_array (dest_buffers I) h2 = Some h3"
    "ledger base (own_opt Libc (map_option fst (stream_array I)) @ (own_opt Pinned (cpaSess I) @ os)) h3" by blast
  from hfree_opt_ledger [OF 3(2)] obtain h4 where 4: "hfree_opt Libc (map_option fst (stream_array I)) h3 = Some h4"
    "ledger base (own_opt Pinned (cpaSess I) @ os) h4" by blast
  from hfree_opt_ledger [OF 4(2)] show ?thesis using 1(1) 2(1) 3(1) 4(1) by (auto simp: cleanUpInstMem_def)
qed

lemma data_of_clean: "data_of b = Some d \<Longrightarrow> clean_buffer b"
  by (auto simp: data_of_def clean_buffer_def split: option.splits flat_ptr.splits)

text \<open>What is allocated is owned.\<close>

lemma make_buffer_ledger:
  assumes l: "ledger base os h" and m: "make_buffer ok drv c meta sz h = Some (good, b, h')"
  shows "ledger base (own_buffer b @ os) h' \<and> keeps_live h h' \<and>
    (good \<longrightarrow> (\<exists>d. data_of b = Some d \<and> h_live h' d = Some (Pinned, sz))) \<and> (\<not> good \<longrightarrow> (\<exists>n. \<not> ok n))"
proof -
  obtain r1 h1 where a1: "halloc ok Pinned (sizeof_list drv) h = (r1, h1)" by (cases "halloc ok Pinned (sizeof_list drv) h")
  note l1 = halloc_ledger [OF l a1]
  show ?thesis
  proof (cases r1)
    case None
    then show ?thesis using m a1 l1 by (simp add: make_buffer_def)
  next
    case (Some p)
    obtain r2 h2 where a2: "(if meta \<noteq> 0 then halloc ok Pinned meta h1 else (None, h1)) = (r2, h2)"
      by (cases "if meta \<noteq> 0 then halloc ok Pinned meta h1 else (None, h1)")
    have l2: "ledger base (own_opt Pinned r2 @ (p, Pinned) # os) h2 \<and> keeps_live h1 h2 \<and>
        (meta \<noteq> 0 \<and> r2 = None \<longrightarrow> (\<exists>n. \<not> ok n))"
    proof (cases "meta \<noteq> 0")
      case True
      then have "halloc ok Pinned meta h1 = (r2, h2)" using a2 by simp
      from halloc_ledger [OF l1(1) this] show ?thesis by (simp add: Some)
    next
      case False
      then show ?thesis using a2 l1(1) by (auto simp: Some)
    qed
    note m' = m [unfolded make_buffer_def a1 Some prod.case option.case Let_def a2]
    have k2: "keeps_live h h2" using l1(2) l2 keeps_live_trans by blast
    show ?thesis
    proof (cases "meta \<noteq> 0 \<and> r2 = None")
      case True
      then have "good = False" "b = Some \<lparr>bl_self = p, pPrivateMetaData = None, pBuffers = Junk\<rparr>" "h' = h2"
        using m' [unfolded if_P [OF True]] by auto
      then show ?thesis using l2 k2 True by (simp add: own_buffer_def)
    next
      case False
      obtain r3 h3 where a3: "halloc ok Pinned (sizeof_flat drv) h2 = (r3, h3)" by (cases "halloc ok Pinned (sizeof_flat drv) h2")
      note l3 = halloc_ledger [OF l2 [THEN conjunct1] a3]
      have k3: "keeps_live h h3" using k2 l3(2) keeps_live_trans by blast
      show ?thesis
      proof (cases r3)
        case None
        then have "good = False" "b = Some \<lparr>bl_self = p, pPrivateMetaData = r2, pBuffers = Null\<rparr>" "h' = h3"
          using m' [unfolded if_not_P [OF False] a3 None] by (auto split: if_splits)
        then show ?thesis using l3 k3 None by (simp add: own_buffer_def)
      next
        case (Some f)
        obtain r4 h4 where a4: "halloc ok Pinned sz h3 = (r4, h4)" by (cases "halloc ok Pinned sz h3")
        note l4 = halloc_ledger [OF l3(1) a4]
        have r: "good = (r4 \<noteq> None)" "b = Some \<lparr>bl_self = p, pPrivateMetaData = r2, pBuffers = Flat f r4\<rparr>" "h' = h4"
          using m' [unfolded if_not_P [OF False] a3 Some prod.case option.case a4] by auto
        have "ledger base (own_buffer b @ os) h4"
          by (rule ledger_perm [OF _ l4(1)]) (simp add: r(2) own_buffer_def Some)
        then show ?thesis using r l4 k3 keeps_live_trans by (auto simp: data_of_def)
      qed
    qed
  qed
qed

lemma make_buffers_ledger:
  assumes "ledger base os h" "make_buffers n ok drv c meta sz h = Some (good, bs, h')"
  shows "ledger base (concat (map own_buffer bs) @ os) h' \<and> keeps_live h h' \<and> length bs = n \<and>
    (good \<longrightarrow> (\<forall>b \<in> set bs. \<exists>d. data_of b = Some d \<and> h_live h' d = Some (Pinned, sz))) \<and> (\<not> good \<longrightarrow> (\<exists>n. \<not> ok n))"
  using assms
proof (induction n arbitrary: os h good bs)
  case (Suc n)
  obtain g1 b h1 where m1: "make_buffer ok drv c meta sz h = Some (g1, b, h1)"
    using Suc.prems(2) by (cases "make_buffer ok drv c meta sz h") auto
  note l1 = make_buffer_ledger [OF Suc.prems(1) m1]
  show ?case
  proof (cases g1)
    case False
    then have "good = False" "bs = b # replicate n None" "h' = h1" using Suc.prems(2) m1 by simp_all
    moreover have "concat (map own_buffer (replicate n None)) = []" by (induction n) simp_all
    ultimately show ?thesis using l1 False by simp
  next
    case True
    obtain g2 bs2 where m2: "make_buffers n ok drv c meta sz h1 = Some (g2, bs2, h')" and r: "good = g2" "bs = b # bs2"
      using Suc.prems(2) m1 True by (cases "make_buffers n ok drv c meta sz h1") auto
    note l2 = Suc.IH [OF l1 [THEN conjunct1] m2]
    have "ledger base (concat (map own_buffer bs) @ os) h'"
      by (rule ledger_perm [OF _ l2 [THEN conjunct1]]) (simp add: r(2))
    then show ?thesis using l1 l2 True r by (auto simp: keeps_live_def)
  qed
qed simp

section \<open>Which allocation fails first\<close>

text \<open>The allocations of \<^verbatim>\<open>getInstMem\<close> in their order: the arrays, and for each buffer the list, its private data if the driver wants
  any, its flat buffer, whose allocation is tested for the intermediate buffers only, and the data.\<close>

datatype place = Arr | Lst | Priv | Flat_tested | Flat_untested | Dat

definition buffer_places :: "bool \<Rightarrow> nat \<Rightarrow> place list" where
  "buffer_places checked meta = [Lst] @ (if meta \<noteq> 0 then [Priv] else []) @ [if checked then Flat_tested else Flat_untested, Dat]"

definition request_buffers :: "u32 \<Rightarrow> nat" where
  "request_buffers hw = (if hw \<le> 8 * 1024 then NUM_BUFF_8K else NUM_BUFF)"

definition mem_places :: "nat \<Rightarrow> nat \<Rightarrow> u32 \<Rightarrow> place list" where
  "mem_places meta n hw = Arr # concat (replicate n (buffer_places True meta)) @ [Arr, Arr, Arr] @
     concat (replicate (2 * request_buffers hw) (buffer_places False meta))"

primrec first_fail :: "(nat \<Rightarrow> bool) \<Rightarrow> nat \<Rightarrow> place list \<Rightarrow> place option" where
  "first_fail ok p [] = None"
| "first_fail ok p (k # ks) = (if ok p then first_fail ok (Suc p) ks else Some k)"

lemma first_fail_append [simp]:
  "first_fail ok p (ks @ js) = (case first_fail ok p ks of None \<Rightarrow> first_fail ok (p + length ks) js | Some k \<Rightarrow> Some k)"
  by (induction ks arbitrary: p) (simp_all split: option.split)

lemma first_fail_all: "(\<And>n. ok n) \<Longrightarrow> first_fail ok p ks = None"
  by (induction ks arbitrary: p) simp_all

text \<open>A part of the set-up that allocates \<open>ks\<close>, the first of them as block \<open>p\<close>: it faults on a flat buffer that is not tested; it
  fails on any other, and then leaves something to clean up that cannot be cleaned up if private data was missing.\<close>

definition made :: "('b \<Rightarrow> bool) \<Rightarrow> place option \<Rightarrow> nat \<Rightarrow> (bool \<times> 'b \<times> Heap) option \<Rightarrow> bool" where
  "made C f p r \<longleftrightarrow> (case f of
     None \<Rightarrow> \<exists>b h'. r = Some (True, b, h') \<and> C b \<and> h_next h' = p
   | Some k \<Rightarrow> if k = Flat_untested then r = None else \<exists>b h'. r = Some (False, b, h') \<and> (C b \<longleftrightarrow> k \<noteq> Priv))"

lemma halloc_some: "ok (h_next h) \<Longrightarrow> \<exists>h'. halloc ok k sz h = (Some (h_next h), h') \<and> h_next h' = Suc (h_next h)"
  and halloc_none: "\<not> ok (h_next h) \<Longrightarrow> \<exists>h'. halloc ok k sz h = (None, h') \<and> h_next h' = Suc (h_next h)"
  by (simp_all add: halloc_def Let_def)

lemma make_buffer_made:
  "made clean_buffer (first_fail ok (h_next h) (buffer_places c meta)) (h_next h + length (buffer_places c meta)) (make_buffer ok drv c meta sz h)"
  by (auto simp: make_buffer_def buffer_places_def made_def halloc_def clean_buffer_def Let_def)

lemma make_buffers_made:
  "made (list_all clean_buffer) (first_fail ok (h_next h) (concat (replicate n (buffer_places c meta))))
     (h_next h + length (concat (replicate n (buffer_places c meta)))) (make_buffers n ok drv c meta sz h)"
proof (induction n arbitrary: h)
  case (Suc n)
  let ?f = "first_fail ok (h_next h) (buffer_places c meta)"
  note b = make_buffer_made [of ok h c meta drv sz]
  show ?case
  proof (cases ?f)
    case None
    obtain x h1 where x: "make_buffer ok drv c meta sz h = Some (True, x, h1)" "clean_buffer x" "h_next h1 = h_next h + length (buffer_places c meta)"
      using b by (auto simp: made_def None)
    show ?thesis using Suc.IH [of h1] x None
      by (auto simp: made_def add.assoc split: option.splits if_splits)
  next
    case (Some k)
    have "list_all clean_buffer (replicate n None)" by (simp add: list_all_iff clean_buffer_def)
    then show ?thesis using b Some by (auto simp: made_def split: if_splits)
  qed
qed (simp add: made_def)

lemma own_replicate [simp]: "concat (map own_buffer (replicate n None)) = []"
  by (induction n) simp_all

definition sized :: "Heap \<Rightarrow> buffer_array \<Rightarrow> nat \<Rightarrow> nat \<Rightarrow> bool" where
  "sized h a n sz \<longleftrightarrow> (case a of None \<Rightarrow> False
     | Some (_, bs) \<Rightarrow> length bs = n \<and> (\<forall>b \<in> set bs. \<exists>d. data_of b = Some d \<and> h_live h d = Some (Pinned, sz)))"

text \<open>The buffers of the size of a session's parameters.\<close>

definition sized_for :: "Heap \<Rightarrow> u32 \<Rightarrow> InstMem \<Rightarrow> bool" where
  "sized_for h hw I \<longleftrightarrow> sized h (src_buffers I) (src_count I) (unat hw) \<and> sized h (dest_buffers I) (dest_count I) (unat (DEST_SZ hw)) \<and>
     src_count I = dest_count I \<and> src_count I = (if hw \<le> 8 * 1024 then NUM_BUFF_8K else NUM_BUFF)"

lemma sized_keeps: "sized h a n sz \<Longrightarrow> keeps_live h h' \<Longrightarrow> sized h' a n sz"
  by (cases a) (auto simp: sized_def keeps_live_def)

lemma sized_clean: "sized h a n sz \<Longrightarrow> clean_array a"
  by (fastforce simp: sized_def clean_array_def list_all_iff split: option.splits dest: data_of_clean)

lemma inst_buffers_ledger:
  assumes l: "ledger base (owned_mem I @ os) h" and e: "src_buffers I = None" "dest_buffers I = None" "stream_array I = None"
    and b: "inst_buffers ok drv meta hw I h = Some (good, I', h')"
  shows "ledger base (owned_mem I' @ os) h' \<and> keeps_live h h' \<and> (good \<longrightarrow> sized_for h' hw I') \<and> (\<not> good \<longrightarrow> (\<exists>n. \<not> ok n)) \<and>
    mem_setup I' = mem_setup I \<and> intermediate_buffers I' = intermediate_buffers I \<and> cpaSess I' = cpaSess I \<and> cpa_sess_setup I' = cpa_sess_setup I"
proof -
  define n where "n = (if hw \<le> 8 * 1024 then NUM_BUFF_8K else NUM_BUFF)"
  note b' = b [unfolded inst_buffers_def n_def [symmetric] Let_def]
  let ?O = "own_array (intermediate_buffers I)" and ?S = "own_opt Pinned (cpaSess I)"
  have l0: "ledger base (?O @ ?S @ os) h" using l by (simp add: owned_mem_def e)
  obtain ra h1 where a: "halloc ok Libc (n * 8) h = (ra, h1)" by (cases "halloc ok Libc (n * 8) h")
  note la = halloc_ledger [OF l0 a]
  show ?thesis
  proof (cases ra)
    case None
    then have "good = False" "I' = I\<lparr>src_count := n, dest_count := n\<rparr>" "h' = h1" using b' [unfolded a] by auto
    then show ?thesis using la None by (simp add: owned_mem_def e)
  next
    case (Some pa)
    note b1 = b' [unfolded a Some prod.case option.case]
    obtain rc h2 where c: "halloc ok Libc (n * 8) h1 = (rc, h2)" by (cases "halloc ok Libc (n * 8) h1")
    note lc = halloc_ledger [OF la(1) [unfolded Some] c]
    have kc: "keeps_live h h2" using la(2) lc(2) keeps_live_trans by blast
    show ?thesis
    proof (cases rc)
      case None
      then have "good = False" "I' = I\<lparr>src_count := n, dest_count := n, src_buffers := Some (pa, replicate n None)\<rparr>" "h' = h2"
        using b1 [unfolded c] by auto
      moreover have "ledger base (owned_mem (I\<lparr>src_count := n, dest_count := n, src_buffers := Some (pa, replicate n None)\<rparr>) @ os) h2"
        by (rule ledger_perm [OF _ lc(1)]) (simp add: owned_mem_def e None)
      ultimately show ?thesis using lc kc None by simp
    next
      case (Some pc)
      note b2 = b1 [unfolded c Some prod.case option.case]
      obtain rs h3 where s: "halloc ok Libc (n * sizeof_stream drv) h2 = (rs, h3)" by (cases "halloc ok Libc (n * sizeof_stream drv) h2")
      note ls = halloc_ledger [OF lc(1) [unfolded Some] s]
      have ks: "keeps_live h h3" using kc ls(2) keeps_live_trans by blast
      show ?thesis
      proof (cases rs)
        case None
        let ?I = "I\<lparr>src_count := n, dest_count := n, src_buffers := Some (pa, replicate n None), dest_buffers := Some (pc, replicate n None)\<rparr>"
        have "good = False" "I' = ?I" "h' = h3" using b2 [unfolded s] None by auto
        moreover have "ledger base (owned_mem ?I @ os) h3"
          by (rule ledger_perm [OF _ ls(1)]) (simp add: owned_mem_def e None)
        ultimately show ?thesis using ls ks None by simp
      next
        case (Some ps)
        note b3 = b2 [unfolded s Some prod.case option.case]
        obtain g1 bs h4 where m1: "make_buffers n ok drv False meta (unat hw) h3 = Some (g1, bs, h4)"
          using b3 by (cases "make_buffers n ok drv False meta (unat hw) h3") auto
        note l1 = make_buffers_ledger [OF ls(1) [unfolded Some] m1]
        have k1: "keeps_live h h4" using ks l1 keeps_live_trans by blast
        show ?thesis
        proof (cases g1)
          case False
          let ?I = "I\<lparr>src_count := n, dest_count := n, src_buffers := Some (pa, bs), dest_buffers := Some (pc, replicate n None),
            stream_array := Some (ps, replicate n (None, None))\<rparr>"
          have "good = False" "I' = ?I" "h' = h4" using b3 [unfolded m1] False by auto
          moreover have "ledger base (owned_mem ?I @ os) h4"
            by (rule ledger_perm [OF _ l1 [THEN conjunct1]]) (simp add: owned_mem_def e)
          ultimately show ?thesis using l1 k1 False by simp
        next
          case True
          obtain g2 ds h5 where m2: "make_buffers n ok drv False meta (unat (DEST_SZ hw)) h4 = Some (g2, ds, h5)"
            using b3 [unfolded m1] True by (cases "make_buffers n ok drv False meta (unat (DEST_SZ hw)) h4") auto
          note l2 = make_buffers_ledger [OF l1 [THEN conjunct1] m2]
          let ?I = "I\<lparr>src_count := n, dest_count := n, src_buffers := Some (pa, bs), dest_buffers := Some (pc, ds),
            stream_array := Some (ps, zip (map data_of bs) (map data_of ds))\<rparr>"
          have r: "good = g2" "I' = ?I" "h' = h5" using b3 [unfolded m1] m2 True by auto
          have "ledger base (owned_mem ?I @ os) h5"
            by (rule ledger_perm [OF _ l2 [THEN conjunct1]]) (simp add: owned_mem_def e)
          moreover have "sized h5 (Some (pa, bs)) n (unat hw)"
            by (rule sized_keeps [of h4]) (use l1 l2 True in \<open>auto simp: sized_def\<close>)
          moreover have "sized h5 (Some (pc, ds)) n (unat (DEST_SZ hw))" if g2 using l2 that by (simp add: sized_def)
          moreover have "keeps_live h h5" using k1 l2 keeps_live_trans by blast
          ultimately show ?thesis using r l2 by (simp add: sized_for_def n_def)
        qed
      qed
    qed
  qed
qed

lemma clean_array_simps [simp]: "clean_array None" "clean_array (Some (p, bs)) = list_all clean_buffer bs" "list_all clean_buffer (replicate n None)"
  by (simp_all add: clean_array_def list_all_iff clean_buffer_def)

lemma inst_buffers_made:
  fixes meta hw
  defines "ks \<equiv> [Arr, Arr, Arr] @ concat (replicate (2 * request_buffers hw) (buffer_places False meta))"
  assumes e: "src_buffers I = None" "dest_buffers I = None"
  shows "made (\<lambda>K. clean_array (src_buffers K) \<and> clean_array (dest_buffers K)) (first_fail ok (h_next h) ks)
    (h_next h + length ks) (inst_buffers ok drv meta hw I h)"
proof -
  define n where "n = request_buffers hw"
  define B where "B = concat (replicate n (buffer_places False meta))"
  have ks: "ks = [Arr, Arr, Arr] @ B @ B" by (simp add: ks_def B_def n_def mult_2 replicate_add)
  note b = inst_buffers_def [of ok drv meta hw I h, folded request_buffers_def, unfolded Let_def, folded n_def]
  show ?thesis
  proof (cases "ok (h_next h) \<and> ok (Suc (h_next h)) \<and> ok (Suc (Suc (h_next h)))")
    case False
    then show ?thesis using e by (auto simp: ks made_def b halloc_def Let_def)
  next
    case True
    obtain h1 where h1: "halloc ok Libc (n * 8) h = (Some (h_next h), h1)" "h_next h1 = Suc (h_next h)" using halloc_some True by blast
    obtain h2 where h2: "halloc ok Libc (n * 8) h1 = (Some (h_next h1), h2)" "h_next h2 = Suc (h_next h1)"
      using halloc_some [of ok h1] True h1(2) by auto
    obtain h3 where h3: "halloc ok Libc (n * sizeof_stream drv) h2 = (Some (h_next h2), h3)" "h_next h3 = Suc (h_next h2)"
      using halloc_some [of ok h2] True h1(2) h2(2) by auto
    note a = h1(1) h2(1) h3(1)
    have f: "first_fail ok (h_next h) ks = first_fail ok (h_next h3) (B @ B)" "h_next h + length ks = h_next h3 + length (B @ B)"
      using True by (simp_all add: ks h1 h2 h3 del: first_fail_append)
    note m = make_buffers_made [of ok _ n False meta drv, folded B_def]
    show ?thesis
    proof (cases "first_fail ok (h_next h3) B")
      case (Some k)
      then show ?thesis using m [of h3 "unat hw"] unfolding f by (auto simp: made_def b a split: if_splits)
    next
      case None
      obtain bs h4 where x: "make_buffers n ok drv False meta (unat hw) h3 = Some (True, bs, h4)" "list_all clean_buffer bs"
        "h_next h4 = h_next h3 + length B"
        using m [of h3 "unat hw"] None by (auto simp: made_def)
      show ?thesis using m [of h4 "unat (DEST_SZ hw)"] None x unfolding f
        by (auto simp: made_def b a split: if_splits option.splits Option.bind_split)
    qed
  qed
qed

definition empty_mem :: "InstMem \<Rightarrow> bool" where
  "empty_mem I \<longleftrightarrow> intermediate_buffers I = None \<and> src_buffers I = None \<and> dest_buffers I = None \<and> stream_array I = None \<and>
     cpaSess I = None \<and> \<not> mem_setup I"

lemma inst_fail_returns:
  "ledger base (owned_mem I @ os) h \<Longrightarrow> clean_mem I \<Longrightarrow> inst_fail rc I h \<noteq> None"
  by (fastforce simp: inst_fail_def dest: cleanUpInstMem_ledger)

lemma inst_fail_ledger:
  assumes l: "ledger base (owned_mem I @ os) h" and s: "cpaSess I = None" and f: "inst_fail rc I h = Some (rc', I', h')"
  shows "rc' = rc \<and> ledger base os h' \<and> empty_mem I' \<and> cpa_sess_setup I' = cpa_sess_setup I"
proof -
  obtain r where "cleanUpInstMem I h = Some r" using f by (cases "cleanUpInstMem I h") (auto simp: inst_fail_def)
  from cleanUpInstMem_ledger [OF l cleanUpInstMem_clean [OF this]] show ?thesis
    using f s by (auto simp: inst_fail_def empty_mem_def)
qed

lemma getInstMem_cases:
  assumes l: "ledger base os h" and e: "empty_mem I" and g: "getInstMem ok drv params I h = Some (rc, I', h')"
  shows "cpa_sess_setup I' = cpa_sess_setup I \<and>
   ((rc = QZ_OK \<and> ledger base (owned_mem I' @ os) h' \<and> mem_setup I' \<and> cpaSess I' = None \<and> clean_mem I' \<and>
      sized_for h' (i_hw_buff_sz params) I') \<or>
    (rc \<noteq> QZ_OK \<and> ledger base os h' \<and> empty_mem I'))"
proof -
  define hw where "hw = i_hw_buff_sz params"
  define no_mem where "no_mem = (if i_sw_backup params \<noteq> 0 then QZ_LOW_MEM else QZ_NOSW_LOW_MEM)"
  define no_inst where "no_inst = (if i_sw_backup params \<noteq> 0 then QZ_NO_INST_ATTACH else QZ_NOSW_NO_INST_ATTACH)"
  have nz: "no_mem \<noteq> QZ_OK" "no_inst \<noteq> QZ_OK" by (simp_all add: no_mem_def no_inst_def)
  note g' = g [unfolded getInstMem_def Let_def no_mem_def [symmetric] no_inst_def [symmetric] hw_def [symmetric]]
  have fail: ?thesis if "inst_fail c J k = Some (rc, I', h')" "ledger base (owned_mem J @ os) k" "cpaSess J = None" "c \<noteq> QZ_OK"
    "cpa_sess_setup J = cpa_sess_setup I" for c J k
    using inst_fail_ledger [OF that(2,3,1)] that(4,5) by auto
  have l0: "ledger base (owned_mem (I\<lparr>intermediate_cnt := n\<rparr>) @ os) h" "ledger base (owned_mem I @ os) h" for n
    using l e by (simp_all add: owned_mem_def empty_mem_def)
  have cs: "cpaSess I = None" using e by (simp add: empty_mem_def)
  show ?thesis
  proof (cases "d_meta_size drv")
    case None
    then show ?thesis using g' fail [OF _ l0(2) cs nz(2) refl] by simp
  next
    case (Some meta)
    note g1 = g' [unfolded Some option.case]
    show ?thesis
    proof (cases "d_num_inter drv")
      case None
      then show ?thesis using g1 fail [OF _ l0(2) cs nz(2) refl] by simp
    next
      case (Some n)
      note g2 = g1 [unfolded Some option.case]
      obtain ra h1 where a: "halloc ok Libc (n * 8) h = (ra, h1)" by (cases "halloc ok Libc (n * 8) h")
      note la = halloc_ledger [OF l a]
      show ?thesis
      proof (cases ra)
        case None
        have "ledger base (owned_mem (I\<lparr>intermediate_cnt := n\<rparr>) @ os) h1"
          using la(1) None e by (simp add: owned_mem_def empty_mem_def)
        from fail [OF _ this _ nz(1)] show ?thesis using g2 [unfolded a None prod.case option.case] cs by simp
      next
        case (Some p)
        note g3 = g2 [unfolded a Some prod.case option.case]
        obtain g bs h2 where m: "make_buffers n ok drv True meta (unat (2 * hw)) h1 = Some (g, bs, h2)"
          using g3 by (cases "make_buffers n ok drv True meta (unat (2 * hw)) h1") auto
        note lm = make_buffers_ledger [OF la(1) [unfolded Some] m]
        let ?J = "I\<lparr>intermediate_cnt := n, intermediate_buffers := Some (p, bs)\<rparr>"
        have lj: "ledger base (owned_mem ?J @ os) h2"
          by (rule ledger_perm [OF _ lm [THEN conjunct1]]) (use e in \<open>simp add: owned_mem_def empty_mem_def\<close>)
        show ?thesis
        proof (cases g)
          case False
          then show ?thesis using g3 [unfolded m] cs by (intro fail [OF _ lj _ nz(1)]) simp_all
        next
          case True
          obtain g2 K h3 where i: "inst_buffers ok drv meta hw ?J h2 = Some (g2, K, h3)"
            using g3 [unfolded m] True by (cases "inst_buffers ok drv meta hw ?J h2") auto
          have li: "ledger base (owned_mem K @ os) h3" "intermediate_buffers K = Some (p, bs)" "g2 \<longrightarrow> sized_for h3 hw K" "cpaSess K = None"
            "cpa_sess_setup K = cpa_sess_setup I"
            using inst_buffers_ledger [OF lj _ _ _ i] e by (simp_all add: empty_mem_def)
          note g4 = g3 [unfolded m] True i
          consider "\<not> g2" | "g2" "\<not> (d_addr_ok drv \<and> d_start_ok drv)" | "g2" "d_addr_ok drv \<and> d_start_ok drv" by blast
          then show ?thesis
          proof cases
            case 1
            then show ?thesis using g4 li by (intro fail [OF _ li(1) li(4) nz(1)]) simp_all
          next
            case 2
            then show ?thesis using g4 li by (intro fail [OF _ li(1) li(4) nz(2)]) auto
          next
            case 3
            then have "rc = QZ_OK" "I' = K\<lparr>mem_setup := True\<rparr>" "h' = h3" using g4 by auto
            moreover have "clean_mem K"
              using li(2,3) 3(1) lm True sized_clean data_of_clean
              by (fastforce simp: clean_mem_def sized_for_def clean_array_def list_all_iff)
            ultimately show ?thesis using li 3 unfolding owned_mem_def sized_for_def hw_def clean_mem_def by auto
          qed
        qed
      qed
    qed
  qed
qed

text \<open>When the set-up of the memory faults, and when it succeeds: the driver's answers, and the first allocation that fails, the
  first block being \<open>p\<close>.\<close>

definition mem_faults :: "(nat \<Rightarrow> bool) \<Rightarrow> HwDrv \<Rightarrow> u32 \<Rightarrow> nat \<Rightarrow> bool" where
  "mem_faults ok drv hw p \<longleftrightarrow> (case (d_meta_size drv, d_num_inter drv) of
     (Some meta, Some n) \<Rightarrow> first_fail ok p (mem_places meta n hw) \<in> {Some Priv, Some Flat_untested} | _ \<Rightarrow> False)"

definition mem_succeeds :: "(nat \<Rightarrow> bool) \<Rightarrow> HwDrv \<Rightarrow> u32 \<Rightarrow> nat \<Rightarrow> bool" where
  "mem_succeeds ok drv hw p \<longleftrightarrow> (case (d_meta_size drv, d_num_inter drv) of
     (Some meta, Some n) \<Rightarrow> first_fail ok p (mem_places meta n hw) = None \<and> d_addr_ok drv \<and> d_start_ok drv | _ \<Rightarrow> False)"

lemma inst_fail_iff:
  assumes "ledger base (owned_mem I @ os) h"
  shows "inst_fail rc I h = None \<longleftrightarrow> \<not> clean_mem I" "inst_fail rc I h = Some (QZ_OK, I', h') \<Longrightarrow> rc = QZ_OK"
  using inst_fail_returns [OF assms] cleanUpInstMem_clean [of I h]
  by (cases "cleanUpInstMem I h"; fastforce simp: inst_fail_def)+

lemma getInstMem_outcome:
  assumes l: "ledger base os h" and e: "empty_mem I"
  shows "(getInstMem ok drv params I h = None \<longleftrightarrow> mem_faults ok drv (i_hw_buff_sz params) (h_next h)) \<and>
    ((\<exists>I' h'. getInstMem ok drv params I h = Some (QZ_OK, I', h')) \<longleftrightarrow> mem_succeeds ok drv (i_hw_buff_sz params) (h_next h))"
proof -
  define hw where "hw = i_hw_buff_sz params"
  define no_mem where "no_mem = (if i_sw_backup params \<noteq> 0 then QZ_LOW_MEM else QZ_NOSW_LOW_MEM)"
  define no_inst where "no_inst = (if i_sw_backup params \<noteq> 0 then QZ_NO_INST_ATTACH else QZ_NOSW_NO_INST_ATTACH)"
  have nz: "no_mem \<noteq> QZ_OK" "no_inst \<noteq> QZ_OK" by (simp_all add: no_mem_def no_inst_def)
  note g = getInstMem_def Let_def no_mem_def [symmetric] no_inst_def [symmetric] hw_def [symmetric]
  have l0: "ledger base (owned_mem I @ os) h" using l e by (simp add: owned_mem_def empty_mem_def)
  have cs: "cpaSess I = None" "src_buffers I = None" "dest_buffers I = None" "stream_array I = None" "intermediate_buffers I = None"
    using e by (simp_all add: empty_mem_def)
  have cl: "clean_mem I" using cs by (simp add: clean_mem_def)
  have fail: "inst_fail c J k \<noteq> Some (QZ_OK, I', h')" if "ledger base (owned_mem J @ os) k" "c \<noteq> QZ_OK" for c J k I' h'
    using inst_fail_iff(2) [OF that(1)] that(2) by blast
  show ?thesis
  proof (cases "d_meta_size drv = None \<or> d_num_inter drv = None")
    case True
    then show ?thesis using inst_fail_iff(1) [OF l0] cl fail [OF l0 nz(2)]
      by (auto simp: g mem_faults_def mem_succeeds_def split: option.split)
  next
    case False
    then obtain meta n where d: "d_meta_size drv = Some meta" "d_num_inter drv = Some n" by auto
    define A where "A = concat (replicate n (buffer_places True meta))"
    define R where "R = [Arr, Arr, Arr] @ concat (replicate (2 * request_buffers hw) (buffer_places False meta))"
    have ks: "mem_places meta n hw = Arr # A @ R" by (simp add: mem_places_def A_def R_def)
    obtain r h1 where a: "halloc ok Libc (n * 8) h = (r, h1)" by (cases "halloc ok Libc (n * 8) h")
    note la = halloc_ledger(1) [OF l a]
    show ?thesis
    proof (cases "ok (h_next h)")
      case False
      then have r: "r = None" using a by (simp add: halloc_def Let_def)
      have "ledger base (owned_mem (I\<lparr>intermediate_cnt := n\<rparr>) @ os) h1" "clean_mem (I\<lparr>intermediate_cnt := n\<rparr>)"
        using la r cs by (simp_all add: owned_mem_def clean_mem_def)
      then show ?thesis using False inst_fail_iff(1) fail nz(1) by (simp add: g d a r mem_faults_def mem_succeeds_def ks)
    next
      case True
      then have r: "r = Some (h_next h)" "h_next h1 = Suc (h_next h)" using a by (auto simp: halloc_def Let_def)
      have m: "made (list_all clean_buffer) (first_fail ok (h_next h1) A) (h_next h1 + length A) (make_buffers n ok drv True meta (unat (2 * hw)) h1)"
        unfolding A_def by (rule make_buffers_made)
      have f: "first_fail ok (h_next h) (mem_places meta n hw) = first_fail ok (h_next h1) (A @ R)"
        using True r by (simp add: ks del: first_fail_append)
      have lj: "ledger base (owned_mem (I\<lparr>intermediate_cnt := n, intermediate_buffers := Some (h_next h, bs)\<rparr>) @ os) h2"
        if "make_buffers n ok drv True meta (unat (2 * hw)) h1 = Some (good, bs, h2)" for good bs h2
        by (rule ledger_perm [OF _ make_buffers_ledger [OF la that, THEN conjunct1]]) (simp add: owned_mem_def r cs)
      show ?thesis
      proof (cases "first_fail ok (h_next h1) A")
        case (Some k)
        have "Flat_untested \<notin> set A" by (auto simp: A_def buffer_places_def)
        moreover have "first_fail ok p ks = Some k \<Longrightarrow> k \<in> set ks" for p ks by (induction ks arbitrary: p) (auto split: if_splits)
        ultimately have "k \<noteq> Flat_untested" using Some by blast
        then obtain bs h2 where x: "make_buffers n ok drv True meta (unat (2 * hw)) h1 = Some (False, bs, h2)"
          "list_all clean_buffer bs \<longleftrightarrow> k \<noteq> Priv" using m by (auto simp: made_def Some)
        have "clean_mem (I\<lparr>intermediate_cnt := n, intermediate_buffers := Some (h_next h, bs)\<rparr>) \<longleftrightarrow> k \<noteq> Priv"
          using x(2) cs by (simp add: clean_mem_def)
        then show ?thesis using \<open>k \<noteq> Flat_untested\<close> inst_fail_iff(1) [OF lj [OF x(1)]] fail [OF lj [OF x(1)] nz(1)]
          by (simp add: g d a r(1) x(1) mem_faults_def mem_succeeds_def f Some)
      next
        case None
        then obtain bs h2 where x: "make_buffers n ok drv True meta (unat (2 * hw)) h1 = Some (True, bs, h2)"
          "list_all clean_buffer bs" "h_next h2 = h_next h1 + length A" using m by (auto simp: made_def)
        let ?J = "I\<lparr>intermediate_cnt := n, intermediate_buffers := Some (h_next h, bs)\<rparr>"
        have b: "made (\<lambda>K. clean_array (src_buffers K) \<and> clean_array (dest_buffers K)) (first_fail ok (h_next h2) R)
            (h_next h2 + length R) (inst_buffers ok drv meta hw ?J h2)"
          unfolding R_def by (rule inst_buffers_made) (simp_all add: cs)
        have li: "ledger base (owned_mem K @ os) h3" "intermediate_buffers K = Some (h_next h, bs)"
          if "inst_buffers ok drv meta hw ?J h2 = Some (good, K, h3)" for good K h3
          using inst_buffers_ledger [OF lj [OF x(1)] _ _ _ that] cs by simp_all
        have f2: "first_fail ok (h_next h) (mem_places meta n hw) = first_fail ok (h_next h2) R"
          by (simp add: f None x(3))
        show ?thesis
        proof (cases "first_fail ok (h_next h2) R = Some Flat_untested")
          case True
          then show ?thesis using b by (simp add: made_def g d a r(1) x(1) mem_faults_def mem_succeeds_def f2)
        next
          case False
          then obtain good K h3 where y: "inst_buffers ok drv meta hw ?J h2 = Some (good, K, h3)"
            "clean_array (src_buffers K) \<and> clean_array (dest_buffers K) \<longleftrightarrow> first_fail ok (h_next h2) R \<noteq> Some Priv"
            "good \<longleftrightarrow> first_fail ok (h_next h2) R = None"
            using b by (auto simp: made_def split: option.splits if_splits)
          have "clean_mem K \<longleftrightarrow> first_fail ok (h_next h2) R \<noteq> Some Priv" using li(2) [OF y(1)] x(2) y(2) by (simp add: clean_mem_def)
          then show ?thesis using False y(3) inst_fail_iff(1) [OF li(1) [OF y(1)]] fail [OF li(1) [OF y(1)]] nz
            by (auto simp: g d a r(1) x(1) y(1) mem_faults_def mem_succeeds_def f2)
        qed
      qed
    qed
  qed
qed

section \<open>The life of an instance\<close>

text \<open>Before a request of a session: set up what is missing, or replace the driver's session by one with the
  session's parameters. At exit the instance is given back.\<close>

definition prepare_inst ::
  "(nat \<Rightarrow> bool) \<Rightarrow> HwDrv \<Rightarrow> int \<Rightarrow> nat \<Rightarrow> QzSess \<Rightarrow> InstMem \<Rightarrow> Heap \<Rightarrow> (status \<times> QzSess \<times> InstMem \<times> Heap) option" where
  "prepare_inst ok drv init_status i q I h =
    (let q = q\<lparr>inst_hint := int i\<rparr> in
     if \<not> mem_setup I \<or> \<not> cpa_sess_setup I then qzSetupHW ok drv init_status i q I h
     else if im_setup_data I \<noteq> session_setup_data q
     then map_option (\<lambda>(rc, I, h). (rc, q, I, h)) (qzUpdateCpaSession ok drv q I h)
     else Some (QZ_OK, q, I, h))"

definition exit_inst :: "HwDrv \<Rightarrow> InstMem \<Rightarrow> Heap \<Rightarrow> (InstMem \<times> Heap) option" where
  "exit_inst drv I h = do { (I, h) \<leftarrow> removeSession drv I h; cleanUpInstMem I h }"

primrec use_inst :: "(nat \<Rightarrow> bool) \<Rightarrow> (HwDrv \<times> nat \<times> QzSess) list \<Rightarrow> InstMem \<Rightarrow> Heap \<Rightarrow> (InstMem \<times> Heap) option" where
  "use_inst ok [] I h = Some (I, h)"
| "use_inst ok (u # us) I h = (case u of (drv, i, q) \<Rightarrow>
     do { (_, _, I, h) \<leftarrow> prepare_inst ok drv QZ_OK i q I h; use_inst ok us I h })"

text \<open>What the driver answers when it does its part of a session: its size is known, it is set up and removed.\<close>

definition drv_well :: "HwDrv \<Rightarrow> bool" where
  "drv_well drv \<longleftrightarrow> d_remove_ok drv \<and> d_handle drv \<and> d_init_ok drv \<and> d_sess_size drv \<noteq> None"

definition inst_inv :: "(nat \<rightharpoonup> allocator \<times> nat) \<Rightarrow> InstMem \<Rightarrow> Heap \<Rightarrow> bool" where
  "inst_inv base I h \<longleftrightarrow> ledger base (owned_mem I) h \<and> clean_mem I \<and> (cpaSess I \<noteq> None \<longleftrightarrow> cpa_sess_setup I) \<and>
     (\<not> mem_setup I \<longrightarrow> empty_mem I)"

lemma inst_invD:
  assumes "inst_inv base I h"
  shows "ledger base (owned_mem I) h" "clean_mem I" "cpa_sess_setup I = (cpaSess I \<noteq> None)" "\<not> mem_setup I \<Longrightarrow> empty_mem I"
  using assms unfolding inst_inv_def by blast+

lemma empty_clean: "empty_mem I \<Longrightarrow> clean_mem I"
  by (simp add: empty_mem_def clean_mem_def clean_array_def)

lemma empty_owned: "empty_mem I \<Longrightarrow> owned_mem I = []"
  by (simp add: empty_mem_def owned_mem_def)

lemma owned_sess: "owned_mem (I\<lparr>cpaSess := p\<rparr>) = owned_mem (I\<lparr>cpaSess := None\<rparr>) @ own_opt Pinned p"
  by (simp add: owned_mem_def)


lemma fresh_session:
  "ledger base (owned_mem I) h \<Longrightarrow> cpaSess I = None \<Longrightarrow> halloc ok Pinned sz h = (r, h') \<Longrightarrow>
    ledger base (owned_mem (I\<lparr>cpaSess := r\<rparr>)) h'"
  by (drule halloc_ledger(1), assumption) (erule ledger_perm [rotated], simp add: owned_mem_def)

lemma drop_session:
  "ledger base (owned_mem I) h \<Longrightarrow> \<exists>h'. hfree_opt Pinned (cpaSess I) h = Some h' \<and> ledger base (owned_mem (I\<lparr>cpaSess := None\<rparr>)) h'"
  by (rule hfree_opt_ledger, erule ledger_perm [rotated]) (simp add: owned_mem_def)

lemma clean_mem_upd [simp]: "clean_mem (I\<lparr>cpaSess := p\<rparr>) = clean_mem I" "clean_mem (I\<lparr>im_setup_data := d\<rparr>) = clean_mem I"
  "clean_mem (I\<lparr>cpa_sess_setup := b\<rparr>) = clean_mem I" "clean_mem (I\<lparr>mem_setup := b\<rparr>) = clean_mem I"
  by (simp_all add: clean_mem_def)

lemma owned_mem_upd [simp]: "owned_mem (I\<lparr>im_setup_data := d\<rparr>) = owned_mem I"
  "owned_mem (I\<lparr>cpa_sess_setup := b\<rparr>) = owned_mem I" "owned_mem (I\<lparr>mem_setup := b\<rparr>) = owned_mem I"
  by (simp_all add: owned_mem_def)

lemma getInstMem_inv:
  assumes v: "inst_inv base I h" and m: "\<not> mem_setup I" and g: "getInstMem ok drv params I h = Some (rc, I', h')"
  shows "inst_inv base I' h' \<and> (rc = QZ_OK \<longrightarrow> mem_setup I') \<and> \<not> cpa_sess_setup I' \<and> cpaSess I' = None"
proof -
  have e: "empty_mem I" "\<not> cpa_sess_setup I" using inst_invD(3,4) [OF v] m by (simp_all add: empty_mem_def)
  have "ledger base [] h" using v e by (simp add: inst_inv_def empty_owned)
  from getInstMem_cases [OF this e(1) g] show ?thesis using e empty_clean empty_owned
    by (auto simp: inst_inv_def) (simp_all add: empty_mem_def)
qed

lemma qzSetupHW_inv:
  assumes v: "inst_inv base I h" and d: "drv_well drv" and s: "qzSetupHW ok drv QZ_OK i q I h = Some (rc, q', I', h')"
  shows "inst_inv base I' h'"
proof -
  define q1 where "q1 = q\<lparr>inst_hint := int i, seq := 0, seq_in := 0\<rparr>"
  obtain rc1 I1 h1 where g: "(if \<not> mem_setup I then getInstMem ok drv (sess_params q1) I h else Some (QZ_OK, I, h)) = Some (rc1, I1, h1)"
    using s unfolding qzSetupHW_def q1_def [symmetric] Let_def
    by (cases "if \<not> mem_setup I then getInstMem ok drv (sess_params q1) I h else Some (QZ_OK, I, h)") auto
  have v1: "inst_inv base I1 h1 \<and> (rc1 = QZ_OK \<longrightarrow> mem_setup I1)"
    using g v getInstMem_inv [OF v] by (cases "mem_setup I") auto
  obtain sz where z: "d_sess_size drv = Some sz" using d by (auto simp: drv_well_def)
  obtain p h2 where a: "halloc ok Pinned sz h1 = (p, h2)" by (cases "halloc ok Pinned sz h1")
  have s': "(if rc1 \<noteq> QZ_OK then Some (rc1, q1, I1, h1)
       else if cpa_sess_setup I1 then Some (QZ_OK, q1, I1, h1)
       else if p = None then Some (if i_sw_backup (sess_params q1) \<noteq> 0 then QZ_LOW_MEM else QZ_NOSW_LOW_MEM, q1, I1\<lparr>cpaSess := p\<rparr>, h2)
       else Some (QZ_OK, q1, I1\<lparr>cpaSess := p, im_setup_data := session_setup_data q1, cpa_sess_setup := True\<rparr>, h2)) =
     Some (rc, q', I', h')"
    using s d by (simp add: qzSetupHW_def q1_def [symmetric] Let_def g z a drv_well_def cong: if_cong)
  show ?thesis
  proof (cases "rc1 = QZ_OK \<and> \<not> cpa_sess_setup I1")
    case True
    then have c: "cpaSess I1 = None" using v1 by (simp add: inst_inv_def)
    have "ledger base (owned_mem (I1\<lparr>cpaSess := p\<rparr>)) h2" using fresh_session [OF _ c a] v1 by (simp add: inst_inv_def)
    then show ?thesis using s' v1 True by (auto simp: inst_inv_def empty_mem_def split: if_splits)
  next
    case False
    then show ?thesis using s' v1 by (auto split: if_splits)
  qed
qed

lemma qzUpdateCpaSession_inv:
  assumes v: "inst_inv base I h" and d: "drv_well drv" and m: "mem_setup I" and s: "qzUpdateCpaSession ok drv q I h = Some (rc, I', h')"
  shows "inst_inv base I' h'"
proof -
  let ?I = "I\<lparr>cpa_sess_setup := False\<rparr>"
  obtain sz where z: "d_sess_size drv = Some sz" using d by (auto simp: drv_well_def)
  have "ledger base (owned_mem ?I) h" using v by (simp add: inst_inv_def)
  from drop_session [OF this] obtain h1 where f: "hfree_opt Pinned (cpaSess ?I) h = Some h1"
    "ledger base (owned_mem (?I\<lparr>cpaSess := None\<rparr>)) h1" by blast
  obtain p h2 where a: "halloc ok Pinned sz h1 = (p, h2)" by (cases "halloc ok Pinned sz h1")
  have l: "ledger base (owned_mem (?I\<lparr>cpaSess := p\<rparr>)) h2" using fresh_session [OF f(2) _ a] by simp
  then have "ledger base (owned_mem (I\<lparr>cpaSess := p\<rparr>)) h2" by (simp add: owned_mem_def)
  note l = l this
  have "(if p = None then Some (QZ_FAIL, ?I\<lparr>cpaSess := p\<rparr>, h2)
    else Some (QZ_OK, ?I\<lparr>cpaSess := p, im_setup_data := session_setup_data q, cpa_sess_setup := True\<rparr>, h2)) = Some (rc, I', h')"
    using s d f(1) by (simp add: qzUpdateCpaSession_def Let_def drv_well_def z a cong: if_cong)
  then show ?thesis using l inst_invD [OF v] m by (auto simp: inst_inv_def split: if_splits)
qed

lemma prepare_inst_inv:
  assumes v: "inst_inv base I h" and d: "drv_well drv" and s: "prepare_inst ok drv QZ_OK i q I h = Some (rc, q', I', h')"
  shows "inst_inv base I' h'"
proof (cases "\<not> mem_setup I \<or> \<not> cpa_sess_setup I")
  case True
  then show ?thesis using s by (intro qzSetupHW_inv [OF v d]) (simp add: prepare_inst_def)
next
  case False
  then show ?thesis using s v qzUpdateCpaSession_inv [OF v d]
    by (auto simp: prepare_inst_def Let_def split: if_splits)
qed

lemma use_inst_inv:
  "inst_inv base I h \<Longrightarrow> \<forall>u \<in> set us. drv_well (fst u) \<Longrightarrow> use_inst ok us I h = Some (I', h') \<Longrightarrow>
    inst_inv base I' h'"
proof (induction us arbitrary: I h)
  case (Cons u us)
  obtain drv i q where u: "u = (drv, i, q)" by (cases u)
  obtain rc q1 I1 h1 where p: "prepare_inst ok drv QZ_OK i q I h = Some (rc, q1, I1, h1)"
    using Cons.prems(3) by (cases "prepare_inst ok drv QZ_OK i q I h") (auto simp: u)
  have "drv_well drv" using Cons.prems(2) by (simp add: u)
  from prepare_inst_inv [OF Cons.prems(1) this p] Cons.prems(2,3) show ?case
    by (intro Cons.IH [of I1 h1]) (auto simp: u p)
qed simp

lemma exit_inst_inv:
  assumes v: "inst_inv base I h" and d: "drv_well drv"
  shows "\<exists>I' h'. exit_inst drv I h = Some (I', h') \<and> h_live h' = base \<and> empty_mem I'"
proof -
  obtain I1 h1 where r: "removeSession drv I h = Some (I1, h1)" "ledger base (owned_mem I1) h1" "clean_mem I1" "cpaSess I1 = None"
  proof (cases "cpa_sess_setup I")
    case True
    obtain h1 where "hfree_opt Pinned (cpaSess I) h = Some h1" "ledger base (owned_mem (I\<lparr>cpaSess := None\<rparr>)) h1"
      using drop_session [OF inst_invD(1) [OF v]] by blast
    then show thesis using that [of "I\<lparr>cpaSess := None, cpa_sess_setup := False\<rparr>" h1] True inst_invD [OF v] d
      by (simp add: removeSession_def drv_well_def)
  next
    case False
    then show thesis using that [of I h] inst_invD [OF v] by (simp add: removeSession_def)
  qed
  have "ledger base (owned_mem I1 @ []) h1" using r(2) by simp
  from cleanUpInstMem_ledger [OF this r(3)] show ?thesis using r
    by (auto simp: exit_inst_def empty_mem_def dest: ledger_Nil)
qed


text \<open>A session's preparation of an instance faults exactly when it sets up the memory and that faults.\<close>

lemma prepare_inst_faults:
  assumes v: "inst_inv base I h" and d: "drv_well drv"
  shows "prepare_inst ok drv QZ_OK i q I h = None \<longleftrightarrow> \<not> mem_setup I \<and> mem_faults ok drv (i_hw_buff_sz (sess_params q)) (h_next h)"
proof -
  have u: "qzUpdateCpaSession ok drv q I h \<noteq> None" for q
    using drop_session [OF inst_invD(1) [OF v]] d
    by (auto simp: qzUpdateCpaSession_def Let_def drv_well_def split: prod.split)
  have s: "qzSetupHW ok drv QZ_OK i q I h = None \<longleftrightarrow> \<not> mem_setup I \<and> mem_faults ok drv (i_hw_buff_sz (sess_params q)) (h_next h)" for q
  proof (cases "mem_setup I")
    case True
    then show ?thesis using d by (auto simp: qzSetupHW_def Let_def drv_well_def split: prod.split)
  next
    case False
    have "ledger base [] h" "empty_mem I" using inst_invD [OF v] False by (simp_all add: empty_owned)
    note o = getInstMem_outcome [OF this, of ok drv "sess_params q", THEN conjunct1]
    show ?thesis using False d
      by (simp add: o [symmetric] qzSetupHW_def Let_def drv_well_def split: Option.bind_split prod.split option.split)
  qed
  show ?thesis using s u inst_invD(3,4) [OF v] by (auto simp: prepare_inst_def Let_def empty_mem_def)
qed

lemma use_inst_faults:
  "inst_inv base I h \<Longrightarrow> \<forall>u \<in> set us. drv_well (fst u) \<Longrightarrow>
    use_inst ok us I h = None \<longleftrightarrow> (\<exists>k < length us. \<exists>I1 h1. use_inst ok (take k us) I h = Some (I1, h1) \<and> \<not> mem_setup I1 \<and>
      mem_faults ok (fst (us ! k)) (i_hw_buff_sz (sess_params (snd (snd (us ! k))))) (h_next h1))"
proof (induction us arbitrary: I h)
  case (Cons u us)
  obtain drv i q where u: "u = (drv, i, q)" by (cases u)
  have d: "drv_well drv" "\<forall>u \<in> set us. drv_well (fst u)" using Cons.prems(2) by (simp_all add: u)
  note p = prepare_inst_faults [OF Cons.prems(1) d(1), of ok i q]
  show ?case
  proof (cases "prepare_inst ok drv QZ_OK i q I h")
    case None
    then show ?thesis using p by (auto simp: u intro!: exI [of _ "0 :: nat"])
  next
    case (Some r)
    obtain rc q1 I1 h1 where r: "r = (rc, q1, I1, h1)" by (cases r)
    note ih = Cons.IH [OF prepare_inst_inv [OF Cons.prems(1) d(1) Some [unfolded r]] d(2)]
    show ?thesis using p ih by (simp add: u Some r Ex_less_Suc2) blast
  qed
qed simp

lemma empty_ledger: "(\<And>p. h_next h \<le> p \<Longrightarrow> h_live h p = None) \<Longrightarrow> ledger (h_live h) [] h"
  by (simp add: ledger_def)

lemma empty_inv: "empty_mem I \<Longrightarrow> \<not> cpa_sess_setup I \<Longrightarrow> (\<And>p. h_next h \<le> p \<Longrightarrow> h_live h p = None) \<Longrightarrow> inst_inv (h_live h) I h"
  by (simp add: inst_inv_def empty_owned empty_clean empty_ledger) (simp add: empty_mem_def)

section \<open>Properties\<close>

definition empty_heap :: Heap where "empty_heap = \<lparr>h_next = 0, h_live = Map.empty\<rparr>"

definition empty_inst :: InstMem where
  "empty_inst = \<lparr>intermediate_buffers = None, intermediate_cnt = 0, src_buffers = None, dest_buffers = None, src_count = 0,
     dest_count = 0, stream_array = None, cpaSess = None, im_setup_data = zero_setup, mem_setup = False, cpa_sess_setup = False\<rparr>"

definition good_drv :: HwDrv where
  "good_drv = \<lparr>d_meta_size = Some 16, d_num_inter = Some 1, d_addr_ok = True, d_start_ok = True, d_remove_ok = True, d_handle = True,
     d_sess_size = Some 64, d_init_ok = True, sizeof_list = 24, sizeof_flat = 16, sizeof_stream = 64\<rparr>"

text \<open>C24: (getInstMem_balanced) Setting up the memory of an instance has one of three outcomes, and which one is decided by the answers of the
  driver and by the first of its allocations that fails: it succeeds exactly when none fails and the driver answers and starts the
  instance, and then every request buffer is as large as the session's hardware buffer asks for; it faults exactly when the first
  to fail is the private data of a buffer or the flat buffer of a request buffer; and otherwise it gives back all it had allocated
  and leaves the instance empty.\<close>

theorem getInstMem_balanced:
  assumes "\<And>p. h_next h \<le> p \<Longrightarrow> h_live h p = None" and "empty_mem I"
  shows "case getInstMem ok drv params I h of
      None \<Rightarrow> mem_faults ok drv (i_hw_buff_sz params) (h_next h)
    | Some (rc, I', h') \<Rightarrow> \<not> mem_faults ok drv (i_hw_buff_sz params) (h_next h) \<and>
        (if mem_succeeds ok drv (i_hw_buff_sz params) (h_next h)
         then rc = QZ_OK \<and> mem_setup I' \<and> sized_for h' (i_hw_buff_sz params) I' \<and> ledger (h_live h) (owned_mem I') h'
         else rc \<noteq> QZ_OK \<and> h_live h' = h_live h \<and> empty_mem I')"
proof -
  have l: "ledger (h_live h) [] h" using assms(1) by (rule empty_ledger)
  note o = getInstMem_outcome [OF l assms(2), of ok drv params]
  show ?thesis
  proof (cases "getInstMem ok drv params I h")
    case (Some r)
    obtain rc I' h' where r: "r = (rc, I', h')" by (cases r)
    show ?thesis using o getInstMem_cases [OF l assms(2) Some [unfolded r]] by (auto simp: Some r dest: ledger_Nil)
  qed (use o in simp)
qed

theorem getInstMem_balanced_witness:
  "\<exists>rc I' h'. getInstMem (\<lambda>p. p \<noteq> 11) good_drv (sess_params zero_sess) empty_inst empty_heap = Some (rc, I', h') \<and>
     rc \<noteq> QZ_OK \<and> h_live h' = Map.empty \<and> empty_mem I'"
proof -
  have a: "\<And>p. h_next empty_heap \<le> p \<Longrightarrow> h_live empty_heap p = None" "empty_mem empty_inst"
    by (simp_all add: empty_heap_def empty_inst_def empty_mem_def)
  have "\<not> mem_faults (\<lambda>p. p \<noteq> 11) good_drv (i_hw_buff_sz (sess_params zero_sess)) (h_next empty_heap)"
    "\<not> mem_succeeds (\<lambda>p. p \<noteq> 11) good_drv (i_hw_buff_sz (sess_params zero_sess)) (h_next empty_heap)" by code_simp+
  then show ?thesis using getInstMem_balanced [OF a, of "\<lambda>p. p \<noteq> 11" good_drv "sess_params zero_sess"]
    by (simp add: empty_heap_def split: option.splits prod.splits)
qed

text \<open>C17: (instance_life) Whatever sessions use an instance one after the other, each with its own parameters and with a driver that sets its
  sessions up and removes them, and whichever allocations fail on the way: a request faults exactly when it is the one that sets up
  the memory of the instance and the first of its allocations that fails is private data or the flat buffer of a request buffer; and
  when none faults, the exit of the process gives back every block the instance ever allocated, exactly once and to the allocator it
  came from.\<close>

theorem instance_life:
  assumes "\<And>p. h_next h \<le> p \<Longrightarrow> h_live h p = None" and "empty_mem I" and "\<not> cpa_sess_setup I"
    and "\<forall>u \<in> set us. drv_well (fst u)" and "drv_well drv"
  shows "case use_inst ok us I h of
      None \<Rightarrow> \<exists>k < length us. \<exists>I1 h1. use_inst ok (take k us) I h = Some (I1, h1) \<and> \<not> mem_setup I1 \<and>
        mem_faults ok (fst (us ! k)) (i_hw_buff_sz (sess_params (snd (snd (us ! k))))) (h_next h1)
    | Some (I1, h1) \<Rightarrow> (\<exists>I2 h2. exit_inst drv I1 h1 = Some (I2, h2) \<and> h_live h2 = h_live h \<and> empty_mem I2) \<and>
        (\<forall>k < length us. \<forall>I1 h1. use_inst ok (take k us) I h = Some (I1, h1) \<and> \<not> mem_setup I1 \<longrightarrow>
          \<not> mem_faults ok (fst (us ! k)) (i_hw_buff_sz (sess_params (snd (snd (us ! k))))) (h_next h1))"
proof -
  have v: "inst_inv (h_live h) I h" using assms(1-3) by (intro empty_inv)
  note f = use_inst_faults [OF v assms(4), of ok]
  show ?thesis
  proof (cases "use_inst ok us I h")
    case (Some r)
    obtain I1 h1 where r: "r = (I1, h1)" by (cases r)
    from exit_inst_inv [OF use_inst_inv [OF v assms(4) Some [unfolded r]] assms(5)] show ?thesis using f by (auto simp: Some r)
  qed (use f in simp)
qed

theorem instance_life_witness:
  "\<exists>I1 h1 I2 h2. use_inst (\<lambda>_. True) [(good_drv, 0, zero_sess), (good_drv, 0, zero_sess\<lparr>session_setup_data := zero_setup\<lparr>compLevel := 5\<rparr>\<rparr>)]
      empty_inst empty_heap = Some (I1, h1) \<and> exit_inst good_drv I1 h1 = Some (I2, h2) \<and> h_live h2 = Map.empty"
proof -
  let ?us = "[(good_drv, 0, zero_sess), (good_drv, 0, zero_sess\<lparr>session_setup_data := zero_setup\<lparr>compLevel := 5\<rparr>\<rparr>)]"
  have a: "\<And>p. h_next empty_heap \<le> p \<Longrightarrow> h_live empty_heap p = None" "empty_mem empty_inst" "\<not> cpa_sess_setup empty_inst"
    by (simp_all add: empty_heap_def empty_inst_def empty_mem_def)
  have w: "drv_well good_drv" by (simp add: drv_well_def good_drv_def)
  then have "\<forall>u \<in> set ?us. drv_well (fst u)" by simp
  note life = instance_life [where ok = "\<lambda>_. True", OF a this w]
  have "\<not> mem_faults (\<lambda>_. True) drv hw p" for drv hw p by (simp add: mem_faults_def first_fail_all split: option.split)
  then show ?thesis using life by (simp add: empty_heap_def split: option.splits prod.splits) blast
qed

text \<open>(unchecked_flat_buffer) The allocation of the flat buffer of a request buffer is not checked: the code tests the pointer to
  the array instead, and a failure is a null pointer dereference.\<close>

theorem unchecked_flat_buffer:
  "getInstMem (\<lambda>p. p \<noteq> 5) (good_drv\<lparr>d_meta_size := Some 0, d_num_inter := Some 0\<rparr>) (sess_params zero_sess) empty_inst empty_heap = None"
  by code_simp

text \<open>(junk_flat_buffer) A buffer list whose private data cannot be allocated is cleaned up before the pointer to its flat buffer
  is set.\<close>

theorem junk_flat_buffer:
  "getInstMem (\<lambda>p. p \<noteq> 2) good_drv (sess_params zero_sess) empty_inst empty_heap = None"
  by code_simp

text \<open>The instance with a driver's session and no buffers.\<close>

definition sess_inst :: InstMem where
  "sess_inst = empty_inst\<lparr>cpaSess := Some 7, mem_setup := True, cpa_sess_setup := True\<rparr>"

definition sess_heap :: Heap where "sess_heap = \<lparr>h_next = 8, h_live = [7 \<mapsto> (Pinned, 64)]\<rparr>"

text \<open>(update_faults) When a driver refuses the size of the new session the pointer to the old one stays and the exit frees it
  again; when it refuses to set up the new one the block of pinned memory goes to \<^verbatim>\<open>free\<close>.\<close>

theorem update_faults:
  "(case qzUpdateCpaSession (\<lambda>_. True) (good_drv\<lparr>d_sess_size := None\<rparr>) zero_sess sess_inst sess_heap of
      Some (rc, I, h) \<Rightarrow> rc = QZ_FAIL \<and> exit_inst good_drv I h = None | None \<Rightarrow> False) \<and>
   qzUpdateCpaSession (\<lambda>_. True) (good_drv\<lparr>d_init_ok := False\<rparr>) zero_sess sess_inst sess_heap = None"
  by (simp add: qzUpdateCpaSession_def good_drv_def sess_inst_def sess_heap_def empty_inst_def hfree_opt_def hfree_def
    halloc_def Let_def exit_inst_def removeSession_def cleanUpInstMem_def free_array_def)

text \<open>(setup_leaks) When a driver refuses to set up a session its block is lost at the next attempt.\<close>

theorem setup_leaks:
  "(case use_inst (\<lambda>_. True) [(good_drv\<lparr>d_init_ok := False\<rparr>, 0, zero_sess), (good_drv, 0, zero_sess)]
      (sess_inst\<lparr>cpaSess := None, cpa_sess_setup := False\<rparr>) (sess_heap\<lparr>h_live := Map.empty\<rparr>) of
      Some (I, h) \<Rightarrow> (case exit_inst good_drv I h of Some (I, h) \<Rightarrow> h_live h = [8 \<mapsto> (Pinned, 64)] | None \<Rightarrow> False) | None \<Rightarrow> False)"
  by (simp add: prepare_inst_def qzSetupHW_def good_drv_def sess_inst_def sess_heap_def empty_inst_def hfree_opt_def hfree_def
    halloc_def Let_def exit_inst_def removeSession_def cleanUpInstMem_def free_array_def)

text \<open>(first_session_sizes) Once an instance is set up its request buffers are those of the first session, whatever hardware buffer
  a later session asks for.\<close>

theorem first_session_sizes:
  assumes "mem_setup I" and "prepare_inst ok drv s i q I h = Some (rc, q', I', h')"
  shows "src_buffers I' = src_buffers I \<and> dest_buffers I' = dest_buffers I"
proof -
  have "src_buffers I' = src_buffers I \<and> dest_buffers I' = dest_buffers I" if "qzSetupHW ok drv s i q I h = Some (rc, q', I', h')" for q
    using that assms(1) by (auto simp: qzSetupHW_def Let_def split: if_splits option.splits prod.splits)
  moreover have "src_buffers I' = src_buffers I \<and> dest_buffers I' = dest_buffers I" if "qzUpdateCpaSession ok drv q I h = Some (rc, I', h')" for q
    using that by (auto simp: qzUpdateCpaSession_def Let_def split: if_splits option.splits prod.splits Option.bind_splits)
  ultimately show ?thesis using assms(2) by (auto simp: prepare_inst_def Let_def split: if_splits)
qed

theorem first_session_sizes_witness:
  "\<exists>rc q' I' h'. prepare_inst (\<lambda>_. True) good_drv QZ_OK 0 zero_sess sess_inst sess_heap = Some (rc, q', I', h') \<and> src_buffers I' = None"
proof -
  have m: "mem_setup sess_inst" by (simp add: sess_inst_def)
  obtain rc q' I' h' where p: "prepare_inst (\<lambda>_. True) good_drv QZ_OK 0 zero_sess sess_inst sess_heap = Some (rc, q', I', h')"
    by (simp add: prepare_inst_def sess_inst_def good_drv_def sess_heap_def empty_inst_def zero_sess_def qzUpdateCpaSession_def Let_def
      hfree_opt_def hfree_def halloc_def)
  from first_session_sizes [OF m p] p show ?thesis by (simp add: sess_inst_def empty_inst_def)
qed

end
