(* ===== verification/SwFallback.thy ===== *)
theory SwFallback
  imports Format
begin

text \<open>
  The software path (\<^verbatim>\<open>src/qatzip_sw.c\<close>): compression and decompression of a buffer by zlib and
  liblz4, for sessions without hardware, failed requests and the latency sensitive mode. The two
  libraries are arguments: their functions on a stream state of their own. A call gets the
  accessible bytes of the source and of the destination and the two sizes; the result is the return
  code, the two sizes the code stores, the destination's bytes and the new state. \<open>Fault\<close> is an
  access outside the accessible bytes, or a library that takes or makes more than it was offered.
  zlib's running totals are natural numbers; the code reads their lower 32 bits and subtracts, which
  gives what one call took and made.
\<close>

datatype zret = Z_OK | Z_STREAM_END | Z_DATA_ERROR | Z_OTHER
datatype flush = Z_FULL_FLUSH | Z_FINISH

text \<open>The fields of \<^verbatim>\<open>gz_header\<close> the code fills in; the others are zero.\<close>

record gz_header =
  gh_extra :: bytes
  gh_os :: int

record LZ4F_preferences =
  contentChecksumFlag :: nat
  contentSize :: nat
  autoFlush :: nat
  compressionLevel :: u32

text \<open>The libraries: initialisation may fail; a call returns its code, the number of input bytes it
  took, the output and the new state.\<close>

record ('z, 'd) libs =
  deflateInit2 :: "u32 \<Rightarrow> int \<Rightarrow> 'z option"
  deflateSetHeader :: "gz_header \<Rightarrow> 'z \<Rightarrow> 'z option"
  deflate :: "'z \<Rightarrow> bytes \<Rightarrow> nat \<Rightarrow> flush \<Rightarrow> zret \<times> nat \<times> bytes \<times> 'z"
  deflateEnd :: "'z \<Rightarrow> bool"
  z_adler :: "'z \<Rightarrow> u32"
  z_crc32 :: "u64 \<Rightarrow> bytes \<Rightarrow> u64"
  z_crc32_combine :: "u64 \<Rightarrow> u32 \<Rightarrow> nat \<Rightarrow> u64"
  inflateInit2 :: "int \<Rightarrow> 'z option"
  inflate :: "'z \<Rightarrow> bytes \<Rightarrow> nat \<Rightarrow> zret \<times> nat \<times> bytes \<times> 'z"
  inflateEnd :: "'z \<Rightarrow> bool"
  LZ4F_compressFrame :: "LZ4F_preferences \<Rightarrow> bytes \<Rightarrow> nat \<Rightarrow> bytes option"
  LZ4F_createDecompressionContext :: "'d option"
  LZ4F_decompress :: "'d \<Rightarrow> bytes \<Rightarrow> nat \<Rightarrow> (nat \<times> nat \<times> bytes \<times> 'd) option"

text \<open>The session, the thread's status (\<^verbatim>\<open>thd_sess_stat\<close>) and what the session's stream pointers
  point to.\<close>

record ('z, 'd) Sw =
  sw_sess :: QzSess
  sw_thd :: status
  def_strm :: 'z
  def_in :: nat
  def_out :: nat
  inf_strm :: 'z
  inf_in :: nat
  inf_out :: nat
  lz4_ctx :: 'd

type_synonym ('z, 'd) sw_result = "status \<times> nat \<times> nat \<times> bytes \<times> ('z, 'd) Sw"

abbreviation sw_fmt :: "('z, 'd) Sw \<Rightarrow> DataFormatInternal" where
  "sw_fmt S \<equiv> i_data_fmt (sess_params (sw_sess S))"

definition on_sess :: "(QzSess \<Rightarrow> QzSess) \<Rightarrow> ('z, 'd) Sw \<Rightarrow> ('z, 'd) Sw" where
  "on_sess f S = S\<lparr>sw_sess := f (sw_sess S)\<rparr>"

definition MAX_WBITS :: int where "MAX_WBITS = 15"
definition GZIP_WRAPPER :: int where "GZIP_WRAPPER = 16"

definition windows_bits :: "DataFormatInternal \<Rightarrow> int" where
  "windows_bits fmt = (case fmt of
     DEFLATE_4B \<Rightarrow> - MAX_WBITS | DEFLATE_RAW \<Rightarrow> - MAX_WBITS | DEFLATE_ZLIB \<Rightarrow> MAX_WBITS
   | _ \<Rightarrow> MAX_WBITS + GZIP_WRAPPER)"

text \<open>The extra field with both sizes zero; they are filled in after the last block.\<close>

definition gen_qatzip_hdr :: gz_header where
  "gen_qatzip_hdr = \<lparr>gh_extra = QzExtraField_bytes \<lparr>st1 = 81, st2 = 90, x2_len = 8,
     qz_e = \<lparr>src_sz = 0, dest_sz = 0\<rparr>\<rparr>, gh_os = 255\<rparr>"

text \<open>A write of library output at an offset of the destination, given the room it was offered.\<close>

definition put_out :: "bytes \<Rightarrow> nat \<Rightarrow> nat \<Rightarrow> bytes \<Rightarrow> bytes outcome" where
  "put_out dest i room out =
     (if room < length out \<or> length dest < i + length out then Fault
      else Returned (put_bytes dest i out))"

section \<open>Compression with zlib\<close>

text \<open>The local variables of the loop over the chunks; \<open>dl_base\<close> is the offset of the compressed
  data in the destination (4 when room was kept for the 4-byte header).\<close>

record 'z Dl =
  dl_strm :: 'z
  dl_left_in :: nat
  dl_left_out :: nat
  dl_tin :: nat
  dl_tout :: nat
  dl_base :: nat
  dl_dest :: bytes
  dl_crc :: "u64 option"

definition deflate_crc ::
  "('z, 'd) libs \<Rightarrow> DataFormatInternal \<Rightarrow> bytes \<Rightarrow> nat \<Rightarrow> 'z \<Rightarrow> u64 option \<Rightarrow> u64 option" where
  "deflate_crc Z fmt piece tin z crc = (case crc of None \<Rightarrow> None
     | Some c \<Rightarrow> Some (if fmt = DEFLATE_RAW then z_crc32 Z c piece
         else if c = 0 then ucast (z_adler Z z) else z_crc32_combine Z c (z_adler Z z) tin))"

text \<open>One round: the flag says that zlib gave the expected code.\<close>

definition deflate_round ::
  "('z, 'd) libs \<Rightarrow> DataFormatInternal \<Rightarrow> nat \<Rightarrow> bool \<Rightarrow> bytes \<Rightarrow> 'z Dl \<Rightarrow> (bool \<times> 'z Dl) outcome" where
  "deflate_round Z fmt chunk_sz lst inp L =
    (let send = (if dl_left_in L > chunk_sz then chunk_sz else dl_left_in L);
         left = dl_left_in L - send; fin = (left = 0 \<and> lst) in
     if length inp < dl_tin L + send then Fault
     else case deflate Z (dl_strm L) (take send (drop (dl_tin L) inp)) (dl_left_out L)
                 (if fin then Z_FINISH else Z_FULL_FLUSH) of (ret, used, out, z) \<Rightarrow>
       if send < used then Fault
       else obind (put_out (dl_dest L) (dl_base L + dl_tout L) (dl_left_out L) out) (\<lambda>dest.
         if fin \<and> ret \<noteq> Z_STREAM_END \<or> \<not> fin \<and> ret \<noteq> Z_OK
         then Returned (False, L\<lparr>dl_strm := z, dl_left_in := left, dl_dest := dest\<rparr>)
         else Returned (True, L\<lparr>dl_strm := z, dl_left_in := left, dl_dest := dest,
            dl_left_out := dl_left_out L - length out, dl_tin := dl_tin L + used,
            dl_tout := dl_tout L + length out,
            dl_crc := deflate_crc Z fmt (take used (drop (dl_tin L) inp)) (dl_tin L + used) z (dl_crc L)\<rparr>)))"

primrec deflate_loop ::
  "nat \<Rightarrow> ('z, 'd) libs \<Rightarrow> DataFormatInternal \<Rightarrow> nat \<Rightarrow> bool \<Rightarrow> bytes \<Rightarrow> 'z Dl \<Rightarrow> (bool \<times> 'z Dl) outcome" where
  "deflate_loop 0 Z fmt chunk_sz lst inp L = OutOfFuel"
| "deflate_loop (Suc k) Z fmt chunk_sz lst inp L =
    obind (deflate_round Z fmt chunk_sz lst inp L) (\<lambda>(ok, L).
      if ok \<and> dl_left_in L > 0 then deflate_loop k Z fmt chunk_sz lst inp L else Returned (ok, L))"

text \<open>The initialisation: a new stream unless one is open from an earlier call. The result says
  whether it was opened by this call.\<close>

definition deflate_open ::
  "bool \<Rightarrow> ('z, 'd) libs \<Rightarrow> ('z, 'd) Sw \<Rightarrow> bool option \<times> ('z, 'd) Sw" where
  "deflate_open alloc Z S =
    (let q = sw_sess S; fmt = sw_fmt S in
     if deflate_stat q \<noteq> DeflateNull then (Some False, S)
     else if deflate_strm q = None \<and> \<not> alloc then (None, S)
     else
       let S = on_sess (\<lambda>q. q\<lparr>deflate_strm := Some 0\<rparr>) (S\<lparr>def_in := 0, def_out := 0\<rparr>);
           ready = on_sess (\<lambda>q. q\<lparr>deflate_stat := DeflateInited\<rparr>)
       in case deflateInit2 Z (i_comp_lvl (sess_params q)) (windows_bits fmt) of
         None \<Rightarrow> (None, S)
       | Some z \<Rightarrow>
         (if fmt = DEFLATE_GZIP_EXT then
            (case deflateSetHeader Z gen_qatzip_hdr z of
               None \<Rightarrow> (None, S\<lparr>def_strm := z\<rparr>)
             | Some z \<Rightarrow> (Some True, ready (S\<lparr>def_strm := z\<rparr>)))
          else (Some True, ready (S\<lparr>def_strm := z\<rparr>))))"

text \<open>The sizes stored into a header that this call reserved, after the last block.\<close>

definition deflate_fill_header ::
  "DataFormatInternal \<Rightarrow> bool \<Rightarrow> nat \<Rightarrow> nat \<Rightarrow> bytes \<Rightarrow> bytes outcome" where
  "deflate_fill_header fmt opened tin tout dest =
    (if fmt = DEFLATE_GZIP_EXT \<and> opened then
       (if length dest < 24 then Fault
        else Returned (put_bytes dest 16 (le_bytes 4 (of_nat tin :: u32) @
          le_bytes 4 (of_nat tout - of_nat (outputHeaderSz fmt) - of_nat (outputFooterSz fmt) :: u32))))
     else if fmt = DEFLATE_4B \<and> opened then
       (if length dest < 4 then Fault else Returned (put_bytes dest 0 (le_bytes 4 (of_nat tout :: u32))))
     else Returned dest)"

text \<open>After the loop. On an error the session forgets the stream without closing it.\<close>

definition deflate_finish ::
  "('z, 'd) libs \<Rightarrow> bool \<Rightarrow> bool \<Rightarrow> ('z, 'd) Sw \<Rightarrow> bool \<times> 'z Dl \<Rightarrow> ('z, 'd) sw_result outcome" where
  "deflate_finish Z opened lst S r = (case r of (ok, L) \<Rightarrow>
    (let fmt = sw_fmt S; tin = def_in S + dl_tin L; tout = def_out S + dl_tout L;
         S = on_sess (\<lambda>q. q\<lparr>sess_crc := dl_crc L\<rparr>)
               (S\<lparr>def_strm := dl_strm L, def_in := tin, def_out := tout\<rparr>);
         closed = on_sess (\<lambda>q. q\<lparr>deflate_stat := DeflateNull\<rparr>) (S\<lparr>def_in := 0, def_out := 0\<rparr>) in
     if \<not> ok then Returned (QZ_FAIL, dl_tin L, dl_tout L, dl_dest L, closed)
     else if lst then
       obind (deflate_fill_header fmt opened tin tout (dl_dest L)) (\<lambda>dest.
         let dlen = (if fmt = DEFLATE_4B \<and> opened then dl_tout L + 4 else dl_tout L) in
         Returned (if deflateEnd Z (dl_strm L) then QZ_OK else QZ_FAIL, dl_tin L, dlen, dest, closed))
     else Returned (QZ_OK, dl_tin L, dl_tout L, dl_dest L, S)))"

definition qzDeflateSWCompress ::
  "nat \<Rightarrow> bool \<Rightarrow> ('z, 'd) libs \<Rightarrow> bytes \<Rightarrow> nat \<Rightarrow> bytes \<Rightarrow> nat \<Rightarrow> bool \<Rightarrow> ('z, 'd) Sw \<Rightarrow> ('z, 'd) sw_result outcome" where
  "qzDeflateSWCompress fuel alloc Z inp src_len dest dest_len lst S =
    (let S = on_sess (\<lambda>q. q\<lparr>force_sw := True\<rparr>) S in
     case deflate_open alloc Z S of
       (None, S) \<Rightarrow> Returned (QZ_FAIL, 0, 0, dest, S)
     | (Some opened, S) \<Rightarrow>
         obind (deflate_loop fuel Z (sw_fmt S) (unat (i_hw_buff_sz (sess_params (sw_sess S)))) lst inp
           \<lparr>dl_strm = def_strm S, dl_left_in = src_len, dl_left_out = dest_len, dl_tin = 0, dl_tout = 0,
            dl_base = (if sw_fmt S = DEFLATE_4B \<and> opened then 4 else 0), dl_dest = dest,
            dl_crc = sess_crc (sw_sess S)\<rparr>)
         (deflate_finish Z opened lst S))"

section \<open>Decompression with zlib\<close>

text \<open>The initialisation: \<open>skip\<close> is the 4-byte header stepped over by the first call of a member.
  The size left is a 32-bit number that wraps below 4 bytes.\<close>

definition inflate_open ::
  "('z, 'd) libs \<Rightarrow> nat \<Rightarrow> ('z, 'd) Sw \<Rightarrow> (nat \<times> nat) option \<times> ('z, 'd) Sw" where
  "inflate_open Z src_len S =
    (let fmt = sw_fmt S in
     if inflate_stat (sw_sess S) \<noteq> InflateNull then (Some (0, src_len), S)
     else
       let skip = (if fmt = DEFLATE_4B then 4 else 0);
           avail = (if fmt = DEFLATE_4B then unat (of_nat src_len - 4 :: u32) else src_len) in
       case inflateInit2 Z (windows_bits fmt) of None \<Rightarrow> (None, S)
       | Some z \<Rightarrow> (Some (skip, avail), on_sess (\<lambda>q. q\<lparr>inflate_stat := InflateInited\<rparr>)
                     (S\<lparr>inf_strm := z, inf_in := 0, inf_out := 0\<rparr>)))"

text \<open>What zlib's code makes of the session: the return code and the new stream status.\<close>

definition inflate_status :: "zret \<Rightarrow> status \<Rightarrow> status \<times> InflateState" where
  "inflate_status ret thd = (case ret of
     Z_OK \<Rightarrow> if thd = QZ_LOW_DEST_MEM then (QZ_DATA_ERROR, InflateError) else (QZ_OK, InflateOK)
   | Z_STREAM_END \<Rightarrow> (QZ_OK, InflateEnd)
   | Z_DATA_ERROR \<Rightarrow> (QZ_DATA_ERROR, InflateError)
   | Z_OTHER \<Rightarrow> (QZ_FAIL, InflateError))"

text \<open>The exit: the stream is closed at its end, or when the thread was told that the destination
  is too small.\<close>

definition inflate_close :: "('z, 'd) libs \<Rightarrow> bool \<Rightarrow> status \<Rightarrow> ('z, 'd) Sw \<Rightarrow> status \<times> ('z, 'd) Sw" where
  "inflate_close Z at_end rc S =
    (if at_end \<or> sw_thd S = QZ_LOW_DEST_MEM
     then (if inflateEnd Z (inf_strm S) then rc else QZ_FAIL,
           on_sess (\<lambda>q. q\<lparr>inflate_stat := InflateNull\<rparr>) S)
     else (rc, S))"

definition qzDeflateSWDecompress ::
  "bool \<Rightarrow> ('z, 'd) libs \<Rightarrow> bytes \<Rightarrow> nat \<Rightarrow> bytes \<Rightarrow> nat \<Rightarrow> ('z, 'd) Sw \<Rightarrow> ('z, 'd) sw_result outcome" where
  "qzDeflateSWDecompress alloc Z inp src_len dest dest_len S =
    (let S = on_sess (\<lambda>q. q\<lparr>force_sw := True\<rparr>) S in
     if inflate_strm (sw_sess S) = None \<and> \<not> alloc then Returned (QZ_FAIL, 0, 0, dest, S)
     else case inflate_open Z src_len (on_sess (\<lambda>q. q\<lparr>inflate_strm := Some 0\<rparr>) S) of
       (None, S) \<Rightarrow> (case inflate_close Z False QZ_FAIL S of (rc, S) \<Rightarrow> Returned (rc, 0, 0, dest, S))
     | (Some (skip, avail), S) \<Rightarrow>
         if length inp < skip + avail then Fault
         else (case inflate Z (inf_strm S) (take avail (drop skip inp)) dest_len of (ret, used, out, z) \<Rightarrow>
           if avail < used then Fault
           else obind (put_out dest 0 dest_len out) (\<lambda>dest.
             case inflate_status ret (sw_thd S) of (rc, st) \<Rightarrow>
             let S = on_sess (\<lambda>q. (setDeflateEndOfStream q (if ret = Z_STREAM_END then 1 else 0))\<lparr>inflate_stat := st\<rparr>)
                   (S\<lparr>inf_strm := z, inf_in := inf_in S + used, inf_out := inf_out S + length out\<rparr>);
                 n = (if rc = QZ_OK then skip + used else 0); m = (if rc = QZ_OK then length out else 0)
             in case inflate_close Z (ret = Z_STREAM_END) rc S of (rc, S) \<Rightarrow> Returned (rc, n, m, dest, S))))"

text \<open>Several members one after the other. \<open>one\<close> decompresses one member: its arguments are the
  accessible source and destination with their sizes. The calls see the destination from the
  current position on.\<close>

definition at_offset :: "nat \<Rightarrow> bytes \<Rightarrow> bytes \<Rightarrow> bytes" where
  "at_offset i whole part = take i whole @ part"

primrec multi_loop ::
  "nat \<Rightarrow> (bytes \<Rightarrow> nat \<Rightarrow> bytes \<Rightarrow> nat \<Rightarrow> ('z, 'd) Sw \<Rightarrow> ('z, 'd) sw_result outcome) \<Rightarrow>
   (('z, 'd) Sw \<Rightarrow> bool) \<Rightarrow> bytes \<Rightarrow> nat \<Rightarrow> nat \<Rightarrow> status \<Rightarrow> nat \<Rightarrow> nat \<Rightarrow> bytes \<Rightarrow> ('z, 'd) Sw \<Rightarrow>
   ('z, 'd) sw_result outcome" where
  "multi_loop 0 one stop inp n m rc tin tout dest S = OutOfFuel"
| "multi_loop (Suc k) one stop inp n m rc tin tout dest S =
    (if tin < n \<and> tout < m then
       obind (one (drop tin inp) (n - tin) (drop tout dest) (m - tout) S) (\<lambda>(rc, used, made, d, S).
         let dest = at_offset tout dest d in
         if rc \<noteq> QZ_OK then Returned (rc, tin, tout, dest, S)
         else if stop S then Returned (rc, tin + used, tout + made, dest, S)
         else multi_loop k one stop inp n m rc (tin + used) (tout + made) dest S)
     else Returned (rc, tin, tout, dest, S))"

definition qzSWDecompressMultiGzip ::
  "nat \<Rightarrow> bool \<Rightarrow> ('z, 'd) libs \<Rightarrow> bytes \<Rightarrow> nat \<Rightarrow> bytes \<Rightarrow> nat \<Rightarrow> ('z, 'd) Sw \<Rightarrow> ('z, 'd) sw_result outcome" where
  "qzSWDecompressMultiGzip fuel alloc Z inp src_len dest dest_len S =
    multi_loop fuel (qzDeflateSWDecompress alloc Z)
      (\<lambda>S. getDeflateEndOfStream (sw_sess S) = 1 \<and>
           i_stop_decompression_stream_end (sess_params (sw_sess S)) = 1)
      inp src_len dest_len QZ_OK 0 0 dest S"

section \<open>LZ4\<close>

definition qzLZ4SWCompress ::
  "('z, 'd) libs \<Rightarrow> bytes \<Rightarrow> nat \<Rightarrow> bytes \<Rightarrow> nat \<Rightarrow> bool \<Rightarrow> ('z, 'd) Sw \<Rightarrow> ('z, 'd) sw_result outcome" where
  "qzLZ4SWCompress Z inp src_len dest dest_len lst S =
    (if length inp < src_len then Fault
     else case LZ4F_compressFrame Z \<lparr>contentChecksumFlag = 1, contentSize = src_len, autoFlush = 1,
              compressionLevel = i_comp_lvl (sess_params (sw_sess S))\<rparr> (take src_len inp) dest_len of
       None \<Rightarrow> Returned (QZ_FAIL, 0, 0, dest, S)
     | Some out \<Rightarrow> obind (put_out dest 0 dest_len out) (\<lambda>dest.
         Returned (QZ_OK, src_len, length out, dest, S)))"

text \<open>The context is kept between calls until its frame is complete; an error frees it.\<close>

definition qzLZ4SWDecompress ::
  "('z, 'd) libs \<Rightarrow> bytes \<Rightarrow> nat \<Rightarrow> bytes \<Rightarrow> nat \<Rightarrow> ('z, 'd) Sw \<Rightarrow> ('z, 'd) sw_result outcome" where
  "qzLZ4SWDecompress Z inp src_len dest dest_len S =
    (let free = on_sess (\<lambda>q. q\<lparr>dctx := None\<rparr>) in
     case (if dctx (sw_sess S) = None then LZ4F_createDecompressionContext Z else Some (lz4_ctx S)) of
       None \<Rightarrow> Returned (QZ_FAIL, 0, 0, dest, free S)
     | Some c \<Rightarrow>
       if length inp < src_len then Fault
       else case LZ4F_decompress Z c (take src_len inp) dest_len of
         None \<Rightarrow> Returned (QZ_FAIL, 0, 0, dest, free S)
       | Some (hint, used, out, c) \<Rightarrow>
           if src_len < used then Fault
           else obind (put_out dest 0 dest_len out) (\<lambda>dest.
             let S = on_sess (\<lambda>q. q\<lparr>dctx := Some 0\<rparr>) (S\<lparr>lz4_ctx := c\<rparr>) in
             Returned (QZ_OK, used, length out, dest, if hint = 0 then free S else S)))"

definition qzSWDecompressMultiLZ4 ::
  "nat \<Rightarrow> ('z, 'd) libs \<Rightarrow> bytes \<Rightarrow> nat \<Rightarrow> bytes \<Rightarrow> nat \<Rightarrow> ('z, 'd) Sw \<Rightarrow> ('z, 'd) sw_result outcome" where
  "qzSWDecompressMultiLZ4 fuel Z inp src_len dest dest_len S =
    multi_loop fuel (qzLZ4SWDecompress Z) (\<lambda>S. False) inp src_len dest_len QZ_OK 0 0 dest S"

section \<open>Dispatch\<close>

definition qzSWCompress ::
  "nat \<Rightarrow> bool \<Rightarrow> ('z, 'd) libs \<Rightarrow> bytes \<Rightarrow> nat \<Rightarrow> bytes \<Rightarrow> nat \<Rightarrow> bool \<Rightarrow> ('z, 'd) Sw \<Rightarrow> ('z, 'd) sw_result outcome" where
  "qzSWCompress fuel alloc Z inp src_len dest dest_len lst S =
    (if IS_DEFLATE (sw_fmt S) then qzDeflateSWCompress fuel alloc Z inp src_len dest dest_len lst S
     else if sw_fmt S = LZ4_FH then qzLZ4SWCompress Z inp src_len dest dest_len lst S
     else Returned (QZ_FAIL, 0, 0, dest, S))"

definition qzSWDecompress ::
  "bool \<Rightarrow> ('z, 'd) libs \<Rightarrow> bytes \<Rightarrow> nat \<Rightarrow> bytes \<Rightarrow> nat \<Rightarrow> ('z, 'd) Sw \<Rightarrow> ('z, 'd) sw_result outcome" where
  "qzSWDecompress alloc Z inp src_len dest dest_len S =
    (if IS_DEFLATE (sw_fmt S) then qzDeflateSWDecompress alloc Z inp src_len dest dest_len S
     else if sw_fmt S = LZ4_FH then qzLZ4SWDecompress Z inp src_len dest dest_len S
     else Returned (QZ_FAIL, 0, 0, dest, S))"

definition qzSWDecompressMulti ::
  "nat \<Rightarrow> bool \<Rightarrow> ('z, 'd) libs \<Rightarrow> bytes \<Rightarrow> nat \<Rightarrow> bytes \<Rightarrow> nat \<Rightarrow> ('z, 'd) Sw \<Rightarrow> ('z, 'd) sw_result outcome" where
  "qzSWDecompressMulti fuel alloc Z inp src_len dest dest_len S =
    (if IS_DEFLATE (sw_fmt S) then qzSWDecompressMultiGzip fuel alloc Z inp src_len dest dest_len S
     else if sw_fmt S = LZ4_FH then qzSWDecompressMultiLZ4 fuel Z inp src_len dest dest_len S
     else Returned (QZ_FAIL, 0, 0, dest, S))"

section \<open>The latency sensitive mode\<close>

text \<open>A quarter of the software latency is recorded, and zero for the hardware; \<open>t0\<close> and \<open>t1\<close> are the
  time stamps.\<close>

definition lsm_record :: "u64 \<Rightarrow> u64 \<Rightarrow> QzSess \<Rightarrow> QzSess option" where
  "lsm_record t0 t1 q = do {
     s \<leftarrow> metrixUpdate (SWT q) (drop_bit 2 (t1 - t0));
     r \<leftarrow> metrixUpdate (RRT q) 0;
     p \<leftarrow> metrixUpdate (PPT q) 0;
     Some (q\<lparr>SWT := s, RRT := r, PPT := p\<rparr>) }"

definition lsm_after :: "u64 \<Rightarrow> u64 \<Rightarrow> ('z, 'd) sw_result \<Rightarrow> ('z, 'd) sw_result outcome" where
  "lsm_after t0 t1 r = (case r of (rc, n, m, dest, S) \<Rightarrow>
     if rc \<noteq> QZ_OK then Returned (QZ_FAIL, n, m, dest, S)
     else obind (of_option (lsm_record t0 t1 (sw_sess S))) (\<lambda>q.
       Returned (QZ_OK, n, m, dest, S\<lparr>sw_sess := q\<rparr>)))"

definition compLSMFallback ::
  "nat \<Rightarrow> bool \<Rightarrow> ('z, 'd) libs \<Rightarrow> u64 \<Rightarrow> u64 \<Rightarrow> bytes \<Rightarrow> nat \<Rightarrow> bytes \<Rightarrow> nat \<Rightarrow> bool \<Rightarrow> ('z, 'd) Sw \<Rightarrow>
   ('z, 'd) sw_result outcome" where
  "compLSMFallback fuel alloc Z t0 t1 inp src_len dest dest_len lst S =
    obind (qzSWCompress fuel alloc Z inp src_len dest dest_len lst S) (lsm_after t0 t1)"

definition decompLSMFallback ::
  "nat \<Rightarrow> bool \<Rightarrow> ('z, 'd) libs \<Rightarrow> u64 \<Rightarrow> u64 \<Rightarrow> bytes \<Rightarrow> nat \<Rightarrow> bytes \<Rightarrow> nat \<Rightarrow> ('z, 'd) Sw \<Rightarrow>
   ('z, 'd) sw_result outcome" where
  "decompLSMFallback fuel alloc Z t0 t1 inp src_len dest dest_len S =
    obind (qzSWDecompressMulti fuel alloc Z inp src_len dest dest_len S) (lsm_after t0 t1)"

end
