(* ===== verification/Api.thy ===== *)
theory Api
  imports Init InstMem SwFallback
begin

text \<open>
  The calls of the library (\<^verbatim>\<open>qzCompressCrcExt\<close>, \<^verbatim>\<open>qzDecompressCrcExt\<close> and their variants,
  \<^verbatim>\<open>src/qatzip.c\<close>): starting the process and the session if need be, the choice between hardware
  and software, the instance, its preparation, the run, the rest in software after a failed run, the
  lengths and totals. The run of the request pipeline is an argument, so that what holds here holds
  for whatever the pipeline does; the composition with the pipeline is another theory. The software
  path is the one of the model. \<open>Fault\<close> is an access outside a block, a null pointer or a failed
  assertion.
\<close>

text \<open>What a call finds: the versions of the driver's interface, the answers at start and setup, which
  allocations succeed, the driver of each instance, and the time stamps around the run and the post-processing.\<close>

record CallEnv =
  c_sal :: bool
  c_api31 :: bool
  c_api30 :: bool
  c_init :: InitEnv
  c_alloc :: "alloc \<Rightarrow> bool"
  c_ok :: "nat \<Rightarrow> bool"
  c_drv :: "nat \<Rightarrow> HwDrv"
  c_zalloc :: bool
  c_start :: u64
  c_end :: u64
  c_post_start :: u64
  c_post_end :: u64

text \<open>What a run leaves: the session (with the lengths and the two sequence numbers), the thread's status, the place of
  \<^verbatim>\<open>next_dest\<close> in the destination, and the destination.\<close>

record HwResult =
  r_sess :: QzSess
  r_stat :: status
  r_next :: nat
  r_dest :: bytes

type_synonym hw_run = "nat \<Rightarrow> QzSess \<Rightarrow> bytes \<Rightarrow> nat \<Rightarrow> bytes \<Rightarrow> nat \<Rightarrow> HwResult option"

text \<open>The callback for LZ4s: the sizes and the destination are its own to change.\<close>

type_synonym post_callback = "bytes \<Rightarrow> u32 \<Rightarrow> bytes \<Rightarrow> u32 \<Rightarrow> status \<times> u32 \<times> bytes \<times> u32 \<times> int"

record ('z, 'd) Api =
  a_proc :: Process
  a_mem :: "nat \<Rightarrow> InstMem"
  a_heap :: Heap
  a_sess :: QzSession
  a_env :: SessEnv
  a_sw :: "('z, 'd) Sw"

text \<open>Code, the two sizes where the caller gave a pointer to them, the destination, the error code of the post-processing and the state.\<close>

type_synonym ('z, 'd) api_result = "status \<times> u32 option \<times> u32 option \<times> bytes \<times> u64 option \<times> ('z, 'd) Api"

definition api_fail :: "status \<Rightarrow> u32 option \<Rightarrow> u32 option \<Rightarrow> bytes \<Rightarrow> u64 option \<Rightarrow> ('z, 'd) Api \<Rightarrow> ('z, 'd) api_result" where
  "api_fail rc sl dl dest ext A = (rc, map_option (\<lambda>_. 0) sl, map_option (\<lambda>_. 0) dl, dest, ext, A)"

definition getSwBackup :: "('z, 'd) Api \<Rightarrow> u8" where
  "getSwBackup A = (case internal (a_sess A) of Some q \<Rightarrow> i_sw_backup (sess_params q) | None \<Rightarrow> i_sw_backup (e_defaults (a_env A)))"

definition on_q :: "(QzSess \<Rightarrow> QzSess) \<Rightarrow> ('z, 'd) Api \<Rightarrow> ('z, 'd) Api" where
  "on_q f A = A\<lparr>a_sess := (a_sess A)\<lparr>internal := map_option f (internal (a_sess A))\<rparr>\<rparr>"

definition reset_session :: "nat \<Rightarrow> nat \<Rightarrow> bool \<Rightarrow> QzSess \<Rightarrow> QzSess" where
  "reset_session src_len dest_len lst q = q\<lparr>submitted := 0, processed := 0, last_submitted := False, last_processed := False,
     stop_submitting := False, qz_in_len := 0, qz_out_len := 0, force_sw := False, single_thread := False, seq := 0, seq_in := 0,
     src := Ptr BSrc 0, sess_src_sz := of_nat src_len, sess_dest_sz := of_nat dest_len, next_dest := Ptr BDest 0, sess_last := lst\<rparr>"

section \<open>Before the choice\<close>

text \<open>The process is started and the session set up with the defaults if the caller did not. The code that ends the call, if any.\<close>

definition setup_default :: "CallEnv \<Rightarrow> ('z, 'd) Api \<Rightarrow> (status \<times> QzSession \<times> SessEnv) option" where
  "setup_default env A =
    (let E = (a_env A)\<lparr>e_init_status := qz_init_status (a_proc A)\<rparr>; fmt = i_data_fmt (e_defaults (a_env A)) in
     if fmt = LZ4_FH then qzSetupSessionLZ4 (c_api31 env) (c_alloc env) None E (a_sess A)
     else if fmt = LZ4S_BK then qzSetupSessionLZ4S (c_api31 env) (c_alloc env) None E (a_sess A)
     else if fmt = DEFLATE_ZLIB then qzSetupSessionDeflateExt (c_api31 env) (c_alloc env) None E (a_sess A)
     else qzSetupSessionDeflate (c_api31 env) (c_alloc env) None E (a_sess A))"

definition api_ready :: "CallEnv \<Rightarrow> ('z, 'd) Api \<Rightarrow> (status option \<times> ('z, 'd) Api) outcome" where
  "api_ready env A =
    (case qzInit (c_sal env) ((c_init env)\<lparr>e_params_default := e_defaults (a_env A)\<rparr>) (Some (map_option sess_params (internal (a_sess A))))
        (getSwBackup A) (a_proc A) (a_proc A) of None \<Rightarrow> OutOfFuel
     | Some (rc, P) \<Rightarrow>
       (let A = A\<lparr>a_proc := P\<rparr> in
        if QZ_INIT_FAIL rc then Returned (Some rc, A)
        else obind (if internal (a_sess A) = None \<or> hw_session_stat (a_sess A) = QZ_NONE
              then (case setup_default env A of None \<Rightarrow> Fault
                | Some (rc, sess, E) \<Rightarrow> Returned (if QZ_SETUP_SESSION_FAIL rc then Some rc else None, A\<lparr>a_sess := sess, a_env := E\<rparr>))
              else Returned (None, A)) (\<lambda>(stop, A).
          if stop \<noteq> None then Returned (stop, A)
          else if internal (a_sess A) = None then Fault
          else Returned (None, if i_data_fmt (e_defaults (a_env A)) = DEFLATE_ZLIB
            then on_q (\<lambda>q. q\<lparr>sess_params := (sess_params q)\<lparr>i_data_fmt := DEFLATE_ZLIB\<rparr>\<rparr>) A else A))))"

section \<open>Software\<close>

text \<open>A software path on the session of a call.\<close>

definition sw_of :: "('z, 'd) Api \<Rightarrow> ('z, 'd) Sw" where
  "sw_of A = (a_sw A)\<lparr>sw_sess := the (internal (a_sess A)), sw_thd := thd_sess_stat (a_sess A)\<rparr>"

definition sw_back :: "('z, 'd) Sw \<Rightarrow> ('z, 'd) Api \<Rightarrow> ('z, 'd) Api" where
  "sw_back S A = A\<lparr>a_sw := S, a_sess := (a_sess A)\<lparr>internal := Some (sw_sess S), thd_sess_stat := sw_thd S\<rparr>\<rparr>"

type_synonym ('z, 'd) sw_path = "bytes \<Rightarrow> nat \<Rightarrow> bytes \<Rightarrow> nat \<Rightarrow> ('z, 'd) Sw \<Rightarrow> ('z, 'd) sw_result outcome"

definition sw_all :: "('z, 'd) sw_path \<Rightarrow> bytes \<Rightarrow> nat \<Rightarrow> bytes \<Rightarrow> nat \<Rightarrow> u64 option \<Rightarrow> ('z, 'd) Api \<Rightarrow> ('z, 'd) api_result outcome" where
  "sw_all path inp n dest m ext A =
    obind (path inp n dest m (sw_of A)) (\<lambda>(rc, used, made, dest, S).
      Returned (rc, Some (of_nat used), Some (of_nat made), dest, ext, sw_back S A))"

section \<open>Hardware\<close>

definition insts_of :: "Process \<Rightarrow> QzInst list" where
  "insts_of P = (case qz_inst P of Some xs \<Rightarrow> xs | None \<Rightarrow> [])"

definition release :: "nat \<Rightarrow> ('z, 'd) Api \<Rightarrow> ('z, 'd) Api" where
  "release i A = A\<lparr>a_proc := (a_proc A)\<lparr>qz_inst := map_option (qzReleaseInstance i) (qz_inst (a_proc A))\<rparr>\<rparr>"

text \<open>What the search and the preparation of an instance give: an instance, the turn to software, or a code that ends the call.\<close>

datatype got = Got nat | Use_sw | Stop_with status

definition get_instance :: "CallEnv \<Rightarrow> ('z, 'd) Api \<Rightarrow> (got \<times> ('z, 'd) Api) outcome" where
  "get_instance env A =
    (let q = the (internal (a_sess A)); P = a_proc A in
     case qzGrabInstance (c_api31 env) (qz_init_status P) (inst_hint q) (sess_params q) (insts_of P) of None \<Rightarrow> OutOfFuel
     | Some (i, xs) \<Rightarrow>
       if i = -1 then
         (if i_sw_backup (sess_params q) = 1 then Returned (Use_sw, A)
          else Returned (Stop_with QZ_NOSW_NO_INST_ATTACH, A\<lparr>a_sess := (a_sess A)\<lparr>hw_session_stat := QZ_NO_INST_ATTACH\<rparr>\<rparr>))
       else (let i = nat i; A = A\<lparr>a_proc := P\<lparr>qz_inst := map_option (\<lambda>_. xs) (qz_inst P)\<rparr>\<rparr> in
         case prepare_inst (c_ok env) (c_drv env i) (qz_init_status P) i q (a_mem A i) (a_heap A) of None \<Rightarrow> Fault
         | Some (rc, q, I, h) \<Rightarrow>
           (let A = on_q (\<lambda>_. q) (A\<lparr>a_mem := (a_mem A)(i := I), a_heap := h\<rparr>) in
            if rc = QZ_OK then Returned (Got i, A)
            else Returned (if i_sw_backup (sess_params q) = 1 then Use_sw else Stop_with rc, release i A))))"

text \<open>The number of requests decides on a second thread.\<close>

definition request_count :: "nat \<Rightarrow> nat \<Rightarrow> nat" where
  "request_count n sz = n div sz + (if n mod sz \<noteq> 0 then 1 else 0)"

definition hw_call :: "CallEnv \<Rightarrow> hw_run \<Rightarrow> nat \<Rightarrow> bool \<Rightarrow> nat \<Rightarrow> bytes \<Rightarrow> nat \<Rightarrow> bytes \<Rightarrow> nat \<Rightarrow> ('z, 'd) Api \<Rightarrow> (HwResult \<times> ('z, 'd) Api) outcome" where
  "hw_call env run unit lst i inp n dest m A =
    (let q = reset_session n m lst (the (internal (a_sess A)));
         q = q\<lparr>single_thread := (request_count n unit \<le> unat (i_req_cnt_thrshold (sess_params q)))\<rparr> in
     case run i q inp n dest m of None \<Rightarrow> Fault
     | Some r \<Rightarrow>
       obind (if i_is_sensitive_mode (sess_params (r_sess r)) = 1
           then of_option (map_option (\<lambda>t. (r_sess r)\<lparr>RRT := t\<rparr>) (metrixUpdate (RRT (r_sess r)) (c_end env - c_start env)))
           else Returned (r_sess r)) (\<lambda>q.
         Returned (r\<lparr>r_sess := q\<rparr>,
           release i (A\<lparr>a_sess := (a_sess A)\<lparr>internal := Some q, thd_sess_stat := r_stat r\<rparr>\<rparr>))))"

text \<open>The rest of the source in software where the run failed in a way that \<open>again\<close> admits.\<close>

definition sw_rest :: "(status \<Rightarrow> bool) \<Rightarrow> ('z, 'd) sw_path \<Rightarrow> HwResult \<Rightarrow> bytes \<Rightarrow> nat \<Rightarrow> nat \<Rightarrow> ('z, 'd) Api \<Rightarrow>
    (nat \<times> bytes \<times> ('z, 'd) Api) outcome" where
  "sw_rest again path r inp n m A =
    (let q = r_sess r in
     if r_stat r \<noteq> QZ_OK \<and> again (r_stat r) \<and> i_sw_backup (sess_params q) = 1 then
       obind (path (drop (unat (qz_in_len q)) inp) (unat (of_nat n - ucast (qz_in_len q) :: u32)) (drop (r_next r) (r_dest r))
           (unat (of_nat m - of_nat (r_next r) :: u32)) (sw_of A)) (\<lambda>(rc, used, made, d, S).
         let dest = take (r_next r) (r_dest r) @ d; A = sw_back S A in
         if rc = QZ_OK then
           (let A = on_q (\<lambda>q. q\<lparr>qz_in_len := qz_in_len q + of_nat used, qz_out_len := qz_out_len q + of_nat made\<rparr>) A in
            Returned (r_next r + made, dest, A\<lparr>a_sess := (a_sess A)\<lparr>thd_sess_stat := rc\<rparr>\<rparr>))
         else Returned (r_next r, dest, A))
     else Returned (r_next r, r_dest r, A))"

definition hw_finish :: "nat \<Rightarrow> bytes \<Rightarrow> ('z, 'd) Api \<Rightarrow> (status \<times> u32 \<times> u32 \<times> bytes \<times> ('z, 'd) Api) outcome" where
  "hw_finish next dest A =
    (let q = the (internal (a_sess A));
         A = A\<lparr>a_sess := (a_sess A)\<lparr>total_in := total_in (a_sess A) + qz_in_len q, total_out := total_out (a_sess A) + qz_out_len q\<rparr>\<rparr> in
     if ucast (of_nat next :: u32) \<noteq> qz_out_len q then Fault
     else Returned (thd_sess_stat (a_sess A), ucast (qz_in_len q), of_nat next, dest, A))"

text \<open>From the search for an instance on: \<open>sw\<close> is the software path, \<open>fin\<close> what follows a run.\<close>

definition hw_path :: "CallEnv \<Rightarrow> hw_run \<Rightarrow> nat \<Rightarrow> bool \<Rightarrow> (status \<Rightarrow> bool) \<Rightarrow> ('z, 'd) sw_path \<Rightarrow>
    (status \<times> u32 \<times> u32 \<times> bytes \<times> ('z, 'd) Api \<Rightarrow> ('z, 'd) api_result outcome) \<Rightarrow> bytes \<Rightarrow> u32 \<Rightarrow> bytes \<Rightarrow> u32 \<Rightarrow> u64 option \<Rightarrow>
    ('z, 'd) Api \<Rightarrow> ('z, 'd) api_result outcome" where
  "hw_path env run unit lst again sw fin inp sl dest dl ext A =
    obind (get_instance env A) (\<lambda>(g, A). case g of
        Use_sw \<Rightarrow> sw_all sw inp (unat sl) dest (unat dl) ext A
      | Stop_with rc \<Rightarrow> Returned (api_fail rc (Some sl) (Some dl) dest ext A)
      | Got i \<Rightarrow>
        obind (hw_call env run unit lst i inp (unat sl) dest (unat dl) A) (\<lambda>(r, A).
          if seq (r_sess r) \<noteq> seq_in (r_sess r) then Returned (api_fail (r_stat r) (Some sl) (Some dl) (r_dest r) ext A)
          else obind (sw_rest again sw r inp (unat sl) (unat dl) A) (\<lambda>(next, dest, A). obind (hw_finish next dest A) fin)))"

section \<open>Compression\<close>

definition lz4sPostProcess :: "post_callback \<Rightarrow> bytes \<Rightarrow> u32 \<Rightarrow> bytes \<Rightarrow> u32 \<Rightarrow> u64 option \<Rightarrow> ('z, 'd) Api \<Rightarrow> ('z, 'd) api_result" where
  "lz4sPostProcess post inp src_len dest dest_len ext A =
    (if thd_sess_stat (a_sess A) = QZ_OK \<or> thd_sess_stat (a_sess A) = QZ_BUF_ERROR \<and> src_len \<noteq> 0 then
       (case post inp src_len dest dest_len of (rc, sl, dest, dl, err) \<Rightarrow>
         if rc = QZ_OK then (QZ_OK, Some sl, Some dl, dest, map_option (\<lambda>_. 0) ext, on_q (\<lambda>q. q\<lparr>qz_out_len := ucast dl\<rparr>) A)
         else (rc, Some sl, Some dl, dest, map_option (\<lambda>_. word_of_int err) ext, A\<lparr>a_sess := (a_sess A)\<lparr>thd_sess_stat := rc\<rparr>\<rparr>))
     else (QZ_FAIL, Some src_len, Some dest_len, dest, ext, A))"

definition post_process :: "CallEnv \<Rightarrow> post_callback \<Rightarrow> bytes \<Rightarrow> u64 option \<Rightarrow> status \<times> u32 \<times> u32 \<times> bytes \<times> ('z, 'd) Api \<Rightarrow> ('z, 'd) api_result outcome" where
  "post_process env post inp ext res = (case res of (rc, sl, dl, dest, A) \<Rightarrow>
    (let q = the (internal (a_sess A)) in
     if i_data_fmt (sess_params q) = LZ4S_BK \<and> i_qzCallback (sess_params q) \<noteq> 0 then
       (case lz4sPostProcess post inp sl dest dl ext A of (rc, sl, dl, dest, ext, A) \<Rightarrow>
         if rc \<noteq> QZ_OK then Returned (api_fail rc sl dl dest ext A)
         else obind (if i_is_sensitive_mode (sess_params q) = 1
             then of_option (map_option (\<lambda>t. on_q (\<lambda>q. q\<lparr>PPT := t\<rparr>) A) (metrixUpdate (PPT q) (c_post_end env - c_post_start env)))
             else Returned A) (\<lambda>A. Returned (thd_sess_stat (a_sess A), sl, dl, dest, ext, A)))
     else Returned (rc, Some sl, Some dl, dest, ext, A)))"

definition comp_again :: "status \<Rightarrow> bool" where
  "comp_again st \<longleftrightarrow> st \<noteq> QZ_BUF_ERROR"

definition comp_sw :: "CallEnv \<Rightarrow> ('z, 'd) libs \<Rightarrow> bool \<Rightarrow> ('z, 'd) sw_path" where
  "comp_sw env Z lst inp n dest m S = qzSWCompress (Suc n) (c_zalloc env) Z inp n dest m lst S"

text \<open>With the arguments checked, the process started and the session set up.\<close>

definition comp_ready :: "CallEnv \<Rightarrow> hw_run \<Rightarrow> ('z, 'd) libs \<Rightarrow> post_callback \<Rightarrow> bytes \<Rightarrow> u32 \<Rightarrow> bytes \<Rightarrow> u32 \<Rightarrow> bool \<Rightarrow> u64 option \<Rightarrow>
    u64 option \<Rightarrow> ('z, 'd) Api \<Rightarrow> ('z, 'd) api_result outcome" where
  "comp_ready env run Z post inp sl dest dl lst crc ext A =
    (let A = on_q (\<lambda>q. q\<lparr>sess_crc := crc\<rparr>) A; q = the (internal (a_sess A)); ps = sess_params q; st = hw_session_stat (a_sess A);
         n = unat sl; m = unat dl; sw = comp_sw env Z lst in
     if sl < i_input_sz_thrshold ps \<or> qz_init_status (a_proc A) = QZ_NO_HW \<or> st = QZ_NO_HW \<or> \<not> c_api30 env \<and> i_comp_lvl ps = 9
     then sw_all sw inp n dest m ext A
     else if st \<noteq> QZ_OK \<and> st \<noteq> QZ_NO_INST_ATTACH then Returned (api_fail st (Some sl) (Some dl) dest ext A)
     else if i_is_sensitive_mode ps = 1 \<and> chooseLSMPath (SWT q) (RRT q) (PPT q) = LSM_SW
     then sw_all (\<lambda>inp n dest m. compLSMFallback (Suc n) (c_zalloc env) Z (c_start env) (c_end env) inp n dest m lst) inp n dest m ext A
     else hw_path env run (unat (i_hw_buff_sz ps)) lst comp_again sw (post_process env post inp ext) inp sl dest dl ext A)"

definition qzCompressCrcExt :: "CallEnv \<Rightarrow> hw_run \<Rightarrow> ('z, 'd) libs \<Rightarrow> post_callback \<Rightarrow> bool \<Rightarrow> bytes option \<Rightarrow> u32 option \<Rightarrow> bytes option \<Rightarrow>
    u32 option \<Rightarrow> u32 \<Rightarrow> u64 option \<Rightarrow> u64 option \<Rightarrow> ('z, 'd) Api \<Rightarrow> ('z, 'd) api_result outcome" where
  "qzCompressCrcExt env run Z post sess_given inp sl dest dl lst crc ext A =
    (let d = (case dest of Some d \<Rightarrow> d | None \<Rightarrow> []) in
     if \<not> sess_given \<or> inp = None \<or> sl = None \<or> dest = None \<or> dl = None \<or> lst \<noteq> 0 \<and> lst \<noteq> 1 then Returned (api_fail QZ_PARAMS sl dl d ext A)
     else obind (api_ready env A) (\<lambda>(stop, A). case stop of
         Some rc \<Rightarrow> Returned (api_fail rc sl dl d ext A)
       | None \<Rightarrow> comp_ready env run Z post (the inp) (the sl) (the dest) (the dl) (lst = 1) crc ext A))"

definition qzCompressExt :: "CallEnv \<Rightarrow> hw_run \<Rightarrow> ('z, 'd) libs \<Rightarrow> post_callback \<Rightarrow> bool \<Rightarrow> bytes option \<Rightarrow> u32 option \<Rightarrow> bytes option \<Rightarrow>
    u32 option \<Rightarrow> u32 \<Rightarrow> u64 option \<Rightarrow> ('z, 'd) Api \<Rightarrow> ('z, 'd) api_result outcome" where
  "qzCompressExt env run Z post sess_given inp sl dest dl lst ext A =
    (if \<not> sess_given \<or> lst \<noteq> 0 \<and> lst \<noteq> 1
     then Returned (QZ_PARAMS, map_option (\<lambda>_. 0) sl, map_option (\<lambda>_. 0) dl, case dest of Some d \<Rightarrow> d | None \<Rightarrow> [], ext, A)
     else qzCompressCrcExt env run Z post sess_given inp sl dest dl lst None ext A)"

definition qzCompress :: "CallEnv \<Rightarrow> hw_run \<Rightarrow> ('z, 'd) libs \<Rightarrow> post_callback \<Rightarrow> bool \<Rightarrow> bytes option \<Rightarrow> u32 option \<Rightarrow> bytes option \<Rightarrow>
    u32 option \<Rightarrow> u32 \<Rightarrow> ('z, 'd) Api \<Rightarrow> ('z, 'd) api_result outcome" where
  "qzCompress env run Z post sess_given inp sl dest dl lst A = qzCompressExt env run Z post sess_given inp sl dest dl lst None A"

definition qzCompressCrc :: "CallEnv \<Rightarrow> hw_run \<Rightarrow> ('z, 'd) libs \<Rightarrow> post_callback \<Rightarrow> bool \<Rightarrow> bytes option \<Rightarrow> u32 option \<Rightarrow> bytes option \<Rightarrow>
    u32 option \<Rightarrow> u32 \<Rightarrow> u64 option \<Rightarrow> ('z, 'd) Api \<Rightarrow> ('z, 'd) api_result outcome" where
  "qzCompressCrc env run Z post sess_given inp sl dest dl lst crc A = qzCompressCrcExt env run Z post sess_given inp sl dest dl lst crc None A"

section \<open>Decompression\<close>

definition decomp_again :: "status \<Rightarrow> bool" where
  "decomp_again st \<longleftrightarrow> st \<noteq> QZ_BUF_ERROR \<and> st \<noteq> QZ_DATA_ERROR"

definition decomp_sw :: "CallEnv \<Rightarrow> ('z, 'd) libs \<Rightarrow> ('z, 'd) sw_path" where
  "decomp_sw env Z inp n dest m S = qzSWDecompressMulti (Suc (n + m)) (c_zalloc env) Z inp n dest m S"

text \<open>The source size of an extended gzip header at the start of the source, whatever the source's length is said to be. The
  state of the stream after \<^verbatim>\<open>InflateOK\<close> is one in the middle of a member.\<close>

definition small_ext :: "bytes \<Rightarrow> QzSess \<Rightarrow> bool outcome" where
  "small_ext inp q =
    (if i_data_fmt (sess_params q) \<noteq> DEFLATE_GZIP_EXT then Returned False
     else obind (of_option (get32_at inp 16)) (\<lambda>sz. Returned (sz < i_input_sz_thrshold (sess_params q))))"

text \<open>What the hardware cannot take. The trace message evaluates its arguments whether it is printed or not: it reads the place of
  the size in an extended header, in every format, and asks again whether the hardware can take the source.\<close>

definition decomp_trace :: "bytes \<Rightarrow> u32 \<Rightarrow> ('z, 'd) Api \<Rightarrow> ('z, 'd) Api outcome" where
  "decomp_trace inp sl A =
    obind (of_option (get32_at inp 16)) (\<lambda>_. obind (isQATProcessable inp sl (the (internal (a_sess A)))) (\<lambda>(_, q).
      Returned (on_q (\<lambda>_. q) A)))"

definition decomp_needs_sw :: "bytes \<Rightarrow> u32 \<Rightarrow> ('z, 'd) Api \<Rightarrow> (bool \<times> ('z, 'd) Api) outcome" where
  "decomp_needs_sw inp sl A =
    (let q = the (internal (a_sess A)) in
     obind (small_ext inp q) (\<lambda>small.
     obind (if small \<or> qz_init_status (a_proc A) = QZ_NO_HW \<or> hw_session_stat (a_sess A) = QZ_NO_HW then Returned (True, A)
       else obind (isQATProcessable inp sl q) (\<lambda>(ok, q). Returned (ok = 0 \<or> inflate_stat q = InflateOK, on_q (\<lambda>_. q) A))) (\<lambda>(needs, A).
       if needs then obind (decomp_trace inp sl A) (\<lambda>A. Returned (True, A)) else Returned (False, A))))"

definition decomp_ready :: "CallEnv \<Rightarrow> hw_run \<Rightarrow> ('z, 'd) libs \<Rightarrow> bytes \<Rightarrow> u32 \<Rightarrow> bytes \<Rightarrow> u32 \<Rightarrow> u64 option \<Rightarrow>
    ('z, 'd) Api \<Rightarrow> ('z, 'd) api_result outcome" where
  "decomp_ready env run Z inp sl dest dl ext A =
    (let A = on_q (\<lambda>q. setDeflateEndOfStream q 0) A; q = the (internal (a_sess A)); n = unat sl; m = unat dl; sw = decomp_sw env Z in
     if i_data_fmt (sess_params q) = LZ4S_BK then Returned (api_fail QZ_UNSUPPORTED_FMT (Some sl) (Some dl) dest ext A)
     else obind (decomp_needs_sw inp sl A) (\<lambda>(needs, A).
       let q = the (internal (a_sess A)); ps = sess_params q; st = hw_session_stat (a_sess A) in
       if needs then
         (if i_sw_backup ps = 1 then sw_all sw inp n dest m ext A else Returned (api_fail QZ_FAIL (Some sl) (Some dl) dest ext A))
       else if st \<noteq> QZ_OK \<and> st \<noteq> QZ_NO_INST_ATTACH then Returned (api_fail st (Some sl) (Some dl) dest ext A)
       else if i_is_sensitive_mode ps = 1 \<and> chooseLSMPath (SWT q) (RRT q) (PPT q) = LSM_SW
       then sw_all (\<lambda>inp n dest m. decompLSMFallback (Suc (n + m)) (c_zalloc env) Z (c_start env) (c_end env) inp n dest m) inp n dest m ext A
       else hw_path env run (unat (i_hw_buff_sz ps div 2)) False decomp_again sw
         (\<lambda>(rc, sl, dl, dest, A). Returned (rc, Some sl, Some dl, dest, ext, A)) inp sl dest dl ext A))"

definition qzDecompressCrcExt :: "CallEnv \<Rightarrow> hw_run \<Rightarrow> ('z, 'd) libs \<Rightarrow> bool \<Rightarrow> bytes option \<Rightarrow> u32 option \<Rightarrow> bytes option \<Rightarrow>
    u32 option \<Rightarrow> u64 option \<Rightarrow> ('z, 'd) Api \<Rightarrow> ('z, 'd) api_result outcome" where
  "qzDecompressCrcExt env run Z sess_given inp sl dest dl ext A =
    (let d = (case dest of Some d \<Rightarrow> d | None \<Rightarrow> []) in
     if \<not> sess_given \<or> inp = None \<or> sl = None \<or> dest = None \<or> dl = None then Returned (api_fail QZ_PARAMS sl dl d ext A)
     else if sl = Some 0 then Returned (QZ_OK, sl, Some 0, d, ext, A)
     else obind (api_ready env A) (\<lambda>(stop, A). case stop of
         Some rc \<Rightarrow> Returned (api_fail rc sl dl d ext A)
       | None \<Rightarrow> decomp_ready env run Z (the inp) (the sl) (the dest) (the dl) ext A))"

definition qzDecompress :: "CallEnv \<Rightarrow> hw_run \<Rightarrow> ('z, 'd) libs \<Rightarrow> bool \<Rightarrow> bytes option \<Rightarrow> u32 option \<Rightarrow> bytes option \<Rightarrow>
    u32 option \<Rightarrow> ('z, 'd) Api \<Rightarrow> ('z, 'd) api_result outcome" where
  "qzDecompress env run Z sess_given inp sl dest dl A = qzDecompressCrcExt env run Z sess_given inp sl dest dl None A"

definition qzDecompressExt :: "CallEnv \<Rightarrow> hw_run \<Rightarrow> ('z, 'd) libs \<Rightarrow> bool \<Rightarrow> bytes option \<Rightarrow> u32 option \<Rightarrow> bytes option \<Rightarrow>
    u32 option \<Rightarrow> u64 option \<Rightarrow> ('z, 'd) Api \<Rightarrow> ('z, 'd) api_result outcome" where
  "qzDecompressExt env run Z sess_given inp sl dest dl ext A = qzDecompressCrcExt env run Z sess_given inp sl dest dl ext A"

text \<open>The checksum the caller gives is never written: the extended call does not look at it.\<close>

definition qzDecompressCrc :: "CallEnv \<Rightarrow> hw_run \<Rightarrow> ('z, 'd) libs \<Rightarrow> bool \<Rightarrow> bytes option \<Rightarrow> u32 option \<Rightarrow> bytes option \<Rightarrow>
    u32 option \<Rightarrow> u64 option \<Rightarrow> ('z, 'd) Api \<Rightarrow> ('z, 'd) api_result outcome" where
  "qzDecompressCrc env run Z sess_given inp sl dest dl crc A = qzDecompressCrcExt env run Z sess_given inp sl dest dl None A"

section \<open>The process is left as it was\<close>

lemmas obind_dest = obind_Returned [THEN iffD1]

lemma qzGrabInstance_cases:
  assumes "qzGrabInstance api31 st hint ps xs = Some (r, ys)"
  shows "(r = -1 \<and> ys = xs) \<or> (\<exists>i. r = int i \<and> i < length xs \<and> free_wanted api31 ps (xs ! i) \<and> ys = xs[i := (xs ! i)\<lparr>lock := True\<rparr>])"
proof (cases "st = QZ_NONE")
  case False
  have h: "grab_hint hint (length xs) < length xs \<or> xs = []" using grab_hint_less by blast
  have p: "grab_pos_ok (length xs) grab_start" "grab_left (length xs) grab_start < grab_fuel (length xs)"
    by (simp_all add: grab_pos_ok_def grab_start_def grab_left_def grab_fuel_def)
  let ?o = "grab_rest (grab_hint hint (length xs)) (length xs) grab_start"
  have "(r, ys) = grab_result api31 ps ?o xs"
    using grab_loop_result [OF h p, of api31 ps] assms False by (simp add: qzGrabInstance_def)
  moreover have "set ?o \<subseteq> {..<length xs}" by (auto simp: grab_rest_def)
  ultimately show ?thesis by (auto simp: grab_result_def find_Some_iff split: option.splits) (meson lessThan_iff nth_mem subsetD)+
qed (use assms in \<open>simp add: qzGrabInstance_def\<close>)

lemma release_taken: "i < length xs \<Longrightarrow> \<not> lock (xs ! i) \<Longrightarrow> qzReleaseInstance i (xs[i := (xs ! i)\<lparr>lock := True\<rparr>]) = xs"
proof -
  assume i: "i < length xs" "\<not> lock (xs ! i)"
  have "(xs ! i)\<lparr>lock := False\<rparr> = xs ! i" using i(2) by (cases "xs ! i") simp
  then show ?thesis using i(1) by (simp add: qzReleaseInstance_def)
qed

lemma on_q_proc [simp]: "a_proc (on_q f A) = a_proc A"
  by (simp add: on_q_def)

lemma sw_back_proc [simp]: "a_proc (sw_back S A) = a_proc A"
  by (simp add: sw_back_def)

lemma get_instance_proc:
  assumes "get_instance env A = Returned (g, B)" and "qz_inst (a_proc A) \<noteq> None"
  shows "(case g of Got i \<Rightarrow> a_proc (release i B) | _ \<Rightarrow> a_proc B) = a_proc A"
proof -
  let ?q = "the (internal (a_sess A))"
  obtain xs where xs: "qz_inst (a_proc A) = Some xs" using assms(2) by auto
  obtain r ys where g: "qzGrabInstance (c_api31 env) (qz_init_status (a_proc A)) (inst_hint ?q) (sess_params ?q) xs = Some (r, ys)"
    using assms(1) xs by (auto simp: get_instance_def insts_of_def Let_def split: option.splits)
  from qzGrabInstance_cases [OF g] show ?thesis
  proof (elim disjE exE conjE)
    assume "r = -1" "ys = xs"
    then show ?thesis using assms(1) g xs by (auto simp: get_instance_def insts_of_def Let_def split: if_splits)
  next
    fix i assume i: "r = int i" "i < length xs" "free_wanted (c_api31 env) (sess_params ?q) (xs ! i)" "ys = xs[i := (xs ! i)\<lparr>lock := True\<rparr>]"
    have "qzReleaseInstance i ys = xs"
      using release_taken i by (simp add: free_wanted_def)
    then show ?thesis using assms(1) g xs i(1)
      by (auto simp: get_instance_def insts_of_def release_def Let_def split: option.splits if_splits prod.splits)
  qed
qed

lemma hw_call_proc: "hw_call env run unit lst i inp n dest m A = Returned (r, B) \<Longrightarrow> a_proc B = a_proc (release i A)"
  by (auto simp: hw_call_def Let_def release_def split: option.splits if_splits dest!: obind_dest)

lemma sw_rest_proc: "sw_rest again path r inp n m A = Returned (k, d, B) \<Longrightarrow> a_proc B = a_proc A"
  by (auto simp: sw_rest_def Let_def split: if_splits dest!: obind_dest)

lemma hw_finish_proc: "hw_finish k d A = Returned (rc, sl, dl, d', B) \<Longrightarrow> a_proc B = a_proc A"
  by (auto simp: hw_finish_def Let_def split: if_splits)

lemma sw_all_proc: "sw_all path inp n dest m ext A = Returned (rc, sl, dl, d, e, B) \<Longrightarrow> a_proc B = a_proc A"
  by (auto simp: sw_all_def dest!: obind_dest)

lemma post_process_proc: "post_process env post inp ext (rc, sl, dl, d, A) = Returned (rc', sl', dl', d', e', B) \<Longrightarrow> a_proc B = a_proc A"
  by (auto simp: post_process_def lz4sPostProcess_def api_fail_def Let_def split: if_splits prod.splits dest!: obind_dest)


lemma get_instance_Got: "get_instance env A = Returned (Got i, B) \<Longrightarrow> qz_inst (a_proc A) \<noteq> None \<Longrightarrow> a_proc (release i B) = a_proc A"
  and get_instance_Use_sw: "get_instance env A = Returned (Use_sw, B) \<Longrightarrow> qz_inst (a_proc A) \<noteq> None \<Longrightarrow> a_proc B = a_proc A"
  and get_instance_Stop: "get_instance env A = Returned (Stop_with rc, B) \<Longrightarrow> qz_inst (a_proc A) \<noteq> None \<Longrightarrow> a_proc B = a_proc A"
  using get_instance_proc by fastforce+

lemma hw_path_proc:
  assumes c: "hw_path env run unit lst again sw fin inp sl dest dl ext A = Returned (rc, sl', dl', d', e', B)" and p: "qz_inst (a_proc A) \<noteq> None"
    and f: "\<And>st x y d C. fin (st, x, y, d, C) = Returned (rc, sl', dl', d', e', B) \<Longrightarrow> a_proc B = a_proc C"
  shows "a_proc B = a_proc A"
proof -
  obtain g C where g: "get_instance env A = Returned (g, C)" using c by (auto simp: hw_path_def dest!: obind_dest)
  note c1 = c [unfolded hw_path_def g obind.simps prod.case]
  show ?thesis
  proof (cases g)
    case Use_sw
    then show ?thesis using c1 get_instance_proc [OF g p] sw_all_proc by fastforce
  next
    case (Stop_with st)
    then show ?thesis using c1 get_instance_proc [OF g p] by (simp add: api_fail_def)
  next
    case (Got i)
    then have C: "a_proc (release i C) = a_proc A" using get_instance_proc [OF g p] by simp
    obtain r D where h: "hw_call env run unit lst i inp (unat sl) dest (unat dl) C = Returned (r, D)"
      using c1 [unfolded Got got.case] by (auto dest!: obind_dest)
    note c2 = c1 [unfolded Got got.case h obind.simps prod.case]
    have D: "a_proc D = a_proc A" using hw_call_proc [OF h] C by simp
    show ?thesis
    proof (cases "seq (r_sess r) \<noteq> seq_in (r_sess r)")
      case True
      then show ?thesis using c2 D by (simp add: api_fail_def)
    next
      case False
      note c3 = c2 [unfolded if_not_P [OF False]]
      obtain k d E where s: "sw_rest again sw r inp (unat sl) (unat dl) D = Returned (k, d, E)" using c3 by (auto dest!: obind_dest)
      obtain v where v: "hw_finish k d E = Returned v" "fin v = Returned (rc, sl', dl', d', e', B)"
        using c3 [unfolded s obind.simps prod.case] by (auto dest!: obind_dest)
      obtain st x y d2 F where w: "v = (st, x, y, d2, F)" by (cases v)
      show ?thesis using f [OF v(2) [unfolded w]] sw_rest_proc [OF s] hw_finish_proc [OF v(1) [unfolded w]] D by simp
    qed
  qed
qed


lemma comp_ready_proc:
  assumes c: "comp_ready env run Z post inp sl dest dl lst crc ext A = Returned (rc, sl', dl', d', e', B)" and p: "qz_inst (a_proc A) \<noteq> None"
  shows "a_proc B = a_proc A"
proof -
  let ?A = "on_q (\<lambda>q. q\<lparr>sess_crc := crc\<rparr>) A"
  have p': "qz_inst (a_proc ?A) \<noteq> None" using p by simp
  have "a_proc B = a_proc ?A"
    using c unfolding comp_ready_def Let_def api_fail_def
    by (auto split: if_split_asm dest: sw_all_proc hw_path_proc [OF _ p' post_process_proc] simp del: on_q_proc)
  then show ?thesis by simp
qed


lemma decomp_needs_sw_proc: "decomp_needs_sw inp sl A = Returned (b, B) \<Longrightarrow> a_proc B = a_proc A"
  unfolding decomp_needs_sw_def decomp_trace_def Let_def
  by (auto split: if_split_asm dest!: obind_dest)

lemma decomp_ready_proc:
  assumes c: "decomp_ready env run Z inp sl dest dl ext A = Returned (rc, sl', dl', d', e', B)" and p: "qz_inst (a_proc A) \<noteq> None"
  shows "a_proc B = a_proc A"
proof -
  let ?A = "on_q (\<lambda>q. setDeflateEndOfStream q 0) A"
  have pA: "a_proc ?A = a_proc A" by simp
  show ?thesis
  proof (cases "i_data_fmt (sess_params (the (internal (a_sess ?A)))) = LZ4S_BK")
    case True
    then show ?thesis using c pA unfolding decomp_ready_def Let_def api_fail_def if_P [OF True] by auto
  next
    case False
    note c1 = c [unfolded decomp_ready_def Let_def if_not_P [OF False]]
    obtain b C where n: "decomp_needs_sw inp sl ?A = Returned (b, C)" using c1 by (auto dest!: obind_dest)
    have C: "a_proc C = a_proc A" using decomp_needs_sw_proc [OF n] by simp
    then have p': "qz_inst (a_proc C) \<noteq> None" using p by simp
    note c2 = c1 [unfolded n obind.simps prod.case]
    have "a_proc B = a_proc C"
      using c2 unfolding api_fail_def
      by (auto split: if_split_asm dest: sw_all_proc hw_path_proc [OF _ p'])
    then show ?thesis using C by simp
  qed
qed

text \<open>A process that is started.\<close>

definition started :: "('z, 'd) Api \<Rightarrow> bool" where
  "started A \<longleftrightarrow> qz_init_status (a_proc A) = QZ_OK \<and> qat_available (a_proc A) \<noteq> 0 \<and> qz_inst (a_proc A) \<noteq> None"

lemma api_ready_proc:
  assumes s: "started A" and r: "api_ready env A = Returned (stop, B)"
  shows "a_proc B = a_proc A"
proof -
  obtain rc where q: "qzInit (c_sal env) ((c_init env)\<lparr>e_params_default := e_defaults (a_env A)\<rparr>)
      (Some (map_option sess_params (internal (a_sess A)))) (getSwBackup A) (a_proc A) (a_proc A) = Some (rc, a_proc A)"
    using s that [of QZ_PARAMS] that [of QZ_DUPLICATE] by (cases "getSwBackup A > 1") (auto simp: qzInit_def started_def)
  have u: "A\<lparr>a_proc := a_proc A\<rparr> = A" by simp
  note r1 = r [unfolded api_ready_def q option.case prod.case Let_def u]
  show ?thesis
  proof (cases "QZ_INIT_FAIL rc")
    case True
    then show ?thesis using r1 by simp
  next
    case False
    note r2 = r1 [unfolded if_not_P [OF False]]
    from obind_dest [OF r2] obtain wc where wc: "(if internal (a_sess A) = None \<or> hw_session_stat (a_sess A) = QZ_NONE
              then (case setup_default env A of None \<Rightarrow> Fault
                | Some (rc, sess, E) \<Rightarrow> Returned (if QZ_SETUP_SESSION_FAIL rc then Some rc else None, A\<lparr>a_sess := sess, a_env := E\<rparr>))
              else Returned (None, A)) = Returned wc" by (elim exE conjE) (rule that)
    obtain w C where wC: "wc = (w, C)" by (cases wc)
    note w = wc [unfolded wC]
    have "a_proc C = a_proc A" using w by (auto split: if_split_asm option.splits prod.splits)
    then show ?thesis using r2 [unfolded w obind.simps prod.case] by (auto split: if_split_asm)
  qed
qed

section \<open>A call that reaches the hardware\<close>

text \<open>A session with an instance of its own: free, able to do what is asked and set up for it.\<close>

definition ready_for :: "CallEnv \<Rightarrow> ('z, 'd) Api \<Rightarrow> nat \<Rightarrow> QzSess \<Rightarrow> bool" where
  "ready_for env A i q \<longleftrightarrow> started A \<and> internal (a_sess A) = Some q \<and> hw_session_stat (a_sess A) = QZ_OK \<and>
     i_data_fmt (e_defaults (a_env A)) \<noteq> DEFLATE_ZLIB \<and> i_sw_backup (sess_params q) \<le> 1 \<and> inst_hint q = int i \<and>
     i < length (insts_of (a_proc A)) \<and> free_wanted (c_api31 env) (sess_params q) (insts_of (a_proc A) ! i) \<and>
     mem_setup (a_mem A i) \<and> cpa_sess_setup (a_mem A i) \<and> im_setup_data (a_mem A i) = session_setup_data q"

lemma qzGrabInstance_hint:
  assumes "st \<noteq> QZ_NONE" "i < length xs" "free_wanted api31 ps (xs ! i)"
  shows "qzGrabInstance api31 st (int i) ps xs = Some (int i, xs[i := (xs ! i)\<lparr>lock := True\<rparr>])"
proof -
  have h: "grab_hint (int i) (length xs) = i" using assms(2) by (simp add: grab_hint_def)
  have p: "grab_pos_ok (length xs) grab_start" "grab_left (length xs) grab_start < grab_fuel (length xs)"
    by (simp_all add: grab_pos_ok_def grab_start_def grab_left_def grab_fuel_def)
  have "grab_rest i (length xs) grab_start = i # ([i + 1..<length xs] @ concat (replicate 9 [0..<length xs]))"
    using assms(2) by (simp add: grab_rest_def grab_start_def upt_conv_Cons)
  then have "grab_result api31 ps (grab_rest i (length xs) grab_start) xs = (int i, xs[i := (xs ! i)\<lparr>lock := True\<rparr>])"
    using assms(3) by (simp add: grab_result_def)
  then show ?thesis using grab_loop_result [OF _ p, of i api31 ps] assms(1,2) by (simp add: qzGrabInstance_def h)
qed

lemma api_ready_ready: "ready_for env A i q \<Longrightarrow> api_ready env A = Returned (None, A)"
proof -
  assume r: "ready_for env A i q"
  have q: "qzInit (c_sal env) ((c_init env)\<lparr>e_params_default := e_defaults (a_env A)\<rparr>)
      (Some (map_option sess_params (internal (a_sess A)))) (getSwBackup A) (a_proc A) (a_proc A) = Some (QZ_DUPLICATE, a_proc A)"
    using r by (simp add: qzInit_def ready_for_def started_def getSwBackup_def not_less)
  show ?thesis using r unfolding api_ready_def q by (simp add: QZ_INIT_FAIL_def ready_for_def)
qed

lemma ucast_of_nat_small: "k < 2 ^ 32 \<Longrightarrow> ucast (of_nat k :: u32) = (of_nat k :: u64)"
proof -
  assume k: "k < 2 ^ 32"
  have "uint (ucast (of_nat k :: u32) :: u64) = uint (of_nat k :: u64)"
    using k by (simp add: unsigned_of_nat unsigned_ucast_eq take_bit_nat_eq_self)
  then show ?thesis by (simp only: word_uint_eq_iff)
qed

text \<open>The session as the run finds it.\<close>

definition run_session :: "nat \<Rightarrow> nat \<Rightarrow> nat \<Rightarrow> bool \<Rightarrow> QzSess \<Rightarrow> QzSess" where
  "run_session unit n m lst q = (let q = reset_session n m lst q in
     q\<lparr>single_thread := (request_count n unit \<le> unat (i_req_cnt_thrshold (sess_params q)))\<rparr>)"

lemma get_instance_ready:
  assumes "ready_for env A i q"
  shows "\<exists>B. get_instance env A = Returned (Got i, B) \<and> internal (a_sess B) = Some q \<and> a_proc (release i B) = a_proc A \<and> a_sess B = a_sess A"
proof -
  let ?xs = "insts_of (a_proc A)" and ?P = "a_proc A"
  have s: "internal (a_sess A) = Some q" "inst_hint q = int i" "qz_init_status ?P = QZ_OK" "qz_inst ?P \<noteq> None"
    "q\<lparr>inst_hint := int i\<rparr> = q"
    using assms by (simp_all add: ready_for_def started_def)
  have g: "qzGrabInstance (c_api31 env) (qz_init_status ?P) (int i) (sess_params q) ?xs = Some (int i, ?xs[i := (?xs ! i)\<lparr>lock := True\<rparr>])"
    using assms s(3) by (intro qzGrabInstance_hint) (simp_all add: ready_for_def)
  have p: "prepare_inst (c_ok env) (c_drv env i) QZ_OK i q (a_mem A i) (a_heap A) = Some (QZ_OK, q, a_mem A i, a_heap A)"
    using assms s(5) by (simp add: prepare_inst_def ready_for_def Let_def)
  obtain B where B: "get_instance env A = Returned (Got i, B)" "a_sess B = a_sess A"
    using g p s by (simp add: get_instance_def Let_def on_q_def)
  moreover have "a_proc (release i B) = a_proc A" using get_instance_proc [OF B(1) s(4)] by simp
  ultimately show ?thesis using s(1) by simp
qed

lemma hw_path_ready:
  assumes rd: "ready_for env A i q" and run: "run i (run_session unit (unat sl) (unat dl) lst q) inp (unat sl) dest (unat dl) = Some r"
    and ns: "i_is_sensitive_mode (sess_params (r_sess r)) \<noteq> 1" and sq: "seq (r_sess r) = seq_in (r_sess r)"
    and st: "r_stat r = QZ_OK \<or> \<not> again (r_stat r)"
    and len: "r_next r < 2 ^ 32" "qz_out_len (r_sess r) = of_nat (r_next r)"
  shows "\<exists>B. hw_path env run unit lst again sw fin inp sl dest dl ext A =
      fin (r_stat r, ucast (qz_in_len (r_sess r)), of_nat (r_next r), r_dest r, B) \<and> a_proc B = a_proc A \<and> internal (a_sess B) = Some (r_sess r)"
proof -
  obtain C where C: "get_instance env A = Returned (Got i, C)" "internal (a_sess C) = Some q" "a_proc (release i C) = a_proc A"
    using get_instance_ready [OF rd] by blast
  let ?D = "release i (C\<lparr>a_sess := (a_sess C)\<lparr>internal := Some (r_sess r), thd_sess_stat := r_stat r\<rparr>\<rparr>)"
  have q: "run_session unit (unat sl) (unat dl) lst q = (let q = reset_session (unat sl) (unat dl) lst q in
     q\<lparr>single_thread := (request_count (unat sl) unit \<le> unat (i_req_cnt_thrshold (sess_params q)))\<rparr>)" by (simp add: run_session_def)
  have r: "r\<lparr>r_sess := r_sess r\<rparr> = r" by simp
  have h: "hw_call env run unit lst i inp (unat sl) dest (unat dl) C = Returned (r, ?D)"
    using run ns by (simp add: hw_call_def C(2) q Let_def)
  have w: "sw_rest again sw r inp (unat sl) (unat dl) ?D = Returned (r_next r, r_dest r, ?D)"
    using st by (auto simp: sw_rest_def Let_def)
  have i: "internal (a_sess ?D) = Some (r_sess r)" "thd_sess_stat (a_sess ?D) = r_stat r" "a_proc ?D = a_proc A"
    using C(3) by (simp_all add: release_def)
  have "ucast (of_nat (r_next r) :: u32) = (of_nat (r_next r) :: u64)"
    by (rule ucast_of_nat_small [OF len(1)])
  then have f: "hw_finish (r_next r) (r_dest r) ?D = Returned (r_stat r, ucast (qz_in_len (r_sess r)), of_nat (r_next r), r_dest r,
      ?D\<lparr>a_sess := (a_sess ?D)\<lparr>total_in := total_in (a_sess ?D) + qz_in_len (r_sess r), total_out := total_out (a_sess ?D) + qz_out_len (r_sess r)\<rparr>\<rparr>)"
    using len(2) i by (simp add: hw_finish_def Let_def)
  show ?thesis
    unfolding hw_path_def C(1) obind.simps prod.case got.case h if_not_P [OF not_not [THEN iffD2, OF sq]] w f
    by (intro exI conjI, rule refl) (use i in simp_all)
qed

end
