(* ===== verification/DecompInv.thy ===== *)
theory DecompInv
  imports CompOrder DecompPipe
begin

text \<open>
  The decompression pipeline on a healthy instance: the members of a source as \<^verbatim>\<open>checkHeader\<close> finds them
  one after the other, the invariant that says which buffer works on which member and what is in the
  destination, and its preservation by the submitting part and the driver.
\<close>

section \<open>The members of a source\<close>

text \<open>What \<open>checkHeader\<close> finds at an offset of the source, with the destination filled up to \<open>r\<close>: its code
  and the compressed and the uncompressed size.\<close>

definition head_at :: "Job \<Rightarrow> QzSess \<Rightarrow> bytes \<Rightarrow> nat \<Rightarrow> nat \<Rightarrow> status \<times> nat \<times> nat" where
  "head_at J q d i r =
    (case checkHeader q (drop i d) (of_nat (length d - i)) (of_nat (j_dest_sz J - r)) zero_hdr of
       Returned (rc, _, h) \<Rightarrow> (rc, unat (dest_sz (qz_e (extra h))), unat (src_sz (qz_e (extra h))))
     | _ \<Rightarrow> (QZ_FORCE_SW, 0, 0))"

text \<open>The offsets of member \<open>k\<close> in the source and in the destination.\<close>

fun walk :: "Job \<Rightarrow> QzSess \<Rightarrow> bytes \<Rightarrow> nat \<Rightarrow> nat \<times> nat" where
  "walk J q d 0 = (0, 0)"
| "walk J q d (Suc k) = (case walk J q d k of (i, r) \<Rightarrow> case head_at J q d i r of (_, c, u) \<Rightarrow>
     (i + (outputHeaderSz (j_fmt J) + c + outputFooterSz (j_fmt J)), r + u))"

definition src_off :: "Job \<Rightarrow> QzSess \<Rightarrow> bytes \<Rightarrow> nat \<Rightarrow> nat" where "src_off J q d k = fst (walk J q d k)"
definition dest_off :: "Job \<Rightarrow> QzSess \<Rightarrow> bytes \<Rightarrow> nat \<Rightarrow> nat" where "dest_off J q d k = snd (walk J q d k)"

definition head :: "Job \<Rightarrow> QzSess \<Rightarrow> bytes \<Rightarrow> nat \<Rightarrow> status \<times> nat \<times> nat" where
  "head J q d k = head_at J q d (src_off J q d k) (dest_off J q d k)"

definition m_code :: "Job \<Rightarrow> QzSess \<Rightarrow> bytes \<Rightarrow> nat \<Rightarrow> status" where "m_code J q d k = fst (head J q d k)"
definition m_csz :: "Job \<Rightarrow> QzSess \<Rightarrow> bytes \<Rightarrow> nat \<Rightarrow> nat" where "m_csz J q d k = fst (snd (head J q d k))"
definition m_usz :: "Job \<Rightarrow> QzSess \<Rightarrow> bytes \<Rightarrow> nat \<Rightarrow> nat" where "m_usz J q d k = snd (snd (head J q d k))"

definition m_data :: "Job \<Rightarrow> QzSess \<Rightarrow> bytes \<Rightarrow> nat \<Rightarrow> bytes" where
  "m_data J q d k = take (m_csz J q d k) (drop (src_off J q d k + outputHeaderSz (j_fmt J)) d)"

text \<open>The source consists of \<open>n\<close> members; after them it ends (\<open>e\<close> is QZ_OK), or \<open>checkHeader\<close> finds the error
  \<open>e\<close>.\<close>

definition members :: "Job \<Rightarrow> QzSess \<Rightarrow> bytes \<Rightarrow> nat \<Rightarrow> status \<Rightarrow> bool" where
  "members J q d n e \<longleftrightarrow> (\<forall>k < n. src_off J q d k < length d \<and> m_code J q d k = QZ_OK) \<and>
     (if e = QZ_OK then 0 < n \<and> src_off J q d n = length d
      else e \<noteq> QZ_FORCE_SW \<and> src_off J q d n < length d \<and> m_code J q d n = e)"

definition d_answer :: "Job \<Rightarrow> QzSess \<Rightarrow> hardware \<Rightarrow> bytes \<Rightarrow> nat \<Rightarrow> int \<times> CpaDcRqResults \<times> bytes" where
  "d_answer J q hw d k = hw (m_data J q d k) True (m_usz J q d k)"

definition d_res :: "Job \<Rightarrow> QzSess \<Rightarrow> hardware \<Rightarrow> bytes \<Rightarrow> nat \<Rightarrow> CpaDcRqResults" where
  "d_res J q hw d k = fst (snd (d_answer J q hw d k))"

definition d_out :: "Job \<Rightarrow> QzSess \<Rightarrow> hardware \<Rightarrow> bytes \<Rightarrow> nat \<Rightarrow> bytes" where
  "d_out J q hw d k = snd (snd (d_answer J q hw d k))"

definition d_outs :: "Job \<Rightarrow> QzSess \<Rightarrow> hardware \<Rightarrow> bytes \<Rightarrow> nat \<Rightarrow> bytes" where
  "d_outs J q hw d k = concat (map (d_out J q hw d) [0..<k])"

text \<open>The checksum and the length that the footer of a member holds, where its format has one.\<close>

definition footer_of :: "Job \<Rightarrow> QzSess \<Rightarrow> bytes \<Rightarrow> nat \<Rightarrow> u32 \<times> u32" where
  "footer_of J q d k = (let f = drop (src_off J q d k + outputHeaderSz (j_fmt J) + m_csz J q d k) d in
     if j_fmt J = LZ4_FH then (of_le (take 4 (drop 4 f)), of_nat (m_usz J q d k))
     else (of_le (take 4 f), of_le (take 4 (drop 4 f))))"

text \<open>The driver's contract for these members: success, the whole member taken, and the data the header
  announced, with the checksum and length of the footer.\<close>

definition d_healthy :: "Job \<Rightarrow> QzSess \<Rightarrow> hardware \<Rightarrow> bytes \<Rightarrow> nat \<Rightarrow> bool" where
  "d_healthy J q hw d n \<longleftrightarrow> (\<forall>k < n. fst (d_answer J q hw d k) = CPA_STATUS_SUCCESS \<and>
     unat (consumed (d_res J q hw d k)) = m_csz J q d k \<and>
     unat (produced (d_res J q hw d k)) = m_usz J q d k \<and> length (d_out J q hw d k) = m_usz J q d k \<and>
     (j_fmt J \<noteq> DEFLATE_4B \<and> j_fmt J \<noteq> DEFLATE_RAW \<longrightarrow>
        (checksum (d_res J q hw d k), produced (d_res J q hw d k)) = footer_of J q d k))"

definition d_job_ok :: "Job \<Rightarrow> QzSess \<Rightarrow> bytes \<Rightarrow> bool" where
  "d_job_ok J q d \<longleftrightarrow> j_src J = Ptr BSrc 0 \<and> j_src_sz J = length d \<and> length d < 2 ^ 32 \<and> j_dest_sz J < 2 ^ 32 \<and>
     0 < j_hw J \<and> j_hw J \<le> 524288 \<and> j_fmt J \<noteq> DEFLATE_ZLIB \<and> j_fmt J \<noteq> LZ4S_BK \<and> sess_params q = j_params J \<and>
     i_stop_decompression_stream_end (j_params J) \<noteq> 1"

section \<open>What checkHeader promises\<close>

text \<open>The header structure handed in does not matter for the code and the sizes.\<close>

lemma obind_case: "obind x f = (case x of Returned a \<Rightarrow> f a | Fault \<Rightarrow> Fault | OutOfFuel \<Rightarrow> OutOfFuel)"
  by (cases x) simp_all

lemma checkHeader_scan_hdr:
  "checkHeader_scan q p n m h' = (case checkHeader_scan q p n m h of
     Returned (Sizes c u e g) \<Rightarrow> Returned (Sizes c u e (if i_data_fmt (sess_params q) = DEFLATE_GZIP_EXT then g else h'))
   | r \<Rightarrow> r)"
  by (cases "i_data_fmt (sess_params q)")
    (auto simp: checkHeader_scan_def Let_def of_option_def obind_case split: option.splits outcome.splits if_splits prod.splits)

lemma checkHeader_scan_stop:
  assumes "checkHeader_scan q p n m h = Returned (Stop rc)"
  shows "rc \<noteq> QZ_OK"
proof (cases "i_data_fmt (sess_params q)")
  case DEFLATE_GZIP_EXT
  then show ?thesis
    using assms by (auto simp: checkHeader_scan_def Let_def obind_Returned split: option.splits if_splits)
next
  case LZ4_FH
  then show ?thesis
    using assms by (auto simp: checkHeader_scan_def Let_def obind_Returned split: option.splits if_splits)
qed (use assms in \<open>auto simp: checkHeader_scan_def Let_def obind_Returned\<close>)

lemma checkHeader_decide_eq: "\<exists>rc q'. \<forall>h. checkHeader_decide q n m c u e h =
    (rc, q', if rc = QZ_OK then h\<lparr>extra := (extra h)\<lparr>qz_e := \<lparr>src_sz = u, dest_sz = c\<rparr>\<rparr>\<rparr> else h)"
proof -
  define sp where "sp = sess_params q"
  consider (big) "unat c > unat (DEST_SZ (ucast (i_hw_buff_sz sp) :: u64)) \<or> u > i_hw_buff_sz sp"
    | (cut) "\<not> (unat c > unat (DEST_SZ (ucast (i_hw_buff_sz sp) :: u64)) \<or> u > i_hw_buff_sz sp)"
      "unat c + outputHeaderSz (i_data_fmt sp) + outputFooterSz (i_data_fmt sp) > unat n"
    | (small) "\<not> (unat c > unat (DEST_SZ (ucast (i_hw_buff_sz sp) :: u64)) \<or> u > i_hw_buff_sz sp)"
      "\<not> (unat c + outputHeaderSz (i_data_fmt sp) + outputFooterSz (i_data_fmt sp) > unat n)" "u > m"
    | (fits) "\<not> (unat c > unat (DEST_SZ (ucast (i_hw_buff_sz sp) :: u64)) \<or> u > i_hw_buff_sz sp)"
      "\<not> (unat c + outputHeaderSz (i_data_fmt sp) + outputFooterSz (i_data_fmt sp) > unat n)" "\<not> u > m" by blast
  then show ?thesis
  proof cases
    case big
    then show ?thesis unfolding checkHeader_decide_def Let_def sp_def [symmetric] if_P [OF big]
      by (intro exI [of _ "if i_sw_backup sp = 1 then QZ_FORCE_SW else QZ_FAIL"]
          exI [of _ "if i_sw_backup sp = 1 \<and> \<not> (i_data_fmt sp = DEFLATE_GZIP \<and> e) then q\<lparr>force_sw := True\<rparr> else q"]) auto
  next
    case cut
    show ?thesis unfolding checkHeader_decide_def Let_def sp_def [symmetric] if_not_P [OF cut(1)] if_P [OF cut(2)] by auto
  next
    case small
    show ?thesis unfolding checkHeader_decide_def Let_def sp_def [symmetric] if_not_P [OF small(1)] if_not_P [OF small(2)]
      if_P [OF small(3)] by auto
  next
    case fits
    show ?thesis unfolding checkHeader_decide_def Let_def sp_def [symmetric] if_not_P [OF fits(1)] if_not_P [OF fits(2)]
      if_not_P [OF fits(3)] by auto
  qed
qed

lemma checkHeader_decide_hdr:
  assumes "checkHeader_decide q n m c u e h = (rc, q', g)"
  shows "\<exists>g'. checkHeader_decide q n m c u e h' = (rc, q', g') \<and> (rc = QZ_OK \<longrightarrow> qz_e (extra g') = qz_e (extra g))"
proof -
  obtain rc0 q0 where e: "\<And>h. checkHeader_decide q n m c u e h =
      (rc0, q0, if rc0 = QZ_OK then h\<lparr>extra := (extra h)\<lparr>qz_e := \<lparr>src_sz = u, dest_sz = c\<rparr>\<rparr>\<rparr> else h)"
    using checkHeader_decide_eq by blast
  show ?thesis using assms e [of h] e [of h'] by auto
qed

lemma checkHeader_hdr:
  assumes "checkHeader q p n m h = Returned (rc, q', g)"
  shows "\<exists>g'. checkHeader q p n m h' = Returned (rc, q', g') \<and> (rc = QZ_OK \<longrightarrow> qz_e (extra g') = qz_e (extra g))"
proof (cases "n \<le> 0 \<or> m \<le> 0 \<or> unat n < outputHeaderSz (i_data_fmt (sess_params q)) \<or> force_sw q")
  case True
  then show ?thesis using assms by (auto simp: checkHeader_def split: if_splits)
next
  case False
  then have ch: "checkHeader q p n m h0 = obind (checkHeader_scan q p n m h0) (\<lambda>s. case s of Stop rc \<Rightarrow> Returned (rc, q, h0)
       | Sizes csz usz at_end h \<Rightarrow> Returned (checkHeader_decide q n m csz usz at_end h))" for h0
    by (simp add: checkHeader_def)
  obtain s where s: "checkHeader_scan q p n m h = Returned s"
    using assms unfolding ch by (cases "checkHeader_scan q p n m h") simp_all
  show ?thesis
  proof (cases s)
    case (Stop rc')
    then have "checkHeader_scan q p n m h' = Returned (Stop rc')" and "rc' = rc" "q' = q" "rc \<noteq> QZ_OK"
      using checkHeader_scan_hdr [of q p n m h' h] s checkHeader_scan_stop [of q p n m h] assms unfolding ch by simp_all
    then show ?thesis unfolding ch by simp
  next
    case (Sizes c u e k)
    then have "checkHeader_scan q p n m h' =
        Returned (Sizes c u e (if i_data_fmt (sess_params q) = DEFLATE_GZIP_EXT then k else h'))"
      using checkHeader_scan_hdr [of q p n m h' h] s by simp
    moreover have "checkHeader_decide q n m c u e k = (rc, q', g)" using assms s Sizes unfolding ch by simp
    ultimately show ?thesis
      using checkHeader_decide_hdr [of q n m c u e k rc q' g] unfolding ch by fastforce
  qed
qed

lemma checkHeader_ok:
  assumes "checkHeader q p n m h = Returned (QZ_OK, q', g)"
  shows "q' = q" "0 < unat n" "0 < unat m"
    "unat (dest_sz (qz_e (extra g))) + outputHeaderSz (i_data_fmt (sess_params q)) + outputFooterSz (i_data_fmt (sess_params q)) \<le> unat n"
    "unat (src_sz (qz_e (extra g))) \<le> unat m" "unat (src_sz (qz_e (extra g))) \<le> unat (i_hw_buff_sz (sess_params q))"
    "unat (dest_sz (qz_e (extra g))) \<le> unat (DEST_SZ (ucast (i_hw_buff_sz (sess_params q)) :: u64))"
proof -
  have nz: "\<not> (n \<le> 0 \<or> m \<le> 0 \<or> unat n < outputHeaderSz (i_data_fmt (sess_params q)) \<or> force_sw q)"
    using assms by (auto simp: checkHeader_def split: if_splits)
  then obtain s where s: "checkHeader_scan q p n m h = Returned s"
    "(case s of Stop rc \<Rightarrow> Returned (rc, q, h)
       | Sizes csz usz at_end h \<Rightarrow> Returned (checkHeader_decide q n m csz usz at_end h)) = Returned (QZ_OK, q', g)"
    using assms by (auto simp: checkHeader_def obind_Returned split: if_splits)
  have "s \<noteq> Stop QZ_OK" using s(1) checkHeader_scan_stop by blast
  then obtain c u e k where d: "checkHeader_decide q n m c u e k = (QZ_OK, q', g)"
    using s(2) by (cases s) auto
  show "0 < unat n" "0 < unat m" using nz by (simp_all add: unat_gt_0)
  show "q' = q" 
    "unat (dest_sz (qz_e (extra g))) + outputHeaderSz (i_data_fmt (sess_params q)) + outputFooterSz (i_data_fmt (sess_params q)) \<le> unat n"
    "unat (src_sz (qz_e (extra g))) \<le> unat m" "unat (src_sz (qz_e (extra g))) \<le> unat (i_hw_buff_sz (sess_params q))"
    "unat (dest_sz (qz_e (extra g))) \<le> unat (DEST_SZ (ucast (i_hw_buff_sz (sess_params q)) :: u64))"
    using d by (auto simp: checkHeader_decide_def Let_def not_less word_le_nat_alt split: if_splits)
qed

section \<open>Arithmetic of the members\<close>

lemma off_simps [simp]: "src_off J q d 0 = 0" "dest_off J q d 0 = 0"
  "src_off J q d (Suc k) = src_off J q d k + (outputHeaderSz (j_fmt J) + m_csz J q d k + outputFooterSz (j_fmt J))"
  "dest_off J q d (Suc k) = dest_off J q d k + m_usz J q d k"
  by (simp_all add: src_off_def dest_off_def m_csz_def m_usz_def head_def split: prod.split)

lemma d_outs_simps [simp]: "d_outs J q hw d 0 = []" "d_outs J q hw d (Suc k) = d_outs J q hw d k @ d_out J q hw d k"
  by (simp_all add: d_outs_def)

lemma DEST_SZ_64: "unat w \<le> 524288 \<Longrightarrow> unat (DEST_SZ (ucast (w :: u32) :: u64)) = block_dest_sz (unat w)"
proof -
  assume w: "unat w \<le> 524288"
  then have "unat (9 * (ucast w :: u64)) = 9 * unat w"
    by (simp add: unat_word_ariths)
  then show ?thesis using w
    by (simp add: DEST_SZ_def block_dest_sz_eq unat_word_ariths)
qed

text \<open>The call of \<open>checkHeader\<close> at a member, whatever header structure it is given.\<close>

lemma head_found:
  assumes "m_code J q d k \<noteq> QZ_FORCE_SW" and "d_job_ok J q d"
  shows "\<exists>q' g. checkHeader q (drop (src_off J q d k) d) (of_nat (length d - src_off J q d k))
      (of_nat (j_dest_sz J - dest_off J q d k)) h = Returned (m_code J q d k, q', g) \<and>
    (m_code J q d k = QZ_OK \<longrightarrow> q' = q \<and> unat (dest_sz (qz_e (extra g))) = m_csz J q d k \<and>
       unat (src_sz (qz_e (extra g))) = m_usz J q d k \<and>
       dest_off J q d k < j_dest_sz J \<and>
       m_csz J q d k + outputHeaderSz (j_fmt J) + outputFooterSz (j_fmt J) \<le> length d - src_off J q d k \<and>
       m_usz J q d k \<le> j_dest_sz J - dest_off J q d k \<and> m_usz J q d k \<le> j_hw J \<and>
       m_csz J q d k \<le> block_dest_sz (j_hw J))"
proof -
  let ?c = "\<lambda>h. checkHeader q (drop (src_off J q d k) d) (of_nat (length d - src_off J q d k))
      (of_nat (j_dest_sz J - dest_off J q d k)) h"
  have job: "length d < 2 ^ 32" "j_dest_sz J < 2 ^ 32" "j_hw J \<le> 524288" "i_data_fmt (sess_params q) = j_fmt J"
    "unat (i_hw_buff_sz (sess_params q)) = j_hw J"
    using assms(2) by (simp_all add: d_job_ok_def j_fmt_def j_hw_def)
  obtain rc q0 g0 where z: "?c zero_hdr = Returned (rc, q0, g0)"
    using assms(1) by (cases "?c zero_hdr") (auto simp: m_code_def head_def head_at_def)
  then have m: "m_code J q d k = rc" "m_csz J q d k = unat (dest_sz (qz_e (extra g0)))"
    "m_usz J q d k = unat (src_sz (qz_e (extra g0)))"
    by (simp_all add: m_code_def m_csz_def m_usz_def head_def head_at_def)
  obtain g where g: "?c h = Returned (rc, q0, g)" "rc = QZ_OK \<longrightarrow> qz_e (extra g) = qz_e (extra g0)"
    using checkHeader_hdr [OF z, of h] by blast
  have u: "unat (of_nat (length d - src_off J q d k) :: u32) = length d - src_off J q d k"
    "unat (of_nat (j_dest_sz J - dest_off J q d k) :: u32) = j_dest_sz J - dest_off J q d k"
    using job by (simp_all add: unat_of_nat)
  show ?thesis
  proof (cases "rc = QZ_OK")
    case True
    note ok = checkHeader_ok [OF z [unfolded True], unfolded u job(4,5)]
    have "unat (DEST_SZ (ucast (i_hw_buff_sz (sess_params q)) :: u64)) = block_dest_sz (j_hw J)"
      using DEST_SZ_64 [of "i_hw_buff_sz (sess_params q)"] job(3,5) by simp
    then have b: "m_csz J q d k \<le> block_dest_sz (j_hw J)" using ok(7) m(2) by simp
    have "dest_off J q d k < j_dest_sz J" using ok(3) by simp
    then show ?thesis
      using g True m ok(1,4-6) b by (intro exI [of _ q0] exI [of _ g]) simp
  next
    case False
    then show ?thesis using g m by (intro exI [of _ q0] exI [of _ g]) simp
  qed
qed

lemma member_facts:
  assumes mem: "members J q d n e" and job: "d_job_ok J q d" and k: "k < n"
  shows "src_off J q d (Suc k) \<le> length d" "dest_off J q d (Suc k) \<le> j_dest_sz J" "m_usz J q d k \<le> j_hw J"
    "m_csz J q d k \<le> block_dest_sz (j_hw J)"
proof -
  have "m_code J q d k = QZ_OK" "src_off J q d k < length d" using mem k by (simp_all add: members_def)
  then show "src_off J q d (Suc k) \<le> length d" "dest_off J q d (Suc k) \<le> j_dest_sz J" "m_usz J q d k \<le> j_hw J"
    "m_csz J q d k \<le> block_dest_sz (j_hw J)"
    using head_found [of J q d k zero_hdr, OF _ job] by auto
qed

lemma dest_off_mono: "k \<le> l \<Longrightarrow> dest_off J q d k \<le> dest_off J q d l"
  by (induction l) (auto simp: le_Suc_eq)

lemma dest_off_le: "members J q d n e \<Longrightarrow> d_job_ok J q d \<Longrightarrow> k \<le> n \<Longrightarrow> dest_off J q d k \<le> j_dest_sz J"
  by (cases k) (use member_facts(2) in fastforce)+

lemma src_off_le: "members J q d n e \<Longrightarrow> d_job_ok J q d \<Longrightarrow> k \<le> n \<Longrightarrow> src_off J q d k \<le> length d"
  by (cases k) (use member_facts(1) in fastforce)+

lemma length_d_outs: "d_healthy J q hw d n \<Longrightarrow> k \<le> n \<Longrightarrow> length (d_outs J q hw d k) = dest_off J q d k"
  by (induction k) (auto simp: d_healthy_def)

section \<open>The invariant\<close>

text \<open>While a member is in a buffer the buffer's two pinned blocks are swapped.\<close>

definition swapped :: "nat \<Rightarrow> CpaStream \<Rightarrow> bool" where
  "swapped j s \<longleftrightarrow> orig_src s = Ptr (BPool (2 * j + 1)) 0 \<and> orig_dest s = Ptr (BPool (2 * j)) 0"

definition d_prep :: "Job \<Rightarrow> QzSess \<Rightarrow> hardware \<Rightarrow> bytes \<Rightarrow> slot_pred" where
  "d_prep J q hw d j m s k \<longleftrightarrow> 0 \<le> k \<and> st_seq s = k \<and> swapped j s \<and>
     load m (src_pData s) (src_dataLen s) = Some (m_data J q d (nat k)) \<and>
     (if src_need_reset s then p_blk (src_pData s) = BSrc else src_pData s = orig_src s) \<and>
     dest_dataLen s = m_usz J q d (nat k) \<and>
     (if dest_need_reset s then dest_pData s = Ptr BDest (dest_off J q d (nat k)) else dest_pData s = orig_dest s) \<and>
     (j_fmt J \<noteq> DEFLATE_4B \<and> j_fmt J \<noteq> DEFLATE_RAW \<longrightarrow> (st_checksum s, orgdatalen s) = footer_of J q d (nat k))"

definition d_fin :: "Job \<Rightarrow> QzSess \<Rightarrow> hardware \<Rightarrow> bytes \<Rightarrow> slot_pred" where
  "d_fin J q hw d j m s k \<longleftrightarrow> d_prep J q hw d j m s k \<and> job_status s = CPA_STATUS_SUCCESS \<and>
     st_res s = d_res J q hw d (nat k) \<and> length (d_out J q hw d (nat k)) = m_usz J q d (nat k) \<and>
     load m (dest_pData s) (m_usz J q d (nat k)) = Some (d_out J q hw d (nat k))"

definition d_keeps :: "Job \<Rightarrow> QzSess \<Rightarrow> bytes \<Rightarrow> int \<Rightarrow> store \<Rightarrow> store \<Rightarrow> bool" where
  "d_keeps J q d k m m' \<longleftrightarrow> length (m' BDest) = length (m BDest) \<and>
     take (m_usz J q d (nat k)) (drop (dest_off J q d (nat k)) (m' BDest)) =
     take (m_usz J q d (nat k)) (drop (dest_off J q d (nat k)) (m BDest))"

definition d_claimed :: "dphase \<Rightarrow> nat option" where
  "d_claimed ph = (case ph of DClaimed j \<Rightarrow> Some j | _ \<Rightarrow> None)"

definition d_readied :: "dphase \<Rightarrow> nat option" where
  "d_readied ph = (case ph of DReady j _ _ \<Rightarrow> Some j | _ \<Rightarrow> None)"

lemma dphase_simps [simp]: "d_claimed (DClaimed j) = Some j" "d_claimed DTop = None" "d_claimed DFound = None"
  "d_claimed (DReady j n m) = None" "d_claimed DPaused = None" "d_claimed DDone = None"
  "d_readied (DReady j n m) = Some j" "d_readied DTop = None" "d_readied DFound = None" "d_readied (DClaimed j) = None"
  "d_readied DPaused = None" "d_readied DDone = None"
  by (simp_all add: d_claimed_def d_readied_def)

interpretation ds: request_slots comp_idle "d_prep J q hw d" "d_fin J q hw d" "d_keeps J q d" for J q hw d
proof unfold_locales
  fix j m m' s k n
  show "d_prep J q hw d j m s k \<Longrightarrow> st_seq s = k" by (simp add: d_prep_def)
  show pm: "d_prep J q hw d j m s k \<Longrightarrow> own_same j m m' \<Longrightarrow> d_prep J q hw d j m' s k"
    by (auto simp: d_prep_def own_same_def load_def swapped_def Let_def split: if_splits)
  show "d_prep J q hw d j m (s\<lparr>src2 := n\<rparr>) k = d_prep J q hw d j m s k" by (simp add: d_prep_def swapped_def)
  show "d_fin J q hw d j m' s k" if f: "d_fin J q hw d j m s k" and o: "own_same j m m'"
    and k: "dest_need_reset s \<Longrightarrow> d_keeps J q d k m m'"
  proof -
    have p: "d_prep J q hw d j m' s k" using f o pm by (simp add: d_fin_def)
    have "load m' (dest_pData s) (m_usz J q d (nat k)) = load m (dest_pData s) (m_usz J q d (nat k))"
    proof (cases "dest_need_reset s")
      case True
      then have "dest_pData s = Ptr BDest (dest_off J q d (nat k))" using p by (simp add: d_prep_def)
      then show ?thesis using k [OF True] by (simp add: load_def d_keeps_def Let_def)
    next
      case False
      then have "dest_pData s = Ptr (BPool (2 * j)) 0" using p by (simp add: d_prep_def swapped_def)
      then show ?thesis using o by (simp add: load_def own_same_def)
    qed
    then show ?thesis using f p by (simp add: d_fin_def)
  qed
  show "m' BDest = m BDest \<Longrightarrow> d_keeps J q d k m m'" by (simp add: d_keeps_def)
  show "comp_idle j (s\<lparr>src1 := n\<rparr>) = comp_idle j s" by (simp add: comp_idle_def home_def clean_def)
qed

abbreviation d_slots :: "Job \<Rightarrow> QzSess \<Rightarrow> hardware \<Rightarrow> bytes \<Rightarrow> 'w Decomp \<Rightarrow> bool" where
  "d_slots J q hw d x \<equiv> slots_inv comp_idle (d_prep J q hw d) (d_fin J q hw d) (d_claimed (d_phase x)) (d_readied (d_phase x))
     (d_driver x) (d_pipe x)"

text \<open>The submitting part: between members, with a header found, or with a buffer. \<open>n\<close> and \<open>e\<close> are the number of
  members and what follows them.\<close>

definition d_at :: "Job \<Rightarrow> QzSess \<Rightarrow> bytes \<Rightarrow> nat \<Rightarrow> 'w Decomp \<Rightarrow> bool" where
  "d_at J q d k x \<longleftrightarrow> d_src_ptr x = Ptr BSrc (src_off J q d k) \<and> d_dest_ptr x = Ptr BDest (dest_off J q d k) \<and>
     d_remaining x = length d - src_off J q d k \<and> d_src_avail x = length d - src_off J q d k \<and>
     d_dest_avail x = j_dest_sz J - dest_off J q d k"

definition d_found :: "Job \<Rightarrow> QzSess \<Rightarrow> bytes \<Rightarrow> nat \<Rightarrow> 'w Decomp \<Rightarrow> bool" where
  "d_found J q d k x \<longleftrightarrow> unat (dest_sz (qz_e (extra (d_hdr x)))) = m_csz J q d k \<and>
     unat (src_sz (qz_e (extra (d_hdr x)))) = m_usz J q d k"

definition d_local :: "Job \<Rightarrow> QzSess \<Rightarrow> bytes \<Rightarrow> nat \<Rightarrow> status \<Rightarrow> 'w Decomp \<Rightarrow> bool" where
  "d_local J q d n e x \<longleftrightarrow> (let P = d_pipe x; k = nat (q_seq P) in
     heartbeat P \<and> q_submitted P = q_seq P \<and> q_processed P = q_seq_in P \<and> 0 \<le> q_seq_in P \<and>
     q_seq_in P \<le> q_seq P \<and> q_seq P \<le> int n \<and> (d_phase x \<noteq> DDone \<longrightarrow> d_sess x = q) \<and>
     (q_last_submitted P \<longleftrightarrow> d_phase x = DDone) \<and>
     (if d_phase x = DDone then q_seq P = int n \<and> q_stat P = e else q_stat P = QZ_OK \<and> \<not> q_stop P) \<and>
     (d_phase x = DTop \<longrightarrow> d_at J q d k x \<and> (q_seq P < int n \<or> e \<noteq> QZ_OK)) \<and>
     (d_phase x = DFound \<longrightarrow> d_at J q d k x \<and> d_found J q d k x \<and> q_seq P < int n) \<and>
     (\<forall>j. d_phase x = DClaimed j \<longrightarrow> d_at J q d k x \<and> d_found J q d k x \<and> q_seq P < int n) \<and>
     (\<forall>j i r. d_phase x = DReady j i r \<longrightarrow> d_at J q d k x \<and> q_seq P < int n \<and>
        i = outputHeaderSz (j_fmt J) + m_csz J q d k + outputFooterSz (j_fmt J) \<and> r = m_usz J q d k) \<and>
     (d_phase x = DPaused \<longrightarrow> q_single P \<and> q_seq P < int n) \<and>
     (d_out_done x \<longrightarrow> q_seq_in P = q_seq P \<and> (q_single P \<and> d_phase x = DPaused \<or> d_phase x = DDone)) \<and>
     (q_last_processed P \<longrightarrow> q_last_submitted P \<and> d_out_done x) \<and>
     (d_out_done x \<and> d_phase x = DDone \<longrightarrow> q_last_processed P))"

text \<open>The data of the first \<open>k\<close> members is in the destination; with no error these are the collected ones.
  After a data error in the source the answers that are still out are dropped.\<close>

definition d_out_inv :: "Job \<Rightarrow> QzSess \<Rightarrow> hardware \<Rightarrow> bytes \<Rightarrow> 'w Decomp \<Rightarrow> nat \<Rightarrow> bool" where
  "d_out_inv J q hw d x k \<longleftrightarrow> (let P = d_pipe x in
     q_out_len P = dest_off J q d k \<and> q_in_len P = src_off J q d k \<and> q_next_dest P = Ptr BDest (dest_off J q d k) \<and>
     take (dest_off J q d k) (pmem P BDest) = d_outs J q hw d k \<and> d_out_avail x = j_dest_sz J - dest_off J q d k \<and>
     (if q_stat P = QZ_DATA_ERROR then int k \<le> q_seq_in P else int k = q_seq_in P))"

definition d_inv :: "Job \<Rightarrow> QzSess \<Rightarrow> hardware \<Rightarrow> bytes \<Rightarrow> nat \<Rightarrow> status \<Rightarrow> 'w Decomp \<Rightarrow> bool" where
  "d_inv J q hw d n e x \<longleftrightarrow> mem_inv J d (d_pipe x) \<and> d_local J q d n e x \<and> d_slots J q hw d x \<and>
     (\<exists>k. d_out_inv J q hw d x k)"

section \<open>Submitting\<close>

lemma d_invD:
  assumes "d_inv J q hw d n e x"
  shows "mem_inv J d (d_pipe x)" "d_local J q d n e x" "d_slots J q hw d x" "\<exists>k. d_out_inv J q hw d x k"
  using assms by (simp_all add: d_inv_def)

text \<open>What does not change the pipe keeps the buffers and the output.\<close>

lemma d_inv_local:
  assumes inv: "d_inv J q hw d n e x" and p: "d_pipe x' = (d_pipe x)\<lparr>q_stop := a, q_last_submitted := b, q_stat := c, q_last_processed := l\<rparr>"
    and u: "d_driver x' = d_driver x" "d_out_avail x' = d_out_avail x"
      "d_claimed (d_phase x') = d_claimed (d_phase x)" "d_readied (d_phase x') = d_readied (d_phase x)"
    and st: "q_stat (d_pipe x) \<noteq> QZ_DATA_ERROR \<or> c = QZ_DATA_ERROR" and l: "d_local J q d n e x'"
  shows "d_inv J q hw d n e x'"
proof -
  obtain k where o: "d_out_inv J q hw d x k" using d_invD(4) [OF inv] by blast
  have "d_out_inv J q hw d x' k" using o st by (simp add: d_out_inv_def p u Let_def split: if_splits)
  moreover have "mem_inv J d (d_pipe x')" using d_invD(1) [OF inv] by (simp add: mem_inv_def p)
  moreover have "d_slots J q hw d x'"
    using d_invD(3) [OF inv] unfolding u by (simp add: slots_inv_def slot_inv_def p)
  ultimately show ?thesis using l by (auto simp: d_inv_def)
qed

lemma pipe_same: "P = P\<lparr>q_stop := q_stop P, q_last_submitted := q_last_submitted P, q_stat := q_stat P, q_last_processed := q_last_processed P\<rparr>"
  by simp

lemma check_inv:
  assumes inv: "d_inv J q hw d n e x" and job: "d_job_ok J q d" and mem: "members J q d n e" and ph: "d_phase x = DTop"
  shows "\<exists>x'. decomp_check J sw x = Some x' \<and> d_inv J q hw d n e x' \<and> d_out_done x' = d_out_done x \<and>
    d_driver x' = d_driver x \<and> (d_phase x' = DFound \<or> d_phase x' = DDone) \<and>
    q_seq (d_pipe x') = q_seq (d_pipe x) \<and> q_seq_in (d_pipe x') = q_seq_in (d_pipe x)"
proof -
  let ?P = "d_pipe x" and ?k = "nat (q_seq (d_pipe x))"
  have l: "d_local J q d n e x" and m: "mem_inv J d ?P" using d_invD [OF inv] by simp_all
  have at: "d_at J q d ?k x" "q_seq ?P < int n \<or> e \<noteq> QZ_OK" "0 \<le> q_seq ?P" "q_seq ?P \<le> int n" "heartbeat ?P" "d_sess x = q"
    "q_stat ?P = QZ_OK" "\<not> q_stop ?P" "\<not> q_last_submitted ?P"
    using l ph by (auto simp: d_local_def Let_def)
  have code: "m_code J q d ?k = (if q_seq ?P < int n then QZ_OK else e)" "m_code J q d ?k \<noteq> QZ_FORCE_SW"
  proof -
    have "m_code J q d ?k = QZ_OK" if "q_seq ?P < int n" using mem that at(3) by (simp add: members_def nat_less_iff)
    moreover have "m_code J q d ?k = e \<and> e \<noteq> QZ_FORCE_SW" if "\<not> q_seq ?P < int n"
    proof -
      have "?k = n" "e \<noteq> QZ_OK" using that at(2,4) by auto
      then show ?thesis using mem by (simp add: members_def)
    qed
    ultimately show "m_code J q d ?k = (if q_seq ?P < int n then QZ_OK else e)" "m_code J q d ?k \<noteq> QZ_FORCE_SW"
      by (cases "q_seq ?P < int n"; simp)+
  qed
  obtain q' g where c: "checkHeader q (drop (src_off J q d ?k) d) (of_nat (length d - src_off J q d ?k))
      (of_nat (j_dest_sz J - dest_off J q d ?k)) (d_hdr x) = Returned (m_code J q d ?k, q', g)"
    "m_code J q d ?k = QZ_OK \<longrightarrow> q' = q \<and> unat (dest_sz (qz_e (extra g))) = m_csz J q d ?k \<and>
       unat (src_sz (qz_e (extra g))) = m_usz J q d ?k"
    using head_found [OF code(2) job, of "d_hdr x"] by blast
  have src: "drop (p_off (d_src_ptr x)) (pmem ?P (p_blk (d_src_ptr x))) = drop (src_off J q d ?k) d"
    using at(1) m by (simp add: d_at_def mem_inv_def)
  show ?thesis
  proof (cases "q_seq ?P < int n")
    case True
    let ?x = "x\<lparr>d_sess := q', d_hdr := g, d_phase := DFound\<rparr>"
    have r: "decomp_check J sw x = Some ?x"
      using c code True at unfolding decomp_check_def Let_def src by (simp add: d_at_def)
    have "d_local J q d n e ?x"
      using l ph c(2) code(1) True at by (auto simp: d_local_def Let_def d_at_def d_found_def)
    then have "d_inv J q hw d n e ?x"
      by (intro d_inv_local [OF inv, where a = "q_stop ?P" and b = "q_last_submitted ?P" and c = "q_stat ?P" and l = "q_last_processed ?P"]) (simp_all add: ph)
    then show ?thesis using r by simp
  next
    case False
    then have e: "q_seq ?P = int n" "e \<noteq> QZ_OK" using at by auto
    let ?x = "decomp_in_error (x\<lparr>d_sess := q', d_hdr := g, d_pipe := ?P\<lparr>q_stat := e\<rparr>\<rparr>)"
    have r: "decomp_check J sw x = Some ?x"
      using c code False at e unfolding decomp_check_def Let_def src by (simp add: d_at_def)
    have nd: "\<not> d_out_done x" using l ph by (auto simp: d_local_def Let_def)
    have "d_local J q d n e ?x"
      using l ph e nd at by (auto simp: d_local_def Let_def decomp_in_error_def)
    then have "d_inv J q hw d n e ?x"
      by (intro d_inv_local [OF inv, where a = True and b = True and c = e and l = "q_last_processed ?P"]) (simp_all add: ph decomp_in_error_def at(7))
    then show ?thesis using r by (simp add: decomp_in_error_def)
  qed
qed

lemma claim_d_inv:
  assumes inv: "d_inv J q hw d n e x" and ph: "d_phase x = DFound"
  shows "d_inv J q hw d n e (decomp_claim J x)"
proof -
  let ?P = "d_pipe x"
  define j where "j = getUnusedBuffer (streams ?P) (d_last_j x)"
  have l: "d_local J q d n e x" and m: "mem_inv J d ?P" and s: "d_slots J q hw d x" using d_invD [OF inv] by simp_all
  consider (paused) "decomp_claim J x = x\<lparr>d_last_j := j, d_phase := DPaused\<rparr>" "q_single ?P"
    | (wait) "decomp_claim J x = x\<lparr>d_last_j := j\<rparr>"
    | (claimed) "j \<noteq> -1" "decomp_claim J x = x\<lparr>d_last_j := j, d_phase := DClaimed (nat j),
        d_pipe := upd (nat j) (\<lambda>s. s\<lparr>src1 := src1 s + 1\<rparr>) ?P\<rparr>"
    unfolding decomp_claim_def Let_def j_def [symmetric] by (simp split: if_splits) argo
  then show ?thesis
  proof cases
    case paused
    show ?thesis unfolding paused(1)
      by (rule d_inv_local [OF inv, where a = "q_stop ?P" and b = "q_last_submitted ?P" and c = "q_stat ?P" and l = "q_last_processed ?P"])
        (use l ph paused(2) in \<open>auto simp: d_local_def Let_def d_at_def d_found_def\<close>)
  next
    case wait
    show ?thesis unfolding wait
      by (rule d_inv_local [OF inv, where a = "q_stop ?P" and b = "q_last_submitted ?P" and c = "q_stat ?P" and l = "q_last_processed ?P"])
        (use l ph in \<open>auto simp: d_local_def Let_def d_at_def d_found_def\<close>)
  next
    case claimed
    have u: "nat j < length (streams ?P)" "unused (streams ?P ! nat j)"
      using getUnusedBuffer_unused [OF j_def [symmetric] claimed(1)] by simp_all
    let ?x = "x\<lparr>d_last_j := j, d_phase := DClaimed (nat j), d_pipe := upd (nat j) (\<lambda>s. s\<lparr>src1 := src1 s + 1\<rparr>) ?P\<rparr>"
    have "d_slots J q hw d ?x" using ds.claim_step [OF _ u] s ph by simp
    moreover have "d_local J q d n e ?x" using l ph by (auto simp: d_local_def Let_def d_at_def d_found_def)
    moreover have "d_out_inv J q hw d ?x k = d_out_inv J q hw d x k" for k by (simp add: d_out_inv_def Let_def)
    moreover have "mem_inv J d (d_pipe ?x)" using m by (simp add: mem_inv_def)
    ultimately show ?thesis using inv unfolding claimed(2) d_inv_def by auto
  qed
qed

text \<open>The footer of a member, read at its place.\<close>

lemma footer_read:
  assumes mem: "members J q d n e" and job: "d_job_ok J q d" and k: "k < n" and m: "m BSrc = d"
    and h: "unat (src_sz (qz_e (extra hdr))) = m_usz J q d k"
    and p: "p = Ptr BSrc (src_off J q d k + outputHeaderSz (j_fmt J) + m_csz J q d k)"
  shows "\<exists>c l. footer_fields (j_fmt J) m p hdr s = Some (s\<lparr>st_checksum := c, orgdatalen := l\<rparr>) \<and>
    (j_fmt J \<noteq> DEFLATE_4B \<and> j_fmt J \<noteq> DEFLATE_RAW \<longrightarrow> (c, l) = footer_of J q d k)"
proof -
  let ?i = "src_off J q d k + outputHeaderSz (j_fmt J) + m_csz J q d k"
  have i: "?i + outputFooterSz (j_fmt J) \<le> length d"
    using member_facts(1) [OF mem job k] by (simp add: add.assoc)
  have u: "of_nat (m_usz J q d k) = src_sz (qz_e (extra hdr))" unfolding h [symmetric] by simp
  have td: "take 4 (take 8 f) = take 4 f" "drop 4 (take 8 f) = take 4 (drop 4 f)" for f :: bytes
    by (simp_all add: drop_take)
  show ?thesis
  proof (cases "j_fmt J")
    case DEFLATE_GZIP
    then have "load m p 8 = Some (take 8 (drop ?i d))" using i m p by (simp add: load_Some fmt_size_defs)
    then show ?thesis using DEFLATE_GZIP by (simp add: footer_fields_def footer_of_def td Let_def)
  next
    case DEFLATE_GZIP_EXT
    then have "load m p 8 = Some (take 8 (drop ?i d))" using i m p by (simp add: load_Some fmt_size_defs)
    then show ?thesis using DEFLATE_GZIP_EXT by (simp add: footer_fields_def footer_of_def td Let_def)
  next
    case LZ4_FH
    then have "load m (padd p 4) 4 = Some (take 4 (drop (?i + 4) d))" using i m p by (simp add: load_Some fmt_size_defs)
    then show ?thesis
      using LZ4_FH by (simp add: footer_fields_def footer_of_def Let_def add.commute u)
  next
    case DEFLATE_4B
    then show ?thesis by (intro exI [of _ "st_checksum s"] exI [of _ "orgdatalen s"]) (simp add: footer_fields_def)
  next
    case DEFLATE_RAW
    then show ?thesis by (intro exI [of _ "st_checksum s"] exI [of _ "orgdatalen s"]) (simp add: footer_fields_def)
  qed (use job in \<open>simp_all add: d_job_ok_def\<close>)
qed

lemma setup_d_ok:
  assumes inv: "d_inv J q hw d n e x" and job: "d_job_ok J q d" and mem: "members J q d n e" and ph: "d_phase x = DClaimed j"
  defines "k \<equiv> nat (q_seq (d_pipe x))"
  obtains s' m' where
    "decompBufferSetup J j (d_src_ptr x) (d_dest_ptr x) (d_src_avail x) (d_hdr x) (d_pipe x) =
       Some (outputHeaderSz (j_fmt J) + m_csz J q d k + outputFooterSz (j_fmt J), m_usz J q d k,
             upd j (\<lambda>_. s') ((d_pipe x)\<lparr>pmem := m'\<rparr>))"
    "held s'" "d_prep J q hw d j m' s' (q_seq (d_pipe x))"
    "\<And>b. b \<noteq> BPool (2 * j + 1) \<Longrightarrow> m' b = pmem (d_pipe x) b"
    "length (m' (BPool (2 * j + 1))) = length (pmem (d_pipe x) (BPool (2 * j + 1)))"
proof -
  let ?P = "d_pipe x"
  let ?s = "streams ?P ! j" and ?fmt = "j_fmt J" and ?c = "m_csz J q d k" and ?u = "m_usz J q d k"
  have s: "d_slots J q hw d x" and m: "mem_inv J d ?P" and l: "d_local J q d n e x" using d_invD [OF inv] by simp_all
  have j: "j < length (streams ?P)" "held ?s" using slots_invD(4) [OF s, of j] ph by auto
  have id: "home j ?s" "clean ?s" using slots_invD(1) [OF s j(1)] j(2) ph by (auto simp: slot_inv_def comp_idle_def)
  have loc: "d_at J q d k x" "d_found J q d k x" "q_seq ?P < int n" "0 \<le> q_seq ?P"
    using l ph by (auto simp: d_local_def Let_def k_def)
  have kn: "k < n" using loc(3,4) by (simp add: k_def nat_less_iff)
  note mf = member_facts [OF mem job kn]
  define p where "p = Ptr BSrc (src_off J q d k + outputHeaderSz ?fmt)"
  have ptr: "padd (d_src_ptr x) (outputHeaderSz ?fmt) = p" "d_dest_ptr x = Ptr BDest (dest_off J q d k)"
    "d_src_avail x = length d - src_off J q d k" using loc(1) by (simp_all add: d_at_def p_def padd_def)
  have hd: "unat (dest_sz (qz_e (extra (d_hdr x)))) = ?c" "unat (src_sz (qz_e (extra (d_hdr x)))) = ?u"
    using loc(2) by (simp_all add: d_found_def)
  have src: "pmem ?P BSrc = d" using m by (simp add: mem_inv_def)
  have pool: "block_dest_sz (j_hw J) \<le> length (pmem ?P (BPool (2 * j + 1)))" using m j(1) by (simp add: mem_inv_def)
  define s1 where "s1 = (swapDataBuffer (?s\<lparr>st_seq := q_seq ?P, st_res := (st_res ?s)\<lparr>checksum := 0\<rparr>\<rparr>))
      \<lparr>src_dataLen := ?c, dest_dataLen := ?u\<rparr>"
  have f1: "src_pData s1 = Ptr (BPool (2 * j + 1)) 0" "dest_pData s1 = Ptr (BPool (2 * j)) 0"
    "orig_src s1 = Ptr (BPool (2 * j + 1)) 0" "orig_dest s1 = Ptr (BPool (2 * j)) 0"
    using id by (simp_all add: s1_def swapDataBuffer_def home_def clean_def)
  have "padd p ?c = Ptr BSrc (src_off J q d k + outputHeaderSz ?fmt + ?c)" by (simp add: p_def padd_def)
  from footer_read [where m = "pmem ?P" and hdr = "d_hdr x" and s = s1, OF mem job kn src hd(2) this] obtain cs ol where
    ff: "footer_fields ?fmt (pmem ?P) (padd p ?c) (d_hdr x) s1 = Some (s1\<lparr>st_checksum := cs, orgdatalen := ol\<rparr>)"
    "?fmt \<noteq> DEFLATE_4B \<and> ?fmt \<noteq> DEFLATE_RAW \<longrightarrow> (cs, ol) = footer_of J q d k" by blast
  define s2 where "s2 = s1\<lparr>st_checksum := cs, orgdatalen := ol\<rparr>"
  have ld: "load (pmem ?P) p ?c = Some (m_data J q d k)"
    using mf(1) src by (simp add: load_Some p_def m_data_def)
  have len: "length (m_data J q d k) = ?c" using mf(1) by (simp add: m_data_def)
  obtain s3 m' where s3: "(if \<not> pinned J (d_src_ptr x) \<and> need_cont_mem J then do {
                   m \<leftarrow> QZ_MEMCPY (pmem ?P) (src_pData s2) p (d_src_avail x) ?c;
                   Some (s2\<lparr>src_need_reset := False\<rparr>, m) }
                 else Some (s2\<lparr>src_pData := p, src_need_reset := True\<rparr>, pmem ?P)) = Some (s3, m')"
    and s3': "load m' (src_pData s3) ?c = Some (m_data J q d k)"
      "if src_need_reset s3 then p_blk (src_pData s3) = BSrc else src_pData s3 = orig_src s1"
      "s3 = s2\<lparr>src_pData := src_pData s3, src_need_reset := src_need_reset s3\<rparr>"
    and m': "\<And>b. b \<noteq> BPool (2 * j + 1) \<Longrightarrow> m' b = pmem ?P b"
      "length (m' (BPool (2 * j + 1))) = length (pmem ?P (BPool (2 * j + 1)))"
  proof (cases "\<not> pinned J (d_src_ptr x) \<and> need_cont_mem J")
    case True
    let ?b = "pmem ?P (BPool (2 * j + 1))"
    let ?m = "(pmem ?P)(BPool (2 * j + 1) := put_bytes ?b 0 (m_data J q d k))"
    have sp: "src_pData s2 = Ptr (BPool (2 * j + 1)) 0" by (simp add: s2_def f1)
    have room: "length (m_data J q d k) \<le> length ?b" using len mf(4) pool by simp
    have "src_off J q d k + ?c \<le> length d" using mf(1) by simp
    then have mn: "min (d_src_avail x) ?c = ?c" unfolding ptr(3) by simp
    have "QZ_MEMCPY (pmem ?P) (src_pData s2) p (d_src_avail x) ?c = Some ?m"
      using ld room unfolding QZ_MEMCPY_def mn by (simp add: sp store_bytes_def)
    moreover have "load ?m (src_pData s2) ?c = Some (m_data J q d k)"
      using room len by (simp add: load_Some sp put_bytes_def)
    ultimately show thesis
      using True room by (intro that [of "s2\<lparr>src_need_reset := False\<rparr>" ?m]) (auto simp: sp f1)
  next
    case False
    then show thesis
      using ld by (intro that [of "s2\<lparr>src_pData := p, src_need_reset := True\<rparr>" "pmem ?P"]) (auto simp: p_def)
  qed
  define s4 where "s4 = (if \<not> pinned J (d_dest_ptr x) \<and> need_cont_mem J then s3\<lparr>dest_need_reset := False\<rparr>
      else s3\<lparr>dest_pData := d_dest_ptr x, dest_need_reset := True\<rparr>)"
  have "decompBufferSetup J j (d_src_ptr x) (d_dest_ptr x) (d_src_avail x) (d_hdr x) ?P =
       Some (outputHeaderSz ?fmt + ?c + outputFooterSz ?fmt, ?u, upd j (\<lambda>_. s4) (?P\<lparr>pmem := m'\<rparr>))"
    unfolding decompBufferSetup_def Let_def hd ptr(1) s1_def [symmetric] ff(1) using s3
    by (simp add: s2_def [symmetric] s4_def)
  moreover have "held s4"
    using j(2) by (simp add: s4_def) (subst s3'(3), simp add: s2_def s1_def stage_defs swapDataBuffer_def)+
  moreover have "d_prep J q hw d j m' s4 (q_seq ?P)"
  proof -
    have "st_seq s3 = q_seq ?P" "orig_src s3 = Ptr (BPool (2 * j + 1)) 0" "orig_dest s3 = Ptr (BPool (2 * j)) 0"
      "src_dataLen s3 = ?c" "dest_dataLen s3 = ?u" "dest_pData s3 = Ptr (BPool (2 * j)) 0"
      "st_checksum s3 = cs" "orgdatalen s3 = ol"
      by (subst s3'(3), simp add: s2_def f1; simp add: s1_def swapDataBuffer_def)+
    then show ?thesis
      using s3'(1,2) loc(4) ff(2) ptr(2) f1(3) by (auto simp: d_prep_def s4_def swapped_def k_def [symmetric])
  qed
  ultimately show thesis using that m' by blast
qed

end
