(* ===== verification/DecompSteps.thy ===== *)
theory DecompSteps
  imports DecompInv
begin

text \<open>
  The steps of the decompression pipeline on a healthy instance: setting up, submitting, the driver's
  answer and the collection of one buffer keep the invariant.
\<close>

section \<open>Setting up and submitting\<close>

lemma setup_d_inv:
  assumes inv: "d_inv J q hw d n e x" and job: "d_job_ok J q d" and mem: "members J q d n e" and ph: "d_phase x = DClaimed j"
  shows "\<exists>x'. decomp_setup J j x = Some x' \<and> d_inv J q hw d n e x' \<and> (\<exists>a b. d_phase x' = DReady j a b) \<and>
    d_out_done x' = d_out_done x \<and> d_driver x' = d_driver x \<and> q_seq (d_pipe x') = q_seq (d_pipe x) \<and>
    q_seq_in (d_pipe x') = q_seq_in (d_pipe x)"
proof -
  let ?k = "nat (q_seq (d_pipe x))"
  let ?N = "outputHeaderSz (j_fmt J) + m_csz J q d ?k + outputFooterSz (j_fmt J)"
  obtain s' m' where r: "decompBufferSetup J j (d_src_ptr x) (d_dest_ptr x) (d_src_avail x) (d_hdr x) (d_pipe x) =
       Some (?N, m_usz J q d ?k, upd j (\<lambda>_. s') ((d_pipe x)\<lparr>pmem := m'\<rparr>))"
    and s': "held s'" "d_prep J q hw d j m' s' (q_seq (d_pipe x))"
    and m': "\<And>b. b \<noteq> BPool (2 * j + 1) \<Longrightarrow> m' b = pmem (d_pipe x) b"
      "length (m' (BPool (2 * j + 1))) = length (pmem (d_pipe x) (BPool (2 * j + 1)))"
    by (rule setup_d_ok [OF inv job mem ph]) (rule that)
  let ?P = "upd j (\<lambda>_. s') ((d_pipe x)\<lparr>pmem := m'\<rparr>)"
  let ?x = "x\<lparr>d_pipe := ?P, d_phase := DReady j ?N (m_usz J q d ?k)\<rparr>"
  have "slots_inv comp_idle (d_prep J q hw d) (d_fin J q hw d) (Some j) None (d_driver x) (d_pipe x)"
    using d_invD(3) [OF inv] ph by simp
  then have "d_slots J q hw d ?x"
  proof -
    have "own_same i (pmem (d_pipe x)) m'" if "i \<noteq> j" for i
    proof -
      have "2 * i \<noteq> 2 * j + 1" by presburger
      then show ?thesis using that by (simp add: own_same_def m'(1))
    qed
    then show ?thesis
      using ds.setup_step [where P = "d_pipe x" and P' = ?P and s' = s' and j = j] d_invD(3) [OF inv] ph s' m'(1) by (simp add: upd_streams)
  qed
  moreover have "d_local J q d n e ?x"
    using d_invD(2) [OF inv] ph by (auto simp: d_local_def Let_def d_at_def)
  moreover have "d_out_inv J q hw d ?x k = d_out_inv J q hw d x k" for k by (simp add: d_out_inv_def Let_def m'(1))
  moreover have "mem_inv J d ?P"
  proof -
    have "length (m' b) = length (pmem (d_pipe x) b)" for b using m' by (cases "b = BPool (2 * j + 1)") simp_all
    then show ?thesis using d_invD(1) [OF inv] m'(1) by (simp add: mem_inv_def)
  qed
  ultimately have "d_inv J q hw d n e ?x" using d_invD(4) [OF inv] by (auto simp: d_inv_def)
  moreover have "decomp_setup J j x = Some ?x" using r by (simp add: decomp_setup_def)
  ultimately show ?thesis by simp
qed

lemma sub32_eq: "b \<le> a \<Longrightarrow> a < 2 ^ 32 \<Longrightarrow> sub32 a b = a - b"
proof -
  assume a: "b \<le> a" "a < 2 ^ 32"
  then have "unat (of_nat a :: u32) = a" "unat (of_nat b :: u32) = b" by (simp_all add: unat_of_nat)
  with a show ?thesis by (simp add: sub32_def unat_sub_le word_le_nat_alt)
qed

lemma sub32_rest: "i + n \<le> l \<Longrightarrow> l < 2 ^ 32 \<Longrightarrow> sub32 (l - i) n = l - (i + n)"
proof -
  assume a: "i + n \<le> l" "l < 2 ^ 32"
  have "l - i < 2 ^ 32" by (rule le_less_trans [OF diff_le_self a(2)])
  moreover have "n \<le> l - i" using a(1) by simp
  ultimately show ?thesis using sub32_eq by simp
qed

lemma submit_d_inv:
  assumes inv: "d_inv J q hw d n e x" and job: "d_job_ok J q d" and mem: "members J q d n e" and ph: "d_phase x = DReady j N M"
  defines "x' \<equiv> decomp_advance J N M (x\<lparr>d_pipe := upd j (\<lambda>s. s\<lparr>src2 := src2 s + 1\<rparr>) (d_pipe x), d_driver := d_driver x @ [j]\<rparr>)"
  shows "d_inv J q hw d n e x'" "q_seq (d_pipe x') = q_seq (d_pipe x) + 1" "q_seq (d_pipe x) < int n"
    "q_seq_in (d_pipe x') = q_seq_in (d_pipe x)" "d_driver x' = d_driver x @ [j]" "d_out_done x' = d_out_done x"
proof -
  let ?P = "d_pipe x" and ?k = "nat (q_seq (d_pipe x))"
  let ?s = "streams ?P ! j"
  let ?s' = "?s\<lparr>src2 := src2 ?s + 1\<rparr>"
  have s: "d_slots J q hw d x" and m: "mem_inv J d ?P" and l: "d_local J q d n e x" using d_invD [OF inv] by simp_all
  have loc: "d_at J q d ?k x" "q_seq ?P < int n" "0 \<le> q_seq ?P" "q_seq_in ?P \<le> q_seq ?P" "\<not> d_out_done x" "\<not> q_stop ?P"
    "\<not> q_last_submitted ?P" "q_stat ?P = QZ_OK" "d_sess x = q" "0 \<le> q_seq_in ?P"
    "heartbeat ?P" "q_submitted ?P = q_seq ?P" "q_processed ?P = q_seq_in ?P" "\<not> q_last_processed ?P"
    "N = outputHeaderSz (j_fmt J) + m_csz J q d ?k + outputFooterSz (j_fmt J)" "M = m_usz J q d ?k"
    using l ph by (auto simp: d_local_def Let_def)
  have kn: "?k < n" and nk: "nat (q_seq ?P + 1) = Suc ?k" using loc(2,3) by (simp_all add: nat_less_iff)
  have jb: "length d < 2 ^ 32" "j_dest_sz J < 2 ^ 32" "i_stop_decompression_stream_end (j_params J) \<noteq> 1"
    using job by (simp_all add: d_job_ok_def)
  note mf = member_facts [OF mem job kn]
  have at: "d_src_ptr x = Ptr BSrc (src_off J q d ?k)" "d_dest_ptr x = Ptr BDest (dest_off J q d ?k)"
    "d_remaining x = length d - src_off J q d ?k" "d_src_avail x = length d - src_off J q d ?k"
    "d_dest_avail x = j_dest_sz J - dest_off J q d ?k" using loc(1) by (simp_all add: d_at_def)
  have sn: "src_off J q d ?k + N = src_off J q d (Suc ?k)" and dn: "dest_off J q d ?k + M = dest_off J q d (Suc ?k)"
    using loc(15,16) by simp_all
  have r: "sub32 (length d - src_off J q d ?k) N = length d - src_off J q d (Suc ?k)"
    using sub32_rest [of "src_off J q d ?k" N "length d"] mf(1) jb(1) unfolding sn by blast
  have a: "sub32 (j_dest_sz J - dest_off J q d ?k) M = j_dest_sz J - dest_off J q d (Suc ?k)"
    using sub32_rest [of "dest_off J q d ?k" M "j_dest_sz J"] mf(2) jb(2) unfolding dn by blast
  define R where "R = length d - src_off J q d (Suc ?k)"
  have f: "streams (d_pipe x') = (streams ?P)[j := ?s']" "pmem (d_pipe x') = pmem ?P" "q_seq (d_pipe x') = q_seq ?P + 1"
    "q_seq_in (d_pipe x') = q_seq_in ?P" "d_driver x' = d_driver x @ [j]" "d_phase x' = (if R = 0 then DDone else DTop)"
    "d_out_avail x' = d_out_avail x" "q_stat (d_pipe x') = q_stat ?P" "q_out_len (d_pipe x') = q_out_len ?P"
    "q_next_dest (d_pipe x') = q_next_dest ?P" "q_in_len (d_pipe x') = q_in_len ?P" "d_out_done x' = d_out_done x"
    "d_sess x' = d_sess x" "heartbeat (d_pipe x') = heartbeat ?P" "q_submitted (d_pipe x') = q_submitted ?P + 1"
    "q_processed (d_pipe x') = q_processed ?P" "q_stop (d_pipe x') = q_stop ?P" "q_single (d_pipe x') = q_single ?P"
    "q_last_submitted (d_pipe x') = (R = 0)" "q_last_processed (d_pipe x') = q_last_processed ?P"
    "d_remaining x' = R" "d_src_avail x' = R" "d_dest_avail x' = j_dest_sz J - dest_off J q d (Suc ?k)"
    "d_src_ptr x' = Ptr BSrc (src_off J q d (Suc ?k))" "d_dest_ptr x' = Ptr BDest (dest_off J q d (Suc ?k))"
    using loc(6,7) jb(3) by (simp_all add: x'_def decomp_advance_def upd_def Let_def at r a R_def [symmetric] padd_def sn dn
        del: off_simps)
  have "d_slots J q hw d x'"
  proof -
    have "slots_inv comp_idle (d_prep J q hw d) (d_fin J q hw d) None (Some j) (d_driver x) ?P" using s ph by simp
    from ds.submit_step [OF this f(1,3,4,2)] show ?thesis using f(5,6) loc(4) by auto
  qed
  moreover have "d_local J q d n e x'"
  proof (cases "R = 0")
    case True
    then have z: "src_off J q d (Suc ?k) = length d" using mf(1) by (simp add: R_def del: off_simps)
    have "Suc ?k = n" using mem kn z unfolding members_def by (metis Suc_lessI less_irrefl)
    moreover have "e = QZ_OK" using mem z calculation unfolding members_def by (metis less_irrefl)
    ultimately show ?thesis using True loc nk unfolding d_local_def Let_def f by auto
  next
    case False
    have "Suc ?k < n \<or> e \<noteq> QZ_OK"
    proof (rule ccontr)
      assume c: "\<not> (Suc ?k < n \<or> e \<noteq> QZ_OK)"
      then have "Suc ?k = n" using kn by simp
      then show False using c mem False by (simp add: members_def R_def del: off_simps)
    qed
    moreover have "d_at J q d (Suc ?k) x'" unfolding d_at_def f R_def by simp
    ultimately show ?thesis using False loc kn nk unfolding d_local_def Let_def f by auto
  qed
  moreover have "d_out_inv J q hw d x' k = d_out_inv J q hw d x k" for k by (simp add: d_out_inv_def Let_def f)
  moreover have "mem_inv J d (d_pipe x')" using m by (simp add: mem_inv_def f)
  ultimately show "d_inv J q hw d n e x'" using d_invD(4) [OF inv] unfolding d_inv_def by auto
qed (simp_all add: x'_def decomp_advance_def upd_def Let_def, use d_invD(2) [OF inv] ph in \<open>simp add: d_local_def Let_def\<close>)

section \<open>The driver's answers\<close>

lemma put_bytes_outside:
  assumes "i + length xs \<le> length b" and "o' + u \<le> i \<or> i + length xs \<le> o'"
  shows "take u (drop o' (put_bytes b i xs)) = take u (drop o' b)"
  using assms(2)
proof
  assume o: "o' + u \<le> i"
  have "take u (drop o' (put_bytes b i xs)) = drop o' (take (o' + u) (put_bytes b i xs))" by (simp add: take_drop add.commute)
  also have "take (o' + u) (put_bytes b i xs) = take (o' + u) b" using o assms(1) by (simp add: put_bytes_def min_absorb1)
  finally show ?thesis by (simp add: take_drop add.commute)
next
  assume o: "i + length xs \<le> o'"
  then show ?thesis using assms(1) by (simp add: drop_put_bytes)
qed

lemma respond_d_ok:
  assumes inv: "d_inv J q hw d n e x" and job: "d_job_ok J q d" and mem: "members J q d n e"
    and law: "d_healthy J q hw d n" and j: "j \<in> set (d_driver x)"
  defines "s \<equiv> streams (d_pipe x) ! j"
  defines "k \<equiv> nat (st_seq s)"
  defines "b \<equiv> p_blk (dest_pData s)"
  obtains m' where
    "decomp_respond hw j (d_pipe x) =
       Some (upd j (\<lambda>s. dcCallback CPA_STATUS_SUCCESS (s\<lparr>st_res := d_res J q hw d k\<rparr>)) ((d_pipe x)\<lparr>pmem := m'\<rparr>))"
    "m' = (pmem (d_pipe x))(b := put_bytes (pmem (d_pipe x) b) (p_off (dest_pData s)) (d_out J q hw d k))"
    "p_off (dest_pData s) + length (d_out J q hw d k) \<le> length (pmem (d_pipe x) b)"
    "k < n" "length (d_out J q hw d k) = m_usz J q d k"
    "d_fin J q hw d j m' (dcCallback CPA_STATUS_SUCCESS (s\<lparr>st_res := d_res J q hw d k\<rparr>)) (st_seq s)"
proof -
  let ?P = "d_pipe x"
  have sl: "d_slots J q hw d x" and m: "mem_inv J d ?P" and l: "d_local J q d n e x" using d_invD [OF inv] by simp_all
  note sd = ds.sent_of_driver [OF sl j, folded s_def]
  have p: "d_prep J q hw d j (pmem ?P) s (st_seq s)" and js: "j < length (streams ?P)" "sent s" using sd by simp_all
  have pos: "0 \<le> st_seq s" using p by (simp add: d_prep_def)
  have k: "k < n" using sd(5) l pos by (auto simp: d_local_def Let_def k_def nat_less_iff)
  note mf = member_facts [OF mem job k]
  let ?o = "d_out J q hw d k"
  have lo: "length ?o = m_usz J q d k" using law k by (simp add: d_healthy_def)
  have a: "hw (m_data J q d k) True (m_usz J q d k) = (CPA_STATUS_SUCCESS, d_res J q hw d k, ?o)"
    using law k by (cases "d_answer J q hw d k") (auto simp: d_healthy_def d_res_def d_out_def d_answer_def)
  have pd: "load (pmem ?P) (src_pData s) (src_dataLen s) = Some (m_data J q d k)" "dest_dataLen s = m_usz J q d k"
    "if src_need_reset s then p_blk (src_pData s) = BSrc else src_pData s = orig_src s" "swapped j s"
    "if dest_need_reset s then dest_pData s = Ptr BDest (dest_off J q d k) else dest_pData s = orig_dest s"
    using p by (simp_all add: d_prep_def k_def)
  have fit: "p_off (dest_pData s) + length ?o \<le> length (pmem ?P b)"
  proof (cases "dest_need_reset s")
    case True
    then have "dest_pData s = Ptr BDest (dest_off J q d k)" using pd(5) by simp
    then show ?thesis using m mf(2) lo by (simp add: b_def mem_inv_def)
  next
    case False
    then have "dest_pData s = Ptr (BPool (2 * j)) 0" using pd(4,5) by (simp add: swapped_def)
    moreover have "j_hw J \<le> length (pmem ?P (BPool (2 * j)))" using m js(1) by (simp add: mem_inv_def)
    ultimately show ?thesis using mf(3) lo by (simp add: b_def)
  qed
  define m' where "m' = (pmem ?P)(b := put_bytes (pmem ?P b) (p_off (dest_pData s)) ?o)"
  have st: "store_bytes (pmem ?P) (dest_pData s) ?o = Some m'" using fit by (simp add: store_bytes_Some m'_def b_def)
  let ?s' = "dcCallback CPA_STATUS_SUCCESS (s\<lparr>st_res := d_res J q hw d k\<rparr>)"
  have r: "decomp_respond hw j ?P = Some (upd j (\<lambda>s. dcCallback CPA_STATUS_SUCCESS (s\<lparr>st_res := d_res J q hw d k\<rparr>)) (?P\<lparr>pmem := m'\<rparr>))"
    using pd(1,2) a st unfolding decomp_respond_def Let_def s_def [symmetric] by simp
  have "p_blk (src_pData s) \<noteq> b"
    using pd(3-5) by (auto simp: b_def swapped_def split: if_splits)
  then have "load m' (src_pData s) (src_dataLen s) = load (pmem ?P) (src_pData s) (src_dataLen s)"
    by (simp add: load_def m'_def)
  then have "d_prep J q hw d j m' s (st_seq s)" using p by (simp add: d_prep_def)
  moreover have "load m' (dest_pData s) (m_usz J q d k) = Some ?o"
    using fit put_bytes_same [OF fit] lo by (simp add: load_Some m'_def b_def)
  ultimately have "d_fin J q hw d j m' ?s' (st_seq s)"
    using js(2) lo by (simp add: d_fin_def d_prep_def dcCallback_def sent_def k_def [symmetric] swapped_def)
  then show thesis by (rule that [OF r m'_def fit k lo])
qed

lemma respond_d_inv:
  assumes inv: "d_inv J q hw d n e x" and job: "d_job_ok J q d" and mem: "members J q d n e"
    and law: "d_healthy J q hw d n" and j: "j \<in> set (d_driver x)"
  shows "\<exists>P. decomp_respond hw j (d_pipe x) = Some P \<and> d_inv J q hw d n e (x\<lparr>d_pipe := P, d_driver := remove1 j (d_driver x)\<rparr>) \<and>
    q_seq P = q_seq (d_pipe x) \<and> q_seq_in P = q_seq_in (d_pipe x)"
proof -
  let ?P = "d_pipe x"
  let ?s = "streams ?P ! j"
  let ?k = "nat (st_seq ?s)" and ?b = "p_blk (dest_pData ?s)"
  let ?s' = "dcCallback CPA_STATUS_SUCCESS (?s\<lparr>st_res := d_res J q hw d ?k\<rparr>)"
  obtain m' where r: "decomp_respond hw j ?P =
       Some (upd j (\<lambda>s. dcCallback CPA_STATUS_SUCCESS (s\<lparr>st_res := d_res J q hw d ?k\<rparr>)) (?P\<lparr>pmem := m'\<rparr>))"
    and m': "m' = (pmem ?P)(?b := put_bytes (pmem ?P ?b) (p_off (dest_pData ?s)) (d_out J q hw d ?k))"
    and fit: "p_off (dest_pData ?s) + length (d_out J q hw d ?k) \<le> length (pmem ?P ?b)"
    and kn: "?k < n" and lo: "length (d_out J q hw d ?k) = m_usz J q d ?k"
    and fin: "d_fin J q hw d j m' ?s' (st_seq ?s)"
    by (rule respond_d_ok [OF inv job mem law j]) (rule that)
  let ?P' = "upd j (\<lambda>s. dcCallback CPA_STATUS_SUCCESS (s\<lparr>st_res := d_res J q hw d ?k\<rparr>)) (?P\<lparr>pmem := m'\<rparr>)"
  let ?x = "x\<lparr>d_pipe := ?P', d_driver := remove1 j (d_driver x)\<rparr>"
  have sl: "d_slots J q hw d x" and m: "mem_inv J d ?P" and l: "d_local J q d n e x" using d_invD [OF inv] by simp_all
  note sd = ds.sent_of_driver [OF sl j]
  have s': "answered ?s'" "st_seq ?s' = st_seq ?s" using sd(2) by (simp_all add: dcCallback_def stage_defs)
  have pd: "?b = (if dest_need_reset ?s then BDest else BPool (2 * j))" "0 \<le> st_seq ?s"
    "dest_need_reset ?s \<Longrightarrow> p_off (dest_pData ?s) = dest_off J q d ?k"
    using sd(3) by (auto simp: d_prep_def swapped_def split: if_splits)
  have len: "length (m' b) = length (pmem ?P b)" for b using fit by (simp add: m')
  have keep: "take u (drop i (m' BDest)) = take u (drop i (pmem ?P BDest))"
    if "i + u \<le> dest_off J q d ?k \<or> dest_off J q d (Suc ?k) \<le> i" for i u
  proof (cases "dest_need_reset ?s")
    case True
    then have "?b = BDest" using pd(1) by simp
    then show ?thesis using that fit lo pd(3) [OF True] unfolding m' by (simp add: put_bytes_outside)
  next
    case False
    then show ?thesis using pd(1) by (simp add: m')
  qed
  have "d_slots J q hw d ?x"
  proof -
    have "slots_inv comp_idle (d_prep J q hw d) (d_fin J q hw d) (d_claimed (d_phase x)) (d_readied (d_phase x))
        (remove1 j (d_driver x)) ?P'"
    proof (rule ds.respond_step [OF sl j])
      show "streams ?P' = (streams ?P)[j := ?s']" by (simp add: upd_def)
      show "d_fin J q hw d j (pmem ?P') ?s' (st_seq ?s')" using fin s'(2) by simp
      show "own_same i (pmem ?P) (pmem ?P')" if "i \<noteq> j" for i
        using that pd(1) by (auto simp: own_same_def m')
      show "d_keeps J q d (st_seq (streams ?P ! i)) (pmem ?P) (pmem ?P')"
        if i: "i < length (streams ?P)" "st_seq (streams ?P ! i) \<noteq> st_seq ?s'" "answered (streams ?P ! i)" for i
      proof -
        let ?i = "nat (st_seq (streams ?P ! i))"
        have "0 \<le> st_seq (streams ?P ! i)" using ds.answered_of(1) [OF sl i(1,3)] by (simp add: d_fin_def d_prep_def)
        then have "?i \<noteq> ?k" using i(2) s'(2) pd(2) by simp
        then have "Suc ?i \<le> ?k \<or> Suc ?k \<le> ?i" by linarith
        then have "dest_off J q d (Suc ?i) \<le> dest_off J q d ?k \<or> dest_off J q d (Suc ?k) \<le> dest_off J q d ?i"
          using dest_off_mono by blast
        then show ?thesis using keep [of "dest_off J q d ?i" "m_usz J q d ?i"] len by (simp add: d_keeps_def)
      qed
    qed (use s' in simp_all)
    then show ?thesis by simp
  qed
  moreover have "d_local J q d n e ?x" using l by (auto simp: d_local_def Let_def d_at_def d_found_def)
  moreover have "d_out_inv J q hw d ?x i" if o: "d_out_inv J q hw d x i" for i
  proof -
    have "int i \<le> q_seq_in ?P" using o by (auto simp: d_out_inv_def Let_def split: if_splits)
    then have "i \<le> ?k" using sd(4) by linarith
    then have "take (dest_off J q d i) (m' BDest) = take (dest_off J q d i) (pmem ?P BDest)"
      using keep [of 0 "dest_off J q d i"] dest_off_mono [of i ?k J q d] by simp
    then show ?thesis using o by (simp add: d_out_inv_def Let_def)
  qed
  moreover have "mem_inv J d ?P'"
  proof -
    have "m' BSrc = pmem ?P BSrc" using pd(1) by (simp add: m')
    then show ?thesis using m len by (simp add: mem_inv_def)
  qed
  ultimately have "d_inv J q hw d n e ?x" using d_invD(4) [OF inv] by (auto simp: d_inv_def)
  then show ?thesis using r by simp
qed

section \<open>Collecting\<close>

definition d_restored :: "CpaStream \<Rightarrow> CpaStream" where
  "d_restored s = (swapDataBuffer (RestoreSrcCpastreamBuffer (RestoreDestCpastreamBuffer s)))\<lparr>sink2 := sink2 s + 1\<rparr>"

lemma d_processed_releases: "j < length (streams P) \<Longrightarrow> st_seq (streams P ! j) = q_seq_in P \<Longrightarrow>
    streams P' = streams (upd j RestoreDestCpastreamBuffer P) \<Longrightarrow> q_seq_in P' = q_seq_in P \<Longrightarrow>
    decompOutProcessedRespond j P' = Some (P'\<lparr>streams := (streams P)[j := d_restored (streams P ! j)],
      q_processed := q_processed P' + 1, q_seq_in := q_seq_in P + 1\<rparr>)"
  by (simp add: decompOutProcessedRespond_def decompOutSrcBufferCleanUp_def upd_def d_restored_def RestoreSrcCpastreamBuffer_def
      RestoreDestCpastreamBuffer_def swapDataBuffer_def Let_def)

lemma d_skip_releases: "j < length (streams P) \<Longrightarrow> st_seq (streams P ! j) = q_seq_in P \<Longrightarrow>
    decompOutSkipErrorRespond j P = Some (P\<lparr>streams := (streams P)[j := d_restored (streams P ! j)],
      q_processed := q_processed P + 1, q_seq_in := q_seq_in P + 1\<rparr>)"
  using d_processed_releases [of j P "upd j RestoreDestCpastreamBuffer P"]
  by (simp add: decompOutSkipErrorRespond_def decompOutErrorDestBufferCleanUp_def upd_def)

lemma d_restored_idle:
  assumes "answered s" "d_prep J q hw d j m s k"
  shows "unused (d_restored s)" "comp_idle j (d_restored s)"
  using assms by (auto simp: d_restored_def RestoreSrcCpastreamBuffer_def RestoreDestCpastreamBuffer_def stage_defs
      swapDataBuffer_def comp_idle_def clean_def home_def swapped_def d_prep_def split: if_splits)

text \<open>The data of an answered buffer reaches the destination, by copy or because it is there.\<close>

lemma d_valid_clean_up:
  assumes j: "j < length (streams P)" and nd: "q_next_dest P = Ptr BDest i" "length (pmem P BDest) = j_dest_sz J"
    and fit: "i + length out \<le> j_dest_sz J" and pr: "unat (produced r) = length out"
    and ld: "load (pmem P) (dest_pData (streams P ! j)) (length out) = Some out"
    and d: "dest_need_reset (streams P ! j) \<Longrightarrow> dest_pData (streams P ! j) = Ptr BDest i"
  shows "decompOutValidDestBufferCleanUp j r (j_dest_sz J - i) P =
    Some (upd j RestoreDestCpastreamBuffer (P\<lparr>pmem := (pmem P)(BDest := put_bytes (pmem P BDest) i out)\<rparr>))"
proof (cases "dest_need_reset (streams P ! j)")
  case True
  then have "put_bytes (pmem P BDest) i out = pmem P BDest"
    using ld d nd fit by (intro put_bytes_present) (simp_all add: load_Some)
  then show ?thesis
    using True j by (simp add: decompOutValidDestBufferCleanUp_def Let_def RestoreDestCpastreamBuffer_def upd_def)
next
  case False
  have u: "upd j RestoreDestCpastreamBuffer Q = Q" if "streams Q = streams P" for Q
    using False that by (simp add: upd_def RestoreDestCpastreamBuffer_def)
  have mn: "min (j_dest_sz J - i) (length out) = length out" using fit by simp
  have "QZ_MEMCPY (pmem P) (q_next_dest P) (dest_pData (streams P ! j)) (j_dest_sz J - i) (length out) =
      Some ((pmem P)(BDest := put_bytes (pmem P BDest) i out))"
    using ld nd fit unfolding QZ_MEMCPY_def mn by (simp add: store_bytes_def)
  then show ?thesis using False by (simp add: decompOutValidDestBufferCleanUp_def Let_def pr u)
qed

lemma decompOutCheckSum_ok:
  assumes "j_fmt J \<noteq> DEFLATE_ZLIB" and "j_fmt J \<noteq> DEFLATE_4B \<and> j_fmt J \<noteq> DEFLATE_RAW \<Longrightarrow>
      checksum r = st_checksum (streams P ! j) \<and> produced r = orgdatalen (streams P ! j)"
  shows "decompOutCheckSum J j r P = Some (QZ_OK, P)"
  using assms by (auto simp: decompOutCheckSum_def Let_def)

lemma end_of_stream_only: "\<exists>es. (if b then set_end_of_stream P else P) = P\<lparr>end_of_stream := es\<rparr>"
  by (rule exI [of _ "if b \<and> end_of_stream P \<noteq> None then Some 1 else end_of_stream P"])
    (cases P, simp add: set_end_of_stream_def)

lemma decomp_collect_hw_ok:
  assumes j: "j < length (streams P)" and sq: "st_seq (streams P ! j) = q_seq_in P"
    and nd: "q_next_dest P = Ptr BDest i" "length (pmem P BDest) = j_dest_sz J" and fmt: "j_fmt J \<noteq> DEFLATE_ZLIB"
    and fit: "i + length out \<le> j_dest_sz J" "j_dest_sz J < 2 ^ 32"
    and r: "st_res (streams P ! j) = r" "unat (produced r) = length out" "unat (consumed r) = c"
    and ld: "load (pmem P) (dest_pData (streams P ! j)) (length out) = Some out"
    and d: "dest_need_reset (streams P ! j) \<Longrightarrow> dest_pData (streams P ! j) = Ptr BDest i"
    and ck: "j_fmt J \<noteq> DEFLATE_4B \<and> j_fmt J \<noteq> DEFLATE_RAW \<Longrightarrow>
      checksum r = st_checksum (streams P ! j) \<and> produced r = orgdatalen (streams P ! j)"
  shows "\<exists>es. decomp_collect_hw J j (j_dest_sz J - i) P = Some (Break, j_dest_sz J - (i + length out),
    P\<lparr>pmem := (pmem P)(BDest := put_bytes (pmem P BDest) i out), streams := (streams P)[j := d_restored (streams P ! j)],
      q_in_len := q_in_len P + (outputHeaderSz (j_fmt J) + c + outputFooterSz (j_fmt J)), q_out_len := q_out_len P + length out,
      q_next_dest := Ptr BDest (i + length out), q_processed := q_processed P + 1, q_seq_in := q_seq_in P + 1,
      end_of_stream := es\<rparr>)"
proof -
  let ?P1 = "upd j RestoreDestCpastreamBuffer (P\<lparr>pmem := (pmem P)(BDest := put_bytes (pmem P BDest) i out)\<rparr>)"
  have v: "decompOutValidDestBufferCleanUp j r (j_dest_sz J - i) P = Some ?P1"
    by (rule d_valid_clean_up [OF j nd fit(1) r(2) ld d])
  have s1: "st_checksum (streams ?P1 ! j) = st_checksum (streams P ! j)" "orgdatalen (streams ?P1 ! j) = orgdatalen (streams P ! j)"
    using j by (simp_all add: upd_def RestoreDestCpastreamBuffer_def)
  have c: "decompOutCheckSum J j r ?P1 = Some (QZ_OK, ?P1)"
    by (rule decompOutCheckSum_ok [OF fmt]) (use ck in \<open>simp add: s1\<close>)
  define P2 where "P2 = advance_out (length out) (?P1\<lparr>q_in_len := q_in_len P +
      (outputHeaderSz (j_fmt J) + unat (consumed r) + outputFooterSz (j_fmt J))\<rparr>)"
  obtain es where e: "(if endOfLastBlock r then set_end_of_stream P2 else P2) = P2\<lparr>end_of_stream := es\<rparr>"
    using end_of_stream_only [of "endOfLastBlock r" P2] that by blast
  have p: "decompOutProcessedRespond j (P2\<lparr>end_of_stream := es\<rparr>) = Some ((P2\<lparr>end_of_stream := es\<rparr>)\<lparr>
      streams := (streams P)[j := d_restored (streams P ! j)],
      q_processed := q_processed (P2\<lparr>end_of_stream := es\<rparr>) + 1, q_seq_in := q_seq_in P + 1\<rparr>)"
    by (rule d_processed_releases [OF j sq]) (simp_all add: P2_def advance_out_def upd_def)
  have "decomp_collect_hw J j (j_dest_sz J - i) P = Some (Break, sub32 (j_dest_sz J - i) (length out),
      (P2\<lparr>end_of_stream := es\<rparr>)\<lparr>streams := (streams P)[j := d_restored (streams P ! j)],
        q_processed := q_processed (P2\<lparr>end_of_stream := es\<rparr>) + 1, q_seq_in := q_seq_in P + 1\<rparr>)"
    unfolding decomp_collect_hw_def Let_def r(1)
    using v c p e by (cases "endOfLastBlock r") (simp_all add: r(2) P2_def [symmetric])
  also have "sub32 (j_dest_sz J - i) (length out) = j_dest_sz J - (i + length out)" by (rule sub32_rest [OF fit])
  finally show ?thesis
    using nd r(3) by (intro exI [of _ es]) (simp add: P2_def advance_out_def upd_def padd_def)
qed

lemma d_release:
  assumes inv: "d_inv J q hw d n e x" and j: "j < length (streams (d_pipe x))" and a: "answered (streams (d_pipe x) ! j)"
    and sq: "st_seq (streams (d_pipe x) ! j) = q_seq_in (d_pipe x)"
    and P: "streams P = (streams (d_pipe x))[j := d_restored (streams (d_pipe x) ! j)]"
      "q_seq_in P = q_seq_in (d_pipe x) + 1" "q_processed P = q_processed (d_pipe x) + 1" "q_seq P = q_seq (d_pipe x)"
      "q_submitted P = q_submitted (d_pipe x)" "heartbeat P = heartbeat (d_pipe x)" "q_stat P = q_stat (d_pipe x)"
      "q_stop P = q_stop (d_pipe x)" "q_last_submitted P = q_last_submitted (d_pipe x)" "q_single P = q_single (d_pipe x)"
      "q_last_processed P = q_last_processed (d_pipe x)" "\<And>b. b \<noteq> BDest \<Longrightarrow> pmem P b = pmem (d_pipe x) b"
      "length (pmem P BDest) = length (pmem (d_pipe x) BDest)"
    and keep: "\<And>k. q_seq_in (d_pipe x) < k \<Longrightarrow> d_keeps J q d k (pmem (d_pipe x)) (pmem P)"
    and out: "d_out_inv J q hw d (x\<lparr>d_pipe := P, d_out_avail := av\<rparr>) k"
  shows "d_inv J q hw d n e (x\<lparr>d_pipe := P, d_out_avail := av\<rparr>)"
proof -
  let ?x = "x\<lparr>d_pipe := P, d_out_avail := av\<rparr>"
  have s: "d_slots J q hw d x" and m: "mem_inv J d (d_pipe x)" and l: "d_local J q d n e x" using d_invD [OF inv] by simp_all
  note fin = ds.answered_of [OF s j a]
  have "d_prep J q hw d j (pmem (d_pipe x)) (streams (d_pipe x) ! j) (st_seq (streams (d_pipe x) ! j))"
    using fin(1) by (simp add: d_fin_def)
  note idle = d_restored_idle [OF a this]
  have "slots_inv comp_idle (d_prep J q hw d) (d_fin J q hw d) (d_claimed (d_phase x)) (d_readied (d_phase x)) (d_driver x) P"
    by (rule ds.release_step [OF s j a sq P(1,4,2) idle]) (use P(12) keep in \<open>simp_all add: own_same_def\<close>)
  then have "d_slots J q hw d ?x" by simp
  moreover have "d_local J q d n e ?x"
    using l fin(3) sq unfolding d_local_def Let_def by (auto simp: P(2-11) d_at_def d_found_def)
  moreover have "mem_inv J d P" using m P(1,12,13) by (simp add: mem_inv_def)
  ultimately show ?thesis using out by (auto simp: d_inv_def)
qed

lemma d_collect_one_inv:
  assumes inv: "d_inv J q hw d n e x" and job: "d_job_ok J q d" and mem: "members J q d n e" and law: "d_healthy J q hw d n"
    and j: "j < length (streams (d_pipe x))" and a: "answered (streams (d_pipe x) ! j)"
    and sq: "st_seq (streams (d_pipe x) ! j) = q_seq_in (d_pipe x)"
  shows "\<exists>c av P. decomp_collect_one J sw j (d_out_avail x) (d_pipe x) w = Some (c, av, P, w) \<and> c \<noteq> Abort \<and>
    d_inv J q hw d n e (x\<lparr>d_pipe := P, d_out_avail := av\<rparr>) \<and> length (streams P) = length (streams (d_pipe x)) \<and>
    q_seq P = q_seq (d_pipe x) \<and> q_single P = q_single (d_pipe x) \<and> q_seq_in P = q_seq_in (d_pipe x) + 1"
proof -
  let ?P = "d_pipe x" and ?s = "streams (d_pipe x) ! j" and ?k = "nat (q_seq_in (d_pipe x))"
  have s: "d_slots J q hw d x" and m: "mem_inv J d ?P" and l: "d_local J q d n e x" using d_invD [OF inv] by simp_all
  obtain k where o: "d_out_inv J q hw d x k" using d_invD(4) [OF inv] by blast
  note ans = ds.answered_of [OF s j a]
  have f: "d_fin J q hw d j (pmem ?P) ?s (q_seq_in ?P)" and lt: "q_seq_in ?P < q_seq ?P" using ans sq by simp_all
  have pos: "0 \<le> q_seq_in ?P" "q_seq ?P \<le> int n" using l by (simp_all add: d_local_def Let_def)
  show ?thesis
  proof (cases "q_stat ?P = QZ_DATA_ERROR")
    case True
    let ?P' = "?P\<lparr>streams := (streams ?P)[j := d_restored ?s], q_processed := q_processed ?P + 1, q_seq_in := q_seq_in ?P + 1\<rparr>"
    have "decomp_collect_one J sw j (d_out_avail x) ?P w = Some (Continue, d_out_avail x, ?P', w)"
      using True d_skip_releases [OF j sq] by (simp add: decomp_collect_one_def)
    moreover have "d_inv J q hw d n e (x\<lparr>d_pipe := ?P', d_out_avail := d_out_avail x\<rparr>)"
      by (rule d_release [OF inv j a sq, where k = k]) (use o True in \<open>auto simp: ds.keeps_same d_out_inv_def Let_def\<close>)
    ultimately show ?thesis by simp
  next
    case ok: False
    have k: "int k = q_seq_in ?P" "d_out_avail x = j_dest_sz J - dest_off J q d k" "q_next_dest ?P = Ptr BDest (dest_off J q d k)"
      "q_out_len ?P = dest_off J q d k" "q_in_len ?P = src_off J q d k" "take (dest_off J q d k) (pmem ?P BDest) = d_outs J q hw d k"
      using o ok by (auto simp: d_out_inv_def Let_def)
    have kn: "k < n" using k(1) lt pos by linarith
    note mf = member_facts [OF mem job kn]
    have dl: "length (pmem ?P BDest) = j_dest_sz J" using m by (simp add: mem_inv_def)
    let ?o = "d_out J q hw d k" and ?r = "d_res J q hw d k"
    have nk: "nat (q_seq_in ?P) = k" using k(1) by simp
    have fs: "job_status ?s = CPA_STATUS_SUCCESS" "st_res ?s = ?r" "length ?o = m_usz J q d k"
      "load (pmem ?P) (dest_pData ?s) (length ?o) = Some ?o"
      "dest_need_reset ?s \<Longrightarrow> dest_pData ?s = Ptr BDest (dest_off J q d k)"
      "j_fmt J \<noteq> DEFLATE_4B \<and> j_fmt J \<noteq> DEFLATE_RAW \<Longrightarrow> (st_checksum ?s, orgdatalen ?s) = footer_of J q d k"
      using f nk by (auto simp: d_fin_def d_prep_def)
    have hl: "unat (produced ?r) = length ?o" "unat (consumed ?r) = m_csz J q d k"
      "j_fmt J \<noteq> DEFLATE_4B \<and> j_fmt J \<noteq> DEFLATE_RAW \<Longrightarrow> (checksum ?r, produced ?r) = footer_of J q d k"
      using law kn unfolding d_healthy_def by auto
    have jb: "j_fmt J \<noteq> DEFLATE_ZLIB" "j_dest_sz J < 2 ^ 32" using job by (simp_all add: d_job_ok_def)
    have fit: "dest_off J q d k + length ?o \<le> j_dest_sz J" using mf(2) fs(3) by simp
    have "j_fmt J \<noteq> DEFLATE_4B \<and> j_fmt J \<noteq> DEFLATE_RAW \<Longrightarrow> checksum ?r = st_checksum ?s \<and> produced ?r = orgdatalen ?s"
      using fs(6) hl(3) by (metis prod.inject)
    from decomp_collect_hw_ok [OF j sq k(3) dl jb(1) fit jb(2) fs(2) hl(1,2) fs(4,5) this]
    obtain es where h: "decomp_collect_hw J j (j_dest_sz J - dest_off J q d k) ?P =
      Some (Break, j_dest_sz J - (dest_off J q d k + length ?o),
      ?P\<lparr>pmem := (pmem ?P)(BDest := put_bytes (pmem ?P BDest) (dest_off J q d k) ?o), streams := (streams ?P)[j := d_restored ?s],
       q_in_len := q_in_len ?P + (outputHeaderSz (j_fmt J) + m_csz J q d k + outputFooterSz (j_fmt J)), q_out_len := q_out_len ?P + length ?o,
       q_next_dest := Ptr BDest (dest_off J q d k + length ?o), q_processed := q_processed ?P + 1, q_seq_in := q_seq_in ?P + 1,
       end_of_stream := es\<rparr>)" by blast
    let ?P' = "?P\<lparr>pmem := (pmem ?P)(BDest := put_bytes (pmem ?P BDest) (dest_off J q d k) ?o), streams := (streams ?P)[j := d_restored ?s],
       q_in_len := q_in_len ?P + (outputHeaderSz (j_fmt J) + m_csz J q d k + outputFooterSz (j_fmt J)), q_out_len := q_out_len ?P + length ?o,
       q_next_dest := Ptr BDest (dest_off J q d k + length ?o), q_processed := q_processed ?P + 1, q_seq_in := q_seq_in ?P + 1,
       end_of_stream := es\<rparr>"
    let ?av = "j_dest_sz J - (dest_off J q d k + length ?o)"
    have "decomp_collect_one J sw j (d_out_avail x) ?P w = Some (Break, ?av, ?P', w)"
      using ok fs(1) h k(2) by (simp add: decomp_collect_one_def)
    moreover have "d_inv J q hw d n e (x\<lparr>d_pipe := ?P', d_out_avail := ?av\<rparr>)"
    proof (rule d_release [OF inv j a sq, where k = "Suc k"])
      show "d_keeps J q d i (pmem ?P) (pmem ?P')" if i: "q_seq_in ?P < i" for i
      proof -
        have "Suc k \<le> nat i" using i k(1) by linarith
        then have "dest_off J q d (Suc k) \<le> dest_off J q d (nat i)" by (rule dest_off_mono)
        then show ?thesis using fit fs(3) dl by (simp add: d_keeps_def put_bytes_outside)
      qed
      show "d_out_inv J q hw d (x\<lparr>d_pipe := ?P', d_out_avail := ?av\<rparr>) (Suc k)"
        using ok k fs(3) fit dl take_put_bytes [of "dest_off J q d k" ?o "pmem ?P BDest"]
        by (simp add: d_out_inv_def Let_def padd_def)
    qed (use fit dl in simp_all)
    ultimately show ?thesis by simp
  qed
qed

end
