(* ===== verification/DecompOrder.thy ===== *)
theory DecompOrder
  imports DecompSteps
begin

text \<open>
  Correctness of the decompression pipeline on a healthy instance, with two threads or one: every
  event keeps the invariant, the destination holds the data of the members in their order, and a
  call can always be brought to its end.
\<close>

section \<open>Collecting\<close>

lemma decomp_scan_inv:
  assumes job: "d_job_ok J q d" and mem: "members J q d n e" and law: "d_healthy J q hw d n"
  shows "d_inv J q hw d n e x \<Longrightarrow> \<forall>j \<in> set js. j < length (streams (d_pipe x)) \<Longrightarrow>
    \<exists>av P. decomp_scan J sw js (d_out_avail x) (d_pipe x) w = Some (False, av, P, w) \<and>
      d_inv J q hw d n e (x\<lparr>d_pipe := P, d_out_avail := av\<rparr>) \<and> length (streams P) = length (streams (d_pipe x)) \<and>
      q_seq P = q_seq (d_pipe x) \<and> q_single P = q_single (d_pipe x) \<and> q_seq_in (d_pipe x) \<le> q_seq_in P \<and>
      ((\<exists>j \<in> set js. st_seq (streams (d_pipe x) ! j) = q_seq_in (d_pipe x) \<and> answered (streams (d_pipe x) ! j)) \<longrightarrow>
         q_seq_in (d_pipe x) < q_seq_in P)"
proof (induction js arbitrary: x)
  case Nil
  then show ?case by simp
next
  case (Cons j js)
  have j: "j < length (streams (d_pipe x))" using Cons.prems(2) by simp
  show ?case
  proof (cases "st_seq (streams (d_pipe x) ! j) = q_seq_in (d_pipe x) \<and> answered (streams (d_pipe x) ! j)")
    case True
    obtain c av P where c: "decomp_collect_one J sw j (d_out_avail x) (d_pipe x) w = Some (c, av, P, w)" "c \<noteq> Abort"
      "d_inv J q hw d n e (x\<lparr>d_pipe := P, d_out_avail := av\<rparr>)" "length (streams P) = length (streams (d_pipe x))"
      "q_seq P = q_seq (d_pipe x)" "q_single P = q_single (d_pipe x)" "q_seq_in P = q_seq_in (d_pipe x) + 1"
      using d_collect_one_inv [OF Cons.prems(1) job mem law j True [THEN conjunct2] True [THEN conjunct1], of sw w]
      by (elim exE conjE) (rule that)
    show ?thesis
    proof (cases c)
      case Continue
      let ?x = "x\<lparr>d_pipe := P, d_out_avail := av\<rparr>"
      have "\<exists>av' P'. decomp_scan J sw js (d_out_avail ?x) (d_pipe ?x) w = Some (False, av', P', w) \<and>
          d_inv J q hw d n e (?x\<lparr>d_pipe := P', d_out_avail := av'\<rparr>) \<and> length (streams P') = length (streams (d_pipe ?x)) \<and>
          q_seq P' = q_seq (d_pipe ?x) \<and> q_single P' = q_single (d_pipe ?x) \<and> q_seq_in (d_pipe ?x) \<le> q_seq_in P'"
        using Cons.IH [OF c(3)] Cons.prems(2) c(4) by fastforce
      then obtain av' P' where "decomp_scan J sw js av P w = Some (False, av', P', w)"
        "d_inv J q hw d n e (x\<lparr>d_pipe := P', d_out_avail := av'\<rparr>)" "length (streams P') = length (streams P)"
        "q_seq P' = q_seq P" "q_single P' = q_single P" "q_seq_in P \<le> q_seq_in P'" by auto
      then show ?thesis using True c Continue by simp
    next
      case Break
      then show ?thesis using True c by simp
    qed (use c(2) in simp)
  next
    case False
    note Cons.IH [OF Cons.prems(1)]
    moreover have "\<forall>j \<in> set js. j < length (streams (d_pipe x))" using Cons.prems(2) by simp
    moreover have "(\<exists>i \<in> set (j # js). st_seq (streams (d_pipe x) ! i) = q_seq_in (d_pipe x) \<and> answered (streams (d_pipe x) ! i)) =
        (\<exists>i \<in> set js. st_seq (streams (d_pipe x) ! i) = q_seq_in (d_pipe x) \<and> answered (streams (d_pipe x) ! i))"
      using False by auto
    moreover have "decomp_scan J sw (j # js) (d_out_avail x) (d_pipe x) w = decomp_scan J sw js (d_out_avail x) (d_pipe x) w"
      unfolding decomp_scan.simps by (rule if_not_P [OF False])
    ultimately show ?thesis by presburger
  qed
qed

lemma collect_d_inv:
  assumes inv: "d_inv J q hw d n e x" and job: "d_job_ok J q d" and mem: "members J q d n e" and law: "d_healthy J q hw d n"
    and may: "may_collect x"
  shows "\<exists>x'. decomp_collect J sw x = Some x' \<and> d_inv J q hw d n e x' \<and> d_phase x' = d_phase x \<and> d_driver x' = d_driver x \<and>
    q_seq (d_pipe x') = q_seq (d_pipe x) \<and> q_seq_in (d_pipe x) \<le> q_seq_in (d_pipe x') \<and>
    (d_driver x = [] \<and> q_seq_in (d_pipe x) < q_seq (d_pipe x) \<longrightarrow> q_seq_in (d_pipe x) < q_seq_in (d_pipe x')) \<and>
    ((q_single (d_pipe x) \<or> d_phase x = DDone) \<and> q_seq_in (d_pipe x) = q_seq (d_pipe x) \<longrightarrow> d_out_done x')"
proof -
  let ?ss = "streams (d_pipe x)"
  have nd: "\<not> d_out_done x" using may by (simp add: may_collect_def)
  have s: "d_slots J q hw d x" using d_invD [OF inv] by simp
  have r: "\<forall>j \<in> set [0..<length ?ss]. j < length ?ss" by simp
  obtain av P where c: "decomp_scan J sw [0..<length ?ss] (d_out_avail x) (d_pipe x) (d_sw_state x) = Some (False, av, P, d_sw_state x)"
    "d_inv J q hw d n e (x\<lparr>d_pipe := P, d_out_avail := av\<rparr>)" "q_seq P = q_seq (d_pipe x)" "q_single P = q_single (d_pipe x)"
    "q_seq_in (d_pipe x) \<le> q_seq_in P"
    "(\<exists>j \<in> set [0..<length ?ss]. st_seq (?ss ! j) = q_seq_in (d_pipe x) \<and> answered (?ss ! j)) \<longrightarrow> q_seq_in (d_pipe x) < q_seq_in P"
    using decomp_scan_inv [OF job mem law inv r, of sw "d_sw_state x"] by (elim exE conjE) (rule that)
  have l: "d_local J q d n e (x\<lparr>d_pipe := P, d_out_avail := av\<rparr>)" using c(2) by (simp add: d_inv_def)
  have up: "q_seq_in (d_pipe x) < q_seq_in P" if "d_driver x = []" "q_seq_in (d_pipe x) < q_seq (d_pipe x)"
  proof -
    have "\<exists>j < length ?ss. answered (?ss ! j) \<and> st_seq (?ss ! j) = q_seq_in (d_pipe x)"
      using s that(2) unfolding that(1) by (rule ds.next_answered)
    then show ?thesis using c(6) by auto
  qed
  have loc: "q_processed P = q_seq_in P" "q_submitted P = q_seq P" "q_last_submitted P \<longleftrightarrow> d_phase x = DDone" "q_seq_in P \<le> q_seq P"
    using l by (simp_all add: d_local_def Let_def)
  let ?f = "(q_single P \<or> q_last_submitted P) \<and> q_processed P = q_submitted P"
  show ?thesis
  proof (cases ?f)
    case True
    let ?x = "x\<lparr>d_out_avail := av, d_pipe := P\<lparr>q_last_processed := q_last_submitted P\<rparr>, d_out_done := True\<rparr>"
    have "d_phase x = DPaused \<and> q_single P \<or> d_phase x = DDone" using True may c(4) loc(3) by (auto simp: may_collect_def)
    then have "d_local J q d n e ?x"
    proof (elim disjE conjE)
      assume "d_phase x = DPaused" "q_single P"
      then show ?thesis using l True loc by (simp add: d_local_def Let_def)
    next
      assume "d_phase x = DDone"
      then show ?thesis using l True loc by (simp add: d_local_def Let_def)
    qed
    then have "d_inv J q hw d n e ?x"
      by (intro d_inv_local [OF c(2), where a = "q_stop P" and b = "q_last_submitted P" and c = "q_stat P" and l = "q_last_submitted P"]) simp_all
    then show ?thesis using c True up by (simp add: decomp_collect_def Let_def)
  next
    case False
    have "decomp_collect J sw x = Some (x\<lparr>d_pipe := P, d_out_avail := av\<rparr>)"
      using c(1) by (simp add: decomp_collect_def Let_def if_not_P [OF False] del: de_Morgan_conj)
    moreover have "\<not> ((q_single (d_pipe x) \<or> d_phase x = DDone) \<and> q_seq_in (d_pipe x) = q_seq (d_pipe x))"
      using False loc c(3-5) by auto
    ultimately show ?thesis using c(2,3,5) up by auto
  qed
qed

text \<open>A single thread goes back to submitting where it stopped.\<close>

lemma restart_d_inv:
  assumes inv: "d_inv J q hw d n e x" and job: "d_job_ok J q d" and mem: "members J q d n e"
    and st: "q_single (d_pipe x)" "d_out_done x" "\<not> q_last_processed (d_pipe x)"
  defines "x' \<equiv> decomp_out_start J (decomp_in_start J x)"
  shows "d_inv J q hw d n e x'" "d_phase x = DPaused" "d_pipe x' = d_pipe x" "d_phase x' = DTop" "\<not> d_out_done x'"
    "d_driver x' = d_driver x" "q_seq_in (d_pipe x) = q_seq (d_pipe x)"
proof -
  let ?P = "d_pipe x" and ?k = "nat (q_seq (d_pipe x))"
  have s: "d_slots J q hw d x" and m: "mem_inv J d ?P" and l: "d_local J q d n e x" using d_invD [OF inv] by simp_all
  obtain k where o: "d_out_inv J q hw d x k" using d_invD(4) [OF inv] by blast
  show ph: "d_phase x = DPaused" "q_seq_in ?P = q_seq ?P" using l st by (auto simp: d_local_def Let_def)
  have loc: "q_stat ?P = QZ_OK" "q_seq ?P < int n" "0 \<le> q_seq ?P" using l ph by (auto simp: d_local_def Let_def)
  have k: "k = ?k" "q_in_len ?P = src_off J q d k" "q_out_len ?P = dest_off J q d k" "q_next_dest ?P = Ptr BDest (dest_off J q d k)"
    "d_out_avail x = j_dest_sz J - dest_off J q d k"
    using o loc ph(2) by (auto simp: d_out_inv_def Let_def)
  have kn: "k \<le> n" using k(1) loc(2,3) by (simp add: nat_le_iff)
  have jb: "j_src_sz J = length d" "length d < 2 ^ 32" "j_dest_sz J < 2 ^ 32" "j_src J = Ptr BSrc 0"
    using job by (simp_all add: d_job_ok_def)
  have r: "sub32 (j_src_sz J) (q_in_len ?P) = length d - src_off J q d k"
    "sub32 (j_dest_sz J) (q_out_len ?P) = j_dest_sz J - dest_off J q d k"
    using sub32_eq src_off_le [OF mem job kn] dest_off_le [OF mem job kn] jb by (simp_all add: k)
  show f: "d_pipe x' = ?P" "d_phase x' = DTop" "\<not> d_out_done x'" "d_driver x' = d_driver x"
    by (simp_all add: x'_def decomp_out_start_def decomp_in_start_def Let_def)
  have g: "d_out_avail x' = d_out_avail x" "d_src_ptr x' = Ptr BSrc (src_off J q d k)" "d_dest_ptr x' = Ptr BDest (dest_off J q d k)"
    "d_remaining x' = length d - src_off J q d k" "d_src_avail x' = length d - src_off J q d k"
    "d_dest_avail x' = j_dest_sz J - dest_off J q d k" "d_sess x' = d_sess x"
    using r jb(4) k by (simp_all add: x'_def decomp_out_start_def decomp_in_start_def Let_def padd_def)
  have "d_slots J q hw d x'" using s ph(1) by (simp add: f)
  moreover have "d_local J q d n e x'"
    using l ph loc k(1) g st(3) f(3) unfolding d_local_def Let_def f(1,2,4) d_at_def by auto
  moreover have "d_out_inv J q hw d x' k" using o by (simp add: d_out_inv_def f g Let_def)
  ultimately show "d_inv J q hw d n e x'" using m by (auto simp: d_inv_def f)
qed

section \<open>Runs\<close>

fun d_healthy_event :: "devent \<Rightarrow> bool" where
  "d_healthy_event (DSubmit ok) = ok" | "d_healthy_event DPollFail = False" | "d_healthy_event (DBeat b) = b"
| "d_healthy_event _ = True"

lemma decomp_step_inv:
  assumes inv: "d_inv J q hw d n e x" and job: "d_job_ok J q d" and mem: "members J q d n e" and law: "d_healthy J q hw d n"
    and ev: "d_healthy_event a"
  shows "\<exists>x'. decomp_step J hw sw a x = Some x' \<and> d_inv J q hw d n e x'"
proof (cases a)
  case DCheck
  then show ?thesis using check_inv [OF inv job mem, of sw] inv by (cases "d_phase x = DTop") (auto simp: decomp_step_def Let_def)
next
  case DClaim
  then show ?thesis using claim_d_inv [OF inv] inv by (simp add: decomp_step_def Let_def)
next
  case DSetup
  show ?thesis
  proof (cases "d_phase x")
    case (DClaimed j)
    then show ?thesis using setup_d_inv [OF inv job mem DClaimed] DSetup by (auto simp: decomp_step_def Let_def)
  qed (use inv DSetup in \<open>simp_all add: decomp_step_def Let_def\<close>)
next
  case (DSubmit ok)
  show ?thesis
  proof (cases "d_phase x")
    case (DReady j i r)
    then show ?thesis using submit_d_inv(1) [OF inv job mem DReady] DSubmit ev by (simp add: decomp_step_def decomp_submit_def Let_def)
  qed (use inv DSubmit in \<open>simp_all add: decomp_step_def Let_def\<close>)
next
  case (DRespond j)
  then show ?thesis
    using respond_d_inv [OF inv job mem law, of j] inv by (cases "j \<in> set (d_driver x)") (auto simp: decomp_step_def Let_def)
next
  case DCollect
  then show ?thesis
    using collect_d_inv [OF inv job mem law, of sw] inv by (cases "may_collect x") (auto simp: decomp_step_def Let_def)
next
  case (DBeat b)
  have "(d_pipe x)\<lparr>heartbeat := b\<rparr> = d_pipe x" using DBeat ev d_invD(2) [OF inv] by (simp add: d_local_def Let_def)
  then show ?thesis using DBeat inv by (simp add: decomp_step_def Let_def)
next
  case Restart
  then show ?thesis using restart_d_inv(1) [OF inv job mem] inv by (simp add: decomp_step_def Let_def)
qed (use ev in simp)

lemma decomp_run_inv:
  assumes job: "d_job_ok J q d" and mem: "members J q d n e" and law: "d_healthy J q hw d n"
  shows "d_inv J q hw d n e x \<Longrightarrow> \<forall>a \<in> set as. d_healthy_event a \<Longrightarrow>
    \<exists>x'. decomp_run J hw sw as x = Some x' \<and> d_inv J q hw d n e x'"
proof (induction as arbitrary: x)
  case (Cons a as)
  obtain x1 where "decomp_step J hw sw a x = Some x1" "d_inv J q hw d n e x1"
    using decomp_step_inv [OF Cons.prems(1) job mem law] Cons.prems(2) by fastforce
  then show ?case using Cons.IH [of x1] Cons.prems(2) by simp
qed simp

text \<open>The state in which a call starts, with two threads or with one.\<close>

definition d_call_start :: "Job \<Rightarrow> QzSess \<Rightarrow> bool \<Rightarrow> Pipe \<Rightarrow> 'w \<Rightarrow> 'w Decomp" where
  "d_call_start J q single P w = decomp_start J q ((resetQzsess J P)\<lparr>q_single := single\<rparr>) w"

lemma decomp_start_inv:
  assumes job: "d_job_ok J q d" and mem: "members J q d n e" and fresh: "fresh_pipe J d P"
  shows "d_inv J q hw d n e (d_call_start J q single P w)"
proof -
  let ?x = "d_call_start J q single P w"
  have jb: "j_src_sz J = length d" "length d < 2 ^ 32" "j_dest_sz J < 2 ^ 32" "j_src J = Ptr BSrc 0"
    using job by (simp_all add: d_job_ok_def)
  have s: "sub32 (length d) 0 = length d" "sub32 (j_dest_sz J) 0 = j_dest_sz J" using jb by (simp_all add: sub32_eq)
  have "0 < n \<or> e \<noteq> QZ_OK" using mem by (auto simp: members_def)
  then have "d_local J q d n e ?x"
    using fresh jb s by (auto simp: d_local_def d_call_start_def decomp_start_def decomp_out_start_def decomp_in_start_def
        resetQzsess_def Let_def fresh_pipe_def padd_def d_at_def)
  moreover have "d_slots J q hw d ?x"
    using fresh by (auto simp: slots_inv_def slot_inv_def comp_idle_def d_call_start_def decomp_start_def decomp_out_start_def
        decomp_in_start_def resetQzsess_def fresh_pipe_def busy_def Let_def)
  moreover have "d_out_inv J q hw d ?x 0"
    using fresh s by (simp add: d_out_inv_def d_call_start_def decomp_start_def decomp_out_start_def decomp_in_start_def
        resetQzsess_def Let_def fresh_pipe_def)
  moreover have "mem_inv J d (d_pipe ?x)"
    using fresh by (simp add: mem_inv_def d_call_start_def decomp_start_def decomp_out_start_def decomp_in_start_def
        resetQzsess_def Let_def fresh_pipe_def)
  ultimately show ?thesis by (auto simp: d_inv_def)
qed

section \<open>Progress\<close>

definition decomp_todo :: "nat \<Rightarrow> 'w Decomp \<Rightarrow> nat" where
  "decomp_todo n x = (let P = d_pipe x in
     20 * nat (int n - q_seq P) + 10 * nat (q_seq P - q_seq_in P) + 2 * length (d_driver x) +
     (case d_phase x of DTop \<Rightarrow> 4 | DFound \<Rightarrow> 3 | DClaimed _ \<Rightarrow> 2 | DReady _ _ _ \<Rightarrow> 1 | DDone \<Rightarrow> 0
        | DPaused \<Rightarrow> if q_seq_in P < q_seq P then 2 else 6) + (if d_out_done x then 0 else 1))"

lemma collect_progress:
  assumes inv: "d_inv J q hw d n e x" and job: "d_job_ok J q d" and mem: "members J q d n e" and law: "d_healthy J q hw d n"
    and drv: "d_driver x = []" and may: "may_collect x"
    and w: "q_seq_in (d_pipe x) < q_seq (d_pipe x) \<or> q_single (d_pipe x) \<or> d_phase x = DDone"
  shows "\<exists>x'. decomp_collect J sw x = Some x' \<and> decomp_todo n x' < decomp_todo n x"
proof -
  obtain x' where c: "decomp_collect J sw x = Some x'" "d_inv J q hw d n e x'" "d_phase x' = d_phase x"
    "d_driver x' = d_driver x" "q_seq (d_pipe x') = q_seq (d_pipe x)" "q_seq_in (d_pipe x) \<le> q_seq_in (d_pipe x')"
    "d_driver x = [] \<and> q_seq_in (d_pipe x) < q_seq (d_pipe x) \<longrightarrow> q_seq_in (d_pipe x) < q_seq_in (d_pipe x')"
    "(q_single (d_pipe x) \<or> d_phase x = DDone) \<and> q_seq_in (d_pipe x) = q_seq (d_pipe x) \<longrightarrow> d_out_done x'"
    using collect_d_inv [OF inv job mem law may, of sw] by (elim exE conjE) (rule that)
  have b: "q_seq_in (d_pipe x) \<le> q_seq (d_pipe x)" "q_seq_in (d_pipe x') \<le> q_seq (d_pipe x)"
    using d_invD(2) [OF inv] d_invD(2) [OF c(2)] c(5) by (simp_all add: d_local_def Let_def)
  have nd: "\<not> d_out_done x" using may by (simp add: may_collect_def)
  have "decomp_todo n x' < decomp_todo n x"
  proof (cases "q_seq_in (d_pipe x) < q_seq (d_pipe x)")
    case True
    then have "q_seq_in (d_pipe x) < q_seq_in (d_pipe x')" using c(7) drv by blast
    moreover from this have "nat (q_seq (d_pipe x) - q_seq_in (d_pipe x')) + 1 \<le> nat (q_seq (d_pipe x) - q_seq_in (d_pipe x))"
      using b by linarith
    ultimately show ?thesis using c(3-5) True nd unfolding decomp_todo_def Let_def by (cases "d_phase x") simp_all
  next
    case False
    then have "d_out_done x'" "q_seq_in (d_pipe x') = q_seq_in (d_pipe x)" using c(6,8) w b by auto
    then show ?thesis using c(3-5) nd by (cases "d_phase x") (simp_all add: decomp_todo_def Let_def)
  qed
  then show ?thesis using c(1) by blast
qed

lemma no_buffer_busy:
  assumes inv: "d_inv J q hw d n e x" and ph: "d_phase x = DFound" and j: "getUnusedBuffer (streams (d_pipe x)) l = -1"
  shows "q_seq_in (d_pipe x) < q_seq (d_pipe x)"
proof -
  let ?ss = "streams (d_pipe x)"
  have s: "d_slots J q hw d x" and "?ss \<noteq> []" using d_invD(1,3) [OF inv] by (simp_all add: mem_inv_def)
  then have z: "0 < length ?ss" by simp
  then have "\<not> unused (?ss ! 0)" using getUnusedBuffer_finds [OF z, of l] j by blast
  then show ?thesis using slots_invD(1) [OF s z] ph by (auto simp: slot_inv_def)
qed

lemma claim_cases:
  fixes x :: "'w Decomp"
  defines "P \<equiv> d_pipe x" and "j \<equiv> getUnusedBuffer (streams (d_pipe x)) (d_last_j x)"
  shows "j = -1 \<and> \<not> q_single P \<or>
    (j = -1 \<or> q_seq_in P < q_seq P) \<and> decomp_claim J x = x\<lparr>d_last_j := j, d_phase := DPaused\<rparr> \<or>
    decomp_claim J x = x\<lparr>d_last_j := j, d_phase := DClaimed (nat j), d_pipe := upd (nat j) (\<lambda>s. s\<lparr>src1 := src1 s + 1\<rparr>) P\<rparr>"
proof (cases "q_single P \<and> (j = -1 \<or> (q_seq P mod int (unat (i_req_cnt_thrshold (j_params J))) = 0 \<and> q_seq P > q_seq_in P))")
  case True
  then show ?thesis unfolding decomp_claim_def Let_def j_def [symmetric] unfolding P_def [symmetric] if_P [OF True] by blast
next
  case False
  show ?thesis
  proof (cases "j = -1")
    case True
    then show ?thesis using False by blast
  next
    case j: False
    then show ?thesis
      unfolding decomp_claim_def Let_def j_def [symmetric] unfolding P_def [symmetric] if_not_P [OF False] if_not_P [OF j] by blast
  qed
qed

lemma decomp_progress:
  assumes inv: "d_inv J q hw d n e x" and job: "d_job_ok J q d" and mem: "members J q d n e" and law: "d_healthy J q hw d n"
    and nl: "\<not> q_last_processed (d_pipe x)"
  shows "\<exists>a x'. d_healthy_event a \<and> decomp_step J hw sw a x = Some x' \<and> decomp_todo n x' < decomp_todo n x"
proof -
  let ?P = "d_pipe x"
  have l: "d_local J q d n e x" using d_invD(2) [OF inv] .
  have loc: "q_seq_in ?P \<le> q_seq ?P" "d_out_done x \<longrightarrow> q_single ?P \<and> d_phase x = DPaused"
    using l nl by (auto simp: d_local_def Let_def)
  have go: ?thesis if "d_healthy_event a" "decomp_step J hw sw a x = Some x'" "decomp_todo n x' < decomp_todo n x" for a x'
    using that by blast
  show ?thesis
  proof (cases "d_driver x")
    case (Cons j js)
    obtain P where "decomp_respond hw j ?P = Some P" "q_seq P = q_seq ?P" "q_seq_in P = q_seq_in ?P"
      using respond_d_inv [OF inv job mem law, of j] Cons by auto
    then show ?thesis
      using Cons by (intro go [of "DRespond j" "x\<lparr>d_pipe := P, d_driver := js\<rparr>"])
        (simp_all add: decomp_step_def Let_def decomp_todo_def)
  next
    case Nil
    have col: ?thesis if m: "may_collect x" "q_seq_in ?P < q_seq ?P \<or> q_single ?P \<or> d_phase x = DDone"
    proof -
      obtain x' where "decomp_collect J sw x = Some x'" "decomp_todo n x' < decomp_todo n x"
        using collect_progress [OF inv job mem law Nil m, of sw] by blast
      then show ?thesis using m(1) by (intro go [of DCollect x']) (simp_all add: decomp_step_def Let_def)
    qed
    show ?thesis
    proof (cases "d_phase x")
      case DTop
      obtain x' where "decomp_check J sw x = Some x'" "d_out_done x' = d_out_done x" "d_driver x' = d_driver x"
        "d_phase x' = DFound \<or> d_phase x' = DDone" "q_seq (d_pipe x') = q_seq ?P" "q_seq_in (d_pipe x') = q_seq_in ?P"
        using check_inv [OF inv job mem DTop, of sw] by (elim exE conjE) (rule that)
      then show ?thesis
        using DTop by (intro go [of DCheck x']) (auto simp: decomp_step_def Let_def decomp_todo_def)
    next
      case DFound
      let ?j = "getUnusedBuffer (streams ?P) (d_last_j x)"
      consider (wait) "?j = -1" "\<not> q_single ?P"
        | (pause) "q_seq_in ?P < q_seq ?P" "decomp_claim J x = x\<lparr>d_last_j := ?j, d_phase := DPaused\<rparr>"
        | (claim) "decomp_claim J x = x\<lparr>d_last_j := ?j, d_phase := DClaimed (nat ?j),
            d_pipe := upd (nat ?j) (\<lambda>s. s\<lparr>src1 := src1 s + 1\<rparr>) ?P\<rparr>"
        using claim_cases [of x J] no_buffer_busy [OF inv DFound, of "d_last_j x"] by blast
      then show ?thesis
      proof cases
        case wait
        then show ?thesis
          using no_buffer_busy [OF inv DFound, of "d_last_j x"] loc(2) DFound by (intro col) (auto simp: may_collect_def)
      next
        case pause
        then show ?thesis
          using DFound loc(2) by (intro go [of DClaim "decomp_claim J x"]) (simp_all add: decomp_step_def Let_def decomp_todo_def)
      next
        case claim
        then show ?thesis
          using DFound loc(2) by (intro go [of DClaim "decomp_claim J x"]) (simp_all add: decomp_step_def Let_def decomp_todo_def upd_def)
      qed
    next
      case (DClaimed j)
      obtain x' where "decomp_setup J j x = Some x'" "\<exists>a b. d_phase x' = DReady j a b" "d_out_done x' = d_out_done x"
        "d_driver x' = d_driver x" "q_seq (d_pipe x') = q_seq ?P" "q_seq_in (d_pipe x') = q_seq_in ?P"
        using setup_d_inv [OF inv job mem DClaimed] by (elim exE conjE) (rule that, assumption, blast)
      then show ?thesis
        using DClaimed by (intro go [of DSetup x']) (auto simp: decomp_step_def Let_def decomp_todo_def)
    next
      case (DReady j N M)
      let ?x = "decomp_advance J N M (x\<lparr>d_pipe := upd j (\<lambda>s. s\<lparr>src2 := src2 s + 1\<rparr>) ?P, d_driver := d_driver x @ [j]\<rparr>)"
      note sub = submit_d_inv [OF inv job mem DReady]
      have st: "decomp_step J hw sw (DSubmit True) x = Some ?x" using DReady by (simp add: decomp_step_def decomp_submit_def Let_def)
      have "d_phase ?x = DTop \<or> d_phase ?x = DDone" by (simp add: decomp_advance_def Let_def)
      then have "decomp_todo n ?x < decomp_todo n x"
        using sub(2-6) DReady loc(1) by (elim disjE) (simp_all add: decomp_todo_def Let_def)
      then show ?thesis using st by (intro go [of "DSubmit True" ?x]) simp_all
    next
      case DPaused
      have si: "q_single ?P" using l DPaused by (simp add: d_local_def Let_def)
      show ?thesis
      proof (cases "d_out_done x")
        case True
        note r = restart_d_inv [OF inv job mem si True nl]
        show ?thesis
          using r(2-7) True nl si DPaused by (intro go [of Restart "decomp_out_start J (decomp_in_start J x)"])
            (simp_all add: decomp_step_def Let_def decomp_todo_def)
      next
        case False
        then show ?thesis using DPaused si by (intro col) (simp_all add: may_collect_def)
      qed
    next
      case DDone
      then show ?thesis using loc(2) by (intro col) (auto simp: may_collect_def)
    qed
  qed
qed

lemma decomp_completes:
  assumes job: "d_job_ok J q d" and mem: "members J q d n e" and law: "d_healthy J q hw d n"
  shows "d_inv J q hw d n e x \<Longrightarrow>
    \<exists>as x'. (\<forall>a \<in> set as. d_healthy_event a) \<and> decomp_run J hw sw as x = Some x' \<and> q_last_processed (d_pipe x')"
proof (induction "decomp_todo n x" arbitrary: x rule: less_induct)
  case less
  show ?case
  proof (cases "q_last_processed (d_pipe x)")
    case True
    then show ?thesis by (intro exI [of _ "[]"]) simp
  next
    case False
    obtain a x1 where e: "d_healthy_event a" "decomp_step J hw sw a x = Some x1" "decomp_todo n x1 < decomp_todo n x"
      using decomp_progress [OF less.prems job mem law False, of sw] by (elim exE conjE) (rule that)
    have "d_inv J q hw d n e x1" using decomp_step_inv [OF less.prems job mem law e(1), of sw] e(2) by simp
    from less.hyps [OF e(3) this] obtain as x' where
      "\<forall>a \<in> set as. d_healthy_event a" "decomp_run J hw sw as x1 = Some x'" "q_last_processed (d_pipe x')"
      by (elim exE conjE) (rule that)
    then show ?thesis using e(1,2) by (intro exI [of _ "a # as"]) simp
  qed
qed

lemma decomp_run_append: "decomp_run J hw sw (as @ bs) x = do { x \<leftarrow> decomp_run J hw sw as x; decomp_run J hw sw bs x }"
  by (induction as arbitrary: x) (simp_all split: bind_split)

section \<open>The pipeline's promise\<close>

text \<open>What a state shows of the output: the data of \<open>k\<close> members, no more, and the source they stand for.\<close>

definition shows_members :: "Job \<Rightarrow> QzSess \<Rightarrow> hardware \<Rightarrow> bytes \<Rightarrow> Pipe \<Rightarrow> nat \<Rightarrow> bool" where
  "shows_members J q hw d P k \<longleftrightarrow> take (q_out_len P) (pmem P BDest) = d_outs J q hw d k \<and>
     q_out_len P = length (d_outs J q hw d k) \<and> q_next_dest P = Ptr BDest (q_out_len P) \<and> q_in_len P = src_off J q d k"

lemma d_inv_shows:
  assumes inv: "d_inv J q hw d n e x" and law: "d_healthy J q hw d n"
  shows "\<exists>k \<le> n. shows_members J q hw d (d_pipe x) k \<and> (q_stat (d_pipe x) = QZ_OK \<or> q_stat (d_pipe x) = e) \<and>
    (q_last_processed (d_pipe x) \<longrightarrow> q_stat (d_pipe x) = e \<and> (e \<noteq> QZ_DATA_ERROR \<longrightarrow> k = n))"
proof -
  obtain k where o: "d_out_inv J q hw d x k" using d_invD(4) [OF inv] by blast
  have l: "d_local J q d n e x" using d_invD(2) [OF inv] .
  have "int k \<le> q_seq_in (d_pipe x)" using o by (simp add: d_out_inv_def Let_def split: if_splits)
  moreover have "q_seq_in (d_pipe x) \<le> q_seq (d_pipe x)" "q_seq (d_pipe x) \<le> int n"
    using l by (simp_all add: d_local_def Let_def)
  ultimately have kn: "k \<le> n" by linarith
  have s: "shows_members J q hw d (d_pipe x) k"
    using o length_d_outs [OF law kn] by (simp add: shows_members_def d_out_inv_def Let_def)
  have st: "q_stat (d_pipe x) = QZ_OK \<or> q_stat (d_pipe x) = e" using l by (auto simp: d_local_def Let_def split: if_splits)
  have f: "q_stat (d_pipe x) = e \<and> (e \<noteq> QZ_DATA_ERROR \<longrightarrow> k = n)" if "q_last_processed (d_pipe x)"
  proof -
    have "q_stat (d_pipe x) = e" "q_seq (d_pipe x) = int n" "q_seq_in (d_pipe x) = q_seq (d_pipe x)"
      using l that by (auto simp: d_local_def Let_def)
    then show ?thesis using o by (auto simp: d_out_inv_def Let_def split: if_splits)
  qed
  show ?thesis using kn s st f by (intro exI [of _ k] conjI impI) simp_all
qed

text \<open>C3: (ordered decompression) On a healthy instance, for every interleaving of the submitting part, the
  collecting part and the driver, in two threads or in one, with or without zero copy, no access
  leaves a buffer and at every moment the destination holds exactly the data of the first members of
  the source, in their order, with the source length of those members. When the call is finished the
  status is that of the end of the source, and unless it is QZ_DATA_ERROR all members are there.\<close>

theorem decompress_in_order:
  assumes "d_job_ok J q d" "members J q d n e" "d_healthy J q hw d n" "fresh_pipe J d P" "\<forall>a \<in> set as. d_healthy_event a"
  shows "\<exists>x k. decomp_run J hw sw as (d_call_start J q single P w) = Some x \<and> k \<le> n \<and>
    shows_members J q hw d (d_pipe x) k \<and> (q_stat (d_pipe x) = QZ_OK \<or> q_stat (d_pipe x) = e) \<and>
    (q_last_processed (d_pipe x) \<longrightarrow> q_stat (d_pipe x) = e \<and> (e \<noteq> QZ_DATA_ERROR \<longrightarrow> k = n))"
proof -
  obtain x where r: "decomp_run J hw sw as (d_call_start J q single P w) = Some x" and i: "d_inv J q hw d n e x"
    using decomp_run_inv [OF assms(1-3) decomp_start_inv [OF assms(1,2,4)] assms(5), of sw single w]
    by (elim exE conjE) (rule that)
  show ?thesis using r d_inv_shows [OF i assms(3)] by blast
qed

text \<open>C21: (decompression completes) From every state a healthy run of a call can reach, some continuation
  ends the call: neither two threads nor the alternation of a single one deadlocks.\<close>

theorem decompress_can_finish:
  assumes "d_job_ok J q d" "members J q d n e" "d_healthy J q hw d n" "fresh_pipe J d P" "\<forall>a \<in> set as. d_healthy_event a"
  shows "\<exists>bs x'. (\<forall>a \<in> set bs. d_healthy_event a) \<and>
    decomp_run J hw sw (as @ bs) (d_call_start J q single P w) = Some x' \<and> q_last_processed (d_pipe x')"
proof -
  obtain x where r: "decomp_run J hw sw as (d_call_start J q single P w) = Some x" and i: "d_inv J q hw d n e x"
    using decomp_run_inv [OF assms(1-3) decomp_start_inv [OF assms(1,2,4)] assms(5), of sw single w]
    by (elim exE conjE) (rule that)
  from decomp_completes [OF assms(1-3) i, of sw] show ?thesis by (simp add: decomp_run_append r)
qed

text \<open>Two members of the four-byte format, stored, and two buffers.\<close>

definition four_job :: Job where
  "four_job = \<lparr>j_params = zero_params\<lparr>i_data_fmt := DEFLATE_4B, i_hw_buff_sz := 4\<rparr>, j_src = Ptr BSrc 0, j_src_sz = 16,
     j_dest_sz = 8, j_last = True, need_cont_mem = True, pinned = (\<lambda>_. False), crc_combine = (\<lambda>a b n. 0)\<rparr>"

abbreviation two_members :: bytes where "two_members \<equiv> [4, 0, 0, 0, 1, 2, 3, 4, 4, 0, 0, 0, 5, 6, 7, 8]"

definition four_sess :: QzSess where "four_sess = zero_sess\<lparr>sess_params := j_params four_job\<rparr>"

lemma four_job_ok: "d_job_ok four_job four_sess two_members"
  by (simp add: d_job_ok_def four_job_def four_sess_def j_hw_def j_fmt_def zero_params_def)

lemma four_members: "members four_job four_sess two_members 2 QZ_OK"
  by code_simp

lemma four_sizes:
  "(m_csz four_job four_sess two_members 0, m_usz four_job four_sess two_members 0,
    length (m_data four_job four_sess two_members 0)) = (4, 4, 4)"
  "(m_csz four_job four_sess two_members 1, m_usz four_job four_sess two_members 1,
    length (m_data four_job four_sess two_members 1)) = (4, 4, 4)"
  by code_simp+

lemma four_healthy: "d_healthy four_job four_sess store_hw two_members 2"
proof -
  have "j_fmt four_job = DEFLATE_4B" by (simp add: four_job_def j_fmt_def)
  moreover have "k = 0 \<or> k = 1" if "k < 2" for k :: nat using that by auto
  ultimately show ?thesis
    using four_sizes by (fastforce simp: d_healthy_def d_answer_def d_res_def d_out_def store_hw_def)
qed

lemma four_fresh: "fresh_pipe four_job two_members (two_buffers two_members 8)"
  by (simp add: fresh_pipe_def mem_inv_def two_buffers_def free_stream_def four_job_def j_hw_def block_dest_sz_eq
      unused_def clean_def home_def All_less_Suc2)

abbreviation four_events :: "devent list" where
  "four_events \<equiv> [DCheck, DClaim, DSetup, DSubmit True, DCheck, DClaim, DSetup, DSubmit True, DRespond 1, DCollect, DRespond 0,
     DCollect, DCollect, DCollect]"

theorem decompress_in_order_witness:
  "\<exists>x k. decomp_run four_job store_hw (\<lambda>w d n. (QZ_FAIL, 0, [], w)) four_events
      (d_call_start four_job four_sess False (two_buffers two_members 8) ()) = Some x \<and> k \<le> 2 \<and>
    shows_members four_job four_sess store_hw two_members (d_pipe x) k"
proof -
  have "\<forall>a \<in> set four_events. d_healthy_event a" by simp
  from decompress_in_order [OF four_job_ok four_members four_healthy four_fresh this,
      of "\<lambda>w d n. (QZ_FAIL, 0, [], w)" False "()"]
  show ?thesis by (elim exE conjE) (intro exI conjI)
qed

theorem decompress_can_finish_witness:
  "\<exists>bs x'. (\<forall>a \<in> set bs. d_healthy_event a) \<and>
    decomp_run four_job store_hw (\<lambda>w d n. (QZ_FAIL, 0, [], w)) (four_events @ bs)
      (d_call_start four_job four_sess True (two_buffers two_members 8) ()) = Some x' \<and> q_last_processed (d_pipe x')"
proof -
  have "\<forall>a \<in> set four_events. d_healthy_event a" by simp
  from decompress_can_finish [OF four_job_ok four_members four_healthy four_fresh this,
      of "\<lambda>w d n. (QZ_FAIL, 0, [], w)" True "()"]
  show ?thesis .
qed

section \<open>Where the promise ends\<close>

text \<open>Two good members and a truncated third; buffers whose pinned blocks are cut to what these members need.\<close>

abbreviation cut_members :: bytes where "cut_members \<equiv> two_members @ [4, 0, 0, 0]"
abbreviation no_sw :: "unit sw_decomp" where "no_sw \<equiv> \<lambda>w d n. (QZ_FAIL, 0, [], w)"

abbreviation two_sent :: "devent list" where
  "two_sent \<equiv> [DCheck, DClaim, DSetup, DSubmit True, DCheck, DClaim, DSetup, DSubmit True, DRespond 0, DRespond 1]"

definition d_view :: "unit Decomp \<Rightarrow> status \<times> bool \<times> nat \<times> nat" where
  "d_view x = (q_stat (d_pipe x), q_last_processed (d_pipe x), q_in_len (d_pipe x), q_out_len (d_pipe x))"

definition small_buffers :: "bytes \<Rightarrow> nat \<Rightarrow> Pipe" where
  "small_buffers d n = (two_buffers d n)\<lparr>pmem := (\<lambda>b. case b of BSrc \<Rightarrow> d | BDest \<Rightarrow> replicate n 0 | BPool k \<Rightarrow> replicate 8 0)\<rparr>"

text \<open>(data error drops members) When the source ends in a broken member, the error of its header makes
  the collecting thread drop the good members that are still in flight: the same call returns
  QZ_DATA_ERROR with both members decompressed or with none, depending only on whether the
  collecting thread ran before the submitting thread looked at the third header.\<close>

theorem data_error_drops_members:
  "map_option d_view (decomp_run (four_job\<lparr>j_src_sz := 20, j_dest_sz := 12\<rparr>) store_hw no_sw
     (two_sent @ [DCollect, DCollect, DCheck, DCollect])
     (d_call_start (four_job\<lparr>j_src_sz := 20, j_dest_sz := 12\<rparr>) four_sess False (small_buffers cut_members 12) ())) =
   Some (QZ_DATA_ERROR, True, 16, 8) \<and>
   map_option d_view (decomp_run (four_job\<lparr>j_src_sz := 20, j_dest_sz := 12\<rparr>) store_hw no_sw
     (two_sent @ [DCheck, DCollect])
     (d_call_start (four_job\<lparr>j_src_sz := 20, j_dest_sz := 12\<rparr>) four_sess False (small_buffers cut_members 12) ())) =
   Some (QZ_DATA_ERROR, True, 0, 0)"
  by (rule conjI; code_simp)

text \<open>(short members in zero copy) The four-byte format does not say how long a member becomes, so the
  next member's place in the destination is guessed from the block size. In zero copy a member that
  becomes shorter leaves a gap: the call returns QZ_OK and reports four bytes, but the third and
  fourth were never written and the second member's bytes are behind the reported output.\<close>

theorem short_members_leave_gap:
  "map_option (\<lambda>x. (d_view x, take 6 (pmem (d_pipe x) BDest)))
    (decomp_run (four_job\<lparr>j_src_sz := 12, need_cont_mem := False\<rparr>) store_hw no_sw (two_sent @ [DCollect, DCollect])
     (d_call_start (four_job\<lparr>j_src_sz := 12, need_cont_mem := False\<rparr>) four_sess False
       (small_buffers [2, 0, 0, 0, 1, 2, 2, 0, 0, 0, 3, 4] 8) ())) =
   Some ((QZ_OK, True, 12, 4), [1, 2, 0, 0, 3, 4])"
  by code_simp

end
