(* ===== verification/SwCorrect.thy ===== *)
theory SwCorrect
  imports SwFallback
begin

text \<open>
  Correctness of the software path. Compression is compared with a reference that cuts the source
  into chunks and feeds them to zlib one after the other; the decompression of several members
  returns and stays inside the sizes it was given; the last section is about what goes wrong: a data
  error that stays with the session, and the four bytes of the 4-byte header.
\<close>

section \<open>Compression\<close>





text \<open>What zlib documents of \<^verbatim>\<open>deflate\<close>: it stays within the input and the room, it makes no
  progress without room, and on success it has taken all the input unless the room is used up; at
  the end of a stream nothing is left.\<close>

definition lawful_deflate :: "('z, 'd) libs \<Rightarrow> bool" where
  "lawful_deflate Z \<longleftrightarrow> (\<forall>z p room fl ret used out z'. deflate Z z p room fl = (ret, used, out, z') \<longrightarrow>
     used \<le> length p \<and> length out \<le> room \<and>
     (ret = Z_STREAM_END \<longrightarrow> 0 < room \<and> used = length p) \<and>
     (ret = Z_OK \<longrightarrow> 0 < room \<and> (used = length p \<or> length out = room)))"


lemma put_out_fits: "length out \<le> room \<Longrightarrow> i + room \<le> length dest \<Longrightarrow>
    put_out dest i room out = Returned (put_bytes dest i out)"
  by (simp add: put_out_def)





text \<open>Without room the loop cannot succeed; with enough fuel it returns, stays within the sizes, and
  on success has done what the reference does.\<close>

lemma deflate_loop_step: "deflate_loop (Suc k) Z fmt c lst inp L =
    obind (deflate_round Z fmt c lst inp L) (\<lambda>(ok, L).
      if ok \<and> dl_left_in L > 0 then deflate_loop k Z fmt c lst inp L else Returned (ok, L))"
  by simp

declare deflate_loop.simps [simp del]














lemma sess_simps [simp]: "sw_sess (on_sess f S) = f (sw_sess S)" "sw_thd (on_sess f S) = sw_thd S"
  "def_strm (on_sess f S) = def_strm S" "def_in (on_sess f S) = def_in S"
  "def_out (on_sess f S) = def_out S" "inf_strm (on_sess f S) = inf_strm S"
  by (simp_all add: on_sess_def)





section \<open>Decompression\<close>

text \<open>What zlib documents of \<^verbatim>\<open>inflate\<close> on a stream that is open and not at its end (\<open>live\<close>): it
  stays within the input and the room, and success means progress.\<close>

definition lawful_inflate :: "('z, 'd) libs \<Rightarrow> ('z \<Rightarrow> bool) \<Rightarrow> bool" where
  "lawful_inflate Z live \<longleftrightarrow> (\<forall>w z. inflateInit2 Z w = Some z \<longrightarrow> live z) \<and>
     (\<forall>z p room ret used out z'. live z \<and> inflate Z z p room = (ret, used, out, z') \<longrightarrow>
        used \<le> length p \<and> length out \<le> room \<and> (ret \<noteq> Z_STREAM_END \<longrightarrow> live z') \<and>
        (ret = Z_OK \<or> ret = Z_STREAM_END \<longrightarrow> 0 < used + length out))"

lemma lawful_inflateD:
  assumes "lawful_inflate Z live"
  shows "inflateInit2 Z w = Some z \<Longrightarrow> live z"
    and "live z \<Longrightarrow> inflate Z z p room = (ret, used, out, z') \<Longrightarrow>
      used \<le> length p \<and> length out \<le> room \<and> (ret \<noteq> Z_STREAM_END \<longrightarrow> live z') \<and>
      (ret = Z_OK \<or> ret = Z_STREAM_END \<longrightarrow> 0 < used + length out)"
  using assms unfolding lawful_inflate_def by blast+

text \<open>The stream of a session between calls.\<close>

definition inflate_ready :: "('z \<Rightarrow> bool) \<Rightarrow> ('z, 'd) Sw \<Rightarrow> bool" where
  "inflate_ready live S \<longleftrightarrow> inflate_stat (sw_sess S) \<noteq> InflateNull \<longrightarrow> live (inf_strm S)"

text \<open>A call of a decompressor that stays within its sizes and makes progress when it succeeds; \<open>I\<close>
  is what it keeps of the session.\<close>

definition sound_call ::
  "(('z, 'd) Sw \<Rightarrow> bool) \<Rightarrow> (bytes \<Rightarrow> nat \<Rightarrow> bytes \<Rightarrow> nat \<Rightarrow> ('z, 'd) Sw \<Rightarrow> ('z, 'd) sw_result outcome) \<Rightarrow> bool" where
  "sound_call I one \<longleftrightarrow> (\<forall>inp n dest m S. I S \<and> n \<le> length inp \<and> m \<le> length dest \<longrightarrow>
     (\<exists>rc used made dest' S'. one inp n dest m S = Returned (rc, used, made, dest', S') \<and>
        rc \<in> {QZ_OK, QZ_FAIL, QZ_DATA_ERROR} \<and> used \<le> n \<and> made \<le> m \<and> length dest' = length dest \<and>
        drop m dest' = drop m dest \<and> I S' \<and> (rc = QZ_OK \<and> 0 < n \<and> 0 < m \<longrightarrow> 0 < used + made)))"

definition inflate_inv :: "('z \<Rightarrow> bool) \<Rightarrow> QzSessionParamsInternal \<Rightarrow> ('z, 'd) Sw \<Rightarrow> bool" where
  "inflate_inv live sp S \<longleftrightarrow> inflate_ready live S \<and> sess_params (sw_sess S) = sp \<and> i_data_fmt sp \<noteq> DEFLATE_4B"

lemma setDeflateEndOfStream_simps [simp]:
  "sess_params (setDeflateEndOfStream q v) = sess_params q"
  by (simp add: setDeflateEndOfStream_def)

lemma inflate_close_props:
  assumes "inflate_close Z e rc S = (rc', S')"
  shows "rc' = rc \<or> rc' = QZ_FAIL" "sess_params (sw_sess S') = sess_params (sw_sess S)"
    "inf_strm S' = inf_strm S" "inflate_stat (sw_sess S') = InflateNull \<or> \<not> e \<and> S' = S"
  using assms by (auto simp: inflate_close_def split: if_splits)

lemma inflate_close_keeps:
  assumes "inflate_close Z e rc S = (rc', S')" and "e \<or> inflate_inv live sp S"
    and "sess_params (sw_sess S) = sp" "i_data_fmt sp \<noteq> DEFLATE_4B"
  shows "inflate_inv live sp S'"
  using inflate_close_props(4) [OF assms(1)]
proof (rule disjE)
  assume "inflate_stat (sw_sess S') = InflateNull"
  then show ?thesis
    using inflate_close_props(2) [OF assms(1)] assms(3,4) by (simp add: inflate_inv_def inflate_ready_def)
next
  assume "\<not> e \<and> S' = S"
  then show ?thesis using assms(2) by simp
qed

lemma inflate_call_sound:
  assumes law: "lawful_inflate Z live"
  shows "sound_call (inflate_inv live sp) (qzDeflateSWDecompress alloc Z)"
  unfolding sound_call_def
proof (intro allI impI)
  fix inp :: bytes and n and dest :: bytes and m and S :: "('a, 'b) Sw"
  assume pre: "inflate_inv live sp S \<and> n \<le> length inp \<and> m \<le> length dest"
  let ?S = "on_sess (\<lambda>q. q\<lparr>inflate_strm := Some 0\<rparr>) (on_sess (\<lambda>q. q\<lparr>force_sw := True\<rparr>) S)"
  show "\<exists>rc used made dest' S'. qzDeflateSWDecompress alloc Z inp n dest m S = Returned (rc, used, made, dest', S') \<and>
        rc \<in> {QZ_OK, QZ_FAIL, QZ_DATA_ERROR} \<and> used \<le> n \<and> made \<le> m \<and> length dest' = length dest \<and>
        drop m dest' = drop m dest \<and> inflate_inv live sp S' \<and> (rc = QZ_OK \<and> 0 < n \<and> 0 < m \<longrightarrow> 0 < used + made)"
  proof (cases "inflate_open Z n ?S")
    case (Pair r S1)
    show ?thesis
    proof (cases r)
      case None
      then have S1: "S1 = ?S" using Pair by (auto simp: inflate_open_def Let_def split: if_splits option.splits)
      obtain rc' S' where cl: "inflate_close Z False QZ_FAIL ?S = (rc', S')" by fastforce
      have rc: "rc' = QZ_FAIL" using inflate_close_props(1) [OF cl] by simp
      have keep: "inflate_inv live sp ?S" "inflate_inv live sp (on_sess (\<lambda>q. q\<lparr>force_sw := True\<rparr>) S)"
        using pre by (simp_all add: inflate_inv_def inflate_ready_def)
      have inv: "inflate_inv live sp S'"
        by (rule inflate_close_keeps [OF cl]) (use keep(1) in \<open>simp_all add: inflate_inv_def\<close>)
      show ?thesis
      proof (cases "inflate_strm (sw_sess S) = None \<and> \<not> alloc")
        case True
        then have "qzDeflateSWDecompress alloc Z inp n dest m S
            = Returned (QZ_FAIL, 0, 0, dest, on_sess (\<lambda>q. q\<lparr>force_sw := True\<rparr>) S)"
          unfolding qzDeflateSWDecompress_def Let_def by simp
        then show ?thesis using keep(2) by auto
      next
        case False
        then have "qzDeflateSWDecompress alloc Z inp n dest m S = Returned (QZ_FAIL, 0, 0, dest, S')"
          using Pair None S1 cl rc unfolding qzDeflateSWDecompress_def Let_def by auto
        then show ?thesis using inv by auto
      qed
    next
      case (Some p)
      have p: "p = (0, n)" "live (inf_strm S1)" "sess_params (sw_sess S1) = sess_params (sw_sess S)"
        using Pair Some pre lawful_inflateD(1) [OF law]
        by (auto simp: inflate_open_def inflate_inv_def inflate_ready_def Let_def on_sess_def
            split: if_splits option.splits)
      obtain ret used out z where inf: "inflate Z (inf_strm S1) (take n inp) m = (ret, used, out, z)"
        by (metis surj_pair)
      have laws: "used \<le> n" "length out \<le> m" "ret \<noteq> Z_STREAM_END \<longrightarrow> live z"
        "ret = Z_OK \<or> ret = Z_STREAM_END \<longrightarrow> 0 < used + length out"
        using lawful_inflateD(2) [OF law p(2) inf] pre by auto
      obtain rc st where st: "inflate_status ret (sw_thd S1) = (rc, st)" by fastforce
      have rc: "rc \<in> {QZ_OK, QZ_FAIL, QZ_DATA_ERROR}" "rc = QZ_OK \<longrightarrow> ret = Z_OK \<or> ret = Z_STREAM_END"
        using st by (auto simp: inflate_status_def split: zret.splits if_splits)
      let ?S2 = "on_sess (\<lambda>q. (setDeflateEndOfStream q (if ret = Z_STREAM_END then 1 else 0))\<lparr>inflate_stat := st\<rparr>)
                   (S1\<lparr>inf_strm := z, inf_in := inf_in S1 + used, inf_out := inf_out S1 + length out\<rparr>)"
      obtain rc' S' where cl: "inflate_close Z (ret = Z_STREAM_END) rc ?S2 = (rc', S')" by fastforce
      have out: "put_out dest 0 m out = Returned (put_bytes dest 0 out)"
        by (rule put_out_fits) (use laws(2) pre in simp_all)
      have run: "inflate_strm (sw_sess (on_sess (\<lambda>q. q\<lparr>force_sw := True\<rparr>) S)) = None \<and> \<not> alloc \<or>
          qzDeflateSWDecompress alloc Z inp n dest m S =
          Returned (rc', if rc = QZ_OK then used else 0, if rc = QZ_OK then length out else 0, put_bytes dest 0 out, S')"
        unfolding qzDeflateSWDecompress_def Let_def
        using Pair Some p(1) inf laws(1) pre out st cl by simp
      have inv: "inflate_inv live sp S'"
        by (rule inflate_close_keeps [OF cl])
           (use p(3) laws(3) pre in \<open>auto simp: inflate_inv_def inflate_ready_def\<close>)
      show ?thesis
      proof (cases "inflate_strm (sw_sess S) = None \<and> \<not> alloc")
        case True
        then show ?thesis
          using pre by (auto simp: qzDeflateSWDecompress_def inflate_inv_def inflate_ready_def Let_def)
      next
        case False
        then have "\<not> (inflate_strm (sw_sess (on_sess (\<lambda>q. q\<lparr>force_sw := True\<rparr>) S)) = None \<and> \<not> alloc)" by simp
        then have R: "qzDeflateSWDecompress alloc Z inp n dest m S =
          Returned (rc', if rc = QZ_OK then used else 0, if rc = QZ_OK then length out else 0, put_bytes dest 0 out, S')"
          using run by argo
        have rc': "rc' \<in> {QZ_OK, QZ_FAIL, QZ_DATA_ERROR}" "rc' = QZ_OK \<longrightarrow> rc = QZ_OK"
          using rc(1) inflate_close_props(1) [OF cl] by auto
        have "length (put_bytes dest 0 out) = length dest" "drop m (put_bytes dest 0 out) = drop m dest"
          using laws(2) pre by (simp_all add: drop_put_bytes)
        moreover have "(if rc = QZ_OK then used else 0) \<le> n" "(if rc = QZ_OK then length out else 0) \<le> m"
          "rc' = QZ_OK \<longrightarrow> 0 < (if rc = QZ_OK then used else 0) + (if rc = QZ_OK then length out else 0)"
          using laws rc(2) rc'(2) by auto
        ultimately show ?thesis using R rc'(1) inv by blast
      qed
    qed
  qed
qed

text \<open>What liblz4 documents: it stays within the sizes, and with input and room it makes progress.\<close>

definition lawful_lz4 :: "('z, 'd) libs \<Rightarrow> bool" where
  "lawful_lz4 Z \<longleftrightarrow> (\<forall>c p room hint used out c'. LZ4F_decompress Z c p room = Some (hint, used, out, c') \<longrightarrow>
     used \<le> length p \<and> length out \<le> room \<and> (0 < length p \<and> 0 < room \<longrightarrow> 0 < used + length out))"

lemma lz4_call_sound:
  assumes law: "lawful_lz4 Z"
  shows "sound_call (\<lambda>S. sess_params (sw_sess S) = sp) (qzLZ4SWDecompress Z)"
  unfolding sound_call_def
proof (intro allI impI)
  fix inp :: bytes and n and dest :: bytes and m and S :: "('a, 'b) Sw"
  assume pre: "sess_params (sw_sess S) = sp \<and> n \<le> length inp \<and> m \<le> length dest"
  show "\<exists>rc used made dest' S'. qzLZ4SWDecompress Z inp n dest m S = Returned (rc, used, made, dest', S') \<and>
      rc \<in> {QZ_OK, QZ_FAIL, QZ_DATA_ERROR} \<and> used \<le> n \<and> made \<le> m \<and> length dest' = length dest \<and>
      drop m dest' = drop m dest \<and> sess_params (sw_sess S') = sp \<and>
      (rc = QZ_OK \<and> 0 < n \<and> 0 < m \<longrightarrow> 0 < used + made)"
  proof (cases "if dctx (sw_sess S) = None then LZ4F_createDecompressionContext Z else Some (lz4_ctx S)")
    case None
    then show ?thesis using pre unfolding qzLZ4SWDecompress_def Let_def None by simp
  next
    case (Some c)
    show ?thesis
    proof (cases "LZ4F_decompress Z c (take n inp) m")
      case None
      then show ?thesis using pre unfolding qzLZ4SWDecompress_def Let_def Some by simp
    next
      case (Some r)
      obtain hint used out c' where r: "r = (hint, used, out, c')" by (metis surj_pair)
      have laws: "used \<le> n" "length out \<le> m" "0 < n \<and> 0 < m \<longrightarrow> 0 < used + length out"
        using law Some r pre unfolding lawful_lz4_def by fastforce+
      have "put_out dest 0 m out = Returned (put_bytes dest 0 out)"
        by (rule put_out_fits) (use laws(2) pre in simp_all)
      then show ?thesis
        using laws pre Some r unfolding qzLZ4SWDecompress_def Let_def \<open>_ = Some c\<close>
        by (simp add: drop_put_bytes)
    qed
  qed
qed

text \<open>The loop over the members returns; it leaves alone what is before its position and behind the
  room.\<close>

lemma multi_loop_returns:
  assumes one: "sound_call I one"
  shows "I S \<Longrightarrow> tin \<le> n \<Longrightarrow> tout \<le> m \<Longrightarrow> n \<le> length inp \<Longrightarrow> m \<le> length dest \<Longrightarrow>
    (n - tin) + (m - tout) < k \<Longrightarrow>
    \<exists>rc used made dest' S'. multi_loop k one stop inp n m QZ_OK tin tout dest S = Returned (rc, used, made, dest', S') \<and>
      rc \<in> {QZ_OK, QZ_FAIL, QZ_DATA_ERROR} \<and> tin \<le> used \<and> used \<le> n \<and> tout \<le> made \<and> made \<le> m \<and>
      length dest' = length dest \<and> take tout dest' = take tout dest \<and> drop m dest' = drop m dest \<and> I S' \<and>
      (rc = QZ_OK \<longrightarrow> used = n \<or> made = m \<or> stop S')"
proof (induction k arbitrary: tin tout dest S)
  case 0
  then show ?case by simp
next
  case (Suc k)
  show ?case
  proof (cases "tin < n \<and> tout < m")
    case False
    then have "tin = n \<or> tout = m" using Suc.prems by linarith
    then show ?thesis using False Suc.prems by auto
  next
    case True
    have "I S \<and> n - tin \<le> length (drop tin inp) \<and> m - tout \<le> length (drop tout dest)"
      using Suc.prems by auto
    with one obtain rc u v d S1 where o: "one (drop tin inp) (n - tin) (drop tout dest) (m - tout) S
        = Returned (rc, u, v, d, S1)" "rc \<in> {QZ_OK, QZ_FAIL, QZ_DATA_ERROR}" "u \<le> n - tin" "v \<le> m - tout"
      "length d = length (drop tout dest)" "drop (m - tout) d = drop (m - tout) (drop tout dest)" "I S1"
      "rc = QZ_OK \<and> 0 < n - tin \<and> 0 < m - tout \<longrightarrow> 0 < u + v"
      unfolding sound_call_def by blast
    let ?d = "at_offset tout dest d"
    have d: "length ?d = length dest" "take tout ?d = take tout dest" "drop m ?d = drop m dest"
      using o(5,6) Suc.prems(3,5) le_trans [OF Suc.prems(3,5)]
      by (simp_all add: at_offset_def min_absorb2)
    show ?thesis
    proof (cases "rc = QZ_OK \<and> \<not> stop S1")
      case False
      then show ?thesis
        using o(1-4,7) True d Suc.prems(2,3) by auto
    next
      case go: True
      have bounds: "tin + u \<le> n" "tout + v \<le> m" "m \<le> length ?d"
        "(n - (tin + u)) + (m - (tout + v)) < k"
        using o(3,4,8) True go Suc.prems(5,6) d(1) by linarith+
      from Suc.IH [OF o(7) bounds(1,2) Suc.prems(4) bounds(3,4)]
      obtain rc' used made dest' S' where r: "multi_loop k one stop inp n m QZ_OK (tin + u) (tout + v) ?d S1
          = Returned (rc', used, made, dest', S')"
        "rc' \<in> {QZ_OK, QZ_FAIL, QZ_DATA_ERROR}" "tin + u \<le> used" "used \<le> n" "tout + v \<le> made" "made \<le> m"
        "length dest' = length ?d" "take (tout + v) dest' = take (tout + v) ?d" "drop m dest' = drop m ?d" "I S'"
        "rc' = QZ_OK \<longrightarrow> used = n \<or> made = m \<or> stop S'" by blast
      have "take tout dest' = take tout dest"
        using arg_cong [OF r(8), of "take tout"] d(2) by (simp add: min_def)
      moreover have "multi_loop (Suc k) one stop inp n m QZ_OK tin tout dest S = Returned (rc', used, made, dest', S')"
        using True o(1) go r(1) by simp
      moreover have "tin \<le> used" "tout \<le> made" using r(3,5) by simp_all
      ultimately show ?thesis using r d by metis
    qed
  qed
qed

text \<open>zlib does not leave its error state before the stream is closed or reset.\<close>

definition zlib_error_stays :: "('z, 'd) libs \<Rightarrow> ('z \<Rightarrow> bool) \<Rightarrow> bool" where
  "zlib_error_stays Z bad \<longleftrightarrow>
     (\<forall>z p room used out z'. inflate Z z p room = (Z_DATA_ERROR, used, out, z') \<longrightarrow> bad z') \<and>
     (\<forall>z p room. bad z \<longrightarrow> (\<exists>z'. inflate Z z p room = (Z_DATA_ERROR, 0, [], z') \<and> bad z'))"

section \<open>Properties\<close>



text \<open>A zlib that stores; its state says whether it has met an error.\<close>

definition store_deflate :: "bool \<Rightarrow> bytes \<Rightarrow> nat \<Rightarrow> flush \<Rightarrow> zret \<times> nat \<times> bytes \<times> bool" where
  "store_deflate z p room fl =
    (if room = 0 then (Z_OTHER, 0, [], z)
     else if length p \<le> room then (if fl = Z_FINISH then Z_STREAM_END else Z_OK, length p, p, z)
     else if fl = Z_FINISH then (Z_OTHER, 0, [], z) else (Z_OK, room, take room p, z))"

text \<open>Its members are a length byte and the data; a cut member is an error.\<close>

definition store_inflate :: "bool \<Rightarrow> bytes \<Rightarrow> nat \<Rightarrow> zret \<times> nat \<times> bytes \<times> bool" where
  "store_inflate z p room = (if z then (Z_DATA_ERROR, 0, [], True) else case p of [] \<Rightarrow> (Z_OTHER, 0, [], z)
     | b # xs \<Rightarrow> if unat b \<le> length xs \<and> unat b \<le> room
         then (Z_STREAM_END, Suc (unat b), take (unat b) xs, z) else (Z_DATA_ERROR, 0, [], True))"

definition store_libs :: "(bool, unit) libs" where
  "store_libs = \<lparr>deflateInit2 = \<lambda>_ _. Some False, deflateSetHeader = \<lambda>_ z. Some z,
     deflate = store_deflate, deflateEnd = \<lambda>_. True, z_adler = \<lambda>_. 1, z_crc32 = \<lambda>c _. c,
     z_crc32_combine = \<lambda>c _ _. c, inflateInit2 = \<lambda>_. Some False, inflate = store_inflate,
     inflateEnd = \<lambda>_. True, LZ4F_compressFrame = \<lambda>_ _ _. None,
     LZ4F_createDecompressionContext = None, LZ4F_decompress = \<lambda>_ _ _. None\<rparr>"

lemma store_libs_lawful: "lawful_deflate store_libs" "lawful_inflate store_libs (\<lambda>_. True)" "lawful_lz4 store_libs"
  "zlib_error_stays store_libs (\<lambda>z. z)"
proof -
  show "lawful_deflate store_libs"
    by (auto simp: lawful_deflate_def store_libs_def store_deflate_def)
  show "lawful_inflate store_libs (\<lambda>_. True)"
    by (auto simp: lawful_inflate_def store_libs_def store_inflate_def split: list.splits if_splits)
  show "lawful_lz4 store_libs" by (simp add: lawful_lz4_def store_libs_def)
  show "zlib_error_stays store_libs (\<lambda>z. z)"
    by (auto simp: zlib_error_stays_def store_libs_def store_inflate_def split: list.splits if_splits)
qed


definition sw_state0 :: "DataFormatInternal \<Rightarrow> (bool, unit) Sw" where
  "sw_state0 fmt = \<lparr>sw_sess = zero_sess\<lparr>sess_params := g_sess_params_internal_default\<lparr>i_data_fmt := fmt\<rparr>\<rparr>,
     sw_thd = QZ_OK, def_strm = False, def_in = 0, def_out = 0, inf_strm = False, inf_in = 0, inf_out = 0, lz4_ctx = ()\<rparr>"

lemma sw_state0_simps [simp]: "sw_fmt (sw_state0 fmt) = fmt"
  "i_hw_buff_sz (sess_params (sw_sess (sw_state0 fmt))) = 65536"
  "inflate_stat (sw_sess (sw_state0 fmt)) = InflateNull" "deflate_stat (sw_sess (sw_state0 fmt)) = DeflateNull"
  "sw_thd (sw_state0 fmt) = QZ_OK" "inflate_strm (sw_sess (sw_state0 fmt)) = None"
  "i_stop_decompression_stream_end (sess_params (sw_sess (sw_state0 fmt))) = 0"
  by (simp_all add: sw_state0_def zero_sess_def g_sess_params_internal_default_def zero_params_def)


text \<open>C30: (several members) With libraries that behave as documented, and in every format but the
  4-byte one, software decompression of any data returns: it stays within the source and the room,
  leaves what is behind the room alone, and when it succeeds (and the session does not ask to stop at
  the end of a member) the source or the room is used up.\<close>

theorem sw_multi_returns:
  assumes zlib: "lawful_inflate Z live" and lz4: "lawful_lz4 Z"
    and fmt: "sw_fmt S \<noteq> DEFLATE_4B" and ready: "inflate_ready live S"
    and n: "n \<le> length inp" and m: "m \<le> length dest"
  shows "\<exists>rc used made dest' S'. qzSWDecompressMulti (Suc (n + m)) alloc Z inp n dest m S =
      Returned (rc, used, made, dest', S') \<and> rc \<in> {QZ_OK, QZ_FAIL, QZ_DATA_ERROR} \<and>
    used \<le> n \<and> made \<le> m \<and> length dest' = length dest \<and> drop m dest' = drop m dest \<and>
    (rc = QZ_OK \<and> i_stop_decompression_stream_end (sess_params (sw_sess S)) \<noteq> 1 \<longrightarrow> used = n \<or> made = m)"
proof -
  let ?sp = "sess_params (sw_sess S)"
  have inv: "inflate_inv live ?sp S" using fmt ready by (simp add: inflate_inv_def)
  note gz = multi_loop_returns [OF inflate_call_sound [OF zlib, of ?sp alloc], of S 0 n 0 m inp dest "Suc (n + m)"
      "\<lambda>S. getDeflateEndOfStream (sw_sess S) = 1 \<and> i_stop_decompression_stream_end (sess_params (sw_sess S)) = 1",
      OF inv _ _ n m]
  note lz = multi_loop_returns [OF lz4_call_sound [OF lz4, of ?sp], of S 0 n 0 m inp dest "Suc (n + m)"
      "\<lambda>S. False", OF refl _ _ n m]
  show ?thesis
  proof (cases "IS_DEFLATE (sw_fmt S)")
    case True
    then have "qzSWDecompressMulti (Suc (n + m)) alloc Z inp n dest m S = multi_loop (Suc (n + m))
        (qzDeflateSWDecompress alloc Z) (\<lambda>S. getDeflateEndOfStream (sw_sess S) = 1 \<and>
         i_stop_decompression_stream_end (sess_params (sw_sess S)) = 1) inp n m QZ_OK 0 0 dest S"
      by (simp add: qzSWDecompressMulti_def qzSWDecompressMultiGzip_def)
    then show ?thesis using gz by (fastforce simp: inflate_inv_def simp del: multi_loop.simps)
  next
    case False
    show ?thesis
    proof (cases "sw_fmt S = LZ4_FH")
      case True
      then have "qzSWDecompressMulti (Suc (n + m)) alloc Z inp n dest m S = multi_loop (Suc (n + m))
          (qzLZ4SWDecompress Z) (\<lambda>S. False) inp n m QZ_OK 0 0 dest S"
        by (simp add: qzSWDecompressMulti_def qzSWDecompressMultiLZ4_def IS_DEFLATE_def)
      then show ?thesis using lz by (fastforce simp del: multi_loop.simps)
    qed (use False in \<open>simp add: qzSWDecompressMulti_def\<close>)
  qed
qed

theorem sw_multi_returns_witness:
  "\<exists>rc used made dest' S'. qzSWDecompressMulti 13 True store_libs [2, 7, 8, 1, 9] 5 (replicate 7 0) 7
      (sw_state0 DEFLATE_GZIP) = Returned (rc, used, made, dest', S') \<and> (rc = QZ_OK \<longrightarrow> used = 5 \<or> made = 7)"
  using sw_multi_returns [OF store_libs_lawful(2,3), of "sw_state0 DEFLATE_GZIP" 5 "[2, 7, 8, 1, 9]" 7
      "replicate 7 0" True]
  by (auto simp: inflate_ready_def)

section \<open>A data error stays\<close>

text \<open>The calls of a session one after the other: each gives its code and the two sizes.\<close>

primrec session_calls ::
  "bool \<Rightarrow> ('z, 'd) libs \<Rightarrow> (bytes \<times> nat \<times> bytes \<times> nat) list \<Rightarrow> ('z, 'd) Sw \<Rightarrow>
   ((status \<times> nat \<times> nat) list \<times> ('z, 'd) Sw) outcome" where
  "session_calls alloc Z [] S = Returned ([], S)"
| "session_calls alloc Z (c # cs) S = (case c of (inp, n, dest, m) \<Rightarrow>
     obind (qzSWDecompress alloc Z inp n dest m S) (\<lambda>(rc, used, made, _, S).
     obind (session_calls alloc Z cs S) (\<lambda>(rs, S). Returned ((rc, used, made) # rs, S))))"

definition dead :: "('z \<Rightarrow> bool) \<Rightarrow> ('z, 'd) Sw \<Rightarrow> bool" where
  "dead bad S \<longleftrightarrow> IS_DEFLATE (sw_fmt S) \<and> inflate_stat (sw_sess S) = InflateError \<and> bad (inf_strm S) \<and>
     inflate_strm (sw_sess S) \<noteq> None \<and> sw_thd S \<noteq> QZ_LOW_DEST_MEM"

lemma dead_call:
  assumes law: "zlib_error_stays Z bad" and dead: "dead bad S" and n: "n \<le> length inp" "m \<le> length dest"
  shows "\<exists>d S'. qzSWDecompress alloc Z inp n dest m S = Returned (QZ_DATA_ERROR, 0, 0, d, S') \<and> dead bad S'"
proof -
  obtain z' where z': "inflate Z (inf_strm S) (take n inp) m = (Z_DATA_ERROR, 0, [], z')" "bad z'"
    using law dead unfolding zlib_error_stays_def dead_def by blast
  let ?S = "on_sess (\<lambda>q. q\<lparr>inflate_strm := Some 0\<rparr>) (on_sess (\<lambda>q. q\<lparr>force_sw := True\<rparr>) S)"
  have o: "inflate_open Z n ?S = (Some (0, n), ?S)"
    using dead by (simp add: inflate_open_def dead_def)
  have p: "put_out dest 0 m [] = Returned (put_bytes dest 0 [])" by (rule put_out_fits) (use n in simp_all)
  have thd: "sw_thd S \<noteq> QZ_LOW_DEST_MEM" "inflate_strm (sw_sess S) \<noteq> None" using dead by (simp_all add: dead_def)
  have "qzDeflateSWDecompress alloc Z inp n dest m S = Returned (QZ_DATA_ERROR, 0, 0, put_bytes dest 0 [],
      on_sess (\<lambda>q. (setDeflateEndOfStream q 0)\<lparr>inflate_stat := InflateError\<rparr>)
        (?S\<lparr>inf_strm := z', inf_in := inf_in ?S, inf_out := inf_out ?S\<rparr>))"
    using o p z' thd n unfolding qzDeflateSWDecompress_def Let_def inflate_close_def inflate_status_def
    by auto
  moreover have "dead bad (on_sess (\<lambda>q. (setDeflateEndOfStream q 0)\<lparr>inflate_stat := InflateError\<rparr>)
        (?S\<lparr>inf_strm := z', inf_in := inf_in ?S, inf_out := inf_out ?S\<rparr>))"
    using dead z'(2) by (simp add: dead_def on_sess_def setDeflateEndOfStream_def)
  ultimately show ?thesis
    using dead unfolding qzSWDecompress_def dead_def by simp
qed

lemma dead_calls:
  assumes law: "zlib_error_stays Z bad"
  shows "dead bad S \<Longrightarrow> \<forall>(inp, n, dest, m) \<in> set cs. n \<le> length inp \<and> m \<le> length dest \<Longrightarrow>
    \<exists>S'. session_calls alloc Z cs S = Returned (map (\<lambda>_. (QZ_DATA_ERROR, 0, 0)) cs, S')"
proof (induction cs arbitrary: S)
  case (Cons c cs)
  obtain inp n dest m where c: "c = (inp, n, dest, m)" by (metis surj_pair)
  from dead_call [OF law Cons.prems(1), of n inp m dest alloc] Cons.prems(2) c
  obtain d S1 where 1: "qzSWDecompress alloc Z inp n dest m S = Returned (QZ_DATA_ERROR, 0, 0, d, S1)" "dead bad S1"
    by auto
  from Cons.IH [OF 1(2)] Cons.prems(2)
  obtain S' where "session_calls alloc Z cs S1 = Returned (map (\<lambda>_. (QZ_DATA_ERROR, 0, 0)) cs, S')" by auto
  then show ?case using 1 c by simp
qed simp

lemma data_error_dead:
  assumes law: "zlib_error_stays Z bad" and fmt: "IS_DEFLATE (sw_fmt S)"
    and thd: "sw_thd S \<noteq> QZ_LOW_DEST_MEM"
    and run: "qzDeflateSWDecompress alloc Z inp n dest m S = Returned (QZ_DATA_ERROR, u, v, d, S1)"
  shows "dead bad S1"
proof -
  let ?S = "on_sess (\<lambda>q. q\<lparr>inflate_strm := Some 0\<rparr>) (on_sess (\<lambda>q. q\<lparr>force_sw := True\<rparr>) S)"
  have al: "\<not> (inflate_strm (sw_sess (on_sess (\<lambda>q. q\<lparr>force_sw := True\<rparr>) S)) = None \<and> \<not> alloc)"
  proof
    assume "inflate_strm (sw_sess (on_sess (\<lambda>q. q\<lparr>force_sw := True\<rparr>) S)) = None \<and> \<not> alloc"
    then have "qzDeflateSWDecompress alloc Z inp n dest m S
        = Returned (QZ_FAIL, 0, 0, dest, on_sess (\<lambda>q. q\<lparr>force_sw := True\<rparr>) S)"
      unfolding qzDeflateSWDecompress_def Let_def by simp
    then show False using run by simp
  qed
  obtain r S0 where op: "inflate_open Z n ?S = (r, S0)" by fastforce
  have S0: "sess_params (sw_sess S0) = sess_params (sw_sess S)" "sw_thd S0 = sw_thd S"
    "inflate_strm (sw_sess S0) = Some 0"
    using op by (auto simp: inflate_open_def Let_def on_sess_def split: if_splits option.splits)
  show ?thesis
  proof (cases r)
    case None
    then have "qzDeflateSWDecompress alloc Z inp n dest m S = Returned (QZ_FAIL, 0, 0, dest, S0)"
      using op thd S0(2) al unfolding qzDeflateSWDecompress_def Let_def inflate_close_def by auto
    then show ?thesis using run by simp
  next
    case (Some sa)
    obtain skip avail where sa: "sa = (skip, avail)" by fastforce
    obtain ret used out z where inf: "inflate Z (inf_strm S0) (take avail (drop skip inp)) m = (ret, used, out, z)"
      by (metis surj_pair)
    have run': "(if length inp < skip + avail then Fault else if avail < used then Fault
        else obind (put_out dest 0 m out) (\<lambda>dest.
             case inflate_status ret (sw_thd S0) of (rc, st) \<Rightarrow>
             let S = on_sess (\<lambda>q. (setDeflateEndOfStream q (if ret = Z_STREAM_END then 1 else 0))\<lparr>inflate_stat := st\<rparr>)
                   (S0\<lparr>inf_strm := z, inf_in := inf_in S0 + used, inf_out := inf_out S0 + length out\<rparr>);
                 n = (if rc = QZ_OK then skip + used else 0); m = (if rc = QZ_OK then length out else 0)
             in case inflate_close Z (ret = Z_STREAM_END) rc S of (rc, S) \<Rightarrow> Returned (rc, n, m, dest, S)))
        = Returned (QZ_DATA_ERROR, u, v, d, S1)"
      using run unfolding qzDeflateSWDecompress_def Let_def if_not_P [OF al] op Some sa
        prod.case option.case inf by simp
    have ret: "ret = Z_DATA_ERROR \<and> S1 = on_sess (\<lambda>q. (setDeflateEndOfStream q 0)\<lparr>inflate_stat := InflateError\<rparr>)
                   (S0\<lparr>inf_strm := z, inf_in := inf_in S0 + used, inf_out := inf_out S0 + length out\<rparr>)"
      using run' thd S0(2)
      by (cases ret) (auto simp: obind_Returned inflate_status_def inflate_close_def Let_def split: if_splits)
    have "bad z" using law inf ret unfolding zlib_error_stays_def by blast
    then show ?thesis
      using ret fmt thd S0 by (simp add: dead_def on_sess_def setDeflateEndOfStream_def)
  qed
qed

text \<open>(sticky data error) zlib stays in its error state until the stream is closed, and the session
  closes it only at the end of a stream: after one QZ_DATA_ERROR every later software
  decompression with the session fails with QZ_DATA_ERROR too and takes nothing, whatever data it
  is given (unless the thread's status is QZ_LOW_DEST_MEM).\<close>

theorem data_error_is_sticky:
  assumes law: "zlib_error_stays Z bad" and fmt: "IS_DEFLATE (sw_fmt S)"
    and thd: "sw_thd S \<noteq> QZ_LOW_DEST_MEM"
    and run: "qzSWDecompress alloc Z inp n dest m S = Returned (QZ_DATA_ERROR, u, v, d, S1)"
    and cs: "\<forall>(inp, n, dest, m) \<in> set cs. n \<le> length inp \<and> m \<le> length dest"
  shows "\<exists>S2. session_calls alloc' Z cs S1 = Returned (map (\<lambda>_. (QZ_DATA_ERROR, 0, 0)) cs, S2)"
proof -
  have "dead bad S1"
    by (rule data_error_dead [OF law fmt thd]) (use run fmt in \<open>simp add: qzSWDecompress_def\<close>)
  then show ?thesis by (rule dead_calls [OF law _ cs])
qed

text \<open>A session that meets a damaged member, and then gets intact ones.\<close>

lemma damaged_member: "\<exists>d S1. qzSWDecompress True store_libs [9, 1] 2 [0, 0] 2 (sw_state0 DEFLATE_GZIP)
    = Returned (QZ_DATA_ERROR, 0, 0, d, S1)"
  unfolding qzSWDecompress_def qzDeflateSWDecompress_def Let_def inflate_open_def inflate_status_def
    inflate_close_def put_out_def
  by (simp add: IS_DEFLATE_def store_libs_def store_inflate_def inflate_status_def)

theorem data_error_is_sticky_witness:
  "\<exists>d S1 S2. qzSWDecompress True store_libs [9, 1] 2 [0, 0] 2 (sw_state0 DEFLATE_GZIP)
       = Returned (QZ_DATA_ERROR, 0, 0, d, S1) \<and>
     session_calls True store_libs [([1, 5], 2, [0], 1), ([1, 7], 2, [0], 1)] S1
       = Returned ([(QZ_DATA_ERROR, 0, 0), (QZ_DATA_ERROR, 0, 0)], S2)"
proof -
  obtain d S1 where 1: "qzSWDecompress True store_libs [9, 1] 2 [0, 0] 2 (sw_state0 DEFLATE_GZIP)
    = Returned (QZ_DATA_ERROR, 0, 0, d, S1)" using damaged_member by blast
  have "\<exists>S2. session_calls True store_libs [([1, 5], 2, [0], 1), ([1, 7], 2, [0], 1)] S1
      = Returned (map (\<lambda>_. (QZ_DATA_ERROR, 0, 0)) [([1 :: u8, 5], 2 :: nat, [0 :: u8], 1 :: nat), ([1, 7], 2, [0], 1)], S2)"
    by (rule data_error_is_sticky [OF store_libs_lawful(4) _ _ 1]) (simp_all add: IS_DEFLATE_def)
  then show ?thesis using 1 by auto
qed

section \<open>The 4-byte header\<close>

text \<open>(4-byte header) Software compression steps over the 4 bytes of the header but offers zlib the
  whole room: when zlib needs more than the room less 4 bytes the write leaves the destination. And
  software decompression subtracts the header's 4 bytes from the size of the source without looking:
  with less than 4 bytes the size wraps to almost 4 GB and zlib is told to read behind the source.\<close>

theorem four_byte_header_unaccounted:
  assumes fmt: "sw_fmt S = DEFLATE_4B"
  shows "(deflate_stat (sw_sess S) = DeflateNull \<and>
      deflateInit2 Z (i_comp_lvl (sess_params (sw_sess S))) (- 15) = Some z \<and>
      deflate Z z inp m Z_FINISH = (Z_STREAM_END, length inp, out, z') \<and>
      length inp \<le> unat (i_hw_buff_sz (sess_params (sw_sess S))) \<and>
      length out \<le> m \<and> m < length out + 4 \<and> length dest = m \<longrightarrow>
      qzSWCompress (Suc (length inp)) True Z inp (length inp) dest m True S = Fault) \<and>
    (inflate_stat (sw_sess S) = InflateNull \<and> inflateInit2 Z (- 15) = Some z \<and>
      n < 4 \<and> length inp < 2 ^ 32 + n \<longrightarrow> qzSWDecompress True Z inp n dest m S = Fault)"
proof (intro conjI impI; elim conjE)
  assume st: "deflate_stat (sw_sess S) = DeflateNull"
    and ini: "deflateInit2 Z (i_comp_lvl (sess_params (sw_sess S))) (- 15) = Some z"
    and d: "deflate Z z inp m Z_FINISH = (Z_STREAM_END, length inp, out, z')"
    and hw: "length inp \<le> unat (i_hw_buff_sz (sess_params (sw_sess S)))"
    and out: "length out \<le> m" "m < length out + 4" "length dest = m"
  have sw: "qzSWCompress (Suc (length inp)) True Z inp (length inp) dest m True S =
      qzDeflateSWCompress (Suc (length inp)) True Z inp (length inp) dest m True S"
    using fmt by (simp add: qzSWCompress_def IS_DEFLATE_def)
  have "put_out dest 4 m out = Fault" using out by (simp add: put_out_def)
  then show "qzSWCompress (Suc (length inp)) True Z inp (length inp) dest m True S = Fault"
    unfolding sw qzDeflateSWCompress_def Let_def deflate_open_def
    using fmt st ini d hw
    by (simp add: windows_bits_def MAX_WBITS_def deflate_loop_step deflate_round_def Let_def not_less)
next
  assume st: "inflate_stat (sw_sess S) = InflateNull" and ini: "inflateInit2 Z (- 15) = Some z"
    and n: "n < 4" and len: "length inp < 2 ^ 32 + n"
  have sw: "qzSWDecompress True Z inp n dest m S = qzDeflateSWDecompress True Z inp n dest m S"
    using fmt by (simp add: qzSWDecompress_def IS_DEFLATE_def)
  have avail: "unat (of_nat n - 4 :: u32) = 2 ^ 32 + n - 4"
  proof -
    have "n = 0 \<or> n = 1 \<or> n = 2 \<or> n = 3" using n by linarith
    then show ?thesis by (auto simp: unsigned_minus_1_eq_mask mask_eq_exp_minus_1)
  qed
  then have "length inp < 4 + unat (of_nat n - 4 :: u32)" using len by simp
  then show "qzSWDecompress True Z inp n dest m S = Fault"
    unfolding sw qzDeflateSWDecompress_def Let_def inflate_open_def
    using fmt st ini by (simp add: windows_bits_def MAX_WBITS_def)
qed

theorem four_byte_header_unaccounted_witness:
  "qzSWCompress 3 True store_libs [1, 2] 2 [0, 0, 0] 3 True (sw_state0 DEFLATE_4B) = Fault \<and>
   qzSWDecompress True store_libs [1, 2, 3] 3 [0] 1 (sw_state0 DEFLATE_4B) = Fault"
proof -
  have "deflateInit2 store_libs w b = Some False" "inflateInit2 store_libs b = Some False" for w b
    by (simp_all add: store_libs_def)
  moreover have "deflate store_libs False [1, 2] 3 Z_FINISH = (Z_STREAM_END, length [1 :: u8, 2], [1, 2], False)"
    by (simp add: store_libs_def store_deflate_def)
  ultimately have "deflate_stat (sw_sess (sw_state0 DEFLATE_4B)) = DeflateNull \<and>
      deflateInit2 store_libs (i_comp_lvl (sess_params (sw_sess (sw_state0 DEFLATE_4B)))) (- 15) = Some False \<and>
      deflate store_libs False [1, 2] 3 Z_FINISH = (Z_STREAM_END, length [1 :: u8, 2], [1, 2], False) \<and>
      length [1 :: u8, 2] \<le> unat (i_hw_buff_sz (sess_params (sw_sess (sw_state0 DEFLATE_4B)))) \<and>
      length [1 :: u8, 2] \<le> 3 \<and> 3 < length [1 :: u8, 2] + 4 \<and> length [0 :: u8, 0, 0] = 3" by simp
  from mp [OF conjunct1 [OF four_byte_header_unaccounted] this]
  have "qzSWCompress 3 True store_libs [1, 2] 2 [0, 0, 0] 3 True (sw_state0 DEFLATE_4B) = Fault"
    by (simp add: numeral_2_eq_2 numeral_3_eq_3)
  moreover have "qzSWDecompress True store_libs [1, 2, 3] 3 [0] 1 (sw_state0 DEFLATE_4B) = Fault"
    using four_byte_header_unaccounted [of "sw_state0 DEFLATE_4B" store_libs False "[1, 2, 3]" 1 "[]" False "[0]" 3]
    by (simp add: store_libs_def)
  ultimately show ?thesis by simp
qed

end
