(* ===== verification/ApiCorrect.thy ===== *)
theory ApiCorrect
  imports Api CompOrder DecompOrder SwCorrect
begin

text \<open>
  What the calls of the library promise: the process they leave, the calls that software answers, and their
  composition with the compression pipeline.
\<close>

section \<open>A process with one instance\<close>

text \<open>A started process whose only instance is free and has its memory, and a session that prefers it.\<close>

definition small_gzip :: QzSess where
  "small_gzip = zero_sess\<lparr>sess_params := zero_params\<lparr>i_data_fmt := DEFLATE_GZIP, i_hw_buff_sz := 4\<rparr>\<rparr>"

definition one_instance :: Process where
  "one_instance = g_process\<lparr>qz_init_status := QZ_OK, qat_available := 1, num_instances := 1,
     qz_inst := Some [\<lparr>packageId = 0, instance_cap = all_caps, lock = False, hb_ok = True\<rparr>]\<rparr>"

definition one_env :: CallEnv where
  "one_env = \<lparr>c_sal = True, c_api31 = True, c_api30 = True, c_init = good_env 1, c_alloc = (\<lambda>_. True), c_ok = (\<lambda>_. True),
     c_drv = (\<lambda>_. good_drv), c_zalloc = True, c_start = 0, c_end = 0, c_post_start = 0, c_post_end = 0\<rparr>"

definition one_api :: "status \<Rightarrow> QzSess \<Rightarrow> (bool, unit) Api" where
  "one_api st q = \<lparr>a_proc = one_instance, a_mem = (\<lambda>_. empty_inst\<lparr>mem_setup := True, cpa_sess_setup := True\<rparr>), a_heap = empty_heap,
     a_sess = \<lparr>hw_session_stat = st, thd_sess_stat = QZ_OK, internal = Some q, total_in = 0, total_out = 0\<rparr>,
     a_env = \<lparr>e_defaults = g_sess_params_internal_default, e_init_status = QZ_OK, e_live = {}\<rparr>, a_sw = sw_state0 DEFLATE_GZIP\<rparr>"

definition no_post :: post_callback where
  "no_post inp n dest m = (QZ_OK, n, dest, m, 0)"

lemma one_started: "started (one_api st q)"
  by (simp add: started_def one_api_def one_instance_def)

lemma one_ready: "ready_for one_env (one_api QZ_OK small_gzip) 0 small_gzip"
  unfolding ready_for_def
  by (rule conjI, rule one_started) (simp add: one_api_def one_instance_def one_env_def small_gzip_def zero_sess_def zero_params_def
      g_sess_params_internal_default_def insts_of_def free_wanted_def wanted_def qzCheckInstCap_def all_caps_def empty_inst_def)

section \<open>Properties\<close>

text \<open>C12: (api_keeps_process) Whatever a call of the library does with a started process, by hardware, by software or in part by both, with success or with an
  error, at its end the \<open>Process\<close> record is exactly as it was: in particular the instance it took is free again. The memory an instance got for the call stays
  with the instance for the next one; it is in \<open>a_mem\<close>, and what becomes of it is the subject of the theory of instance memory.\<close>

theorem api_keeps_process:
  assumes "started A"
  shows "(qzCompressCrcExt env run Z post given inp sl dest dl lst crc ext A = Returned (rc, sl', dl', d', e', B) \<longrightarrow> a_proc B = a_proc A) \<and>
    (qzDecompressCrcExt env run Z given inp sl dest dl ext A = Returned (rc, sl', dl', d', e', B) \<longrightarrow> a_proc B = a_proc A)"
proof -
  have p: "qz_inst (a_proc A) \<noteq> None" using assms by (simp add: started_def)
  have r: "qz_inst (a_proc C) \<noteq> None \<and> a_proc C = a_proc A" if "api_ready env A = Returned (stop, C)" for stop C
    using api_ready_proc [OF assms that] p by simp
  have cr: "a_proc C = a_proc A \<Longrightarrow> comp_ready env run Z post i s d l b crc ext C = Returned (rc, sl', dl', d', e', B) \<Longrightarrow> a_proc B = a_proc A" for C i s d l b
    using comp_ready_proc p by metis
  have dr: "a_proc C = a_proc A \<Longrightarrow> decomp_ready env run Z i s d l ext C = Returned (rc, sl', dl', d', e', B) \<Longrightarrow> a_proc B = a_proc A" for C i s d l
    using decomp_ready_proc p by metis
  have c: "a_proc B = a_proc A" if q: "qzCompressCrcExt env run Z post given inp sl dest dl lst crc ext A = Returned (rc, sl', dl', d', e', B)"
    using q r unfolding qzCompressCrcExt_def Let_def api_fail_def
    by (auto split: if_split_asm option.split_asm dest!: obind_dest dest: cr)
  have d: "a_proc B = a_proc A" if q: "qzDecompressCrcExt env run Z given inp sl dest dl ext A = Returned (rc, sl', dl', d', e', B)"
    using q r unfolding qzDecompressCrcExt_def Let_def api_fail_def
    by (auto split: if_split_asm option.split_asm dest!: obind_dest dest: dr)
  show ?thesis using c d by blast
qed

lemma returned_api: "(case r of Returned (rc, sl, dl, d, e, B) \<Rightarrow> rc = a | _ \<Rightarrow> False) \<Longrightarrow> \<exists>sl dl d e B. r = Returned (a, sl, dl, d, e, B)"
  by (cases r) (auto split: prod.splits)

theorem api_keeps_process_witness:
  "\<exists>sl dl d e B. qzCompressCrcExt one_env (\<lambda>_ _ _ _ _ _. None) store_libs no_post True (Some [7, 8]) (Some 2) (Some (replicate 4 0)) (Some 4) 1 None None
      (one_api QZ_NO_HW (zero_sess\<lparr>sess_params := zero_params\<lparr>i_data_fmt := DEFLATE_RAW, i_hw_buff_sz := 4\<rparr>\<rparr>)) =
      Returned (QZ_OK, sl, dl, d, e, B) \<and> a_proc B = one_instance"
proof -
  let ?A = "one_api QZ_NO_HW (zero_sess\<lparr>sess_params := zero_params\<lparr>i_data_fmt := DEFLATE_RAW, i_hw_buff_sz := 4\<rparr>\<rparr>)"
  have "(case qzCompressCrcExt one_env (\<lambda>_ _ _ _ _ _. None) store_libs no_post True (Some [7, 8]) (Some 2) (Some (replicate 4 0)) (Some 4) 1 None None ?A of
      Returned (rc, sl, dl, d, e, B) \<Rightarrow> rc = QZ_OK | _ \<Rightarrow> False)" by code_simp
  from returned_api [OF this] obtain sl dl d e B where r:
    "qzCompressCrcExt one_env (\<lambda>_ _ _ _ _ _. None) store_libs no_post True (Some [7, 8]) (Some 2) (Some (replicate 4 0)) (Some 4) 1 None None ?A =
      Returned (QZ_OK, sl, dl, d, e, B)" by (elim exE) (rule that)
  have "a_proc ?A = one_instance" by (simp add: one_api_def)
  then have "a_proc B = one_instance" using api_keeps_process [OF one_started, THEN conjunct1, THEN mp, OF r] by (simp only:)
  then show ?thesis using r by (intro exI conjI)
qed








text \<open>(default_zlib_overrides) When the defaults of the process are the zlib format, a call changes the format of its session to zlib, whatever the session was set up
  for, and leaves the driver's parameters as they were.\<close>

theorem default_zlib_overrides:
  assumes "started A" and "internal (a_sess A) = Some q" and "hw_session_stat (a_sess A) \<noteq> QZ_NONE"
    and "i_data_fmt (e_defaults (a_env A)) = DEFLATE_ZLIB" and "i_sw_backup (sess_params q) \<le> 1"
  shows "\<exists>B q'. api_ready env A = Returned (None, B) \<and> internal (a_sess B) = Some q' \<and> i_data_fmt (sess_params q') = DEFLATE_ZLIB \<and>
    session_setup_data q' = session_setup_data q"
proof -
  have z: "qzInit (c_sal env) ((c_init env)\<lparr>e_params_default := e_defaults (a_env A)\<rparr>)
      (Some (map_option sess_params (internal (a_sess A)))) (getSwBackup A) (a_proc A) (a_proc A) = Some (QZ_DUPLICATE, a_proc A)"
    using assms(1,2,5) by (simp add: qzInit_def started_def getSwBackup_def not_less)
  show ?thesis unfolding api_ready_def z using assms(2-4) by (simp add: QZ_INIT_FAIL_def on_q_def)
qed

text \<open>(software_not_counted) What the software does is not in the totals of the session.\<close>

lemma software_not_counted:
  "sw_all path inp n dest m ext A = Returned (rc, sl, dl, d, e, B) \<Longrightarrow> total_in (a_sess B) = total_in (a_sess A) \<and> total_out (a_sess B) = total_out (a_sess A)"
  by (auto simp: sw_all_def sw_back_def dest!: obind_dest)

text \<open>(trace_reads_past_source) A source shorter than 20 bytes sends decompression without hardware past its end: the trace message reads the place of a
  field of a gzip header, in every format.\<close>

theorem trace_reads_past_source:
  assumes "length inp < 20" and "hw_session_stat (a_sess A) = QZ_NO_HW"
    and "i_data_fmt (sess_params (the (internal (a_sess A)))) \<noteq> DEFLATE_GZIP_EXT"
  shows "decomp_needs_sw inp sl A = Fault"
  using assms by (simp add: decomp_needs_sw_def small_ext_def decomp_trace_def get32_at_def get32_def get_le_def of_option_def Let_def)

section \<open>Composition with the compression pipeline\<close>

text \<open>What the run of a call depends on besides its arguments: the instances' pipelines with their pinned memory, what is pinned, the
  driver and the order of the steps.\<close>

record PipeCfg =
  pc_pipe :: "nat \<Rightarrow> Pipe"
  pc_cont :: bool
  pc_pinned :: "ptr \<Rightarrow> bool"
  pc_crc :: "u64 \<Rightarrow> u32 \<Rightarrow> u32 \<Rightarrow> u64"
  pc_hw :: hardware
  pc_events :: "event list"

definition call_job :: "PipeCfg \<Rightarrow> QzSess \<Rightarrow> nat \<Rightarrow> nat \<Rightarrow> Job" where
  "call_job cfg q n m = \<lparr>j_params = sess_params q, j_src = Ptr BSrc 0, j_src_sz = n, j_dest_sz = m, j_last = sess_last q,
     need_cont_mem = pc_cont cfg, pinned = pc_pinned cfg, crc_combine = pc_crc cfg\<rparr>"

definition call_pipe :: "PipeCfg \<Rightarrow> nat \<Rightarrow> QzSess \<Rightarrow> bytes \<Rightarrow> bytes \<Rightarrow> Pipe" where
  "call_pipe cfg i q inp dest = (pc_pipe cfg i)\<lparr>pmem := (pmem (pc_pipe cfg i))(BSrc := inp, BDest := dest), q_next_dest := Ptr BDest 0,
     q_crc := sess_crc q\<rparr>"

definition call_begin :: "PipeCfg \<Rightarrow> nat \<Rightarrow> QzSess \<Rightarrow> bytes \<Rightarrow> nat \<Rightarrow> bytes \<Rightarrow> nat \<Rightarrow> 'w \<Rightarrow> 'w Comp" where
  "call_begin cfg i q inp n dest m w = call_start (call_job cfg q n m) (single_thread q) (call_pipe cfg i q inp dest) w"

definition call_session :: "QzSess \<Rightarrow> Pipe \<Rightarrow> QzSess" where
  "call_session q P = q\<lparr>submitted := q_submitted P, processed := q_processed P, last_submitted := q_last_submitted P,
     last_processed := q_last_processed P, stop_submitting := q_stop P, seq := q_seq P, seq_in := q_seq_in P, next_dest := q_next_dest P,
     qz_in_len := of_nat (q_in_len P), qz_out_len := of_nat (q_out_len P), sess_crc := q_crc P\<rparr>"

text \<open>The run of a call. \<open>None\<close> when a step faults, or when the steps do not end the call.\<close>

definition compress_run :: "PipeCfg \<Rightarrow> 'w software \<Rightarrow> 'w \<Rightarrow> hw_run" where
  "compress_run cfg sw w i q inp n dest m =
    (case comp_run (call_job cfg q n m) (pc_hw cfg) sw (pc_events cfg) (call_begin cfg i q inp n dest m w) of None \<Rightarrow> None
     | Some x \<Rightarrow> if \<not> out_done x then None
         else Some \<lparr>r_sess = call_session q (pipe x), r_stat = q_stat (pipe x), r_next = p_off (q_next_dest (pipe x)), r_dest = pmem (pipe x) BDest\<rparr>)"

lemma ucast_of_nat_down: "ucast (of_nat k :: u64) = (of_nat k :: u32)"
proof -
  have "uint (ucast (of_nat k :: u64) :: u32) = uint (of_nat k :: u32)"
    by (simp add: unsigned_of_nat unsigned_ucast_eq)
  then show ?thesis by (simp only: word_uint_eq_iff)
qed

text \<open>A session as the one above, for which up to two requests are done in one thread.\<close>

definition two_gzip :: QzSess where
  "two_gzip = small_gzip\<lparr>sess_params := (sess_params small_gzip)\<lparr>i_req_cnt_thrshold := 2\<rparr>\<rparr>"

text \<open>A source that goes to the hardware as a whole.\<close>

definition comp_for_hw :: "CallEnv \<Rightarrow> QzSess \<Rightarrow> u32 \<Rightarrow> bool" where
  "comp_for_hw env q sl \<longleftrightarrow> i_input_sz_thrshold (sess_params q) \<le> sl \<and> (c_api30 env \<or> i_comp_lvl (sess_params q) \<noteq> 9) \<and>
     i_is_sensitive_mode (sess_params q) \<noteq> 1 \<and> (i_data_fmt (sess_params q) \<noteq> LZ4S_BK \<or> i_qzCallback (sess_params q) = 0)"

lemma compress_run_shows:
  fixes cfg q inp dest n m
  defines "J \<equiv> call_job cfg q n m"
  assumes j: "job_ok J inp" "healthy J (pc_hw cfg) inp" "fresh_pipe J inp (call_pipe cfg i q inp dest)" "\<forall>e \<in> set (pc_events cfg). healthy_event e"
    and r: "compress_run cfg sw w i q inp n dest m \<noteq> None"
  shows "\<exists>r k. compress_run cfg sw w i q inp n dest m = Some r \<and> sess_params (r_sess r) = sess_params q \<and> seq (r_sess r) = seq_in (r_sess r) \<and>
    r_next r = length (frames J (pc_hw cfg) inp k) \<and> qz_out_len (r_sess r) = of_nat (r_next r) \<and> r_next r < 2 ^ 32 \<and>
    qz_in_len (r_sess r) = of_nat (min (k * j_hw J) (length inp)) \<and> take (r_next r) (r_dest r) = frames J (pc_hw cfg) inp k \<and>
    (r_stat r = QZ_OK \<and> k = n_blocks J inp \<and> length inp \<le> k * j_hw J \<or>
     r_stat r = QZ_BUF_ERROR \<and> m < length (frames J (pc_hw cfg) inp (Suc k)))"
proof -
  let ?hw = "pc_hw cfg"
  have i0: "comp_inv J ?hw inp (call_begin cfg i q inp n dest m w)"
    unfolding call_begin_def J_def [symmetric] by (rule comp_start_inv [OF j(1,3)])
  from comp_run_inv [OF j(1,2) i0 j(4), of sw] obtain x where x: "comp_run J ?hw sw (pc_events cfg) (call_begin cfg i q inp n dest m w) = Some x"
    "comp_inv J ?hw inp x" by blast
  have d: "out_done x" using r x(1) by (simp add: compress_run_def J_def [symmetric] split: if_splits)
  have s: "q_seq_in (pipe x) = q_seq (pipe x)" using x(2) d by (simp add: comp_inv_def local_inv_def Let_def)
  from comp_inv_shows [OF x(2) j(1)] obtain k where k: "shows_blocks J ?hw inp (pipe x) k" "q_stat (pipe x) = QZ_OK \<or> q_stat (pipe x) = QZ_BUF_ERROR"
    "q_stat (pipe x) = QZ_BUF_ERROR \<longrightarrow> j_dest_sz J < length (frames J ?hw inp (Suc k))"
    "out_done x \<and> q_stat (pipe x) = QZ_OK \<longrightarrow> k = n_blocks J inp \<and> q_in_len (pipe x) = length inp" by blast
  note b = k(1) [unfolded shows_blocks_def]
  have "q_out_len (pipe x) \<le> j_dest_sz J"
    using x(2) by (auto simp: comp_inv_def out_inv_def Let_def)
  then have o: "q_out_len (pipe x) < 2 ^ 32" using j(1) by (simp add: job_ok_def)
  have m: "j_dest_sz J = m" by (simp add: J_def call_job_def)
  have e: "k = n_blocks J inp \<and> length inp \<le> k * j_hw J" if "q_stat (pipe x) = QZ_OK"
    using k(4) d that b by (auto simp: min_def split: if_splits)
  show ?thesis
    unfolding compress_run_def J_def [symmetric] x(1) option.case if_not_P [OF not_not [THEN iffD2, OF d]]
    by (intro exI conjI, rule refl) (use b s k(2,3) e o m in \<open>auto simp: call_session_def\<close>)
qed

text \<open>A call that runs in one thread has no more blocks than the threshold allows requests.\<close>

lemma n_blocks_requests: "0 < j_hw J \<Longrightarrow> n_blocks J d = max 1 (request_count (length d) (j_hw J))"
proof -
  let ?n = "length d" and ?h = "j_hw J"
  assume h: "0 < ?h"
  have "(?n + ?h - 1) div ?h = request_count ?n ?h" if "0 < ?n"
  proof (cases "?n mod ?h = 0")
    case True
    then have n: "?n = ?n div ?h * ?h" by (simp add: dvd_eq_mod_eq_0)
    have "?n + ?h - 1 = ?n div ?h * ?h + ?h - 1" by (simp only: n [symmetric])
    then have "(?n + ?h - 1) div ?h = (?h - 1 + ?n div ?h * ?h) div ?h" using h by (simp add: add.commute)
    also have "\<dots> = ?n div ?h + (?h - 1) div ?h" using h by (simp only: div_mult_self1)
    also have "(?h - 1) div ?h = 0" using h by simp
    finally show ?thesis using True by (simp add: request_count_def)
  next
    case False
    let ?r = "?n mod ?h"
    have "a + b * h + h - 1 = (a - 1) + (b + 1) * h" if "0 < a" for a b h :: nat using that by (cases a) simp_all
    from this [of ?r "?n div ?h" ?h] have "?n + ?h - 1 = (?r - 1) + (?n div ?h + 1) * ?h" using False by (simp only: mod_div_mult_eq neq0_conv)
    then have "(?n + ?h - 1) div ?h = ((?r - 1) + (?n div ?h + 1) * ?h) div ?h" by (simp only:)
    also have "\<dots> = ?n div ?h + 1 + (?r - 1) div ?h" using h by (simp only: div_mult_self1)
    also have "(?r - 1) div ?h = 0" using mod_less_divisor [OF h, of ?n] by simp
    finally show ?thesis using False by (simp add: request_count_def)
  qed
  moreover have "0 < request_count ?n ?h" if "0 < ?n"
    using that h by (auto simp: request_count_def div_greater_zero_iff dest: dvd_imp_le)
  ultimately have "d \<noteq> [] \<Longrightarrow> n_blocks J d = request_count ?n ?h \<and> 1 \<le> request_count ?n ?h" by (simp add: n_blocks_def Suc_le_eq)
  moreover have "d = [] \<Longrightarrow> n_blocks J d = 1 \<and> request_count ?n ?h = 0" by (simp add: n_blocks_def request_count_def)
  ultimately show ?thesis by (cases "d = []") simp_all
qed

lemma call_begin_ready:
  fixes q m lst
  assumes hw: "0 < i_hw_buff_sz (sess_params q)" and n: "n = length inp"
    and thr: "0 < i_req_cnt_thrshold (sess_params q)" "unat (i_req_cnt_thrshold (sess_params q)) \<le> length (streams (pc_pipe cfg i))"
  defines "q' \<equiv> run_session (unat (i_hw_buff_sz (sess_params q))) n m lst q"
  shows "one_thread (call_begin cfg i q' inp n dest m w)"
    "enough_buffers (call_job cfg q' n m) inp (pipe (call_begin cfg i q' inp n dest m w))"
proof -
  let ?J = "call_job cfg q' n m" and ?T = "unat (i_req_cnt_thrshold (sess_params q))"
  have q: "sess_params q' = sess_params q" "single_thread q' \<longleftrightarrow> request_count n (unat (i_hw_buff_sz (sess_params q))) \<le> ?T"
    by (simp_all add: q'_def run_session_def reset_session_def Let_def)
  have h: "j_hw ?J = unat (i_hw_buff_sz (sess_params q))" "0 < j_hw ?J" using hw by (simp_all add: j_hw_def call_job_def q unat_gt_0 word_gt_0)
  have "0 < ?T" using thr(1) by (simp add: unat_gt_0 word_gt_0)
  then have "single_thread q' \<longrightarrow> n_blocks ?J inp \<le> ?T" using n_blocks_requests [OF h(2), of inp] q(2) h(1) n by simp
  then show "enough_buffers ?J inp (pipe (call_begin cfg i q' inp n dest m w))"
    using thr(2) by (auto simp: enough_buffers_def call_begin_def call_start_def comp_start_def resetQzsess_def call_pipe_def Let_def)
  show "one_thread (call_begin cfg i q' inp n dest m w)"
    by (simp add: one_thread_def call_begin_def call_start_def comp_start_def resetQzsess_def Let_def)
qed

text \<open>Whatever happened so far in a run of a healthy call, it can be brought to its end.\<close>

lemma compress_run_finishes:
  fixes cfg q' inp n m
  defines "J \<equiv> call_job cfg q' n m"
  assumes j: "job_ok J inp" "healthy J (pc_hw cfg) inp" "fresh_pipe J inp (call_pipe cfg i q' inp dest)" "\<forall>e \<in> set (pc_events cfg). healthy_event e"
    and b: "one_thread (call_begin cfg i q' inp n dest m w)" "enough_buffers J inp (pipe (call_begin cfg i q' inp n dest m w))"
  shows "\<exists>es. (\<forall>e \<in> set es. healthy_event e) \<and> compress_run (cfg\<lparr>pc_events := pc_events cfg @ es\<rparr>) sw w i q' inp n dest m \<noteq> None"
proof -
  let ?hw = "pc_hw cfg" and ?x0 = "call_begin cfg i q' inp n dest m w"
  have i0: "comp_inv J ?hw inp ?x0" unfolding call_begin_def J_def [symmetric] by (rule comp_start_inv [OF j(1,3)])
  from comp_run_inv [OF j(1,2) i0 j(4), of sw] obtain x where x: "comp_run J ?hw sw (pc_events cfg) ?x0 = Some x" "comp_inv J ?hw inp x" by blast
  note k = one_thread_run [OF j(1,2) i0 b(1) j(4) x(1)]
  have "enough_buffers J inp (pipe x)" using b(2) k by (simp add: enough_buffers_def same_kind_def)
  from comp_completes [OF j(1,2) x(2) _ this, of sw] k obtain es x' where
    es: "\<forall>e \<in> set es. healthy_event e" "comp_run J ?hw sw es x = Some x'" "out_done x'" by blast
  have "comp_run J ?hw sw (pc_events cfg @ es) ?x0 = Some x'" using x(1) es(2) by (simp add: comp_run_append)
  then have "compress_run (cfg\<lparr>pc_events := pc_events cfg @ es\<rparr>) sw w i q' inp n dest m \<noteq> None"
    using es(3) by (simp add: compress_run_def call_begin_def call_job_def call_pipe_def J_def)
  then show ?thesis using es(1) by blast
qed

text \<open>The configuration of a call on nine bytes, with the driver that stores.\<close>

definition nine_cfg :: "event list \<Rightarrow> PipeCfg" where
  "nine_cfg es = \<lparr>pc_pipe = (\<lambda>_. two_buffers nine_bytes 100), pc_cont = True, pc_pinned = (\<lambda>_. False), pc_crc = (\<lambda>a b n. 0),
     pc_hw = store_hw, pc_events = es\<rparr>"

lemma compress_call_outcome:
  assumes rd: "ready_for env A i q" and fh: "comp_for_hw env q sl" and lst: "lst = 0 \<or> lst = 1"
    and q': "q' = run_session (unat (i_hw_buff_sz (sess_params q))) (unat sl) (unat dl) (lst = 1) (q\<lparr>sess_crc := crc\<rparr>)"
    and J: "J = call_job cfg q' (unat sl) (unat dl)"
    and j: "job_ok J inp" "healthy J (pc_hw cfg) inp" "fresh_pipe J inp (call_pipe cfg i q' inp dest)" "\<forall>e \<in> set (pc_events cfg). healthy_event e"
    and finished: "compress_run cfg sw w i q' inp (unat sl) dest (unat dl) \<noteq> None"
  shows "\<exists>st k dest' B. qzCompressCrcExt env (compress_run cfg sw w) Z post True (Some inp) (Some sl) (Some dest) (Some dl) lst crc ext A =
      Returned (st, Some (of_nat (min (k * j_hw J) (length inp))), Some (of_nat (length (frames J (pc_hw cfg) inp k))), dest', ext, B) \<and>
    take (length (frames J (pc_hw cfg) inp k)) dest' = frames J (pc_hw cfg) inp k \<and> a_proc B = a_proc A \<and>
    (st = QZ_OK \<and> k = n_blocks J inp \<and> length inp \<le> k * j_hw J \<or>
     st = QZ_BUF_ERROR \<and> unat dl < length (frames J (pc_hw cfg) inp (Suc k)))"
proof -
  let ?run = "compress_run cfg sw w" and ?A = "on_q (\<lambda>q. q\<lparr>sess_crc := crc\<rparr>) A" and ?q = "q\<lparr>sess_crc := crc\<rparr>"
  have rd': "ready_for env ?A i ?q" using rd by (simp add: ready_for_def started_def on_q_def)
  have ps: "sess_params q' = sess_params q" by (simp add: q' run_session_def reset_session_def Let_def)
  from compress_run_shows [OF j(1-3) [unfolded J] j(4) finished] obtain r k where r: "?run i q' inp (unat sl) dest (unat dl) = Some r"
    "sess_params (r_sess r) = sess_params q" "seq (r_sess r) = seq_in (r_sess r)" "r_next r = length (frames J (pc_hw cfg) inp k)"
    "qz_out_len (r_sess r) = of_nat (r_next r)" "r_next r < 2 ^ 32" "qz_in_len (r_sess r) = of_nat (min (k * j_hw J) (length inp))"
    "take (r_next r) (r_dest r) = frames J (pc_hw cfg) inp k"
    "r_stat r = QZ_OK \<and> k = n_blocks J inp \<and> length inp \<le> k * j_hw J \<or> r_stat r = QZ_BUF_ERROR \<and> unat dl < length (frames J (pc_hw cfg) inp (Suc k))"
    unfolding J [symmetric] ps by blast
  have st: "r_stat r = QZ_OK \<or> \<not> comp_again (r_stat r)" using r(9) by (auto simp: comp_again_def)
  have ns: "i_is_sensitive_mode (sess_params (r_sess r)) \<noteq> 1" using fh r(2) by (simp add: comp_for_hw_def)
  have ld: "\<not> sl < i_input_sz_thrshold (sess_params q)" "\<not> (\<not> c_api30 env \<and> i_comp_lvl (sess_params q) = 9)"
    using fh by (auto simp: comp_for_hw_def)
  have "comp_ready env ?run Z post inp sl dest dl (lst = 1) crc ext A =
      hw_path env ?run (unat (i_hw_buff_sz (sess_params q))) (lst = 1) comp_again (comp_sw env Z (lst = 1)) (post_process env post inp ext) inp sl dest dl ext ?A"
    using ld fh rd by (auto simp: comp_ready_def Let_def comp_for_hw_def ready_for_def started_def on_q_def)
  moreover from hw_path_ready [where run = "compress_run cfg sw w" and q = "q\<lparr>sess_crc := crc\<rparr>" and unit = "unat (i_hw_buff_sz (sess_params q))"
      and lst = "lst = 1" and i = i and sl = sl and dl = dl and fin = "post_process env post inp ext" and sw = "comp_sw env Z (lst = 1)" and again = comp_again and ext = ext,
      OF rd' r(1) [unfolded q'] ns r(3) st r(6,5)]
  obtain B where B: "hw_path env ?run (unat (i_hw_buff_sz (sess_params q))) (lst = 1) comp_again (comp_sw env Z (lst = 1)) (post_process env post inp ext) inp sl dest dl ext ?A =
      post_process env post inp ext (r_stat r, ucast (qz_in_len (r_sess r)), of_nat (r_next r), r_dest r, B)" "a_proc B = a_proc A"
    "internal (a_sess B) = Some (r_sess r)" by auto
  moreover have "post_process env post inp ext (r_stat r, ucast (qz_in_len (r_sess r)), of_nat (r_next r), r_dest r, B) =
      Returned (r_stat r, Some (ucast (qz_in_len (r_sess r))), Some (of_nat (r_next r)), r_dest r, ext, B)"
    using fh r(2) B(3) by (auto simp: post_process_def Let_def comp_for_hw_def)
  moreover have "ucast (qz_in_len (r_sess r)) = (of_nat (min (k * j_hw J) (length inp)) :: u32)"
    unfolding r(7) by (rule ucast_of_nat_down)
  ultimately have c: "qzCompressCrcExt env ?run Z post True (Some inp) (Some sl) (Some dest) (Some dl) lst crc ext A =
      Returned (r_stat r, Some (of_nat (min (k * j_hw J) (length inp))), Some (of_nat (length (frames J (pc_hw cfg) inp k))), r_dest r, ext, B)"
    using lst api_ready_ready [OF rd] r(4) by (auto simp: qzCompressCrcExt_def)
  show ?thesis
    unfolding c by (rule exI [of _ "r_stat r"], rule exI [of _ k], rule exI [of _ "r_dest r"], rule exI [of _ B]) (use r(4,8,9) B(2) in simp)
qed

text \<open>C5: (compress_call) A compression that reaches a healthy instance, from the arguments of the call to its results: whatever the interleaving of the
  threads and the order of the driver's answers, the code, the two lengths and the destination are those of the first blocks of the source, framed, in order;
  all of them with \<^verbatim>\<open>QZ_OK\<close>, or as many as fit with \<^verbatim>\<open>QZ_BUF_ERROR\<close>; and the process is left as it was.\<close>

theorem compress_call:
  assumes rd: "ready_for env A i q" and fh: "comp_for_hw env q sl" and lst: "lst = 0 \<or> lst = 1"
    and q': "q' = run_session (unat (i_hw_buff_sz (sess_params q))) (unat sl) (unat dl) (lst = 1) (q\<lparr>sess_crc := crc\<rparr>)"
    and J: "J = call_job cfg q' (unat sl) (unat dl)"
    and j: "job_ok J inp" "healthy J (pc_hw cfg) inp" "fresh_pipe J inp (call_pipe cfg i q' inp dest)" "\<forall>e \<in> set (pc_events cfg). healthy_event e"
    and finished: "compress_run cfg sw w i q' inp (unat sl) dest (unat dl) \<noteq> None"
  shows "\<exists>st k dest' B. qzCompressCrcExt env (compress_run cfg sw w) Z post True (Some inp) (Some sl) (Some dest) (Some dl) lst crc ext A =
      Returned (st, Some (of_nat (min (k * j_hw J) (length inp))), Some (of_nat (length (frames J (pc_hw cfg) inp k))), dest', ext, B) \<and>
    take (length (frames J (pc_hw cfg) inp k)) dest' = frames J (pc_hw cfg) inp k \<and> a_proc B = a_proc A \<and>
    (st = QZ_OK \<and> k = n_blocks J inp \<and> length inp \<le> k * j_hw J \<or>
     st = QZ_BUF_ERROR \<and> unat dl < length (frames J (pc_hw cfg) inp (Suc k)))"
  by (rule compress_call_outcome [OF assms])

theorem compress_call_witness:
  "\<exists>es k st dest' B. qzCompressCrcExt one_env (compress_run (nine_cfg es) (\<lambda>w d n l. (QZ_FAIL, 0, [], w)) ()) store_libs no_post True
      (Some nine_bytes) (Some 9) (Some (replicate 100 0)) (Some 100) 1 None None (one_api QZ_OK small_gzip) =
      Returned (st, Some (of_nat (min (k * 4) (length nine_bytes))), Some (of_nat (length (frames nine_job store_hw nine_bytes k))), dest', None, B)"
proof -
  let ?q = "run_session 4 9 100 True (small_gzip\<lparr>sess_crc := None\<rparr>)"
  have J: "call_job (nine_cfg es) ?q 9 100 = nine_job" for es
    by (simp add: call_job_def nine_cfg_def nine_job_def run_session_def reset_session_def small_gzip_def zero_sess_def Let_def)
  have P: "call_pipe (nine_cfg es) 0 ?q nine_bytes (replicate 100 0) = two_buffers nine_bytes 100" for es
    by (simp add: call_pipe_def nine_cfg_def two_buffers_def run_session_def reset_session_def small_gzip_def zero_sess_def Let_def fun_eq_iff)
  note h = nine_job_ok store_hw_healthy [OF nine_job_ok]
  have ready: "one_thread (call_begin (nine_cfg []) 0 ?q nine_bytes 9 (replicate 100 0) 100 ())"
    "enough_buffers nine_job nine_bytes (pipe (call_begin (nine_cfg []) 0 ?q nine_bytes 9 (replicate 100 0) 100 ()))"
    by (simp_all add: one_thread_def enough_buffers_def call_begin_def call_start_def comp_start_def resetQzsess_def run_session_def reset_session_def
      request_count_def small_gzip_def zero_params_def Let_def)
  have "comp_inv nine_job store_hw nine_bytes (call_begin (nine_cfg []) 0 ?q nine_bytes 9 (replicate 100 0) 100 ())"
    unfolding call_begin_def J P by (rule comp_start_inv [OF nine_job_ok two_buffers_fresh])
  from comp_completes [OF h this ready] obtain es x where es: "\<forall>e \<in> set es. healthy_event e"
    "comp_run nine_job store_hw (\<lambda>w d n l. (QZ_FAIL, 0, [], w)) es (call_begin (nine_cfg []) 0 ?q nine_bytes 9 (replicate 100 0) 100 ()) = Some x"
    "out_done x" by blast
  have b: "call_begin (nine_cfg es) 0 ?q nine_bytes 9 (replicate 100 0) 100 () = call_begin (nine_cfg []) 0 ?q nine_bytes 9 (replicate 100 0) 100 ()"
    unfolding call_begin_def J P ..
  have c: "pc_hw (nine_cfg es) = store_hw" "pc_events (nine_cfg es) = es" by (simp_all add: nine_cfg_def)
  have f: "compress_run (nine_cfg es) (\<lambda>w d n l. (QZ_FAIL, 0, [], w)) () 0 ?q nine_bytes 9 (replicate 100 0) 100 \<noteq> None"
    unfolding compress_run_def J c b es(2) using es(3) by simp
  have hw: "comp_for_hw one_env small_gzip 9" "j_hw nine_job = 4"
    by (simp_all add: comp_for_hw_def one_env_def small_gzip_def zero_sess_def zero_params_def nine_job_def j_hw_def)
  have u: "i_hw_buff_sz (sess_params small_gzip) = 4" by (simp add: small_gzip_def)
  note call = compress_call [OF one_ready hw(1), where lst = 1 and crc = None and dl = 100 and q' = ?q and cfg = "nine_cfg es" and J = nine_job
      and inp = nine_bytes and dest = "replicate 100 0" and sw = "\<lambda>w d n l. (QZ_FAIL, 0, [], w)" and w = "()"
      and Z = store_libs and post = no_post and ext = None]
  have v: "unat (i_hw_buff_sz (sess_params small_gzip)) = 4" "unat (9 :: u32) = 9" "unat (100 :: u32) = 100" by (simp_all add: u)
  have ev: "\<forall>e \<in> set (pc_events (nine_cfg es)). healthy_event e" using es(1) by (simp add: c)
  have pipe: "fresh_pipe nine_job nine_bytes (call_pipe (nine_cfg es) 0 ?q nine_bytes (replicate 100 0))" unfolding P by (rule two_buffers_fresh)
  have hh: "healthy nine_job (pc_hw (nine_cfg es)) nine_bytes" unfolding c by (rule h(2))
  obtain st k dest' B where r: "qzCompressCrcExt one_env (compress_run (nine_cfg es) (\<lambda>w d n l. (QZ_FAIL, 0, [], w)) ()) store_libs no_post True
        (Some nine_bytes) (Some 9) (Some (replicate 100 0)) (Some 100) 1 None None (one_api QZ_OK small_gzip) =
        Returned (st, Some (of_nat (min (k * 4) (length nine_bytes))), Some (of_nat (length (frames nine_job store_hw nine_bytes k))), dest', None, B)"
      using call [unfolded v J hw(2) c(1) simp_thms, OF TrueI TrueI TrueI h(1) hh [unfolded c] pipe ev f] by (elim exE conjE) (rule that)
  show ?thesis
    by (rule exI [of _ es], rule exI [of _ k], rule exI [of _ st], rule exI [of _ dest'], rule exI [of _ B]) (rule r)
qed

text \<open>C31: (compress_call_finishes) A compression that reaches a healthy instance never waits for ever, provided that the session's threshold for a single thread is
  not above the number of the instance's buffers, which the parameter check and \<^verbatim>\<open>NUM_BUFF\<close> see to: whatever was interleaved so far, in one thread or two, the
  run can go on so that the call returns, with the code for success or for a full destination.\<close>

theorem compress_call_finishes:
  assumes rd: "ready_for env A i q" and fh: "comp_for_hw env q sl" and lst: "lst = 0 \<or> lst = 1"
    and q': "q' = run_session (unat (i_hw_buff_sz (sess_params q))) (unat sl) (unat dl) (lst = 1) (q\<lparr>sess_crc := crc\<rparr>)"
    and J: "J = call_job cfg q' (unat sl) (unat dl)"
    and j: "job_ok J inp" "healthy J (pc_hw cfg) inp" "fresh_pipe J inp (call_pipe cfg i q' inp dest)" "\<forall>e \<in> set (pc_events cfg). healthy_event e"
    and thr: "0 < i_req_cnt_thrshold (sess_params q)" "unat (i_req_cnt_thrshold (sess_params q)) \<le> length (streams (pc_pipe cfg i))"
  shows "\<exists>es st used made dest' B. (\<forall>e \<in> set es. healthy_event e) \<and>
    qzCompressCrcExt env (compress_run (cfg\<lparr>pc_events := pc_events cfg @ es\<rparr>) sw w) Z post True (Some inp) (Some sl) (Some dest) (Some dl) lst crc ext A =
      Returned (st, used, made, dest', ext, B) \<and> (st = QZ_OK \<or> st = QZ_BUF_ERROR)"
proof -
  let ?q = "q\<lparr>sess_crc := crc\<rparr>"
  have ps: "sess_params q' = sess_params q" by (simp add: q' run_session_def reset_session_def Let_def)
  have n: "unat sl = length inp" "0 < i_hw_buff_sz (sess_params q)"
    using j(1) by (simp_all add: job_ok_def J call_job_def j_hw_def ps unat_gt_0 word_gt_0)
  have b: "one_thread (call_begin cfg i q' inp (unat sl) dest (unat dl) w)"
    "enough_buffers J inp (pipe (call_begin cfg i q' inp (unat sl) dest (unat dl) w))"
    using call_begin_ready [of ?q "unat sl" inp cfg i] n thr unfolding J q' by simp_all
  from compress_run_finishes [OF j(1-3) [unfolded J] j(4) b [unfolded J]] obtain es where es: "\<forall>e \<in> set es. healthy_event e"
    "compress_run (cfg\<lparr>pc_events := pc_events cfg @ es\<rparr>) sw w i q' inp (unat sl) dest (unat dl) \<noteq> None" by blast
  let ?cfg = "cfg\<lparr>pc_events := pc_events cfg @ es\<rparr>"
  have c: "J = call_job ?cfg q' (unat sl) (unat dl)" "healthy J (pc_hw ?cfg) inp" "fresh_pipe J inp (call_pipe ?cfg i q' inp dest)"
    "\<forall>e \<in> set (pc_events ?cfg). healthy_event e"
    using j(2-4) es(1) by (auto simp: J call_job_def call_pipe_def)
  from compress_call_outcome [OF rd fh lst q' c(1) j(1) c(2-4) es(2), of Z post ext] show ?thesis using es(1) by blast
qed

theorem compress_call_finishes_witness:
  "\<exists>es st used made dest' B. qzCompressCrcExt one_env (compress_run ((nine_cfg [Claim, Setup])\<lparr>pc_events := [Claim, Setup] @ es\<rparr>) (\<lambda>w d n l. (QZ_FAIL, 0, [], w)) ()) store_libs no_post True
      (Some nine_bytes) (Some 9) (Some (replicate 100 0)) (Some 100) 1 None None (one_api QZ_OK two_gzip) = Returned (st, used, made, dest', None, B)"
proof -
  let ?q = "run_session 4 9 100 True (two_gzip\<lparr>sess_crc := None\<rparr>)" and ?cfg = "nine_cfg [Claim, Setup]"
  let ?J = "nine_job\<lparr>j_params := sess_params two_gzip\<rparr>"
  have J: "call_job ?cfg ?q 9 100 = ?J"
    by (simp add: call_job_def nine_cfg_def nine_job_def run_session_def reset_session_def two_gzip_def small_gzip_def zero_sess_def Let_def)
  have P: "call_pipe ?cfg 0 ?q nine_bytes (replicate 100 0) = two_buffers nine_bytes 100"
    by (simp add: call_pipe_def nine_cfg_def two_buffers_def run_session_def reset_session_def two_gzip_def small_gzip_def zero_sess_def Let_def fun_eq_iff)
  have j: "job_ok ?J nine_bytes" by (simp add: job_ok_def nine_job_def j_hw_def j_fmt_def two_gzip_def small_gzip_def fmt_size_defs)
  have "fresh_pipe ?J nine_bytes (two_buffers nine_bytes 100)"
    using two_buffers_fresh by (simp add: fresh_pipe_def mem_inv_def j_hw_def nine_job_def two_gzip_def small_gzip_def)
  note p = this [folded P]
  have c: "pc_hw ?cfg = store_hw" "pc_events ?cfg = [Claim, Setup]" "streams (pc_pipe ?cfg 0) = [free_stream 0, free_stream 1]"
    by (simp_all add: nine_cfg_def two_buffers_def)
  have e: "\<forall>e \<in> set (pc_events ?cfg). healthy_event e" by (simp add: c)
  have hw: "comp_for_hw one_env two_gzip 9" "0 < i_req_cnt_thrshold (sess_params two_gzip)"
    "unat (i_req_cnt_thrshold (sess_params two_gzip)) \<le> length (streams (pc_pipe ?cfg 0))" "i_hw_buff_sz (sess_params two_gzip) = 4"
    by (simp_all add: comp_for_hw_def one_env_def two_gzip_def small_gzip_def zero_sess_def zero_params_def c)
  have rd: "ready_for one_env (one_api QZ_OK two_gzip) 0 two_gzip"
    unfolding ready_for_def
    by (rule conjI, rule one_started) (simp add: one_api_def one_instance_def one_env_def two_gzip_def small_gzip_def zero_sess_def zero_params_def
      g_sess_params_internal_default_def insts_of_def free_wanted_def wanted_def qzCheckInstCap_def all_caps_def empty_inst_def)
  have v: "unat (i_hw_buff_sz (sess_params two_gzip)) = 4" "unat (9 :: u32) = 9" "unat (100 :: u32) = 100" by (simp_all add: hw(4))
  note call = compress_call_finishes [OF rd hw(1), where lst = 1 and crc = None and dl = 100 and q' = ?q and cfg = ?cfg and J = ?J
      and inp = nine_bytes and dest = "replicate 100 0" and sw = "\<lambda>w d n l. (QZ_FAIL, 0, [], w)" and w = "()"
      and Z = store_libs and post = no_post and ext = None, unfolded v J simp_thms, OF TrueI TrueI TrueI j _ p e hw(2,3)]
  have "healthy ?J (pc_hw ?cfg) nine_bytes" unfolding c(1) by (rule store_hw_healthy [OF j])
  from call [OF this] show ?thesis unfolding c(2) by blast
qed

end
