(* ===== verification/ApiDecomp.thy ===== *)
theory ApiDecomp
  imports ApiCorrect
begin

text \<open>
  The call for decompression over the pipeline of \<open>DecompPipe\<close>, from its arguments to its results.
\<close>

section \<open>The run of a call\<close>

definition d_call_pipe :: "PipeCfg \<Rightarrow> nat \<Rightarrow> QzSess \<Rightarrow> bytes \<Rightarrow> bytes \<Rightarrow> Pipe" where
  "d_call_pipe cfg i q inp dest = (call_pipe cfg i q inp dest)\<lparr>end_of_stream := qzdeflateExtData q\<rparr>"

definition d_call_begin :: "PipeCfg \<Rightarrow> nat \<Rightarrow> QzSess \<Rightarrow> bytes \<Rightarrow> nat \<Rightarrow> bytes \<Rightarrow> nat \<Rightarrow> 'w \<Rightarrow> 'w Decomp" where
  "d_call_begin cfg i q inp n dest m w =
    d_call_start (call_job cfg q n m) q (single_thread q) (d_call_pipe cfg i q inp dest) w"

definition d_call_session :: "'w Decomp \<Rightarrow> QzSess" where
  "d_call_session x = (call_session (d_sess x) (d_pipe x))\<lparr>qzdeflateExtData := end_of_stream (d_pipe x)\<rparr>"

text \<open>\<open>None\<close> when a step faults, or when the steps do not end the call.\<close>

definition decompress_run :: "PipeCfg \<Rightarrow> devent list \<Rightarrow> 'w sw_decomp \<Rightarrow> 'w \<Rightarrow> hw_run" where
  "decompress_run cfg es sw w i q inp n dest m =
    (case decomp_run (call_job cfg q n m) (pc_hw cfg) sw es (d_call_begin cfg i q inp n dest m w) of None \<Rightarrow> None
     | Some x \<Rightarrow> if \<not> q_last_processed (d_pipe x) then None
         else Some \<lparr>r_sess = d_call_session x, r_stat = q_stat (d_pipe x), r_next = p_off (q_next_dest (d_pipe x)),
           r_dest = pmem (d_pipe x) BDest\<rparr>)"

section \<open>The parameters of the session stay\<close>

lemma checkHeader_params:
  "checkHeader q p n d h = Returned (rc, q', h') \<Longrightarrow> sess_params q' = sess_params q"
  by (auto simp: checkHeader_def checkHeader_decide_def Let_def split: if_split_asm hdr_scan.split_asm dest!: obind_dest)

lemma d_sess_simps [simp]:
  "d_sess (decomp_advance J n m x) = d_sess x" "d_sess (decomp_in_error x) = d_sess x" "d_sess (decomp_claim J x) = d_sess x"
  "d_sess (decomp_in_start J x) = d_sess x" "d_sess (decomp_out_start J x) = d_sess x" "d_sess (decomp_start J q P w) = q"
  by (simp_all add: decomp_advance_def decomp_in_error_def decomp_claim_def decomp_in_start_def decomp_out_start_def decomp_start_def Let_def)

lemma fallback_sess: "decompInSWFallback J sw x = Some (rc, n, m, x') \<Longrightarrow> d_sess x' = d_sess x"
  by (auto simp: decompInSWFallback_def Let_def split: if_split_asm prod.split_asm bind_split_asm)

lemma in_fallback_sess: "decomp_in_fallback J sw x = Some x' \<Longrightarrow> d_sess x' = d_sess x"
  by (auto simp: decomp_in_fallback_def split: if_split_asm bind_split_asm dest!: fallback_sess)

lemma check_sess: "decomp_check J sw x = Some x' \<Longrightarrow> sess_params (d_sess x') = sess_params (d_sess x)"
  by (auto simp: decomp_check_def Let_def split: if_split_asm outcome.split_asm prod.split_asm dest!: in_fallback_sess dest: checkHeader_params)

lemma submit_sess: "decomp_submit J sw j n m ok x = Some x' \<Longrightarrow> d_sess x' = d_sess x"
  by (auto simp: decomp_submit_def Let_def split: if_split_asm dest!: in_fallback_sess)

lemma collect_sess: "decomp_collect J sw x = Some x' \<Longrightarrow> d_sess x' = d_sess x"
  by (auto simp: decomp_collect_def Let_def split: if_split_asm prod.split_asm bind_split_asm)

lemma step_params: "decomp_step J hw sw e x = Some x' \<Longrightarrow> sess_params (d_sess x') = sess_params (d_sess x)"
  by (cases e) (auto simp: decomp_step_def decomp_setup_def Let_def split: if_split_asm dphase.split_asm prod.split_asm bind_split_asm
      dest!: check_sess submit_sess collect_sess)

lemma run_params: "decomp_run J hw sw es x = Some x' \<Longrightarrow> sess_params (d_sess x') = sess_params (d_sess x)"
  by (induction es arbitrary: x) (auto split: bind_split_asm dest: step_params)

section \<open>Composition\<close>

text \<open>What sends a call to the hardware and keeps the latency sensitive mode out.\<close>

definition decomp_for_hw :: "QzSess \<Rightarrow> bytes \<Rightarrow> u32 \<Rightarrow> bool" where
  "decomp_for_hw q inp sl \<longleftrightarrow> sl \<noteq> 0 \<and> small_ext inp q = Returned False \<and> isQATProcessable inp sl q = Returned (1, q) \<and>
     inflate_stat q \<noteq> InflateOK \<and> i_is_sensitive_mode (sess_params q) \<noteq> 1"

lemma decompress_run_shows:
  fixes cfg q inp dest n m
  defines "J \<equiv> call_job cfg q n m"
  assumes j: "d_job_ok J q inp" "members J q inp l e" "d_healthy J q (pc_hw cfg) inp l" "fresh_pipe J inp (d_call_pipe cfg i q inp dest)"
      "\<forall>a \<in> set es. d_healthy_event a"
    and r: "decompress_run cfg es sw w i q inp n dest m \<noteq> None"
  shows "\<exists>r k. decompress_run cfg es sw w i q inp n dest m = Some r \<and> sess_params (r_sess r) = sess_params q \<and> seq (r_sess r) = seq_in (r_sess r) \<and>
    r_next r = length (d_outs J q (pc_hw cfg) inp k) \<and> qz_out_len (r_sess r) = of_nat (r_next r) \<and> r_next r < 2 ^ 32 \<and>
    qz_in_len (r_sess r) = of_nat (src_off J q inp k) \<and> take (r_next r) (r_dest r) = d_outs J q (pc_hw cfg) inp k \<and>
    r_stat r = e \<and> k \<le> l \<and> (e \<noteq> QZ_DATA_ERROR \<longrightarrow> k = l)"
proof -
  let ?hw = "pc_hw cfg"
  have "d_inv J q ?hw inp l e (d_call_begin cfg i q inp n dest m w)"
    unfolding d_call_begin_def J_def [symmetric] by (rule decomp_start_inv [OF j(1,2,4)])
  from decomp_run_inv [OF j(1-3) this j(5), of sw] obtain x where
    x: "decomp_run J ?hw sw es (d_call_begin cfg i q inp n dest m w) = Some x" "d_inv J q ?hw inp l e x" by blast
  have d: "q_last_processed (d_pipe x)" using r x(1) by (simp add: decompress_run_def J_def [symmetric] split: if_splits)
  have s: "q_seq_in (d_pipe x) = q_seq (d_pipe x)" using d_invD(2) [OF x(2)] d by (simp add: d_local_def Let_def)
  from d_inv_shows [OF x(2) j(3)] obtain k where k: "k \<le> l" "shows_members J q ?hw inp (d_pipe x) k"
    "q_stat (d_pipe x) = e" "e \<noteq> QZ_DATA_ERROR \<longrightarrow> k = l" using d by blast
  note b = k(2) [unfolded shows_members_def]
  have "q_out_len (d_pipe x) \<le> j_dest_sz J"
    using b length_d_outs [OF j(3) k(1)] dest_off_le [OF j(2,1) k(1)] by simp
  then have o: "q_out_len (d_pipe x) < 2 ^ 32" using j(1) by (simp add: d_job_ok_def)
  have p: "sess_params (d_sess x) = sess_params q" using run_params [OF x(1)] by (simp add: d_call_begin_def d_call_start_def)
  show ?thesis
    unfolding decompress_run_def J_def [symmetric] x(1) option.case if_not_P [OF not_not [THEN iffD2, OF d]]
    by (intro exI conjI, rule refl) (use b s p k(1,3,4) o in \<open>auto simp: call_session_def d_call_session_def\<close>)
qed

text \<open>C9: (decompress_call) A decompression that reaches a healthy instance, from the arguments of the call to its results: whatever the interleaving of the
  threads and the order of the driver's answers, in two threads or in one, the code is that of the end of the source, and the two lengths and the destination
  are those of the first members, in order: of all of them unless the code is \<^verbatim>\<open>QZ_DATA_ERROR\<close>. The process is left as it was.\<close>

theorem decompress_call:
  assumes rd: "ready_for env A i q" and q1: "q1 = setDeflateEndOfStream q 0" and fh: "decomp_for_hw q1 inp sl"
    and q': "q' = run_session (unat (i_hw_buff_sz (sess_params q) div 2)) (unat sl) (unat dl) False q1"
    and J: "J = call_job cfg q' (unat sl) (unat dl)"
    and j: "d_job_ok J q' inp" "members J q' inp l e" "d_healthy J q' (pc_hw cfg) inp l" "fresh_pipe J inp (d_call_pipe cfg i q' inp dest)"
      "\<forall>a \<in> set es. d_healthy_event a"
    and e: "e = QZ_OK \<or> e = QZ_BUF_ERROR \<or> e = QZ_DATA_ERROR"
    and finished: "decompress_run cfg es sw w i q' inp (unat sl) dest (unat dl) \<noteq> None"
  shows "\<exists>k dest' B. qzDecompressCrcExt env (decompress_run cfg es sw w) Z True (Some inp) (Some sl) (Some dest) (Some dl) ext A =
      Returned (e, Some (of_nat (src_off J q' inp k)), Some (of_nat (length (d_outs J q' (pc_hw cfg) inp k))), dest', ext, B) \<and>
    take (length (d_outs J q' (pc_hw cfg) inp k)) dest' = d_outs J q' (pc_hw cfg) inp k \<and> a_proc B = a_proc A \<and>
    k \<le> l \<and> (e \<noteq> QZ_DATA_ERROR \<longrightarrow> k = l)"
proof -
  let ?run = "decompress_run cfg es sw w" and ?A = "on_q (\<lambda>q. setDeflateEndOfStream q 0) A" and ?hw = "pc_hw cfg"
  let ?fin = "\<lambda>(rc, sl, dl, dest, B). Returned (rc, Some sl, Some dl, dest, ext, B)"
  have rd': "ready_for env ?A i q1" using rd unfolding q1 by (simp add: ready_for_def started_def on_q_def setDeflateEndOfStream_def)
  have sp: "sess_params q1 = sess_params q" by (simp add: q1)
  have ps: "sess_params q' = sess_params q" by (simp add: q' sp run_session_def reset_session_def Let_def)
  from decompress_run_shows [OF j(1-4) [unfolded J] j(5) finished] obtain r k where r: "?run i q' inp (unat sl) dest (unat dl) = Some r"
    "sess_params (r_sess r) = sess_params q" "seq (r_sess r) = seq_in (r_sess r)" "r_next r = length (d_outs J q' ?hw inp k)"
    "qz_out_len (r_sess r) = of_nat (r_next r)" "r_next r < 2 ^ 32" "qz_in_len (r_sess r) = of_nat (src_off J q' inp k)"
    "take (r_next r) (r_dest r) = d_outs J q' ?hw inp k" "r_stat r = e" "k \<le> l" "e \<noteq> QZ_DATA_ERROR \<longrightarrow> k = l"
    unfolding J [symmetric] ps by blast
  have st: "r_stat r = QZ_OK \<or> \<not> decomp_again (r_stat r)" using r(9) e by (auto simp: decomp_again_def)
  have ns: "i_is_sensitive_mode (sess_params (r_sess r)) \<noteq> 1" "i_data_fmt (sess_params q) \<noteq> LZ4S_BK"
    using fh r(2) sp j(1) ps by (auto simp: decomp_for_hw_def d_job_ok_def j_fmt_def)
  have a: "internal (a_sess ?A) = Some q1" "qz_init_status (a_proc ?A) = QZ_OK" "hw_session_stat (a_sess ?A) = QZ_OK"
    using rd' by (simp_all add: ready_for_def started_def)
  have aq: "internal (a_sess A) = Some q" "qz_init_status (a_proc A) = QZ_OK" "hw_session_stat (a_sess A) = QZ_OK"
    using rd by (simp_all add: ready_for_def started_def)
  have u: "on_q (\<lambda>_. q1) ?A = ?A" by (simp add: on_q_def aq q1)
  have "decomp_needs_sw inp sl ?A = Returned (False, ?A)"
    using fh by (simp add: decomp_needs_sw_def decomp_for_hw_def Let_def a aq u)
  then have "decomp_ready env ?run Z inp sl dest dl ext A =
      hw_path env ?run (unat (i_hw_buff_sz (sess_params q) div 2)) False decomp_again (decomp_sw env Z) ?fin inp sl dest dl ext ?A"
    using fh a sp ns by (simp add: decomp_ready_def Let_def decomp_for_hw_def)
  moreover from hw_path_ready [where run = "decompress_run cfg es sw w" and q = q1 and unit = "unat (i_hw_buff_sz (sess_params q) div 2)"
      and lst = False and i = i and sl = sl and dl = dl and fin = ?fin and sw = "decomp_sw env Z" and again = decomp_again and ext = ext,
      OF rd' r(1) [unfolded q'] ns(1) r(3) st r(6,5)]
  obtain B where B: "hw_path env ?run (unat (i_hw_buff_sz (sess_params q) div 2)) False decomp_again (decomp_sw env Z) ?fin inp sl dest dl ext ?A =
      Returned (r_stat r, Some (ucast (qz_in_len (r_sess r))), Some (of_nat (r_next r)), r_dest r, ext, B)" "a_proc B = a_proc A" by (auto simp: on_q_def)
  moreover have "ucast (qz_in_len (r_sess r)) = (of_nat (src_off J q' inp k) :: u32)"
    unfolding r(7) by (rule ucast_of_nat_down)
  ultimately have c: "qzDecompressCrcExt env ?run Z True (Some inp) (Some sl) (Some dest) (Some dl) ext A =
      Returned (r_stat r, Some (of_nat (src_off J q' inp k)), Some (of_nat (length (d_outs J q' ?hw inp k))), r_dest r, ext, B)"
    using fh api_ready_ready [OF rd] r(4) by (auto simp: qzDecompressCrcExt_def decomp_for_hw_def)
  show ?thesis
    unfolding c by (rule exI [of _ k], rule exI [of _ "r_dest r"], rule exI [of _ B]) (use r(4,8-11) B(2) in simp)
qed

text \<open>Two members of the four-byte format through the call.\<close>

definition two_cfg :: PipeCfg where
  "two_cfg = \<lparr>pc_pipe = (\<lambda>_. two_buffers two_members 8), pc_cont = True, pc_pinned = (\<lambda>_. False), pc_crc = (\<lambda>a b n. 0),
     pc_hw = store_hw, pc_events = []\<rparr>"

abbreviation two_sess :: QzSess where "two_sess \<equiv> run_session 2 16 8 False four_sess"

lemma two_job_eq: "call_job two_cfg two_sess 16 8 = four_job\<lparr>j_last := False\<rparr>"
  by (simp add: call_job_def two_cfg_def four_job_def four_sess_def run_session_def reset_session_def zero_sess_def Let_def)

lemma two_job_ok: "d_job_ok (four_job\<lparr>j_last := False\<rparr>) two_sess two_members"
  by (simp add: d_job_ok_def four_job_def four_sess_def j_hw_def j_fmt_def zero_params_def run_session_def reset_session_def Let_def)

lemma two_members_shown: "members (four_job\<lparr>j_last := False\<rparr>) two_sess two_members 2 QZ_OK"
  by code_simp

lemma two_sizes:
  "(m_csz (four_job\<lparr>j_last := False\<rparr>) two_sess two_members 0, m_usz (four_job\<lparr>j_last := False\<rparr>) two_sess two_members 0,
    length (m_data (four_job\<lparr>j_last := False\<rparr>) two_sess two_members 0)) = (4, 4, 4)"
  "(m_csz (four_job\<lparr>j_last := False\<rparr>) two_sess two_members 1, m_usz (four_job\<lparr>j_last := False\<rparr>) two_sess two_members 1,
    length (m_data (four_job\<lparr>j_last := False\<rparr>) two_sess two_members 1)) = (4, 4, 4)"
  by code_simp+

lemma two_healthy: "d_healthy (four_job\<lparr>j_last := False\<rparr>) two_sess store_hw two_members 2"
proof -
  have "j_fmt (four_job\<lparr>j_last := False\<rparr>) = DEFLATE_4B" by (simp add: four_job_def j_fmt_def)
  moreover have "k = 0 \<or> k = 1" if "k < 2" for k :: nat using that by auto
  ultimately show ?thesis
    using two_sizes by (fastforce simp: d_healthy_def d_answer_def d_res_def d_out_def store_hw_def)
qed

lemma two_pipe: "d_call_pipe two_cfg 0 two_sess two_members (replicate 8 0) = two_buffers two_members 8"
  by (simp add: d_call_pipe_def call_pipe_def two_cfg_def two_buffers_def run_session_def reset_session_def four_sess_def zero_sess_def Let_def fun_eq_iff)

lemma two_fresh: "fresh_pipe (four_job\<lparr>j_last := False\<rparr>) two_members (two_buffers two_members 8)"
  by (simp add: fresh_pipe_def mem_inv_def two_buffers_def free_stream_def four_job_def j_hw_def block_dest_sz_eq
      unused_def clean_def home_def All_less_Suc2)

lemma four_ready: "ready_for one_env (one_api QZ_OK four_sess) 0 four_sess"
  unfolding ready_for_def
  by (rule conjI, rule one_started) (simp add: one_api_def one_instance_def one_env_def four_sess_def four_job_def zero_sess_def zero_params_def
      g_sess_params_internal_default_def insts_of_def free_wanted_def wanted_def qzCheckInstCap_def all_caps_def empty_inst_def)

lemma four_for_hw: "decomp_for_hw four_sess two_members 16"
  unfolding decomp_for_hw_def by (intro conjI) (code_simp+)

theorem decompress_call_witness:
  "\<exists>es dest' B. qzDecompressCrcExt one_env (decompress_run two_cfg es (\<lambda>w d n. (QZ_FAIL, 0, [], w)) ()) store_libs True
      (Some two_members) (Some 16) (Some (replicate 8 0)) (Some 8) None (one_api QZ_OK four_sess) =
      Returned (QZ_OK, Some (of_nat (src_off (four_job\<lparr>j_last := False\<rparr>) two_sess two_members 2)),
        Some (of_nat (length (d_outs (four_job\<lparr>j_last := False\<rparr>) two_sess store_hw two_members 2))), dest', None, B)"
proof -
  let ?J = "four_job\<lparr>j_last := False\<rparr>" and ?sw = "\<lambda>w d n. (QZ_FAIL, 0, [], w)"
  have "d_inv ?J two_sess store_hw two_members 2 QZ_OK (d_call_begin two_cfg 0 two_sess two_members 16 (replicate 8 0) 8 ())"
    unfolding d_call_begin_def two_job_eq two_pipe by (rule decomp_start_inv [OF two_job_ok two_members_shown two_fresh])
  from decomp_completes [OF two_job_ok two_members_shown two_healthy this] obtain es x where es: "\<forall>a \<in> set es. d_healthy_event a"
    "decomp_run ?J store_hw ?sw es (d_call_begin two_cfg 0 two_sess two_members 16 (replicate 8 0) 8 ()) = Some x"
    "q_last_processed (d_pipe x)" by blast
  have c: "pc_hw two_cfg = store_hw" by (simp add: two_cfg_def)
  have f: "decompress_run two_cfg es ?sw () 0 two_sess two_members 16 (replicate 8 0) 8 \<noteq> None"
    unfolding decompress_run_def two_job_eq c es(2) using es(3) by simp
  have q: "setDeflateEndOfStream four_sess 0 = four_sess" by (simp add: setDeflateEndOfStream_def four_sess_def zero_sess_def)
  have v: "unat (i_hw_buff_sz (sess_params four_sess) div 2) = 2" "unat (16 :: u32) = 16" "unat (8 :: u32) = 8"
    by (simp_all add: four_sess_def four_job_def)
  have h: "d_healthy ?J two_sess (pc_hw two_cfg) two_members 2" unfolding c by (rule two_healthy)
  have p: "fresh_pipe ?J two_members (d_call_pipe two_cfg 0 two_sess two_members (replicate 8 0))" unfolding two_pipe by (rule two_fresh)
  note call = decompress_call [OF four_ready, where ?q1.0 = four_sess and inp = two_members and sl = 16 and dl = 8 and q' = two_sess and cfg = two_cfg
      and J = ?J and dest = "replicate 8 0" and es = es and sw = ?sw and w = "()" and Z = store_libs and ext = None and e = QZ_OK and l = 2]
  obtain k dest' B where r: "qzDecompressCrcExt one_env (decompress_run two_cfg es ?sw ()) store_libs True
      (Some two_members) (Some 16) (Some (replicate 8 0)) (Some 8) None (one_api QZ_OK four_sess) =
      Returned (QZ_OK, Some (of_nat (src_off ?J two_sess two_members k)),
        Some (of_nat (length (d_outs ?J two_sess store_hw two_members k))), dest', None, B)" "k = 2"
    using call [unfolded v two_job_eq c q simp_thms, OF TrueI four_for_hw TrueI TrueI two_job_ok two_members_shown two_healthy p es(1) TrueI f]
    by (elim exE conjE) (rule that, assumption, simp)
  show ?thesis
    by (rule exI [of _ es], rule exI [of _ dest'], rule exI [of _ B]) (rule r(1) [unfolded r(2)])
qed

end
