(* ===== verification/CompFaults.thy ===== *)
theory CompFaults
  imports CompOrder
begin

text \<open>
  Where the compression pipeline does not keep its promise: a destination smaller than a header, the
  software fallback of a zero-copy request, and the software fallback of a block on an instance that
  is down.
\<close>

text \<open>(room for the hardware) The room given to the hardware is the smaller of the destination and
  \<open>DEST_SZ\<close> of the block, less the header, as long as the destination can hold a header; with a
  smaller destination the 32-bit subtraction wraps and the room is within a header's length of four
  gigabytes.\<close>

theorem dest_room_wraps:
  assumes "j_dest_sz J < 2 ^ 32" "n \<le> j_hw J" "j_hw J \<le> 524288"
  shows "int (dest_room J n) = int (min (j_dest_sz J) (block_dest_sz n)) - int (outputHeaderSz (j_fmt J)) +
    (if j_dest_sz J < outputHeaderSz (j_fmt J) then 2 ^ 32 else 0)"
proof -
  let ?m = "min (j_dest_sz J) (block_dest_sz n)" and ?h = "outputHeaderSz (j_fmt J)"
  have b: "block_dest_sz n = 9 * n div 8 + 1024" using assms by (intro block_dest_sz_eq) simp
  then have h: "?h \<le> 32" "?h < block_dest_sz n" using header_small [of "j_fmt J"] by simp_all
  have u: "unat (of_nat ?h :: u32) = ?h" "unat (of_nat ?m :: u32) = ?m"
    using h assms by (simp_all add: unat_of_nat min_less_iff_disj)
  show ?thesis
  proof (cases "?h \<le> j_dest_sz J")
    case True
    then have "?h \<le> ?m" using h by simp
    then have "dest_room J n = ?m - ?h" unfolding dest_room_def by (simp add: unat_sub_le word_le_nat_alt u)
    with True \<open>?h \<le> ?m\<close> show ?thesis by (simp add: of_nat_diff)
  next
    case False
    then have m: "?m = j_dest_sz J" using h by simp
    have "unat ((of_nat ?m :: u32) - of_nat ?h) = 2 ^ 32 - ?h + ?m"
      using False u m h(1) by (simp add: unat_sub_if_size word_size)
    with False h m show ?thesis by (simp add: dest_room_def)
  qed
qed

theorem dest_room_wraps_witness:
  "int (dest_room (nine_job\<lparr>j_dest_sz := 3\<rparr>) 4) = 4294967289"
  using dest_room_wraps [of "nine_job\<lparr>j_dest_sz := 3\<rparr>" 4]
  by (simp add: nine_job_def j_hw_def j_fmt_def fmt_size_defs block_dest_sz_eq)

text \<open>An instance that needs no contiguous memory, so that the first request writes into the
  destination; a driver whose requests all fail, and a software compressor that makes members of
  twenty bytes.\<close>

definition zero_copy_job :: Job where
  "zero_copy_job = nine_job\<lparr>j_params := (j_params nine_job)\<lparr>i_sw_backup := 1\<rparr>, j_src_sz := 4, need_cont_mem := False\<rparr>"

definition failing_hw :: hardware where
  "failing_hw x fin cap = (-1, \<lparr>res_status = -1, produced = 0, consumed = 0, checksum = 0, endOfLastBlock = False\<rparr>, [])"

definition twenty_sw :: "unit software" where
  "twenty_sw w x cap lst = (QZ_OK, length x, map of_nat [1..<21], w)"

text \<open>(zero-copy fallback) When the hardware fails on the zero-copy request, the software member is
  written behind the place of a header that never comes: the call returns QZ_OK and reports the
  member's length, but the destination starts with ten bytes that were never written and the last
  ten bytes of the member are missing.\<close>

theorem zero_copy_fallback_shifts:
  "map_option (\<lambda>x. (q_stat (pipe x), out_done x, q_in_len (pipe x), q_out_len (pipe x), take 20 (pmem (pipe x) BDest)))
     (comp_run zero_copy_job failing_hw twenty_sw [Claim, Setup, Submit True, Respond 0, Collect, Collect]
       (call_start zero_copy_job False (two_buffers [1, 2, 3, 4] 100) ())) =
   Some (QZ_OK, True, 4, 20, replicate 10 0 @ [1, 2, 3, 4, 5, 6, 7, 8, 9, 10])"
  by code_simp

text \<open>(fallback overflow) On an instance that is down the block is compressed in software into the
  destination with the room of \<open>DEST_SZ\<close> of the block, whatever is left of the destination: a
  software compressor that keeps to that room writes behind a smaller destination.\<close>

theorem fallback_overflows:
  "block_dest_sz 4 = 1028 \<and>
   comp_run (zero_copy_job\<lparr>j_dest_sz := 19\<rparr>) failing_hw twenty_sw [Beat False, Fallback]
     (call_start zero_copy_job False (two_buffers [1, 2, 3, 4] 19) ()) = None"
  by (rule conjI; code_simp)

end
