(* ===== verification/Stream.thy ===== *)
theory Stream
  imports Format
begin

text \<open>
  The streaming interface (\<^verbatim>\<open>src/qatzip_stream.c\<close>): a stream keeps an input and an output buffer of
  \<open>buf_len\<close> bytes between calls; a call copies input until the buffer is full (or the input is the
  last), hands the buffer to \<open>qzCompressCrc\<close> or \<open>qzDecompress\<close> and copies the output out. This
  call is an argument here, the engine: from its state, the input, the room for output, the last
  flag and the checksum it gives a code, the number of input bytes consumed, the output, the new
  checksum and its new state.

  Counters are natural numbers below \<open>2 ^ 32\<close>; where the C subtraction would wrap, and where a
  copy would leave a buffer, the model returns \<open>Fault\<close>. The two loops take fuel: every round
  takes a byte out of the buffer or ends the call, so the buffer's length and the input's length
  and one more are enough for an engine that makes progress.
\<close>

type_synonym 'c engine =
  "'c \<Rightarrow> bytes \<Rightarrow> nat \<Rightarrow> bool \<Rightarrow> u32 \<Rightarrow> status \<times> nat \<times> bytes \<times> u32 \<times> 'c"

record QzStreamBuf =
  buf_len :: nat
  in_buf :: bytes
  out_buf :: bytes
  out_offset :: nat
  in_offset :: nat
  flush_more :: bool

record QzStream =
  in_sz :: nat
  out_sz :: nat
  pending_in :: nat
  pending_out :: nat
  crc_32 :: u32
  opaque :: "QzStreamBuf option"

text \<open>The local variables of a call. \<open>outp\<close> is what was written to the caller's output
  (\<open>produced\<close> is its length), \<open>eng\<close> the engine's state.\<close>

record 'c Call =
  l_strm :: QzStream
  l_sb :: QzStreamBuf
  copied_input :: nat
  copied_last :: nat
  l_consumed :: nat
  copy_more :: bool
  inbuf_offset :: nat
  outp :: bytes
  eng :: 'c

section \<open>Copying\<close>

definition copyStreamInput :: "bytes \<Rightarrow> 'c Call \<Rightarrow> 'c Call outcome" where
  "copyStreamInput inp L =
    (let s = l_strm L; sb = l_sb L; avail = buf_len sb - pending_in s;
         cpy = (if in_sz s > avail then avail else in_sz s)
     in if buf_len sb < pending_in s \<or> length inp < l_consumed L + cpy \<or>
           length (in_buf sb) < pending_in s + cpy then Fault
        else Returned (L\<lparr>
          l_sb := sb\<lparr>in_buf := put_bytes (in_buf sb) (pending_in s) (take cpy (drop (l_consumed L) inp))\<rparr>,
          l_strm := s\<lparr>pending_in := pending_in s + cpy, in_sz := in_sz s - cpy\<rparr>,
          copied_input := copied_input L + cpy\<rparr>))"

text \<open>The output copy, and the number of bytes copied.\<close>

definition copyStreamOutput :: "'c Call \<Rightarrow> (nat \<times> 'c Call) outcome" where
  "copyStreamOutput L =
    (let s = l_strm L; sb = l_sb L;
         cpy = (if pending_out s > out_sz s then out_sz s else pending_out s)
     in if length (out_buf sb) < out_offset sb + cpy then Fault
        else Returned (cpy, L\<lparr>
          outp := outp L @ take cpy (drop (out_offset sb) (out_buf sb)),
          l_strm := s\<lparr>out_sz := out_sz s - cpy, pending_out := pending_out s - cpy\<rparr>,
          l_sb := sb\<lparr>out_offset := (if pending_out s - cpy = 0 then 0 else out_offset sb + cpy)\<rparr>\<rparr>))"

section \<open>Compression\<close>

datatype 'a loop = Exit status 'a | Next 'a

text \<open>The first loop: hand out what is pending from an earlier call.\<close>

fun comp_drain :: "nat \<Rightarrow> 'c Call \<Rightarrow> 'c Call loop outcome" where
  "comp_drain 0 L = OutOfFuel"
| "comp_drain (Suc n) L =
    (if pending_out (l_strm L) > 0 then
       obind (copyStreamOutput L) (\<lambda>(cpy, L).
         let s = l_strm L in
         if cpy = 0 \<or> pending_out s = 0 \<and> pending_in s = 0 \<and> in_sz s = 0 then
           Returned (Exit QZ_OK (if pending_in s > 0 then L\<lparr>l_sb := (l_sb L)\<lparr>flush_more := True\<rparr>\<rparr> else L))
         else comp_drain n L)
     else Returned (Next L))"

text \<open>Fill the buffer unless data of an earlier call must be flushed; \<open>has_in\<close> says that the
  caller's input pointer is not NULL.\<close>

definition comp_fill :: "bool \<Rightarrow> bytes \<Rightarrow> bool \<Rightarrow> 'c Call \<Rightarrow> 'c Call loop outcome" where
  "comp_fill has_in inp lst L =
    (if copy_more L \<and> \<not> flush_more (l_sb L) then
       (let L = L\<lparr>copied_last := copied_input L\<rparr> in
        obind (if has_in then copyStreamInput inp L else Returned L) (\<lambda>L.
          if pending_in (l_strm L) < buf_len (l_sb L) \<and> \<not> lst then Returned (Exit QZ_OK L)
          else Returned (Next (L\<lparr>copy_more := False\<rparr>))))
     else Returned (Next L))"

text \<open>The call of the engine on the pending input; compression stores the checksum.\<close>

definition engine_call :: "'c engine \<Rightarrow> bool \<Rightarrow> bool \<Rightarrow> 'c Call \<Rightarrow> (status \<times> nat \<times> 'c Call) outcome" where
  "engine_call engine with_crc strm_last L =
    (let L = (if flush_more (l_sb L)
              then L\<lparr>inbuf_offset := in_offset (l_sb L), l_sb := (l_sb L)\<lparr>flush_more := False\<rparr>\<rparr> else L);
         s = l_strm L; sb = l_sb L
     in if length (in_buf sb) < inbuf_offset L + pending_in s then Fault
        else
          (case engine (eng L) (take (pending_in s) (drop (inbuf_offset L) (in_buf sb)))
                  (buf_len sb) strm_last (crc_32 s) of (rc, n, out, crc, c) \<Rightarrow>
           if pending_in s < n \<or> length (out_buf sb) < length out then Fault
           else Returned (rc, n, L\<lparr>eng := c,
              l_sb := sb\<lparr>out_buf := put_bytes (out_buf sb) 0 out, in_offset := inbuf_offset L + n\<rparr>,
              inbuf_offset := inbuf_offset L + n,
              l_strm := s\<lparr>pending_in := pending_in s - n, pending_out := length out,
                          crc_32 := (if with_crc then crc else crc_32 s)\<rparr>\<rparr>)))"

definition comp_process :: "'c engine \<Rightarrow> bool \<Rightarrow> 'c Call \<Rightarrow> 'c Call loop outcome" where
  "comp_process engine lst L =
    obind (engine_call engine True (in_sz (l_strm L) = 0 \<and> lst) L) (\<lambda>(rc, n, L).
    obind (copyStreamOutput L) (\<lambda>(_, L).
      let L = L\<lparr>l_consumed := copied_input L\<rparr> in
      if rc = QZ_BUF_ERROR \<and> n = 0 then Returned (Exit QZ_FAIL (L\<lparr>copied_input := copied_last L\<rparr>))
      else if rc \<noteq> QZ_OK \<and> rc \<noteq> QZ_BUF_ERROR
        then Returned (Exit QZ_FAIL (L\<lparr>copied_input := copied_last L\<rparr>))
      else
        let L = (if pending_in (l_strm L) = 0 then L\<lparr>copy_more := True, inbuf_offset := 0\<rparr> else L) in
        if pending_in (l_strm L) = 0 \<and> in_sz (l_strm L) = 0 then Returned (Exit QZ_OK L)
        else Returned (Next L)))"

fun comp_loop :: "nat \<Rightarrow> 'c engine \<Rightarrow> bool \<Rightarrow> bytes \<Rightarrow> bool \<Rightarrow> 'c Call \<Rightarrow> (status \<times> 'c Call) outcome" where
  "comp_loop 0 engine has_in inp lst L = OutOfFuel"
| "comp_loop (Suc k) engine has_in inp lst L =
    (if pending_out (l_strm L) = 0 then
       obind (comp_fill has_in inp lst L) (\<lambda>r.
         case r of Exit rc L \<Rightarrow> Returned (rc, L)
         | Next L \<Rightarrow> obind (comp_process engine lst L) (\<lambda>r.
             case r of Exit rc L \<Rightarrow> Returned (rc, L)
             | Next L \<Rightarrow> comp_loop k engine has_in inp lst L))
     else Returned (QZ_OK, L))"

text \<open>The two loops and the epilogue that reports the input taken and the output written.\<close>

definition start_call :: "QzStream \<Rightarrow> QzStreamBuf \<Rightarrow> 'c \<Rightarrow> 'c Call" where
  "start_call s sb c = \<lparr>l_strm = s, l_sb = sb, copied_input = 0, copied_last = 0, l_consumed = 0,
     copy_more = True, inbuf_offset = 0, outp = [], eng = c\<rparr>"

definition finish_call :: "'c Call \<Rightarrow> QzStream" where
  "finish_call L = (l_strm L)\<lparr>in_sz := copied_input L, out_sz := length (outp L), opaque := Some (l_sb L)\<rparr>"

definition comp_body ::
  "nat \<Rightarrow> 'c engine \<Rightarrow> bool \<Rightarrow> bytes \<Rightarrow> bool \<Rightarrow> 'c Call \<Rightarrow> (status \<times> 'c Call) outcome" where
  "comp_body fuel engine has_in inp lst L =
    obind (comp_drain (pending_out (l_strm L) + 1) L) (\<lambda>r.
      case r of Exit rc L \<Rightarrow> Returned (rc, L)
      | Next L \<Rightarrow> comp_loop fuel engine has_in inp lst L)"

text \<open>What the preliminaries of a call find: \<open>init\<close> is what \<open>initStream\<close> returns for a stream without
  buffers, \<open>init_fail\<close> and \<open>setup_fail\<close> the failures of \<open>qzInit\<close> and of a session setup, \<open>fmt\<close> the
  session's data format. A NULL pointer is \<open>False\<close> in \<open>has_sess\<close>, \<open>has_out\<close> or \<open>has_in\<close>.\<close>

record StreamEnv =
  se_init :: "status \<times> QzStreamBuf option"
  se_init_fail :: bool
  se_setup_fail :: bool
  se_fmt :: DataFormatInternal
  has_sess :: bool
  has_out :: bool
  has_in :: bool

definition qzCompressStream ::
  "'c engine \<Rightarrow> StreamEnv \<Rightarrow> bytes \<Rightarrow> nat \<Rightarrow> QzStream \<Rightarrow> 'c \<Rightarrow>
     (status \<times> QzStream \<times> bytes \<times> 'c) outcome" where
  "qzCompressStream engine env inp lst s c =
    (if \<not> has_sess env \<or> (lst \<noteq> 0 \<and> lst \<noteq> 1) \<or> \<not> has_out env \<or> (\<not> has_in env \<and> in_sz s > 0)
     then Returned (QZ_PARAMS, s\<lparr>in_sz := 0, out_sz := 0\<rparr>, [], c)
     else
       (case (case opaque s of Some sb \<Rightarrow> (QZ_OK, Some sb) | None \<Rightarrow> se_init env) of
          (rc, None) \<Rightarrow> Returned (rc, s\<lparr>in_sz := 0, out_sz := 0\<rparr>, [], c)
        | (rc, Some sb) \<Rightarrow>
            if rc \<noteq> QZ_OK then Returned (rc, s\<lparr>in_sz := 0, out_sz := 0\<rparr>, [], c)
            else
              let s = (if opaque s = None
                       then s\<lparr>opaque := Some sb, pending_in := 0, pending_out := 0, crc_32 := 0\<rparr> else s) in
              if se_init_fail env then Returned (QZ_FAIL, s, [], c)
              else if se_setup_fail env then Returned (QZ_FAIL, s\<lparr>in_sz := 0, out_sz := 0\<rparr>, [], c)
              else if se_fmt env \<noteq> DEFLATE_RAW \<and> se_fmt env \<noteq> DEFLATE_GZIP_EXT
                then Returned (QZ_PARAMS, s\<lparr>in_sz := 0, out_sz := 0\<rparr>, [], c)
              else obind (comp_body (buf_len sb + in_sz s + 1) engine (has_in env) inp (lst = 1) (start_call s sb c))
                     (\<lambda>(rc, L). Returned (rc, finish_call L, outp L, eng L))))"

section \<open>Decompression\<close>

fun decomp_drain :: "nat \<Rightarrow> 'c Call \<Rightarrow> 'c Call loop outcome" where
  "decomp_drain 0 L = OutOfFuel"
| "decomp_drain (Suc n) L =
    (if pending_out (l_strm L) > 0 then
       obind (copyStreamOutput L) (\<lambda>(cpy, L).
         if cpy = 0 then
           Returned (Exit QZ_OK (if pending_in (l_strm L) > 0
             then L\<lparr>l_sb := (l_sb L)\<lparr>flush_more := True\<rparr>\<rparr> else L))
         else decomp_drain n L)
     else Returned (Next L))"

text \<open>An error other than a full output buffer leaves before anything is updated, except that a
  flush in progress was already marked as done.\<close>

definition decomp_process :: "'c engine \<Rightarrow> bool \<Rightarrow> 'c Call \<Rightarrow> 'c Call loop outcome" where
  "decomp_process engine lst L =
    (let L0 = (if flush_more (l_sb L) then L\<lparr>l_sb := (l_sb L)\<lparr>flush_more := False\<rparr>\<rparr> else L) in
    obind (engine_call engine False False L) (\<lambda>(rc, n, L).
    if rc \<noteq> QZ_OK \<and> rc \<noteq> QZ_BUF_ERROR then
      Returned (Exit rc (L0\<lparr>copied_input := copied_last L0, eng := eng L,
                           l_sb := (l_sb L0)\<lparr>out_buf := out_buf (l_sb L)\<rparr>\<rparr>))
    else
    obind (copyStreamOutput (L\<lparr>l_consumed := copied_input L\<rparr>)) (\<lambda>(_, L).
      if rc = QZ_BUF_ERROR \<and> n = 0 then Returned (Exit QZ_FAIL (L\<lparr>copied_input := copied_last L\<rparr>))
      else
        let L = (if pending_in (l_strm L) = 0 then L\<lparr>copy_more := True, inbuf_offset := 0\<rparr> else L) in
        if pending_in (l_strm L) = 0 \<and> in_sz (l_strm L) = 0 then Returned (Exit QZ_OK L)
        else Returned (Next L))))"

fun decomp_loop :: "nat \<Rightarrow> 'c engine \<Rightarrow> bytes \<Rightarrow> bool \<Rightarrow> 'c Call \<Rightarrow> (status \<times> 'c Call) outcome" where
  "decomp_loop 0 engine inp lst L = OutOfFuel"
| "decomp_loop (Suc k) engine inp lst L =
    (if pending_out (l_strm L) = 0 then
       obind (comp_fill True inp lst L) (\<lambda>r.
         case r of Exit rc L \<Rightarrow> Returned (rc, L)
         | Next L \<Rightarrow> obind (decomp_process engine lst L) (\<lambda>r.
             case r of Exit rc L \<Rightarrow> Returned (rc, L)
             | Next L \<Rightarrow> decomp_loop k engine inp lst L))
     else Returned (QZ_OK, L))"

definition decomp_body ::
  "nat \<Rightarrow> 'c engine \<Rightarrow> bytes \<Rightarrow> bool \<Rightarrow> 'c Call \<Rightarrow> (status \<times> 'c Call) outcome" where
  "decomp_body fuel engine inp lst L =
    obind (decomp_drain (pending_out (l_strm L) + 1) L) (\<lambda>r.
      case r of Exit rc L \<Rightarrow> Returned (rc, L)
      | Next L \<Rightarrow> decomp_loop fuel engine inp lst L)"

definition qzDecompressStream ::
  "'c engine \<Rightarrow> StreamEnv \<Rightarrow> bytes \<Rightarrow> nat \<Rightarrow> QzStream \<Rightarrow> 'c \<Rightarrow>
     (status \<times> QzStream \<times> bytes \<times> 'c) outcome" where
  "qzDecompressStream engine env inp lst s c =
    (if \<not> has_sess env \<or> (lst \<noteq> 0 \<and> lst \<noteq> 1) \<or> \<not> has_in env \<or> \<not> has_out env
     then Returned (QZ_PARAMS, s\<lparr>in_sz := 0, out_sz := 0\<rparr>, [], c)
     else
       (case (case opaque s of Some sb \<Rightarrow> (QZ_OK, Some sb) | None \<Rightarrow> se_init env) of
          (rc, None) \<Rightarrow> Returned (rc, s\<lparr>in_sz := 0, out_sz := 0\<rparr>, [], c)
        | (rc, Some sb) \<Rightarrow>
            if rc \<noteq> QZ_OK then Returned (rc, s\<lparr>in_sz := 0, out_sz := 0\<rparr>, [], c)
            else
              let s = (if opaque s = None
                       then s\<lparr>opaque := Some sb, pending_in := 0, pending_out := 0, crc_32 := 0\<rparr> else s) in
              obind (decomp_body (buf_len sb + in_sz s + 1) engine inp (lst = 1) (start_call s sb c))
                (\<lambda>(rc, L). Returned (rc, finish_call L, outp L, eng L))))"

text \<open>\<^verbatim>\<open>qzEndStream\<close>: the second component is the buffers given back to the pool.\<close>

definition qzEndStream :: "bool \<Rightarrow> QzStream \<Rightarrow> status \<times> QzStream \<times> (bytes \<times> bytes) option" where
  "qzEndStream present s =
    (if \<not> present then (QZ_PARAMS, s, None)
     else (QZ_OK, s\<lparr>opaque := None, pending_in := 0, pending_out := 0, in_sz := 0, out_sz := 0\<rparr>,
           (case opaque s of None \<Rightarrow> None | Some sb \<Rightarrow> Some (out_buf sb, in_buf sb))))"

section \<open>Laws of the engine\<close>

text \<open>The documented behaviour of \<^verbatim>\<open>qzCompressCrc\<close> and \<^verbatim>\<open>qzDecompress\<close>: they stay within the sizes they
  are given and make progress, or return an error. An ample engine never runs out of room.\<close>

definition lawful :: "'c engine \<Rightarrow> bool" where
  "lawful e \<longleftrightarrow> (\<forall>c x cap l crc. case e c x cap l crc of (rc, n, out, _, _) \<Rightarrow>
     n \<le> length x \<and> length out \<le> cap \<and> (rc = QZ_OK \<and> x \<noteq> [] \<longrightarrow> 0 < n))"

definition ample :: "'c engine \<Rightarrow> bool" where
  "ample e \<longleftrightarrow> (\<forall>c x cap l crc. case e c x cap l crc of (rc, n, out, _, _) \<Rightarrow>
     rc = QZ_OK \<and> n = length x \<and> length out \<le> cap)"

text \<open>The engine that also records what it consumed and made.\<close>

definition logged :: "'c engine \<Rightarrow> ('c \<times> bytes \<times> bytes) engine" where
  "logged e = (\<lambda>(c, f, g) x cap l crc. case e c x cap l crc of (rc, n, out, crc', c') \<Rightarrow>
     (rc, n, out, crc', (c', f @ take n x, g @ out)))"

lemma ample_lawful: "ample e \<Longrightarrow> lawful e"
  by (fastforce simp: ample_def lawful_def split: prod.splits)

section \<open>The invariant of a call\<close>

text \<open>\<open>T\<close> is the input taken and \<open>D\<close> the output delivered by earlier calls.\<close>

definition call_inv :: "bytes \<Rightarrow> bytes \<Rightarrow> bytes \<Rightarrow> ('c \<times> bytes \<times> bytes) Call \<Rightarrow> bool" where
  "call_inv T D inp L \<longleftrightarrow>
     (case (l_strm L, l_sb L, eng L) of (s, sb, c, f, g) \<Rightarrow>
        0 < buf_len sb \<and> length (in_buf sb) = buf_len sb \<and> length (out_buf sb) = buf_len sb \<and>
        \<not> flush_more sb \<and> copied_input L + in_sz s = length inp \<and>
        (copy_more L \<longrightarrow> inbuf_offset L = 0 \<and> l_consumed L = copied_input L) \<and>
        inbuf_offset L + pending_in s \<le> buf_len sb \<and> out_offset sb + pending_out s \<le> buf_len sb \<and>
        (pending_out s = 0 \<longrightarrow> out_offset sb = 0) \<and>
        f @ take (pending_in s) (drop (inbuf_offset L) (in_buf sb)) = T @ take (copied_input L) inp \<and>
        D @ outp L @ take (pending_out s) (drop (out_offset sb) (out_buf sb)) = g)"

lemma take_add_drop: "n \<le> m \<Longrightarrow> take n (drop k xs) @ take (m - n) (drop (k + n) xs) = take m (drop k xs)"
  by (metis add.commute drop_drop le_add_diff_inverse take_add)

lemma copyStreamOutput_inv:
  assumes inv: "call_inv T D inp L" and c: "cpy = min (pending_out (l_strm L)) (out_sz (l_strm L))"
  obtains L' where "copyStreamOutput L = Returned (cpy, L')" "call_inv T D inp L'"
    "pending_out (l_strm L') = pending_out (l_strm L) - cpy" "pending_in (l_strm L') = pending_in (l_strm L)"
    "in_sz (l_strm L') = in_sz (l_strm L)" "in_offset (l_sb L') = in_offset (l_sb L)"
    "L' = L\<lparr>outp := outp L', l_strm := l_strm L', l_sb := l_sb L'\<rparr>" "in_buf (l_sb L') = in_buf (l_sb L)"
    "buf_len (l_sb L') = buf_len (l_sb L)" "flush_more (l_sb L') = flush_more (l_sb L)"
proof -
  let ?s = "l_strm L" and ?sb = "l_sb L"
  define L' where "L' = L\<lparr>outp := outp L @ take cpy (drop (out_offset ?sb) (out_buf ?sb)),
    l_strm := ?s\<lparr>out_sz := out_sz ?s - cpy, pending_out := pending_out ?s - cpy\<rparr>,
    l_sb := ?sb\<lparr>out_offset := (if pending_out ?s - cpy = 0 then 0 else out_offset ?sb + cpy)\<rparr>\<rparr>"
  have c': "cpy \<le> pending_out ?s" "(if pending_out ?s > out_sz ?s then out_sz ?s else pending_out ?s) = cpy"
    using c by auto
  obtain co f g where g: "eng L = (co, f, g)" by (cases "eng L")
  have r: "copyStreamOutput L = Returned (cpy, L')"
    using inv c' by (simp add: call_inv_def copyStreamOutput_def L'_def g Let_def)
  have e: "take cpy (drop (out_offset ?sb) (out_buf ?sb)) @
      take (pending_out ?s - cpy) (drop (out_offset ?sb + cpy) (out_buf ?sb)) =
      take (pending_out ?s) (drop (out_offset ?sb) (out_buf ?sb))"
    by (rule take_add_drop [OF c'(1)])
  have i: "call_inv T D inp L'"
  proof (cases "pending_out ?s = cpy")
    case True
    with inv e show ?thesis by (simp add: call_inv_def L'_def g)
  next
    case False
    then show ?thesis using inv e c'(1) by (simp add: call_inv_def L'_def g)
  qed
  show thesis
    by (rule that [OF r i]) (simp_all add: L'_def)
qed

lemma copyStreamInput_inv:
  assumes inv: "call_inv T D inp L" and more: "copy_more L"
    and c: "cpy = min (in_sz (l_strm L)) (buf_len (l_sb L) - pending_in (l_strm L))"
  obtains L' where "copyStreamInput inp L = Returned L'" "call_inv T D inp (L'\<lparr>copy_more := False\<rparr>)"
    "pending_out (l_strm L') = pending_out (l_strm L)" "pending_in (l_strm L') = pending_in (l_strm L) + cpy"
    "in_sz (l_strm L') = in_sz (l_strm L) - cpy" "inbuf_offset L' = 0" "buf_len (l_sb L') = buf_len (l_sb L)"
    "flush_more (l_sb L') = flush_more (l_sb L)"
proof -
  let ?s = "l_strm L" and ?sb = "l_sb L"
  define xs where "xs = take cpy (drop (l_consumed L) inp)"
  define L' where "L' = L\<lparr>l_sb := ?sb\<lparr>in_buf := put_bytes (in_buf ?sb) (pending_in ?s) xs\<rparr>,
     l_strm := ?s\<lparr>pending_in := pending_in ?s + cpy, in_sz := in_sz ?s - cpy\<rparr>,
     copied_input := copied_input L + cpy\<rparr>"
  obtain co f g where g: "eng L = (co, f, g)" by (cases "eng L")
  have c': "(if in_sz ?s > buf_len ?sb - pending_in ?s then buf_len ?sb - pending_in ?s else in_sz ?s) = cpy"
    using c by auto
  have i: "l_consumed L = copied_input L" "copied_input L + in_sz ?s = length inp" "inbuf_offset L = 0"
    "length (in_buf ?sb) = buf_len ?sb" "pending_in ?s \<le> buf_len ?sb" "cpy \<le> in_sz ?s"
    "pending_in ?s + cpy \<le> buf_len ?sb" and
    h: "f @ take (pending_in ?s) (in_buf ?sb) = T @ take (copied_input L) inp"
    using inv more c by (auto simp: call_inv_def g)
  have x: "length xs = cpy" using i by (simp add: xs_def)
  have r: "copyStreamInput inp L = Returned L'"
    using i unfolding copyStreamInput_def Let_def c' by (simp add: L'_def xs_def)
  have "take (pending_in ?s + cpy) (put_bytes (in_buf ?sb) (pending_in ?s) xs) =
      take (pending_in ?s) (in_buf ?sb) @ xs"
    using take_put_bytes [of "pending_in ?s" xs "in_buf ?sb"] i x by simp
  moreover have "take (copied_input L + cpy) inp = take (copied_input L) inp @ xs"
    by (simp add: xs_def i(1) take_add)
  ultimately have "f @ take (pending_in ?s + cpy) (put_bytes (in_buf ?sb) (pending_in ?s) xs) =
      T @ take (copied_input L + cpy) inp" using h by simp
  then have v: "call_inv T D inp (L'\<lparr>copy_more := False\<rparr>)"
    using inv i x by (simp add: call_inv_def L'_def g)
  show thesis by (rule that [OF r v]) (use i in \<open>simp_all add: L'_def\<close>)
qed

lemma engine_call_inv:
  assumes inv: "call_inv T D inp L" and law: "lawful e" and out: "pending_out (l_strm L) = 0"
    and more: "\<not> copy_more L"
  obtains rc n L' where "engine_call (logged e) w lst L = Returned (rc, n, L')" "call_inv T D inp L'"
    "n \<le> pending_in (l_strm L)" "pending_in (l_strm L') = pending_in (l_strm L) - n" "\<not> copy_more L'"
    "rc = QZ_OK \<Longrightarrow> 0 < pending_in (l_strm L) \<Longrightarrow> 0 < n" "in_offset (l_sb L') = inbuf_offset L'"
    "in_sz (l_strm L') = in_sz (l_strm L)" "buf_len (l_sb L') = buf_len (l_sb L)"
    "ample e \<Longrightarrow> rc = QZ_OK \<and> n = pending_in (l_strm L)"
proof -
  let ?s = "l_strm L" and ?sb = "l_sb L" and ?o = "inbuf_offset L"
  obtain co f g where g: "eng L = (co, f, g)" by (cases "eng L")
  define x where "x = take (pending_in ?s) (drop ?o (in_buf ?sb))"
  obtain rc n out crc c' where e: "e co x (buf_len ?sb) lst (crc_32 ?s) = (rc, n, out, crc, c')"
    by (metis prod_cases5)
  have i: "?o + pending_in ?s \<le> buf_len ?sb" "length (in_buf ?sb) = buf_len ?sb"
    "length (out_buf ?sb) = buf_len ?sb" "\<not> flush_more ?sb" "out_offset ?sb = 0"
    "f @ x = T @ take (copied_input L) inp" "D @ outp L = g"
    using inv out by (simp_all add: call_inv_def g x_def)
  have lx: "length x = pending_in ?s" using i by (simp add: x_def)
  have l: "n \<le> pending_in ?s" "length out \<le> buf_len ?sb" "rc = QZ_OK \<and> x \<noteq> [] \<longrightarrow> 0 < n"
    using law e lx unfolding lawful_def by (metis (mono_tags, lifting) case_prod_conv)+
  have a: "ample e \<Longrightarrow> rc = QZ_OK \<and> n = pending_in ?s"
    using e lx unfolding ample_def by (metis (mono_tags, lifting) case_prod_conv)
  define L' where "L' = L\<lparr>eng := (c', f @ take n x, g @ out),
              l_sb := ?sb\<lparr>out_buf := put_bytes (out_buf ?sb) 0 out, in_offset := ?o + n\<rparr>,
              inbuf_offset := ?o + n,
              l_strm := ?s\<lparr>pending_in := pending_in ?s - n, pending_out := length out,
                          crc_32 := (if w then crc else crc_32 ?s)\<rparr>\<rparr>"
  have r: "engine_call (logged e) w lst L = Returned (rc, n, L')"
    using i l e by (simp add: engine_call_def logged_def g x_def [symmetric] L'_def Let_def)
  have "take (pending_in ?s - n) (drop (?o + n) (in_buf ?sb)) = drop n x"
    by (simp add: x_def drop_take add.commute)
  then have v: "call_inv T D inp L'"
    using inv i l more by (simp add: call_inv_def L'_def put_bytes_def g)
  show thesis
    by (rule that [OF r v]) (use a l lx more in \<open>auto simp: L'_def\<close>)
qed

text \<open>What holds when a call ends without an error, and what a round of a loop gives.\<close>

definition exit_inv :: "bytes \<Rightarrow> bytes \<Rightarrow> bytes \<Rightarrow> ('c \<times> bytes \<times> bytes) Call \<Rightarrow> bool" where
  "exit_inv T D inp L \<longleftrightarrow> call_inv T D inp (L\<lparr>copy_more := False\<rparr>) \<and>
     (0 < pending_in (l_strm L) \<and> pending_out (l_strm L) = 0 \<longrightarrow> inbuf_offset L = 0)"

definition todo :: "'c Call \<Rightarrow> nat" where
  "todo L = pending_in (l_strm L) + in_sz (l_strm L)"

definition round_ok :: "'c engine \<Rightarrow> bytes \<Rightarrow> bytes \<Rightarrow> bytes \<Rightarrow> ('c \<times> bytes \<times> bytes) Call \<Rightarrow>
    ('c \<times> bytes \<times> bytes) Call loop \<Rightarrow> bool" where
  "round_ok e T D inp L r \<longleftrightarrow> (case r of
      Exit rc L' \<Rightarrow> (rc = QZ_OK \<longrightarrow> exit_inv T D inp L') \<and> (ample e \<longrightarrow> rc = QZ_OK \<and> pending_in (l_strm L') = 0)
    | Next L' \<Rightarrow> call_inv T D inp L' \<and> todo L' < todo L \<and> (copy_more L' \<longleftrightarrow> pending_in (l_strm L') = 0) \<and>
        (ample e \<longrightarrow> pending_in (l_strm L') = 0))"

lemma call_inv_exit: "call_inv T D inp L \<Longrightarrow>
    (0 < pending_in (l_strm L) \<and> pending_out (l_strm L) = 0 \<longrightarrow> inbuf_offset L = 0) \<Longrightarrow> exit_inv T D inp L"
  by (simp add: exit_inv_def call_inv_def)

lemma call_inv_consumed: "\<not> copy_more L \<Longrightarrow> call_inv T D inp (L\<lparr>l_consumed := n\<rparr>) = call_inv T D inp L"
  by (simp add: call_inv_def)

lemma call_inv_restart: "call_inv T D inp L \<Longrightarrow> pending_in (l_strm L) = 0 \<Longrightarrow> l_consumed L = copied_input L \<Longrightarrow>
    call_inv T D inp (L\<lparr>copy_more := True, inbuf_offset := 0\<rparr>)"
  by (auto simp: call_inv_def)

lemma round_restart:
  assumes inv: "call_inv T D inp L" and c: "l_consumed L = copied_input L" and more: "\<not> copy_more L"
    and r: "r = (let L' = (if pending_in (l_strm L) = 0 then L\<lparr>copy_more := True, inbuf_offset := 0\<rparr> else L)
        in if pending_in (l_strm L') = 0 \<and> in_sz (l_strm L') = 0 then Exit QZ_OK L' else Next L')"
    and lt: "0 < todo L \<Longrightarrow> todo L < todo L0" and a: "ample e \<Longrightarrow> pending_in (l_strm L) = 0"
  shows "round_ok e T D inp L0 r"
proof (cases "pending_in (l_strm L) = 0")
  case True
  then show ?thesis
    using r lt a call_inv_restart [OF inv True c] call_inv_exit [OF call_inv_restart [OF inv True c]]
    by (simp add: round_ok_def todo_def Let_def)
next
  case False
  then show ?thesis using r lt a inv more by (auto simp: round_ok_def todo_def)
qed

lemma comp_process_ok:
  assumes inv: "call_inv T D inp L" and law: "lawful e" and out: "pending_out (l_strm L) = 0"
    and more: "\<not> copy_more L" and some: "pending_in (l_strm L) = 0 \<Longrightarrow> in_sz (l_strm L) = 0"
  shows "\<exists>r. comp_process (logged e) lst L = Returned r \<and> round_ok e T D inp L r"
proof -
  obtain rc n L1 where e: "engine_call (logged e) True (in_sz (l_strm L) = 0 \<and> lst) L = Returned (rc, n, L1)"
    and 1: "call_inv T D inp L1" "n \<le> pending_in (l_strm L)" "\<not> copy_more L1"
      "pending_in (l_strm L1) = pending_in (l_strm L) - n" "in_sz (l_strm L1) = in_sz (l_strm L)"
    and ok: "rc = QZ_OK \<Longrightarrow> 0 < pending_in (l_strm L) \<Longrightarrow> 0 < n"
    and a: "ample e \<Longrightarrow> rc = QZ_OK \<and> n = pending_in (l_strm L)"
    by (rule engine_call_inv [OF inv law out more, where w = True and lst = "in_sz (l_strm L) = 0 \<and> lst"]) (rule that)
  obtain L2 cpy where o: "copyStreamOutput L1 = Returned (cpy, L2)"
    and 2: "call_inv T D inp L2" "pending_in (l_strm L2) = pending_in (l_strm L1)"
      "in_sz (l_strm L2) = in_sz (l_strm L1)" "L2 = L1\<lparr>outp := outp L2, l_strm := l_strm L2, l_sb := l_sb L2\<rparr>"
    by (rule copyStreamOutput_inv [OF 1(1) refl]) (rule that)
  have m2: "\<not> copy_more L2" using 1(3) 2(4) by (metis Call.select_convs(6) Call.surjective Call.update_convs(1,2,8))
  define L3 where "L3 = L2\<lparr>l_consumed := copied_input L2\<rparr>"
  have 3: "call_inv T D inp L3" "l_consumed L3 = copied_input L3" "\<not> copy_more L3" "l_strm L3 = l_strm L2"
    using 2(1) m2 by (simp_all add: L3_def call_inv_consumed)
  show ?thesis
  proof (cases "rc \<noteq> QZ_OK \<and> \<not> (rc = QZ_BUF_ERROR \<and> n \<noteq> 0)")
    case True
    then show ?thesis using a by (auto simp: comp_process_def e o round_ok_def Let_def)
  next
    case False
    let ?r = "let L' = (if pending_in (l_strm L3) = 0 then L3\<lparr>copy_more := True, inbuf_offset := 0\<rparr> else L3)
        in if pending_in (l_strm L') = 0 \<and> in_sz (l_strm L') = 0 then Exit QZ_OK L' else Next L'"
    have c: "comp_process (logged e) lst L = Returned ?r"
      using False by (auto simp: comp_process_def e o L3_def Let_def)
    have "round_ok e T D inp L ?r"
    proof (rule round_restart [OF 3(1-3) refl])
      show "0 < todo L3 \<Longrightarrow> todo L3 < todo L"
        using False ok some 1 2(2,3) 3(4) by (cases "n = 0"; cases "pending_in (l_strm L) = 0") (auto simp: todo_def)
      show "ample e \<Longrightarrow> pending_in (l_strm L3) = 0" using a 1 2(2) 3(4) by simp
    qed
    with c show ?thesis by blast
  qed
qed

lemma decomp_process_ok:
  assumes inv: "call_inv T D inp L" and law: "lawful e" and out: "pending_out (l_strm L) = 0"
    and more: "\<not> copy_more L" and some: "pending_in (l_strm L) = 0 \<Longrightarrow> in_sz (l_strm L) = 0"
  shows "\<exists>r. decomp_process (logged e) lst L = Returned r \<and> round_ok e T D inp L r"
proof -
  obtain rc n L1 where e: "engine_call (logged e) False False L = Returned (rc, n, L1)"
    and 1: "call_inv T D inp L1" "n \<le> pending_in (l_strm L)" "\<not> copy_more L1"
      "pending_in (l_strm L1) = pending_in (l_strm L) - n" "in_sz (l_strm L1) = in_sz (l_strm L)"
    and ok: "rc = QZ_OK \<Longrightarrow> 0 < pending_in (l_strm L) \<Longrightarrow> 0 < n"
    and a: "ample e \<Longrightarrow> rc = QZ_OK \<and> n = pending_in (l_strm L)"
    by (rule engine_call_inv [OF inv law out more, where w = False and lst = False]) (rule that)
  define L2 where "L2 = L1\<lparr>l_consumed := copied_input L1\<rparr>"
  have 2: "call_inv T D inp L2" "l_consumed L2 = copied_input L2" "\<not> copy_more L2" "l_strm L2 = l_strm L1"
    using 1(1,3) by (simp_all add: L2_def call_inv_consumed)
  obtain L3 cpy where o: "copyStreamOutput L2 = Returned (cpy, L3)"
    and 3: "call_inv T D inp L3" "pending_in (l_strm L3) = pending_in (l_strm L2)"
      "in_sz (l_strm L3) = in_sz (l_strm L2)" "L3 = L2\<lparr>outp := outp L3, l_strm := l_strm L3, l_sb := l_sb L3\<rparr>"
    by (rule copyStreamOutput_inv [OF 2(1) refl]) (rule that)
  have m3: "\<not> copy_more L3" "l_consumed L3 = copied_input L3"
    using 2(2,3) by (subst 3(4), simp)+
  show ?thesis
  proof (cases "rc \<noteq> QZ_OK \<and> \<not> (rc = QZ_BUF_ERROR \<and> n \<noteq> 0)")
    case True
    then show ?thesis using a by (auto simp: decomp_process_def e o L2_def [symmetric] round_ok_def Let_def)
  next
    case False
    let ?r = "let L' = (if pending_in (l_strm L3) = 0 then L3\<lparr>copy_more := True, inbuf_offset := 0\<rparr> else L3)
        in if pending_in (l_strm L') = 0 \<and> in_sz (l_strm L') = 0 then Exit QZ_OK L' else Next L'"
    have c: "decomp_process (logged e) lst L = Returned ?r"
      using False by (auto simp: decomp_process_def e o L2_def [symmetric] Let_def)
    have "round_ok e T D inp L ?r"
    proof (rule round_restart [OF 3(1) m3(2,1) refl])
      show "0 < todo L3 \<Longrightarrow> todo L3 < todo L"
        using False ok some 1 3(2,3) 2(4) by (cases "n = 0"; cases "pending_in (l_strm L) = 0") (auto simp: todo_def)
      show "ample e \<Longrightarrow> pending_in (l_strm L3) = 0" using a 1 3(2) 2(4) by simp
    qed
    with c show ?thesis by blast
  qed
qed

text \<open>Filling the buffer.\<close>

lemma comp_fill_ok:
  assumes inv: "call_inv T D inp L" and has: "has \<or> inp = []" and head: "copy_more L \<or> 0 < pending_in (l_strm L)"
    and out: "pending_out (l_strm L) = 0"
  shows "(\<exists>L'. comp_fill has inp lst L = Returned (Exit QZ_OK L') \<and> exit_inv T D inp L' \<and> pending_out (l_strm L') = 0) \<or>
    (\<exists>L'. comp_fill has inp lst L = Returned (Next L') \<and> call_inv T D inp L' \<and> \<not> copy_more L' \<and>
       pending_out (l_strm L') = 0 \<and> todo L' = todo L \<and> (pending_in (l_strm L') = 0 \<longrightarrow> in_sz (l_strm L') = 0))"
proof (cases "copy_more L")
  case False
  then show ?thesis using inv head out by (simp add: comp_fill_def)
next
  case True
  obtain co f g where g: "eng L = (co, f, g)" by (cases "eng L")
  have nf: "\<not> flush_more (l_sb L)" "0 < buf_len (l_sb L)" "copied_input L + in_sz (l_strm L) = length inp"
    "inbuf_offset L = 0" using inv True by (simp_all add: call_inv_def g)
  let ?L = "L\<lparr>copied_last := copied_input L\<rparr>"
  have i: "call_inv T D inp ?L" "copy_more ?L" using inv True by (auto simp: call_inv_def g)
  define cpy where "cpy = min (in_sz (l_strm ?L)) (buf_len (l_sb ?L) - pending_in (l_strm ?L))"
  obtain L' where r: "(if has then copyStreamInput inp ?L else Returned ?L) = Returned L'"
    and 1: "call_inv T D inp (L'\<lparr>copy_more := False\<rparr>)" "pending_out (l_strm L') = 0"
      "inbuf_offset L' = 0" "todo L' = todo L" "pending_in (l_strm L') = 0 \<longrightarrow> in_sz (l_strm L') = 0"
  proof (cases has)
    case True
    show thesis
      by (rule copyStreamInput_inv [OF i cpy_def])
        (rule that; use True out nf in \<open>auto simp: todo_def cpy_def min_def split: if_splits\<close>)
  next
    case False
    show thesis
      by (rule that [of ?L]) (use False out nf i inv has in \<open>auto simp: todo_def call_inv_def g\<close>)
  qed
  have c: "comp_fill has inp lst L = Returned (if pending_in (l_strm L') < buf_len (l_sb L') \<and> \<not> lst
      then Exit QZ_OK L' else Next (L'\<lparr>copy_more := False\<rparr>))"
    using True nf r by (simp add: comp_fill_def Let_def)
  then show ?thesis using 1 by (auto simp: exit_inv_def todo_def)
qed

lemma comp_fill_cases:
  assumes "call_inv T D inp L" "has \<or> inp = []" "copy_more L \<or> 0 < pending_in (l_strm L)"
    "pending_out (l_strm L) = 0"
  obtains (exit) L' where "comp_fill has inp lst L = Returned (Exit QZ_OK L')" "exit_inv T D inp L'"
      "pending_out (l_strm L') = 0"
    | (more) L' where "comp_fill has inp lst L = Returned (Next L')" "call_inv T D inp L'" "\<not> copy_more L'"
      "pending_out (l_strm L') = 0" "todo L' = todo L" "pending_in (l_strm L') = 0 \<Longrightarrow> in_sz (l_strm L') = 0"
  using comp_fill_ok [OF assms, of lst]
proof (elim disjE exE conjE, goal_cases)
  case (1 L')
  show ?thesis by (rule that(1) [OF 1(3-)])
next
  case (2 L')
  show ?thesis by (rule that(2) [OF 2(3-7)]) (use 2(8) in simp)
qed

text \<open>The loops, from any state at the head of a round.\<close>

definition loop_ok :: "'c engine \<Rightarrow> bytes \<Rightarrow> bytes \<Rightarrow> bytes \<Rightarrow> (status \<times> ('c \<times> bytes \<times> bytes) Call) outcome \<Rightarrow> bool" where
  "loop_ok e T D inp r \<longleftrightarrow> (\<exists>rc L. r = Returned (rc, L) \<and> (rc = QZ_OK \<longrightarrow> exit_inv T D inp L) \<and>
     (ample e \<longrightarrow> rc = QZ_OK \<and> (pending_in (l_strm L) = 0 \<or> pending_out (l_strm L) = 0)))"

definition at_head :: "'c engine \<Rightarrow> ('c \<times> bytes \<times> bytes) Call \<Rightarrow> bool" where
  "at_head e L \<longleftrightarrow> (copy_more L \<or> 0 < pending_in (l_strm L)) \<and>
     (ample e \<longrightarrow> pending_in (l_strm L) = 0 \<or> pending_out (l_strm L) = 0)"

lemma exit_loop_ok: "call_inv T D inp L \<Longrightarrow> at_head e L \<Longrightarrow> pending_out (l_strm L) \<noteq> 0 \<Longrightarrow>
    loop_ok e T D inp (Returned (QZ_OK, L))"
  by (auto simp: loop_ok_def at_head_def intro: call_inv_exit)

lemma next_at_head: "round_ok e T D inp L (Next L') \<Longrightarrow> call_inv T D inp L' \<and> todo L' < todo L \<and> at_head e L'"
  by (auto simp: round_ok_def at_head_def)

lemma exit_round_ok: "round_ok e T D inp L (Exit rc L') \<Longrightarrow> loop_ok e T D inp (Returned (rc, L'))"
  by (auto simp: round_ok_def loop_ok_def)

lemma comp_loop_ok:
  assumes law: "lawful e" and has: "has \<or> inp = []"
  shows "todo L < k \<Longrightarrow> call_inv T D inp L \<Longrightarrow> at_head e L \<Longrightarrow>
    loop_ok e T D inp (comp_loop k (logged e) has inp lst L)"
proof (induction k arbitrary: L)
  case (Suc k)
  show ?case
  proof (cases "pending_out (l_strm L) = 0")
    case True
    have head: "copy_more L \<or> 0 < pending_in (l_strm L)" using Suc.prems(3) by (simp add: at_head_def)
    show ?thesis
    proof (rule comp_fill_cases [OF Suc.prems(2) has head True, of lst], goal_cases)
      case (1 L')
      then show ?thesis using True by (simp add: loop_ok_def)
    next
      case (2 L')
      obtain r where r: "comp_process (logged e) lst L' = Returned r" "round_ok e T D inp L' r"
        using comp_process_ok [OF 2(2) law 2(4,3,6)] by blast
      show ?thesis
      proof (cases r)
        case (Exit rc L2)
        then show ?thesis using True 2 r exit_round_ok by simp
      next
        case (Next L2)
        have n: "call_inv T D inp L2" "todo L2 < todo L'" "at_head e L2"
          using next_at_head r(2) Next by blast+
        have "loop_ok e T D inp (comp_loop k (logged e) has inp lst L2)"
          by (rule Suc.IH) (use n 2(5) Suc.prems(1) in simp_all)
        with Next show ?thesis using True 2(1) r(1) by simp
      qed
    qed
  next
    case False
    then show ?thesis using exit_loop_ok [OF Suc.prems(2,3)] by simp
  qed
qed simp

lemma decomp_loop_ok:
  assumes law: "lawful e"
  shows "todo L < k \<Longrightarrow> call_inv T D inp L \<Longrightarrow> at_head e L \<Longrightarrow>
    loop_ok e T D inp (decomp_loop k (logged e) inp lst L)"
proof (induction k arbitrary: L)
  case (Suc k)
  show ?case
  proof (cases "pending_out (l_strm L) = 0")
    case True
    have head: "copy_more L \<or> 0 < pending_in (l_strm L)" using Suc.prems(3) by (simp add: at_head_def)
    show ?thesis
    proof (rule comp_fill_cases [OF Suc.prems(2) disjI1 [OF TrueI] head True, of lst], goal_cases)
      case (1 L')
      then show ?thesis using True by (simp add: loop_ok_def)
    next
      case (2 L')
      obtain r where r: "decomp_process (logged e) lst L' = Returned r" "round_ok e T D inp L' r"
        using decomp_process_ok [OF 2(2) law 2(4,3,6)] by blast
      show ?thesis
      proof (cases r)
        case (Exit rc L2)
        then show ?thesis using True 2 r exit_round_ok by simp
      next
        case (Next L2)
        have n: "call_inv T D inp L2" "todo L2 < todo L'" "at_head e L2"
          using next_at_head r(2) Next by blast+
        have "loop_ok e T D inp (decomp_loop k (logged e) inp lst L2)"
          by (rule Suc.IH) (use n 2(5) Suc.prems(1) in simp_all)
        with Next show ?thesis using True 2(1) r(1) by simp
      qed
    qed
  next
    case False
    then show ?thesis using exit_loop_ok [OF Suc.prems(2,3)] by simp
  qed
qed simp

text \<open>Draining what an earlier call left.\<close>

definition drained :: "bytes \<Rightarrow> bytes \<Rightarrow> bytes \<Rightarrow> ('c \<times> bytes \<times> bytes) Call \<Rightarrow>
    ('c \<times> bytes \<times> bytes) Call loop outcome \<Rightarrow> bool" where
  "drained T D inp L r \<longleftrightarrow>
     (\<exists>L'. r = Returned (Exit QZ_OK L') \<and> exit_inv T D inp L' \<and>
        (pending_in (l_strm L') = 0 \<or> pending_out (l_strm L') = 0)) \<or>
     (\<exists>L'. r = Returned (Next L') \<and> call_inv T D inp L' \<and> pending_out (l_strm L') = 0 \<and> copy_more L' \<and>
        todo L' = todo L)"

lemma drain_step:
  assumes inv: "call_inv T D inp L" and more: "copy_more L"
  obtains cpy L' where "copyStreamOutput L = Returned (cpy, L')" "call_inv T D inp L'" "copy_more L'" "todo L' = todo L"
    "pending_in (l_strm L') = pending_in (l_strm L)" "pending_out (l_strm L') = pending_out (l_strm L) - cpy"
proof -
  obtain cpy L' where o: "copyStreamOutput L = Returned (cpy, L')" "call_inv T D inp L'"
    and 1: "pending_out (l_strm L') = pending_out (l_strm L) - cpy" "pending_in (l_strm L') = pending_in (l_strm L)"
      "in_sz (l_strm L') = in_sz (l_strm L)" and
    e: "L' = L\<lparr>outp := outp L', l_strm := l_strm L', l_sb := l_sb L'\<rparr>"
    by (rule copyStreamOutput_inv [OF inv refl]) (rule that)
  have "copy_more L'" using more by (subst e) simp
  then show thesis using that [OF o] 1 by (simp add: todo_def)
qed

lemma comp_drain_ok:
  "call_inv T D inp L \<Longrightarrow> copy_more L \<Longrightarrow> pending_in (l_strm L) = 0 \<or> pending_out (l_strm L) = 0 \<Longrightarrow>
   pending_out (l_strm L) < k \<Longrightarrow> drained T D inp L (comp_drain k L)"
proof (induction k arbitrary: L)
  case (Suc k)
  show ?case
  proof (cases "pending_out (l_strm L) = 0")
    case True
    then show ?thesis using Suc.prems by (simp add: drained_def)
  next
    case False
    obtain cpy L' where o: "copyStreamOutput L = Returned (cpy, L')" and
      1: "call_inv T D inp L'" "copy_more L'" "todo L' = todo L" "pending_in (l_strm L') = pending_in (l_strm L)"
        "pending_out (l_strm L') = pending_out (l_strm L) - cpy"
      by (rule drain_step [OF Suc.prems(1,2)]) (rule that)
    have p: "pending_in (l_strm L') = 0" using False Suc.prems(3) 1(4) by simp
    have x: "exit_inv T D inp L'" using call_inv_exit [OF 1(1)] p by simp
    show ?thesis
    proof (cases "cpy = 0 \<or> pending_out (l_strm L') = 0 \<and> in_sz (l_strm L') = 0")
      case True
      then show ?thesis using False o x p by (auto simp: drained_def Let_def)
    next
      case c: False
      have "drained T D inp L' (comp_drain k L')"
        by (rule Suc.IH [OF 1(1,2)]) (use p c 1 False Suc.prems(4) in auto)
      then show ?thesis using False o c 1(3) p by (auto simp: drained_def Let_def)
    qed
  qed
qed simp

lemma decomp_drain_ok:
  "call_inv T D inp L \<Longrightarrow> copy_more L \<Longrightarrow> pending_in (l_strm L) = 0 \<or> pending_out (l_strm L) = 0 \<Longrightarrow>
   pending_out (l_strm L) < k \<Longrightarrow> drained T D inp L (decomp_drain k L)"
proof (induction k arbitrary: L)
  case (Suc k)
  show ?case
  proof (cases "pending_out (l_strm L) = 0")
    case True
    then show ?thesis using Suc.prems by (simp add: drained_def)
  next
    case False
    obtain cpy L' where o: "copyStreamOutput L = Returned (cpy, L')" and
      1: "call_inv T D inp L'" "copy_more L'" "todo L' = todo L" "pending_in (l_strm L') = pending_in (l_strm L)"
        "pending_out (l_strm L') = pending_out (l_strm L) - cpy"
      by (rule drain_step [OF Suc.prems(1,2)]) (rule that)
    have p: "pending_in (l_strm L') = 0" using False Suc.prems(3) 1(4) by simp
    have x: "exit_inv T D inp L'" using call_inv_exit [OF 1(1)] p by simp
    show ?thesis
    proof (cases "cpy = 0")
      case True
      then show ?thesis using False o x p by (auto simp: drained_def)
    next
      case c: False
      have "drained T D inp L' (decomp_drain k L')"
        by (rule Suc.IH [OF 1(1,2)]) (use p c 1 False Suc.prems(4) in auto)
      then show ?thesis using False o c 1(3) by (auto simp: drained_def)
    qed
  qed
qed simp

section \<open>Whole calls\<close>

lemma comp_body_ok:
  assumes law: "lawful e" and has: "has \<or> inp = []" and inv: "call_inv T D inp L" and more: "copy_more L"
    and idle: "pending_in (l_strm L) = 0 \<or> pending_out (l_strm L) = 0" and fuel: "todo L < k"
  shows "loop_ok e T D inp (comp_body k (logged e) has inp lst L)"
proof -
  have "drained T D inp L (comp_drain (pending_out (l_strm L) + 1) L)"
    by (rule comp_drain_ok [OF inv more idle]) simp
  then show ?thesis
  proof (unfold drained_def, elim disjE exE conjE, goal_cases)
    case (3 L')
    have "loop_ok e T D inp (comp_loop k (logged e) has inp lst L')"
      by (rule comp_loop_ok [OF law has]) (use 3 fuel in \<open>auto simp: at_head_def\<close>)
    with 3 show ?case by (simp add: comp_body_def del: comp_drain.simps)
  qed (auto simp add: comp_body_def loop_ok_def simp del: comp_drain.simps)
qed

lemma decomp_body_ok:
  assumes law: "lawful e" and inv: "call_inv T D inp L" and more: "copy_more L"
    and idle: "pending_in (l_strm L) = 0 \<or> pending_out (l_strm L) = 0" and fuel: "todo L < k"
  shows "loop_ok e T D inp (decomp_body k (logged e) inp lst L)"
proof -
  have "drained T D inp L (decomp_drain (pending_out (l_strm L) + 1) L)"
    by (rule decomp_drain_ok [OF inv more idle]) simp
  then show ?thesis
  proof (unfold drained_def, elim disjE exE conjE, goal_cases)
    case (3 L')
    have "loop_ok e T D inp (decomp_loop k (logged e) inp lst L')"
      by (rule decomp_loop_ok [OF law]) (use 3 fuel in \<open>auto simp: at_head_def\<close>)
    with 3 show ?case by (simp add: decomp_body_def del: decomp_drain.simps)
  qed (auto simp add: decomp_body_def loop_ok_def simp del: decomp_drain.simps)
qed

text \<open>The bytes a stream holds, and its invariant between calls: \<open>T\<close> is all the input taken so far,
  \<open>D\<close> all the output delivered.\<close>

definition held_in :: "QzStream \<Rightarrow> bytes" where
  "held_in s = (case opaque s of None \<Rightarrow> [] | Some sb \<Rightarrow> take (pending_in s) (in_buf sb))"

definition held_out :: "QzStream \<Rightarrow> bytes" where
  "held_out s = (case opaque s of None \<Rightarrow> [] | Some sb \<Rightarrow> take (pending_out s) (drop (out_offset sb) (out_buf sb)))"

definition buffers_ok :: "QzStream \<Rightarrow> QzStreamBuf \<Rightarrow> bool" where
  "buffers_ok s sb \<longleftrightarrow> 0 < buf_len sb \<and> length (in_buf sb) = buf_len sb \<and> length (out_buf sb) = buf_len sb \<and>
     \<not> flush_more sb \<and> pending_in s \<le> buf_len sb \<and> out_offset sb + pending_out s \<le> buf_len sb \<and>
     (pending_out s = 0 \<longrightarrow> out_offset sb = 0) \<and> (pending_in s = 0 \<or> pending_out s = 0)"

definition strm_inv :: "bytes \<Rightarrow> bytes \<Rightarrow> QzStream \<Rightarrow> 'c \<times> bytes \<times> bytes \<Rightarrow> bool" where
  "strm_inv T D s c \<longleftrightarrow> (\<exists>sb. opaque s = Some sb \<and> buffers_ok s sb) \<and>
     fst (snd c) @ held_in s = T \<and> D @ held_out s = snd (snd c)"

text \<open>Buffers as \<^verbatim>\<open>initStream\<close> leaves them.\<close>

definition new_buffers :: "QzStreamBuf \<Rightarrow> bool" where
  "new_buffers sb \<longleftrightarrow> 0 < buf_len sb \<and> length (in_buf sb) = buf_len sb \<and> length (out_buf sb) = buf_len sb \<and>
     \<not> flush_more sb \<and> out_offset sb = 0"

lemma start_call_inv:
  assumes "opaque s = Some sb" "buffers_ok s sb" "f @ held_in s = T" "D @ held_out s = g" "in_sz s = length inp"
  shows "call_inv T D inp (start_call s sb (c, f, g))"
  using assms by (auto simp: call_inv_def start_call_def buffers_ok_def held_in_def held_out_def)

lemma finish_call_inv:
  assumes inv: "exit_inv T D inp L" and idle: "pending_in (l_strm L) = 0 \<or> pending_out (l_strm L) = 0"
  shows "strm_inv (T @ take (copied_input L) inp) (D @ outp L) (finish_call L) (eng L)"
proof -
  obtain c f g where g: "eng L = (c, f, g)" by (cases "eng L")
  have o: "pending_in (l_strm L) = 0 \<or> inbuf_offset L = 0" using assms by (auto simp: exit_inv_def)
  have i: "call_inv T D inp (L\<lparr>copy_more := False\<rparr>)" using inv by (simp add: exit_inv_def)
  have f: "f @ take (pending_in (l_strm L)) (in_buf (l_sb L)) = T @ take (copied_input L) inp"
    using i o by (auto simp: call_inv_def g)
  show ?thesis
    using i idle f by (auto simp: call_inv_def g strm_inv_def finish_call_def buffers_ok_def held_in_def held_out_def)
qed

text \<open>A stream before its first call, or between calls.\<close>

definition live :: "bytes \<Rightarrow> bytes \<Rightarrow> QzStream \<Rightarrow> 'c \<times> bytes \<times> bytes \<Rightarrow> bool" where
  "live T D s c \<longleftrightarrow> strm_inv T D s c \<or> (opaque s = None \<and> fst (snd c) = T \<and> D = snd (snd c))"

definition good :: "status \<Rightarrow> QzStream \<Rightarrow> bool" where
  "good rc s \<longleftrightarrow> rc = QZ_OK \<and> (pending_in s = 0 \<or> pending_out s = 0)"

definition env_ready :: "StreamEnv \<Rightarrow> bool" where
  "env_ready env \<longleftrightarrow> has_sess env \<and> has_out env \<and> has_in env \<and> \<not> se_init_fail env \<and> \<not> se_setup_fail env \<and>
     se_fmt env \<in> {DEFLATE_RAW, DEFLATE_GZIP_EXT} \<and> fst (se_init env) = QZ_OK \<and>
     (case snd (se_init env) of None \<Rightarrow> False | Some sb \<Rightarrow> new_buffers sb)"

definition call_ok ::
  "'c engine \<Rightarrow> bytes \<Rightarrow> bytes \<Rightarrow> bytes \<Rightarrow> (status \<times> QzStream \<times> bytes \<times> 'c \<times> bytes \<times> bytes) outcome \<Rightarrow> bool" where
  "call_ok e T D inp r \<longleftrightarrow> (\<exists>rc s' out c. r = Returned (rc, s', out, c) \<and>
     (good rc s' \<longrightarrow> strm_inv (T @ take (in_sz s') inp) (D @ out) s' c) \<and> (ample e \<longrightarrow> good rc s'))"

lemma loop_call_ok: "loop_ok e T D inp r \<Longrightarrow>
    call_ok e T D inp (obind r (\<lambda>(rc, L). Returned (rc, finish_call L, outp L, eng L)))"
proof (unfold loop_ok_def, elim exE conjE, goal_cases)
  case (1 rc L)
  have "pending_in (finish_call L) = pending_in (l_strm L)" "pending_out (finish_call L) = pending_out (l_strm L)"
    "in_sz (finish_call L) = copied_input L"
    by (simp_all add: finish_call_def)
  with 1 finish_call_inv [of T D inp L] show ?case by (auto simp: call_ok_def good_def)
qed

lemma live_start:
  assumes live: "live T D s c" and env: "env_ready env" and len: "in_sz s = length inp"
  obtains sb s' where "(case opaque s of Some sb \<Rightarrow> (QZ_OK, Some sb) | None \<Rightarrow> se_init env) = (QZ_OK, Some sb)"
    "s' = (if opaque s = None then s\<lparr>opaque := Some sb, pending_in := 0, pending_out := 0, crc_32 := 0\<rparr> else s)"
    "call_inv T D inp (start_call s' sb c)" "pending_in s' = 0 \<or> pending_out s' = 0" "pending_in s' \<le> buf_len sb"
    "in_sz s' = in_sz s"
proof (cases "opaque s")
  case None
  obtain sb where sb: "se_init env = (QZ_OK, Some sb)" "new_buffers sb"
    using env by (cases "se_init env") (auto simp: env_ready_def split: option.splits)
  show thesis
    by (rule that [OF _ refl, of sb])
      (use None sb live len in \<open>auto simp: call_inv_def start_call_def new_buffers_def live_def strm_inv_def\<close>)
next
  case (Some sb)
  obtain co f g where c: "c = (co, f, g)" by (cases c)
  have i: "buffers_ok s sb" "f @ held_in s = T" "D @ held_out s = g"
    using live Some by (auto simp: live_def strm_inv_def c)
  show thesis
    by (rule that [OF _ refl, of sb])
      (use Some i start_call_inv [OF Some i len] in \<open>auto simp: c buffers_ok_def\<close>)
qed

lemma qzCompressStream_ok:
  assumes law: "lawful e" and live: "live T D s c" and env: "env_ready env" and len: "in_sz s = length inp"
    and lst: "lst \<le> 1"
  shows "call_ok e T D inp (qzCompressStream (logged e) env inp lst s c)"
proof -
  obtain sb s' where s: "(case opaque s of Some sb \<Rightarrow> (QZ_OK, Some sb) | None \<Rightarrow> se_init env) = (QZ_OK, Some sb)"
    and s': "s' = (if opaque s = None then s\<lparr>opaque := Some sb, pending_in := 0, pending_out := 0, crc_32 := 0\<rparr> else s)"
    and i: "call_inv T D inp (start_call s' sb c)" "pending_in s' = 0 \<or> pending_out s' = 0" "pending_in s' \<le> buf_len sb"
      "in_sz s' = in_sz s"
    by (rule live_start [OF live env len]) (rule that)
  have "loop_ok e T D inp (comp_body (buf_len sb + in_sz s' + 1) (logged e) (has_in env) inp (lst = 1) (start_call s' sb c))"
    by (rule comp_body_ok [OF law _ i(1)]) (use i env in \<open>auto simp: start_call_def todo_def env_ready_def\<close>)
  note loop_call_ok [OF this]
  moreover have "qzCompressStream (logged e) env inp lst s c =
      obind (comp_body (buf_len sb + in_sz s' + 1) (logged e) (has_in env) inp (lst = 1) (start_call s' sb c))
         (\<lambda>(rc, L). Returned (rc, finish_call L, outp L, eng L))"
    using env lst unfolding qzCompressStream_def s by (auto simp: env_ready_def s' Let_def)
  ultimately show ?thesis by simp
qed

lemma qzDecompressStream_ok:
  assumes law: "lawful e" and live: "live T D s c" and env: "env_ready env" and len: "in_sz s = length inp"
    and lst: "lst \<le> 1"
  shows "call_ok e T D inp (qzDecompressStream (logged e) env inp lst s c)"
proof -
  obtain sb s' where s: "(case opaque s of Some sb \<Rightarrow> (QZ_OK, Some sb) | None \<Rightarrow> se_init env) = (QZ_OK, Some sb)"
    and s': "s' = (if opaque s = None then s\<lparr>opaque := Some sb, pending_in := 0, pending_out := 0, crc_32 := 0\<rparr> else s)"
    and i: "call_inv T D inp (start_call s' sb c)" "pending_in s' = 0 \<or> pending_out s' = 0" "pending_in s' \<le> buf_len sb"
      "in_sz s' = in_sz s"
    by (rule live_start [OF live env len]) (rule that)
  have "loop_ok e T D inp (decomp_body (buf_len sb + in_sz s' + 1) (logged e) inp (lst = 1) (start_call s' sb c))"
    by (rule decomp_body_ok [OF law i(1)]) (use i in \<open>auto simp: start_call_def todo_def\<close>)
  note loop_call_ok [OF this]
  moreover have "qzDecompressStream (logged e) env inp lst s c =
      obind (decomp_body (buf_len sb + in_sz s' + 1) (logged e) inp (lst = 1) (start_call s' sb c))
         (\<lambda>(rc, L). Returned (rc, finish_call L, outp L, eng L))"
    using env lst unfolding qzDecompressStream_def s by (auto simp: env_ready_def s' Let_def)
  ultimately show ?thesis by simp
qed

section \<open>Runs of calls\<close>

text \<open>A user call gives input, room for output and the last flag. A run stops after a call that is
  not good: it failed, or it came back with both input and output pending. A result says whether the
  call was good, which input it took and what it delivered.\<close>

type_synonym user_call = "bytes \<times> nat \<times> nat"

fun stream_calls :: "(bytes \<Rightarrow> nat \<Rightarrow> QzStream \<Rightarrow> 'c \<Rightarrow> (status \<times> QzStream \<times> bytes \<times> 'c) outcome) \<Rightarrow>
    user_call list \<Rightarrow> QzStream \<Rightarrow> 'c \<Rightarrow> ((bool \<times> bytes \<times> bytes) list \<times> QzStream \<times> 'c) outcome" where
  "stream_calls call [] s c = Returned ([], s, c)"
| "stream_calls call ((inp, room, lst) # us) s c =
    obind (call inp lst (s\<lparr>in_sz := length inp, out_sz := room\<rparr>) c) (\<lambda>(rc, s', out, c').
      if good rc s' then
        obind (stream_calls call us s' c') (\<lambda>(rs, s'', c'').
          Returned ((True, take (in_sz s') inp, out) # rs, s'', c''))
      else Returned ([(False, take (in_sz s') inp, out)], s', c'))"

definition all_good :: "(bool \<times> bytes \<times> bytes) list \<Rightarrow> bool" where
  "all_good rs \<longleftrightarrow> list_all fst rs"

definition taken :: "(bool \<times> bytes \<times> bytes) list \<Rightarrow> bytes" where
  "taken rs = concat (map (fst \<circ> snd) rs)"

definition delivered :: "(bool \<times> bytes \<times> bytes) list \<Rightarrow> bytes" where
  "delivered rs = concat (map (snd \<circ> snd) rs)"

lemmas result_defs = all_good_def taken_def delivered_def

lemma stream_calls_ok:
  assumes call: "\<And>T D s c inp lst. live T D s c \<Longrightarrow> in_sz s = length inp \<Longrightarrow> lst \<le> 1 \<Longrightarrow>
      call_ok e T D inp (call inp lst s c)"
  shows "live T D s c \<Longrightarrow> \<forall>(_, _, lst) \<in> set us. lst \<le> 1 \<Longrightarrow>
    \<exists>rs s' c'. stream_calls call us s c = Returned (rs, s', c') \<and>
      (all_good rs \<longrightarrow> length rs = length us \<and> live (T @ taken rs) (D @ delivered rs) s' c') \<and>
      (ample e \<longrightarrow> all_good rs)"
proof (induction us arbitrary: s c T D)
  case Nil
  then show ?case by (simp add: result_defs)
next
  case (Cons u us)
  obtain inp room lst where u: "u = (inp, room, lst)" by (cases u)
  let ?s = "s\<lparr>in_sz := length inp, out_sz := room\<rparr>"
  have "live T D ?s c"
    using Cons.prems(1) by (auto simp: live_def strm_inv_def buffers_ok_def held_in_def held_out_def)
  from call [OF this, of inp lst] Cons.prems(2) obtain rc s1 out c1 where
    r: "call inp lst ?s c = Returned (rc, s1, out, c1)" and
    g: "good rc s1 \<Longrightarrow> live (T @ take (in_sz s1) inp) (D @ out) s1 c1" and a: "ample e \<Longrightarrow> good rc s1"
    by (auto simp: call_ok_def live_def u)
  show ?case
  proof (cases "good rc s1")
    case False
    then show ?thesis using r a by (auto simp: u result_defs)
  next
    case True
    obtain rs s' c' where "stream_calls call us s1 c1 = Returned (rs, s', c')"
      "all_good rs \<Longrightarrow> length rs = length us \<and>
         live ((T @ take (in_sz s1) inp) @ taken rs) ((D @ out) @ delivered rs) s' c'"
      "ample e \<Longrightarrow> all_good rs"
      using Cons.IH [OF g [OF True]] Cons.prems(2) by auto
    then show ?thesis using True r by (simp add: u result_defs)
  qed
qed

lemma live_conserves: "live T D s (c, f, g) \<Longrightarrow> f @ held_in s = T \<and> D @ held_out s = g"
  by (auto simp: live_def strm_inv_def held_in_def held_out_def)

definition conserves :: "bytes \<Rightarrow> bytes \<Rightarrow> user_call list \<Rightarrow> (bool \<times> bytes \<times> bytes) list \<Rightarrow> QzStream \<Rightarrow> bool" where
  "conserves f g us rs s \<longleftrightarrow> length rs = length us \<and> f @ held_in s = taken rs \<and> delivered rs @ held_out s = g"

lemma run_conserves:
  assumes call: "\<And>T D s c inp lst. live T D s c \<Longrightarrow> in_sz s = length inp \<Longrightarrow> lst \<le> 1 \<Longrightarrow>
      call_ok e T D inp (call inp lst s c)"
    and "opaque s = None" "\<forall>(_, _, lst) \<in> set us. lst \<le> 1"
  shows "\<exists>rs s' c' f g. stream_calls call us s (c, [], []) = Returned (rs, s', c', f, g) \<and>
    (all_good rs \<longrightarrow> conserves f g us rs s') \<and> (ample e \<longrightarrow> all_good rs)"
proof -
  have start: "live [] [] s (c, [], [])" using assms(2) by (simp add: live_def)
  have "\<exists>rs s' c'. stream_calls call us s (c, [], []) = Returned (rs, s', c') \<and>
      (all_good rs \<longrightarrow> length rs = length us \<and> live ([] @ taken rs) ([] @ delivered rs) s' c') \<and>
      (ample e \<longrightarrow> all_good rs)"
    by (rule stream_calls_ok [OF _ start assms(3)]) (rule call)
  then obtain rs s' c' where "stream_calls call us s (c, [], []) = Returned (rs, s', c')"
    "all_good rs \<longrightarrow> length rs = length us \<and> live (taken rs) (delivered rs) s' c'"
    "ample e \<longrightarrow> all_good rs" by auto
  moreover obtain co f g where "c' = (co, f, g)" by (cases c')
  ultimately show ?thesis using live_conserves [of "taken rs" "delivered rs" s' co f g] by (auto simp: conserves_def)
qed

text \<open>C8: (compression stream) Over any run of calls with any pieces of input and any room for output,
  with an engine that stays within its sizes and makes progress, no call leaves a buffer or fails
  to return; and if every call is good, what the engine consumed followed by what the stream still
  holds is exactly the input the calls reported as taken, and what was delivered followed by what
  is pending is exactly what the engine made. If the engine always has room, every call is good.\<close>

theorem compress_stream_conserves:
  assumes "lawful e" "env_ready env" "opaque s = None" "\<forall>(_, _, lst) \<in> set us. lst \<le> 1"
  shows "\<exists>rs s' c' f g. stream_calls (qzCompressStream (logged e) env) us s (c, [], []) = Returned (rs, s', c', f, g) \<and>
    (all_good rs \<longrightarrow> conserves f g us rs s') \<and> (ample e \<longrightarrow> all_good rs)"
  by (rule run_conserves [OF _ assms(3,4)]) (rule qzCompressStream_ok [OF assms(1) _ assms(2)])

text \<open>An engine that copies, and a stream and environment with buffers of four bytes.\<close>

definition copy_engine :: "unit engine" where
  "copy_engine c x cap lst crc = (if length x \<le> cap then (QZ_OK, length x, x, crc, c)
     else (QZ_OK, length x, take cap x, crc, c))"

abbreviation four_env :: StreamEnv where
  "four_env \<equiv> \<lparr>se_init = (QZ_OK, Some \<lparr>buf_len = 4, in_buf = [0,0,0,0], out_buf = [0,0,0,0], out_offset = 0,
      in_offset = 0, flush_more = False\<rparr>), se_init_fail = False, se_setup_fail = False, se_fmt = DEFLATE_RAW,
      has_sess = True, has_out = True, has_in = True\<rparr>"

abbreviation new_stream :: QzStream where
  "new_stream \<equiv> \<lparr>in_sz = 0, out_sz = 0, pending_in = 0, pending_out = 0, crc_32 = 0, opaque = None\<rparr>"

abbreviation some_calls :: "user_call list" where
  "some_calls \<equiv> [([1,2,3], 9, 0), ([4,5,6], 2, 0), ([7,8,9], 1, 1)]"

lemma copy_engine_laws: "lawful copy_engine" "ample copy_engine"
  by (auto simp: lawful_def ample_def copy_engine_def)

lemma four_env_ready: "env_ready four_env"
  by (simp add: env_ready_def new_buffers_def)

theorem compress_stream_conserves_witness:
  "\<exists>rs s' c' f g. stream_calls (qzCompressStream (logged copy_engine) four_env) some_calls new_stream ((), [], []) =
      Returned (rs, s', c', f, g) \<and> conserves f g some_calls rs s'"
  using compress_stream_conserves [OF copy_engine_laws(1) four_env_ready, of new_stream some_calls "()"]
    copy_engine_laws(2) by fastforce

text \<open>C11: (decompression stream) The same holds for decompression: no call leaves a buffer or fails to
  return, and over a run of good calls nothing is lost, repeated or reordered on either side.\<close>

theorem decompress_stream_conserves:
  assumes "lawful e" "env_ready env" "opaque s = None" "\<forall>(_, _, lst) \<in> set us. lst \<le> 1"
  shows "\<exists>rs s' c' f g. stream_calls (qzDecompressStream (logged e) env) us s (c, [], []) = Returned (rs, s', c', f, g) \<and>
    (all_good rs \<longrightarrow> conserves f g us rs s') \<and> (ample e \<longrightarrow> all_good rs)"
  by (rule run_conserves [OF _ assms(3,4)]) (rule qzDecompressStream_ok [OF assms(1) _ assms(2)])

theorem decompress_stream_conserves_witness:
  "\<exists>rs s' c' f g. stream_calls (qzDecompressStream (logged copy_engine) four_env) some_calls new_stream ((), [], []) =
      Returned (rs, s', c', f, g) \<and> conserves f g some_calls rs s'"
  using decompress_stream_conserves [OF copy_engine_laws(1) four_env_ready, of new_stream some_calls "()"]
    copy_engine_laws(2) by fastforce

text \<open>An engine that takes two bytes at a time and reports that its output was full.\<close>

definition pairs_engine :: "unit engine" where
  "pairs_engine c x cap lst crc =
     (if length x \<le> 2 then (QZ_OK, length x, take cap x, crc, c) else (QZ_BUF_ERROR, 2, take cap (take 2 x), crc, c))"

definition restart_run :: "(bytes \<Rightarrow> nat \<Rightarrow> QzStream \<Rightarrow> unit \<Rightarrow> (status \<times> QzStream \<times> bytes \<times> unit) outcome) \<Rightarrow>
    (status \<times> nat \<times> bytes \<times> status \<times> bytes \<times> nat) outcome" where
  "restart_run call =
     obind (call [1,2,3,4] 0 (new_stream\<lparr>in_sz := 4, out_sz := 1\<rparr>) ()) (\<lambda>(rc1, s1, out1, c1).
     obind (call [] 1 (s1\<lparr>in_sz := 0, out_sz := 16\<rparr>) c1) (\<lambda>(rc2, s2, out2, c2).
       Returned (rc1, in_sz s1, out1, rc2, out2, pending_in s2)))"

text \<open>(stream restart) A call that returns with both input and output pending leaves the unprocessed
  input in the middle of the buffer, and when the next call drains the output at once it restarts at
  the front: of four bytes given to an engine that takes two at a time the first two are processed
  twice and the last two never, in compression and decompression, and both calls return QZ_OK.\<close>

theorem stream_restarts_at_front:
  "lawful pairs_engine \<and>
   restart_run (qzCompressStream pairs_engine four_env) = Returned (QZ_OK, 4, [1], QZ_OK, [2, 1, 2], 0) \<and>
   restart_run (qzDecompressStream pairs_engine four_env) = Returned (QZ_OK, 4, [1], QZ_OK, [2, 1, 2], 0)"
proof (intro conjI)
  show "lawful pairs_engine" by (auto simp: lawful_def pairs_engine_def)
  show "restart_run (qzCompressStream pairs_engine four_env) = Returned (QZ_OK, 4, [1], QZ_OK, [2, 1, 2], 0)"
    by code_simp
  show "restart_run (qzDecompressStream pairs_engine four_env) = Returned (QZ_OK, 4, [1], QZ_OK, [2, 1, 2], 0)"
    by code_simp
qed

end
