(* ===== verification/Bound.thy ===== *)
theory Bound
  imports Format
begin

text \<open>
  The bound on the compressed size (\<^verbatim>\<open>src/qatzip.c\<close>, \<open>qzMaxCompressedLength\<close>). The driver's own
  bounds on the size of the compressed blocks are arguments: they give a size or fail. The
  expression that counts the chunks is \<open>a + b ? 1 : 0\<close>, which C reads as \<open>(a + b) ? 1 : 0\<close>.
\<close>

definition chunk_cnt :: "u32 \<Rightarrow> u32 \<Rightarrow> u32" where
  "chunk_cnt n b = (if n div b + n mod b \<noteq> 0 then 1 else 0)"

definition qzDeflateBound :: "(CpaDcHuffType \<Rightarrow> u32 \<Rightarrow> u32 option) \<Rightarrow> u32 \<Rightarrow> QzSess \<Rightarrow> u32" where
  "qzDeflateBound deflateBound n q =
    (let sp = sess_params q;
         huff = (if i_huffman_hdr sp = QZ_DYNAMIC_HDR then CPA_DC_HT_FULL_DYNAMIC else CPA_DC_HT_STATIC)
     in case deflateBound huff n of
          None \<Rightarrow> 0
        | Some d \<Rightarrow>
            let c = chunk_cnt n (i_hw_buff_sz sp) in
            if i_data_fmt sp = DEFLATE_ZLIB
            then d + (c * of_nat (outputHeaderSz (i_data_fmt sp)) + c * of_nat (outputFooterSz (i_data_fmt sp)))
            else d + c * of_nat (qzGzipHeaderSz + stdGzipFooterSz))"

definition qzLZ4SBound :: "(u32 \<Rightarrow> u32 option) \<Rightarrow> bool \<Rightarrow> u32 \<Rightarrow> u32" where
  "qzLZ4SBound lz4sBound api31 n =
     (if \<not> api31 then 0 else case lz4sBound n of None \<Rightarrow> 0 | Some d \<Rightarrow> d)"

definition qzLZ4Bound :: "(u32 \<Rightarrow> u32 option) \<Rightarrow> bool \<Rightarrow> u32 \<Rightarrow> QzSess \<Rightarrow> u32" where
  "qzLZ4Bound lz4Bound api31 n q =
    (if \<not> api31 then 0 else
     case lz4Bound n of None \<Rightarrow> 0
     | Some d \<Rightarrow>
         let sp = sess_params q; c = chunk_cnt n (i_hw_buff_sz sp) in
         d + (c * of_nat (outputHeaderSz (i_data_fmt sp)) + c * of_nat (outputFooterSz (i_data_fmt sp))))"

text \<open>The driver's three bounds, and whether it has the LZ4 services.\<close>

record DriverBounds =
  db_deflate :: "CpaDcHuffType \<Rightarrow> u32 \<Rightarrow> u32 option"
  db_lz4 :: "u32 \<Rightarrow> u32 option"
  db_lz4s :: "u32 \<Rightarrow> u32 option"
  db_api31 :: bool

abbreviation (input) QZ_COMPRESSED_SZ_OF_EMPTY_FILE :: u32 where "QZ_COMPRESSED_SZ_OF_EMPTY_FILE \<equiv> 34"
abbreviation (input) QZ_SKID_PAD_SZ :: nat where "QZ_SKID_PAD_SZ \<equiv> 48"

text \<open>Without a usable session, the estimate is made with 64-bit arithmetic and the default buffer
  size, and a result that does not fit 32 bits is 0.\<close>

definition software_bound :: "u32 \<Rightarrow> u32" where
  "software_bound n =
    (let out = (9 * unat n + 8 - 1) div 8 + QZ_SKID_PAD_SZ +
           (if unat n div 65536 + unat n mod 65536 \<noteq> 0 then 1 else 0) * (qzGzipHeaderSz + stdGzipFooterSz)
     in if 2 ^ 32 \<le> out then 0 else of_nat out)"

definition qzMaxCompressedLength :: "DriverBounds \<Rightarrow> u32 \<Rightarrow> QzSession option \<Rightarrow> u32" where
  "qzMaxCompressedLength db n sess =
    (if n = 0 then QZ_COMPRESSED_SZ_OF_EMPTY_FILE
     else case sess of
       None \<Rightarrow> software_bound n
     | Some s \<Rightarrow>
         (case internal s of
            None \<Rightarrow> software_bound n
          | Some q \<Rightarrow>
              if hw_session_stat s \<noteq> QZ_OK then software_bound n
              else (case i_data_fmt (sess_params q) of
                  LZ4_FH \<Rightarrow> qzLZ4Bound (db_lz4 db) (db_api31 db) n q
                | LZ4S_BK \<Rightarrow> qzLZ4SBound (db_lz4s db) (db_api31 db) n
                | _ \<Rightarrow> qzDeflateBound (db_deflate db) n q)))"

section \<open>How many frames the bound allows for\<close>

lemma chunk_cnt_one: "n \<noteq> 0 \<Longrightarrow> unat n < 2 ^ 31 \<Longrightarrow> 0 < unat b \<Longrightarrow> chunk_cnt n b = 1"
proof -
  assume n: "n \<noteq> 0" "unat n < 2 ^ 31" and b: "0 < unat b"
  let ?d = "unat n div unat b" and ?m = "unat n mod unat b"
  have "?d \<le> unat n" by (rule div_le_dividend)
  moreover have "?m \<le> unat n" by (rule mod_less_eq_dividend)
  ultimately have "?d + ?m \<le> unat n + unat n" by (rule add_mono)
  then have "?d + ?m < 2 ^ 32" using n(2) by simp
  moreover have "unat (n div b + n mod b) = unat (n div b) + unat (n mod b)"
    by (rule unat_add_no_wrap) (use calculation n(2) in \<open>simp add: unat_div unat_mod\<close>)
  ultimately have "unat (n div b + n mod b) = ?d + ?m"
    by (simp add: unat_div unat_mod)
  moreover have "?d + ?m \<noteq> 0"
    using n(1) b by (metis add_is_0 div_mult_mod_eq mult_is_0 unat_eq_zero)
  ultimately have "n div b + n mod b \<noteq> 0" by auto
  then show "chunk_cnt n b = 1" by (simp add: chunk_cnt_def)
qed

text \<open>The number of hardware requests, and so of members, for a source of \<open>n\<close> bytes.\<close>

definition frames :: "nat \<Rightarrow> nat \<Rightarrow> nat" where
  "frames n hw = (n + hw - 1) div hw"

section \<open>Properties\<close>

text \<open>C36: For a session in the gzip-extended format the bound is the driver's bound plus the framing
  of one member. When the source fits one hardware buffer it is an upper bound on the framed
  output. When it needs more requests, and the compressed blocks together are as large as the
  driver's bound allows, the framed output exceeds the bound by the framing of all further
  members: the operators of the chunk count are grouped the wrong way.\<close>

theorem deflate_bound_one_member:
  assumes n: "n \<noteq> 0" "unat n < 2 ^ 31" and hw: "0 < unat (i_hw_buff_sz (sess_params q))"
    and s: "internal s = Some q" "hw_session_stat s = QZ_OK"
    and d: "\<forall>huff. db_deflate db huff n = Some d" "unat d < 2 ^ 31"
    and out: "out = blocks + frames (unat n) (unat (i_hw_buff_sz (sess_params q))) *
                (outputHeaderSz (i_data_fmt (sess_params q)) + outputFooterSz (i_data_fmt (sess_params q)))"
    and ext: "i_data_fmt (sess_params q) = DEFLATE_GZIP_EXT"
  shows "unat (qzMaxCompressedLength db n (Some s)) = unat d + 32 \<and>
    (unat n \<le> unat (i_hw_buff_sz (sess_params q)) \<longrightarrow> blocks \<le> unat d \<longrightarrow>
       out \<le> unat (qzMaxCompressedLength db n (Some s))) \<and>
    (unat (i_hw_buff_sz (sess_params q)) < unat n \<longrightarrow> blocks = unat d \<longrightarrow>
       out = unat (qzMaxCompressedLength db n (Some s)) +
         32 * (frames (unat n) (unat (i_hw_buff_sz (sess_params q))) - 1) \<and>
       unat (qzMaxCompressedLength db n (Some s)) < out)"
proof -
  let ?hw = "unat (i_hw_buff_sz (sess_params q))"
  have "qzMaxCompressedLength db n (Some s) = d + 32"
    using n hw s d ext chunk_cnt_one [OF n hw]
    by (simp add: qzMaxCompressedLength_def qzDeflateBound_def Let_def gz_size_defs)
  moreover have "unat (d + 32) = unat d + 32"
    using d(2) by (simp add: unat_word_ariths)
  ultimately have m: "unat (qzMaxCompressedLength db n (Some s)) = unat d + 32" by simp
  have o: "out = blocks + 32 * frames (unat n) ?hw"
    using out ext by (simp add: fmt_size_defs mult.commute)
  have "0 < unat n" using n(1) by (simp add: unat_gt_0)
  have one: "frames (unat n) ?hw = 1" if "unat n \<le> ?hw"
  proof -
    have "?hw \<le> unat n + ?hw - 1" "unat n + ?hw - 1 < 2 * ?hw" using that \<open>0 < unat n\<close> hw by simp_all
    then show ?thesis unfolding frames_def by (simp add: div_nat_eqI)
  qed
  have more: "2 \<le> frames (unat n) ?hw" if "?hw < unat n"
  proof -
    have "2 * ?hw \<le> unat n + ?hw - 1" using that by simp
    then show ?thesis unfolding frames_def using hw by (simp add: less_eq_div_iff_mult_less_eq)
  qed
  show ?thesis
    unfolding m using o one more by (auto simp: diff_mult_distrib2)
qed


definition bound_example :: DriverBounds where
  "bound_example = \<lparr>db_deflate = (\<lambda>_ n. Some (n + 11)), db_lz4 = (\<lambda>_. None), db_lz4s = (\<lambda>_. None),
     db_api31 = False\<rparr>"

theorem deflate_bound_one_member_witness:
  "unat (qzMaxCompressedLength bound_example 200000
     (Some (fresh_session\<lparr>internal := Some gz_sess\<rparr>))) = 200043 \<and>
   (200011 :: nat) + 4 * 32 = 200043 + 32 * 3"
  using deflate_bound_one_member [of 200000 gz_sess "fresh_session\<lparr>internal := Some gz_sess\<rparr>"
      bound_example 200011 "200011 + frames (unat (200000 :: u32)) (unat (i_hw_buff_sz (sess_params gz_sess))) *
        (outputHeaderSz (i_data_fmt (sess_params gz_sess)) + outputFooterSz (i_data_fmt (sess_params gz_sess)))"
      200011]
  by (simp add: gz_sess_def zero_sess_def g_sess_params_internal_default_def zero_params_def
      bound_example_def)

end
