(* ===== verification/Ring.thy ===== *)
theory Ring
  imports Types
begin

text \<open>
  The bounded ring of the asynchronous interface (\<^verbatim>\<open>QzRing_T\<close>, \<^verbatim>\<open>src/qatzip_utils.c\<close>): 32-bit head
  and tail counters that are never reduced, an element array indexed modulo the capacity. A whole
  operation is modelled as a function; the three steps an operation of a thread consists of are
  modelled as well, so that interleavings of threads can be followed. The interface is the locale
  of a bounded queue; the ring implements it when the capacity divides \<open>2 ^ 32\<close>.
\<close>

record 'a QzRing =
  r_size :: u32
  r_mask :: u32
  capacity :: u32
  elems :: "'a option list"
  prod_head :: u32
  prod_tail :: u32
  cons_head :: u32
  cons_tail :: u32

definition QzRingCreate :: "int \<Rightarrow> 'a QzRing option" where
  "QzRingCreate sz = (if sz < 1 then None
     else Some \<lparr>r_size = word_of_int sz, r_mask = word_of_int (sz - 1), capacity = word_of_int sz,
       elems = replicate (nat sz) None, prod_head = 0, prod_tail = 0, cons_head = 0,
       cons_tail = 0\<rparr>)"

text \<open>Clearing frees every element left; the second component is what was freed.\<close>

definition QzClearRing :: "'a QzRing \<Rightarrow> 'a QzRing \<times> 'a list" where
  "QzClearRing r =
    (r\<lparr>elems := map (\<lambda>_. None) (elems r), r_mask := r_size r - 1, capacity := r_size r,
       cons_head := 0, cons_tail := 0, prod_head := 0, prod_tail := 0\<rparr>,
     List.map_filter id (elems r))"

section \<open>The steps of an operation\<close>

text \<open>A successful head move gives the old and new value of the head. The compare-and-swap loop
  ends in an iteration whose swap sees the value it read, which is this step.\<close>

definition QzRingMoveProdHead :: "'a QzRing \<Rightarrow> (u32 \<times> u32 \<times> 'a QzRing) option" where
  "QzRingMoveProdHead r =
    (let old = prod_head r; free = capacity r + cons_tail r - old in
     if free < 1 then None else Some (old, old + 1, r\<lparr>prod_head := old + 1\<rparr>))"

definition QzRingEnqueueElem :: "'a QzRing \<Rightarrow> u32 \<Rightarrow> 'a \<Rightarrow> 'a QzRing" where
  "QzRingEnqueueElem r h x = r\<lparr>elems := (elems r)[unat (h mod capacity r) := Some x]\<rparr>"

text \<open>The tail is set by a single producer or consumer; otherwise by one compare-and-swap, whose
  failure is ignored.\<close>

definition QzRingUpdatTail :: "u32 \<Rightarrow> u32 \<Rightarrow> u32 \<Rightarrow> bool \<Rightarrow> u32" where
  "QzRingUpdatTail tail old new single =
     (if \<not> single then (if tail = old then new else tail) else new)"

text \<open>The number of entries is an \<open>int\<close> in C.\<close>

definition QzRingMoveConsHead :: "'a QzRing \<Rightarrow> (u32 \<times> u32 \<times> 'a QzRing) option" where
  "QzRingMoveConsHead r =
    (let old = cons_head r; entries = sint (prod_tail r - old) in
     if entries < 1 then None else Some (old, old + 1, r\<lparr>cons_head := old + 1\<rparr>))"

definition QzRingDequeueElem :: "'a QzRing \<Rightarrow> u32 \<Rightarrow> 'a option \<times> 'a QzRing" where
  "QzRingDequeueElem r h =
    (let i = unat (h mod capacity r) in (elems r ! i, r\<lparr>elems := (elems r)[i := None]\<rparr>))"

section \<open>Whole operations\<close>

definition QzRingProduceEnQueue :: "'a QzRing \<Rightarrow> 'a \<Rightarrow> bool \<Rightarrow> status \<times> 'a QzRing" where
  "QzRingProduceEnQueue r x single =
    (case QzRingMoveProdHead r of
       None \<Rightarrow> (QZ_FAIL, r)
     | Some (h, n, r) \<Rightarrow>
         let r = QzRingEnqueueElem r h x
         in (QZ_OK, r\<lparr>prod_tail := QzRingUpdatTail (prod_tail r) h n single\<rparr>))"

definition QzRingConsumeDequeue :: "'a QzRing \<Rightarrow> bool \<Rightarrow> 'a option \<times> 'a QzRing" where
  "QzRingConsumeDequeue r single =
    (case QzRingMoveConsHead r of
       None \<Rightarrow> (None, r)
     | Some (h, n, r) \<Rightarrow>
         (case QzRingDequeueElem r h of
            (x, r) \<Rightarrow> (x, r\<lparr>cons_tail := QzRingUpdatTail (cons_tail r) h n single\<rparr>)))"

section \<open>The interface: a bounded queue\<close>

datatype 'a queue_op = Enq 'a | Deq
datatype 'a queue_res = Pushed bool | Popped "'a option"

text \<open>The abstract queue with capacity \<open>n\<close>.\<close>

fun spec_op :: "nat \<Rightarrow> 'a list \<Rightarrow> 'a queue_op \<Rightarrow> 'a queue_res \<times> 'a list" where
  "spec_op n xs (Enq x) = (if length xs < n then (Pushed True, xs @ [x]) else (Pushed False, xs))"
| "spec_op n xs Deq = (case xs of [] \<Rightarrow> (Popped None, []) | y # ys \<Rightarrow> (Popped (Some y), ys))"

fun spec_run :: "nat \<Rightarrow> 'a list \<Rightarrow> 'a queue_op list \<Rightarrow> 'a queue_res list \<times> 'a list" where
  "spec_run n xs [] = ([], xs)"
| "spec_run n xs (op # ops) =
     (case spec_op n xs op of (r, xs') \<Rightarrow> case spec_run n xs' ops of (rs, ys) \<Rightarrow> (r # rs, ys))"

locale bounded_queue =
  fixes enq :: "'s \<Rightarrow> 'a \<Rightarrow> status \<times> 's"
    and deq :: "'s \<Rightarrow> 'a option \<times> 's"
    and inv :: "'s \<Rightarrow> bool"
    and contents :: "'s \<Rightarrow> 'a list"
    and cap :: "'s \<Rightarrow> nat"
  assumes enq_ok: "inv s \<Longrightarrow> length (contents s) < cap s \<Longrightarrow>
      \<exists>s'. enq s x = (QZ_OK, s') \<and> inv s' \<and> contents s' = contents s @ [x] \<and> cap s' = cap s"
    and enq_full: "inv s \<Longrightarrow> \<not> length (contents s) < cap s \<Longrightarrow> enq s x = (QZ_FAIL, s)"
    and deq_ok: "inv s \<Longrightarrow> contents s = y # ys \<Longrightarrow>
      \<exists>s'. deq s = (Some y, s') \<and> inv s' \<and> contents s' = ys \<and> cap s' = cap s"
    and deq_empty: "inv s \<Longrightarrow> contents s = [] \<Longrightarrow> deq s = (None, s)"
begin

fun impl_op :: "'s \<Rightarrow> 'a queue_op \<Rightarrow> 'a queue_res \<times> 's" where
  "impl_op s (Enq x) = (case enq s x of (rc, s') \<Rightarrow> (Pushed (rc = QZ_OK), s'))"
| "impl_op s Deq = (case deq s of (y, s') \<Rightarrow> (Popped y, s'))"

fun impl_run :: "'s \<Rightarrow> 'a queue_op list \<Rightarrow> 'a queue_res list \<times> 's" where
  "impl_run s [] = ([], s)"
| "impl_run s (op # ops) =
     (case impl_op s op of (r, s') \<Rightarrow> case impl_run s' ops of (rs, t) \<Rightarrow> (r # rs, t))"

lemma op_refines:
  assumes "inv s"
  shows "\<exists>s'. impl_op s op = (fst (spec_op (cap s) (contents s) op), s') \<and> inv s' \<and>
    contents s' = snd (spec_op (cap s) (contents s) op) \<and> cap s' = cap s"
proof (cases op)
  case (Enq x)
  show ?thesis
  proof (cases "length (contents s) < cap s")
    case True
    then show ?thesis using enq_ok [OF assms True, of x] Enq by auto
  next
    case False
    then show ?thesis using enq_full [OF assms False, of x] Enq assms by simp
  qed
next
  case Deq
  show ?thesis
  proof (cases "contents s")
    case Nil
    then show ?thesis using deq_empty [OF assms Nil] Deq assms by simp
  next
    case (Cons y ys)
    then show ?thesis using deq_ok [OF assms Cons] Deq by auto
  qed
qed

lemma run_refines:
  "inv s \<Longrightarrow> \<exists>t. impl_run s ops = (fst (spec_run (cap s) (contents s) ops), t) \<and> inv t \<and>
     contents t = snd (spec_run (cap s) (contents s) ops)"
proof (induction ops arbitrary: s)
  case (Cons op ops)
  obtain s' where s': "impl_op s op = (fst (spec_op (cap s) (contents s) op), s')" "inv s'"
    "contents s' = snd (spec_op (cap s) (contents s) op)" "cap s' = cap s"
    using op_refines [OF Cons.prems] by blast
  show ?case
    using Cons.IH [OF s'(2)] s' by (auto split: prod.splits)
qed simp

end

section \<open>The ring is a bounded queue\<close>

text \<open>The number of entries and the slot of the \<open>i\<close>-th entry.\<close>

definition ring_len :: "'a QzRing \<Rightarrow> nat" where
  "ring_len r = unat (prod_head r - cons_head r)"

definition slot :: "'a QzRing \<Rightarrow> nat \<Rightarrow> nat" where
  "slot r i = (unat (cons_head r) + i) mod unat (capacity r)"

text \<open>No operation is in progress (head and tail agree), the capacity divides \<open>2 ^ 32\<close>, is a
  positive \<open>int\<close> and is the length of the array, and every entry's slot is filled.\<close>

definition ring_ok :: "'a QzRing \<Rightarrow> bool" where
  "ring_ok r \<longleftrightarrow> prod_tail r = prod_head r \<and> cons_tail r = cons_head r \<and>
     0 < unat (capacity r) \<and> unat (capacity r) dvd 2 ^ 32 \<and> unat (capacity r) < 2 ^ 31 \<and>
     length (elems r) = unat (capacity r) \<and> ring_len r \<le> unat (capacity r) \<and>
     (\<forall>i < ring_len r. elems r ! slot r i \<noteq> None)"

definition ring_contents :: "'a QzRing \<Rightarrow> 'a list" where
  "ring_contents r = map (\<lambda>i. the (elems r ! slot r i)) [0..<ring_len r]"

lemma mod_slot_distinct:
  assumes "i < j" and "j - i < (c :: nat)"
  shows "(a + i) mod c \<noteq> (a + j) mod c"
proof
  assume "(a + i) mod c = (a + j) mod c"
  then have "c dvd (a + j) - (a + i)" using assms(1) by (intro mod_eq_dvd_iff_nat [THEN iffD1]) simp_all
  then have "c dvd j - i" by simp
  then show False using assms by (auto dest: dvd_imp_le)
qed

lemma unat_add_mod:
  assumes "c dvd 2 ^ 32"
  shows "unat (w + of_nat i :: u32) mod c = (unat w + i) mod c"
proof -
  have "unat (w + of_nat i) = (unat w + i) mod 2 ^ 32"
    by (simp add: unat_word_ariths unat_of_nat mod_add_right_eq)
  then show ?thesis using assms by (simp add: mod_mod_cancel)
qed

lemma ring_heads:
  assumes "ring_ok r"
  shows "unat (prod_head r mod capacity r) = slot r (ring_len r)"
    and "unat (cons_head r mod capacity r) = slot r 0"
proof -
  have p: "prod_head r = cons_head r + of_nat (ring_len r)"
    by (simp add: ring_len_def)
  have "unat (prod_head r mod capacity r) = unat (prod_head r) mod unat (capacity r)"
    by (simp add: unat_mod)
  also have "\<dots> = slot r (ring_len r)"
    unfolding slot_def by (subst p, rule unat_add_mod) (use assms in \<open>simp add: ring_ok_def\<close>)
  finally show "unat (prod_head r mod capacity r) = slot r (ring_len r)" .
  show "unat (cons_head r mod capacity r) = slot r 0"
    by (simp add: unat_mod slot_def)
qed

lemma slot_lt: "ring_ok r \<Longrightarrow> slot r i < length (elems r)"
  by (simp add: slot_def ring_ok_def)

lemma slots_distinct: "i < j \<Longrightarrow> j - i < unat (capacity r) \<Longrightarrow> slot r i \<noteq> slot r j"
  unfolding slot_def by (rule mod_slot_distinct)

lemma ring_len_lt: "ring_ok r \<Longrightarrow> ring_len r < 2 ^ 31"
  by (simp add: ring_ok_def)

lemma ring_free:
  assumes "ring_ok r"
  shows "unat (capacity r + cons_tail r - prod_head r) = unat (capacity r) - ring_len r"
proof -
  have e: "capacity r + cons_tail r - prod_head r = capacity r - (prod_head r - cons_head r)"
    using assms by (simp add: ring_ok_def)
  show ?thesis
    unfolding e ring_len_def
    by (rule unat_sub) (use assms in \<open>simp add: ring_ok_def ring_len_def word_le_nat_alt\<close>)
qed

lemma ring_enq_ok:
  assumes ok: "ring_ok r" and lt: "length (ring_contents r) < unat (capacity r)"
  shows "\<exists>r'. QzRingProduceEnQueue r x single = (QZ_OK, r') \<and> ring_ok r' \<and>
    ring_contents r' = ring_contents r @ [x] \<and> unat (capacity r') = unat (capacity r)"
proof -
  let ?n = "ring_len r"
  let ?r = "r\<lparr>prod_head := prod_head r + 1, elems := (elems r)[slot r ?n := Some x],
    prod_tail := prod_head r + 1\<rparr>"
  have n: "?n < unat (capacity r)" using lt by (simp add: ring_contents_def)
  have "\<not> capacity r + cons_tail r - prod_head r < 1"
    using ring_free [OF ok] n by (simp add: word_less_nat_alt)
  then have run: "QzRingProduceEnQueue r x single = (QZ_OK, ?r)"
    using ring_heads(1) [OF ok] ok
    by (simp add: QzRingProduceEnQueue_def QzRingMoveProdHead_def QzRingEnqueueElem_def
        QzRingUpdatTail_def Let_def ring_ok_def)
  have "prod_head r - cons_head r + 1 \<noteq> 0"
  proof
    assume "prod_head r - cons_head r + 1 = 0"
    then have "prod_head r - cons_head r = - 1" by (simp add: eq_neg_iff_add_eq_0)
    then have "?n = unat (- 1 :: u32)" by (simp add: ring_len_def)
    then show False using ring_len_lt [OF ok] by (simp add: unsigned_minus_1_eq_mask mask_eq_exp_minus_1)
  qed
  then have "unat (prod_head r - cons_head r + 1) = Suc ?n"
    unfolding ring_len_def add.commute [of _ 1] by (rule unatSuc)
  moreover have "ring_len ?r = unat (prod_head r + 1 - cons_head r)" by (simp add: ring_len_def)
  moreover have "prod_head r + 1 - cons_head r = prod_head r - cons_head r + 1"
    by (simp only: diff_add_eq)
  ultimately have len: "ring_len ?r = Suc ?n" by (simp only:)
  have slot: "slot ?r i = slot r i" for i by (simp add: slot_def)
  have old: "elems ?r ! slot r i = elems r ! slot r i" if "i < ?n" for i
  proof -
    have "slot r i \<noteq> slot r ?n" by (rule slots_distinct [OF that]) (use n in simp)
    then show ?thesis by simp
  qed
  have new: "elems ?r ! slot r ?n = Some x" using slot_lt [OF ok] by simp
  have "ring_ok ?r"
    using ok n len old new by (auto simp: ring_ok_def slot less_Suc_eq simp del: QzRing.update_convs)
  moreover have "ring_contents ?r = ring_contents r @ [x]"
    using len old new by (simp add: ring_contents_def slot del: QzRing.update_convs)
  ultimately show ?thesis using run by auto
qed

lemma ring_enq_full:
  assumes "ring_ok r" and "\<not> length (ring_contents r) < unat (capacity r)"
  shows "QzRingProduceEnQueue r x single = (QZ_FAIL, r)"
proof -
  have "unat (capacity r + cons_tail r - prod_head r) = 0"
    using ring_free [OF assms(1)] assms by (simp add: ring_contents_def)
  then have "capacity r + cons_tail r - prod_head r = 0" by (simp only: unat_eq_zero)
  then show ?thesis by (simp add: QzRingProduceEnQueue_def QzRingMoveProdHead_def)
qed

lemma ring_entries:
  assumes "ring_ok r"
  shows "sint (prod_tail r - cons_head r) = int (ring_len r)"
proof -
  have "prod_tail r - cons_head r = of_nat (ring_len r)"
    using assms by (simp add: ring_ok_def ring_len_def)
  then show ?thesis
    using ring_len_lt [OF assms] by (simp add: signed_of_nat signed_take_bit_int_eq_self_iff)
qed

lemma ring_deq_ok:
  assumes ok: "ring_ok r" and c: "ring_contents r = y # ys"
  shows "\<exists>r'. QzRingConsumeDequeue r single = (Some y, r') \<and> ring_ok r' \<and>
    ring_contents r' = ys \<and> unat (capacity r') = unat (capacity r)"
proof -
  let ?n = "ring_len r"
  let ?r = "r\<lparr>cons_head := cons_head r + 1, elems := (elems r)[slot r 0 := None],
    cons_tail := cons_head r + 1\<rparr>"
  have n: "0 < ?n" using c by (cases "?n") (simp_all add: ring_contents_def)
  then obtain m where m: "?n = Suc m" using gr0_conv_Suc by blast
  have y: "elems r ! slot r 0 = Some y" and ys: "ys = map (\<lambda>i. the (elems r ! slot r i)) [1..<?n]"
    using c ok n by (auto simp: ring_contents_def ring_ok_def upt_conv_Cons)
  have run: "QzRingConsumeDequeue r single = (Some y, ?r)"
    using ring_entries [OF ok] n ring_heads(2) [OF ok] ok y
    by (simp add: QzRingConsumeDequeue_def QzRingMoveConsHead_def QzRingDequeueElem_def
        QzRingUpdatTail_def Let_def ring_ok_def)
  have len: "ring_len ?r = m"
  proof -
    have ne: "prod_head r - cons_head r \<noteq> 0" using n by (auto simp: ring_len_def)
    have "ring_len ?r = unat (prod_head r - (cons_head r + 1))" by (simp add: ring_len_def)
    also have "\<dots> = unat (prod_head r - cons_head r - 1)" by (simp only: diff_diff_eq)
    also have "\<dots> = ?n - 1" unfolding ring_len_def by (rule unat_minus_one [OF ne])
    finally show ?thesis using m by simp
  qed
  have slot: "slot ?r i = slot r (Suc i)" for i
  proof -
    have "unat (cons_head r + of_nat 1) mod unat (capacity r) = (unat (cons_head r) + 1) mod unat (capacity r)"
      by (rule unat_add_mod) (use ok in \<open>simp add: ring_ok_def\<close>)
    then have "(unat (cons_head r + of_nat 1) + i) mod unat (capacity r) =
        (unat (cons_head r) + 1 + i) mod unat (capacity r)"
      by (rule mod_add_cong) simp
    moreover have "slot ?r i = (unat (cons_head r + of_nat 1) + i) mod unat (capacity r)"
      by (simp add: slot_def)
    ultimately show ?thesis by (simp add: slot_def)
  qed
  have old: "elems ?r ! slot r (Suc i) = elems r ! slot r (Suc i)" if "i < m" for i
    using slots_distinct [of 0 "Suc i" r] that m ok by (simp add: ring_ok_def)
  have sel: "prod_head ?r = prod_head r" "prod_tail ?r = prod_tail r" "capacity ?r = capacity r"
    "cons_head ?r = cons_head r + 1" "cons_tail ?r = cons_head r + 1"
    "length (elems ?r) = length (elems r)" by simp_all
  have "ring_ok ?r"
    using ok m old unfolding ring_ok_def sel len slot by auto
  moreover have "ring_contents ?r = ys"
  proof -
    have "[1..<?n] = map Suc [0..<m]" using m by (simp add: map_Suc_upt del: upt_Suc)
    then have "ys = map (\<lambda>i. the (elems r ! slot r (Suc i))) [0..<m]"
      unfolding ys by (simp add: comp_def)
    then show ?thesis unfolding ring_contents_def len slot using old by simp
  qed
  ultimately show ?thesis using run by auto
qed

lemma ring_deq_empty:
  assumes "ring_ok r" and "ring_contents r = []"
  shows "QzRingConsumeDequeue r single = (None, r)"
  using ring_entries [OF assms(1)] assms(2)
  by (simp add: QzRingConsumeDequeue_def QzRingMoveConsHead_def ring_contents_def)

interpretation ring: bounded_queue "\<lambda>r x. QzRingProduceEnQueue r x p" "\<lambda>r. QzRingConsumeDequeue r c"
  ring_ok ring_contents "\<lambda>r. unat (capacity r)" for p c
  by unfold_locales (blast intro: ring_enq_ok ring_enq_full ring_deq_ok ring_deq_empty)+


section \<open>Interleavings of consumers\<close>

text \<open>A thread in the middle of a dequeue: after the move of the head, and after the element was
  taken. A step of a thread with a given phase is one of the three steps above.\<close>

datatype 'a phase = Idle | Moved u32 u32 | Taken u32 u32 "'a option" | Done "'a option"

definition consumer_step :: "bool \<Rightarrow> 'a QzRing \<Rightarrow> 'a phase \<Rightarrow> 'a QzRing \<times> 'a phase" where
  "consumer_step single r ph = (case ph of
     Idle \<Rightarrow> (case QzRingMoveConsHead r of None \<Rightarrow> (r, Done None) | Some (h, n, r) \<Rightarrow> (r, Moved h n))
   | Moved h n \<Rightarrow> (case QzRingDequeueElem r h of (x, r) \<Rightarrow> (r, Taken h n x))
   | Taken h n x \<Rightarrow> (r\<lparr>cons_tail := QzRingUpdatTail (cons_tail r) h n single\<rparr>, Done x)
   | Done x \<Rightarrow> (r, Done x))"

text \<open>A schedule of two threads: \<open>False\<close> is a step of the first, \<open>True\<close> of the second.\<close>

fun two_consumers :: "'a QzRing \<Rightarrow> 'a phase \<Rightarrow> 'a phase \<Rightarrow> bool list \<Rightarrow> 'a QzRing \<times> 'a phase \<times> 'a phase" where
  "two_consumers r a b [] = (r, a, b)"
| "two_consumers r a b (False # sch) =
     (case consumer_step False r a of (r, a) \<Rightarrow> two_consumers r a b sch)"
| "two_consumers r a b (True # sch) =
     (case consumer_step False r b of (r, b) \<Rightarrow> two_consumers r a b sch)"

section \<open>Properties\<close>

text \<open>C14: A fresh ring whose capacity divides \<open>2 ^ 32\<close> behaves, over any sequence of enqueues and
  dequeues of any length (so beyond the wrap-around of its 32-bit counters), exactly as a
  first-in-first-out queue bounded by the capacity: the same elements come out in the same order,
  and exactly the enqueues on a full queue are refused.\<close>

theorem ring_is_fifo:
  assumes "0 < n" and "n < 2 ^ 31" and "n dvd 2 ^ 32"
  shows "\<exists>r. QzRingCreate (int n) = Some r \<and>
    fst (ring.impl_run p c r ops) = fst (spec_run n [] ops)"
proof -
  let ?r = "the (QzRingCreate (int n)) :: 'a QzRing"
  have r: "QzRingCreate (int n) = Some ?r" using assms(1) by (simp add: QzRingCreate_def)
  have u: "unat (word_of_nat n :: u32) = n"
    using assms(2) by (simp add: unat_of_nat)
  have c: "unat (capacity ?r) = n" "ring_contents ?r = []" "ring_ok ?r"
    using assms u by (simp_all add: QzRingCreate_def ring_ok_def ring_contents_def ring_len_def)
  have "fst (ring.impl_run p c ?r ops) = fst (spec_run n [] ops)"
    using ring.run_refines [OF c(3), of p c ops] unfolding c(1,2) by auto
  then show ?thesis using r by blast
qed

theorem ring_is_fifo_witness:
  "\<exists>r. QzRingCreate (int 2) = Some r \<and>
     fst (ring.impl_run True False r [Enq (5 :: nat), Enq 6, Enq 7, Deq, Enq 8, Deq]) =
       [Pushed True, Pushed True, Pushed False, Popped (Some 5), Pushed True, Popped (Some 6)]"
  using ring_is_fifo [of 2 True False "[Enq (5 :: nat), Enq 6, Enq 7, Deq, Enq 8, Deq]"] by simp

definition wrap_ring :: "nat QzRing" where
  "wrap_ring = \<lparr>r_size = 3, r_mask = 2, capacity = 3, elems = [None, None, None],
     prod_head = 0xFFFFFFFF, prod_tail = 0xFFFFFFFF, cons_head = 0xFFFFFFFF,
     cons_tail = 0xFFFFFFFF\<rparr>"

text \<open>With a capacity that does not divide \<open>2 ^ 32\<close>, which \<open>QzRingCreate\<close> accepts, the ring loses
  an element when the counters wrap around: both elements of a ring of capacity 3 go to the same
  slot.\<close>

theorem ring_wrap_loses:
  "(case QzRingProduceEnQueue wrap_ring 5 True of (rc1, r) \<Rightarrow>
    case QzRingProduceEnQueue r 6 True of (rc2, r) \<Rightarrow>
    case QzRingConsumeDequeue r True of (x, r) \<Rightarrow>
    case QzRingConsumeDequeue r True of (y, _) \<Rightarrow> (rc1, rc2, x, y))
   = (QZ_OK, QZ_OK, Some 6, None)"
  by code_simp

definition two_elem_ring :: "nat QzRing" where
  "two_elem_ring = \<lparr>r_size = 2, r_mask = 1, capacity = 2, elems = [Some 5, Some 6],
     prod_head = 2, prod_tail = 2, cons_head = 0, cons_tail = 0\<rparr>"

text \<open>Two concurrent consumers can leave the consumer tail behind for ever: when the one that
  took the second element finishes first, its compare-and-swap fails and is not retried, so the
  slot is never given back and a full ring refuses the next element although it is empty.\<close>

theorem ring_lost_tail:
  "(case two_consumers two_elem_ring Idle Idle [False, True, True, True, False, False] of
      (r, a, b) \<Rightarrow> (a, b, cons_head r, cons_tail r,
        (case QzRingProduceEnQueue r 7 True of (rc1, r) \<Rightarrow> case QzRingProduceEnQueue r 8 True of (rc2, _) \<Rightarrow> (rc1, rc2))))
   = (Done (Some 5), Done (Some 6), 2, 1, (QZ_OK, QZ_FAIL))"
  by code_simp

end
