(* ===== verification/PageTable.thy ===== *)
theory PageTable
  imports Types
begin

text \<open>
  The table of pinned pages (\<^verbatim>\<open>src/qatzip_page_table.h\<close>): a four-level tree indexed by 9-bit pieces
  of a 48-bit address, whose levels are mapped on demand. A mapping may fail; \<open>mm\<close> says which
  requests succeed (by address and level). Its interface is a locale: a map from addresses to
  types in which all addresses of a page share their entry.
\<close>

type_synonym idx = "9 word"
type_synonym pt0 = "idx \<Rightarrow> u64"
type_synonym pt1 = "idx \<Rightarrow> pt0 option"
type_synonym pt2 = "idx \<Rightarrow> pt1 option"
type_synonym pt3 = "idx \<Rightarrow> pt2 option"

abbreviation (input) PAGE_SHIFT :: nat where "PAGE_SHIFT \<equiv> 12"
abbreviation (input) PAGE_SIZE :: nat where "PAGE_SIZE \<equiv> 4096"
abbreviation (input) PINNED :: u64 where "PINNED \<equiv> - 1"

text \<open>The bit fields of \<^verbatim>\<open>QzPageEntry_T\<close>.\<close>

definition idxl0 :: "u64 \<Rightarrow> idx" where "idxl0 a = ucast (drop_bit 12 a)"
definition idxl1 :: "u64 \<Rightarrow> idx" where "idxl1 a = ucast (drop_bit 21 a)"
definition idxl2 :: "u64 \<Rightarrow> idx" where "idxl2 a = ucast (drop_bit 30 a)"
definition idxl3 :: "u64 \<Rightarrow> idx" where "idxl3 a = ucast (drop_bit 39 a)"

text \<open>A fresh level is zero-filled.\<close>

definition empty0 :: pt0 where "empty0 = (\<lambda>_. 0)"
definition empty1 :: "idx \<Rightarrow> 'a option" where "empty1 = (\<lambda>_. None)"

definition nextLevel :: "bool \<Rightarrow> 'a \<Rightarrow> 'a option \<Rightarrow> 'a option" where
  "nextLevel mmap_ok fresh p = (case p of Some l \<Rightarrow> Some l | None \<Rightarrow> if mmap_ok then Some fresh else None)"

text \<open>Success, and the table after: the levels mapped before a failure stay.\<close>

definition storeAddr :: "(u64 \<Rightarrow> nat \<Rightarrow> bool) \<Rightarrow> pt3 \<Rightarrow> u64 \<Rightarrow> u64 \<Rightarrow> bool \<times> pt3" where
  "storeAddr mm t virt ty =
    (case nextLevel (mm virt 3) empty1 (t (idxl3 virt)) of
       None \<Rightarrow> (False, t)
     | Some l2 \<Rightarrow>
        (case nextLevel (mm virt 2) empty1 (l2 (idxl2 virt)) of
           None \<Rightarrow> (False, t(idxl3 virt \<mapsto> l2))
         | Some l1 \<Rightarrow>
            (case nextLevel (mm virt 1) empty0 (l1 (idxl1 virt)) of
               None \<Rightarrow> (False, t(idxl3 virt \<mapsto> l2(idxl2 virt \<mapsto> l1)))
             | Some l0 \<Rightarrow>
                 (True, t(idxl3 virt \<mapsto> l2(idxl2 virt \<mapsto> l1(idxl1 virt \<mapsto> l0(idxl0 virt := ty))))))))"

definition loadAddr :: "pt3 \<Rightarrow> u64 \<Rightarrow> u64" where
  "loadAddr t virt =
    (case t (idxl3 virt) of None \<Rightarrow> 0
     | Some l2 \<Rightarrow> (case l2 (idxl2 virt) of None \<Rightarrow> 0
        | Some l1 \<Rightarrow> (case l1 (idxl1 virt) of None \<Rightarrow> 0
           | Some l0 \<Rightarrow> l0 (idxl0 virt))))"

text \<open>The loop over the pages of a range. Sizes are below \<open>2 ^ 64 - 4096\<close>, so the offset does not
  wrap; the address does.\<close>

function storeMmapRange_loop ::
  "(u64 \<Rightarrow> nat \<Rightarrow> bool) \<Rightarrow> pt3 \<Rightarrow> u64 \<Rightarrow> u64 \<Rightarrow> nat \<Rightarrow> nat \<Rightarrow> bool \<times> pt3" where
  "storeMmapRange_loop mm t virt ty sz off =
     (if off < sz then
        (case storeAddr mm t (virt + of_nat off) ty of (ok, t') \<Rightarrow>
           if \<not> ok then (False, t') else storeMmapRange_loop mm t' virt ty sz (off + PAGE_SIZE))
      else (True, t))"
  by pat_completeness auto
termination
  by (relation "measure (\<lambda>(mm, t, virt, ty, sz, off). sz - off)") auto

definition storeMmapRange ::
  "(u64 \<Rightarrow> nat \<Rightarrow> bool) \<Rightarrow> pt3 \<Rightarrow> u64 \<Rightarrow> u64 \<Rightarrow> nat \<Rightarrow> bool \<times> pt3" where
  "storeMmapRange mm t virt ty sz = storeMmapRange_loop mm t virt ty sz 0"

text \<open>\<open>freePageTable\<close> unmaps every level below the root, three deep, and clears the root; the second
  component counts the levels unmapped.\<close>

definition freePageLevel1 :: "pt1 \<Rightarrow> nat" where
  "freePageLevel1 l = (\<Sum>i\<in>UNIV. case l i of None \<Rightarrow> 0 | Some _ \<Rightarrow> 1)"
definition freePageLevel2 :: "pt2 \<Rightarrow> nat" where
  "freePageLevel2 l = (\<Sum>i\<in>UNIV. case l i of None \<Rightarrow> 0 | Some p \<Rightarrow> freePageLevel1 p + 1)"
definition freePageLevel3 :: "pt3 \<Rightarrow> nat" where
  "freePageLevel3 l = (\<Sum>i\<in>UNIV. case l i of None \<Rightarrow> 0 | Some p \<Rightarrow> freePageLevel2 p + 1)"

definition freePageTable :: "pt3 \<Rightarrow> pt3 \<times> nat" where
  "freePageTable t = (empty1, freePageLevel3 t)"

section \<open>The interface\<close>

text \<open>Storing a list of addresses, up to the first failure.\<close>

fun store_all :: "('t \<Rightarrow> u64 \<Rightarrow> u64 \<Rightarrow> bool \<times> 't) \<Rightarrow> 't \<Rightarrow> u64 list \<Rightarrow> u64 \<Rightarrow> bool \<times> 't" where
  "store_all st t [] ty = (True, t)"
| "store_all st t (a # as) ty =
     (case st t a ty of (ok, t') \<Rightarrow> if \<not> ok then (False, t') else store_all st t' as ty)"

locale page_map =
  fixes st :: "'t \<Rightarrow> u64 \<Rightarrow> u64 \<Rightarrow> bool \<times> 't"
    and ld :: "'t \<Rightarrow> u64 \<Rightarrow> u64"
    and page :: "u64 \<Rightarrow> 'p"
  assumes ld_st_same: "st t a ty = (True, t') \<Longrightarrow> page b = page a \<Longrightarrow> ld t' b = ty"
    and ld_st_other: "st t a ty = (ok, t') \<Longrightarrow> page b \<noteq> page a \<Longrightarrow> ld t' b = ld t b"
    and ld_st_fail: "st t a ty = (False, t') \<Longrightarrow> ld t' b = ld t b"
begin

lemma ld_store_all:
  "store_all st t as ty = (True, t') \<Longrightarrow>
     ld t' b = (if page b \<in> page ` set as then ty else ld t b)"
proof (induction as arbitrary: t)
  case (Cons a as)
  obtain t1 where t1: "st t a ty = (True, t1)" "store_all st t1 as ty = (True, t')"
    using Cons.prems by (auto split: prod.splits if_splits)
  show ?case
    using Cons.IH [OF t1(2)] ld_st_same [OF t1(1), of b] ld_st_other [OF t1(1), of b] by auto
qed simp

lemma ld_store_all_fail:
  "store_all st t as ty = (False, t') \<Longrightarrow> ld t' b = ty \<or> ld t' b = ld t b"
proof (induction as arbitrary: t)
  case (Cons a as)
  show ?case
  proof (cases "st t a ty")
    case (Pair ok t1)
    show ?thesis
    proof (cases ok)
      case False
      then show ?thesis using Cons.prems Pair ld_st_fail [of t a ty t1 b] by simp
    next
      case True
      then have "store_all st t1 as ty = (False, t')" using Cons.prems Pair by simp
      then have "ld t' b = ty \<or> ld t' b = ld t1 b" by (rule Cons.IH)
      then show ?thesis
        using ld_st_same [of t a ty t1 b] ld_st_other [of t a ty ok t1 b] Pair True
        by (cases "page b = page a") auto
    qed
  qed
qed simp

end

section \<open>The table implements the interface\<close>

text \<open>The page of an address: bits 12 to 47.\<close>

definition page_of :: "u64 \<Rightarrow> u64" where
  "page_of a = take_bit 36 (drop_bit 12 a)"

lemma idx_eq_page: "(idxl0 a = idxl0 b \<and> idxl1 a = idxl1 b \<and> idxl2 a = idxl2 b \<and> idxl3 a = idxl3 b)
    \<longleftrightarrow> page_of a = page_of b"
proof
  assume eq: "idxl0 a = idxl0 b \<and> idxl1 a = idxl1 b \<and> idxl2 a = idxl2 b \<and> idxl3 a = idxl3 b"
  have field: "bit a (k + i) = bit b (k + i)"
    if "(ucast (drop_bit k a) :: idx) = ucast (drop_bit k b)" "i < 9" for k i
  proof -
    have "bit (ucast (drop_bit k a) :: idx) i = bit (ucast (drop_bit k b) :: idx) i" using that(1) by simp
    then show ?thesis using that(2) by (simp add: bit_simps)
  qed
  have "bit a (12 + i) = bit b (12 + i)" if "i < 36" for i
  proof -
    consider "i < 9" | "9 \<le> i" "i < 18" | "18 \<le> i" "i < 27" | "27 \<le> i" by linarith
    then show ?thesis
    proof cases
      case 1 then show ?thesis using field [of 12 i] eq by (simp add: idxl0_def)
    next
      case 2 then show ?thesis using field [of 21 "i - 9"] eq by (simp add: idxl1_def)
    next
      case 3 then show ?thesis using field [of 30 "i - 18"] eq by (simp add: idxl2_def)
    next
      case 4 then show ?thesis using field [of 39 "i - 27"] eq that by (simp add: idxl3_def)
    qed
  qed
  then show "page_of a = page_of b"
    by (intro bit_word_eqI) (auto simp: page_of_def bit_simps)
next
  assume eq: "page_of a = page_of b"
  have p: "bit a (12 + i) = bit b (12 + i)" if "i < 36" for i
    using arg_cong [OF eq, of "\<lambda>w. bit w i"] that by (simp add: page_of_def bit_simps)
  have "(ucast (drop_bit k a) :: idx) = ucast (drop_bit k b)" if "12 \<le> k" "k \<le> 39" for k
  proof (rule bit_word_eqI)
    fix i assume "i < LENGTH(9)"
    then show "bit (ucast (drop_bit k a) :: idx) i = bit (ucast (drop_bit k b) :: idx) i"
      using p [of "k - 12 + i"] that by (simp add: bit_simps)
  qed
  then show "idxl0 a = idxl0 b \<and> idxl1 a = idxl1 b \<and> idxl2 a = idxl2 b \<and> idxl3 a = idxl3 b"
    by (simp add: idxl0_def idxl1_def idxl2_def idxl3_def)
qed

text \<open>Loads below a level, and what a fresh level and an updated one load.\<close>

definition ld1 :: "pt1 \<Rightarrow> u64 \<Rightarrow> u64" where
  "ld1 l b = (case l (idxl1 b) of None \<Rightarrow> 0 | Some l0 \<Rightarrow> l0 (idxl0 b))"
definition ld2 :: "pt2 \<Rightarrow> u64 \<Rightarrow> u64" where
  "ld2 l b = (case l (idxl2 b) of None \<Rightarrow> 0 | Some l1 \<Rightarrow> ld1 l1 b)"

lemma loadAddr_ld2: "loadAddr t b = (case t (idxl3 b) of None \<Rightarrow> 0 | Some l2 \<Rightarrow> ld2 l2 b)"
  by (auto simp: loadAddr_def ld1_def ld2_def split: option.splits)

lemma ld_empty [simp]: "ld2 empty1 b = 0" "ld1 empty1 b = 0" "loadAddr empty1 b = 0"
  by (simp_all add: loadAddr_ld2 ld2_def ld1_def empty1_def)

lemma nextLevel_load: "nextLevel ok fresh p = Some l \<Longrightarrow> f fresh = 0 \<Longrightarrow>
    (case p of None \<Rightarrow> 0 | Some l' \<Rightarrow> f l') = (f l :: u64)"
  by (cases p) (auto simp: nextLevel_def split: if_splits)

lemma ld1_upd: "nextLevel ok empty0 (l (idxl1 a)) = Some l0 \<Longrightarrow>
    ld1 (l(idxl1 a \<mapsto> l0(idxl0 a := v))) b =
      (if idxl1 b = idxl1 a \<and> idxl0 b = idxl0 a then v else ld1 l b)"
  using nextLevel_load [of ok empty0 "l (idxl1 a)" l0 "\<lambda>l. l (idxl0 b)"]
  by (auto simp: ld1_def empty0_def)

lemma ld2_at: "nextLevel ok empty1 (l (idxl2 a)) = Some l1 \<Longrightarrow> idxl2 b = idxl2 a \<Longrightarrow> ld2 l b = ld1 l1 b"
  using nextLevel_load [of ok empty1 "l (idxl2 a)" l1 "\<lambda>l. ld1 l b"] by (simp add: ld2_def)

lemma load_at: "nextLevel ok empty1 (t (idxl3 a)) = Some l2 \<Longrightarrow> idxl3 b = idxl3 a \<Longrightarrow>
    loadAddr t b = ld2 l2 b"
  using nextLevel_load [of ok empty1 "t (idxl3 a)" l2 "\<lambda>l. ld2 l b"] by (simp add: loadAddr_ld2)

lemma load_touch: "loadAddr (t(idxl3 a \<mapsto> l2')) b = (if idxl3 b = idxl3 a then ld2 l2' b else loadAddr t b)"
  by (simp add: loadAddr_ld2)

lemma ld2_touch: "ld2 (l(idxl2 a \<mapsto> l1')) b = (if idxl2 b = idxl2 a then ld1 l1' b else ld2 l b)"
  by (simp add: ld2_def)

lemma load_store:
  assumes "storeAddr mm t a ty = (ok, t')"
  shows "loadAddr t' b = (if ok \<and> page_of b = page_of a then ty else loadAddr t b)"
proof (cases "nextLevel (mm a 3) empty1 (t (idxl3 a))")
  case None
  then show ?thesis using assms by (simp add: storeAddr_def)
next
  case l2: (Some l2)
  show ?thesis
  proof (cases "nextLevel (mm a 2) empty1 (l2 (idxl2 a))")
    case None
    then show ?thesis using assms l2 load_at [of "mm a 3" t a l2 b] by (auto simp: storeAddr_def load_touch)
  next
    case l1: (Some l1)
    show ?thesis
    proof (cases "nextLevel (mm a 1) empty0 (l1 (idxl1 a))")
      case None
      then show ?thesis
        using assms l2 l1 load_at [of "mm a 3" t a l2 b] ld2_at [of "mm a 2" l2 a l1 b]
        by (auto simp: storeAddr_def load_touch ld2_touch)
    next
      case l0: (Some l0)
      then show ?thesis
        using assms l2 l1 load_at [of "mm a 3" t a l2 b] ld2_at [of "mm a 2" l2 a l1 b] ld1_upd [of "mm a 1" l1 a l0 ty b]
        unfolding idx_eq_page [symmetric]
        by (auto simp: storeAddr_def load_touch ld2_touch)
    qed
  qed
qed

interpretation pages: page_map "storeAddr mm" loadAddr page_of for mm
  by unfold_locales (simp_all add: load_store)

text \<open>The range loop stores the addresses of the pages.\<close>

definition range_addrs :: "u64 \<Rightarrow> nat \<Rightarrow> u64 list" where
  "range_addrs virt sz = map (\<lambda>i. virt + of_nat (PAGE_SIZE * i)) [0..<(sz + PAGE_SIZE - 1) div PAGE_SIZE]"

declare storeMmapRange_loop.simps [simp del]

lemma storeMmapRange_loop_all:
  "storeMmapRange_loop mm t virt ty sz (PAGE_SIZE * k) =
     store_all (storeAddr mm) t (map (\<lambda>i. virt + of_nat (PAGE_SIZE * i)) [k..<(sz + PAGE_SIZE - 1) div PAGE_SIZE]) ty"
proof (induction "sz - PAGE_SIZE * k" arbitrary: t k rule: less_induct)
  case less
  show ?case
  proof (cases "PAGE_SIZE * k < sz")
    case True
    then have "k < (sz + 4095) div 4096" by linarith
    then have upt: "[k..<(sz + 4095) div 4096] = k # [k + 1..<(sz + 4095) div 4096]"
      by (simp add: upt_conv_Cons)
    have "sz - 4096 * (k + 1) < sz - 4096 * k" using True by simp
    from less [OF this] show ?thesis
      using True upt by (subst storeMmapRange_loop.simps) (auto simp: algebra_simps split: prod.splits)
  next
    case False
    then have "\<not> k < (sz + 4095) div 4096" by linarith
    then show ?thesis using False by (subst storeMmapRange_loop.simps) simp
  qed
qed

lemma storeMmapRange_all: "storeMmapRange mm t virt ty sz = store_all (storeAddr mm) t (range_addrs virt sz) ty"
  using storeMmapRange_loop_all [of mm t virt ty sz 0] by (simp add: storeMmapRange_def range_addrs_def)

text \<open>The addresses from a page boundary on lie in the pages stored.\<close>

lemma page_of_add:
  assumes "take_bit 12 virt = 0" and "j < PAGE_SIZE"
  shows "page_of (virt + of_nat j) = page_of virt"
proof -
  have j: "(of_nat j :: u64) = take_bit 12 (of_nat j)"
    using assms(2) by (simp add: take_bit_of_nat take_bit_nat_eq_self)
  have dis: "virt AND of_nat j = 0"
  proof (rule bit_word_eqI)
    fix i
    have "bit virt i \<Longrightarrow> 12 \<le> i"
      using arg_cong [OF assms(1), of "\<lambda>w. bit w i"] by (auto simp: bit_simps not_less)
    moreover have "bit (of_nat j :: u64) i \<Longrightarrow> i < 12"
      by (subst (asm) j) (simp add: bit_simps)
    ultimately show "bit (virt AND of_nat j) i = bit (0 :: u64) i"
      by (auto simp: bit_and_iff)
  qed
  then have "virt + of_nat j = virt OR of_nat j" by (rule disjunctive_add_eq_or)
  moreover have "drop_bit 12 (of_nat j :: u64) = 0"
    by (subst j) (simp add: drop_bit_take_bit)
  ultimately show ?thesis by (simp add: page_of_def drop_bit_or)
qed

lemma page_in_range:
  assumes "take_bit 12 virt = 0" and "j < sz"
  shows "page_of (virt + of_nat j) \<in> page_of ` set (range_addrs virt sz)"
proof -
  let ?i = "j div 4096"
  have "?i < (sz + 4095) div 4096" using assms(2) by linarith
  moreover have "page_of (virt + of_nat j) = page_of (virt + of_nat (4096 * ?i))"
  proof -
    have "unat virt mod 4096 = 0"
      using arg_cong [OF assms(1), of unat] unfolding unsigned_take_bit_eq
      unfolding take_bit_eq_mod by simp
    moreover have "unat (virt + of_nat (4096 * ?i)) mod 4096 = (unat virt + 4096 * ?i) mod 4096"
      by (simp add: unat_word_ariths unat_of_nat mod_mod_cancel mod_simps)
    ultimately have "unat (virt + of_nat (4096 * ?i)) mod 4096 = 0" by simp
    then have "unat (take_bit 12 (virt + of_nat (4096 * ?i))) = 0"
      unfolding unsigned_take_bit_eq unfolding take_bit_eq_mod by simp
    then have al: "take_bit 12 (virt + of_nat (4096 * ?i)) = 0" by (simp only: unat_eq_zero)
    have "j = 4096 * ?i + j mod 4096" by simp
    then have "(of_nat j :: u64) = of_nat (4096 * ?i) + of_nat (j mod 4096)"
      by (metis of_nat_add)
    then have "virt + of_nat j = (virt + of_nat (4096 * ?i)) + of_nat (j mod 4096)"
      by (simp only: add.assoc)
    moreover have "page_of ((virt + of_nat (4096 * ?i)) + of_nat (j mod 4096)) =
        page_of (virt + of_nat (4096 * ?i))"
      by (rule page_of_add [OF al]) simp
    ultimately show ?thesis by (simp only:)
  qed
  ultimately show ?thesis by (auto simp: range_addrs_def)
qed


lemma store_range_load:
  assumes "storeMmapRange mm t virt ty sz = (ok, t')"
  shows "ok \<Longrightarrow> loadAddr t' b = (if page_of b \<in> page_of ` set (range_addrs virt sz) then ty else loadAddr t b)"
    and "\<not> ok \<Longrightarrow> loadAddr t' b \<in> {ty, loadAddr t b}"
  using assms pages.ld_store_all [of mm t "range_addrs virt sz" ty t' b]
    pages.ld_store_all_fail [of mm t "range_addrs virt sz" ty t' b]
  by (auto simp: storeMmapRange_all)

section \<open>Properties\<close>

text \<open>C20: After a page-aligned range of memory was stored successfully, every address in it has
  the stored type; and the type of any address whose page holds none of the range's pages is as
  before.\<close>

theorem stored_range_found:
  assumes "storeMmapRange mm t virt ty sz = (True, t')" and "take_bit 12 virt = 0"
  shows "(\<forall>j < sz. loadAddr t' (virt + of_nat j) = ty) \<and>
    (\<forall>b. page_of b \<notin> page_of ` set (range_addrs virt sz) \<longrightarrow> loadAddr t' b = loadAddr t b)"
  using store_range_load(1) [OF assms(1)] page_in_range [OF assms(2)] by auto

theorem stored_range_found_witness:
  "\<exists>t'. storeMmapRange (\<lambda>_ _. True) empty1 0x7000 PINNED 5000 = (True, t') \<and>
     loadAddr t' (0x7000 + of_nat 4999) = PINNED"
proof -
  have "fst (storeMmapRange (\<lambda>_ _. True) empty1 0x7000 PINNED 5000)"
    by (simp add: storeMmapRange_def storeMmapRange_loop.simps storeAddr_def nextLevel_def
        empty1_def split: option.splits)
  then obtain t' where t': "storeMmapRange (\<lambda>_ _. True) empty1 0x7000 PINNED 5000 = (True, t')"
    by (metis prod.collapse)
  have al: "take_bit 12 (0x7000 :: u64) = 0" by simp
  have r: "\<forall>j < 5000. loadAddr t' (0x7000 + of_nat j) = PINNED"
    by (rule stored_range_found [OF t' al, THEN conjunct1])
  have "loadAddr t' (0x7000 + of_nat 4999) = PINNED" by (rule r [rule_format]) simp
  with t' show ?thesis by blast
qed

end
