(* ===== verification/Mem.thy ===== *)
theory Mem
  imports PageTable
begin

text \<open>
  The allocator (\<^verbatim>\<open>src/qatzip_mem.c\<close>): pinned memory comes from the driver's allocator and its
  pages are entered into the page table, ordinary memory comes from \<^verbatim>\<open>malloc\<close>; \<open>qzFree\<close> decides by
  the page table which of the two to give a block back to. What the driver, the C library and
  the operating system answer is an argument of each operation.
\<close>

abbreviation (input) COMMON_MEM :: int where "COMMON_MEM \<equiv> 0"
abbreviation (input) PINNED_MEM :: int where "PINNED_MEM \<equiv> 1"

text \<open>\<open>live\<close> is not a variable of the code: it records which blocks are allocated, from which
  allocator and with which size, and is what the properties are about.\<close>

datatype origin = Qae | Sys

record MemState =
  g_table :: pt3
  g_table_init :: bool
  live :: "u64 \<Rightarrow> (origin \<times> nat) option"

record MemEnv =
  lock_ok :: bool
  mmap_ok :: "u64 \<Rightarrow> nat \<Rightarrow> bool"
  qz_init_needed :: bool
  qz_init_ok :: bool
  numa_ok :: bool
  qae_result :: u64
  malloc_result :: u64

definition PAGE_MASK :: u64 where "PAGE_MASK = NOT 0xFFF"

fun doUserMemset_loop :: "nat \<Rightarrow> bytes \<Rightarrow> u8 \<Rightarrow> nat \<Rightarrow> bytes" where
  "doUserMemset_loop 0 p filler lim = p"
| "doUserMemset_loop (Suc n) p filler lim = doUserMemset_loop n (p[lim := filler]) filler (lim + 1)"

text \<open>The loop stores \<open>filler\<close> at the offsets below \<open>count\<close>; \<open>None\<close> when the buffer is shorter.\<close>

definition doUserMemset :: "bytes \<Rightarrow> u8 \<Rightarrow> u32 \<Rightarrow> bytes option" where
  "doUserMemset p filler count =
     (if unat count \<le> length p then Some (doUserMemset_loop (unat count) p filler 0) else None)"

definition qzMemFindAddr :: "pt3 \<Rightarrow> u64 \<Rightarrow> int" where
  "qzMemFindAddr t a = (if loadAddr t (a AND PAGE_MASK) = PINNED then PINNED_MEM else COMMON_MEM)"

definition qzMemRegAddr :: "MemEnv \<Rightarrow> pt3 \<Rightarrow> u64 \<Rightarrow> nat \<Rightarrow> bool \<times> pt3" where
  "qzMemRegAddr env t a sz =
    (if \<not> lock_ok env then (False, t)
     else if qzMemFindAddr t a = PINNED_MEM \<and> qzMemFindAddr t (a + of_nat sz - 1) = PINNED_MEM
     then (True, t)
     else let b = a AND PAGE_MASK in
       storeMmapRange (mmap_ok env) t b PINNED (sz + unat (a - b)))"

text \<open>\<^verbatim>\<open>qzMemUnRegAddr\<close> has an empty body.\<close>

definition qzMemUnRegAddr :: "u64 \<Rightarrow> pt3 \<Rightarrow> pt3" where
  "qzMemUnRegAddr a t = t"

definition qzMemDestory :: "MemEnv \<Rightarrow> MemState \<Rightarrow> MemState" where
  "qzMemDestory env st =
    (if \<not> g_table_init st then st
     else if \<not> lock_ok env then st
     else st\<lparr>g_table := fst (freePageTable (g_table st)), g_table_init := False\<rparr>)"

definition init_table :: "MemState \<Rightarrow> MemState" where
  "init_table st = (if \<not> g_table_init st then st\<lparr>g_table := empty1, g_table_init := True\<rparr> else st)"

text \<open>The pointer returned (0 is NULL).\<close>

definition qzMalloc :: "MemEnv \<Rightarrow> nat \<Rightarrow> int \<Rightarrow> MemState \<Rightarrow> u64 \<times> MemState" where
  "qzMalloc env sz pinned st =
    (if \<not> g_table_init st \<and> \<not> lock_ok env then (0, st)
     else
       let st = init_table st in
       if pinned = 1 \<and> qz_init_needed env \<and> \<not> qz_init_ok env then (0, st)
       else if \<not> numa_ok env then (0, st)
       else if qae_result env = 0 then
         (if pinned = 0 then
            (malloc_result env,
             if malloc_result env = 0 then st
             else st\<lparr>live := (live st)(malloc_result env \<mapsto> (Sys, sz))\<rparr>)
          else (0, st))
       else
         (case qzMemRegAddr env (g_table st) (qae_result env) sz of (ok, t) \<Rightarrow>
            if \<not> ok then (0, st\<lparr>g_table := t\<rparr>)
            else (qae_result env, st\<lparr>g_table := t, live := (live st)(qae_result env \<mapsto> (Qae, sz))\<rparr>)))"

text \<open>The allocator the block is given back to.\<close>

definition qzFree :: "u64 \<Rightarrow> MemState \<Rightarrow> origin option \<times> MemState" where
  "qzFree m st =
    (if m = 0 then (None, st)
     else if qzMemFindAddr (g_table st) m = PINNED_MEM
     then (Some Qae, st\<lparr>g_table := qzMemUnRegAddr m (g_table st), live := (live st)(m := None)\<rparr>)
     else (Some Sys, st\<lparr>live := (live st)(m := None)\<rparr>))"

section \<open>Pages stay pinned\<close>

lemma bit_page_mask: "bit (0xFFF :: u64) i \<longleftrightarrow> i < 12"
proof -
  have "(0xFFF :: u64) = mask 12" by (simp add: mask_eq_exp_minus_1)
  then show ?thesis by (simp only: bit_mask_iff) auto
qed

lemma bit_PAGE_MASK: "bit PAGE_MASK i \<longleftrightarrow> 12 \<le> i \<and> i < 64"
  unfolding PAGE_MASK_def by (simp only: bit_not_iff bit_page_mask) auto

lemma page_of_mask: "page_of (a AND PAGE_MASK) = page_of a"
proof (rule bit_word_eqI)
  fix i assume "i < LENGTH(64)"
  then show "bit (page_of (a AND PAGE_MASK)) i = bit (page_of a) i"
    by (auto simp: page_of_def bit_simps bit_PAGE_MASK)
qed

lemma loadAddr_page: "page_of a = page_of b \<Longrightarrow> loadAddr t a = loadAddr t b"
  unfolding idx_eq_page [symmetric] by (auto simp: loadAddr_def split: option.splits)

lemma find_pinned: "qzMemFindAddr t a = PINNED_MEM \<longleftrightarrow> loadAddr t a = PINNED"
  using loadAddr_page [OF page_of_mask, of t a] by (simp add: qzMemFindAddr_def)

lemma reg_keeps: "qzMemRegAddr env t a sz = (ok, t') \<Longrightarrow> loadAddr t b = PINNED \<Longrightarrow> loadAddr t' b = PINNED"
  using store_range_load [of "mmap_ok env" t "a AND PAGE_MASK" PINNED "sz + unat (a - (a AND PAGE_MASK))" ok t' b]
  by (cases ok) (auto simp: qzMemRegAddr_def Let_def split: if_splits)

lemma mask_aligned: "take_bit 12 (a AND PAGE_MASK) = 0"
proof (rule bit_word_eqI)
  fix i assume "i < LENGTH(64)"
  then show "bit (take_bit 12 (a AND PAGE_MASK)) i = bit (0 :: u64) i"
    by (auto simp: bit_simps bit_PAGE_MASK)
qed

lemma reg_pins:
  assumes "qzMemRegAddr env t a sz = (True, t')" and "0 < sz"
  shows "loadAddr t' a = PINNED"
proof (cases "qzMemFindAddr t a = PINNED_MEM \<and> qzMemFindAddr t (a + of_nat sz - 1) = PINNED_MEM")
  case True
  then show ?thesis using assms(1) reg_keeps [OF assms(1)] by (simp add: find_pinned)
next
  case False
  let ?b = "a AND PAGE_MASK"
  have "storeMmapRange (mmap_ok env) t ?b PINNED (sz + unat (a - ?b)) = (True, t')"
    using assms(1) False by (simp add: qzMemRegAddr_def Let_def split: if_splits)
  from store_range_load(1) [OF this]
  have "loadAddr t' a = (if page_of a \<in> page_of ` set (range_addrs ?b (sz + unat (a - ?b)))
      then PINNED else loadAddr t a)" by simp
  moreover have "page_of (?b + of_nat (unat (a - ?b))) \<in> page_of ` set (range_addrs ?b (sz + unat (a - ?b)))"
    by (rule page_in_range [OF mask_aligned]) (use assms(2) in simp)
  moreover have "?b + of_nat (unat (a - ?b)) = a" by simp
  ultimately show ?thesis by simp
qed

section \<open>Reachable states\<close>

text \<open>The histories of the allocator: the two underlying allocators return blocks that are not
  live, sizes are positive, only live blocks are freed and the table is destroyed when nothing is
  live.\<close>

inductive mem_reach :: "MemState \<Rightarrow> bool" where
  start: "mem_reach \<lparr>g_table = empty1, g_table_init = False, live = Map.empty\<rparr>"
| malloc: "mem_reach st \<Longrightarrow> 0 < sz \<Longrightarrow> live st (qae_result env) = None \<Longrightarrow>
    live st (malloc_result env) = None \<Longrightarrow>
    mem_reach (snd (qzMalloc env sz pinned st))"
| free: "mem_reach st \<Longrightarrow> live st m \<noteq> None \<Longrightarrow> mem_reach (snd (qzFree m st))"
| destroy: "mem_reach st \<Longrightarrow> live st = Map.empty \<Longrightarrow> mem_reach (qzMemDestory env st)"

text \<open>Every live block is marked according to its allocator. A table that is not initialised is
  cleared by the next allocation, so nothing from the driver is live then.\<close>

definition mem_ok :: "MemState \<Rightarrow> bool" where
  "mem_ok st \<longleftrightarrow> live st 0 = None \<and> (\<not> g_table_init st \<longrightarrow> live st = Map.empty) \<and>
     (\<forall>a og sz. live st a = Some (og, sz) \<longrightarrow> og = Qae \<longrightarrow> loadAddr (g_table st) a = PINNED)"

lemma mem_ok_qzMalloc:
  assumes ok: "mem_ok st" and sz: "0 < sz"
  shows "mem_ok (snd (qzMalloc env sz pinned st))"
proof -
  define s where "s = init_table st"
  have s: "mem_ok s" "g_table_init s" using ok by (auto simp: s_def init_table_def mem_ok_def)
  obtain okr t where r: "qzMemRegAddr env (g_table s) (qae_result env) sz = (okr, t)"
    by (cases "qzMemRegAddr env (g_table s) (qae_result env) sz")
  have keeps: "loadAddr (g_table s) b = PINNED \<Longrightarrow> loadAddr t b = PINNED" for b
    using reg_keeps [OF r] .
  have pins: "okr \<Longrightarrow> loadAddr t (qae_result env) = PINNED"
    using reg_pins r sz by metis
  have t: "mem_ok (s\<lparr>g_table := t\<rparr>)" using s keeps by (auto simp: mem_ok_def)
  have q: "mem_ok (s\<lparr>g_table := t, live := (live s)(qae_result env \<mapsto> (Qae, sz))\<rparr>)"
    if okr "qae_result env \<noteq> 0"
    using s keeps pins that by (auto simp: mem_ok_def)
  have m: "mem_ok (s\<lparr>live := (live s)(malloc_result env \<mapsto> (Sys, sz))\<rparr>)"
    if "malloc_result env \<noteq> 0"
    using s that by (auto simp: mem_ok_def)
  show ?thesis
    using ok s t q m r by (simp add: qzMalloc_def s_def [symmetric] Let_def)
qed

lemma mem_ok_reach: "mem_reach st \<Longrightarrow> mem_ok st"
proof (induction rule: mem_reach.induct)
  case (destroy st env)
  then show ?case by (auto simp: qzMemDestory_def mem_ok_def)
qed (auto simp: mem_ok_qzMalloc, auto simp: mem_ok_def qzFree_def qzMemUnRegAddr_def)

section \<open>Properties\<close>

text \<open>C23: Memory that came from the driver's allocator is always given back to it: in every
  reachable state of the allocator, its page is still marked as pinned when it is freed.\<close>

theorem pinned_freed_by_driver:
  assumes "mem_reach st" and "live st m = Some (Qae, sz)"
  shows "fst (qzFree m st) = Some Qae"
  using mem_ok_reach [OF assms(1)] assms(2)
  by (auto simp: mem_ok_def qzFree_def find_pinned)

definition mem_example_env :: "u64 \<Rightarrow> u64 \<Rightarrow> MemEnv" where
  "mem_example_env q m = \<lparr>lock_ok = True, mmap_ok = (\<lambda>_ _. True), qz_init_needed = False,
     qz_init_ok = True, numa_ok = True, qae_result = q, malloc_result = m\<rparr>"

definition mem_start :: MemState where
  "mem_start = \<lparr>g_table = empty1, g_table_init = False, live = Map.empty\<rparr>"

lemma example_alloc:
  "qzMalloc (mem_example_env 0x5000 0) 100 1 mem_start = (0x5000,
     \<lparr>g_table = snd (storeMmapRange (\<lambda>_ _. True) empty1 0x5000 PINNED 100), g_table_init = True,
      live = [0x5000 \<mapsto> (Qae, 100)]\<rparr>)"
  by (simp add: qzMalloc_def qzMemRegAddr_def qzMemFindAddr_def mem_example_env_def mem_start_def
      init_table_def PAGE_MASK_def Let_def storeMmapRange_def storeMmapRange_loop.simps storeAddr_def
      nextLevel_def empty1_def loadAddr_def)

theorem pinned_freed_by_driver_witness:
  "fst (qzFree 0x5000 (snd (qzMalloc (mem_example_env 0x5000 0) 100 1 mem_start))) = Some Qae"
proof (rule pinned_freed_by_driver)
  show "mem_reach (snd (qzMalloc (mem_example_env 0x5000 0) 100 1 mem_start))"
    unfolding mem_start_def by (intro mem_reach.malloc mem_reach.start) simp_all
qed (simp add: example_alloc)

text \<open>Freed pages stay marked as pinned, because unregistering does nothing: when the C
  library later returns a block in such a page, \<open>qzFree\<close> hands this block to the driver's
  allocator.\<close>

theorem freed_page_stays_pinned:
  assumes "mem_reach st" and "live st m = Some (Qae, sz)" and "m \<noteq> 0" and "0 < n"
    and "lock_ok env" "numa_ok env" "qae_result env = 0" "malloc_result env = m"
  shows "\<exists>st1 st2. qzFree m st = (Some Qae, st1) \<and> qzMalloc env n 0 st1 = (m, st2) \<and>
    mem_reach st2 \<and> live st2 m = Some (Sys, n) \<and> fst (qzFree m st2) = Some Qae"
proof -
  have ok: "mem_ok st" by (rule mem_ok_reach [OF assms(1)])
  then have pin: "loadAddr (g_table st) m = PINNED" and init: "g_table_init st" and z: "live st 0 = None"
    using assms(2) by (auto simp: mem_ok_def)
  let ?s1 = "st\<lparr>live := (live st)(m := None)\<rparr>"
  have f: "qzFree m st = (Some Qae, ?s1)"
    using pin assms(3) by (simp add: qzFree_def find_pinned qzMemUnRegAddr_def)
  let ?s2 = "?s1\<lparr>live := (live ?s1)(m \<mapsto> (Sys, n))\<rparr>"
  have a: "qzMalloc env n 0 ?s1 = (m, ?s2)"
    using init assms by (simp add: qzMalloc_def init_table_def Let_def)
  have "mem_reach ?s1"
    using mem_reach.free [OF assms(1), of m] assms(2) f by simp
  then have "mem_reach (snd (qzMalloc env n 0 ?s1))"
    by (rule mem_reach.malloc) (use assms z in simp_all)
  then show ?thesis
    using f a pin assms(3) by (auto simp: qzFree_def find_pinned)
qed

theorem freed_page_stays_pinned_witness:
  "\<exists>st st1 st2. qzFree 0x5000 st = (Some Qae, st1) \<and>
     qzMalloc (mem_example_env 0 0x5000) 8 0 st1 = (0x5000, st2) \<and>
     live st2 0x5000 = Some (Sys, 8) \<and> fst (qzFree 0x5000 st2) = Some Qae"
proof -
  let ?st = "snd (qzMalloc (mem_example_env 0x5000 0) 100 1 mem_start)"
  have r: "mem_reach ?st"
    unfolding mem_start_def by (intro mem_reach.malloc mem_reach.start) simp_all
  have l: "live ?st 0x5000 = Some (Qae, 100)" by (simp add: example_alloc)
  have "\<exists>st1 st2. qzFree 0x5000 ?st = (Some Qae, st1) \<and>
      qzMalloc (mem_example_env 0 0x5000) 8 0 st1 = (0x5000, st2) \<and>
      mem_reach st2 \<and> live st2 0x5000 = Some (Sys, 8) \<and> fst (qzFree 0x5000 st2) = Some Qae"
    by (rule freed_page_stays_pinned [OF r l]) (simp_all add: mem_example_env_def)
  then show ?thesis by blast
qed

end
