(* ===== verification/Spec2Isabelle.thy ===== *)
theory Spec2Isabelle
  imports SevenZip AsyncFaults ApiDecomp Init InstMem SwCorrect DecompOrder CompFaults Stream Prelude Types Store Params Gzip XXHash Lz4 Metrix Session Format Bound Ring PageTable Mem
begin

text \<open>
  QATzip: a model of the library in \<^verbatim>\<open>src/src\<close> and of the 7z archives of \<^verbatim>\<open>src/utils\<close>, and the theorems about it.

  QATzip compresses and decompresses buffers with a hardware accelerator. A session (\<^verbatim>\<open>QzSess_T\<close>)
  holds checked parameters; a compression call cuts the source into blocks of the hardware buffer
  size, submits them to the driver, collects the answers in order and puts a header and a footer
  around each (gzip, extended gzip, zlib, 4-byte, LZ4, LZ4s, raw). Decompression finds the members by
  their headers and footers (\<^verbatim>\<open>checkHeader\<close>). What the hardware cannot take goes to software. Streams
  put buffers around the calls; pinned memory and a page table tell which addresses the hardware can
  reach.

  Theories, in the order of their imports:

  \<^item> Prelude: byte strings, reads that may leave them, little-endian fields, words.
  \<^item> Types: return codes, enumerations, limits, internal parameters, hardware results
    (\<^verbatim>\<open>qatzip.h\<close>, \<^verbatim>\<open>qatzip_internal.h\<close>). Store: pointers and memory blocks.
  \<^item> Params: the session parameters of the user, their checks, setters, getters and defaults
    (\<^verbatim>\<open>qatzip_utils.c\<close>, \<^verbatim>\<open>qatzip.c\<close>): the checks are characterised, and set followed by get is the
    identity on checked parameters.
  \<^item> Gzip, XXHash, Lz4: the formats (\<^verbatim>\<open>qatzip_gzip.c\<close>, \<^verbatim>\<open>xxhash.c\<close>, \<^verbatim>\<open>qatzip_lz4.c\<close>): what is generated
    is accepted, searches for footers stay inside the data and end, the streaming checksum is the
    one-shot checksum.
  \<^item> Metrix: the sliding window of latencies that chooses between hardware and software.
  \<^item> Session: setup and teardown of the five kinds of session, with what they allocate.
  \<^item> Format: the dispatch over the formats and \<^verbatim>\<open>checkHeader\<close>. Bound: the bound on the compressed size.
  \<^item> Buffers: the request buffers of an instance, their four counters and the setup and clean-up of
    both directions (\<^verbatim>\<open>qatzip_utils.c\<close>).
  \<^item> Slots: the locale \<open>request_slots\<close>, the ring of request buffers both directions of the pipeline share.
  \<^item> Pipeline: \<^verbatim>\<open>doCompressIn\<close>, the driver and \<^verbatim>\<open>doCompressOut\<close> as interleaved steps, with the software
    fallbacks of \<^verbatim>\<open>qatzip_sw.c\<close>; a single thread submits everything before it collects anything (\<open>polling\<close>).
    PipeInv and CompOrder: on a healthy instance the output is the framed blocks in order whatever the interleaving, and a call
    can always end, if and only if two threads run it or the instance has a buffer for every block. CompFaults: where fallbacks
    and small destinations break this.
  \<^item> DecompPipe, DecompInv, DecompSteps, DecompOrder: the same for decompression, where the submitting
    part finds the members by their headers: the output is the members' data in order.
  \<^item> SwFallback: the software path of \<^verbatim>\<open>qatzip_sw.c\<close> over the functions of zlib and LZ4 as parameters.
    SwCorrect: with libraries that behave as documented it stays in its buffers and returns, and makes what the reference
    \<open>sw_reference\<close> makes, which knows nothing of the code: one stream over the chunks of the source, in the literal frame of the format.
  \<^item> InstMem: the memory of an instance and the session of the driver on it (\<^verbatim>\<open>getInstMem\<close>,
    \<^verbatim>\<open>cleanUpInstMem\<close>, \<^verbatim>\<open>qzSetupHW\<close>, \<^verbatim>\<open>qzUpdateCpaSession\<close>, \<^verbatim>\<open>removeSession\<close>) on a heap that knows which
    allocator a block came from: which failing allocations make the set-up fault (\<open>mem_faults\<close>: the code follows unset or null pointers
    after two of them), and that with any other failure nothing is lost or given back twice.
  \<^item> Hardware: the lists of instances by device and their shuffle. Grab: the search for a free instance,
    alone and by any number of threads. Init: \<^verbatim>\<open>qzInit\<close> and \<^verbatim>\<open>stopQat\<close> with every way they can fail. The records of Grab and Init
    hold no memory of an instance: Api keeps it beside them, in \<open>a_mem\<close>.
  \<^item> Api: \<^verbatim>\<open>qzCompress\<close> and \<^verbatim>\<open>qzDecompress\<close> in all their forms, from the check of the arguments to the
    totals of the session. ApiCorrect: what a call leaves, and its composition with the pipeline: from
    the arguments to the framed blocks in the destination, that such a call can always come to its end, and that a process
    without hardware gives the result of the software reference. ApiDecomp: the same for decompression.
  \<^item> Async: the asynchronous compression (\<^verbatim>\<open>AsyncReqConsumeJob\<close>, \<^verbatim>\<open>AsyncCompressIn\<close>, \<^verbatim>\<open>AsyncCompressOut\<close>): callers, the
    consumer, the driver and the polling thread as interleaved steps on requests that are freed when they are
    answered. AsyncInv, AsyncSteps, AsyncOrder: the invariant (a third instance of \<open>request_slots\<close>) and its steps.
    AsyncRun: on a healthy instance the callbacks come in the order of the queue, each once, and all come.
    AsyncFaults: where requests are lost or used after they were freed.
  \<^item> Stream: the streaming calls (\<^verbatim>\<open>qatzip_stream.c\<close>): nothing is lost, repeated or reordered unless a call
    returns with both input and output pending.
  \<^item> Ring: the lock-free request ring as a bounded FIFO queue, through the locale \<open>bounded_queue\<close>.
  \<^item> PageTable and Mem: the table of pinned pages (locale \<open>page_map\<close>) and the allocator on it.
  \<^item> SevenRead to SevenZip: the 7z archives of \<^verbatim>\<open>qzip\<close> (\<^verbatim>\<open>src/utils/qzip_7z.c\<close>). SevenRead: the file as it is read, numbers of
    variable length, and the locale \<open>codec\<close> of a writer and its reader, interpreted on every kind of field. SevenList: the chain of nodes as the
    locale \<open>growing_list\<close>. SevenGen: files, headers and how they are made. SevenWrite and SevenBytes: the writers and the bytes they write, the
    specification of the format. SevenParse: the readers, which trust nothing. SevenEnds: reading ends on every file. SevenRound and
    SevenFiles: what was written is read back. SevenArchive: headers around the data and the sizes of the files. SevenDeliver: how the decompressed
    bytes are dealt out to files and links on a disk that maps names to contents, with the decisions of the operating system as an argument
    (\<open>DiskOS\<close>), and what goes wrong with full disks, broken links and equal names. SevenZip: the theorems on archives, and the inputs on which the code leaves its arrays.

  Representation. A struct is a record with the source's field names where they do not clash, an
  integer is a word of its width where it can wrap and a natural number elsewhere, a possible read or
  write outside a block is \<open>None\<close> or \<open>Fault\<close>, and a return code is an integer with the source's value.
  Pointers are a block and an offset. Loops that are not structural take fuel: for the LZ4 footer
  search \<open>avail div 4 + 2\<close> rounds are enough because each round skips a block header, for a stream
  call the buffer length, the input length and one more, because each round takes a byte or ends;
  for software compression of \<open>n\<close> bytes \<open>n + 1\<close> rounds, for software decompression into \<open>m\<close> bytes \<open>n + m + 1\<close>,
  because a round takes or gives a byte or is the last; for the search of an instance among \<open>n\<close> ten looks at each
  and at the end of each pass; for the shuffle 1024 devices for each instance; for the tags of a 7z header twice the length of the file
  and three, because each round reads a byte and only one of them can move the position back; for dealing out a buffer the number of files and one more, because
  on a disk that takes whole writes each round but the last completes a file (on a full disk no fuel is enough: \<open>full_disk_spins\<close>).

  Parameters of the model: the driver (its answers, its limits and bounds), zlib's and LZ4's
  coders and \<^verbatim>\<open>crc32_combine\<close>, the C library and the operating system (allocation, mapping, clocks).
  Hypotheses on them are named: \<open>healthy\<close> and \<open>d_healthy\<close> (the driver answers each block with success,
  consumes it and keeps to the room it was given), \<open>lawful\<close> and \<open>ample\<close> (the same for the call a stream
  makes), \<open>lawful_deflate\<close>, \<open>lawful_inflate\<close>, \<open>lawful_lz4\<close> and \<open>zlib_error_stays\<close> (the documented behaviour
  of zlib's and LZ4's coders), \<open>lawful_frame\<close> (LZ4's frame compressor keeps to its room), \<open>plain_os\<close> (names that are no links can be opened
  and are themselves, and writes are whole), \<open>cannot_start\<close> (no hardware can be found), \<open>drv_well\<close> and \<open>env_ok\<close> (the driver sets up and removes sessions, and lists as
  many instances as it counts), \<open>workload_ok\<close> and \<open>fresh_async\<close> (the driver and the session of asynchronous compression), \<open>crc_law\<close> (zlib's
  \<^verbatim>\<open>crc32\<close> over one piece after another is the one over all of them).

  Not modelled: the reading of the device list from the driver's files; the command line tools but for the 7z archives, and of these the
  scan of the file system, the creation of directories, times and modes, and the freeing of headers; asynchronous decompression and the calls that
  start asynchronous requests; the 64-bit xxHash, the pool of stream buffers, logging and statistics of threads, and sleeping and polling
  intervals of the threads.
\<close>

end
